(* ===== verification/Prelude.thy ===== *)
theory Prelude
  imports Main "HOL-Library.Word" "HOL-Library.Multiset"
begin

unbundle bit_operations_syntax

text \<open>
  The shared library of the development: the types of C's integers, the search for the first
  entry of a table, the contents of a ring buffer, and the collections of rules
  the component theories extend.

  \<^item> \<open>find_idx\<close> is the loop \<^verbatim>\<open>for(p = table; p < &table[N]; p++) if(cond) goto found\<close> that the
    kernel uses for every fixed table (processes, files, inodes, descriptors).
  \<^item> \<open>ring_list\<close> is the abstraction of a circular array: the entries from a start index on,
    in order. The message queue, the pipe and the console input buffer are such arrays.
\<close>

named_theorems run_simps \<open>execution rules of kernel operations\<close>
named_theorems inv_intros \<open>preservation of component invariants\<close>

type_synonym byte = "8 word"
type_synonym u16 = "16 word"
type_synonym u32 = "32 word"

text \<open>The bytes of a string literal, without the terminating zero.\<close>

definition bytes :: "string \<Rightarrow> byte list" where
  "bytes s = map of_char s"

lemma unat_u32_bound: "unat (x :: u32) < 4294967296"
  using unsigned_less [of x] by simp

lemma unat_of_nat_u32: "n < 4294967296 \<Longrightarrow> unat (of_nat n :: u32) = n"
  by (simp add: unat_of_nat)

lemma unat_pred_u32: "x \<noteq> 0 \<Longrightarrow> unat (x - 1) = unat (x :: u32) - 1"
  using unat_sub [of 1 x] by (simp add: word_le_nat_alt Suc_le_eq unat_gt_0)

section \<open>The first entry of a table\<close>

fun find_idx :: "('a \<Rightarrow> bool) \<Rightarrow> 'a list \<Rightarrow> nat option" where
  "find_idx P [] = None"
| "find_idx P (x # xs) = (if P x then Some 0 else map_option Suc (find_idx P xs))"

lemma find_idx_None_iff: "find_idx P xs = None \<longleftrightarrow> (\<forall>x \<in> set xs. \<not> P x)"
  by (induction xs) auto

lemma find_idx_SomeD:
  "find_idx P xs = Some i \<Longrightarrow> i < length xs \<and> P (xs ! i) \<and> (\<forall>j < i. \<not> P (xs ! j))"
proof (induction xs arbitrary: i)
  case Nil
  then show ?case by simp
next
  case (Cons x xs)
  show ?case
  proof (cases "P x")
    case True
    with Cons.prems show ?thesis by simp
  next
    case False
    with Cons.prems obtain k where k: "find_idx P xs = Some k" "i = Suc k" by auto
    with Cons.IH [of k] False show ?thesis
      by (auto simp: less_Suc_eq_0_disj)
  qed
qed

lemma find_idx_SomeI:
  "i < length xs \<Longrightarrow> P (xs ! i) \<Longrightarrow> (\<And>j. j < i \<Longrightarrow> \<not> P (xs ! j)) \<Longrightarrow> find_idx P xs = Some i"
proof (induction xs arbitrary: i)
  case Nil
  then show ?case by simp
next
  case (Cons x xs)
  show ?case
  proof (cases i)
    case 0
    with Cons.prems show ?thesis by simp
  next
    case (Suc k)
    from Cons.prems(3) [of 0] Suc have "\<not> P x" by simp
    moreover from Cons.prems(3) Suc have "\<And>j. j < k \<Longrightarrow> \<not> P (xs ! j)"
      by (metis Suc_less_eq nth_Cons_Suc)
    with Cons.prems Suc have "find_idx P xs = Some k"
      by (intro Cons.IH) auto
    ultimately show ?thesis using Suc by simp
  qed
qed

lemma find_idx_ex: "x \<in> set xs \<Longrightarrow> P x \<Longrightarrow> \<exists>i. find_idx P xs = Some i"
  by (metis find_idx_None_iff not_None_eq)

lemma find_idx_bound: "find_idx P xs = Some i \<Longrightarrow> i < length xs"
  by (simp add: find_idx_SomeD)

lemma find_idx_holds: "find_idx P xs = Some i \<Longrightarrow> P (xs ! i)"
  by (simp add: find_idx_SomeD)

section \<open>The type int of C\<close>

text \<open>
  The value of an \<^verbatim>\<open>int\<close> of 32 bits after an operation whose exact result is \<open>n\<close>. Overflow of a signed
  type is not defined in C; the compilers the code is meant for wrap around.
\<close>

definition int32 :: "int \<Rightarrow> int" where
  "int32 n = signed_take_bit 31 n"

lemma int32_id [simp]: "- 2147483648 \<le> n \<Longrightarrow> n < 2147483648 \<Longrightarrow> int32 n = n"
  by (simp add: int32_def signed_take_bit_int_eq_self)

lemma int32_max: "int32 2147483648 = - 2147483648"
  by (simp add: int32_def signed_take_bit_int_eq_self_iff signed_take_bit_eq_if_negative signed_take_bit_eq_if_positive signed_take_bit_rec)

section \<open>Lists\<close>

lemma map_list_update_same: "f x = f (xs ! i) \<Longrightarrow> map f (xs[i := x]) = map f xs"
  by (metis list_update_id map_update)

lemma map_list_update: "map f (xs[i := x]) = (map f xs)[i := f x]"
  by (rule map_update)

lemma distinct_map_nthD:
  "distinct (map f xs) \<Longrightarrow> i < length xs \<Longrightarrow> j < length xs \<Longrightarrow> f (xs ! i) = f (xs ! j) \<Longrightarrow> i = j"
  by (metis length_map nth_eq_iff_index_eq nth_map)

lemma list_all_update: "list_all P xs \<Longrightarrow> P x \<Longrightarrow> list_all P (xs[i := x])"
  using set_update_subset_insert by (fastforce simp: list_all_iff)

text \<open>The entry at \<open>k\<close> removed, the ones behind it moved up by one.\<close>

definition remove_nth :: "nat \<Rightarrow> 'a list \<Rightarrow> 'a list" where
  "remove_nth k xs = take k xs @ drop (Suc k) xs"

lemma length_remove_nth [simp]: "k < length xs \<Longrightarrow> length (remove_nth k xs) = length xs - 1"
  by (simp add: remove_nth_def)

lemma nth_remove_nth:
  "k < length xs \<Longrightarrow> i < length xs - 1 \<Longrightarrow>
     remove_nth k xs ! i = (if i < k then xs ! i else xs ! Suc i)"
  by (auto simp: remove_nth_def nth_append min_def)

section \<open>Ring buffers\<close>

definition ring_list :: "'a list \<Rightarrow> nat \<Rightarrow> nat \<Rightarrow> 'a list" where
  "ring_list buf h n = map (\<lambda>i. buf ! ((h + i) mod length buf)) [0..<n]"

lemma length_ring_list [simp]: "length (ring_list buf h n) = n"
  by (simp add: ring_list_def)

lemma ring_list_0 [simp]: "ring_list buf h 0 = []"
  by (simp add: ring_list_def)

lemma nth_ring_list [simp]: "i < n \<Longrightarrow> ring_list buf h n ! i = buf ! ((h + i) mod length buf)"
  by (simp add: ring_list_def)

lemma ring_list_Suc_hd:
  "ring_list buf h (Suc n) = buf ! (h mod length buf) # ring_list buf (Suc h) n"
  by (rule nth_equalityI) (auto simp: nth_Cons split: nat.splits)

text \<open>Two ring positions at a distance below the size of the buffer are different slots.\<close>

lemma ring_pos_neq:
  assumes "i < j" "j < i + N"
  shows "(i::nat) mod N \<noteq> j mod N"
proof
  assume "i mod N = j mod N"
  with assms(1) have "N dvd j - i"
    using mod_eq_dvd_iff_nat [of i j N] by simp
  moreover from assms have "0 < j - i" "j - i < N" by auto
  ultimately show False by (simp add: nat_dvd_not_less)
qed

lemma ring_list_snoc:
  assumes "n < length buf"
  shows "ring_list (buf[(h + n) mod length buf := x]) h (Suc n) = ring_list buf h n @ [x]"
proof (rule nth_equalityI)
  show "length (ring_list (buf[(h + n) mod length buf := x]) h (Suc n)) = length (ring_list buf h n @ [x])"
    by simp
  fix i assume "i < length (ring_list (buf[(h + n) mod length buf := x]) h (Suc n))"
  then have i: "i < Suc n" by simp
  have pos: "(h + n) mod length buf < length buf" using assms by (auto intro: mod_less_divisor)
  show "ring_list (buf[(h + n) mod length buf := x]) h (Suc n) ! i = (ring_list buf h n @ [x]) ! i"
  proof (cases "i = n")
    case True
    with pos show ?thesis by (simp add: nth_append)
  next
    case False
    with i have "i < n" by simp
    moreover have "(h + i) mod length buf \<noteq> (h + n) mod length buf"
      by (rule ring_pos_neq) (use \<open>i < n\<close> assms in auto)
    ultimately show ?thesis by (simp add: nth_append)
  qed
qed

lemma ring_list_update_other:
  assumes "\<And>i. i < n \<Longrightarrow> (h + i) mod length buf \<noteq> k"
  shows "ring_list (buf[k := x]) h n = ring_list buf h n"
  by (rule nth_equalityI) (auto simp: assms [symmetric] nth_list_update_neq)

end
