(* ===== verification/Kmonad.thy ===== *)
theory Kmonad
  imports Prelude
begin

text \<open>
  How kernel code is modelled. A kernel function is a function of the state of the kernel that
  ends in one of four ways:

  \<^item> \<open>Ret a s\<close>: it returns \<open>a\<close> in state \<open>s\<close>;
  \<^item> \<open>Panic m\<close>: it calls \<^verbatim>\<open>panic(m)\<close>, after which the kernel never continues;
  \<^item> \<open>Swtch s\<close>: it gives the processor up in state \<open>s\<close> through \<^verbatim>\<open>swtch\<close> in \<^verbatim>\<open>sched()\<close>
    (it sleeps, yields or exits). What happens when the scheduler comes back to it is a
    separate operation of the model, so that steps of other processes can come in between;
  \<^item> \<open>Diverge\<close>: it is in a loop it never leaves.

  Operations are put together with \<open>bindK\<close>. \<open>acquire\<close> and \<open>release\<close> are the spin locks as the
  rest of the kernel sees them: the set of the locks this processor holds, a panic when a lock is
  acquired twice or released without being held. The theory \<open>Spinlock\<close> models
  \<^verbatim>\<open>spinlock.c\<close> itself, with \<^verbatim>\<open>pushcli\<close>, \<^verbatim>\<open>popcli\<close> and \<^verbatim>\<open>xchg\<close>, and shows that it
  implements these two operations. The state is a \<open>record\<close> that every component extends by
  its own fields.
\<close>

section \<open>Locks and sleep channels\<close>

text \<open>
  The spin locks of the kernel, by the object they protect: \<^verbatim>\<open>ptable.lock\<close>, \<^verbatim>\<open>kmem.lock\<close>,
  \<^verbatim>\<open>bcache.lock\<close>, \<^verbatim>\<open>icache.lock\<close>, \<^verbatim>\<open>log.lock\<close>, \<^verbatim>\<open>ftable.lock\<close>, \<^verbatim>\<open>tickslock\<close>, \<^verbatim>\<open>cons.lock\<close>,
  \<^verbatim>\<open>idelock\<close>, \<^verbatim>\<open>msgq.lock\<close>, the lock of each pipe, and the spin lock inside each sleep lock.
\<close>

datatype slock = BufLock nat | InodeLock nat

datatype lockid =
    L_ptable | L_kmem | L_bcache | L_icache | L_log | L_ftable | L_ticks | L_cons
  | L_ide | L_msgq | L_pipe nat | L_sleep slock

text \<open>
  The addresses a process sleeps on (\<^verbatim>\<open>void *chan\<close>), by the object they are the address of.
\<close>

datatype chan =
    ChanProc nat | ChanTicks | ChanLog | ChanSlock slock | ChanBuf nat
  | ChanPipeRead nat | ChanPipeWrite nat | ChanInput

section \<open>Outcomes\<close>

datatype ('s, 'a) outcome = Ret 'a 's | Panic string | Swtch 's | Diverge

type_synonym ('s, 'a) kop = "'s \<Rightarrow> ('s, 'a) outcome"

definition retK :: "'a \<Rightarrow> ('s, 'a) kop" where
  "retK a s = Ret a s"

definition bindK :: "('s, 'a) kop \<Rightarrow> ('a \<Rightarrow> ('s, 'b) kop) \<Rightarrow> ('s, 'b) kop" where
  "bindK m f s = (case m s of Ret a s' \<Rightarrow> f a s' | Panic e \<Rightarrow> Panic e | Swtch s' \<Rightarrow> Swtch s'
     | Diverge \<Rightarrow> Diverge)"

definition divergeK :: "('s, 'a) kop" where
  "divergeK s = Diverge"

definition getK :: "('s \<Rightarrow> 'a) \<Rightarrow> ('s, 'a) kop" where
  "getK f s = Ret (f s) s"

definition modK :: "('s \<Rightarrow> 's) \<Rightarrow> ('s, unit) kop" where
  "modK f s = Ret () (f s)"

definition panicK :: "string \<Rightarrow> ('s, 'a) kop" where
  "panicK e s = Panic e"

definition whenK :: "bool \<Rightarrow> ('s, unit) kop \<Rightarrow> ('s, unit) kop" where
  "whenK b m = (if b then m else retK ())"

text \<open>A \<^verbatim>\<open>for\<close> loop over the entries of a list, without early exit.\<close>

fun forK :: "'i list \<Rightarrow> ('i \<Rightarrow> ('s, unit) kop) \<Rightarrow> ('s, unit) kop" where
  "forK [] f = retK ()"
| "forK (x # xs) f = bindK (f x) (\<lambda>_. forK xs f)"

lemma retK_run [run_simps, simp]: "retK a s = Ret a s"
  by (simp add: retK_def)

lemma getK_run [run_simps, simp]: "getK f s = Ret (f s) s"
  by (simp add: getK_def)

lemma modK_run [run_simps, simp]: "modK f s = Ret () (f s)"
  by (simp add: modK_def)

lemma panicK_run [run_simps, simp]: "panicK e s = Panic e"
  by (simp add: panicK_def)

lemma divergeK_run [run_simps, simp]: "divergeK s = Diverge"
  by (simp add: divergeK_def)

lemma whenK_run [run_simps, simp]: "whenK b m s = (if b then m s else Ret () s)"
  by (simp add: whenK_def)

lemma bindK_Ret: "m s = Ret a s' \<Longrightarrow> bindK m f s = f a s'"
  by (simp add: bindK_def)

lemma bindK_Panic: "m s = Panic e \<Longrightarrow> bindK m f s = Panic e"
  by (simp add: bindK_def)

lemma bindK_Swtch: "m s = Swtch s' \<Longrightarrow> bindK m f s = Swtch s'"
  by (simp add: bindK_def)

lemma bindK_Diverge: "m s = Diverge \<Longrightarrow> bindK m f s = Diverge"
  by (simp add: bindK_def)

lemmas bindK_run [run_simps] = bindK_Ret bindK_Panic bindK_Swtch bindK_Diverge

lemma bindK_of_Ret [simp]: "bindK (Ret a) f = f a"
  by (rule ext) (simp add: bindK_def)

lemma bindK_of_Panic [simp]: "bindK (\<lambda>s. Panic e) f = (\<lambda>s. Panic e)"
  by (rule ext) (simp add: bindK_def)

lemma bindK_getK [simp]: "bindK (getK g) f s = f (g s) s"
  by (simp add: bindK_def)

lemma bindK_modK [simp]: "bindK (modK g) f s = f () (g s)"
  by (simp add: bindK_def)

lemma bindK_assoc: "bindK (bindK m f) g = bindK m (\<lambda>a. bindK (f a) g)"
  by (rule ext) (simp add: bindK_def split: outcome.splits)

lemma bindK_if [simp]: "bindK (if b then m else n) f = (if b then bindK m f else bindK n f)"
  by simp

lemma bindK_whenK [simp]: "bindK (whenK b m) f = (if b then bindK m f else f ())"
  by (rule ext) (simp add: bindK_def)

lemma bindK_eq_Ret_iff:
  "bindK m f s = Ret b t \<longleftrightarrow> (\<exists>a s'. m s = Ret a s' \<and> f a s' = Ret b t)"
  by (simp add: bindK_def split: outcome.splits)

lemma forK_append: "forK (xs @ ys) f = bindK (forK xs f) (\<lambda>_. forK ys f)"
  by (induction xs) (simp_all add: bindK_assoc)

text \<open>A loop over \<open>0, 1, \<dots>\<close> with what holds before each round.\<close>

lemma forK_upto:
  assumes "P 0 s" "\<And>i t. i < n \<Longrightarrow> P i t \<Longrightarrow> \<exists>t'. f i t = Ret () t' \<and> P (Suc i) t'"
  shows "\<exists>t. forK [0..<n] f s = Ret () t \<and> P n t"
proof -
  have "\<exists>t. forK [0..<k] f s = Ret () t \<and> P k t" if "k \<le> n" for k
    using that
  proof (induction k)
    case (Suc k)
    then obtain t where t: "forK [0..<k] f s = Ret () t" "P k t" by auto
    with assms(2) [of k t] Suc.prems obtain t' where "f k t = Ret () t'" "P (Suc k) t'" by auto
    with t show ?case by (auto simp: forK_append bindK_def)
  qed (use assms(1) in simp)
  then show ?thesis by blast
qed

section \<open>Invariants of operations\<close>

text \<open>
  \<open>keepsK I m\<close>: in every state that satisfies \<open>I\<close> the operation leaves a state that satisfies
  \<open>I\<close>, whether it returns or gives the processor up. A panic leaves no state.
\<close>

definition keepsK :: "('s \<Rightarrow> bool) \<Rightarrow> ('s, 'a) kop \<Rightarrow> bool" where
  "keepsK I m \<longleftrightarrow> (\<forall>s. I s \<longrightarrow>
     (case m s of Ret a s' \<Rightarrow> I s' | Panic e \<Rightarrow> True | Swtch s' \<Rightarrow> I s' | Diverge \<Rightarrow> True))"

lemma keepsK_I:
  "(\<And>s a s'. I s \<Longrightarrow> m s = Ret a s' \<Longrightarrow> I s') \<Longrightarrow> (\<And>s s'. I s \<Longrightarrow> m s = Swtch s' \<Longrightarrow> I s') \<Longrightarrow> keepsK I m"
  unfolding keepsK_def
proof (intro allI impI)
  fix s
  assume I: "I s" and r: "\<And>s a s'. I s \<Longrightarrow> m s = Ret a s' \<Longrightarrow> I s'"
    and w: "\<And>s s'. I s \<Longrightarrow> m s = Swtch s' \<Longrightarrow> I s'"
  show "case m s of Ret a s' \<Rightarrow> I s' | Panic e \<Rightarrow> True | Swtch s' \<Rightarrow> I s' | Diverge \<Rightarrow> True"
    by (cases "m s") (simp_all only: outcome.case r [OF I] w [OF I])
qed

lemma keepsK_Ret: "keepsK I m \<Longrightarrow> I s \<Longrightarrow> m s = Ret a s' \<Longrightarrow> I s'"
  unfolding keepsK_def by (drule spec [of _ s]) simp

lemma keepsK_Swtch: "keepsK I m \<Longrightarrow> I s \<Longrightarrow> m s = Swtch s' \<Longrightarrow> I s'"
  unfolding keepsK_def by (drule spec [of _ s]) simp

lemma keepsK_retK [inv_intros]: "keepsK I (retK a)"
  by (simp add: keepsK_def)

lemma keepsK_getK [inv_intros]: "keepsK I (getK f)"
  by (simp add: keepsK_def)

lemma keepsK_panicK [inv_intros]: "keepsK I (panicK e)"
  by (simp add: keepsK_def)

lemma keepsK_modK [inv_intros]: "(\<And>s. I s \<Longrightarrow> I (f s)) \<Longrightarrow> keepsK I (modK f)"
  by (simp add: keepsK_def)

lemma keepsK_bindK [inv_intros]:
  "keepsK I m \<Longrightarrow> (\<And>a. keepsK I (f a)) \<Longrightarrow> keepsK I (bindK m f)"
  unfolding keepsK_def bindK_def
proof (intro allI impI)
  fix s
  assume m: "\<forall>s. I s \<longrightarrow> (case m s of Ret a s' \<Rightarrow> I s' | Panic e \<Rightarrow> True | Swtch s' \<Rightarrow> I s' | Diverge \<Rightarrow> True)"
    and f: "\<And>a. \<forall>s. I s \<longrightarrow> (case f a s of Ret a s' \<Rightarrow> I s' | Panic e \<Rightarrow> True | Swtch s' \<Rightarrow> I s' | Diverge \<Rightarrow> True)"
    and "I s"
  then show "case (case m s of Ret a s' \<Rightarrow> f a s' | Panic e \<Rightarrow> Panic e | Swtch s' \<Rightarrow> Swtch s'
        | Diverge \<Rightarrow> Diverge) of
      Ret a s' \<Rightarrow> I s' | Panic e \<Rightarrow> True | Swtch s' \<Rightarrow> I s' | Diverge \<Rightarrow> True"
    using m [rule_format, of s] f [rule_format] by (cases "m s") simp_all
qed

lemma keepsK_if [inv_intros]:
  "(b \<Longrightarrow> keepsK I m) \<Longrightarrow> (\<not> b \<Longrightarrow> keepsK I n) \<Longrightarrow> keepsK I (if b then m else n)"
  by simp

lemma keepsK_whenK [inv_intros]: "keepsK I m \<Longrightarrow> keepsK I (whenK b m)"
  by (simp add: whenK_def keepsK_retK)

lemma keepsK_option [inv_intros]:
  "(x = None \<Longrightarrow> keepsK I m) \<Longrightarrow> (\<And>a. x = Some a \<Longrightarrow> keepsK I (f a)) \<Longrightarrow>
     keepsK I (case x of None \<Rightarrow> m | Some a \<Rightarrow> f a)"
  by (cases x) auto

lemma keepsK_forK [inv_intros]: "(\<And>x. x \<in> set xs \<Longrightarrow> keepsK I (f x)) \<Longrightarrow> keepsK I (forK xs f)"
  by (induction xs) (simp_all add: keepsK_bindK keepsK_retK)

section \<open>Spin locks as the kernel sees them\<close>

record kcore =
  held :: "lockid set"

definition acquire :: "lockid \<Rightarrow> ('z kcore_scheme, unit) kop" where
  "acquire l s =
     (if l \<in> held s then Panic ''acquire'' else Ret () (s\<lparr>held := insert l (held s)\<rparr>))"

definition release :: "lockid \<Rightarrow> ('z kcore_scheme, unit) kop" where
  "release l s =
     (if l \<in> held s then Ret () (s\<lparr>held := held s - {l}\<rparr>) else Panic ''release'')"

lemma acquire_run [run_simps]: "l \<notin> held s \<Longrightarrow> acquire l s = Ret () (s\<lparr>held := insert l (held s)\<rparr>)"
  by (simp add: acquire_def)

lemma release_run [run_simps]: "l \<in> held s \<Longrightarrow> release l s = Ret () (s\<lparr>held := held s - {l}\<rparr>)"
  by (simp add: release_def)

lemma bind_acquire [run_simps]:
  "bindK (acquire l) f s =
     (if l \<in> held s then Panic ''acquire'' else f () (s\<lparr>held := insert l (held s)\<rparr>))"
  by (simp add: bindK_def acquire_def)

lemma bind_release [run_simps]:
  "bindK (release l) f s =
     (if l \<in> held s then f () (s\<lparr>held := held s - {l}\<rparr>) else Panic ''release'')"
  by (simp add: bindK_def release_def)

lemma keepsK_acquire: "(\<And>s h. I s \<Longrightarrow> I (s\<lparr>held := h\<rparr>)) \<Longrightarrow> keepsK I (acquire l)"
  by (simp add: keepsK_def acquire_def)

lemma keepsK_release: "(\<And>s h. I s \<Longrightarrow> I (s\<lparr>held := h\<rparr>)) \<Longrightarrow> keepsK I (release l)"
  by (simp add: keepsK_def release_def)

text \<open>
  What the rest of the kernel relies on. \<open>hold\<close> is the set of locks the processor holds and
  \<open>wf\<close> an invariant of the implementation's own data.
\<close>

locale spin_locks =
  fixes acq :: "'l \<Rightarrow> ('s, unit) kop"
    and rel :: "'l \<Rightarrow> ('s, unit) kop"
    and hold :: "'s \<Rightarrow> 'l set"
    and wf :: "'s \<Rightarrow> bool"
  assumes acq_free: "wf s \<Longrightarrow> l \<notin> hold s \<Longrightarrow>
      \<exists>s'. acq l s = Ret () s' \<and> hold s' = insert l (hold s) \<and> wf s'"
    and acq_held: "wf s \<Longrightarrow> l \<in> hold s \<Longrightarrow> acq l s = Panic ''acquire''"
    and rel_held: "wf s \<Longrightarrow> l \<in> hold s \<Longrightarrow>
      \<exists>s'. rel l s = Ret () s' \<and> hold s' = hold s - {l} \<and> wf s'"
    and rel_free: "wf s \<Longrightarrow> l \<notin> hold s \<Longrightarrow> rel l s = Panic ''release''"
begin

text \<open>A section of code between \<open>acq\<close> and \<open>rel\<close>.\<close>

lemma locked_section_returns:
  assumes "wf s" "l \<notin> hold s"
    and body: "\<And>t. wf t \<Longrightarrow> hold t = insert l (hold s) \<Longrightarrow>
      \<exists>a t'. body t = Ret a t' \<and> hold t' = hold t \<and> wf t'"
  shows "\<exists>a s'. bindK (acq l) (\<lambda>_. bindK body (\<lambda>a. bindK (rel l) (\<lambda>_. retK a))) s = Ret a s'
           \<and> hold s' = hold s \<and> wf s'"
proof -
  from acq_free [OF assms(1,2)] obtain t where t: "acq l s = Ret () t" "hold t = insert l (hold s)" "wf t"
    by blast
  from body [OF t(3,2)] obtain a t' where t': "body t = Ret a t'" "hold t' = hold t" "wf t'"
    by blast
  with t have "l \<in> hold t'" by simp
  from rel_held [OF t'(3) this] obtain u where "rel l t' = Ret () u" "hold u = hold t' - {l}" "wf u"
    by blast
  with t t' assms(2) show ?thesis by (simp add: bindK_def)
qed

lemma nested_acquire_panics:
  assumes "wf s" "l \<notin> hold s"
  shows "bindK (acq l) (\<lambda>_. acq l) s = Panic ''acquire''"
proof -
  from acq_free [OF assms] obtain t where t: "acq l s = Ret () t" "hold t = insert l (hold s)" "wf t"
    by blast
  then have "acq l t = Panic ''acquire''" by (intro acq_held) simp_all
  with t(1) show ?thesis by (simp add: bindK_def)
qed

end

interpretation kernel_locks: spin_locks acquire release held "\<lambda>s. True"
proof unfold_locales
  fix s :: "'a kcore_scheme" and l
  show "l \<notin> held s \<Longrightarrow> \<exists>s'. acquire l s = Ret () s' \<and> held s' = insert l (held s) \<and> True"
    by (simp add: acquire_def)
  show "l \<in> held s \<Longrightarrow> acquire l s = Panic ''acquire''"
    by (simp add: acquire_def)
  show "l \<in> held s \<Longrightarrow> \<exists>s'. release l s = Ret () s' \<and> held s' = held s - {l} \<and> True"
    by (simp add: release_def)
  show "l \<notin> held s \<Longrightarrow> release l s = Panic ''release''"
    by (simp add: release_def)
qed

end
