(* ===== verification/Strings.thy ===== *)
theory Strings
  imports Prelude
begin

text \<open>
  The string and memory routines of \<^verbatim>\<open>string.c\<close> and \<^verbatim>\<open>ulib.c\<close>, over a byte-addressed
  memory \<open>u32 \<Rightarrow> byte\<close>: pointers are 32-bit words and their arithmetic wraps. A counted loop
  recurses on the number of iterations left; a loop that stops only at a NUL byte is a
  \<open>partial_function\<close>, whose value is \<open>None\<close> when there is no NUL.

  The lemmas give each routine its contract: \<open>memset\<close> (both of its two implementations) fills
  exactly its region, \<open>memmove\<close> copies correctly whether or not the regions overlap,
  \<open>strncmp\<close> decides equality of bounded C strings, \<open>strncpy\<close> pads with zeroes, \<open>safestrcpy\<close>
  always terminates what it writes.
\<close>

type_synonym bmem = "u32 \<Rightarrow> byte"

section \<open>Definitions\<close>

text \<open>The string instructions \<^verbatim>\<open>rep stosb\<close> and \<^verbatim>\<open>rep stosl\<close> (\<^verbatim>\<open>x86.h\<close>); words are little endian.\<close>

fun stosb :: "bmem \<Rightarrow> u32 \<Rightarrow> byte \<Rightarrow> nat \<Rightarrow> bmem" where
  "stosb m a c 0 = m"
| "stosb m a c (Suc n) = stosb (m(a := c)) (a + 1) c n"

definition store32 :: "bmem \<Rightarrow> u32 \<Rightarrow> u32 \<Rightarrow> bmem" where
  "store32 m a v = m(a := ucast v, a + 1 := ucast (drop_bit 8 v),
                     a + 2 := ucast (drop_bit 16 v), a + 3 := ucast (drop_bit 24 v))"

fun stosl :: "bmem \<Rightarrow> u32 \<Rightarrow> u32 \<Rightarrow> nat \<Rightarrow> bmem" where
  "stosl m a v 0 = m"
| "stosl m a v (Suc n) = stosl (store32 m a v) (a + 4) v n"

definition memset :: "bmem \<Rightarrow> u32 \<Rightarrow> u32 \<Rightarrow> u32 \<Rightarrow> bmem" where
  "memset m dst c n =
     (if dst mod 4 = 0 \<and> n mod 4 = 0 then
        let c = c AND 0xFF
        in stosl m dst (push_bit 24 c OR push_bit 16 c OR push_bit 8 c OR c) (unat (n div 4))
      else stosb m dst (ucast c) (unat n))"

fun memcmp_loop :: "bmem \<Rightarrow> u32 \<Rightarrow> u32 \<Rightarrow> nat \<Rightarrow> int" where
  "memcmp_loop m s1 s2 0 = 0"
| "memcmp_loop m s1 s2 (Suc n) =
     (if m s1 \<noteq> m s2 then uint (m s1) - uint (m s2) else memcmp_loop m (s1 + 1) (s2 + 1) n)"

definition memcmp :: "bmem \<Rightarrow> u32 \<Rightarrow> u32 \<Rightarrow> u32 \<Rightarrow> int" where
  "memcmp m v1 v2 n = memcmp_loop m v1 v2 (unat n)"

text \<open>The two loops of \<open>memmove\<close>: down from the ends, and up from the starts.\<close>

fun move_down :: "bmem \<Rightarrow> u32 \<Rightarrow> u32 \<Rightarrow> nat \<Rightarrow> bmem" where
  "move_down m d s 0 = m"
| "move_down m d s (Suc n) = move_down (m(d - 1 := m (s - 1))) (d - 1) (s - 1) n"

fun move_up :: "bmem \<Rightarrow> u32 \<Rightarrow> u32 \<Rightarrow> nat \<Rightarrow> bmem" where
  "move_up m d s 0 = m"
| "move_up m d s (Suc n) = move_up (m(d := m s)) (d + 1) (s + 1) n"

definition memmove :: "bmem \<Rightarrow> u32 \<Rightarrow> u32 \<Rightarrow> u32 \<Rightarrow> bmem" where
  "memmove m dst src n =
     (if src < dst \<and> src + n > dst then move_down m (dst + n) (src + n) (unat n)
      else move_up m dst src (unat n))"

definition memcpy :: "bmem \<Rightarrow> u32 \<Rightarrow> u32 \<Rightarrow> u32 \<Rightarrow> bmem" where
  "memcpy m dst src n = memmove m dst src n"

fun strncmp_loop :: "bmem \<Rightarrow> u32 \<Rightarrow> u32 \<Rightarrow> nat \<Rightarrow> int" where
  "strncmp_loop m p q 0 = 0"
| "strncmp_loop m p q (Suc n) =
     (if m p \<noteq> 0 \<and> m p = m q then strncmp_loop m (p + 1) (q + 1) n
      else uint (m p) - uint (m q))"

definition strncmp :: "bmem \<Rightarrow> u32 \<Rightarrow> u32 \<Rightarrow> u32 \<Rightarrow> int" where
  "strncmp m p q n = strncmp_loop m p q (unat n)"

fun strncpy_loop :: "bmem \<Rightarrow> u32 \<Rightarrow> u32 \<Rightarrow> nat \<Rightarrow> bmem" where
  "strncpy_loop m s t 0 = m"
| "strncpy_loop m s t (Suc n) =
     (if m t \<noteq> 0 then strncpy_loop (m(s := m t)) (s + 1) (t + 1) n
      else stosb (m(s := m t)) (s + 1) 0 n)"

definition strncpy :: "bmem \<Rightarrow> u32 \<Rightarrow> u32 \<Rightarrow> int \<Rightarrow> bmem" where
  "strncpy m s t n = strncpy_loop m s t (nat n)"

fun safestrcpy_loop :: "bmem \<Rightarrow> u32 \<Rightarrow> u32 \<Rightarrow> nat \<Rightarrow> bmem" where
  "safestrcpy_loop m s t 0 = m(s := 0)"
| "safestrcpy_loop m s t (Suc n) =
     (if m t \<noteq> 0 then safestrcpy_loop (m(s := m t)) (s + 1) (t + 1) n
      else m(s := m t, s + 1 := 0))"

definition safestrcpy :: "bmem \<Rightarrow> u32 \<Rightarrow> u32 \<Rightarrow> int \<Rightarrow> bmem" where
  "safestrcpy m s t n = (if n \<le> 0 then m else safestrcpy_loop m s t (nat (n - 1)))"

partial_function (option) strlen_loop :: "bmem \<Rightarrow> u32 \<Rightarrow> nat \<Rightarrow> nat option" where
  "strlen_loop m s n = (if m (s + of_nat n) = 0 then Some n else strlen_loop m s (Suc n))"

definition strlen :: "bmem \<Rightarrow> u32 \<Rightarrow> nat option" where
  "strlen m s = strlen_loop m s 0"

partial_function (option) strcpy :: "bmem \<Rightarrow> u32 \<Rightarrow> u32 \<Rightarrow> bmem option" where
  "strcpy m s t = (if m t \<noteq> 0 then strcpy (m(s := m t)) (s + 1) (t + 1) else Some (m(s := m t)))"

partial_function (option) strcmp :: "bmem \<Rightarrow> u32 \<Rightarrow> u32 \<Rightarrow> int option" where
  "strcmp m p q =
     (if m p \<noteq> 0 \<and> m p = m q then strcmp m (p + 1) (q + 1) else Some (uint (m p) - uint (m q)))"

text \<open>\<open>strchr\<close> returns the pointer, or the null pointer.\<close>

partial_function (option) strchr :: "bmem \<Rightarrow> u32 \<Rightarrow> byte \<Rightarrow> u32 option" where
  "strchr m s c = (if m s = 0 then Some 0 else if m s = c then Some s else strchr m (s + 1) c)"

text \<open>\<open>atoi\<close> computes in C's \<^verbatim>\<open>int\<close>; the model is the 32-bit word it is kept in.\<close>

partial_function (option) atoi_loop :: "bmem \<Rightarrow> u32 \<Rightarrow> u32 \<Rightarrow> u32 option" where
  "atoi_loop m s n =
     (if 48 \<le> m s \<and> m s \<le> 57 then atoi_loop m (s + 1) (n * 10 + ucast (m s) - 48) else Some n)"

definition atoi :: "bmem \<Rightarrow> u32 \<Rightarrow> u32 option" where
  "atoi m s = atoi_loop m s 0"

text \<open>\<^verbatim>\<open>ulib.c\<close> has its own \<open>memset\<close> and \<open>memmove\<close>, without the word-wise store and without the
  overlap test.\<close>

definition ulib_memset :: "bmem \<Rightarrow> u32 \<Rightarrow> u32 \<Rightarrow> u32 \<Rightarrow> bmem" where
  "ulib_memset m dst c n = stosb m dst (ucast c) (unat n)"

definition ulib_memmove :: "bmem \<Rightarrow> u32 \<Rightarrow> u32 \<Rightarrow> int \<Rightarrow> bmem" where
  "ulib_memmove m vdst vsrc n = move_up m vdst vsrc (nat n)"

text \<open>
  The abstractions of the contracts: the bytes of a region, and the C string that starts at
  \<open>p\<close>, cut off after \<open>n\<close> bytes.
\<close>

definition bytes_at :: "bmem \<Rightarrow> u32 \<Rightarrow> nat \<Rightarrow> byte list" where
  "bytes_at m p n = map (\<lambda>i. m (p + of_nat i)) [0..<n]"

definition cstr :: "byte list \<Rightarrow> byte list" where
  "cstr xs = takeWhile (\<lambda>c. c \<noteq> 0) xs"

text \<open>
  The same copies between two arrays, for the strings the kernel keeps in fields of its own
  structures (process names, directory entries, messages). \<open>safestrcpy_arr dst src (n - 1)\<close> is
  what \<open>safestrcpy(dst, src, n)\<close> leaves in the array \<open>dst\<close>.
\<close>

definition pad0 :: "nat \<Rightarrow> byte list \<Rightarrow> byte list" where
  "pad0 n xs = xs @ replicate (n - length xs) 0"

fun zero_hd :: "byte list \<Rightarrow> byte list" where
  "zero_hd [] = []"
| "zero_hd (d # ds) = 0 # ds"

fun safestrcpy_arr :: "byte list \<Rightarrow> byte list \<Rightarrow> nat \<Rightarrow> byte list" where
  "safestrcpy_arr dst src 0 = zero_hd dst"
| "safestrcpy_arr [] src (Suc k) = []"
| "safestrcpy_arr (d # ds) [] (Suc k) = d # ds"
| "safestrcpy_arr (d # ds) (c # cs) (Suc k) =
     (if c \<noteq> 0 then c # safestrcpy_arr ds cs k else c # zero_hd ds)"

section \<open>Regions of memory\<close>

lemma region_step:
  assumes "n < 2 ^ 32"
  shows "unat (x - a) < Suc n \<longleftrightarrow> x = a \<or> unat (x - (a + 1 :: u32)) < n"
proof (cases "x = a")
  case False
  then have "x - a \<noteq> 0" by simp
  from unat_pred_u32 [OF this] have "unat (x - (a + 1)) = unat (x - a) - 1"
    by (simp add: algebra_simps)
  moreover from \<open>x - a \<noteq> 0\<close> have "0 < unat (x - a)" by (simp add: unat_gt_0)
  ultimately show ?thesis using False by auto
qed simp

lemma stosb_eq:
  "n \<le> 2 ^ 32 \<Longrightarrow> stosb m a c n = (\<lambda>x. if unat (x - a) < n then c else m x)"
proof (induction n arbitrary: m a)
  case 0
  then show ?case by simp
next
  case (Suc n)
  then have "n < 2 ^ 32" "n \<le> 2 ^ 32" by simp_all
  then show ?case
    by (intro ext) (simp add: Suc.IH region_step)
qed

lemma bytes_at_0 [simp]: "bytes_at m p 0 = []"
  by (simp add: bytes_at_def)

lemma length_bytes_at [simp]: "length (bytes_at m p n) = n"
  by (simp add: bytes_at_def)

lemma nth_bytes_at [simp]: "i < n \<Longrightarrow> bytes_at m p n ! i = m (p + of_nat i)"
  by (simp add: bytes_at_def)

lemma bytes_at_Suc: "bytes_at m p (Suc n) = m p # bytes_at m (p + 1) n"
  by (rule nth_equalityI) (auto simp: nth_Cons algebra_simps split: nat.splits)

section \<open>memset\<close>

lemma and_255_take_bit: "(c :: u32) AND 0xFF = take_bit 8 c"
  by (simp add: take_bit_eq_mask mask_eq_exp_minus_1)

lemma fill_word_bytes:
  fixes c :: u32
  assumes v: "v = push_bit 24 (take_bit 8 c) OR push_bit 16 (take_bit 8 c) OR push_bit 8 (take_bit 8 c) OR take_bit 8 c"
  shows "ucast v = (ucast c :: byte)" "ucast (drop_bit 8 v) = (ucast c :: byte)"
    "ucast (drop_bit 16 v) = (ucast c :: byte)" "ucast (drop_bit 24 v) = (ucast c :: byte)"
  unfolding v by (rule bit_word_eqI; auto simp: bit_simps)+

lemma stosb_4: "stosb m a c 4 = m(a := c, a + 1 := c, a + 2 := c, a + 3 := c)"
  by (simp add: eval_nat_numeral add.assoc)

lemma store32_fill:
  assumes v: "v = push_bit 24 (take_bit 8 c) OR push_bit 16 (take_bit 8 c) OR push_bit 8 (take_bit 8 c) OR take_bit 8 c"
  shows "store32 m a v = stosb m a (ucast c) 4"
  unfolding store32_def fill_word_bytes [OF v] stosb_4 ..

lemma stosb_add: "stosb m a c (i + j) = stosb (stosb m a c i) (a + of_nat i) c j"
  by (induction i arbitrary: m a) (simp_all add: algebra_simps)

lemma stosl_fill:
  assumes v: "v = push_bit 24 (take_bit 8 c) OR push_bit 16 (take_bit 8 c) OR push_bit 8 (take_bit 8 c) OR take_bit 8 c"
  shows "stosl m a v n = stosb m a (ucast c) (4 * n)"
proof (induction n arbitrary: m a)
  case (Suc n)
  have "stosb m a (ucast c) (4 * Suc n) = stosb (stosb m a (ucast c) 4) (a + 4) (ucast c) (4 * n)"
    using stosb_add [of m a "ucast c" 4 "4 * n"] by simp
  then show ?case by (simp add: Suc.IH store32_fill [OF v])
qed simp

lemma unat_div_mod_4: "(n :: u32) mod 4 = 0 \<Longrightarrow> 4 * unat (n div 4) = unat n"
proof -
  assume "n mod 4 = 0"
  then have "unat (n mod 4) = 0" by simp
  then have "unat n mod 4 = 0" by (simp add: unat_mod)
  then show ?thesis by (simp add: unat_div) presburger
qed

text \<open>Both implementations fill the \<open>n\<close> bytes from \<open>dst\<close> on and nothing else.\<close>

lemma memset_eq_stosb: "memset m dst c n = stosb m dst (ucast c) (unat n)"
proof (cases "dst mod 4 = 0 \<and> n mod 4 = 0")
  case True
  then show ?thesis
    by (simp add: memset_def and_255_take_bit stosl_fill [OF refl] unat_div_mod_4 Let_def)
qed (auto simp: memset_def)

lemma memset_eq:
  "memset m dst c n = (\<lambda>x. if x - dst < n then ucast c else m x)"
  using unat_u32_bound [of n] by (simp add: memset_eq_stosb stosb_eq word_less_nat_alt)

section \<open>memmove\<close>

text \<open>
  Copying upwards is right when no byte is overwritten before it is read, that is when the
  destination does not start inside the source behind its first byte.
\<close>

lemma move_up_eq:
  "n \<le> 2 ^ 32 \<Longrightarrow> d = s \<or> n \<le> unat (d - s) \<Longrightarrow>
     move_up m d s n = (\<lambda>x. if unat (x - d) < n then m (s + (x - d)) else m x)"
proof (induction n arbitrary: m d s)
  case 0
  then show ?case by simp
next
  case (Suc n)
  then have n: "n < 2 ^ 32" by simp
  have IH: "move_up (m(d := m s)) (d + 1) (s + 1) n =
      (\<lambda>x. if unat (x - (d + 1)) < n then (m(d := m s)) ((s + 1) + (x - (d + 1))) else (m(d := m s)) x)"
    using Suc.prems by (intro Suc.IH) auto
  show ?case
  proof (intro ext)
    fix x
    have sum: "(s + 1) + (x - (d + 1)) = s + (x - d)" by (simp add: algebra_simps)
    show "move_up m d s (Suc n) x = (if unat (x - d) < Suc n then m (s + (x - d)) else m x)"
    proof (cases "x = d")
      case True
      have "unat (d - (d + 1)) = 2 ^ 32 - 1" by (simp add: unsigned_minus_1_eq_mask mask_eq_exp_minus_1)
      with n True show ?thesis by (simp add: IH sum)
    next
      case False
      have "s + (x - d) \<noteq> d" if "unat (x - (d + 1)) < n"
      proof
        assume "s + (x - d) = d"
        then have "x - d = d - s" by (simp add: algebra_simps)
        moreover from that False n have "unat (x - d) < Suc n" by (simp add: region_step)
        ultimately show False using Suc.prems(2) False by auto
      qed
      with False n show ?thesis by (simp add: IH sum region_step)
    qed
  qed
qed

lemma region_step_down:
  assumes "n < 2 ^ 32"
  shows "unat (d - 1 - x) < Suc n \<longleftrightarrow> x = d - 1 \<or> unat (d - 1 - 1 - x :: u32) < n"
  using region_step [OF assms, of "- x" "1 - d"] by (simp add: algebra_simps) (metis diff_eq_eq)

lemma move_down_eq:
  "n \<le> 2 ^ 32 \<Longrightarrow> d = s \<or> n \<le> unat (s - d) \<Longrightarrow>
     move_down m d s n = (\<lambda>x. if unat (d - 1 - x) < n then m (s - (d - x)) else m x)"
proof (induction n arbitrary: m d s)
  case 0
  then show ?case by simp
next
  case (Suc n)
  then have n: "n < 2 ^ 32" by simp
  let ?m = "m(d - 1 := m (s - 1))"
  have IH: "move_down ?m (d - 1) (s - 1) n =
      (\<lambda>x. if unat (d - 1 - 1 - x) < n then ?m ((s - 1) - ((d - 1) - x)) else ?m x)"
    using Suc.prems by (intro Suc.IH) auto
  show ?case
  proof (intro ext)
    fix x
    have sum: "(s - 1) - ((d - 1) - x) = s - (d - x)" by (simp add: algebra_simps)
    show "move_down m d s (Suc n) x = (if unat (d - 1 - x) < Suc n then m (s - (d - x)) else m x)"
    proof (cases "x = d - 1")
      case True
      have "unat (d - 1 - 1 - (d - 1)) = 2 ^ 32 - 1" by (simp add: unsigned_minus_1_eq_mask mask_eq_exp_minus_1)
      with n True show ?thesis by (simp add: IH sum)
    next
      case False
      have "s - (d - x) \<noteq> d - 1" if "unat (d - 1 - 1 - x) < n"
      proof
        assume "s - (d - x) = d - 1"
        then have eq: "s - d = d - 1 - x" by (simp add: algebra_simps)
        have "unat (d - 1 - x) < Suc n" using that False n by (simp add: region_step_down)
        with Suc.prems(2) have "d = s" unfolding eq by simp
        with eq have "d - 1 - x = 0" by simp
        with False show False by (metis right_minus_eq)
      qed
      with False n show ?thesis by (simp add: IH sum region_step_down)
    qed
  qed
qed

lemma region_from_end: "(dst + n) - 1 - x < n \<longleftrightarrow> x - dst < (n :: u32)"
proof -
  have "n - 1 - y < n \<longleftrightarrow> y < n" for y :: u32
    by uint_arith
  from this [of "x - dst"] show ?thesis by (simp add: algebra_simps)
qed

text \<open>
  Whatever the overlap of the two regions, \<open>memmove\<close> leaves in the destination what the
  source held before the call, and changes nothing else.
\<close>

lemma memmove_eq:
  assumes src: "unat src + unat n \<le> 2 ^ 32" and dst: "unat dst + unat n \<le> 2 ^ 32"
  shows "memmove m dst src n = (\<lambda>x. if x - dst < n then m (src + (x - dst)) else m x)"
proof (cases "src < dst \<and> src + n > dst")
  case True
  have "unat n \<le> unat ((src + n) - (dst + n))"
    using True src dst by (simp add: unat_arith_simps) 
  then have "move_down m (dst + n) (src + n) (unat n) =
      (\<lambda>x. if unat ((dst + n) - 1 - x) < unat n then m ((src + n) - ((dst + n) - x)) else m x)"
    using unat_u32_bound [of n] by (intro move_down_eq) auto
  moreover have eq: "(src + n) - ((dst + n) - x) = src + (x - dst)" for x
    by (simp add: algebra_simps)
  ultimately show ?thesis
    using True unfolding eq by (simp add: memmove_def region_from_end flip: word_less_nat_alt)
next
  case False
  have "dst = src \<or> unat n \<le> unat (dst - src)"
    using False src dst by (auto simp: unat_arith_simps split: if_splits)
  then have "move_up m dst src (unat n) = (\<lambda>x. if unat (x - dst) < unat n then m (src + (x - dst)) else m x)"
    using unat_u32_bound [of n] by (intro move_up_eq) auto
  with False show ?thesis by (auto simp: memmove_def word_less_nat_alt)
qed

section \<open>C strings\<close>

lemma cstr_Nil [simp]: "cstr [] = []"
  by (simp add: cstr_def)

lemma cstr_Cons [simp]: "cstr (c # cs) = (if c = 0 then [] else c # cstr cs)"
  by (simp add: cstr_def)

lemma length_cstr_le: "length (cstr xs) \<le> length xs"
  by (simp add: cstr_def length_takeWhile_le)

lemma cstr_nonzero: "c \<in> set (cstr xs) \<Longrightarrow> c \<noteq> 0"
  by (auto simp: cstr_def dest: set_takeWhileD)

lemma cstr_idem [simp]: "cstr (cstr xs) = cstr xs"
  by (induction xs) auto

lemma uint_diff_eq_0: "uint a - uint b = 0 \<longleftrightarrow> a = (b :: byte)"
  by (simp add: word_uint_eq_iff)

lemma strncmp_loop_eq_0:
  "strncmp_loop m p q n = 0 \<longleftrightarrow> cstr (bytes_at m p n) = cstr (bytes_at m q n)"
proof (induction n arbitrary: p q)
  case (Suc n)
  show ?case
    by (cases "m p \<noteq> 0 \<and> m p = m q") (auto simp: bytes_at_Suc Suc.IH uint_diff_eq_0 uint_0_iff simp del: right_minus_eq)
qed simp

text \<open>\<open>strncmp\<close> is 0 exactly for equal C strings, both cut off after \<open>n\<close> bytes.\<close>

lemma strncmp_eq_0:
  "strncmp m p q n = 0 \<longleftrightarrow> cstr (bytes_at m p (unat n)) = cstr (bytes_at m q (unat n))"
  by (simp add: strncmp_def strncmp_loop_eq_0)

definition disjoint_regions :: "u32 \<Rightarrow> nat \<Rightarrow> u32 \<Rightarrow> nat \<Rightarrow> bool" where
  "disjoint_regions s n t k \<longleftrightarrow> (\<forall>i < n. \<forall>j < k. s + of_nat i \<noteq> t + of_nat j)"

lemma disjoint_regions_step:
  "disjoint_regions s (Suc n) t (Suc k) \<Longrightarrow> disjoint_regions (s + 1) n (t + 1) k"
  unfolding disjoint_regions_def
proof (intro allI impI)
  fix i j
  assume "\<forall>i < Suc n. \<forall>j < Suc k. s + of_nat i \<noteq> t + of_nat j" "i < n" "j < k"
  then have "s + of_nat (Suc i) \<noteq> t + of_nat (Suc j)" by blast
  then show "s + 1 + of_nat i \<noteq> t + 1 + of_nat j" by (simp add: algebra_simps)
qed

lemma disjoint_regions_tail:
  assumes "disjoint_regions s (Suc n) t (Suc k)"
  shows "disjoint_regions s (Suc 0) (t + 1) k"
  unfolding disjoint_regions_def
proof (intro allI impI)
  fix i j
  assume "i < Suc 0" "j < k"
  with assms have "s + of_nat 0 \<noteq> t + of_nat (Suc j)" unfolding disjoint_regions_def by blast
  with \<open>i < Suc 0\<close> show "s + of_nat i \<noteq> t + 1 + of_nat j" by (simp add: algebra_simps)
qed

lemma bytes_at_upd_other:
  assumes "disjoint_regions s (Suc n) t k"
  shows "bytes_at (m(s := v)) t k = bytes_at m t k"
proof (rule nth_equalityI)
  fix i assume "i < length (bytes_at (m(s := v)) t k)"
  then have "i < k" by simp
  moreover from assms this have "s + of_nat 0 \<noteq> t + of_nat i"
    unfolding disjoint_regions_def by blast
  ultimately show "bytes_at (m(s := v)) t k ! i = bytes_at m t k ! i" by simp
qed simp

lemma bytes_at_upd_before:
  assumes "n < 2 ^ 32"
  shows "bytes_at (m(s := v)) (s + 1) n = bytes_at m (s + 1) n"
proof (rule nth_equalityI)
  fix i assume "i < length (bytes_at (m(s := v)) (s + 1) n)"
  then have "i < n" by simp
  with assms have "Suc i < 2 ^ 32" by simp
  then have "unat (of_nat (Suc i) :: u32) \<noteq> 0" by (subst unat_of_nat_u32) simp_all
  then have "s + 1 + of_nat i \<noteq> s" by (auto simp: add.assoc)
  with \<open>i < n\<close> show "bytes_at (m(s := v)) (s + 1) n ! i = bytes_at m (s + 1) n ! i" by simp
qed simp

lemma region_nth_step:
  assumes "x \<noteq> (s :: u32)"
  shows "unat (x - s) = Suc (unat (x - (s + 1)))"
proof -
  from assms have "x - s \<noteq> 0" by simp
  then have "0 < unat (x - s)" by (simp add: unat_gt_0)
  moreover from unat_pred_u32 [OF \<open>x - s \<noteq> 0\<close>] have "unat (x - (s + 1)) = unat (x - s) - 1"
    by (simp add: algebra_simps)
  ultimately show ?thesis by simp
qed

lemma region_start: "n < 2 ^ 32 \<Longrightarrow> \<not> unat (s - (s + 1 :: u32)) < n"
  by (simp add: unsigned_minus_1_eq_mask mask_eq_exp_minus_1)

text \<open>A region of memory overwritten with a list of bytes.\<close>

definition put_bytes :: "bmem \<Rightarrow> u32 \<Rightarrow> byte list \<Rightarrow> bmem" where
  "put_bytes m s xs = (\<lambda>x. if unat (x - s) < length xs then xs ! unat (x - s) else m x)"

lemma put_bytes_Nil [simp]: "put_bytes m s [] = m"
  by (simp add: put_bytes_def)

lemma put_bytes_Cons:
  assumes "length xs < 2 ^ 32"
  shows "put_bytes m s (c # xs) = put_bytes (m(s := c)) (s + 1) xs"
proof
  fix x
  show "put_bytes m s (c # xs) x = put_bytes (m(s := c)) (s + 1) xs x"
  proof (cases "x = s")
    case True
    with region_start [OF assms, of s] show ?thesis by (simp add: put_bytes_def)
  next
    case False
    with region_nth_step [OF this] show ?thesis by (simp add: put_bytes_def)
  qed
qed

lemma bytes_at_put_bytes: "length xs \<le> 2 ^ 32 \<Longrightarrow> bytes_at (put_bytes m s xs) s (length xs) = xs"
  by (rule nth_equalityI) (simp_all add: put_bytes_def unat_of_nat)

lemma put_bytes_bytes_at: "n \<le> 2 ^ 32 \<Longrightarrow> put_bytes m s (bytes_at m s n) = m"
  by (auto simp: put_bytes_def fun_eq_iff)

lemma stosb_put_bytes: "n \<le> 2 ^ 32 \<Longrightarrow> stosb m a c n = put_bytes m a (replicate n c)"
  by (simp add: stosb_eq put_bytes_def fun_eq_iff)

lemma length_pad0: "length xs \<le> n \<Longrightarrow> length (pad0 n xs) = n"
  by (simp add: pad0_def)

lemma strncpy_loop_eq:
  "n \<le> 2 ^ 32 \<Longrightarrow> disjoint_regions s n t n \<Longrightarrow>
     strncpy_loop m s t n = put_bytes m s (pad0 n (cstr (bytes_at m t n)))"
proof (induction n arbitrary: m s t)
  case 0
  then show ?case by (simp add: pad0_def)
next
  case (Suc n)
  then have n: "n < 2 ^ 32" "n \<le> 2 ^ 32" by simp_all
  show ?case
  proof (cases "m t = 0")
    case True
    have "put_bytes m s (0 # replicate n 0) = put_bytes (m(s := 0)) (s + 1) (replicate n 0)"
      by (rule put_bytes_Cons) (use n in simp)
    with True n show ?thesis by (simp add: bytes_at_Suc pad0_def stosb_put_bytes)
  next
    case False
    let ?p = "pad0 n (cstr (bytes_at m (t + 1) n))"
    have len: "length ?p = n"
      by (rule length_pad0) (metis length_bytes_at length_cstr_le)
    have "bytes_at (m(s := m t)) (t + 1) n = bytes_at m (t + 1) n"
      by (rule bytes_at_upd_other [OF disjoint_regions_tail [OF Suc.prems(2)]])
    with False Suc.IH [OF n(2) disjoint_regions_step [OF Suc.prems(2)], of "m(s := m t)"]
    have "strncpy_loop m s t (Suc n) = put_bytes (m(s := m t)) (s + 1) ?p"
      by (simp del: fun_upd_apply)
    also have "\<dots> = put_bytes m s (m t # ?p)"
      by (rule put_bytes_Cons [symmetric]) (use len n in simp)
    also have "m t # ?p = pad0 (Suc n) (cstr (bytes_at m t (Suc n)))"
      using False by (simp add: bytes_at_Suc pad0_def)
    finally show ?thesis .
  qed
qed

text \<open>
  \<open>strncpy\<close> writes exactly \<open>n\<close> bytes: the string, cut off after \<open>n\<close> bytes, and zeroes up to \<open>n\<close>.
\<close>

lemma strncpy_eq:
  assumes "0 \<le> n" "n \<le> 2 ^ 32" "disjoint_regions s (nat n) t (nat n)"
  shows "strncpy m s t n = put_bytes m s (pad0 (nat n) (cstr (bytes_at m t (nat n))))"
  using assms by (simp add: strncpy_def strncpy_loop_eq)

lemma length_zero_hd [simp]: "length (zero_hd xs) = length xs"
  by (cases xs) auto

lemma length_safestrcpy_arr [simp]: "length (safestrcpy_arr dst src k) = length dst"
  by (induction dst src k rule: safestrcpy_arr.induct) auto

lemma bytes_at_Suc_upd:
  "n < 2 ^ 32 \<Longrightarrow> put_bytes (m(s := c)) (s + 1) (zero_hd (bytes_at m (s + 1) n)) =
     (if n = 0 then m(s := c) else m(s := c, s + 1 := 0))"
proof (cases n)
  case (Suc k)
  assume n: "n < 2 ^ 32"
  with Suc have k: "k < 2 ^ 32" by simp
  have a: "put_bytes (m(s := c)) (s + 1) (0 # bytes_at m (s + 1 + 1) k) =
      put_bytes (m(s := c, s + 1 := 0)) (s + 1 + 1) (bytes_at m (s + 1 + 1) k)"
    by (rule put_bytes_Cons) (use k in simp)
  have b: "bytes_at m (s + 1 + 1) k = bytes_at (m(s := c, s + 1 := 0)) (s + 1 + 1) k"
  proof (rule nth_equalityI)
    fix i assume "i < length (bytes_at m (s + 1 + 1) k)"
    then have i: "Suc (Suc i) < 2 ^ 32" "Suc i < 2 ^ 32" "i < k" using n Suc by simp_all
    have "unat (of_nat (Suc (Suc i)) :: u32) \<noteq> 0" "unat (of_nat (Suc i) :: u32) \<noteq> 0"
      using i by (subst unat_of_nat_u32; simp)+
    then have "s + 1 + 1 + of_nat i \<noteq> s" "s + 1 + 1 + of_nat i \<noteq> s + 1"
      by (auto simp: add.assoc)
    with i show "bytes_at m (s + 1 + 1) k ! i = bytes_at (m(s := c, s + 1 := 0)) (s + 1 + 1) k ! i"
      by simp
  qed simp
  have "put_bytes (m(s := c, s + 1 := 0)) (s + 1 + 1) (bytes_at m (s + 1 + 1) k) = m(s := c, s + 1 := 0)"
    unfolding b by (rule put_bytes_bytes_at) (use k in simp)
  with a Suc show ?thesis by (simp only: bytes_at_Suc zero_hd.simps if_False nat.distinct)
qed simp

text \<open>
  The copy through memory is the copy between arrays, for every pair of regions that do not
  overlap: \<open>safestrcpy(s, t, n)\<close> changes at most the \<open>n\<close> bytes of its destination.
\<close>

lemma safestrcpy_loop_eq:
  "k < 2 ^ 32 \<Longrightarrow> disjoint_regions s (Suc k) t (Suc k) \<Longrightarrow>
     safestrcpy_loop m s t k = put_bytes m s (safestrcpy_arr (bytes_at m s (Suc k)) (bytes_at m t (Suc k)) k)"
proof (induction k arbitrary: m s t)
  case 0
  then show ?case by (auto simp: bytes_at_Suc put_bytes_def fun_eq_iff unat_eq_0)
next
  case (Suc k)
  then have k: "k < 2 ^ 32" "Suc k < 2 ^ 32" by simp_all
  show ?case
  proof (cases "m t = 0")
    case True
    have "put_bytes m s (0 # zero_hd (bytes_at m (s + 1) (Suc k))) =
        put_bytes (m(s := 0)) (s + 1) (zero_hd (bytes_at m (s + 1) (Suc k)))"
      by (rule put_bytes_Cons) (use k in simp)
    with True show ?thesis
      by (simp add: bytes_at_Suc [of m s] bytes_at_Suc [of m t] bytes_at_Suc_upd [OF k(2)])
  next
    case False
    let ?a = "safestrcpy_arr (bytes_at m (s + 1) (Suc k)) (bytes_at m (t + 1) (Suc k)) k"
    have t: "bytes_at (m(s := m t)) (t + 1) (Suc k) = bytes_at m (t + 1) (Suc k)"
      by (rule bytes_at_upd_other [OF disjoint_regions_tail [OF Suc.prems(2)]])
    have s: "bytes_at (m(s := m t)) (s + 1) (Suc k) = bytes_at m (s + 1) (Suc k)"
      by (rule bytes_at_upd_before [OF k(2)])
    from False Suc.IH [OF k(1) disjoint_regions_step [OF Suc.prems(2)], of "m(s := m t)"] t s
    have "safestrcpy_loop m s t (Suc k) = put_bytes (m(s := m t)) (s + 1) ?a"
      by (simp del: fun_upd_apply)
    also have "\<dots> = put_bytes m s (m t # ?a)"
      by (rule put_bytes_Cons [symmetric]) (use k in simp)
    also have "m t # ?a = safestrcpy_arr (bytes_at m s (Suc (Suc k))) (bytes_at m t (Suc (Suc k))) (Suc k)"
      using False by (simp add: bytes_at_Suc [of m s] bytes_at_Suc [of m t])
    finally show ?thesis .
  qed
qed

lemma safestrcpy_eq:
  assumes "0 < n" "n \<le> 2 ^ 32" "disjoint_regions s (nat n) t (nat n)"
  shows "safestrcpy m s t n =
    put_bytes m s (safestrcpy_arr (bytes_at m s (nat n)) (bytes_at m t (nat n)) (nat (n - 1)))"
proof -
  have n: "nat n = Suc (nat (n - 1))" using assms(1) by simp
  have "safestrcpy_loop m s t (nat (n - 1)) = put_bytes m s
      (safestrcpy_arr (bytes_at m s (nat n)) (bytes_at m t (nat n)) (nat (n - 1)))"
    unfolding n by (rule safestrcpy_loop_eq) (use assms n in auto)
  with assms(1) show ?thesis by (simp add: safestrcpy_def)
qed

text \<open>What is copied is a terminated C string: the source, cut off after \<open>n - 1\<close> bytes.\<close>

lemma cstr_zero_hd [simp]: "xs \<noteq> [] \<Longrightarrow> cstr (zero_hd xs) = []"
  by (cases xs) auto

lemma cstr_safestrcpy_arr:
  "k < length dst \<Longrightarrow> k \<le> length src \<Longrightarrow> cstr (safestrcpy_arr dst src k) = cstr (take k src)"
proof (induction dst src k rule: safestrcpy_arr.induct)
  case (4 d ds c cs k)
  then show ?case by auto
qed auto

lemma safestrcpy_arr_terminated:
  "k < length dst \<Longrightarrow> k \<le> length src \<Longrightarrow> \<exists>i \<le> k. safestrcpy_arr dst src k ! i = 0"
proof (induction dst src k rule: safestrcpy_arr.induct)
  case (1 dst src)
  then show ?case by (cases dst) auto
next
  case (4 d ds c cs k)
  show ?case
  proof (cases "c = 0")
    case True
    then show ?thesis by (intro exI [of _ 0]) simp
  next
    case False
    with "4" obtain i where "i \<le> k" "safestrcpy_arr ds cs k ! i = 0" by auto
    with False show ?thesis by (intro exI [of _ "Suc i"]) simp
  qed
qed auto

section \<open>strlen\<close>

text \<open>\<open>strlen\<close> returns, and returns the position of the first NUL, whenever there is one.\<close>

lemma strlen_loop_eq:
  "n \<le> k \<Longrightarrow> m (s + of_nat k) = 0 \<Longrightarrow> (\<And>i. n \<le> i \<Longrightarrow> i < k \<Longrightarrow> m (s + of_nat i) \<noteq> 0) \<Longrightarrow>
     strlen_loop m s n = Some k"
proof (induction n rule: inc_induct)
  case base
  then show ?case by (simp add: strlen_loop.simps)
next
  case (step n)
  then show ?case by (simp add: strlen_loop.simps [of m s n])
qed

lemma strlen_eq:
  "m (s + of_nat k) = 0 \<Longrightarrow> (\<And>i. i < k \<Longrightarrow> m (s + of_nat i) \<noteq> 0) \<Longrightarrow> strlen m s = Some k"
  by (simp add: strlen_def strlen_loop_eq)

section \<open>Properties\<close>

text \<open>
  the word-wise \<open>memset\<close> of the kernel is the byte-wise \<open>memset\<close> of the user library, and both
  fill exactly the \<open>n\<close> bytes from \<open>dst\<close> with the low byte of \<open>c\<close>, whatever the alignment.
\<close>

theorem memset_fills:
  "memset m dst c n = ulib_memset m dst c n \<and>
   memset m dst c n = (\<lambda>x. if x - dst < n then ucast c else m x)"
  by (simp add: memset_eq memset_eq_stosb [symmetric] ulib_memset_def)

text \<open>
  C6: \<open>memmove\<close> leaves in the destination the bytes the source had before the call, even when the
  two regions overlap, and changes nothing else, for regions that do not wrap around the end of
  the address space.
\<close>

theorem memmove_correct:
  assumes "unat src + unat n \<le> 2 ^ 32" "unat dst + unat n \<le> 2 ^ 32"
  shows "bytes_at (memmove m dst src n) dst (unat n) = bytes_at m src (unat n) \<and>
    (\<forall>x. \<not> x - dst < n \<longrightarrow> memmove m dst src n x = m x)"
proof (intro conjI nth_equalityI)
  fix i assume "i < length (bytes_at (memmove m dst src n) dst (unat n))"
  then have i: "i < unat n" by simp
  then have "i < 2 ^ 32" using unat_u32_bound [of n] by simp
  with i have "(of_nat i :: u32) < n" by (simp add: word_less_nat_alt unat_of_nat_u32)
  with i show "bytes_at (memmove m dst src n) dst (unat n) ! i = bytes_at m src (unat n) ! i"
    by (simp add: memmove_eq [OF assms])
qed (simp_all add: memmove_eq [OF assms])

theorem memmove_correct_witness:
  "bytes_at (memmove (\<lambda>x. ucast x) 2 0 4) 2 4 = [0, 1, 2, 3]"
proof -
  have u: "unat (4 :: u32) = 4" by simp
  have "bytes_at (memmove (\<lambda>x. ucast x) 2 0 4) 2 (unat (4 :: u32)) = bytes_at (\<lambda>x. ucast x) 0 (unat (4 :: u32))"
    using memmove_correct [of 0 4 2] by simp
  then show ?thesis unfolding u by (simp add: bytes_at_def upt_rec)
qed

text \<open>
  \<open>safestrcpy(s, t, n)\<close> leaves at \<open>s\<close> the C string at \<open>t\<close>, cut off after \<open>n - 1\<close> bytes and always
  terminated within the \<open>n\<close> bytes of the destination, and writes nowhere else.
\<close>

theorem safestrcpy_terminates_string:
  assumes "0 < n" "n \<le> 2 ^ 32" "disjoint_regions s (nat n) t (nat n)"
  shows "cstr (bytes_at (safestrcpy m s t n) s (nat n)) = cstr (take (nat n - 1) (bytes_at m t (nat n))) \<and>
    0 \<in> set (bytes_at (safestrcpy m s t n) s (nat n)) \<and>
    (\<forall>x. nat n \<le> unat (x - s) \<longrightarrow> safestrcpy m s t n x = m x)"
proof -
  let ?a = "safestrcpy_arr (bytes_at m s (nat n)) (bytes_at m t (nat n)) (nat (n - 1))"
  have k: "nat (n - 1) < nat n" "nat n - 1 = nat (n - 1)" using assms(1) by simp_all
  have b: "bytes_at (safestrcpy m s t n) s (nat n) = ?a"
    using bytes_at_put_bytes [of ?a m s] assms(2) by (simp add: safestrcpy_eq [OF assms] nat_le_iff)
  from safestrcpy_arr_terminated [of "nat (n - 1)" "bytes_at m s (nat n)" "bytes_at m t (nat n)"] k
  obtain i where "i \<le> nat (n - 1)" "?a ! i = 0" by auto
  with k have "0 \<in> set ?a" by (metis in_set_conv_nth length_bytes_at length_safestrcpy_arr le_less_trans)
  moreover have "cstr ?a = cstr (take (nat n - 1) (bytes_at m t (nat n)))"
    using k by (simp add: cstr_safestrcpy_arr)
  ultimately show ?thesis
    unfolding b by (simp add: safestrcpy_eq [OF assms] put_bytes_def)
qed

theorem safestrcpy_terminates_string_witness:
  "cstr (bytes_at (safestrcpy (\<lambda>x. if x < 100 then 65 else 7) 200 10 3) 200 3) = [65, 65]"
proof -
  let ?m = "\<lambda>x :: u32. (if x < 100 then 65 else 7) :: byte"
  have "disjoint_regions 200 (nat 3) 10 (nat 3)"
    by (simp add: disjoint_regions_def numeral_3_eq_3 less_Suc_eq all_conj_distrib imp_disjL)
  from safestrcpy_terminates_string [OF _ _ this, of ?m]
  have "cstr (bytes_at (safestrcpy ?m 200 10 3) 200 (nat 3)) = cstr (take (nat 3 - 1) (bytes_at ?m 10 (nat 3)))"
    by simp
  then show ?thesis by (simp add: bytes_at_def upt_rec)
qed

end
