(* ===== verification/Memlayout.thy ===== *)
theory Memlayout
  imports Strings
begin

text \<open>
  The layout of memory: \<^verbatim>\<open>memlayout.h\<close>, the page arithmetic of \<^verbatim>\<open>mmu.h\<close>, and 32-bit words in
  byte-addressed memory. The lemmas say how an address splits into its page and the offset
  there, and when a load sees a store.
\<close>

section \<open>Definitions\<close>

abbreviation PGSIZE :: u32 where "PGSIZE \<equiv> 4096"
abbreviation KERNBASE :: u32 where "KERNBASE \<equiv> 0x80000000"
abbreviation EXTMEM :: u32 where "EXTMEM \<equiv> 0x100000"
abbreviation PHYSTOP :: u32 where "PHYSTOP \<equiv> 0xE000000"
abbreviation DEVSPACE :: u32 where "DEVSPACE \<equiv> 0xFE000000"

definition V2P :: "u32 \<Rightarrow> u32" where
  "V2P a = a - KERNBASE"

definition P2V :: "u32 \<Rightarrow> u32" where
  "P2V a = a + KERNBASE"

definition PGROUNDUP :: "u32 \<Rightarrow> u32" where
  "PGROUNDUP sz = (sz + PGSIZE - 1) AND NOT (PGSIZE - 1)"

definition PGROUNDDOWN :: "u32 \<Rightarrow> u32" where
  "PGROUNDDOWN a = a AND NOT (PGSIZE - 1)"

text \<open>A word in memory, little endian; \<open>store32\<close> is its counterpart.\<close>

definition load32 :: "bmem \<Rightarrow> u32 \<Rightarrow> u32" where
  "load32 m a = ucast (m a) OR push_bit 8 (ucast (m (a + 1))) OR push_bit 16 (ucast (m (a + 2)))
     OR push_bit 24 (ucast (m (a + 3)))"

section \<open>Pages\<close>

text \<open>\<open>PGROUNDDOWN a\<close> is the page of the address \<open>a\<close>; its offset there is \<open>take_bit 12 a\<close>.\<close>

lemma mod_PGSIZE: "(a :: u32) mod PGSIZE = take_bit 12 a"
  by (simp add: take_bit_eq_mod)

lemma mask_12: "(0xFFF :: u32) = mask 12"
  by (simp add: mask_eq_exp_minus_1)

lemma PGROUNDDOWN_bits: "PGROUNDDOWN a = a AND NOT (mask 12)"
  by (simp add: PGROUNDDOWN_def mask_12)

lemma PGROUNDDOWN_split: "PGROUNDDOWN a + take_bit 12 a = a"
proof -
  have "PGROUNDDOWN a + take_bit 12 a = PGROUNDDOWN a OR take_bit 12 a"
    by (rule disjunctive_add) (auto simp: PGROUNDDOWN_bits bit_simps)
  also have "\<dots> = a"
    by (rule bit_word_eqI) (auto simp: PGROUNDDOWN_bits bit_simps)
  finally show ?thesis .
qed

lemma aligned_PGROUNDDOWN [simp]: "PGROUNDDOWN a mod PGSIZE = 0"
  unfolding mod_PGSIZE by (rule bit_word_eqI) (auto simp: PGROUNDDOWN_bits bit_simps)

lemma PGROUNDDOWN_aligned: "a mod PGSIZE = 0 \<Longrightarrow> PGROUNDDOWN a = a"
  using PGROUNDDOWN_split [of a] by (simp add: mod_PGSIZE)

lemma take_bit_12_less: "take_bit 12 (a :: u32) < PGSIZE"
proof -
  have "unat (take_bit 12 a) < 2 ^ 12"
    using take_bit_nat_less_exp [of 12 "unat a"] by (simp add: unsigned_take_bit_eq)
  then show ?thesis by (simp add: word_less_nat_alt)
qed

lemma take_bit_12_small: "i < PGSIZE \<Longrightarrow> take_bit 12 i = (i :: u32)"
  by (simp add: take_bit_eq_mod word_mod_less_divisor mod_word_less)

lemma PGROUNDDOWN_add:
  assumes "v mod PGSIZE = 0" "i < PGSIZE"
  shows "PGROUNDDOWN (v + i) = v" "take_bit 12 (v + i) = i"
proof -
  have v: "\<not> bit v n" if "n < 12" for n
    using assms(1) that unfolding mod_PGSIZE by (metis bit_0_eq bit_take_bit_iff bot_apply bot_bool_def)
  have i: "\<not> bit i n" if "\<not> n < 12" for n
    using take_bit_12_small [OF assms(2)] that by (metis bit_take_bit_iff)
  have "v + i = v OR i"
    by (rule disjunctive_add) (use v i in blast)
  then show "PGROUNDDOWN (v + i) = v" "take_bit 12 (v + i) = i"
    by (auto intro!: bit_word_eqI simp: PGROUNDDOWN_bits bit_simps v i dest: v i)
qed

lemma in_page_iff: "v mod PGSIZE = 0 \<Longrightarrow> a - v < PGSIZE \<longleftrightarrow> PGROUNDDOWN a = v"
proof
  assume "v mod PGSIZE = 0" "a - v < PGSIZE"
  then have "PGROUNDDOWN (v + (a - v)) = v" by (rule PGROUNDDOWN_add)
  then show "PGROUNDDOWN a = v" by simp
next
  assume "PGROUNDDOWN a = v"
  then have "a - v = take_bit 12 a" using PGROUNDDOWN_split [of a] by (metis add_diff_cancel_left')
  then show "a - v < PGSIZE" by (simp add: take_bit_12_less)
qed

lemma unat_PGROUNDUP:
  assumes "unat a + 4095 < 2 ^ 32"
  shows "unat (PGROUNDUP a) = (unat a + 4095) div 4096 * 4096"
proof -
  have up: "PGROUNDUP a = PGROUNDDOWN (a + 0xFFF)"
    by (simp add: PGROUNDUP_def PGROUNDDOWN_def add.commute)
  have sum: "unat (a + 0xFFF) = unat a + 4095"
    using assms by (simp add: unat_word_ariths)
  have le: "take_bit 12 (a + 0xFFF) \<le> a + 0xFFF"
    by (simp add: word_le_nat_alt unsigned_take_bit_eq)
  have "PGROUNDUP a = (a + 0xFFF) - take_bit 12 (a + 0xFFF)"
    using PGROUNDDOWN_split [of "a + 0xFFF"] by (simp add: up eq_diff_eq)
  then have "unat (PGROUNDUP a) = unat (a + 0xFFF) - unat (take_bit 12 (a + 0xFFF))"
    by (simp add: unat_sub [OF le])
  also have "unat (take_bit 12 (a + 0xFFF)) = (unat a + 4095) mod 4096"
    by (simp add: take_bit_eq_mod unat_mod sum)
  finally show ?thesis
    by (simp add: sum minus_mod_eq_div_mult)
qed

lemma PGROUNDUP_aligned [simp]: "PGROUNDUP a mod PGSIZE = 0"
proof -
  have "PGROUNDUP a = PGROUNDDOWN (a + 0xFFF)"
    by (simp add: PGROUNDUP_def PGROUNDDOWN_def add.commute)
  then show ?thesis by simp
qed

text \<open>The whole pages between \<open>p\<close> and \<open>vend\<close>.\<close>

fun pages_from :: "u32 \<Rightarrow> nat \<Rightarrow> u32 list" where
  "pages_from p 0 = []"
| "pages_from p (Suc n) = p # pages_from (p + PGSIZE) n"

lemma aligned_unat: "(p :: u32) mod PGSIZE = 0 \<longleftrightarrow> 4096 dvd unat p"
proof -
  have "p mod PGSIZE = 0 \<longleftrightarrow> unat (p mod PGSIZE) = 0" by (simp add: unat_eq_0)
  then show ?thesis by (simp add: unat_mod dvd_eq_mod_eq_0)
qed

lemma dvd_mod_2_32: "4096 dvd n mod 4294967296 \<longleftrightarrow> 4096 dvd (n :: nat)"
  by (rule dvd_mod_iff) simp

lemma aligned_add:
  assumes "p mod PGSIZE = 0" "q mod PGSIZE = 0"
  shows "(p + q) mod PGSIZE = (0 :: u32)"
  using assms by (simp add: aligned_unat unat_word_ariths dvd_mod_2_32)

lemma aligned_add_PGSIZE: "p mod PGSIZE = 0 \<Longrightarrow> (p + PGSIZE) mod PGSIZE = (0 :: u32)"
  by (rule aligned_add) simp_all

lemma pages_from_bound:
  "x \<in> set (pages_from p n) \<Longrightarrow> unat p + 4096 * n < 2 ^ 32 \<Longrightarrow> unat p \<le> unat x"
proof (induction n arbitrary: p)
  case (Suc n)
  then have "unat (p + PGSIZE) = unat p + 4096" by (simp add: unat_word_ariths)
  with Suc show ?case by fastforce
qed simp

section \<open>Words in memory\<close>

lemma load32_store32_same [simp]: "load32 (store32 m a v) a = v"
proof (rule bit_word_eqI)
  fix n
  assume "n < LENGTH(32)"
  then show "bit (load32 (store32 m a v) a) n = bit v n"
    by (cases "24 \<le> n"; cases "16 \<le> n"; cases "8 \<le> n") (auto simp: load32_def store32_def bit_simps)
qed

lemma load32_zero [simp]: "load32 (\<lambda>x. 0) a = 0"
  by (simp add: load32_def)

lemma unat_aligned4:
  assumes "a mod 4 = (0 :: u32)"
  shows "4 dvd unat a" "unat a \<le> 2 ^ 32 - 4"
proof -
  from assms have "unat (a mod 4) = 0" by simp
  then show d: "4 dvd unat a" by (simp add: unat_mod dvd_eq_mod_eq_0)
  then obtain k where "unat a = 4 * k" ..
  with unat_u32_bound [of a] show "unat a \<le> 2 ^ 32 - 4" by simp
qed

lemma unat_aligned4_add:
  assumes "a mod 4 = (0 :: u32)" "i < 4"
  shows "unat (a + i) = unat a + unat i"
  using unat_aligned4(2) [OF assms(1)] assms(2) by (simp add: unat_word_ariths word_less_nat_alt)

lemma aligned4_neq:
  assumes "a mod 4 = (0 :: u32)" "b mod 4 = 0" "a \<noteq> b" "i < 4" "j < 4"
  shows "a + i \<noteq> b + j"
proof
  assume "a + i = b + j"
  then have "unat a + unat i = unat b + unat j"
    using unat_aligned4_add assms by metis
  moreover have "unat i < 4" "unat j < 4" using assms(4,5) by (simp_all add: word_less_nat_alt)
  moreover obtain k l where "unat a = 4 * k" "unat b = 4 * l"
    using unat_aligned4(1) assms(1,2) by (metis dvdE)
  ultimately have "unat a = unat b" by presburger
  with assms(3) show False by (simp add: word_unat_eq_iff)
qed

lemma load32_store32_other [simp]:
  assumes "a mod 4 = 0" "b mod 4 = 0" "a \<noteq> b"
  shows "load32 (store32 m a v) b = load32 m b"
proof -
  have ne: "b + j \<noteq> a + i" if "i < 4" "j < 4" for i j
    using aligned4_neq [OF assms(2,1) assms(3) [symmetric] that(2,1)] .
  have "store32 m a v (b + j) = m (b + j)" if "j < 4" for j
    using ne [of 0 j] ne [of 1 j] ne [of 2 j] ne [of 3 j] that by (simp add: store32_def)
  from this [of 0] this [of 1] this [of 2] this [of 3] show ?thesis
    by (simp add: load32_def)
qed

lemma page_aligned4: "p mod PGSIZE = 0 \<Longrightarrow> p mod 4 = (0 :: u32)"
proof -
  assume "p mod PGSIZE = 0"
  then have "4096 dvd unat p" by (simp add: aligned_unat)
  then have "4 dvd unat p" by (rule dvd_trans [rotated]) simp
  then have "unat (p mod 4) = 0" by (simp add: unat_mod dvd_eq_mod_eq_0)
  then show ?thesis by (simp add: unat_eq_0)
qed

text \<open>An aligned word lies in one page.\<close>

lemma word_in_page:
  assumes "a mod 4 = 0" "i < 4"
  shows "PGROUNDDOWN (a + i) = PGROUNDDOWN a"
proof -
  have "unat (take_bit 12 a) = unat a mod 4096" by (simp add: take_bit_eq_mod unat_mod)
  moreover obtain k where "unat a = 4 * k" using unat_aligned4(1) [OF assms(1)] ..
  then have "unat a mod 4096 = 4 * (k mod 1024)" by (simp add: mult_mod_right)
  moreover have "unat i < 4" using assms(2) by (simp add: word_less_nat_alt)
  ultimately have "unat (take_bit 12 a) + unat i < 4096" by simp
  then have "take_bit 12 a + i < PGSIZE" by (simp add: word_less_nat_alt unat_word_ariths)
  from PGROUNDDOWN_add(1) [OF aligned_PGROUNDDOWN this, of a]
  show ?thesis by (simp add: add.assoc [symmetric] PGROUNDDOWN_split)
qed

lemma load32_cong:
  assumes "a mod 4 = 0" "\<And>x. PGROUNDDOWN x = PGROUNDDOWN a \<Longrightarrow> m x = m' x"
  shows "load32 m a = load32 m' a"
proof -
  have "m (a + i) = m' (a + i)" if "i < 4" for i
    using assms(2) word_in_page [OF assms(1) that] .
  from this [of 0] this [of 1] this [of 2] this [of 3] show ?thesis
    by (simp add: load32_def)
qed

lemma store32_other_page:
  assumes "a mod 4 = 0" "PGROUNDDOWN x \<noteq> PGROUNDDOWN a"
  shows "store32 m a v x = m x"
proof -
  have "x \<noteq> a + i" if "i < 4" for i
    using assms(2) word_in_page [OF assms(1) that] by auto
  from this [of 0] this [of 1] this [of 2] this [of 3] show ?thesis
    by (simp add: store32_def)
qed

text \<open>Filling a page with zeroes, and copying one.\<close>

lemma memset_page:
  "v mod PGSIZE = 0 \<Longrightarrow> memset m v c PGSIZE = (\<lambda>x. if PGROUNDDOWN x = v then ucast c else m x)"
  by (simp add: memset_eq in_page_iff)

lemma load32_memset_0:
  assumes "v mod PGSIZE = 0" "PGROUNDDOWN a = v" "a mod 4 = 0"
  shows "load32 (memset m v 0 PGSIZE) a = 0"
proof -
  have "load32 (memset m v 0 PGSIZE) a = load32 (\<lambda>x. 0) a"
    by (rule load32_cong [OF assms(3)]) (simp add: memset_page [OF assms(1)] assms(2))
  then show ?thesis by simp
qed

end
