(* ===== verification/Kalloc.thy ===== *)
theory Kalloc
  imports Kmonad Memlayout
begin

text \<open>
  The physical page allocator, \<^verbatim>\<open>kalloc.c\<close>.

  Kernel memory is the byte-addressed memory \<open>mem\<close> of the kernel's virtual addresses. The free list is threaded through the free pages themselves, as in the
  code: \<^verbatim>\<open>r->next\<close> is the word at the start of the page \<open>r\<close>. The addresses \<open>kend\<close> and \<open>kdata\<close>
  (the linker symbols \<^verbatim>\<open>end\<close> and \<^verbatim>\<open>data\<close>) are fields of the state, since the linker and not
  the source decides them.

  \<open>free_chain\<close> relates the memory to the list of free pages. The lemmas show that
  \<open>kalloc\<close> and \<open>kfree\<close> are pop and push on that list, that the list never holds a page twice
  as long as no page is freed twice, and that \<open>freerange\<close> puts every whole page of its range on
  the list. The locale \<open>page_allocator\<close> is the interface the virtual memory code relies on.
\<close>

section \<open>Definitions\<close>

record kmem = kcore +
  mem :: bmem
  freelist :: u32
  use_lock :: bool
  kend :: u32
  kdata :: u32

definition page_ok :: "'z kmem_scheme \<Rightarrow> u32 \<Rightarrow> bool" where
  "page_ok s v \<longleftrightarrow> \<not> (v mod PGSIZE \<noteq> 0 \<or> v < kend s \<or> V2P v \<ge> PHYSTOP)"

definition kfree :: "u32 \<Rightarrow> ('z kmem_scheme, unit) kop" where
  "kfree v =
     bindK (getK (\<lambda>s. page_ok s v)) (\<lambda>ok.
     if \<not> ok then panicK ''kfree'' else
     bindK (modK (\<lambda>s. s\<lparr>mem := memset (mem s) v 1 PGSIZE\<rparr>)) (\<lambda>_.
     bindK (getK use_lock) (\<lambda>lock.
     bindK (whenK lock (acquire L_kmem)) (\<lambda>_.
     bindK (modK (\<lambda>s. s\<lparr>mem := store32 (mem s) v (freelist s)\<rparr>)) (\<lambda>_.
     bindK (modK (\<lambda>s. s\<lparr>freelist := v\<rparr>)) (\<lambda>_.
     whenK lock (release L_kmem)))))))"

definition kalloc :: "('z kmem_scheme, u32) kop" where
  "kalloc =
     bindK (getK use_lock) (\<lambda>lock.
     bindK (whenK lock (acquire L_kmem)) (\<lambda>_.
     bindK (getK freelist) (\<lambda>r.
     bindK (whenK (r \<noteq> 0) (modK (\<lambda>s. s\<lparr>freelist := load32 (mem s) r\<rparr>))) (\<lambda>_.
     bindK (whenK lock (release L_kmem)) (\<lambda>_.
     retK r)))))"

lemma kfree_Ret_bound:
  assumes "kfree v s = Ret a s'"
  shows "unat v + 4096 < 2 ^ 32"
proof -
  from assms have "page_ok s v" by (auto simp: kfree_def split: if_splits)
  then have "v - KERNBASE < PHYSTOP" by (simp add: page_ok_def V2P_def linorder_not_le)
  then show ?thesis by (simp add: unat_arith_simps split: if_splits)
qed

text \<open>
  The loop of \<^verbatim>\<open>freerange\<close>. It ends because \<open>kfree\<close> panics above \<open>PHYSTOP\<close>, so that
  \<open>p + PGSIZE\<close> never wraps around.
\<close>

function freerange_loop :: "u32 \<Rightarrow> u32 \<Rightarrow> 'z kmem_scheme \<Rightarrow> ('z kmem_scheme, unit) outcome" where
  "freerange_loop p vend s =
     (if p + PGSIZE \<le> vend then
        (case kfree p s of
           Ret a s' \<Rightarrow> freerange_loop (p + PGSIZE) vend s'
         | Panic e \<Rightarrow> Panic e
         | Swtch s' \<Rightarrow> Swtch s')
      else Ret () s)"
  by pat_completeness auto
termination
proof (relation "measure (\<lambda>(p, vend, s). 2 ^ 32 - unat p)")
  fix p vend :: u32 and s a s'
  assume "kfree p s = Ret a s'"
  then have "unat p + 4096 < 2 ^ 32" by (rule kfree_Ret_bound)
  then have "unat (p + PGSIZE) = unat p + 4096" by (simp add: unat_word_ariths)
  with \<open>unat p + 4096 < 2 ^ 32\<close>
  show "((p + PGSIZE, vend, s'), p, vend, s) \<in> measure (\<lambda>(p, vend, s). 2 ^ 32 - unat p)"
    by simp
qed simp

declare freerange_loop.simps [simp del]

definition freerange :: "u32 \<Rightarrow> u32 \<Rightarrow> ('z kmem_scheme, unit) kop" where
  "freerange vstart vend = freerange_loop (PGROUNDUP vstart) vend"

definition kinit1 :: "u32 \<Rightarrow> u32 \<Rightarrow> ('z kmem_scheme, unit) kop" where
  "kinit1 vstart vend =
     bindK (modK (\<lambda>s. s\<lparr>held := held s - {L_kmem}\<rparr>)) (\<lambda>_.
     bindK (modK (\<lambda>s. s\<lparr>use_lock := False\<rparr>)) (\<lambda>_.
     freerange vstart vend))"

definition kinit2 :: "u32 \<Rightarrow> u32 \<Rightarrow> ('z kmem_scheme, unit) kop" where
  "kinit2 vstart vend =
     bindK (freerange vstart vend) (\<lambda>_.
     modK (\<lambda>s. s\<lparr>use_lock := True\<rparr>))"

section \<open>The list of free pages\<close>

fun free_chain :: "bmem \<Rightarrow> u32 \<Rightarrow> u32 list \<Rightarrow> bool" where
  "free_chain m p [] \<longleftrightarrow> p = 0"
| "free_chain m p (x # xs) \<longleftrightarrow> p = x \<and> x \<noteq> 0 \<and> free_chain m (load32 m x) xs"

text \<open>
  \<open>kmem_inv s xs\<close>: the allocator's free pages are exactly \<open>xs\<close>, each a page that \<open>kfree\<close>
  accepts, none twice; and the allocator's lock is not held by this processor.
\<close>

definition kmem_inv :: "'z kmem_scheme \<Rightarrow> u32 list \<Rightarrow> bool" where
  "kmem_inv s xs \<longleftrightarrow> free_chain (mem s) (freelist s) xs \<and> distinct xs \<and>
     (\<forall>x \<in> set xs. page_ok s x) \<and> KERNBASE < kend s \<and> L_kmem \<notin> held s"

lemma page_ok_aligned: "page_ok s v \<Longrightarrow> v mod PGSIZE = 0"
  by (simp add: page_ok_def)

lemma page_ok_nonzero: "page_ok s v \<Longrightarrow> v \<noteq> 0"
  by (auto simp: page_ok_def V2P_def)

lemma page_ok_upd [simp]:
  "page_ok (s\<lparr>mem := m\<rparr>) = page_ok s" "page_ok (s\<lparr>freelist := f\<rparr>) = page_ok s"
  "page_ok (s\<lparr>held := h\<rparr>) = page_ok s" "page_ok (s\<lparr>use_lock := b\<rparr>) = page_ok s"
  by (simp_all add: page_ok_def fun_eq_iff)

section \<open>Allocation and release\<close>

lemma free_chain_cong:
  "(\<And>x. x \<in> set xs \<Longrightarrow> load32 m' x = load32 m x) \<Longrightarrow> free_chain m' p xs = free_chain m p xs"
  by (induction xs arbitrary: p) auto

lemma free_chain_unique: "free_chain m p xs \<Longrightarrow> free_chain m p ys \<Longrightarrow> xs = ys"
proof (induction xs arbitrary: p ys)
  case Nil
  then show ?case by (cases ys) auto
next
  case (Cons x xs)
  then show ?case by (cases ys) auto
qed

lemma kmem_inv_unique: "kmem_inv s xs \<Longrightarrow> kmem_inv s ys \<Longrightarrow> xs = ys"
  by (auto simp: kmem_inv_def dest: free_chain_unique)

text \<open>The state after \<open>kfree\<close>, and after \<open>kalloc\<close>.\<close>

definition freed :: "u32 \<Rightarrow> 'z kmem_scheme \<Rightarrow> 'z kmem_scheme" where
  "freed v s = s\<lparr>mem := store32 (memset (mem s) v 1 PGSIZE) v (freelist s), freelist := v\<rparr>"

lemma kfree_run:
  "page_ok s v \<Longrightarrow> L_kmem \<notin> held s \<Longrightarrow> kfree v s = Ret () (freed v s)"
  by (simp add: kfree_def freed_def run_simps acquire_def release_def bindK_def)

lemma kfree_bad: "\<not> page_ok s v \<Longrightarrow> kfree v s = Panic ''kfree''"
  by (simp add: kfree_def)

lemma kalloc_run:
  assumes "L_kmem \<notin> held s"
  shows "kalloc s = Ret (freelist s) (if freelist s = 0 then s else s\<lparr>freelist := load32 (mem s) (freelist s)\<rparr>)"
  using assms by (simp add: kalloc_def run_simps acquire_def release_def bindK_def)

lemma kalloc_empty: "kmem_inv s [] \<Longrightarrow> kalloc s = Ret 0 s"
  by (simp add: kmem_inv_def kalloc_run)

lemma kalloc_page:
  assumes "kmem_inv s (x # xs)"
  shows "kalloc s = Ret x (s\<lparr>freelist := load32 (mem s) x\<rparr>)" "kmem_inv (s\<lparr>freelist := load32 (mem s) x\<rparr>) xs"
  using assms by (auto simp: kmem_inv_def kalloc_run)

lemma kalloc_cases:
  assumes "kmem_inv s xs"
  obtains (none) "xs = []" "kalloc s = Ret 0 s"
  | (page) x ys where "xs = x # ys" "x \<noteq> 0" "kalloc s = Ret x (s\<lparr>freelist := load32 (mem s) x\<rparr>)"
      "kmem_inv (s\<lparr>freelist := load32 (mem s) x\<rparr>) ys" "page_ok s x" "x \<notin> set ys"
proof (cases xs)
  case Nil
  with assms none show ?thesis by (simp add: kalloc_empty)
next
  case (Cons x ys)
  with assms page kalloc_page show ?thesis by (auto simp: kmem_inv_def)
qed

lemma kmem_inv_freed:
  assumes inv: "kmem_inv s xs" and ok: "page_ok s v" and new: "v \<notin> set xs"
  shows "kmem_inv (freed v s) (v # xs)"
proof -
  have al: "v mod PGSIZE = 0" using ok by (rule page_ok_aligned)
  have "load32 (store32 (memset (mem s) v 1 PGSIZE) v (freelist s)) x = load32 (mem s) x" if "x \<in> set xs" for x
  proof -
    from inv that have x: "x mod PGSIZE = 0" by (auto simp: kmem_inv_def intro: page_ok_aligned)
    then have "PGROUNDDOWN x = x" by (rule PGROUNDDOWN_aligned)
    moreover have "x \<noteq> v" using that new by blast
    ultimately show ?thesis
      by (intro load32_cong page_aligned4 x)
         (simp add: store32_other_page page_aligned4 al PGROUNDDOWN_aligned memset_page)
  qed
  then have "free_chain (store32 (memset (mem s) v 1 PGSIZE) v (freelist s)) (freelist s) xs
      = free_chain (mem s) (freelist s) xs"
    by (rule free_chain_cong)
  with inv ok new page_ok_nonzero [OF ok] show ?thesis
    by (auto simp: kmem_inv_def freed_def)
qed

section \<open>freerange\<close>

lemma freed_fields [simp]:
  "kend (freed v s) = kend s" "held (freed v s) = held s" "use_lock (freed v s) = use_lock s"
  "kdata (freed v s) = kdata s" "page_ok (freed v s) = page_ok s" "freelist (freed v s) = v"
  by (simp_all add: freed_def)

lemma page_in_range:
  assumes "p mod PGSIZE = 0" "unat (kend s) \<le> unat p" "KERNBASE \<le> kend s"
    and "unat p + 4096 \<le> unat (KERNBASE + PHYSTOP)"
  shows "page_ok s p"
  using assms unfolding page_ok_def V2P_def
  by (simp add: unat_arith_simps split: if_splits)

lemma freerange_loop_run:
  assumes "kmem_inv s xs" "p mod PGSIZE = 0" "unat (kend s) \<le> unat p"
    and "unat vend \<le> unat (KERNBASE + PHYSTOP)" "unat p \<le> unat (KERNBASE + PHYSTOP) + 4096"
    and "n = (unat vend - unat p) div 4096" "set (pages_from p n) \<inter> set xs = {}"
  shows "\<exists>s'. freerange_loop p vend s = Ret () s' \<and> kmem_inv s' (rev (pages_from p n) @ xs)
           \<and> kend s' = kend s \<and> held s' = held s \<and> use_lock s' = use_lock s"
  using assms
proof (induction n arbitrary: p s xs)
  case 0
  have "unat vend < unat p + 4096"
    using "0.prems"(6) by (simp add: div_eq_0_iff)
  moreover have "unat (p + PGSIZE) = unat p + 4096"
    using "0.prems"(5) by (simp add: unat_word_ariths)
  ultimately have "\<not> p + PGSIZE \<le> vend" by (simp add: word_le_nat_alt)
  with "0.prems"(1) show ?case by (simp add: freerange_loop.simps)
next
  case (Suc n)
  have room: "unat p + 4096 \<le> unat vend"
  proof (rule ccontr)
    assume "\<not> ?thesis"
    then have "unat vend - unat p < 4096" by simp
    then have "(unat vend - unat p) div 4096 = 0" by (rule div_less)
    with Suc.prems(6) show False by simp
  qed
  have kend: "KERNBASE \<le> kend s" and lock: "L_kmem \<notin> held s"
    using Suc.prems(1) by (auto simp: kmem_inv_def)
  have ok: "page_ok s p"
    using Suc.prems(2,3) kend room Suc.prems(4) by (intro page_in_range) simp_all
  have up: "unat (p + PGSIZE) = unat p + 4096"
    using room Suc.prems(4) by (simp add: unat_word_ariths)
  have fits: "p + PGSIZE \<le> vend" using room up by (simp add: word_le_nat_alt)
  have n: "n = (unat vend - unat (p + PGSIZE)) div 4096"
  proof -
    have "unat vend - unat p = 4096 + (unat vend - unat (p + PGSIZE))" using room up by simp
    with Suc.prems(6) have "Suc n = (4096 + (unat vend - unat (p + PGSIZE))) div 4096" by simp
    then show ?thesis by simp
  qed
  have "p \<notin> set xs" using Suc.prems(7) by simp
  with Suc.prems(1) ok have inv: "kmem_inv (freed p s) (p # xs)" by (intro kmem_inv_freed)
  have bound: "unat (p + PGSIZE) + 4096 * n < 2 ^ 32"
  proof -
    have "4096 * n \<le> unat vend - unat (p + PGSIZE)" unfolding n by simp
    then show ?thesis using Suc.prems(4) room up by simp
  qed
  have "p \<notin> set (pages_from (p + PGSIZE) n)"
    using pages_from_bound [OF _ bound, of p] up by auto
  with Suc.prems(7) have "set (pages_from (p + PGSIZE) n) \<inter> set (p # xs) = {}" by auto
  with Suc.IH [OF inv aligned_add_PGSIZE [OF Suc.prems(2)] _ Suc.prems(4) _ n] up room Suc.prems(3,4)
  obtain s' where "freerange_loop (p + PGSIZE) vend (freed p s) = Ret () s'"
    "kmem_inv s' (rev (pages_from (p + PGSIZE) n) @ p # xs)"
    "kend s' = kend s" "held s' = held s" "use_lock s' = use_lock s"
    by auto
  with fits show ?case
    by (simp add: freerange_loop.simps [of p] kfree_run [OF ok lock])
qed

section \<open>The allocator as an interface\<close>

text \<open>
  What the users of the allocator rely on: \<open>pages s xs\<close> says that \<open>xs\<close> are the free pages, and
  \<open>page s v\<close> that \<open>v\<close> is a page the allocator manages.
\<close>

locale page_allocator =
  fixes alloc :: "('s, u32) kop"
    and free :: "u32 \<Rightarrow> ('s, unit) kop"
    and pages :: "'s \<Rightarrow> u32 list \<Rightarrow> bool"
    and page :: "'s \<Rightarrow> u32 \<Rightarrow> bool"
  assumes alloc_none: "pages s [] \<Longrightarrow> alloc s = Ret 0 s"
    and alloc_some: "pages s (x # xs) \<Longrightarrow> \<exists>s'. alloc s = Ret x s' \<and> pages s' xs \<and> page s' = page s"
    and free_page: "pages s xs \<Longrightarrow> page s v \<Longrightarrow> v \<notin> set xs \<Longrightarrow>
      \<exists>s'. free v s = Ret () s' \<and> pages s' (v # xs) \<and> page s' = page s"
    and free_other: "\<not> page s v \<Longrightarrow> free v s = Panic ''kfree''"
    and pages_distinct: "pages s xs \<Longrightarrow> distinct xs"
    and pages_page: "pages s xs \<Longrightarrow> x \<in> set xs \<Longrightarrow> page s x"
    and page_nonnull: "page s x \<Longrightarrow> x \<noteq> 0"
begin

lemma alloc_cases:
  assumes "pages s xs" "alloc s = Ret r s'"
  shows "(xs = [] \<and> r = 0 \<and> s' = s) \<or>
    (\<exists>ys. xs = r # ys \<and> r \<noteq> 0 \<and> page s r \<and> r \<notin> set ys \<and> pages s' ys \<and> page s' = page s)"
proof (cases xs)
  case Nil
  with assms alloc_none show ?thesis by simp
next
  case (Cons x ys)
  with assms(1) alloc_some obtain t where t: "alloc s = Ret x t" "pages t ys" "page t = page s"
    by blast
  from assms(1) Cons have "page s x" "x \<notin> set ys"
    using pages_page pages_distinct by fastforce+
  with t Cons assms(2) page_nonnull show ?thesis by auto
qed

text \<open>Two allocations never return the same page.\<close>

lemma allocs_distinct:
  assumes "pages s xs" "alloc s = Ret a s1" "alloc s1 = Ret b s2" "b \<noteq> 0"
  shows "a \<noteq> b \<and> a \<noteq> 0"
proof -
  from alloc_cases [OF assms(1,2)] show ?thesis
  proof
    assume "xs = [] \<and> a = 0 \<and> s1 = s"
    with assms alloc_none show ?thesis by auto
  next
    assume "\<exists>ys. xs = a # ys \<and> a \<noteq> 0 \<and> page s a \<and> a \<notin> set ys \<and> pages s1 ys \<and> page s1 = page s"
    then obtain ys where ys: "a \<noteq> 0" "a \<notin> set ys" "pages s1 ys" by blast
    from alloc_cases [OF ys(3) assms(3)] assms(4) have "b \<in> set ys" by auto
    with ys show ?thesis by blast
  qed
qed

text \<open>A page that is given back is the next one to be handed out.\<close>

lemma free_alloc:
  assumes "pages s xs" "page s v" "v \<notin> set xs"
  shows "\<exists>s'. bindK (free v) (\<lambda>_. alloc) s = Ret v s' \<and> pages s' xs"
proof -
  from free_page [OF assms] obtain t where t: "free v s = Ret () t" "pages t (v # xs)" by blast
  from alloc_some [OF t(2)] obtain u where "alloc t = Ret v u" "pages u xs" by blast
  with t(1) show ?thesis by (simp add: bindK_def)
qed

end

interpretation kmem_pages: page_allocator kalloc kfree kmem_inv page_ok
proof unfold_locales
  fix s :: "'a kmem_scheme" and x v xs
  show "kmem_inv s [] \<Longrightarrow> kalloc s = Ret 0 s" by (rule kalloc_empty)
  show "\<exists>s'. kalloc s = Ret x s' \<and> kmem_inv s' xs \<and> page_ok s' = page_ok s" if "kmem_inv s (x # xs)"
    using kalloc_page [OF that] by simp
  show "\<exists>s'. kfree v s = Ret () s' \<and> kmem_inv s' (v # xs) \<and> page_ok s' = page_ok s"
    if "kmem_inv s xs" "page_ok s v" "v \<notin> set xs"
    using that kmem_inv_freed [OF that] by (simp add: kfree_run kmem_inv_def)
  show "\<not> page_ok s v \<Longrightarrow> kfree v s = Panic ''kfree''" by (rule kfree_bad)
  show "kmem_inv s xs \<Longrightarrow> distinct xs" by (simp add: kmem_inv_def)
  show "kmem_inv s xs \<Longrightarrow> x \<in> set xs \<Longrightarrow> page_ok s x" by (simp add: kmem_inv_def)
  show "page_ok s x \<Longrightarrow> x \<noteq> 0" by (rule page_ok_nonzero)
qed

section \<open>Properties\<close>

definition kmem_example :: kmem where
  "kmem_example = \<lparr>held = {}, mem = store32 (\<lambda>x. 0) 0x80201000 0x80200000,
     freelist = 0x80201000, use_lock = True, kend = 0x80115000, kdata = 0x8010A000\<rparr>"

lemma kmem_example_inv: "kmem_inv kmem_example [0x80201000, 0x80200000]"
  by (simp add: kmem_inv_def kmem_example_def page_ok_def V2P_def)

text \<open>
  C3: \<open>kalloc\<close> pops the free list. It returns the null pointer exactly when the list is empty; otherwise
  it returns a page-aligned page of the managed range that is no longer on the list, so that no
  page is handed out twice before it is freed.
\<close>

theorem kalloc_pops:
  assumes "kmem_inv s xs" "kalloc s = Ret r s'"
  shows "(r = 0 \<longleftrightarrow> xs = []) \<and> kmem_inv s' (tl xs) \<and>
    (r \<noteq> 0 \<longrightarrow> r = hd xs \<and> page_ok s r \<and> r mod PGSIZE = 0 \<and> r \<notin> set (tl xs))"
  using kmem_pages.alloc_cases [OF assms] assms(1) page_ok_aligned by auto

theorem kalloc_pops_witness:
  "kalloc kmem_example = Ret 0x80201000 (kmem_example\<lparr>freelist := 0x80200000\<rparr>) \<and>
   kmem_inv (kmem_example\<lparr>freelist := 0x80200000\<rparr>) [0x80200000]"
proof -
  have r: "kalloc kmem_example = Ret 0x80201000 (kmem_example\<lparr>freelist := 0x80200000\<rparr>)"
    by (simp add: kalloc_def kmem_example_def bindK_def getK_def acquire_def release_def modK_def retK_def whenK_def)
  from kalloc_pops [OF kmem_example_inv r] r show ?thesis by simp
qed

text \<open>
  C5: \<open>freerange\<close> puts every whole page between its bounds on the free list, and nothing else, and
  returns.
\<close>

theorem freerange_frees_all:
  assumes "kmem_inv s xs" "kend s \<le> vstart" "vstart \<le> vend" "vend \<le> KERNBASE + PHYSTOP"
    and "n = (unat vend - unat (PGROUNDUP vstart)) div 4096"
    and "set (pages_from (PGROUNDUP vstart) n) \<inter> set xs = {}"
  shows "\<exists>s'. freerange vstart vend s = Ret () s' \<and>
    kmem_inv s' (rev (pages_from (PGROUNDUP vstart) n) @ xs)"
proof -
  have v: "unat (kend s) \<le> unat vstart" "unat vend \<le> unat (KERNBASE + PHYSTOP)" "unat vstart \<le> unat vend"
    using assms(2,3,4) by (simp_all add: word_le_nat_alt)
  then have up: "unat (PGROUNDUP vstart) = (unat vstart + 4095) div 4096 * 4096"
    by (intro unat_PGROUNDUP) simp
  then have "unat vstart \<le> unat (PGROUNDUP vstart)" "unat (PGROUNDUP vstart) \<le> unat vstart + 4095"
    using div_mult_mod_eq [of "unat vstart + 4095" 4096] mod_less_divisor [of 4096 "unat vstart + 4095"]
    by linarith+
  with v have "unat (kend s) \<le> unat (PGROUNDUP vstart)"
    "unat (PGROUNDUP vstart) \<le> unat (KERNBASE + PHYSTOP) + 4096"
    by simp_all
  from freerange_loop_run [OF assms(1) PGROUNDUP_aligned this(1) v(2) this(2) assms(5,6)]
  show ?thesis by (auto simp: freerange_def)
qed

theorem freerange_frees_all_witness:
  "\<exists>s'. freerange 0x80300000 0x80302000 kmem_example = Ret () s' \<and>
     kmem_inv s' [0x80301000, 0x80300000, 0x80201000, 0x80200000]"
proof -
  have up: "PGROUNDUP 0x80300000 = 0x80300000" by (simp add: PGROUNDUP_def)
  have two: "pages_from 0x80300000 2 = [0x80300000, 0x80301000]" by (simp add: numeral_2_eq_2)
  have "\<exists>s'. freerange 0x80300000 0x80302000 kmem_example = Ret () s' \<and>
      kmem_inv s' (rev (pages_from (PGROUNDUP 0x80300000) 2) @ [0x80201000, 0x80200000])"
    by (rule freerange_frees_all [OF kmem_example_inv])
       (simp_all add: up two, simp add: kmem_example_def)
  then show ?thesis by (simp add: up two)
qed

end
