(* ===== verification/Vm.thy ===== *)
theory Vm
  imports Kalloc
begin

text \<open>
  Virtual memory, \<^verbatim>\<open>vm.c\<close>: the two-level page tables of the x86, stored in pages of kernel
  memory. A page directory is the address of its page; \<open>lookup m pgdir va\<close> is the page table
  entry the hardware finds for a virtual address, and is what the lemmas state the effect of
  every operation on. \<open>owned\<close> are the pages an address space consists of: its directory, its
  page tables and the frames of its user part. \<open>as_wf\<close> says that none of these pages is shared
  or free, and \<open>vm_step\<close> that an operation on one address space neither loses nor invents a
  page and writes only to pages of its own and to free ones.
\<close>

section \<open>Definitions\<close>

abbreviation (input) PTE_P :: u32 where "PTE_P \<equiv> 1"
abbreviation (input) PTE_W :: u32 where "PTE_W \<equiv> 2"
abbreviation (input) PTE_U :: u32 where "PTE_U \<equiv> 4"
abbreviation (input) KERNLINK :: u32 where "KERNLINK \<equiv> 0x80100000"

definition PDX :: "u32 \<Rightarrow> u32" where
  "PDX va = drop_bit 22 va AND 0x3FF"

definition PTX :: "u32 \<Rightarrow> u32" where
  "PTX va = drop_bit 12 va AND 0x3FF"

definition PGADDR :: "u32 \<Rightarrow> u32 \<Rightarrow> u32 \<Rightarrow> u32" where
  "PGADDR d t off = push_bit 22 d OR push_bit 12 t OR off"

definition PTE_ADDR :: "u32 \<Rightarrow> u32" where
  "PTE_ADDR pte = pte AND NOT 0xFFF"

definition PTE_FLAGS :: "u32 \<Rightarrow> u32" where
  "PTE_FLAGS pte = pte AND 0xFFF"

text \<open>
  \<open>kpgdir\<close>, the page table register \<open>cr3\<close> and the fields of the task state segment that
  \<^verbatim>\<open>switchuvm\<close> sets, for the processor that runs.
\<close>

record kvm = kmem +
  kpgdir :: u32
  cr3 :: u32
  ts_ss0 :: u16
  ts_esp0 :: u32
  ts_iomb :: u16
  tr :: u16

definition walkpgdir :: "u32 \<Rightarrow> u32 \<Rightarrow> bool \<Rightarrow> ('z kmem_scheme, u32) kop" where
  "walkpgdir pgdir va alloc =
     bindK (getK (\<lambda>s. load32 (mem s) (pgdir + 4 * PDX va))) (\<lambda>pde.
     if pde AND PTE_P \<noteq> 0 then retK (P2V (PTE_ADDR pde) + 4 * PTX va)
     else if \<not> alloc then retK 0
     else bindK kalloc (\<lambda>pgtab.
       if pgtab = 0 then retK 0
       else bindK (modK (\<lambda>s. s\<lparr>mem := memset (mem s) pgtab 0 PGSIZE\<rparr>)) (\<lambda>_.
         bindK (modK (\<lambda>s. s\<lparr>mem := store32 (mem s) (pgdir + 4 * PDX va)
                                (V2P pgtab OR PTE_P OR PTE_W OR PTE_U)\<rparr>)) (\<lambda>_.
         retK (pgtab + 4 * PTX va)))))"

text \<open>
  The loop of \<open>mappages\<close>. Its body is \<open>map_page\<close>. As \<open>a\<close> and \<open>last\<close> are both multiples of the
  page size, \<open>a == last\<close> holds for the first time after \<open>(last - a) / PGSIZE\<close> further rounds:
  that is the number the loop counts down.
\<close>

definition map_page :: "u32 \<Rightarrow> u32 \<Rightarrow> u32 \<Rightarrow> u32 \<Rightarrow> ('z kmem_scheme, int) kop" where
  "map_page pgdir a pa perm =
     bindK (walkpgdir pgdir a True) (\<lambda>pte.
     if pte = 0 then retK (-1)
     else bindK (getK (\<lambda>s. load32 (mem s) pte)) (\<lambda>v.
       if v AND PTE_P \<noteq> 0 then panicK ''remap''
       else bindK (modK (\<lambda>s. s\<lparr>mem := store32 (mem s) pte (pa OR perm OR PTE_P)\<rparr>)) (\<lambda>_.
         retK 0)))"

fun mappages_loop :: "nat \<Rightarrow> u32 \<Rightarrow> u32 \<Rightarrow> u32 \<Rightarrow> u32 \<Rightarrow> ('z kmem_scheme, int) kop" where
  "mappages_loop 0 pgdir a pa perm = map_page pgdir a pa perm"
| "mappages_loop (Suc n) pgdir a pa perm =
     bindK (map_page pgdir a pa perm) (\<lambda>r.
     if r < 0 then retK r else mappages_loop n pgdir (a + PGSIZE) (pa + PGSIZE) perm)"

definition mappages :: "u32 \<Rightarrow> u32 \<Rightarrow> u32 \<Rightarrow> u32 \<Rightarrow> u32 \<Rightarrow> ('z kmem_scheme, int) kop" where
  "mappages pgdir va sz pa perm =
     (let a = PGROUNDDOWN va;
          last = PGROUNDDOWN (va + sz - 1)
      in mappages_loop (unat ((last - a) div PGSIZE)) pgdir a pa perm)"

text \<open>
  One round of the loop of \<open>deallocuvm\<close>; the result is the value of \<open>a\<close> at its end. The loop
  itself ends unless \<open>a\<close> wraps around below \<open>oldsz\<close>, after which it repeats itself forever.
\<close>

definition dealloc_page :: "u32 \<Rightarrow> u32 \<Rightarrow> ('z kmem_scheme, u32) kop" where
  "dealloc_page pgdir a =
     bindK (walkpgdir pgdir a False) (\<lambda>pte.
     if pte = 0 then retK (PGADDR (PDX a + 1) 0 0 - PGSIZE)
     else bindK (getK (\<lambda>s. load32 (mem s) pte)) (\<lambda>v.
       if v AND PTE_P \<noteq> 0 then
         let pa = PTE_ADDR v
         in if pa = 0 then panicK ''kfree''
            else bindK (kfree (P2V pa)) (\<lambda>_.
              bindK (modK (\<lambda>s. s\<lparr>mem := store32 (mem s) pte 0\<rparr>)) (\<lambda>_.
              retK a))
       else retK a))"

function deallocuvm_loop :: "u32 \<Rightarrow> u32 \<Rightarrow> u32 \<Rightarrow> 'z kmem_scheme \<Rightarrow> ('z kmem_scheme, unit) outcome" where
  "deallocuvm_loop pgdir oldsz a s =
     (if \<not> a < oldsz then Ret () s
      else case dealloc_page pgdir a s of
          Ret a1 s1 \<Rightarrow> if a1 + PGSIZE \<le> a then Diverge else deallocuvm_loop pgdir oldsz (a1 + PGSIZE) s1
        | Panic e \<Rightarrow> Panic e
        | Swtch s1 \<Rightarrow> Swtch s1
        | Diverge \<Rightarrow> Diverge)"
  by pat_completeness auto
termination
  by (relation "measure (\<lambda>(pgdir, oldsz, a, s). 2 ^ 32 - unat a)")
     (auto simp: not_le word_less_nat_alt intro!: diff_less_mono2 unat_u32_bound [simplified])

declare deallocuvm_loop.simps [simp del]

definition deallocuvm :: "u32 \<Rightarrow> u32 \<Rightarrow> u32 \<Rightarrow> ('z kmem_scheme, u32) kop" where
  "deallocuvm pgdir oldsz newsz =
     (if newsz \<ge> oldsz then retK oldsz
      else bindK (deallocuvm_loop pgdir oldsz (PGROUNDUP newsz)) (\<lambda>_. retK newsz))"

text \<open>
  The values of \<open>a\<close> in a loop \<^verbatim>\<open>for(; a < b; a += PGSIZE)\<close> that does not wrap around.
\<close>

definition page_range :: "u32 \<Rightarrow> u32 \<Rightarrow> u32 list" where
  "page_range a b = pages_from a ((unat b - unat a + 4095) div 4096)"

fun allocuvm_loop :: "u32 list \<Rightarrow> u32 \<Rightarrow> u32 \<Rightarrow> u32 \<Rightarrow> ('z kmem_scheme, u32) kop" where
  "allocuvm_loop [] pgdir oldsz newsz = retK newsz"
| "allocuvm_loop (a # as) pgdir oldsz newsz =
     bindK kalloc (\<lambda>m.
     if m = 0 then bindK (deallocuvm pgdir newsz oldsz) (\<lambda>_. retK 0)
     else bindK (modK (\<lambda>s. s\<lparr>mem := memset (mem s) m 0 PGSIZE\<rparr>)) (\<lambda>_.
       bindK (mappages pgdir a PGSIZE (V2P m) (PTE_W OR PTE_U)) (\<lambda>r.
       if r < 0 then bindK (deallocuvm pgdir newsz oldsz) (\<lambda>_. bindK (kfree m) (\<lambda>_. retK 0))
       else allocuvm_loop as pgdir oldsz newsz)))"

definition allocuvm :: "u32 \<Rightarrow> u32 \<Rightarrow> u32 \<Rightarrow> ('z kmem_scheme, u32) kop" where
  "allocuvm pgdir oldsz newsz =
     (if newsz \<ge> KERNBASE then retK 0
      else if newsz < oldsz then retK oldsz
      else allocuvm_loop (page_range (PGROUNDUP oldsz) newsz) pgdir oldsz newsz)"

definition free_tab :: "u32 \<Rightarrow> nat \<Rightarrow> ('z kmem_scheme, unit) kop" where
  "free_tab pgdir i =
     bindK (getK (\<lambda>s. load32 (mem s) (pgdir + 4 * of_nat i))) (\<lambda>pde.
     whenK (pde AND PTE_P \<noteq> 0) (kfree (P2V (PTE_ADDR pde))))"

definition freevm :: "u32 \<Rightarrow> ('z kmem_scheme, unit) kop" where
  "freevm pgdir =
     (if pgdir = 0 then panicK ''freevm: no pgdir''
      else bindK (deallocuvm pgdir KERNBASE 0) (\<lambda>_.
        bindK (forK [0..<1024] (free_tab pgdir)) (\<lambda>_.
        kfree pgdir)))"

text \<open>The table \<^verbatim>\<open>kmap\<close>: virtual address, physical start and end, permissions.\<close>

definition kmap :: "'z kmem_scheme \<Rightarrow> (u32 \<times> u32 \<times> u32 \<times> u32) list" where
  "kmap s =
     [(KERNBASE, 0, EXTMEM, PTE_W),
      (KERNLINK, V2P KERNLINK, V2P (kdata s), 0),
      (kdata s, V2P (kdata s), PHYSTOP, PTE_W),
      (DEVSPACE, DEVSPACE, 0, PTE_W)]"

fun setupkvm_loop :: "(u32 \<times> u32 \<times> u32 \<times> u32) list \<Rightarrow> u32 \<Rightarrow> ('z kmem_scheme, u32) kop" where
  "setupkvm_loop [] pgdir = retK pgdir"
| "setupkvm_loop ((virt, phys_start, phys_end, perm) # ks) pgdir =
     bindK (mappages pgdir virt (phys_end - phys_start) phys_start perm) (\<lambda>r.
     if r < 0 then bindK (freevm pgdir) (\<lambda>_. retK 0) else setupkvm_loop ks pgdir)"

definition setupkvm :: "('z kmem_scheme, u32) kop" where
  "setupkvm =
     bindK kalloc (\<lambda>pgdir.
     if pgdir = 0 then retK 0
     else bindK (modK (\<lambda>s. s\<lparr>mem := memset (mem s) pgdir 0 PGSIZE\<rparr>)) (\<lambda>_.
       if P2V PHYSTOP > DEVSPACE then panicK ''PHYSTOP too high''
       else bindK (getK kmap) (\<lambda>ks. setupkvm_loop ks pgdir)))"

definition switchkvm :: "('z kvm_scheme, unit) kop" where
  "switchkvm = modK (\<lambda>s. s\<lparr>cr3 := V2P (kpgdir s)\<rparr>)"

definition kvmalloc :: "('z kvm_scheme, unit) kop" where
  "kvmalloc =
     bindK setupkvm (\<lambda>pd.
     bindK (modK (\<lambda>s. s\<lparr>kpgdir := pd\<rparr>)) (\<lambda>_.
     switchkvm))"

text \<open>\<^verbatim>\<open>switchuvm(p)\<close>, for \<^verbatim>\<open>p\<close> null or a process with the given \<^verbatim>\<open>kstack\<close> and \<^verbatim>\<open>pgdir\<close>.\<close>

definition switchuvm :: "(u32 \<times> u32) option \<Rightarrow> ('z kvm_scheme, unit) kop" where
  "switchuvm p =
     (case p of
        None \<Rightarrow> panicK ''switchuvm: no process''
      | Some (kstack, pgdir) \<Rightarrow>
          if kstack = 0 then panicK ''switchuvm: no kstack''
          else if pgdir = 0 then panicK ''switchuvm: no pgdir''
          else modK (\<lambda>s. s\<lparr>ts_ss0 := 2 * 8, ts_esp0 := kstack + 4096, ts_iomb := 0xFFFF,
                           tr := 5 * 8, cr3 := V2P pgdir\<rparr>))"

text \<open>
  The translation of an address by the hardware, for code that runs in the kernel: an address
  from \<open>KERNBASE\<close> on is a kernel address; below it, the page tables at \<open>cr3\<close> decide. Writing
  needs \<open>PTE_W\<close>. An access that has no translation is a page fault in the kernel, for which
  \<^verbatim>\<open>trap()\<close> panics.
\<close>

definition mmu :: "'z kvm_scheme \<Rightarrow> bool \<Rightarrow> u32 \<Rightarrow> u32 option" where
  "mmu s wr va =
     (if KERNBASE \<le> va then Some va
      else
        let pde = load32 (mem s) (P2V (cr3 s) + 4 * PDX va);
            pte = load32 (mem s) (P2V (PTE_ADDR pde) + 4 * PTX va)
        in if pde AND PTE_P = 0 \<or> pte AND PTE_P = 0 \<or> (wr \<and> (pde AND PTE_W = 0 \<or> pte AND PTE_W = 0)) then None
           else Some (P2V (PTE_ADDR pte) + take_bit 12 va))"

definition vload8 :: "u32 \<Rightarrow> ('z kvm_scheme, byte) kop" where
  "vload8 va s = (case mmu s False va of None \<Rightarrow> Panic ''trap'' | Some a \<Rightarrow> Ret (mem s a) s)"

definition vstore8 :: "u32 \<Rightarrow> byte \<Rightarrow> ('z kvm_scheme, unit) kop" where
  "vstore8 va c s =
     (case mmu s True va of None \<Rightarrow> Panic ''trap'' | Some a \<Rightarrow> Ret () (s\<lparr>mem := (mem s)(a := c)\<rparr>))"

definition vload32 :: "u32 \<Rightarrow> ('z kvm_scheme, u32) kop" where
  "vload32 va =
     bindK (vload8 va) (\<lambda>b0.
     bindK (vload8 (va + 1)) (\<lambda>b1.
     bindK (vload8 (va + 2)) (\<lambda>b2.
     bindK (vload8 (va + 3)) (\<lambda>b3.
     retK (ucast b0 OR push_bit 8 (ucast b1) OR push_bit 16 (ucast b2) OR push_bit 24 (ucast b3))))))"

text \<open>
  \<^verbatim>\<open>memmove\<close> between addresses that the hardware translates. By \<open>memmove_eq\<close> its effect is that
  of reading all of the source and then writing it to the destination.
\<close>

definition vread :: "u32 \<Rightarrow> nat \<Rightarrow> ('z kvm_scheme, byte list) kop" where
  "vread va n s =
     (case those (map (\<lambda>i. map_option (mem s) (mmu s False (va + of_nat i))) [0..<n]) of
        None \<Rightarrow> Panic ''trap'' | Some bs \<Rightarrow> Ret bs s)"

fun vwrite :: "u32 \<Rightarrow> byte list \<Rightarrow> ('z kvm_scheme, unit) kop" where
  "vwrite va [] = retK ()"
| "vwrite va (c # cs) = bindK (vstore8 va c) (\<lambda>_. vwrite (va + 1) cs)"

definition vmemmove :: "u32 \<Rightarrow> u32 \<Rightarrow> u32 \<Rightarrow> ('z kvm_scheme, unit) kop" where
  "vmemmove dst src n = bindK (vread src (unat n)) (\<lambda>bs. vwrite dst bs)"

text \<open>
  \<open>init\<close> is a kernel address. There is no check of the result of \<open>kalloc\<close>: a null pointer is
  written through, a page fault with the kernel's page table.
\<close>

definition inituvm :: "u32 \<Rightarrow> u32 \<Rightarrow> u32 \<Rightarrow> ('z kmem_scheme, unit) kop" where
  "inituvm pgdir init sz =
     (if sz \<ge> PGSIZE then panicK ''inituvm: more than a page''
      else bindK kalloc (\<lambda>m.
        if m = 0 then panicK ''trap''
        else bindK (modK (\<lambda>s. s\<lparr>mem := memset (mem s) m 0 PGSIZE\<rparr>)) (\<lambda>_.
          bindK (mappages pgdir 0 PGSIZE (V2P m) (PTE_W OR PTE_U)) (\<lambda>_.
          modK (\<lambda>s. s\<lparr>mem := memmove (mem s) m init sz\<rparr>)))))"

definition clearpteu :: "u32 \<Rightarrow> u32 \<Rightarrow> ('z kmem_scheme, unit) kop" where
  "clearpteu pgdir uva =
     bindK (walkpgdir pgdir uva False) (\<lambda>pte.
     if pte = 0 then panicK ''clearpteu''
     else modK (\<lambda>s. s\<lparr>mem := store32 (mem s) pte (load32 (mem s) pte AND NOT PTE_U)\<rparr>))"

fun copyuvm_loop :: "u32 list \<Rightarrow> u32 \<Rightarrow> u32 \<Rightarrow> ('z kmem_scheme, u32) kop" where
  "copyuvm_loop [] pgdir d = retK d"
| "copyuvm_loop (i # is) pgdir d =
     bindK (walkpgdir pgdir i False) (\<lambda>pte.
     if pte = 0 then panicK ''copyuvm: pte should exist''
     else bindK (getK (\<lambda>s. load32 (mem s) pte)) (\<lambda>v.
       if v AND PTE_P = 0 then panicK ''copyuvm: page not present''
       else let pa = PTE_ADDR v; flags = PTE_FLAGS v
         in bindK kalloc (\<lambda>m.
           if m = 0 then bindK (freevm d) (\<lambda>_. retK 0)
           else bindK (modK (\<lambda>s. s\<lparr>mem := memmove (mem s) m (P2V pa) PGSIZE\<rparr>)) (\<lambda>_.
             bindK (mappages d i PGSIZE (V2P m) flags) (\<lambda>r.
             if r < 0 then bindK (kfree m) (\<lambda>_. bindK (freevm d) (\<lambda>_. retK 0))
             else copyuvm_loop is pgdir d)))))"

definition copyuvm :: "u32 \<Rightarrow> u32 \<Rightarrow> ('z kmem_scheme, u32) kop" where
  "copyuvm pgdir sz =
     bindK setupkvm (\<lambda>d.
     if d = 0 then retK 0 else copyuvm_loop (page_range 0 sz) pgdir d)"

text \<open>
  \<open>uva2ka\<close> does not test the result of \<open>walkpgdir\<close>: when there is no page table for the address it
  reads the word at address 0 of the current address space.
\<close>

definition uva2ka :: "u32 \<Rightarrow> u32 \<Rightarrow> ('z kvm_scheme, u32) kop" where
  "uva2ka pgdir uva =
     bindK (walkpgdir pgdir uva False) (\<lambda>pte.
     bindK (if pte = 0 then vload32 0 else getK (\<lambda>s. load32 (mem s) pte)) (\<lambda>v.
     if v AND PTE_P = 0 then retK 0
     else if v AND PTE_U = 0 then retK 0
     else retK (P2V (PTE_ADDR v))))"

function copyout :: "u32 \<Rightarrow> u32 \<Rightarrow> u32 \<Rightarrow> u32 \<Rightarrow> 'z kvm_scheme \<Rightarrow> ('z kvm_scheme, int) outcome" where
  "copyout pgdir va buf len s =
     (if \<not> len > 0 then Ret 0 s
      else let va0 = PGROUNDDOWN va
        in case uva2ka pgdir va0 s of
            Ret pa0 s1 \<Rightarrow>
              if pa0 = 0 then Ret (-1) s1
              else let n = (if PGSIZE - (va - va0) > len then len else PGSIZE - (va - va0))
                in (case vmemmove (pa0 + (va - va0)) buf n s1 of
                      Ret _ s2 \<Rightarrow> copyout pgdir (va0 + PGSIZE) (buf + n) (len - n) s2
                    | Panic e \<Rightarrow> Panic e
                    | Swtch s2 \<Rightarrow> Swtch s2
                    | Diverge \<Rightarrow> Diverge)
          | Panic e \<Rightarrow> Panic e
          | Swtch s1 \<Rightarrow> Swtch s1
          | Diverge \<Rightarrow> Diverge)"
  by pat_completeness auto
termination
proof (relation "measure (\<lambda>(pgdir, va, buf, len, s). unat len)", goal_cases)
  case (2 pgdir va buf len s va0 pa0 s1 n)
  have "va - va0 = take_bit 12 va"
    using PGROUNDDOWN_split [of va] 2(2) by (simp add: diff_eq_eq add.commute)
  then have "va - va0 < PGSIZE" by (simp add: take_bit_12_less)
  then have "0 < PGSIZE - (va - va0)" by (simp add: word_greater_zero_iff)
  with 2 have "0 < n" "n \<le> len" by auto
  then have "unat (len - n) < unat len"
    by (simp add: unat_sub) (simp add: word_le_nat_alt word_less_nat_alt)
  then show ?case by simp
qed simp

declare copyout.simps [simp del]

end
