(* ===== verification/Pagetable.thy ===== *)
theory Pagetable
  imports Vm
begin

text \<open>
  What the operations of \<open>Vm\<close> do to an address space, stated over \<open>lookup\<close>, and the
  invariant \<open>as_wf\<close> that makes it true: the pages of an address space are pairwise different and
  none of them is free.
\<close>

section \<open>The page tables as a map\<close>

definition pde_at :: "bmem \<Rightarrow> u32 \<Rightarrow> u32 \<Rightarrow> u32" where
  "pde_at m pd va = load32 m (pd + 4 * PDX va)"

definition present :: "bmem \<Rightarrow> u32 \<Rightarrow> u32 \<Rightarrow> bool" where
  "present m pd va \<longleftrightarrow> pde_at m pd va AND PTE_P \<noteq> 0"

definition pgtab_of :: "bmem \<Rightarrow> u32 \<Rightarrow> u32 \<Rightarrow> u32" where
  "pgtab_of m pd va = P2V (PTE_ADDR (pde_at m pd va))"

definition pte_at :: "bmem \<Rightarrow> u32 \<Rightarrow> u32 \<Rightarrow> u32" where
  "pte_at m pd va = load32 m (pgtab_of m pd va + 4 * PTX va)"

definition lookup :: "bmem \<Rightarrow> u32 \<Rightarrow> u32 \<Rightarrow> u32 option" where
  "lookup m pd va =
     (if present m pd va \<and> pte_at m pd va AND PTE_P \<noteq> 0 then Some (pte_at m pd va) else None)"

definition frame :: "u32 \<Rightarrow> u32" where
  "frame pte = P2V (PTE_ADDR pte)"

definition tables :: "bmem \<Rightarrow> u32 \<Rightarrow> u32 set" where
  "tables m pd = {pgtab_of m pd va | va. present m pd va}"

definition frames :: "bmem \<Rightarrow> u32 \<Rightarrow> u32 set" where
  "frames m pd = {frame pte | va pte. va < KERNBASE \<and> lookup m pd va = Some pte}"

definition owned :: "bmem \<Rightarrow> u32 \<Rightarrow> u32 set" where
  "owned m pd = insert pd (tables m pd \<union> frames m pd)"

definition as_wf :: "'z kmem_scheme \<Rightarrow> u32 list \<Rightarrow> u32 \<Rightarrow> bool" where
  "as_wf s xs pd \<longleftrightarrow>
     (\<forall>p \<in> owned (mem s) pd. page_ok s p) \<and> set xs \<inter> owned (mem s) pd = {} \<and>
     pd \<notin> tables (mem s) pd \<and> pd \<notin> frames (mem s) pd \<and> tables (mem s) pd \<inter> frames (mem s) pd = {} \<and>
     (\<forall>va va'. present (mem s) pd va \<longrightarrow> present (mem s) pd va' \<longrightarrow>
        pgtab_of (mem s) pd va = pgtab_of (mem s) pd va' \<longrightarrow> PDX va = PDX va') \<and>
     (\<forall>va va' pte pte'. va < KERNBASE \<longrightarrow> va' < KERNBASE \<longrightarrow>
        lookup (mem s) pd va = Some pte \<longrightarrow> lookup (mem s) pd va' = Some pte' \<longrightarrow>
        frame pte = frame pte' \<longrightarrow> PGROUNDDOWN va = PGROUNDDOWN va')"

section \<open>Indices and entries\<close>

lemma mask_10: "(0x3FF :: u32) = mask 10"
  by (simp add: mask_eq_exp_minus_1)

lemma PDX_bits: "PDX va = take_bit 10 (drop_bit 22 va)"
  by (simp add: PDX_def mask_10 take_bit_eq_mask)

lemma PTX_bits: "PTX va = take_bit 10 (drop_bit 12 va)"
  by (simp add: PTX_def mask_10 take_bit_eq_mask)

lemma take_bit_10_less: "take_bit 10 (a :: u32) < 1024"
proof -
  have "unat (take_bit 10 a) < 2 ^ 10"
    using take_bit_nat_less_exp [of 10 "unat a"] by (simp add: unsigned_take_bit_eq)
  then show ?thesis by (simp add: word_less_nat_alt)
qed

lemma PDX_less: "PDX va < 1024" and PTX_less: "PTX va < 1024"
  by (simp_all add: PDX_bits PTX_bits take_bit_10_less)

lemma index_offset:
  assumes "i < (1024 :: u32)"
  shows "4 * i < PGSIZE" "(4 * i) mod 4 = 0" "unat (4 * i) = 4 * unat i"
proof -
  show u: "unat (4 * i) = 4 * unat i"
    using assms by (simp add: unat_word_ariths word_less_nat_alt)
  then show "4 * i < PGSIZE" using assms by (simp add: word_less_nat_alt)
  from u have "unat ((4 * i) mod 4) = 0" by (simp add: unat_mod)
  then show "(4 * i) mod 4 = 0" by (simp only: unat_eq_0)
qed

lemma aligned4_unat: "(a :: u32) mod 4 = 0 \<longleftrightarrow> 4 dvd unat a"
proof -
  have "a mod 4 = 0 \<longleftrightarrow> unat (a mod 4) = 0" by (simp add: unat_eq_0)
  then show ?thesis by (simp add: unat_mod dvd_eq_mod_eq_0)
qed

lemma aligned4_add: "a mod 4 = 0 \<Longrightarrow> b mod 4 = 0 \<Longrightarrow> (a + b) mod 4 = (0 :: u32)"
proof -
  assume "a mod 4 = 0" "b mod 4 = 0"
  then have "4 dvd unat a + unat b" by (simp add: aligned4_unat)
  then have "4 dvd (unat a + unat b) mod 4294967296" by (subst dvd_mod_iff) simp_all
  then show ?thesis by (simp add: aligned4_unat unat_word_ariths)
qed

text \<open>The address of an entry of a table: in the page of the table, aligned, one for each index.\<close>

lemma entry_addr:
  assumes "p mod PGSIZE = 0" "i < 1024"
  shows "PGROUNDDOWN (p + 4 * i) = p" "(p + 4 * i) mod 4 = 0"
  using PGROUNDDOWN_add(1) [OF assms(1)] index_offset [OF assms(2)] assms
  by (simp_all add: aligned4_add page_aligned4)

lemma entry_inj:
  assumes "i < 1024" "j < (1024 :: u32)"
  shows "4 * i = 4 * j \<longleftrightarrow> i = j"
proof
  assume "4 * i = 4 * j"
  then have "unat (4 * i) = unat (4 * j)" by simp
  then show "i = j" using assms by (simp only: index_offset(3)) (simp add: word_unat_eq_iff)
qed simp

lemma same_page_iff: "PGROUNDDOWN va = PGROUNDDOWN va' \<longleftrightarrow> PDX va = PDX va' \<and> PTX va = PTX va'"
proof
  assume eq: "PDX va = PDX va' \<and> PTX va = PTX va'"
  show "PGROUNDDOWN va = PGROUNDDOWN va'"
  proof (rule bit_word_eqI)
    fix n assume n: "n < LENGTH(32)"
    have "bit va n = bit va' n" if "12 \<le> n"
    proof (cases "22 \<le> n")
      case True
      from eq have "bit (PDX va) (n - 22) = bit (PDX va') (n - 22)" by simp
      moreover have "n - 22 < 10" using n by simp
      ultimately show ?thesis using True by (simp add: PDX_bits bit_simps)
    next
      case False
      from eq have "bit (PTX va) (n - 12) = bit (PTX va') (n - 12)" by simp
      moreover have "n - 12 < 10" using False by simp
      ultimately show ?thesis using that by (simp add: PTX_bits bit_simps)
    qed
    then show "bit (PGROUNDDOWN va) n = bit (PGROUNDDOWN va') n"
      by (auto simp: PGROUNDDOWN_bits bit_simps)
  qed
next
  assume eq: "PGROUNDDOWN va = PGROUNDDOWN va'"
  have b: "bit va n = bit va' n" if "12 \<le> n" "n < 32" for n
  proof -
    from eq have "bit (PGROUNDDOWN va) n = bit (PGROUNDDOWN va') n" by simp
    with that show ?thesis by (simp add: PGROUNDDOWN_bits bit_simps)
  qed
  then show "PDX va = PDX va' \<and> PTX va = PTX va'"
    by (auto intro!: bit_word_eqI simp: PDX_bits PTX_bits bit_simps)
qed

lemma P2V_V2P [simp]: "P2V (V2P a) = a" "V2P (P2V a) = a"
  by (simp_all add: P2V_def V2P_def)

lemma PTE_ADDR_bits: "PTE_ADDR pte = PGROUNDDOWN pte"
  by (simp add: PTE_ADDR_def PGROUNDDOWN_def)

lemma aligned_V2P: "x mod PGSIZE = 0 \<Longrightarrow> V2P x mod PGSIZE = 0"
proof -
  assume "x mod PGSIZE = 0"
  then have "(x + KERNBASE) mod PGSIZE = 0" by (rule aligned_add) simp
  moreover have "x + KERNBASE = V2P x" by (simp add: V2P_def)
  ultimately show ?thesis by simp
qed

lemma aligned_P2V: "x mod PGSIZE = 0 \<Longrightarrow> P2V x mod PGSIZE = 0"
  unfolding P2V_def by (rule aligned_add) simp_all

lemma aligned_frame: "frame pte mod PGSIZE = 0"
  by (simp add: frame_def PTE_ADDR_bits aligned_P2V)

lemma flags_bits:
  assumes "pa mod PGSIZE = 0" "fl < PGSIZE"
  shows "PTE_ADDR (pa OR fl) = pa" "PTE_FLAGS (pa OR fl) = fl"
proof -
  have v: "\<not> bit pa n" if "n < 12" for n
    using assms(1) that unfolding mod_PGSIZE by (metis bit_0_eq bit_take_bit_iff bot_apply bot_bool_def)
  have i: "\<not> bit fl n" if "\<not> n < 12" for n
    using take_bit_12_small [OF assms(2)] that by (metis bit_take_bit_iff)
  show "PTE_ADDR (pa OR fl) = pa"
    unfolding PTE_ADDR_bits PGROUNDDOWN_bits
    by (rule bit_word_eqI) (use v i in \<open>auto simp: bit_simps\<close>)
  show "PTE_FLAGS (pa OR fl) = fl"
    unfolding PTE_FLAGS_def mask_12
    by (rule bit_word_eqI) (use v i in \<open>auto simp: bit_simps\<close>)
qed

section \<open>Changes of memory\<close>

lemma pgtab_aligned: "pgtab_of m pd va mod PGSIZE = 0"
  by (simp add: pgtab_of_def PTE_ADDR_bits aligned_P2V)

lemma PDX_cong: "PDX va = PDX va' \<Longrightarrow> pde_at m pd va = pde_at m pd va'"
  "PDX va = PDX va' \<Longrightarrow> present m pd va = present m pd va'"
  "PDX va = PDX va' \<Longrightarrow> pgtab_of m pd va = pgtab_of m pd va'"
  by (simp_all add: pde_at_def present_def pgtab_of_def)

lemma same_page_cong:
  assumes "PGROUNDDOWN va = PGROUNDDOWN va'"
  shows "lookup m pd va = lookup m pd va'"
  using assms unfolding same_page_iff
  by (simp add: lookup_def pte_at_def PDX_cong [of va va'])

text \<open>A change of memory outside of the directory and the tables does not change the map.\<close>

definition pt_same :: "u32 \<Rightarrow> bmem \<Rightarrow> bmem \<Rightarrow> bool" where
  "pt_same pd m m' \<longleftrightarrow> pd mod PGSIZE = 0 \<and>
     (\<forall>x. PGROUNDDOWN x \<in> insert pd (tables m pd) \<longrightarrow> m' x = m x)"

lemma pde_at_same: "pt_same pd m m' \<Longrightarrow> pde_at m' pd va = pde_at m pd va"
  unfolding pde_at_def
  by (rule load32_cong) (simp_all add: entry_addr PDX_less pt_same_def)

lemma present_same: "pt_same pd m m' \<Longrightarrow> present m' pd = present m pd"
  and pgtab_of_same: "pt_same pd m m' \<Longrightarrow> pgtab_of m' pd = pgtab_of m pd"
  by (simp_all add: fun_eq_iff present_def pgtab_of_def pde_at_same)

lemma pte_at_same: "pt_same pd m m' \<Longrightarrow> present m pd va \<Longrightarrow> pte_at m' pd va = pte_at m pd va"
  unfolding pte_at_def
  by (simp add: pgtab_of_same, rule load32_cong)
     (auto simp: entry_addr [OF pgtab_aligned PTX_less] tables_def pt_same_def)

lemma lookup_same: "pt_same pd m m' \<Longrightarrow> lookup m' pd = lookup m pd"
  by (auto simp: fun_eq_iff lookup_def present_same pte_at_same)

lemma owned_same:
  assumes "pt_same pd m m'"
  shows "tables m' pd = tables m pd" "frames m' pd = frames m pd" "owned m' pd = owned m pd"
  by (simp_all add: tables_def frames_def owned_def present_same [OF assms] pgtab_of_same [OF assms]
      lookup_same [OF assms])

lemmas pt_same_simps = pde_at_same present_same pgtab_of_same lookup_same owned_same

lemma as_wf_same:
  assumes "pt_same pd (mem s) (mem s')" "page_ok s' = page_ok s" "as_wf s xs pd" "set ys \<subseteq> set xs"
  shows "as_wf s' ys pd"
  using assms(3,4) unfolding as_wf_def pt_same_simps [OF assms(1)] assms(2) by blast

lemma as_wf_parts:
  assumes "as_wf s xs pd"
  shows "\<forall>p \<in> owned (mem s) pd. page_ok s p" "set xs \<inter> owned (mem s) pd = {}"
    "pd \<notin> tables (mem s) pd" "pd \<notin> frames (mem s) pd" "tables (mem s) pd \<inter> frames (mem s) pd = {}"
    "\<forall>va va'. present (mem s) pd va \<longrightarrow> present (mem s) pd va' \<longrightarrow>
       pgtab_of (mem s) pd va = pgtab_of (mem s) pd va' \<longrightarrow> PDX va = PDX va'"
    "\<forall>va va' pte pte'. va < KERNBASE \<longrightarrow> va' < KERNBASE \<longrightarrow>
       lookup (mem s) pd va = Some pte \<longrightarrow> lookup (mem s) pd va' = Some pte' \<longrightarrow>
       frame pte = frame pte' \<longrightarrow> PGROUNDDOWN va = PGROUNDDOWN va'"
  using assms unfolding as_wf_def by - (elim conjE, assumption)+

lemma as_wfD:
  assumes "as_wf s xs pd"
  shows "page_ok s pd" "pd mod PGSIZE = 0" "pd \<notin> set xs"
    "present (mem s) pd va \<Longrightarrow> page_ok s (pgtab_of (mem s) pd va)"
    "present (mem s) pd va \<Longrightarrow> pgtab_of (mem s) pd va \<noteq> pd"
    "present (mem s) pd va \<Longrightarrow> pgtab_of (mem s) pd va \<notin> set xs"
    "present (mem s) pd va \<Longrightarrow> present (mem s) pd va' \<Longrightarrow>
       pgtab_of (mem s) pd va = pgtab_of (mem s) pd va' \<Longrightarrow> PDX va = PDX va'"
proof -
  show "page_ok s pd" using assms by (simp add: as_wf_def owned_def)
  then show "pd mod PGSIZE = 0" by (rule page_ok_aligned)
  show "pd \<notin> set xs" using assms by (auto simp: as_wf_def owned_def)
  assume p: "present (mem s) pd va"
  then have "pgtab_of (mem s) pd va \<in> tables (mem s) pd" by (auto simp: tables_def)
  with assms show "page_ok s (pgtab_of (mem s) pd va)" "pgtab_of (mem s) pd va \<noteq> pd"
    "pgtab_of (mem s) pd va \<notin> set xs"
    by (auto simp: as_wf_def owned_def)
  assume "present (mem s) pd va'" "pgtab_of (mem s) pd va = pgtab_of (mem s) pd va'"
  with p assms show "PDX va = PDX va'" unfolding as_wf_def by blast
qed

text \<open>A store to the page table entry of \<open>va\<close>.\<close>

lemma store_pte:
  assumes wf: "as_wf s xs pd" and p: "present (mem s) pd va"
    and m': "m' = store32 (mem s) (pgtab_of (mem s) pd va + 4 * PTX va) v"
  shows "pde_at m' pd = pde_at (mem s) pd"
    and "present m' pd va' \<Longrightarrow> pte_at m' pd va' =
      (if PGROUNDDOWN va' = PGROUNDDOWN va then v else pte_at (mem s) pd va')"
    and "lookup m' pd va' = (if PGROUNDDOWN va' = PGROUNDDOWN va then (if v AND PTE_P \<noteq> 0 then Some v else None)
      else lookup (mem s) pd va')"
proof -
  note t = entry_addr [OF pgtab_aligned PTX_less, of "mem s" pd]
  show pde: "pde_at m' pd = pde_at (mem s) pd"
  proof
    fix w
    show "pde_at m' pd w = pde_at (mem s) pd w"
      unfolding pde_at_def m'
      by (rule load32_cong)
         (use as_wfD(5) [OF wf p] in \<open>auto simp: entry_addr [OF as_wfD(2) [OF wf] PDX_less] store32_other_page t\<close>)
  qed
  then have tab: "pgtab_of m' pd = pgtab_of (mem s) pd" "present m' pd = present (mem s) pd"
    by (simp_all add: fun_eq_iff pgtab_of_def present_def)
  show pte: "pte_at m' pd va' = (if PGROUNDDOWN va' = PGROUNDDOWN va then v else pte_at (mem s) pd va')"
    if "present m' pd va'" for va'
  proof (cases "PDX va' = PDX va")
    case True
    then have "pgtab_of (mem s) pd va' = pgtab_of (mem s) pd va" by (rule PDX_cong)
    with True show ?thesis
      unfolding pte_at_def tab same_page_iff
      by (simp add: m' entry_inj PTX_less t)
  next
    case False
    with that have "pgtab_of (mem s) pd va' \<noteq> pgtab_of (mem s) pd va"
      using as_wfD(7) [OF wf _ p, of va'] by (auto simp: tab)
    then have "load32 m' (pgtab_of (mem s) pd va' + 4 * PTX va') = pte_at (mem s) pd va'"
      unfolding pte_at_def m' by (intro load32_cong) (simp_all add: t store32_other_page)
    with False show ?thesis unfolding pte_at_def tab same_page_iff by simp
  qed
  show "lookup m' pd va' = (if PGROUNDDOWN va' = PGROUNDDOWN va then (if v AND PTE_P \<noteq> 0 then Some v else None)
      else lookup (mem s) pd va')"
    using pte [of va'] p PDX_cong(2) [of va' va "mem s" pd] same_page_iff [of va' va]
    by (auto simp: lookup_def tab)
qed

text \<open>A new, empty page table for \<open>va\<close>.\<close>

definition new_pde :: "u32 \<Rightarrow> u32" where
  "new_pde t = V2P t OR PTE_P OR PTE_W OR PTE_U"

definition with_table :: "bmem \<Rightarrow> u32 \<Rightarrow> u32 \<Rightarrow> u32 \<Rightarrow> bmem" where
  "with_table m pd va t = store32 (memset m t 0 PGSIZE) (pd + 4 * PDX va) (new_pde t)"

lemma new_pde_bits:
  assumes "t mod PGSIZE = 0"
  shows "P2V (PTE_ADDR (new_pde t)) = t" "new_pde t AND PTE_P \<noteq> 0"
proof -
  have e: "new_pde t = V2P t OR 7" by (simp add: new_pde_def or.assoc)
  show "P2V (PTE_ADDR (new_pde t)) = t"
    unfolding e by (simp add: flags_bits(1) [OF aligned_V2P [OF assms]])
  have "bit (new_pde t AND PTE_P) 0" unfolding e by (simp add: bit_simps)
  then show "new_pde t AND PTE_P \<noteq> 0" by auto
qed

lemma with_table:
  assumes wf: "as_wf s xs pd" and p: "\<not> present (mem s) pd va"
    and t: "page_ok s t" "t \<notin> owned (mem s) pd" and m': "m' = with_table (mem s) pd va t"
  shows "pde_at m' pd va' = (if PDX va' = PDX va then new_pde t else pde_at (mem s) pd va')"
    and "lookup m' pd = lookup (mem s) pd"
proof -
  note al = page_ok_aligned [OF t(1)]
  note e = entry_addr [OF as_wfD(2) [OF wf] PDX_less]
  have tpd: "t \<noteq> pd" using t(2) by (auto simp: owned_def)
  have ms: "memset (mem s) t 0 PGSIZE = (\<lambda>x. if PGROUNDDOWN x = t then 0 else mem s x)"
    unfolding memset_page [OF al] by (simp cong: if_cong)
  have ld: "load32 (memset (mem s) t 0 PGSIZE) (pd + 4 * PDX w) = pde_at (mem s) pd w" for w
    unfolding pde_at_def ms by (rule load32_cong) (use tpd in \<open>auto simp: e\<close>)
  show pde: "pde_at m' pd va' = (if PDX va' = PDX va then new_pde t else pde_at (mem s) pd va')" for va'
    using ld [of va'] by (simp add: pde_at_def m' with_table_def e entry_inj PDX_less)
  show "lookup m' pd = lookup (mem s) pd"
  proof
    fix w
    show "lookup m' pd w = lookup (mem s) pd w"
    proof (cases "PDX w = PDX va")
      case True
      then have "pgtab_of m' pd w = t" by (simp add: pgtab_of_def pde new_pde_bits al)
      then have "pte_at m' pd w = load32 (memset (mem s) t 0 PGSIZE) (t + 4 * PTX w)"
        using tpd by (auto simp: pte_at_def m' with_table_def entry_addr [OF al PTX_less] e
            store32_other_page intro!: load32_cong)
      also have "\<dots> = 0" by (simp add: load32_memset_0 al entry_addr [OF al PTX_less])
      finally show ?thesis using p PDX_cong(2) [OF True] by (simp add: lookup_def)
    next
      case False
      then have same: "pgtab_of m' pd w = pgtab_of (mem s) pd w" "present m' pd w = present (mem s) pd w"
        by (simp_all add: pgtab_of_def present_def pde)
      have "pte_at m' pd w = pte_at (mem s) pd w" if "present (mem s) pd w"
      proof -
        from that t(2) have "pgtab_of (mem s) pd w \<noteq> t" by (auto simp: owned_def tables_def)
        moreover have "pgtab_of (mem s) pd w \<noteq> pd" using as_wfD(5) [OF wf that] .
        ultimately show ?thesis
          unfolding pte_at_def same
          by (intro load32_cong)
             (auto simp: m' with_table_def ms entry_addr [OF pgtab_aligned PTX_less] e store32_other_page)
      qed
      with same show ?thesis by (auto simp: lookup_def)
    qed
  qed
qed

section \<open>Steps of an address space\<close>

definition mem_same :: "u32 set \<Rightarrow> 'z kmem_scheme \<Rightarrow> 'z kmem_scheme \<Rightarrow> bool" where
  "mem_same P s s' \<longleftrightarrow> (\<forall>x. PGROUNDDOWN x \<in> P \<longrightarrow> mem s' x = mem s x)"

text \<open>
  \<open>vm_step pd E s xs s' xs'\<close>: an operation on the address space \<open>pd\<close> went from state \<open>s\<close> with the
  free pages \<open>xs\<close> to state \<open>s'\<close> with the free pages \<open>xs'\<close>; \<open>E\<close> are pages that the caller had taken
  from the allocator before and that became part of the address space.
\<close>

definition vm_step :: "u32 \<Rightarrow> u32 set \<Rightarrow> 'z kmem_scheme \<Rightarrow> u32 list \<Rightarrow> 'z kmem_scheme \<Rightarrow> u32 list \<Rightarrow> bool" where
  "vm_step pd E s xs s' xs' \<longleftrightarrow>
     kmem_inv s' xs' \<and> as_wf s' xs' pd \<and> s' = s\<lparr>mem := mem s', freelist := freelist s'\<rparr> \<and>
     mem_same (- (set xs \<union> owned (mem s) pd \<union> E)) s s' \<and>
     set xs' \<union> owned (mem s') pd = set xs \<union> owned (mem s) pd \<union> E"

lemma mem_same_refl [simp]: "mem_same P s s"
  by (simp add: mem_same_def)

lemma mem_same_trans: "mem_same P s t \<Longrightarrow> mem_same Q t u \<Longrightarrow> P \<subseteq> Q \<Longrightarrow> mem_same P s u"
  by (auto simp: mem_same_def)

lemma mem_same_mono: "mem_same Q s t \<Longrightarrow> P \<subseteq> Q \<Longrightarrow> mem_same P s t"
  by (auto simp: mem_same_def)

lemma vm_step_refl: "kmem_inv s xs \<Longrightarrow> as_wf s xs pd \<Longrightarrow> vm_step pd {} s xs s xs"
  by (simp add: vm_step_def)

lemma vm_step_trans:
  assumes "vm_step pd E s xs t ys" "vm_step pd F t ys u zs"
  shows "vm_step pd (E \<union> F) s xs u zs"
proof -
  have pg: "set ys \<union> owned (mem t) pd = set xs \<union> owned (mem s) pd \<union> E"
    using assms(1) by (simp add: vm_step_def)
  have "mem_same (- (set xs \<union> owned (mem s) pd \<union> (E \<union> F))) s t"
    using assms(1) by (auto simp: vm_step_def intro: mem_same_mono)
  moreover have "mem_same (- (set xs \<union> owned (mem s) pd \<union> (E \<union> F))) t u"
    using assms(2) pg by (auto simp: vm_step_def intro: mem_same_mono)
  ultimately have m: "mem_same (- (set xs \<union> owned (mem s) pd \<union> (E \<union> F))) s u"
    by (rule mem_same_trans) simp
  have t: "t = s\<lparr>mem := mem t, freelist := freelist t\<rparr>" and u: "u = t\<lparr>mem := mem u, freelist := freelist u\<rparr>"
    using assms by (simp_all add: vm_step_def)
  have "u = s\<lparr>mem := mem u, freelist := freelist u\<rparr>"
    by (subst u, subst t) simp
  with m assms pg show ?thesis by (auto simp: vm_step_def)
qed

lemma vm_step_fields:
  assumes "vm_step pd E s xs s' xs'"
  shows "page_ok s' = page_ok s" "held s' = held s" "kend s' = kend s" "kdata s' = kdata s"
    "use_lock s' = use_lock s"
proof -
  have e: "s' = s\<lparr>mem := mem s', freelist := freelist s'\<rparr>" using assms by (simp add: vm_step_def)
  show "page_ok s' = page_ok s" "held s' = held s" "kend s' = kend s" "kdata s' = kdata s"
    "use_lock s' = use_lock s"
    by (subst e, simp)+
qed

text \<open>A write to a page that is not free does not disturb the free list.\<close>

lemma kmem_inv_mem:
  assumes "kmem_inv s xs" "\<And>x. PGROUNDDOWN x \<in> set xs \<Longrightarrow> m x = mem s x"
  shows "kmem_inv (s\<lparr>mem := m\<rparr>) xs"
proof -
  have "load32 m x = load32 (mem s) x" if "x \<in> set xs" for x
  proof -
    from assms(1) that have "x mod PGSIZE = 0" by (auto simp: kmem_inv_def intro: page_ok_aligned)
    then show ?thesis using assms(2) that by (intro load32_cong) (auto simp: page_aligned4 PGROUNDDOWN_aligned)
  qed
  then have "free_chain m (freelist s) xs = free_chain (mem s) (freelist s) xs"
    by (rule free_chain_cong)
  with assms(1) show ?thesis by (auto simp: kmem_inv_def)
qed

lemma walkpgdir_present:
  "present (mem s) pd va \<Longrightarrow> walkpgdir pd va al s = Ret (pgtab_of (mem s) pd va + 4 * PTX va) s"
  by (simp add: walkpgdir_def present_def pgtab_of_def pde_at_def)

lemma walkpgdir_absent: "\<not> present (mem s) pd va \<Longrightarrow> walkpgdir pd va False s = Ret 0 s"
  by (simp add: walkpgdir_def present_def pde_at_def)

lemma page_ok_high: "page_ok s p \<Longrightarrow> KERNBASE \<le> kend s \<Longrightarrow> KERNBASE \<le> p \<and> p < DEVSPACE"
  unfolding page_ok_def V2P_def by (auto simp: word_le_nat_alt word_less_nat_alt unat_sub_if' split: if_splits)

lemma slot_nonzero:
  assumes "kmem_inv s xs" "as_wf s xs pd" "present (mem s) pd va"
  shows "pgtab_of (mem s) pd va + 4 * PTX va \<noteq> 0"
proof
  assume "pgtab_of (mem s) pd va + 4 * PTX va = 0"
  then have "PGROUNDDOWN (pgtab_of (mem s) pd va + 4 * PTX va) = 0" by (simp add: PGROUNDDOWN_def)
  then have "pgtab_of (mem s) pd va = 0" by (simp add: entry_addr [OF pgtab_aligned PTX_less])
  with page_ok_nonzero [OF as_wfD(4) [OF assms(2,3)]] show False by simp
qed

lemma vm_step_with_table:
  assumes inv: "kmem_inv s (t # ys)" and wf: "as_wf s (t # ys) pd" and p: "\<not> present (mem s) pd va"
    and s': "s' = s\<lparr>freelist := load32 (mem s) t, mem := with_table (mem s) pd va t\<rparr>"
  shows "vm_step pd {} s (t # ys) s' ys \<and> present (mem s') pd va \<and> pgtab_of (mem s') pd va = t \<and>
    lookup (mem s') pd = lookup (mem s) pd \<and> mem_same (- {pd, t}) s s'"
proof -
  have t: "page_ok s t" "t \<notin> owned (mem s) pd" "t \<notin> set ys" "t mod PGSIZE = 0"
    using inv wf by (auto simp: kmem_inv_def as_wf_def intro: page_ok_aligned)
  note T = with_table [OF wf p t(1,2) refl]
  have pr: "present (mem s') pd w = (PDX w = PDX va \<or> present (mem s) pd w)" for w
    by (simp add: present_def s' T new_pde_bits t)
  have tb: "pgtab_of (mem s') pd w = (if PDX w = PDX va then t else pgtab_of (mem s) pd w)" for w
    by (simp add: pgtab_of_def s' T new_pde_bits t)
  have lk: "lookup (mem s') pd = lookup (mem s) pd" by (simp add: s' T)
  have np: "PDX w \<noteq> PDX va" if "present (mem s) pd w" for w
    using that p PDX_cong(2) [of w va] by blast
  have tabs: "tables (mem s') pd = insert t (tables (mem s) pd)"
  proof (intro equalityI subsetI)
    fix x assume "x \<in> tables (mem s') pd"
    then show "x \<in> insert t (tables (mem s) pd)" by (auto simp: tables_def pr tb)
  next
    fix x assume "x \<in> insert t (tables (mem s) pd)"
    then consider "x = t" | w where "x = pgtab_of (mem s) pd w" "present (mem s) pd w"
      by (auto simp: tables_def)
    then have "\<exists>w. x = pgtab_of (mem s') pd w \<and> present (mem s') pd w"
    proof cases
      case 1
      then show ?thesis by (intro exI [of _ va]) (simp add: pr tb)
    next
      case (2 w)
      then show ?thesis by (intro exI [of _ w]) (simp add: pr tb np)
    qed
    then show "x \<in> tables (mem s') pd" by (auto simp: tables_def)
  qed
  have frs: "frames (mem s') pd = frames (mem s) pd" by (simp add: frames_def lk)
  have own: "owned (mem s') pd = insert t (owned (mem s) pd)" by (auto simp: owned_def tabs frs)
  have same: "mem s' x = mem s x" if "PGROUNDDOWN x \<noteq> t" "PGROUNDDOWN x \<noteq> pd" for x
    using that by (simp add: s' with_table_def store32_other_page entry_addr as_wfD(2) [OF wf] PDX_less
        memset_page t)
  have "kmem_inv (s\<lparr>freelist := load32 (mem s) t\<rparr>) ys" using kalloc_page(2) [OF inv] .
  moreover have "mem s' x = mem (s\<lparr>freelist := load32 (mem s) t\<rparr>) x" if "PGROUNDDOWN x \<in> set ys" for x
  proof -
    from that t(3) as_wfD(3) [OF wf] have "PGROUNDDOWN x \<noteq> t" "PGROUNDDOWN x \<noteq> pd" by auto
    then show ?thesis using same by simp
  qed
  ultimately have "kmem_inv ((s\<lparr>freelist := load32 (mem s) t\<rparr>)\<lparr>mem := mem s'\<rparr>) ys" by (rule kmem_inv_mem)
  then have k: "kmem_inv s' ys" by (simp add: s')
  note W = as_wf_parts [OF wf]
  have tt: "t \<notin> tables (mem s) pd" "t \<notin> frames (mem s) pd" "t \<noteq> pd" using t(2) by (auto simp: owned_def)
  have "as_wf s' ys pd"
    unfolding as_wf_def own tabs frs lk
  proof (intro conjI)
    show "\<forall>p \<in> insert t (owned (mem s) pd). page_ok s' p" using W(1) t(1) by (simp add: s')
    show "set ys \<inter> insert t (owned (mem s) pd) = {}" using W(2) t(3) by auto
    show "pd \<notin> insert t (tables (mem s) pd)" "pd \<notin> frames (mem s) pd" using W(3,4) tt by auto
    show "insert t (tables (mem s) pd) \<inter> frames (mem s) pd = {}" using W(5) tt by auto
    show "\<forall>w w'. present (mem s') pd w \<longrightarrow> present (mem s') pd w' \<longrightarrow>
        pgtab_of (mem s') pd w = pgtab_of (mem s') pd w' \<longrightarrow> PDX w = PDX w'"
    proof (intro allI impI)
      fix w w'
      assume "present (mem s') pd w" "present (mem s') pd w'" "pgtab_of (mem s') pd w = pgtab_of (mem s') pd w'"
      moreover have "pgtab_of (mem s) pd v \<noteq> t" if "present (mem s) pd v" for v
        using tt(1) that by (auto simp: tables_def)
      ultimately show "PDX w = PDX w'"
        using W(6) [rule_format, of w w'] by (auto simp: pr tb split: if_splits)
    qed
    show "\<forall>w w' pte pte'. w < KERNBASE \<longrightarrow> w' < KERNBASE \<longrightarrow> lookup (mem s) pd w = Some pte \<longrightarrow>
        lookup (mem s) pd w' = Some pte' \<longrightarrow> frame pte = frame pte' \<longrightarrow> PGROUNDDOWN w = PGROUNDDOWN w'"
      by (rule W(7))
  qed
  moreover have "s' = s\<lparr>mem := mem s', freelist := freelist s'\<rparr>" by (simp add: s')
  moreover have "mem_same (- (set (t # ys) \<union> owned (mem s) pd \<union> {})) s s'"
    unfolding mem_same_def by (intro allI impI same) (auto simp: owned_def)
  moreover have "mem_same (- {pd, t}) s s'"
    unfolding mem_same_def by (intro allI impI same) auto
  ultimately show ?thesis using k by (simp add: vm_step_def own pr tb lk)
qed

text \<open>\<open>walkpgdir\<close> with \<open>alloc\<close> set: it adds at most an empty page table.\<close>

lemma walkpgdir_alloc:
  assumes inv: "kmem_inv s xs" and wf: "as_wf s xs pd"
  obtains (full) "xs = []" "walkpgdir pd va True s = Ret 0 s"
  | (slot) s' xs' where "walkpgdir pd va True s = Ret (pgtab_of (mem s') pd va + 4 * PTX va) s'"
      "present (mem s') pd va" "vm_step pd {} s xs s' xs'" "lookup (mem s') pd = lookup (mem s) pd"
      "mem_same (- insert pd (set xs)) s s'" "xs' = xs \<or> xs' = tl xs"
      "pgtab_of (mem s') pd va + 4 * PTX va \<noteq> 0"
proof (cases "present (mem s) pd va")
  case True
  with slot [of s xs] show ?thesis
    by (simp add: walkpgdir_present vm_step_refl inv wf slot_nonzero [OF inv wf])
next
  case p: False
  from inv show ?thesis
  proof (cases rule: kalloc_cases)
    case none
    with p full show ?thesis by (simp add: walkpgdir_def present_def pde_at_def bindK_def)
  next
    case (page t ys)
    define s' where "s' = s\<lparr>freelist := load32 (mem s) t, mem := with_table (mem s) pd va t\<rparr>"
    have w: "walkpgdir pd va True s = Ret (t + 4 * PTX va) s'"
      using p page(2,3)
      by (simp add: walkpgdir_def present_def pde_at_def bindK_def s'_def with_table_def new_pde_def)
    from vm_step_with_table [OF inv [unfolded page(1)] wf [unfolded page(1)] p s'_def]
    have st: "vm_step pd {} s xs s' ys" "present (mem s') pd va" "pgtab_of (mem s') pd va = t"
      "lookup (mem s') pd = lookup (mem s) pd" "mem_same (- insert pd (set xs)) s s'"
      using page(1) by (auto elim!: mem_same_mono)
    then have "pgtab_of (mem s') pd va + 4 * PTX va \<noteq> 0"
      by (intro slot_nonzero [of s' ys]) (simp_all add: vm_step_def)
    with slot [of s' ys] w st page(1) show ?thesis by simp
  qed
qed

lemma unat_PGROUNDDOWN: "unat (PGROUNDDOWN a) = unat a div 4096 * 4096"
proof -
  have le: "take_bit 12 a \<le> a" by (simp add: word_le_nat_alt unsigned_take_bit_eq)
  have "PGROUNDDOWN a = a - take_bit 12 a"
    using PGROUNDDOWN_split [of a] by (simp add: eq_diff_eq)
  then have "unat (PGROUNDDOWN a) = unat a - unat (take_bit 12 a)"
    by (simp add: unat_sub [OF le])
  then show ?thesis by (simp add: take_bit_eq_mod unat_mod minus_mod_eq_div_mult)
qed

lemma same_page_user:
  assumes "PGROUNDDOWN w = PGROUNDDOWN va"
  shows "w < KERNBASE \<longleftrightarrow> va < KERNBASE"
proof -
  have "x < KERNBASE \<longleftrightarrow> PGROUNDDOWN x < KERNBASE" for x
    unfolding word_less_nat_alt unat_PGROUNDDOWN
    using div_mult_mod_eq [of "unat x" 4096] mod_less_divisor [of 4096 "unat x"] by simp linarith
  from this [of w] this [of va] assms show ?thesis by simp
qed

text \<open>The frames of the pages other than that of \<open>va\<close>.\<close>

definition other_frames :: "bmem \<Rightarrow> u32 \<Rightarrow> u32 \<Rightarrow> u32 set" where
  "other_frames m pd va =
     {frame pte | w pte. w < KERNBASE \<and> PGROUNDDOWN w \<noteq> PGROUNDDOWN va \<and> lookup m pd w = Some pte}"

lemma other_frames_unmapped:
  assumes "lookup m pd va = None"
  shows "other_frames m pd va = frames m pd"
proof -
  have "PGROUNDDOWN w \<noteq> PGROUNDDOWN va" if "lookup m pd w = Some pte" for w pte
    using same_page_cong [of w va m pd] that assms by auto
  then show ?thesis unfolding other_frames_def frames_def by blast
qed

lemma other_frames_kernel: "\<not> va < KERNBASE \<Longrightarrow> other_frames m pd va = frames m pd"
  unfolding other_frames_def frames_def using same_page_user [of _ va] by blast

lemma other_frames_mapped:
  assumes wf: "as_wf s xs pd" and va: "va < KERNBASE" "lookup (mem s) pd va = Some pte"
  shows "other_frames (mem s) pd va = frames (mem s) pd - {frame pte}"
proof (intro equalityI subsetI)
  fix x assume "x \<in> other_frames (mem s) pd va"
  then obtain w pte' where w: "x = frame pte'" "w < KERNBASE" "PGROUNDDOWN w \<noteq> PGROUNDDOWN va"
    "lookup (mem s) pd w = Some pte'" by (auto simp: other_frames_def)
  moreover have "frame pte' \<noteq> frame pte"
    using as_wf_parts(7) [OF wf] w va by blast
  ultimately show "x \<in> frames (mem s) pd - {frame pte}" by (auto simp: frames_def)
next
  fix x assume "x \<in> frames (mem s) pd - {frame pte}"
  then obtain w pte' where w: "x = frame pte'" "w < KERNBASE" "lookup (mem s) pd w = Some pte'" "x \<noteq> frame pte"
    by (auto simp: frames_def)
  moreover have "PGROUNDDOWN w \<noteq> PGROUNDDOWN va"
    using same_page_cong [of w va "mem s" pd] w va by auto
  ultimately show "x \<in> other_frames (mem s) pd va" by (auto simp: other_frames_def)
qed

lemma store_pte_sets:
  assumes wf: "as_wf s xs pd" and p: "present (mem s) pd va"
    and m': "m' = store32 (mem s) (pgtab_of (mem s) pd va + 4 * PTX va) v"
  shows "tables m' pd = tables (mem s) pd"
    and "frames m' pd = other_frames (mem s) pd va \<union>
      (if va < KERNBASE \<and> v AND PTE_P \<noteq> 0 then {frame v} else {})"
proof -
  note P = store_pte [OF wf p m']
  have tab: "pgtab_of m' pd = pgtab_of (mem s) pd" "present m' pd = present (mem s) pd"
    using P(1) by (simp_all add: fun_eq_iff pgtab_of_def present_def)
  show "tables m' pd = tables (mem s) pd" by (simp add: tables_def tab)
  show "frames m' pd = other_frames (mem s) pd va \<union>
      (if va < KERNBASE \<and> v AND PTE_P \<noteq> 0 then {frame v} else {})" (is "_ = ?R")
  proof (intro equalityI subsetI)
    fix x assume "x \<in> frames m' pd"
    then obtain w pte where w: "x = frame pte" "w < KERNBASE" "lookup m' pd w = Some pte"
      by (auto simp: frames_def)
    then show "x \<in> ?R"
      using P(3) [of w] same_page_user [of w va] by (auto simp: other_frames_def split: if_splits)
  next
    fix x assume "x \<in> ?R"
    then consider w pte where "x = frame pte" "w < KERNBASE" "PGROUNDDOWN w \<noteq> PGROUNDDOWN va"
        "lookup (mem s) pd w = Some pte"
      | "x = frame v" "va < KERNBASE" "v AND PTE_P \<noteq> 0"
      by (auto simp: other_frames_def split: if_splits)
    then show "x \<in> frames m' pd"
    proof cases
      case (1 w pte)
      with P(3) [of w] have "lookup m' pd w = Some pte" by simp
      with 1 show ?thesis by (auto simp: frames_def)
    next
      case 2
      with P(3) [of va] have "lookup m' pd va = Some v" by simp
      with 2 show ?thesis by (auto simp: frames_def)
    qed
  qed
qed

section \<open>Mapping pages\<close>

definition map_at :: "(u32 \<Rightarrow> u32 option) \<Rightarrow> u32 \<Rightarrow> u32 \<Rightarrow> (u32 \<Rightarrow> u32 option)" where
  "map_at l va v = (\<lambda>w. if PGROUNDDOWN w = PGROUNDDOWN va then Some v else l w)"

lemma or_PTE_P: "(pa OR perm OR PTE_P) AND PTE_P \<noteq> (0 :: u32)"
proof -
  have "bit ((pa OR perm OR PTE_P) AND PTE_P) 0" by (simp add: bit_simps)
  then show ?thesis by auto
qed

lemma vm_step_map:
  assumes inv: "kmem_inv s xs" and wf: "as_wf s xs pd" and p: "present (mem s) pd va"
    and l: "lookup (mem s) pd va = None" and v: "v AND PTE_P \<noteq> 0"
    and user: "va < KERNBASE \<Longrightarrow> page_ok s (frame v) \<and> frame v \<notin> set xs \<union> owned (mem s) pd"
    and s': "s' = s\<lparr>mem := store32 (mem s) (pgtab_of (mem s) pd va + 4 * PTX va) v\<rparr>"
  shows "vm_step pd (if va < KERNBASE then {frame v} else {}) s xs s' xs \<and>
    lookup (mem s') pd = map_at (lookup (mem s) pd) va v \<and>
    frames (mem s) pd \<subseteq> frames (mem s') pd \<and> mem_same (- tables (mem s) pd) s s'"
proof -
  have m': "mem s' = store32 (mem s) (pgtab_of (mem s) pd va + 4 * PTX va) v" by (simp add: s')
  note P = store_pte [OF wf p m'] and W = as_wf_parts [OF wf]
  have lk: "lookup (mem s') pd = map_at (lookup (mem s) pd) va v"
    using P(3) v by (simp add: map_at_def fun_eq_iff)
  have tabs: "tables (mem s') pd = tables (mem s) pd" by (rule store_pte_sets(1) [OF wf p m'])
  have frs: "frames (mem s') pd = frames (mem s) pd \<union> (if va < KERNBASE then {frame v} else {})"
    using store_pte_sets(2) [OF wf p m'] v by (simp add: other_frames_unmapped [OF l])
  have own: "owned (mem s') pd = owned (mem s) pd \<union> (if va < KERNBASE then {frame v} else {})"
    by (auto simp: owned_def tabs frs)
  have t: "pgtab_of (mem s) pd va \<in> tables (mem s) pd" using p by (auto simp: tables_def)
  have same: "mem s' x = mem s x" if "PGROUNDDOWN x \<notin> tables (mem s) pd" for x
    using that t unfolding m' by (intro store32_other_page) (auto simp: entry_addr [OF pgtab_aligned PTX_less])
  have k: "kmem_inv s' xs"
    unfolding s' by (rule kmem_inv_mem [OF inv]) (use same W(2) in \<open>auto simp: owned_def s'\<close>)
  have ft: "frame v \<notin> tables (mem s) pd" "frame v \<notin> frames (mem s) pd" "frame v \<noteq> pd" "frame v \<notin> set xs"
    if "va < KERNBASE" using user [OF that] by (auto simp: owned_def)
  have "as_wf s' xs pd"
    unfolding as_wf_def own tabs frs
  proof (intro conjI)
    show "\<forall>q \<in> owned (mem s) pd \<union> (if va < KERNBASE then {frame v} else {}). page_ok s' q"
      using W(1) user by (auto simp: s')
    show "set xs \<inter> (owned (mem s) pd \<union> (if va < KERNBASE then {frame v} else {})) = {}"
      using W(2) ft by auto
    show "pd \<notin> tables (mem s) pd" by (rule W(3))
    show "pd \<notin> frames (mem s) pd \<union> (if va < KERNBASE then {frame v} else {})" using W(4) ft by auto
    show "tables (mem s) pd \<inter> (frames (mem s) pd \<union> (if va < KERNBASE then {frame v} else {})) = {}"
      using W(5) ft by auto
    show "\<forall>w w'. present (mem s') pd w \<longrightarrow> present (mem s') pd w' \<longrightarrow>
        pgtab_of (mem s') pd w = pgtab_of (mem s') pd w' \<longrightarrow> PDX w = PDX w'"
      using W(6) unfolding present_def pgtab_of_def P(1) .
    show "\<forall>w w' pte pte'. w < KERNBASE \<longrightarrow> w' < KERNBASE \<longrightarrow> lookup (mem s') pd w = Some pte \<longrightarrow>
        lookup (mem s') pd w' = Some pte' \<longrightarrow> frame pte = frame pte' \<longrightarrow> PGROUNDDOWN w = PGROUNDDOWN w'"
    proof (intro allI impI)
      fix w w' pte pte'
      assume a: "w < KERNBASE" "w' < KERNBASE" "lookup (mem s') pd w = Some pte"
        "lookup (mem s') pd w' = Some pte'" "frame pte = frame pte'"
      have f: "frame q \<in> frames (mem s) pd" if "lookup (mem s) pd u = Some q" "u < KERNBASE" for u q
        using that by (auto simp: frames_def)
      from a f [of w pte] f [of w' pte'] W(7) [rule_format, of w w' pte pte'] ft(2) same_page_user [of w va] same_page_user [of w' va]
      show "PGROUNDDOWN w = PGROUNDDOWN w'"
        unfolding lk map_at_def by (auto split: if_splits)
    qed
  qed
  moreover have "mem_same (- (set xs \<union> owned (mem s) pd \<union> (if va < KERNBASE then {frame v} else {}))) s s'"
    unfolding mem_same_def by (intro allI impI same) (auto simp: owned_def)
  moreover have "mem_same (- tables (mem s) pd) s s'" unfolding mem_same_def using same by blast
  ultimately show ?thesis
    using k lk frs own by (auto simp: vm_step_def s')
qed

lemma map_page_run:
  assumes inv: "kmem_inv s xs" and wf: "as_wf s xs pd" and l: "lookup (mem s) pd va = None"
    and v: "v = pa OR perm OR PTE_P"
    and user: "va < KERNBASE \<Longrightarrow> page_ok s (frame v) \<and> frame v \<notin> set xs \<union> owned (mem s) pd"
  obtains (full) "xs = []" "map_page pd va pa perm s = Ret (-1) s"
  | (ok) s' xs' where "map_page pd va pa perm s = Ret 0 s'"
      "vm_step pd (if va < KERNBASE then {frame v} else {}) s xs s' xs'"
      "lookup (mem s') pd = map_at (lookup (mem s) pd) va v"
      "frames (mem s) pd \<subseteq> frames (mem s') pd" "mem_same (frames (mem s) pd) s s'"
      "mem_same (- insert pd (set xs \<union> tables (mem s) pd)) s s'"
  using inv wf
proof (cases rule: walkpgdir_alloc [where va = va])
  case full
  then show ?thesis by (intro that(1)) (simp_all add: map_page_def bindK_def)
next
  case (slot t ys)
  let ?q = "pgtab_of (mem t) pd va + 4 * PTX va"
  define s' where "s' = t\<lparr>mem := store32 (mem t) ?q v\<rparr>"
  have t: "kmem_inv t ys" "as_wf t ys pd" using slot(3) by (simp_all add: vm_step_def)
  have "load32 (mem t) ?q AND PTE_P = 0"
    using l slot(2,4) by (auto simp: lookup_def pte_at_def fun_eq_iff split: if_splits dest: spec [of _ va])
  then have run: "map_page pd va pa perm s = Ret 0 s'"
    using slot(1,7) by (simp add: map_page_def bindK_def s'_def v)
  have pg: "set ys \<union> owned (mem t) pd = set xs \<union> owned (mem s) pd" using slot(3) by (simp add: vm_step_def)
  have u: "page_ok t (frame v) \<and> frame v \<notin> set ys \<union> owned (mem t) pd" if "va < KERNBASE"
    using user [OF that] unfolding pg vm_step_fields(1) [OF slot(3)] .
  have fr: "frames (mem t) pd = frames (mem s) pd" by (simp add: frames_def slot(4))
  from vm_step_map [OF t slot(2) _ _ u s'_def] l or_PTE_P slot(4)
  have st: "vm_step pd (if va < KERNBASE then {frame v} else {}) t ys s' ys"
    "lookup (mem s') pd = map_at (lookup (mem t) pd) va v" "frames (mem t) pd \<subseteq> frames (mem s') pd"
    "mem_same (- tables (mem t) pd) t s'" unfolding v by simp_all
  have "tables (mem t) pd \<subseteq> set xs \<union> tables (mem s) pd"
  proof
    fix x assume x: "x \<in> tables (mem t) pd"
    with as_wf_parts(3,5) [OF t(2)] have "x \<noteq> pd" "x \<notin> frames (mem s) pd" by (auto simp: fr)
    with x pg show "x \<in> set xs \<union> tables (mem s) pd" by (auto simp: owned_def)
  qed
  then have "mem_same (- insert pd (set xs \<union> tables (mem s) pd)) t s'"
    by (auto intro: mem_same_mono [OF st(4)])
  moreover have "mem_same (- insert pd (set xs \<union> tables (mem s) pd)) s t"
    by (rule mem_same_mono [OF slot(5)]) auto
  ultimately have ms: "mem_same (- insert pd (set xs \<union> tables (mem s) pd)) s s'"
    by (auto intro: mem_same_trans)
  moreover have "frames (mem s) pd \<subseteq> - insert pd (set xs \<union> tables (mem s) pd)"
    using as_wf_parts(2,4,5) [OF wf] by (auto simp: owned_def)
  ultimately have "mem_same (frames (mem s) pd) s s'" by (rule mem_same_mono)
  with run st slot(4) fr ms vm_step_trans [OF slot(3) st(1)] show ?thesis by (intro that(2)) simp_all
qed

lemma map_page_remap:
  "lookup (mem s) pd va = Some pte \<Longrightarrow> pgtab_of (mem s) pd va + 4 * PTX va \<noteq> 0 \<Longrightarrow>
     map_page pd va pa perm s = Panic ''remap''"
  by (auto simp: map_page_def walkpgdir_present bindK_def lookup_def pte_at_def split: if_splits)

lemma mappages_one:
  assumes "a mod PGSIZE = 0"
  shows "mappages pd a PGSIZE pa perm = map_page pd a pa perm"
proof -
  have "PGROUNDDOWN (a + 0xFFF) = a" by (rule PGROUNDDOWN_add(1) [OF assms]) simp
  moreover have "PGROUNDDOWN a = a" using assms by (rule PGROUNDDOWN_aligned)
  ultimately show ?thesis by (simp add: mappages_def Let_def add.commute)
qed

definition map_range :: "(u32 \<Rightarrow> u32 option) \<Rightarrow> u32 \<Rightarrow> u32 \<Rightarrow> u32 \<Rightarrow> nat \<Rightarrow> (u32 \<Rightarrow> u32 option)" where
  "map_range l a pa perm n = (\<lambda>w. let d = PGROUNDDOWN w - a
     in if unat d div 4096 \<le> n then Some ((pa + d) OR perm OR PTE_P) else l w)"

lemma page_diff_aligned:
  assumes "a mod PGSIZE = 0" "b mod PGSIZE = 0"
  shows "4096 dvd unat (b - a)"
proof -
  have "4096 dvd unat a" "4096 dvd unat b" "4096 dvd (4294967296 :: nat)"
    using assms by (simp_all add: aligned_unat)
  then show ?thesis by (simp add: unat_sub_if' dvd_diff_nat)
qed

lemma map_range_0: "a mod PGSIZE = 0 \<Longrightarrow> map_range l a pa perm 0 = map_at l a (pa OR perm OR PTE_P)"
proof
  fix w assume a: "a mod PGSIZE = 0"
  from page_diff_aligned [OF a aligned_PGROUNDDOWN, of w]
  have "unat (PGROUNDDOWN w - a) div 4096 = 0 \<longleftrightarrow> PGROUNDDOWN w = a"
    by (auto simp: div_eq_0_iff unat_eq_0 dest: dvd_imp_le)
  then show "map_range l a pa perm 0 w = map_at l a (pa OR perm OR PTE_P) w"
    by (auto simp: map_range_def map_at_def PGROUNDDOWN_aligned [OF a] Let_def)
qed

lemma map_range_Suc:
  assumes a: "a mod PGSIZE = 0" and n: "4096 * Suc n < 2 ^ 32"
  shows "map_range (map_at l a (pa OR perm OR PTE_P)) (a + PGSIZE) (pa + PGSIZE) perm n =
    map_range l a pa perm (Suc n)"
proof
  fix w
  let ?d = "PGROUNDDOWN w - a"
  obtain k where k: "unat ?d = 4096 * k" using page_diff_aligned [OF a aligned_PGROUNDDOWN, of w] ..
  show "map_range (map_at l a (pa OR perm OR PTE_P)) (a + PGSIZE) (pa + PGSIZE) perm n w =
    map_range l a pa perm (Suc n) w"
  proof (cases "PGROUNDDOWN w = a")
    case True
    have "unat (- PGSIZE) = 4294963200" by simp
    with n True show ?thesis
      by (simp add: map_range_def map_at_def PGROUNDDOWN_aligned [OF a] Let_def)
  next
    case False
    then have "unat ?d \<noteq> 0" by (simp add: unat_eq_0)
    with k have "k \<noteq> 0" by auto
    then obtain j where j: "k = Suc j" by (cases k) auto
    have "unat (?d - PGSIZE) = 4096 * j" using k j by (simp add: unat_sub_if')
    then have "unat (PGROUNDDOWN w - (a + PGSIZE)) = 4096 * j" by (simp add: diff_diff_eq)
    with k j False show ?thesis
      by (simp add: map_range_def map_at_def PGROUNDDOWN_aligned [OF a] Let_def)
  qed
qed

lemma range_shift:
  assumes a: "a mod PGSIZE = 0" and n: "4096 * Suc n < 2 ^ 32"
    and w: "unat (PGROUNDDOWN w - (a + PGSIZE)) div 4096 \<le> n"
  shows "PGROUNDDOWN w \<noteq> a \<and> unat (PGROUNDDOWN w - a) div 4096 \<le> Suc n"
proof -
  have ne: "PGROUNDDOWN w \<noteq> a"
  proof
    assume "PGROUNDDOWN w = a"
    moreover have "unat (- PGSIZE) = 4294963200" by simp
    ultimately show False using w n by simp
  qed
  obtain k where k: "unat (PGROUNDDOWN w - a) = 4096 * k"
    using page_diff_aligned [OF a aligned_PGROUNDDOWN, of w] ..
  from ne have "unat (PGROUNDDOWN w - a) \<noteq> 0" by (simp add: unat_eq_0)
  then obtain j where j: "k = Suc j" using k by (cases k) auto
  have "unat (PGROUNDDOWN w - a - PGSIZE) = 4096 * j" using k j by (simp add: unat_sub_if')
  then have "unat (PGROUNDDOWN w - (a + PGSIZE)) = 4096 * j" by (simp add: diff_diff_eq)
  with w k j ne show ?thesis by simp
qed

lemma frames_user_cong:
  "\<forall>w < KERNBASE. lookup m' pd w = lookup m pd w \<Longrightarrow> frames m' pd = frames m pd"
  unfolding frames_def by (intro Collect_cong ex_cong1) auto

lemma map_at_user: "\<not> a < KERNBASE \<Longrightarrow> w < KERNBASE \<Longrightarrow> map_at l a v w = l w"
  using same_page_user [of w a] by (auto simp: map_at_def)

lemma mappages_loop_kernel:
  assumes "kmem_inv s xs" "as_wf s xs pd" "a mod PGSIZE = 0" "KERNBASE \<le> a" "unat a + 4096 * n < 2 ^ 32"
    and "\<And>w. unat (PGROUNDDOWN w - a) div 4096 \<le> n \<Longrightarrow> lookup (mem s) pd w = None"
  shows "\<exists>r s' xs'. mappages_loop n pd a pa perm s = Ret r s' \<and> vm_step pd {} s xs s' xs' \<and>
    mem_same (frames (mem s) pd) s s' \<and> (\<forall>w < KERNBASE. lookup (mem s') pd w = lookup (mem s) pd w) \<and>
    (r = 0 \<and> lookup (mem s') pd = map_range (lookup (mem s) pd) a pa perm n \<or> r = -1 \<and> xs' = [])"
  using assms
proof (induction n arbitrary: s xs a pa)
  case 0
  have u: "\<not> a < KERNBASE" using "0.prems"(4) by simp
  have l: "lookup (mem s) pd a = None" by (rule "0.prems"(6)) (simp add: PGROUNDDOWN_aligned "0.prems"(3))
  have f: "page_ok s (frame (pa OR perm OR PTE_P)) \<and> frame (pa OR perm OR PTE_P) \<notin> set xs \<union> owned (mem s) pd"
    if "a < KERNBASE" using that u by simp
  show ?case
  proof (cases rule: map_page_run [OF "0.prems"(1,2) l refl f])
    case 1
    then show ?case by simp
  next
    case 2
    then show ?thesis using "0.prems" by (intro exI conjI) (auto simp: vm_step_refl)
  next
    case (3 s' xs')
    then show ?thesis using u "0.prems"(3)
      by (intro exI [of _ "0 :: int"] exI [of _ s'] exI [of _ xs']) (simp add: map_range_0 map_at_user)
  qed
next
  case (Suc n)
  have u: "\<not> a < KERNBASE" using Suc.prems(4) by simp
  have l: "lookup (mem s) pd a = None" by (rule Suc.prems(6)) (simp add: PGROUNDDOWN_aligned Suc.prems(3))
  have f: "page_ok s (frame (pa OR perm OR PTE_P)) \<and> frame (pa OR perm OR PTE_P) \<notin> set xs \<union> owned (mem s) pd"
    if "a < KERNBASE" using that u by simp
  show ?case
  proof (cases rule: map_page_run [OF Suc.prems(1,2) l refl f])
    case 1
    then show ?case by simp
  next
    case 2
    then show ?thesis using Suc.prems by (intro exI conjI) (auto simp: vm_step_refl bindK_def)
  next
    case (3 t ys)
    let ?v = "pa OR perm OR PTE_P"
    have n: "4096 * Suc n < 2 ^ 32" using Suc.prems(5) by simp
    have a1: "unat (a + PGSIZE) = unat a + 4096" using Suc.prems(5) by (simp add: unat_word_ariths)
    have t: "kmem_inv t ys" "as_wf t ys pd" "vm_step pd {} s xs t ys" using 3(2) u by (simp_all add: vm_step_def)
    have lu: "lookup (mem t) pd w = lookup (mem s) pd w" if "w < KERNBASE" for w
      using that u by (simp add: 3(3) map_at_user)
    have "lookup (mem t) pd w = None" if "unat (PGROUNDDOWN w - (a + PGSIZE)) div 4096 \<le> n" for w
      using range_shift [OF Suc.prems(3) n that] Suc.prems(6) [of w]
      by (simp add: 3(3) map_at_def PGROUNDDOWN_aligned Suc.prems(3))
    from Suc.IH [OF t(1,2) aligned_add_PGSIZE [OF Suc.prems(3)] _ _ this, of "pa + PGSIZE"] a1 Suc.prems(4,5)
    obtain r s' xs' where r: "mappages_loop n pd (a + PGSIZE) (pa + PGSIZE) perm t = Ret r s'"
      "vm_step pd {} t ys s' xs'" "mem_same (frames (mem t) pd) t s'"
      "\<forall>w < KERNBASE. lookup (mem s') pd w = lookup (mem t) pd w"
      "r = 0 \<and> lookup (mem s') pd = map_range (lookup (mem t) pd) (a + PGSIZE) (pa + PGSIZE) perm n \<or> r = -1 \<and> xs' = []"
      by (auto simp: word_le_nat_alt)
    have "mappages_loop (Suc n) pd a pa perm s = Ret r s'" by (simp add: bindK_def 3(1) r(1))
    moreover have "vm_step pd {} s xs s' xs'" using vm_step_trans [OF t(3) r(2)] by simp
    moreover have "mem_same (frames (mem s) pd) s s'" by (rule mem_same_trans [OF 3(5) r(3) 3(4)])
    ultimately show ?thesis using r(4,5) lu map_range_Suc [OF Suc.prems(3) n] 3(3)
      by (intro exI [of _ r] exI [of _ s'] exI [of _ xs']) simp
  qed
qed

end
