(* ===== verification/Vm_Props.thy ===== *)
theory Vm_Props
  imports Pagetable
begin

text \<open>
  The contracts of \<open>deallocuvm\<close>, \<open>allocuvm\<close>, \<open>freevm\<close>, \<open>setupkvm\<close>, \<open>copyuvm\<close> and
  \<open>copyout\<close>, over the map \<open>lookup\<close> and the pages an address space owns.
\<close>

section \<open>Deallocation\<close>

definition unmap_at :: "(u32 \<Rightarrow> u32 option) \<Rightarrow> u32 \<Rightarrow> (u32 \<Rightarrow> u32 option)" where
  "unmap_at l va = (\<lambda>w. if PGROUNDDOWN w = PGROUNDDOWN va then None else l w)"

lemma load32_kfree_other:
  assumes "v mod PGSIZE = 0" "a mod 4 = 0" "PGROUNDDOWN a \<noteq> v"
  shows "load32 (mem (freed v s)) a = load32 (mem s) a"
  using assms by (intro load32_cong)
    (auto simp: freed_def store32_other_page page_aligned4 PGROUNDDOWN_aligned memset_page)

text \<open>
  Freeing the frame of a mapped page and clearing its entry, as \<open>deallocuvm\<close> does.
\<close>

lemma vm_step_unmap:
  assumes inv: "kmem_inv s xs" and wf: "as_wf s xs pd" and va: "va < KERNBASE"
    and l: "lookup (mem s) pd va = Some pte"
    and s': "s' = (freed (frame pte) s)\<lparr>mem := store32 (mem (freed (frame pte) s)) (pgtab_of (mem s) pd va + 4 * PTX va) 0\<rparr>"
  shows "vm_step pd {} s xs s' (frame pte # xs) \<and> lookup (mem s') pd = unmap_at (lookup (mem s) pd) va \<and>
    frames (mem s') pd = frames (mem s) pd - {frame pte} \<and> mem_same (frames (mem s') pd) s s'"
proof -
  let ?f = "frame pte" and ?q = "pgtab_of (mem s) pd va + 4 * PTX va"
  have f: "?f \<in> frames (mem s) pd" using va l by (auto simp: frames_def)
  note W = as_wf_parts [OF wf]
  have ok: "page_ok s ?f" "?f \<notin> set xs" "?f \<noteq> pd" "?f \<notin> tables (mem s) pd"
    using W f by (auto simp: owned_def)
  have p: "present (mem s) pd va" using l by (simp add: lookup_def split: if_splits)
  define t where "t = freed ?f s"
  have same_t: "mem t x = mem s x" if "PGROUNDDOWN x \<noteq> ?f" for x
    using that by (simp add: t_def freed_def store32_other_page page_aligned4 aligned_frame
        PGROUNDDOWN_aligned memset_page)
  have pt: "pt_same pd (mem s) (mem t)"
    unfolding pt_same_def
    by (intro conjI allI impI same_t as_wfD(2) [OF wf]) (use ok(3,4) in auto)
  have wft: "as_wf t xs pd" by (rule as_wf_same [OF pt _ wf]) (simp_all add: t_def)
  have q: "?q = pgtab_of (mem t) pd va + 4 * PTX va" by (simp add: pgtab_of_same [OF pt])
  have pr: "present (mem t) pd va" using p by (simp add: present_same [OF pt])
  have m': "mem s' = store32 (mem t) (pgtab_of (mem t) pd va + 4 * PTX va) 0"
    unfolding q [symmetric] by (simp add: s' t_def)
  note P = store_pte [OF wft pr m'] and S = store_pte_sets [OF wft pr m']
  have lk: "lookup (mem s') pd = unmap_at (lookup (mem s) pd) va"
    using P(3) by (simp add: fun_eq_iff unmap_at_def lookup_same [OF pt])
  have tabs: "tables (mem s') pd = tables (mem s) pd" using S(1) by (simp add: owned_same [OF pt])
  have "lookup (mem t) pd va = Some pte" using l by (simp add: lookup_same [OF pt])
  from other_frames_mapped [OF wft va this] S(2)
  have frs: "frames (mem s') pd = frames (mem s) pd - {?f}" by (simp add: owned_same [OF pt])
  have own: "owned (mem s') pd = owned (mem s) pd - {?f}"
    using ok by (auto simp: owned_def tabs frs)
  have tb: "pgtab_of (mem s) pd va \<in> tables (mem s) pd" using p by (auto simp: tables_def)
  have same: "mem s' x = mem s x" if "PGROUNDDOWN x \<noteq> ?f" "PGROUNDDOWN x \<notin> tables (mem s) pd" for x
    using that tb same_t [of x] unfolding m' q [symmetric]
    by (subst store32_other_page) (auto simp: entry_addr [OF pgtab_aligned PTX_less])
  have "kmem_inv t (?f # xs)" unfolding t_def by (rule kmem_inv_freed [OF inv ok(1,2)])
  then have "kmem_inv (t\<lparr>mem := mem s'\<rparr>) (?f # xs)"
  proof (rule kmem_inv_mem)
    fix x assume "PGROUNDDOWN x \<in> set (?f # xs)"
    then have "PGROUNDDOWN x \<notin> tables (mem s) pd" using ok W(2) by (auto simp: owned_def)
    then show "mem s' x = mem t x" using tb unfolding m' q [symmetric]
      by (subst store32_other_page) (auto simp: entry_addr [OF pgtab_aligned PTX_less])
  qed
  then have k: "kmem_inv s' (?f # xs)" by (simp add: s' t_def)
  have "as_wf s' (?f # xs) pd"
    unfolding as_wf_def own tabs frs
  proof (intro conjI)
    show "\<forall>q \<in> owned (mem s) pd - {?f}. page_ok s' q" using W(1) by (simp add: s')
    show "set (?f # xs) \<inter> (owned (mem s) pd - {?f}) = {}" using W(2) by auto
    show "pd \<notin> tables (mem s) pd" "pd \<notin> frames (mem s) pd - {?f}"
      "tables (mem s) pd \<inter> (frames (mem s) pd - {?f}) = {}" using W(3,4,5) by auto
    show "\<forall>w w'. present (mem s') pd w \<longrightarrow> present (mem s') pd w' \<longrightarrow>
        pgtab_of (mem s') pd w = pgtab_of (mem s') pd w' \<longrightarrow> PDX w = PDX w'"
      using as_wf_parts(6) [OF wft] unfolding present_def pgtab_of_def P(1) .
    show "\<forall>w w' pte pte'. w < KERNBASE \<longrightarrow> w' < KERNBASE \<longrightarrow> lookup (mem s') pd w = Some pte \<longrightarrow>
        lookup (mem s') pd w' = Some pte' \<longrightarrow> frame pte = frame pte' \<longrightarrow> PGROUNDDOWN w = PGROUNDDOWN w'"
      using W(7) unfolding lk unmap_at_def by (intro allI impI) (metis option.distinct(1))
  qed
  moreover have "mem_same (- (set xs \<union> owned (mem s) pd \<union> {})) s s'"
    unfolding mem_same_def by (intro allI impI same) (use f in \<open>auto simp: owned_def\<close>)
  moreover have "mem_same (frames (mem s') pd) s s'"
    unfolding mem_same_def frs by (intro allI impI same) (use W(5) in auto)
  moreover have "s' = s\<lparr>mem := mem s', freelist := freelist s'\<rparr>" by (simp add: s' freed_def)
  moreover have "set (?f # xs) \<union> owned (mem s') pd = set xs \<union> owned (mem s) pd"
    unfolding own using f by (auto simp: owned_def)
  ultimately show ?thesis using k by (simp add: vm_step_def lk frs)
qed

lemma frame_high:
  assumes "kmem_inv s xs" "page_ok s (frame pte)"
  shows "PTE_ADDR pte \<noteq> 0"
proof
  assume "PTE_ADDR pte = 0"
  then have "frame pte = KERNBASE" by (simp add: frame_def P2V_def)
  with assms show False by (auto simp: kmem_inv_def page_ok_def)
qed

lemma dealloc_page_run:
  assumes inv: "kmem_inv s xs" and wf: "as_wf s xs pd" and a: "a < KERNBASE"
  obtains (absent) "\<not> present (mem s) pd a" "dealloc_page pd a s = Ret (PGADDR (PDX a + 1) 0 0 - PGSIZE) s"
  | (unmapped) "lookup (mem s) pd a = None" "dealloc_page pd a s = Ret a s"
  | (mapped) pte s' where "lookup (mem s) pd a = Some pte" "dealloc_page pd a s = Ret a s'"
      "vm_step pd {} s xs s' (frame pte # xs)" "lookup (mem s') pd = unmap_at (lookup (mem s) pd) a"
      "frames (mem s') pd \<subseteq> frames (mem s) pd" "mem_same (frames (mem s') pd) s s'"
proof (cases "present (mem s) pd a")
  case False
  then show ?thesis by (intro absent) (simp_all add: dealloc_page_def walkpgdir_absent bindK_def)
next
  case p: True
  let ?q = "pgtab_of (mem s) pd a + 4 * PTX a"
  have q: "?q \<noteq> 0" by (rule slot_nonzero [OF inv wf p])
  show ?thesis
  proof (cases "lookup (mem s) pd a")
    case None
    with p q have "dealloc_page pd a s = Ret a s"
      by (auto simp: dealloc_page_def walkpgdir_present bindK_def lookup_def pte_at_def split: if_splits)
    with None show ?thesis by (rule unmapped)
  next
    case (Some pte)
    then have v: "load32 (mem s) ?q = pte" "pte AND PTE_P \<noteq> 0"
      by (auto simp: lookup_def pte_at_def split: if_splits)
    have "frame pte \<in> frames (mem s) pd" using a Some by (auto simp: frames_def)
    then have ok: "page_ok s (frame pte)" using as_wf_parts(1) [OF wf] by (simp add: owned_def)
    define s' where "s' = (freed (frame pte) s)\<lparr>mem := store32 (mem (freed (frame pte) s)) ?q 0\<rparr>"
    have "L_kmem \<notin> held s" using inv by (simp add: kmem_inv_def)
    then have "dealloc_page pd a s = Ret a s'"
      using p q v frame_high [OF inv ok] kfree_run [OF ok]
      by (simp add: dealloc_page_def walkpgdir_present bindK_def Let_def s'_def frame_def)
    with vm_step_unmap [OF inv wf a Some s'_def] Some show ?thesis by (intro mapped) auto
  qed
qed

lemma unat_PDX: "unat (PDX va) = unat va div 4194304"
proof -
  have "take_bit 10 (drop_bit 22 va) = drop_bit 22 va"
    by (rule bit_word_eqI) (auto simp: bit_simps dest: bit_imp_le_length)
  then show ?thesis by (simp add: PDX_bits drop_bit_eq_div unat_div)
qed

text \<open>The start of the region of the next page table.\<close>

lemma next_table:
  assumes "a < KERNBASE"
  shows "unat (PGADDR (PDX a + 1) 0 0) = (unat a div 4194304 + 1) * 4194304"
proof -
  have d: "unat a div 4194304 < 512" using assms by (simp add: word_less_nat_alt)
  then have "unat (PDX a + 1) = unat a div 4194304 + 1" by (simp add: unat_word_ariths unat_PDX)
  moreover have "PGADDR (PDX a + 1) 0 0 = (PDX a + 1) * 4194304"
    by (simp add: PGADDR_def push_bit_eq_mult)
  ultimately show ?thesis using d by (simp add: unat_word_ariths unat_PDX)
qed

definition unmap_range :: "(u32 \<Rightarrow> u32 option) \<Rightarrow> u32 \<Rightarrow> u32 \<Rightarrow> (u32 \<Rightarrow> u32 option)" where
  "unmap_range l a b = (\<lambda>w. if a \<le> PGROUNDDOWN w \<and> PGROUNDDOWN w < b then None else l w)"

lemma PGROUNDDOWN_idem [simp]: "PGROUNDDOWN (PGROUNDDOWN w) = PGROUNDDOWN w"
  by (rule PGROUNDDOWN_aligned) simp

lemma aligned_gap:
  assumes "a mod PGSIZE = 0" "b mod PGSIZE = 0" "a < b"
  shows "unat a + 4096 \<le> unat b"
proof -
  obtain i j where "unat a = 4096 * i" "unat b = 4096 * j"
    using assms(1,2) unfolding aligned_unat by (auto elim!: dvdE)
  with assms(3) show ?thesis by (simp add: word_less_nat_alt)
qed

lemma next_page:
  assumes "a < KERNBASE" "a mod PGSIZE = 0"
  shows "unat (a + PGSIZE) = unat a + 4096" "(a + PGSIZE) mod PGSIZE = 0"
    "a + PGSIZE \<le> PGROUNDDOWN w \<longleftrightarrow> a \<le> PGROUNDDOWN w \<and> PGROUNDDOWN w \<noteq> a"
proof -
  show u: "unat (a + PGSIZE) = unat a + 4096"
    using assms(1) by (simp add: unat_word_ariths word_less_nat_alt)
  show "(a + PGSIZE) mod PGSIZE = 0" by (rule aligned_add_PGSIZE [OF assms(2)])
  show "a + PGSIZE \<le> PGROUNDDOWN w \<longleftrightarrow> a \<le> PGROUNDDOWN w \<and> PGROUNDDOWN w \<noteq> a"
    using aligned_gap [OF assms(2) aligned_PGROUNDDOWN [of w]] u
    by (auto simp: word_le_nat_alt order_less_le)
qed

lemma unmap_range_skip:
  assumes "a < KERNBASE" "a mod PGSIZE = 0" "lookup m pd a = None"
  shows "unmap_range (lookup m pd) (a + PGSIZE) b = unmap_range (lookup m pd) a b"
proof -
  have "lookup m pd w = None" if "PGROUNDDOWN w = a" for w
    using that assms same_page_cong [of w a m pd] by (simp add: PGROUNDDOWN_aligned)
  then show ?thesis by (auto simp: unmap_range_def fun_eq_iff next_page [OF assms(1,2)])
qed

lemma unmap_range_step:
  assumes "a < KERNBASE" "a mod PGSIZE = 0" "a < b"
  shows "unmap_range (unmap_at l a) (a + PGSIZE) b = unmap_range l a b"
  using assms by (auto simp: unmap_range_def unmap_at_def fun_eq_iff next_page PGROUNDDOWN_aligned)

lemma unmap_range_table:
  assumes a: "a < KERNBASE" "a mod PGSIZE = 0" "\<not> present m pd a"
  shows "unmap_range (lookup m pd) (PGADDR (PDX a + 1) 0 0) b = unmap_range (lookup m pd) a b"
proof
  fix w
  let ?n = "PGADDR (PDX a + 1) 0 0"
  have n: "unat a < unat ?n" unfolding next_table [OF a(1)] by simp
  have "lookup m pd w = None" if "a \<le> PGROUNDDOWN w" "\<not> ?n \<le> PGROUNDDOWN w"
  proof -
    have "unat a \<le> unat (PGROUNDDOWN w)" "unat (PGROUNDDOWN w) < (unat a div 4194304 + 1) * 4194304"
      using that by (simp_all add: word_le_nat_alt next_table [OF a(1)])
    then have "unat a div 4194304 \<le> unat (PGROUNDDOWN w) div 4194304"
      "unat (PGROUNDDOWN w) div 4194304 < unat a div 4194304 + 1"
      by - (erule div_le_mono, erule less_mult_imp_div_less)
    then have "unat (PGROUNDDOWN w) div 4194304 = unat a div 4194304" by simp
    then have "PDX (PGROUNDDOWN w) = PDX a" by (simp add: word_unat_eq_iff unat_PDX)
    then have "\<not> present m pd (PGROUNDDOWN w)" using a(3) PDX_cong(2) by blast
    then have "lookup m pd (PGROUNDDOWN w) = None" by (simp add: lookup_def)
    then show ?thesis using same_page_cong [of "PGROUNDDOWN w" w m pd] by simp
  qed
  with n show "unmap_range (lookup m pd) ?n b w = unmap_range (lookup m pd) a b w"
    by (auto simp: unmap_range_def word_le_nat_alt)
qed

lemma deallocuvm_loop_run:
  assumes "kmem_inv s xs" "as_wf s xs pd" "a mod PGSIZE = 0" "oldsz \<le> KERNBASE"
  shows "\<exists>s' xs'. deallocuvm_loop pd oldsz a s = Ret () s' \<and> vm_step pd {} s xs s' xs' \<and>
    lookup (mem s') pd = unmap_range (lookup (mem s) pd) a oldsz \<and>
    frames (mem s') pd \<subseteq> frames (mem s) pd \<and> mem_same (frames (mem s') pd) s s'"
  using assms
proof (induction pd oldsz a s arbitrary: xs rule: deallocuvm_loop.induct)
  case (1 pd oldsz a s)
  note inv = "1.prems"(1) and wf = "1.prems"(2) and al = "1.prems"(3)
  show ?case
  proof (cases "a < oldsz")
    case False
    then have "unmap_range (lookup (mem s) pd) a oldsz = lookup (mem s) pd"
      by (auto simp: unmap_range_def fun_eq_iff)
    with False inv wf show ?thesis
      by (intro exI [of _ s] exI [of _ xs]) (simp add: deallocuvm_loop.simps vm_step_refl)
  next
    case True
    with "1.prems"(4) have a: "a < KERNBASE" by simp
    have gt: "\<not> a + PGSIZE \<le> a" using next_page(1) [OF a al] by (simp add: word_le_nat_alt)
    show ?thesis
    proof (cases rule: dealloc_page_run [OF inv wf a])
      case 1
      let ?n = "PGADDR (PDX a + 1) 0 0"
      have n: "unat a < unat ?n" "4096 dvd unat ?n" unfolding next_table [OF a] by simp_all
      with "1.IH" [of "?n - PGSIZE" s xs] True 1(2) inv wf "1.prems"(4)
      have "\<exists>s' xs'. deallocuvm_loop pd oldsz ?n s = Ret () s' \<and> vm_step pd {} s xs s' xs' \<and>
        lookup (mem s') pd = unmap_range (lookup (mem s) pd) ?n oldsz \<and>
        frames (mem s') pd \<subseteq> frames (mem s) pd \<and> mem_same (frames (mem s') pd) s s'"
        by (simp add: word_le_nat_alt aligned_unat)
      with True 1(2) n show ?thesis
        by (simp add: deallocuvm_loop.simps [of pd oldsz a s] unmap_range_table [OF a al 1(1)] word_le_nat_alt)
    next
      case 2
      with "1.IH" [of a s xs] True gt inv wf "1.prems"(4) next_page(2) [OF a al]
      show ?thesis
        by (simp add: deallocuvm_loop.simps [of pd oldsz a s] unmap_range_skip [OF a al 2(1)])
    next
      case (3 pte t)
      have t: "kmem_inv t (frame pte # xs)" "as_wf t (frame pte # xs) pd" using 3(3) by (simp_all add: vm_step_def)
      from "1.IH" [OF _ 3(2) gt t next_page(2) [OF a al] "1.prems"(4)] True
      obtain s' xs' where r: "deallocuvm_loop pd oldsz (a + PGSIZE) t = Ret () s'"
        "vm_step pd {} t (frame pte # xs) s' xs'" "lookup (mem s') pd = unmap_range (lookup (mem t) pd) (a + PGSIZE) oldsz"
        "frames (mem s') pd \<subseteq> frames (mem t) pd" "mem_same (frames (mem s') pd) t s'" by blast
      have "mem_same (frames (mem s') pd) s s'"
        by (rule mem_same_trans [OF mem_same_mono [OF 3(6) r(4)] r(5)]) simp
      moreover have "vm_step pd {} s xs s' xs'" using vm_step_trans [OF 3(3) r(2)] by simp
      ultimately show ?thesis
        using True 3(2,5) gt r(1,3,4) unmap_range_step [OF a al True]
        by (intro exI [of _ s'] exI [of _ xs']) (auto simp: deallocuvm_loop.simps [of pd oldsz a s] 3(4))
    qed
  qed
qed

lemma deallocuvm_run:
  assumes "kmem_inv s xs" "as_wf s xs pd" "oldsz \<le> KERNBASE" "newsz < oldsz"
  shows "\<exists>s' xs'. deallocuvm pd oldsz newsz s = Ret newsz s' \<and> vm_step pd {} s xs s' xs' \<and>
    lookup (mem s') pd = unmap_range (lookup (mem s) pd) (PGROUNDUP newsz) oldsz \<and>
    frames (mem s') pd \<subseteq> frames (mem s) pd \<and> mem_same (frames (mem s') pd) s s'"
  using deallocuvm_loop_run [OF assms(1,2) PGROUNDUP_aligned assms(3), of newsz] assms(4)
  by (auto simp: deallocuvm_def bindK_def)

section \<open>Pages in the hands of the caller\<close>

text \<open>
  A page \<open>m\<close> that \<open>kalloc\<close> has returned is neither free nor part of the address space, and the
  caller may write to it.
\<close>

lemma as_wf_list:
  assumes "as_wf s ys pd" "set xs \<inter> owned (mem s) pd = {}"
  shows "as_wf s xs pd"
  unfolding as_wf_def by (intro conjI as_wf_parts [OF assms(1)] assms(2))

lemma take_page:
  assumes inv: "kmem_inv s (m # ys)" and wf: "as_wf s (m # ys) pd"
    and t: "t = s\<lparr>freelist := load32 (mem s) m, mem := mm\<rparr>"
    and same: "\<forall>x. PGROUNDDOWN x \<noteq> m \<longrightarrow> mm x = mem s x"
  shows "kmem_inv t ys" "as_wf t ys pd" "lookup (mem t) pd = lookup (mem s) pd" "owned (mem t) pd = owned (mem s) pd"
    "frames (mem t) pd = frames (mem s) pd" "m \<notin> set ys \<union> owned (mem s) pd" "page_ok t m"
    "mem_same (- {m}) s t"
proof -
  have m: "m \<notin> owned (mem s) pd" "m \<notin> set ys" "page_ok s m"
    using inv wf by (auto simp: kmem_inv_def as_wf_def)
  then have pt: "pt_same pd (mem s) (mem t)"
    using as_wfD(2) [OF wf] unfolding pt_same_def t
    by (auto intro!: same [rule_format] simp: owned_def)
  show "m \<notin> set ys \<union> owned (mem s) pd" "page_ok t m" using m by (simp_all add: t)
  show "as_wf t ys pd" by (rule as_wf_same [OF pt _ wf]) (auto simp: t)
  show "lookup (mem t) pd = lookup (mem s) pd" "owned (mem t) pd = owned (mem s) pd"
    "frames (mem t) pd = frames (mem s) pd" by (simp_all add: lookup_same [OF pt] owned_same [OF pt])
  have "kmem_inv (s\<lparr>freelist := load32 (mem s) m\<rparr>) ys" using kalloc_page(2) [OF inv] .
  then have "kmem_inv ((s\<lparr>freelist := load32 (mem s) m\<rparr>)\<lparr>mem := mm\<rparr>) ys"
    by (rule kmem_inv_mem) (use m(2) in \<open>auto intro: same [rule_format]\<close>)
  then show "kmem_inv t ys" by (simp add: t)
  show "mem_same (- {m}) s t" using same by (simp add: mem_same_def t)
qed

lemma give_page:
  assumes inv: "kmem_inv u zs" and wf: "as_wf u zs pd" and m: "page_ok u m" "m \<notin> set zs \<union> owned (mem u) pd"
  shows "kfree m u = Ret () (freed m u)" "kmem_inv (freed m u) (m # zs)" "as_wf (freed m u) (m # zs) pd"
    "lookup (mem (freed m u)) pd = lookup (mem u) pd" "owned (mem (freed m u)) pd = owned (mem u) pd"
    "frames (mem (freed m u)) pd = frames (mem u) pd" "mem_same (- {m}) u (freed m u)"
proof -
  note al = page_ok_aligned [OF m(1)]
  have same: "mem (freed m u) x = mem u x" if "PGROUNDDOWN x \<noteq> m" for x
    using that by (simp add: freed_def store32_other_page page_aligned4 al PGROUNDDOWN_aligned memset_page)
  have pt: "pt_same pd (mem u) (mem (freed m u))"
    unfolding pt_same_def by (intro conjI allI impI same as_wfD(2) [OF wf]) (use m(2) in \<open>auto simp: owned_def\<close>)
  show "kfree m u = Ret () (freed m u)" using inv m(1) by (simp add: kfree_run kmem_inv_def)
  show "kmem_inv (freed m u) (m # zs)" using kmem_inv_freed [OF inv m(1)] m(2) by simp
  have "as_wf (freed m u) zs pd" by (rule as_wf_same [OF pt _ wf]) simp_all
  then show "as_wf (freed m u) (m # zs) pd"
    by (rule as_wf_list) (use m(2) as_wf_parts(2) [OF wf] in \<open>auto simp: owned_same [OF pt]\<close>)
  show "lookup (mem (freed m u)) pd = lookup (mem u) pd" "owned (mem (freed m u)) pd = owned (mem u) pd"
    "frames (mem (freed m u)) pd = frames (mem u) pd" by (simp_all add: lookup_same [OF pt] owned_same [OF pt])
  show "mem_same (- {m}) u (freed m u)" using same by (simp add: mem_same_def)
qed

text \<open>Taking a page, working on the address space, and giving the page back.\<close>

lemma vm_step_take_give:
  assumes inv: "kmem_inv s (m # ys)" and wf: "as_wf s (m # ys) pd"
    and t: "t = s\<lparr>freelist := load32 (mem s) m, mem := mm\<rparr>"
    and same: "\<forall>x. PGROUNDDOWN x \<noteq> m \<longrightarrow> mm x = mem s x"
    and st: "vm_step pd {} t ys u zs"
  shows "vm_step pd {} s (m # ys) (freed m u) (m # zs)" "kfree m u = Ret () (freed m u)"
    "lookup (mem (freed m u)) pd = lookup (mem u) pd"
    "mem_same (frames (mem u) pd) t u \<Longrightarrow> mem_same (frames (mem (freed m u)) pd) s (freed m u)"
proof -
  note T = take_page [OF inv wf t same]
  have pg: "set zs \<union> owned (mem u) pd = set ys \<union> owned (mem s) pd" using st T(4) by (simp add: vm_step_def)
  have m: "page_ok u m" "m \<notin> set zs \<union> owned (mem u) pd"
    using T(6,7) unfolding pg vm_step_fields(1) [OF st] by simp_all
  have u: "kmem_inv u zs" "as_wf u zs pd" "u = t\<lparr>mem := mem u, freelist := freelist u\<rparr>"
    "mem_same (- (set ys \<union> owned (mem s) pd \<union> {})) t u" using st T(4) by (simp_all add: vm_step_def)
  note G = give_page [OF u(1,2) m]
  show "kfree m u = Ret () (freed m u)" "lookup (mem (freed m u)) pd = lookup (mem u) pd" by (fact G(1) G(4))+
  have fm: "frames (mem u) pd \<subseteq> - {m}" using m(2) by (auto simp: owned_def)
  show "mem_same (frames (mem (freed m u)) pd) s (freed m u)" if "mem_same (frames (mem u) pd) t u"
    using mem_same_mono [OF T(8) fm] mem_same_mono [OF G(7) fm] that
    unfolding G(6) by (auto intro: mem_same_trans)
  have "freed m u = s\<lparr>mem := mem (freed m u), freelist := freelist (freed m u)\<rparr>"
    unfolding freed_def by (subst u(3), subst (2) u(3)) (simp add: t)
  moreover have "mem_same (- (set (m # ys) \<union> owned (mem s) pd \<union> {})) s (freed m u)"
    using T(8) u(4) G(7) by (auto simp: mem_same_def)
  ultimately show "vm_step pd {} s (m # ys) (freed m u) (m # zs)"
    using G(2,3) pg by (simp add: vm_step_def G(5))
qed

text \<open>Mapping such a page into the user part of the address space.\<close>

lemma take_map:
  assumes inv: "kmem_inv s (m # ys)" and wf: "as_wf s (m # ys) pd"
    and t: "t = s\<lparr>freelist := load32 (mem s) m, mem := mm\<rparr>"
    and same: "\<forall>x. PGROUNDDOWN x \<noteq> m \<longrightarrow> mm x = mem s x"
    and a: "a < KERNBASE" "lookup (mem s) pd a = None" and fl: "fl < PGSIZE"
  obtains (full) "ys = []" "map_page pd a (V2P m) fl t = Ret (-1) t"
  | (ok) s' xs' v where "map_page pd a (V2P m) fl t = Ret 0 s'" "v = V2P m OR fl OR PTE_P" "frame v = m"
      "vm_step pd {} s (m # ys) s' xs'" "lookup (mem s') pd = map_at (lookup (mem s) pd) a v"
      "frames (mem s) pd \<subseteq> frames (mem s') pd" "m \<in> frames (mem s') pd"
      "mem_same (frames (mem s) pd) s s'" "mem_same {m} t s'"
proof -
  note T = take_page [OF inv wf t same]
  let ?v = "V2P m OR fl OR PTE_P"
  have fl1: "fl OR PTE_P < PGSIZE"
  proof -
    have "take_bit 12 (fl OR PTE_P) = fl OR PTE_P"
      using take_bit_12_small [OF fl] by (simp add: take_bit_or)
    then show ?thesis using take_bit_12_less [of "fl OR PTE_P"] by simp
  qed
  have f: "frame ?v = m"
    using flags_bits(1) [OF aligned_V2P [OF page_ok_aligned [OF T(7)]] fl1]
    by (simp add: frame_def or.assoc)
  have user: "page_ok t (frame ?v) \<and> frame ?v \<notin> set ys \<union> owned (mem t) pd"
    using T(4,6,7) by (simp add: f)
  have la: "lookup (mem t) pd a = None" using a(2) by (simp add: T(3))
  show ?thesis
  proof (cases rule: map_page_run [OF T(1,2) la refl, where pa = "V2P m" and perm = fl])
    case 1
    show ?case by (fact user)
  next
    case 2
    then show ?thesis by (rule full)
  next
    case (3 s' xs')
    have st: "vm_step pd {m} t ys s' xs'" using 3(2) a(1) by (simp add: f)
    have ms: "mem_same (- (set (m # ys) \<union> owned (mem s) pd \<union> {})) s s'"
    proof (rule mem_same_trans)
      show "mem_same (- (set (m # ys) \<union> owned (mem s) pd \<union> {})) s t"
        by (rule mem_same_mono [OF T(8)]) auto
      show "mem_same (- (set ys \<union> owned (mem t) pd \<union> {m})) t s'" using st by (simp add: vm_step_def)
    qed (auto simp: T(4))
    have e: "s' = t\<lparr>mem := mem s', freelist := freelist s'\<rparr>" using st by (simp add: vm_step_def)
    have "s' = s\<lparr>mem := mem s', freelist := freelist s'\<rparr>" by (subst e) (simp add: t)
    then have st': "vm_step pd {} s (m # ys) s' xs'"
      using st ms by (simp add: vm_step_def T(4) insert_commute)
    have "frames (mem s) pd \<subseteq> - {m}" using T(6) by (auto simp: owned_def)
    then have fr: "mem_same (frames (mem s) pd) s s'"
      using T(8) 3(5) by (auto simp: T(5) intro: mem_same_trans mem_same_mono)
    have "{m} \<subseteq> - insert pd (set ys \<union> tables (mem t) pd)"
      using T(4,6) by (auto simp: owned_def)
    with 3(6) have mm: "mem_same {m} t s'" by (rule mem_same_mono)
    have "lookup (mem s') pd a = Some ?v" by (simp add: 3(3) map_at_def)
    then have "m \<in> frames (mem s') pd"
      unfolding frames_def using a(1) f by (intro CollectI exI [of _ a] exI [of _ ?v]) simp
    with ok [OF 3(1) refl f st' _ _ _ fr mm] 3(3,4) T(3,5) show ?thesis by simp
  qed
qed

section \<open>Growing an address space\<close>

definition zero_page :: "bmem \<Rightarrow> u32 \<Rightarrow> bool" where
  "zero_page m p \<longleftrightarrow> (\<forall>x. PGROUNDDOWN x = p \<longrightarrow> m x = 0)"

text \<open>The pages \<open>as\<close> are new, writable by the user and full of zeroes; the others are as before.\<close>

definition grown :: "(u32 \<Rightarrow> u32 option) \<Rightarrow> u32 set \<Rightarrow> bmem \<Rightarrow> u32 \<Rightarrow> bool" where
  "grown l as m pd \<longleftrightarrow> (\<forall>w. if PGROUNDDOWN w \<in> as
     then \<exists>pte. lookup m pd w = Some pte \<and> PTE_FLAGS pte = PTE_U OR PTE_W OR PTE_P \<and> zero_page m (frame pte)
     else lookup m pd w = l w)"

lemma memset_zero_page: "m mod PGSIZE = 0 \<Longrightarrow> zero_page (memset mm m 0 PGSIZE) m"
  by (simp add: zero_page_def memset_page)

lemma zero_page_same:
  assumes "zero_page (mem s) p" "mem_same P s s'" "p \<in> P"
  shows "zero_page (mem s') p"
  using assms by (auto simp: zero_page_def mem_same_def)

lemma unmap_range_map_at:
  assumes "a mod PGSIZE = 0" "A \<le> a" "a < b"
  shows "unmap_range (map_at l a v) A b = unmap_range l A b"
  using assms by (auto simp: unmap_range_def map_at_def fun_eq_iff PGROUNDDOWN_aligned)

lemma frames_unmap_range: "lookup m' pd = unmap_range (lookup m pd) A b \<Longrightarrow> frames m' pd \<subseteq> frames m pd"
  unfolding frames_def unmap_range_def by (auto split: if_splits)

lemma grown_step:
  assumes g: "grown (lookup (mem t) pd) as (mem s') pd" and a: "a mod PGSIZE = 0" "a \<notin> as"
    and l: "lookup (mem t) pd = map_at l a v" and f: "PTE_FLAGS v = PTE_U OR PTE_W OR PTE_P"
    and z: "zero_page (mem t) (frame v)" "mem_same (frames (mem t) pd) t s'" "frame v \<in> frames (mem t) pd"
  shows "grown l (insert a as) (mem s') pd"
  unfolding grown_def
proof
  fix w
  note G = g [unfolded grown_def, rule_format, of w]
  have zp: "zero_page (mem s') (frame v)" by (rule zero_page_same [OF z])
  show "if PGROUNDDOWN w \<in> insert a as
     then \<exists>pte. lookup (mem s') pd w = Some pte \<and> PTE_FLAGS pte = PTE_U OR PTE_W OR PTE_P \<and> zero_page (mem s') (frame pte)
     else lookup (mem s') pd w = l w"
  proof (cases "PGROUNDDOWN w = a")
    case True
    with G a have "lookup (mem s') pd w = Some v" by (simp add: l map_at_def PGROUNDDOWN_aligned)
    with True f zp show ?thesis by simp
  next
    case False
    with G a show ?thesis by (auto simp: l map_at_def PGROUNDDOWN_aligned)
  qed
qed

lemma alloc_flags:
  assumes "m mod PGSIZE = 0"
  shows "PTE_FLAGS (V2P m OR 6 OR PTE_P) = 7"
  using flags_bits(2) [OF aligned_V2P [OF assms], of 7] by (simp add: or.assoc)

lemma allocuvm_loop_run:
  assumes "kmem_inv s xs" "as_wf s xs pd" "oldsz < newsz" "newsz < KERNBASE" "distinct as"
    and "\<forall>a \<in> set as. a mod PGSIZE = 0 \<and> lookup (mem s) pd a = None \<and> PGROUNDUP oldsz \<le> a \<and> a < newsz"
  shows "\<exists>r s' xs'. allocuvm_loop as pd oldsz newsz s = Ret r s' \<and> vm_step pd {} s xs s' xs' \<and>
    (r = newsz \<and> grown (lookup (mem s) pd) (set as) (mem s') pd \<and> frames (mem s) pd \<subseteq> frames (mem s') pd \<and>
       mem_same (frames (mem s) pd) s s' \<or>
     r = 0 \<and> lookup (mem s') pd = unmap_range (lookup (mem s) pd) (PGROUNDUP oldsz) newsz \<and>
       mem_same (frames (mem s') pd) s s')"
  using assms
proof (induction as arbitrary: s xs)
  case Nil
  then show ?case
    by (intro exI [of _ newsz] exI [of _ s] exI [of _ xs]) (simp add: vm_step_refl grown_def)
next
  case (Cons a as)
  note inv = Cons.prems(1) and wf = Cons.prems(2)
  have a: "a mod PGSIZE = 0" "lookup (mem s) pd a = None" "PGROUNDUP oldsz \<le> a" "a < newsz" "a < KERNBASE"
    using Cons.prems(4,6) by auto
  have nz: "newsz \<le> KERNBASE" using Cons.prems(4) by simp
  from inv show ?case
  proof (cases rule: kalloc_cases)
    case none
    from deallocuvm_run [OF inv wf nz Cons.prems(3)] none(2) show ?thesis
      by (fastforce simp: bindK_def)
  next
    case (page m ys)
    let ?t = "s\<lparr>freelist := load32 (mem s) m, mem := memset (mem s) m 0 PGSIZE\<rparr>"
    have al: "m mod PGSIZE = 0" using page(5) by (rule page_ok_aligned)
    have same: "\<forall>x. PGROUNDDOWN x \<noteq> m \<longrightarrow> memset (mem s) m 0 PGSIZE x = mem s x"
      by (simp add: memset_page al)
    note mys = inv [unfolded page(1)] wf [unfolded page(1)] and k = page(2,3)
    show ?thesis
    proof (cases rule: take_map [OF mys refl same a(5,2), of 6])
      case 1
      then show ?case by simp
    next
      case 2
      note T = take_page [OF mys refl same]
      from deallocuvm_run [OF T(1,2) nz Cons.prems(3)] obtain u zs where
        u: "deallocuvm pd newsz oldsz ?t = Ret oldsz u" "vm_step pd {} ?t ys u zs"
          "lookup (mem u) pd = unmap_range (lookup (mem s) pd) (PGROUNDUP oldsz) newsz"
          "frames (mem u) pd \<subseteq> frames (mem s) pd" "mem_same (frames (mem u) pd) ?t u"
        unfolding T(3,5) by blast
      note G = vm_step_take_give [OF mys refl same u(2)]
      from G(4) [OF u(5)] G(1) k 2 u(1,3) G(2,3) show ?thesis unfolding page(1)
        by (intro exI [of _ 0] exI [of _ "freed m u"] exI [of _ "m # zs"])
           (simp add: bindK_def mappages_one [OF a(1)])
    next
      case (3 t ys' v)
      have t: "kmem_inv t ys'" "as_wf t ys' pd" using 3(4) by (simp_all add: vm_step_def)
      have "\<forall>b \<in> set as. b mod PGSIZE = 0 \<and> lookup (mem t) pd b = None \<and> PGROUNDUP oldsz \<le> b \<and> b < newsz"
        using Cons.prems(5,6) a(1) by (auto simp: 3(5) map_at_def PGROUNDDOWN_aligned)
      from Cons.IH [OF t Cons.prems(3,4) _ this] Cons.prems(5) obtain r s' xs' where
        r: "allocuvm_loop as pd oldsz newsz t = Ret r s'" "vm_step pd {} t ys' s' xs'"
        "r = newsz \<and> grown (lookup (mem t) pd) (set as) (mem s') pd \<and> frames (mem t) pd \<subseteq> frames (mem s') pd \<and>
           mem_same (frames (mem t) pd) t s' \<or>
         r = 0 \<and> lookup (mem s') pd = unmap_range (lookup (mem t) pd) (PGROUNDUP oldsz) newsz \<and>
           mem_same (frames (mem s') pd) t s'" by auto
      have run: "allocuvm_loop (a # as) pd oldsz newsz s = Ret r s'"
        using k 3(1) r(1) by (simp add: bindK_def mappages_one [OF a(1)])
      have st: "vm_step pd {} s xs s' xs'" using vm_step_trans [OF 3(4) r(2)] page(1) by simp
      show ?thesis
      proof (cases "r = newsz \<and> grown (lookup (mem t) pd) (set as) (mem s') pd \<and>
          frames (mem t) pd \<subseteq> frames (mem s') pd \<and> mem_same (frames (mem t) pd) t s'")
        case True
        have "zero_page (mem t) m"
          by (rule zero_page_same [OF _ 3(9)]) (simp_all add: memset_zero_page al)
        with True 3(2,3,5,7) alloc_flags [OF al] a(1) Cons.prems(5)
        have "grown (lookup (mem s) pd) (set (a # as)) (mem s') pd"
          using grown_step [of t pd "set as" s' a "lookup (mem s) pd" v] by simp
        moreover have "mem_same (frames (mem s) pd) s s'"
          using 3(6,8) True by (auto intro: mem_same_trans)
        ultimately show ?thesis using run st True 3(6) by blast
      next
        case False
        with r(3) have f: "r = 0" "lookup (mem s') pd = unmap_range (lookup (mem t) pd) (PGROUNDUP oldsz) newsz"
          "mem_same (frames (mem s') pd) t s'" by auto
        have l: "lookup (mem s') pd = unmap_range (lookup (mem s) pd) (PGROUNDUP oldsz) newsz"
          using unmap_range_map_at [OF a(1,3,4)] by (simp add: f(2) 3(5))
        have "mem_same (frames (mem s') pd) s s'"
          by (rule mem_same_trans [OF mem_same_mono [OF 3(8) frames_unmap_range [OF l]] f(3)]) simp
        with run st f(1) l show ?thesis by blast
      qed
    qed
  qed
qed

text \<open>The loop variable of \<^verbatim>\<open>for(; a < b; a += PGSIZE)\<close>.\<close>

lemma page_range_unfold:
  assumes "b \<le> KERNBASE"
  shows "page_range a b = (if a < b then a # page_range (a + PGSIZE) b else [])"
proof (cases "a < b")
  case True
  then have u: "unat (a + PGSIZE) = unat a + 4096"
    using assms by (simp add: unat_word_ariths word_less_nat_alt word_le_nat_alt)
  have "unat b - unat a + 4095 = Suc (unat b - unat a - 1) + 4095" using True by (simp add: word_less_nat_alt)
  then have "(unat b - unat a + 4095) div 4096 = Suc ((unat b - unat (a + PGSIZE) + 4095) div 4096)"
    unfolding u by (cases "unat b - unat a \<le> 4096") (simp_all add: div_eq_0_iff le_div_geq)
  with True show ?thesis unfolding page_range_def by (simp only: pages_from.simps if_True)
next
  case False
  then show ?thesis by (simp add: page_range_def word_less_nat_alt)
qed

lemma page_range_set:
  assumes "b \<le> KERNBASE" "a mod PGSIZE = 0"
  shows "set (page_range a b) = {p. p mod PGSIZE = 0 \<and> a \<le> p \<and> p < b} \<and> distinct (page_range a b)"
  using assms(2)
proof (induction "unat b - unat a" arbitrary: a rule: less_induct)
  case (less a)
  show ?case
  proof (cases "a < b")
    case True
    then have k: "a < KERNBASE" using assms(1) by simp
    have np: "unat (a + PGSIZE) = unat a + 4096" "(a + PGSIZE) mod PGSIZE = 0"
      by (rule next_page [OF k less.prems])+
    have ge: "a + PGSIZE \<le> p \<longleftrightarrow> a \<le> p \<and> p \<noteq> a" if "p mod PGSIZE = 0" for p
      using next_page(3) [OF k less.prems, of p] that by (simp add: PGROUNDDOWN_aligned)
    have "unat b - unat (a + PGSIZE) < unat b - unat a" using True np by (simp add: word_less_nat_alt)
    note IH = less.hyps [OF this np(2)]
    have "{p. p mod PGSIZE = 0 \<and> a \<le> p \<and> p < b} = insert a {p. p mod PGSIZE = 0 \<and> a + PGSIZE \<le> p \<and> p < b}"
    proof (rule set_eqI)
      fix p
      show "p \<in> {p. p mod PGSIZE = 0 \<and> a \<le> p \<and> p < b} \<longleftrightarrow>
          p \<in> insert a {p. p mod PGSIZE = 0 \<and> a + PGSIZE \<le> p \<and> p < b}"
        unfolding mem_Collect_eq insert_iff using ge [of p] True less.prems order_refl [of a] by metis
    qed
    moreover have "page_range a b = a # page_range (a + PGSIZE) b"
      using True page_range_unfold [OF assms(1), of a] by simp
    moreover have "\<not> a + PGSIZE \<le> a" using ge [OF less.prems] by simp
    ultimately show ?thesis using IH by simp
  next
    case False
    then show ?thesis by (subst (1 2) page_range_unfold [OF assms(1)]) auto
  qed
qed

lemma unmap_range_unmapped:
  assumes "\<forall>w. A \<le> PGROUNDDOWN w \<and> PGROUNDDOWN w < b \<longrightarrow> l w = None"
  shows "unmap_range l A b = l"
  using assms by (auto simp: unmap_range_def fun_eq_iff)

lemma allocuvm_run:
  assumes inv: "kmem_inv s xs" and wf: "as_wf s xs pd" and sz: "oldsz \<le> newsz" "newsz < KERNBASE"
    and free: "\<forall>w. PGROUNDUP oldsz \<le> PGROUNDDOWN w \<and> PGROUNDDOWN w < newsz \<longrightarrow> lookup (mem s) pd w = None"
  shows "\<exists>r s' xs'. allocuvm pd oldsz newsz s = Ret r s' \<and> vm_step pd {} s xs s' xs' \<and>
    mem_same (frames (mem s) pd) s s' \<and>
    (r = newsz \<and> grown (lookup (mem s) pd) {p. p mod PGSIZE = 0 \<and> PGROUNDUP oldsz \<le> p \<and> p < newsz} (mem s') pd \<or>
     r = 0 \<and> lookup (mem s') pd = lookup (mem s) pd)"
proof -
  have nz: "newsz \<le> KERNBASE" using sz(2) by simp
  note R = page_range_set [OF nz PGROUNDUP_aligned, of oldsz]
  show ?thesis
  proof (cases "oldsz < newsz")
    case True
    have "\<forall>a \<in> set (page_range (PGROUNDUP oldsz) newsz).
        a mod PGSIZE = 0 \<and> lookup (mem s) pd a = None \<and> PGROUNDUP oldsz \<le> a \<and> a < newsz"
      using free R by (auto simp: PGROUNDDOWN_aligned)
    from allocuvm_loop_run [OF inv wf True sz(2) conjunct2 [OF R] this]
    obtain r s' xs' where r: "allocuvm_loop (page_range (PGROUNDUP oldsz) newsz) pd oldsz newsz s = Ret r s'"
      "vm_step pd {} s xs s' xs'"
      "r = newsz \<and> grown (lookup (mem s) pd) (set (page_range (PGROUNDUP oldsz) newsz)) (mem s') pd \<and>
         frames (mem s) pd \<subseteq> frames (mem s') pd \<and> mem_same (frames (mem s) pd) s s' \<or>
       r = 0 \<and> lookup (mem s') pd = unmap_range (lookup (mem s) pd) (PGROUNDUP oldsz) newsz \<and>
         mem_same (frames (mem s') pd) s s'" by blast
    have "frames (mem s') pd = frames (mem s) pd" if "lookup (mem s') pd = lookup (mem s) pd"
      by (simp add: frames_def that)
    with r sz R unmap_range_unmapped [OF free] show ?thesis
      by (intro exI [of _ r] exI [of _ s'] exI [of _ xs']) (auto simp: allocuvm_def)
  next
    case False
    with sz(1) have eq: "newsz = oldsz" by simp
    have "unat oldsz \<le> unat (PGROUNDUP oldsz)"
      using sz eq unat_PGROUNDUP [of oldsz] div_mult_mod_eq [of "unat oldsz + 4095" 4096]
        mod_less_divisor [of 4096 "unat oldsz + 4095"] by (simp add: word_less_nat_alt)
    then have "page_range (PGROUNDUP oldsz) oldsz = []"
      by (subst page_range_unfold) (use nz eq in \<open>auto simp: word_less_nat_alt\<close>)
    then have "allocuvm pd oldsz newsz s = Ret newsz s" using sz(2) eq by (simp add: allocuvm_def not_le [symmetric])
    moreover have e: "{p. p mod PGSIZE = 0 \<and> PGROUNDUP oldsz \<le> p \<and> p < newsz} = {}"
      using \<open>page_range (PGROUNDUP oldsz) oldsz = []\<close> R eq by simp
    have "grown (lookup (mem s) pd) {} (mem s) pd" by (simp add: grown_def)
    ultimately show ?thesis unfolding e using vm_step_refl [OF inv wf] mem_same_refl by blast
  qed
qed

end
