(* ===== verification/Vm_Space.thy ===== *)
theory Vm_Space
  imports Vm_Props
begin

text \<open>
  Whole address spaces: \<open>freevm\<close> gives back every page, \<open>setupkvm\<close> builds the kernel part,
  \<open>copyuvm\<close> makes a copy for a child process.
\<close>

section \<open>freevm\<close>

definition tab_at :: "bmem \<Rightarrow> u32 \<Rightarrow> nat \<Rightarrow> u32" where
  "tab_at m pd i = P2V (PTE_ADDR (load32 m (pd + 4 * of_nat i)))"

definition has_tab :: "bmem \<Rightarrow> u32 \<Rightarrow> nat \<Rightarrow> bool" where
  "has_tab m pd i \<longleftrightarrow> load32 m (pd + 4 * of_nat i) AND PTE_P \<noteq> 0"

lemma PDX_of_index:
  assumes "i < 1024"
  shows "PDX (of_nat i * 4194304) = of_nat i"
proof -
  have "unat (of_nat i * 4194304 :: u32) = i * 4194304"
    using assms by (simp add: unat_word_ariths unat_of_nat_u32)
  then have "unat (PDX (of_nat i * 4194304)) = i" by (simp add: unat_PDX)
  then show ?thesis using assms by (simp add: word_unat_eq_iff unat_of_nat_u32)
qed

lemma index_PDX:
  "present m pd va \<longleftrightarrow> has_tab m pd (unat (PDX va))" "pgtab_of m pd va = tab_at m pd (unat (PDX va))"
  by (simp_all add: present_def has_tab_def pgtab_of_def tab_at_def pde_at_def)

lemma tables_index: "tables m pd = {tab_at m pd i | i. i < 1024 \<and> has_tab m pd i}"
proof (intro equalityI subsetI)
  fix x assume "x \<in> tables m pd"
  then obtain va where "x = pgtab_of m pd va" "present m pd va" by (auto simp: tables_def)
  moreover have "unat (PDX va) < 1024" using PDX_less [of va] by (simp add: word_less_nat_alt)
  ultimately show "x \<in> {tab_at m pd i | i. i < 1024 \<and> has_tab m pd i}"
    by (auto simp: index_PDX)
next
  fix x assume "x \<in> {tab_at m pd i | i. i < 1024 \<and> has_tab m pd i}"
  then obtain i where i: "x = tab_at m pd i" "i < 1024" "has_tab m pd i" by blast
  have "unat (PDX (of_nat i * 4194304)) = i" using i(2) by (simp add: PDX_of_index unat_of_nat_u32)
  with i have "x = pgtab_of m pd (of_nat i * 4194304)" "present m pd (of_nat i * 4194304)"
    by (simp_all add: index_PDX)
  then show "x \<in> tables m pd" by (auto simp: tables_def)
qed

lemma tab_at_inj:
  assumes "as_wf s xs pd" "i < 1024" "j < 1024" "has_tab (mem s) pd i" "has_tab (mem s) pd j"
    and "tab_at (mem s) pd i = tab_at (mem s) pd j"
  shows "i = j"
proof -
  have u: "unat (PDX (of_nat k * 4194304)) = k" if "k < 1024" for k
    using that by (simp add: PDX_of_index unat_of_nat_u32)
  have "PDX (of_nat i * 4194304) = PDX (of_nat j * 4194304)"
    by (rule as_wfD(7) [OF assms(1)]) (use assms u in \<open>simp_all add: index_PDX\<close>)
  then show ?thesis using u [OF assms(2)] u [OF assms(3)] by metis
qed

lemma load_pd_same:
  assumes "pd mod PGSIZE = 0" "i < 1024" "mem_same {pd} s s'"
  shows "load32 (mem s') (pd + 4 * of_nat i) = load32 (mem s) (pd + 4 * of_nat i)"
proof -
  have "(of_nat i :: u32) < 1024" using assms(2) by (simp add: word_less_nat_alt unat_of_nat_u32)
  note e = entry_addr [OF assms(1) this]
  from assms(3) show ?thesis by (intro load32_cong) (simp_all add: e mem_same_def)
qed

text \<open>The loop of \<open>freevm\<close> over the directory, which itself is not written to.\<close>

lemma free_tabs:
  assumes "kmem_inv s ys" "pd mod PGSIZE = 0" "distinct js" "\<forall>j \<in> set js. j < 1024"
    and "\<forall>j \<in> set js. has_tab (mem s) pd j \<longrightarrow>
      page_ok s (tab_at (mem s) pd j) \<and> tab_at (mem s) pd j \<noteq> pd \<and> tab_at (mem s) pd j \<notin> set ys"
    and "inj_on (tab_at (mem s) pd) {j \<in> set js. has_tab (mem s) pd j}"
  shows "\<exists>s' zs. forK js (free_tab pd) s = Ret () s' \<and> kmem_inv s' zs \<and>
    set zs = set ys \<union> tab_at (mem s) pd ` {j \<in> set js. has_tab (mem s) pd j} \<and>
    mem_same (- (tab_at (mem s) pd ` {j \<in> set js. has_tab (mem s) pd j})) s s' \<and>
    s' = s\<lparr>mem := mem s', freelist := freelist s'\<rparr>"
  using assms
proof (induction js arbitrary: s ys)
  case Nil
  then show ?case by (intro exI [of _ s] exI [of _ ys]) simp
next
  case (Cons j js)
  show ?case
  proof (cases "has_tab (mem s) pd j")
    case False
    then have "{i \<in> set (j # js). has_tab (mem s) pd i} = {i \<in> set js. has_tab (mem s) pd i}" by auto
    moreover have "free_tab pd j s = Ret () s" using False by (simp add: free_tab_def has_tab_def)
    ultimately show ?thesis using Cons.IH [OF Cons.prems(1,2)] Cons.prems(3-6) by (simp add: bindK_def)
  next
    case True
    let ?T = "tab_at (mem s) pd j" and ?J = "{i \<in> set js. has_tab (mem s) pd i}"
    let ?t = "freed ?T s"
    have T: "page_ok s ?T" "?T \<noteq> pd" "?T \<notin> set ys" using Cons.prems(5) True by auto
    have al: "?T mod PGSIZE = 0" using T(1) by (rule page_ok_aligned)
    have ms: "mem_same (- {?T}) s ?t"
      unfolding mem_same_def freed_def
      by (simp add: store32_other_page page_aligned4 al PGROUNDDOWN_aligned memset_page)
    have pd: "mem_same {pd} s ?t" by (rule mem_same_mono [OF ms]) (use T(2) in auto)
    have eq: "tab_at (mem ?t) pd i = tab_at (mem s) pd i" "has_tab (mem ?t) pd i = has_tab (mem s) pd i"
      if "i \<in> set js" for i
      using that Cons.prems(4) load_pd_same [OF Cons.prems(2) _ pd] by (simp_all add: tab_at_def has_tab_def)
    have J: "{i \<in> set js. has_tab (mem ?t) pd i} = ?J" using eq by auto
    have img: "tab_at (mem ?t) pd ` ?J = tab_at (mem s) pd ` ?J" using eq by (intro image_cong) auto
    have nT: "tab_at (mem s) pd i \<noteq> ?T" if "i \<in> ?J" for i
      using Cons.prems(3,6) True that by (auto simp: inj_on_def)
    have inv: "kmem_inv ?t (?T # ys)" by (rule kmem_inv_freed [OF Cons.prems(1) T(1,3)])
    have c1: "\<forall>i \<in> set js. has_tab (mem ?t) pd i \<longrightarrow>
        page_ok ?t (tab_at (mem ?t) pd i) \<and> tab_at (mem ?t) pd i \<noteq> pd \<and> tab_at (mem ?t) pd i \<notin> set (?T # ys)"
      using Cons.prems(5) nT by (auto simp: eq)
    have "inj_on (tab_at (mem s) pd) ?J" by (rule inj_on_subset [OF Cons.prems(6)]) auto
    then have c2: "inj_on (tab_at (mem ?t) pd) {i \<in> set js. has_tab (mem ?t) pd i}"
      unfolding J by (rule inj_on_cong [THEN iffD1, rotated]) (simp add: eq)
    from Cons.IH [OF inv Cons.prems(2) _ _ c1 c2] Cons.prems(3,4)
    obtain s' zs where r: "forK js (free_tab pd) ?t = Ret () s'" "kmem_inv s' zs"
      "set zs = set (?T # ys) \<union> tab_at (mem s) pd ` ?J" "mem_same (- (tab_at (mem s) pd ` ?J)) ?t s'"
      "s' = ?t\<lparr>mem := mem s', freelist := freelist s'\<rparr>"
      unfolding J img by auto
    have im: "tab_at (mem s) pd ` {i \<in> set (j # js). has_tab (mem s) pd i} = insert ?T (tab_at (mem s) pd ` ?J)"
      using True by auto
    have "free_tab pd j s = Ret () ?t"
      using True T(1) Cons.prems(1) by (simp add: free_tab_def has_tab_def tab_at_def [symmetric] kfree_run kmem_inv_def)
    moreover have "mem_same (- insert ?T (tab_at (mem s) pd ` ?J)) s s'"
      using ms r(4) by (auto simp: mem_same_def)
    moreover have "s' = s\<lparr>mem := mem s', freelist := freelist s'\<rparr>"
      by (subst r(5)) (simp add: freed_def)
    ultimately show ?thesis unfolding im using r(1-3) by (auto simp: bindK_def)
  qed
qed

lemma unmap_all_frames:
  assumes "lookup m' pd = unmap_range l 0 KERNBASE"
  shows "frames m' pd = {}"
proof -
  have "PGROUNDDOWN w < KERNBASE" if "w < KERNBASE" for w
    using that same_page_user [of "PGROUNDDOWN w" w] by simp
  with assms show ?thesis by (auto simp: frames_def unmap_range_def split: if_splits)
qed

lemma freevm_run:
  assumes inv: "kmem_inv s xs" and wf: "as_wf s xs pd"
  shows "\<exists>s' xs'. freevm pd s = Ret () s' \<and> kmem_inv s' xs' \<and> set xs' = set xs \<union> owned (mem s) pd \<and>
    mem_same (- (set xs \<union> owned (mem s) pd)) s s' \<and> s' = s\<lparr>mem := mem s', freelist := freelist s'\<rparr>"
proof -
  have up: "PGROUNDUP 0 = 0" by (simp add: PGROUNDUP_def)
  from deallocuvm_run [OF inv wf order_refl, of 0] obtain t ys where
    t: "deallocuvm pd KERNBASE 0 s = Ret 0 t" "vm_step pd {} s xs t ys"
      "lookup (mem t) pd = unmap_range (lookup (mem s) pd) 0 KERNBASE"
    by (auto simp: up)
  have ti: "kmem_inv t ys" "as_wf t ys pd" "set ys \<union> owned (mem t) pd = set xs \<union> owned (mem s) pd"
    "mem_same (- (set xs \<union> owned (mem s) pd)) s t" "t = s\<lparr>mem := mem t, freelist := freelist t\<rparr>"
    using t(2) by (simp_all add: vm_step_def)
  have own: "owned (mem t) pd = insert pd (tables (mem t) pd)"
    by (simp add: owned_def unmap_all_frames [OF t(3)])
  note W = as_wf_parts [OF ti(2)]
  let ?J = "{j \<in> set [0..<1024]. has_tab (mem t) pd j}"
  have tabs: "tab_at (mem t) pd ` ?J = tables (mem t) pd" by (auto simp: tables_index)
  have mem_tab: "tab_at (mem t) pd j \<in> tables (mem t) pd" if "j < 1024" "has_tab (mem t) pd j" for j
    using that by (auto simp: tables_index)
  have c: "\<forall>j \<in> set [0..<1024]. has_tab (mem t) pd j \<longrightarrow> page_ok t (tab_at (mem t) pd j) \<and>
      tab_at (mem t) pd j \<noteq> pd \<and> tab_at (mem t) pd j \<notin> set ys"
  proof (intro ballI impI)
    fix j assume "j \<in> set [0..<1024]" "has_tab (mem t) pd j"
    then have "tab_at (mem t) pd j \<in> tables (mem t) pd" by (intro mem_tab) simp_all
    then show "page_ok t (tab_at (mem t) pd j) \<and> tab_at (mem t) pd j \<noteq> pd \<and> tab_at (mem t) pd j \<notin> set ys"
      using W(1,2,3) unfolding own by auto
  qed
  have inj: "inj_on (tab_at (mem t) pd) ?J" by (rule inj_onI) (auto intro: tab_at_inj [OF ti(2)])
  from free_tabs [OF ti(1) as_wfD(2) [OF ti(2)] distinct_upt _ c inj]
  obtain u zs where u: "forK [0..<1024] (free_tab pd) t = Ret () u" "kmem_inv u zs"
    "set zs = set ys \<union> tables (mem t) pd" "mem_same (- tables (mem t) pd) t u"
    "u = t\<lparr>mem := mem u, freelist := freelist u\<rparr>"
    unfolding tabs by auto
  have pk: "page_ok u = page_ok s" by (subst u(5), subst ti(5)) simp
  have pd: "page_ok u pd" "pd \<notin> set zs"
    using as_wfD(1) [OF wf] W(2,3) unfolding u(3) pk own by auto
  have run: "freevm pd s = Ret () (freed pd u)"
    using t(1) u(1,2) pd page_ok_nonzero [OF pd(1)]
    by (simp add: freevm_def bindK_def kfree_run kmem_inv_def)
  have k: "kmem_inv (freed pd u) (pd # zs)" by (rule kmem_inv_freed [OF u(2) pd])
  have "mem_same (- {pd}) u (freed pd u)"
    unfolding mem_same_def freed_def using page_ok_aligned [OF pd(1)]
    by (simp add: store32_other_page page_aligned4 PGROUNDDOWN_aligned memset_page)
  then have "mem_same (- (set xs \<union> owned (mem s) pd)) s (freed pd u)"
    using ti(3,4) u(4) unfolding own by (auto simp: mem_same_def)
  moreover have "set (pd # zs) = set ys \<union> owned (mem t) pd" by (simp add: u(3) own)
  then have "set (pd # zs) = set xs \<union> owned (mem s) pd" using ti(3) by simp
  moreover have "freed pd u = s\<lparr>mem := mem (freed pd u), freelist := freelist (freed pd u)\<rparr>"
    unfolding freed_def by (subst u(5), subst ti(5)) simp
  ultimately show ?thesis using run k by blast
qed

section \<open>setupkvm\<close>

lemma empty_directory:
  assumes "kmem_inv t ys" "page_ok t pd" "pd \<notin> set ys" "zero_page (mem t) pd"
  shows "as_wf t ys pd" "lookup (mem t) pd = (\<lambda>w. None)" "owned (mem t) pd = {pd}" "frames (mem t) pd = {}"
proof -
  have al: "pd mod PGSIZE = 0" using assms(2) by (rule page_ok_aligned)
  have "pde_at (mem t) pd va = load32 (\<lambda>x. 0) (pd + 4 * PDX va)" for va
    unfolding pde_at_def by (rule load32_cong)
      (use assms(4) in \<open>simp_all add: entry_addr [OF al PDX_less] zero_page_def\<close>)
  then have np: "\<not> present (mem t) pd va" for va by (simp add: present_def)
  then show lk: "lookup (mem t) pd = (\<lambda>w. None)" by (simp add: lookup_def fun_eq_iff)
  have t: "tables (mem t) pd = {}" using np by (simp add: tables_def)
  show f: "frames (mem t) pd = {}" by (simp add: frames_def lk)
  show o: "owned (mem t) pd = {pd}" by (simp add: owned_def t f)
  show "as_wf t ys pd" using assms(2,3) np by (simp add: as_wf_def o t f lk)
qed

definition in_range :: "u32 \<Rightarrow> u32 \<Rightarrow> u32 \<Rightarrow> bool" where
  "in_range v sz w \<longleftrightarrow> v \<le> PGROUNDDOWN w \<and> unat (PGROUNDDOWN w) < unat v + unat sz"

lemma range_count:
  assumes "v mod PGSIZE = 0" "sz mod PGSIZE = 0" "sz \<noteq> 0" "unat v + unat sz \<le> 2 ^ 32"
  shows "unat ((PGROUNDDOWN (v + sz - 1) - v) div PGSIZE) = unat sz div 4096 - 1"
    and "unat (PGROUNDDOWN w - v) div 4096 \<le> unat sz div 4096 - 1 \<longleftrightarrow> in_range v sz w"
proof -
  obtain i j where i: "unat v = 4096 * i" and j: "unat sz = 4096 * j"
    using assms(1,2) unfolding aligned_unat by (auto elim!: dvdE)
  have "unat sz \<noteq> 0" using assms(3) by (simp add: unat_eq_0)
  then obtain k where k: "j = Suc k" using j by (cases j) auto
  have "v + sz - 1 = v + (sz - 1)" by simp
  moreover have "unat (sz - 1) = unat sz - 1" using assms(3) by (rule unat_pred_u32)
  ultimately have u: "unat (v + sz - 1) = 4096 * (i + k) + 4095"
    using assms(4) i j k by (simp only: unat_word_ariths) simp
  have "(4096 * n + 4095) div 4096 = n" for n :: nat by simp
  with u have "unat (PGROUNDDOWN (v + sz - 1)) = 4096 * (i + k)"
    by (simp only: unat_PGROUNDDOWN mult.commute [of _ 4096])
  with i have "unat (PGROUNDDOWN (v + sz - 1) - v) = 4096 * k" by (simp add: unat_sub_if')
  then show "unat ((PGROUNDDOWN (v + sz - 1) - v) div PGSIZE) = unat sz div 4096 - 1"
    by (simp add: unat_div j k)
  obtain d where d: "unat (PGROUNDDOWN w) = 4096 * d"
    using aligned_PGROUNDDOWN [of w] unfolding aligned_unat by (auto elim!: dvdE)
  have "i + k < 1048576" using assms(4) i j k by simp
  with d show "unat (PGROUNDDOWN w - v) div 4096 \<le> unat sz div 4096 - 1 \<longleftrightarrow> in_range v sz w"
    unfolding in_range_def word_le_nat_alt by (auto simp: unat_sub_if' i j k) 
qed

text \<open>What an entry of \<^verbatim>\<open>kmap\<close> says, and which entries \<open>mappages\<close> can be called with.\<close>

fun kentry :: "u32 \<times> u32 \<times> u32 \<times> u32 \<Rightarrow> (u32 \<Rightarrow> u32 option) \<Rightarrow> (u32 \<Rightarrow> u32 option)" where
  "kentry (v, ps, pe, pm) l =
     (\<lambda>w. if in_range v (pe - ps) w then Some ((ps + (PGROUNDDOWN w - v)) OR pm OR PTE_P) else l w)"

fun krange :: "u32 \<times> u32 \<times> u32 \<times> u32 \<Rightarrow> u32 \<Rightarrow> bool" where
  "krange (v, ps, pe, pm) w \<longleftrightarrow> in_range v (pe - ps) w"

fun kgood :: "u32 \<times> u32 \<times> u32 \<times> u32 \<Rightarrow> bool" where
  "kgood (v, ps, pe, pm) \<longleftrightarrow> v mod PGSIZE = 0 \<and> (pe - ps) mod PGSIZE = 0 \<and> pe - ps \<noteq> 0 \<and>
     KERNBASE \<le> v \<and> unat v + unat (pe - ps) \<le> 2 ^ 32"

fun kdisjoint :: "(u32 \<times> u32 \<times> u32 \<times> u32) list \<Rightarrow> bool" where
  "kdisjoint [] \<longleftrightarrow> True"
| "kdisjoint (k # ks) \<longleftrightarrow> (\<forall>k' \<in> set ks. \<forall>w. \<not> (krange k w \<and> krange k' w)) \<and> kdisjoint ks"

lemma mappages_kernel:
  assumes inv: "kmem_inv s xs" and wf: "as_wf s xs pd" and k: "kgood (v, ps, pe, pm)"
    and l: "\<forall>w. krange (v, ps, pe, pm) w \<longrightarrow> lookup (mem s) pd w = None"
  shows "\<exists>r s' xs'. mappages pd v (pe - ps) ps pm s = Ret r s' \<and> vm_step pd {} s xs s' xs' \<and>
    frames (mem s') pd = frames (mem s) pd \<and> mem_same (frames (mem s) pd) s s' \<and>
    (r = 0 \<and> lookup (mem s') pd = kentry (v, ps, pe, pm) (lookup (mem s) pd) \<or> r = -1)"
proof -
  let ?n = "unat (pe - ps) div 4096 - 1"
  have g: "v mod PGSIZE = 0" "(pe - ps) mod PGSIZE = 0" "pe - ps \<noteq> 0" "KERNBASE \<le> v"
    "unat v + unat (pe - ps) \<le> 2 ^ 32" using k by simp_all
  note R = range_count [OF g(1-3,5)]
  have "4096 dvd unat (pe - ps)" using g(2) by (simp only: aligned_unat)
  moreover have "unat (pe - ps) \<noteq> 0" using g(3) by (simp add: unat_eq_0)
  ultimately have "0 < unat (pe - ps) div 4096" by (simp add: div_greater_zero_iff dvd_imp_le)
  then have n: "unat v + 4096 * ?n < 2 ^ 32"
    using g(5) div_mult_mod_eq [of "unat (pe - ps)" 4096] by simp
  have run: "mappages pd v (pe - ps) ps pm = mappages_loop ?n pd v ps pm"
    by (simp only: mappages_def Let_def PGROUNDDOWN_aligned [OF g(1)] R(1))
  have "lookup (mem s) pd w = None" if "unat (PGROUNDDOWN w - v) div 4096 \<le> ?n" for w
    using l that unfolding R(2) krange.simps by blast
  from mappages_loop_kernel [OF inv wf g(1,4) n this, of ps pm] obtain r s' xs' where
    r: "mappages_loop ?n pd v ps pm s = Ret r s'" "vm_step pd {} s xs s' xs'" "mem_same (frames (mem s) pd) s s'"
      "\<forall>w < KERNBASE. lookup (mem s') pd w = lookup (mem s) pd w"
      "r = 0 \<and> lookup (mem s') pd = map_range (lookup (mem s) pd) v ps pm ?n \<or> r = -1 \<and> xs' = []" by blast
  have "map_range (lookup (mem s) pd) v ps pm ?n = kentry (v, ps, pe, pm) (lookup (mem s) pd)"
    unfolding map_range_def Let_def R(2) kentry.simps ..
  with r frames_user_cong [OF r(4)] show ?thesis unfolding run by auto
qed

lemma setupkvm_loop_run:
  assumes "kmem_inv s xs" "as_wf s xs pd" "\<forall>k \<in> set ks. kgood k" "kdisjoint ks"
    and "\<forall>k \<in> set ks. \<forall>w. krange k w \<longrightarrow> lookup (mem s) pd w = None"
  shows "(\<exists>s' xs'. setupkvm_loop ks pd s = Ret pd s' \<and> vm_step pd {} s xs s' xs' \<and>
      frames (mem s') pd = frames (mem s) pd \<and> lookup (mem s') pd = fold kentry ks (lookup (mem s) pd)) \<or>
    (\<exists>s' xs'. setupkvm_loop ks pd s = Ret 0 s' \<and> kmem_inv s' xs' \<and> set xs' = set xs \<union> owned (mem s) pd \<and>
      mem_same (- (set xs \<union> owned (mem s) pd)) s s' \<and> s' = s\<lparr>mem := mem s', freelist := freelist s'\<rparr>)"
  using assms
proof (induction ks arbitrary: s xs)
  case Nil
  then show ?case by (intro disjI1 exI [of _ s] exI [of _ xs]) (simp add: vm_step_refl)
next
  case (Cons k ks)
  obtain v ps pe pm where k: "k = (v, ps, pe, pm)" by (cases k)
  have "kgood k" "\<forall>w. krange k w \<longrightarrow> lookup (mem s) pd w = None" using Cons.prems(3,5) by simp_all
  from mappages_kernel [OF Cons.prems(1,2) this [unfolded k]] obtain r t ys where
    r: "mappages pd v (pe - ps) ps pm s = Ret r t" "vm_step pd {} s xs t ys" "frames (mem t) pd = frames (mem s) pd"
      "r = 0 \<and> lookup (mem t) pd = kentry k (lookup (mem s) pd) \<or> r = -1" unfolding k by blast
  have t: "kmem_inv t ys" "as_wf t ys pd" "set ys \<union> owned (mem t) pd = set xs \<union> owned (mem s) pd"
    "mem_same (- (set xs \<union> owned (mem s) pd)) s t" "t = s\<lparr>mem := mem t, freelist := freelist t\<rparr>"
    using r(2) by (simp_all add: vm_step_def)
  show ?case
  proof (cases "r < 0")
    case True
    from freevm_run [OF t(1,2)] obtain s' xs' where f: "freevm pd t = Ret () s'" "kmem_inv s' xs'"
      "set xs' = set ys \<union> owned (mem t) pd" "mem_same (- (set ys \<union> owned (mem t) pd)) t s'"
      "s' = t\<lparr>mem := mem s', freelist := freelist s'\<rparr>" by blast
    have "s' = s\<lparr>mem := mem s', freelist := freelist s'\<rparr>" by (subst f(5), subst t(5)) simp
    moreover have "mem_same (- (set xs \<union> owned (mem s) pd)) s s'"
      using mem_same_trans [OF t(4) f(4)] t(3) by simp
    ultimately show ?thesis using r(1) True f(1-3) t(3) by (intro disjI2) (auto simp: k bindK_def)
  next
    case False
    with r(4) have l: "r = 0" "lookup (mem t) pd = kentry k (lookup (mem s) pd)" by auto
    have "\<forall>k' \<in> set ks. \<forall>w. krange k' w \<longrightarrow> lookup (mem t) pd w = None"
      using Cons.prems(4,5) by (fastforce simp: l(2) k)
    from Cons.IH [OF t(1,2) _ _ this] Cons.prems(3,4)
    consider (ok) s' xs' where "setupkvm_loop ks pd t = Ret pd s'" "vm_step pd {} t ys s' xs'"
        "frames (mem s') pd = frames (mem t) pd" "lookup (mem s') pd = fold kentry ks (lookup (mem t) pd)"
      | (bad) s' xs' where "setupkvm_loop ks pd t = Ret 0 s'" "kmem_inv s' xs'" "set xs' = set ys \<union> owned (mem t) pd"
        "mem_same (- (set ys \<union> owned (mem t) pd)) t s'" "s' = t\<lparr>mem := mem s', freelist := freelist s'\<rparr>" by auto
    then show ?thesis
    proof cases
      case ok
      then show ?thesis using r(1,3) l vm_step_trans [OF r(2) ok(2)]
        by (intro disjI1 exI [of _ s'] exI [of _ xs']) (simp add: k bindK_def)
    next
      case bad
      have "s' = s\<lparr>mem := mem s', freelist := freelist s'\<rparr>" by (subst bad(5), subst t(5)) simp
      moreover have "mem_same (- (set xs \<union> owned (mem s) pd)) s s'"
        using mem_same_trans [OF t(4) bad(4)] t(3) by simp
      ultimately show ?thesis using bad(1-3) t(3) r(1) l(1)
        by (intro disjI2 exI [of _ s'] exI [of _ xs']) (simp add: k bindK_def)
    qed
  qed
qed

text \<open>
  Where \<^verbatim>\<open>kernel.ld\<close> puts the symbol \<^verbatim>\<open>data\<close>: on a page boundary, after the start of the kernel and
  below the top of memory. The map that \<^verbatim>\<open>kmap\<close> then describes:
\<close>

definition kvm_ok :: "'z kmem_scheme \<Rightarrow> bool" where
  "kvm_ok s \<longleftrightarrow> kdata s mod PGSIZE = 0 \<and> KERNLINK < kdata s \<and> kdata s < KERNBASE + PHYSTOP"

definition kvm_map :: "u32 \<Rightarrow> u32 \<Rightarrow> u32 option" where
  "kvm_map data w =
     (let p = PGROUNDDOWN w in
      if p < KERNBASE then None
      else if p < KERNLINK then Some (V2P p OR PTE_W OR PTE_P)
      else if p < data then Some (V2P p OR PTE_P)
      else if p < KERNBASE + PHYSTOP then Some (V2P p OR PTE_W OR PTE_P)
      else if p < DEVSPACE then None
      else Some (p OR PTE_W OR PTE_P))"

lemma in_range_kmap:
  assumes "kvm_ok s"
  shows "in_range KERNBASE EXTMEM w \<longleftrightarrow> KERNBASE \<le> PGROUNDDOWN w \<and> PGROUNDDOWN w < KERNLINK"
    "in_range KERNLINK (kdata s - KERNLINK) w \<longleftrightarrow> KERNLINK \<le> PGROUNDDOWN w \<and> PGROUNDDOWN w < kdata s"
    "in_range (kdata s) (PHYSTOP - V2P (kdata s)) w \<longleftrightarrow>
       kdata s \<le> PGROUNDDOWN w \<and> PGROUNDDOWN w < KERNBASE + PHYSTOP"
    "in_range DEVSPACE (- DEVSPACE) w \<longleftrightarrow> DEVSPACE \<le> PGROUNDDOWN w"
proof -
  have k: "unat KERNLINK < unat (kdata s)" "unat (kdata s) < unat (KERNBASE + PHYSTOP)"
    using assms by (simp_all add: kvm_ok_def word_less_nat_alt)
  have "unat (kdata s - KERNLINK) = unat (kdata s) - unat KERNLINK" using k by (simp add: unat_sub_if')
  moreover have "unat (PHYSTOP - V2P (kdata s)) = unat (KERNBASE + PHYSTOP) - unat (kdata s)"
    using k unfolding V2P_def by (simp add: unat_sub_if')
  moreover have "unat (PGROUNDDOWN w) < 2 ^ 32" using unat_u32_bound [of "PGROUNDDOWN w"] by simp
  ultimately show "in_range KERNBASE EXTMEM w \<longleftrightarrow> KERNBASE \<le> PGROUNDDOWN w \<and> PGROUNDDOWN w < KERNLINK"
    "in_range KERNLINK (kdata s - KERNLINK) w \<longleftrightarrow> KERNLINK \<le> PGROUNDDOWN w \<and> PGROUNDDOWN w < kdata s"
    "in_range (kdata s) (PHYSTOP - V2P (kdata s)) w \<longleftrightarrow>
       kdata s \<le> PGROUNDDOWN w \<and> PGROUNDDOWN w < KERNBASE + PHYSTOP"
    "in_range DEVSPACE (- DEVSPACE) w \<longleftrightarrow> DEVSPACE \<le> PGROUNDDOWN w"
    using k by (simp_all add: in_range_def word_less_nat_alt word_le_nat_alt)
qed

lemma kmap_good:
  assumes "kvm_ok s"
  shows "\<forall>k \<in> set (kmap s). kgood k" "kdisjoint (kmap s)"
    "fold kentry (kmap s) (\<lambda>w. None) = kvm_map (kdata s)"
proof -
  let ?d = "kdata s"
  have k: "unat KERNLINK < unat ?d" "unat ?d < unat (KERNBASE + PHYSTOP)" "?d mod PGSIZE = 0"
    using assms by (simp_all add: kvm_ok_def word_less_nat_alt)
  have v: "V2P ?d - V2P KERNLINK = ?d - KERNLINK" by (simp add: V2P_def)
  note R = in_range_kmap [OF assms]
  have e: "kmap s = [(KERNBASE, 0, EXTMEM, PTE_W), (KERNLINK, V2P KERNLINK, V2P ?d, 0),
      (?d, V2P ?d, PHYSTOP, PTE_W), (DEVSPACE, DEVSPACE, 0, PTE_W)]"
    by (simp add: kmap_def)
  have al: "(?d - KERNLINK) mod PGSIZE = 0" "(PHYSTOP - V2P ?d) mod PGSIZE = 0"
    using page_diff_aligned [of KERNLINK ?d] page_diff_aligned [of "V2P ?d" PHYSTOP] k(3) aligned_V2P
    by (simp_all add: aligned_unat)
  have ne: "?d - KERNLINK \<noteq> 0" "PHYSTOP - V2P ?d \<noteq> 0"
    using k by (auto simp: V2P_def)
  have sz: "unat KERNLINK + unat (?d - KERNLINK) \<le> 2 ^ 32" "unat ?d + unat (PHYSTOP - V2P ?d) \<le> 2 ^ 32"
    using k unfolding V2P_def by (simp_all add: unat_sub_if')
  show "\<forall>k \<in> set (kmap s). kgood k"
    unfolding e using al ne sz k(1,3) by (simp add: v word_le_nat_alt)
  show "kdisjoint (kmap s)"
    unfolding e using k by (auto simp: v R word_less_nat_alt word_le_nat_alt)
  show "fold kentry (kmap s) (\<lambda>w. None) = kvm_map ?d"
  proof
    fix w
    have V: "V2P KERNLINK + (PGROUNDDOWN w - KERNLINK) = V2P (PGROUNDDOWN w)"
      "V2P ?d + (PGROUNDDOWN w - ?d) = V2P (PGROUNDDOWN w)" "PGROUNDDOWN w - KERNBASE = V2P (PGROUNDDOWN w)"
      by (simp_all add: V2P_def)
    show "fold kentry (kmap s) (\<lambda>w. None) w = kvm_map ?d w"
      unfolding e using k by (simp add: v R V kvm_map_def Let_def word_less_nat_alt word_le_nat_alt)
  qed
qed

text \<open>
  \<open>new_space s xs pd s' xs'\<close>: between \<open>s\<close> and \<open>s'\<close> the address space \<open>pd\<close> was made from pages of \<open>xs\<close>.
\<close>

definition new_space :: "'z kmem_scheme \<Rightarrow> u32 list \<Rightarrow> u32 \<Rightarrow> 'z kmem_scheme \<Rightarrow> u32 list \<Rightarrow> bool" where
  "new_space s xs pd s' xs' \<longleftrightarrow> kmem_inv s' xs' \<and> as_wf s' xs' pd \<and> set xs' \<union> owned (mem s') pd = set xs \<and>
     mem_same (- set xs) s s' \<and> s' = s\<lparr>mem := mem s', freelist := freelist s'\<rparr>"

definition same_space :: "'z kmem_scheme \<Rightarrow> u32 list \<Rightarrow> 'z kmem_scheme \<Rightarrow> u32 list \<Rightarrow> bool" where
  "same_space s xs s' xs' \<longleftrightarrow> kmem_inv s' xs' \<and> set xs' = set xs \<and> mem_same (- set xs) s s' \<and>
     s' = s\<lparr>mem := mem s', freelist := freelist s'\<rparr>"

lemma new_space_step:
  assumes n: "new_space s xs pd t ys" and v: "vm_step pd {} t ys u zs"
  shows "new_space s xs pd u zs"
proof -
  have t: "t = s\<lparr>mem := mem t, freelist := freelist t\<rparr>" and u: "u = t\<lparr>mem := mem u, freelist := freelist u\<rparr>"
    using n v by (simp_all add: new_space_def vm_step_def)
  have "u = s\<lparr>mem := mem u, freelist := freelist u\<rparr>" by (subst u, subst t) simp
  moreover have "mem_same (- set xs) s u"
    using n v by (auto simp: new_space_def vm_step_def intro: mem_same_trans)
  ultimately show ?thesis using n v by (simp add: new_space_def vm_step_def)
qed

lemma new_space_freevm:
  assumes "new_space s xs pd t ys"
  shows "\<exists>s' xs'. freevm pd t = Ret () s' \<and> same_space s xs s' xs'"
proof -
  have n: "kmem_inv t ys" "as_wf t ys pd" "set ys \<union> owned (mem t) pd = set xs" "mem_same (- set xs) s t"
    "t = s\<lparr>mem := mem t, freelist := freelist t\<rparr>" using assms by (simp_all add: new_space_def)
  from freevm_run [OF n(1,2)] obtain s' xs' where f: "freevm pd t = Ret () s'" "kmem_inv s' xs'" "set xs' = set xs"
    "mem_same (- set xs) t s'" "s' = t\<lparr>mem := mem s', freelist := freelist s'\<rparr>" unfolding n(3) by blast
  have "s' = s\<lparr>mem := mem s', freelist := freelist s'\<rparr>" by (subst f(5), subst n(5)) simp
  with f mem_same_trans [OF n(4) f(4)] show ?thesis by (auto simp: same_space_def)
qed

lemma setupkvm_run:
  assumes inv: "kmem_inv s xs" and ok: "kvm_ok s"
  obtains (none) s' xs' where "setupkvm s = Ret 0 s'" "same_space s xs s' xs'"
  | (space) pd s' xs' where "setupkvm s = Ret pd s'" "pd \<noteq> 0" "new_space s xs pd s' xs'"
      "lookup (mem s') pd = kvm_map (kdata s)" "frames (mem s') pd = {}"
  using inv
proof (cases rule: kalloc_cases)
  case p: none
  then show ?thesis using inv
    by (intro that(1) [of s xs]) (simp_all add: setupkvm_def bindK_def same_space_def)
next
  case (page pd ys)
  let ?t = "s\<lparr>freelist := load32 (mem s) pd, mem := memset (mem s) pd 0 PGSIZE\<rparr>"
  have al: "pd mod PGSIZE = 0" using page(5) by (rule page_ok_aligned)
  have same: "mem_same (- {pd}) s ?t" by (simp add: mem_same_def memset_page al)
  have "kmem_inv ((s\<lparr>freelist := load32 (mem s) pd\<rparr>)\<lparr>mem := memset (mem s) pd 0 PGSIZE\<rparr>) ys"
    by (rule kmem_inv_mem [OF page(4)]) (use page(6) in \<open>auto simp: memset_page al\<close>)
  then have k: "kmem_inv ?t ys" by simp
  have "page_ok ?t pd" "zero_page (mem ?t) pd" using page(5) al by (simp_all add: memset_zero_page)
  note E = empty_directory [OF k this(1) page(6) this(2)]
  have n: "new_space s xs pd ?t ys"
    using k E(1,3) page(1) same by (auto simp: new_space_def intro: mem_same_mono)
  have d: "\<not> DEVSPACE < P2V PHYSTOP" by (simp add: P2V_def)
  have run: "setupkvm s = setupkvm_loop (kmap s) pd ?t"
    using page(2,3) d by (simp add: setupkvm_def bindK_def kmap_def)
  have g: "\<forall>k \<in> set (kmap s). \<forall>w. krange k w \<longrightarrow> lookup (mem ?t) pd w = None" by (simp only: E(2)) simp
  from setupkvm_loop_run [OF k E(1) kmap_good(1,2) [OF ok] g]
  show ?thesis
  proof
    assume "\<exists>s' xs'. setupkvm_loop (kmap s) pd ?t = Ret pd s' \<and> vm_step pd {} ?t ys s' xs' \<and>
      frames (mem s') pd = frames (mem ?t) pd \<and> lookup (mem s') pd = fold kentry (kmap s) (lookup (mem ?t) pd)"
    then obtain s' xs' where r: "setupkvm_loop (kmap s) pd ?t = Ret pd s'" "vm_step pd {} ?t ys s' xs'"
      "frames (mem s') pd = {}" "lookup (mem s') pd = kvm_map (kdata s)"
      unfolding E(2,4) kmap_good(3) [OF ok] by blast
    from that(2) [OF run [unfolded r(1)] page(2) new_space_step [OF n r(2)] r(4,3)] show ?thesis .
  next
    assume "\<exists>s' xs'. setupkvm_loop (kmap s) pd ?t = Ret 0 s' \<and> kmem_inv s' xs' \<and>
      set xs' = set ys \<union> owned (mem ?t) pd \<and> mem_same (- (set ys \<union> owned (mem ?t) pd)) ?t s' \<and>
      s' = ?t\<lparr>mem := mem s', freelist := freelist s'\<rparr>"
    then obtain s' xs' where r: "setupkvm_loop (kmap s) pd ?t = Ret 0 s'" "kmem_inv s' xs'"
      "set xs' = set xs" "mem_same (- set xs) ?t s'" "s' = ?t\<lparr>mem := mem s', freelist := freelist s'\<rparr>"
      unfolding E(3) page(1) by auto
    have "s' = s\<lparr>mem := mem s', freelist := freelist s'\<rparr>" by (subst r(5)) simp
    moreover have "mem_same (- set xs) s s'"
      using page(1) mem_same_trans [OF mem_same_mono [OF same] r(4)] by auto
    ultimately show ?thesis using r(2,3) that(1) [OF run [unfolded r(1)]] by (simp add: same_space_def)
  qed
qed

end
