(* ===== verification/Vm_Copy.thy ===== *)
theory Vm_Copy
  imports Vm_Space
begin

text \<open>
  \<open>copyuvm\<close>, the copy of an address space that \<^verbatim>\<open>fork()\<close> makes, and \<open>copyout\<close>.
\<close>

section \<open>copyuvm\<close>

text \<open>What happens to pages that were free in \<open>s\<close> does not concern the address spaces of \<open>s\<close>.\<close>

lemma other_space_same:
  assumes wf: "as_wf s xs pd" and ms: "mem_same (- set xs) s u"
  shows "pt_same pd (mem s) (mem u)" "mem_same (owned (mem s) pd) s u"
proof -
  show m: "mem_same (owned (mem s) pd) s u"
    by (rule mem_same_mono [OF ms]) (use as_wf_parts(2) [OF wf] in auto)
  show "pt_same pd (mem s) (mem u)"
    using m as_wfD(2) [OF wf] by (auto simp: pt_same_def mem_same_def owned_def)
qed

text \<open>The page at \<open>w\<close> of \<open>d\<close> in \<open>m'\<close> is a copy of the page at \<open>w\<close> of \<open>pd\<close> in \<open>m\<close>.\<close>

definition page_copied :: "bmem \<Rightarrow> u32 \<Rightarrow> bmem \<Rightarrow> u32 \<Rightarrow> u32 \<Rightarrow> bool" where
  "page_copied m pd m' d w \<longleftrightarrow> (\<exists>pte pte'. lookup m pd w = Some pte \<and> lookup m' d w = Some pte' \<and>
     PTE_FLAGS pte' = PTE_FLAGS pte \<and> (\<forall>i < PGSIZE. m' (frame pte' + i) = m (frame pte + i)))"

lemma PTE_FLAGS_less: "PTE_FLAGS pte < PGSIZE"
  using take_bit_12_less [of pte] by (simp add: PTE_FLAGS_def mask_12 take_bit_eq_mask)

lemma PTE_FLAGS_P:
  assumes "pte AND PTE_P \<noteq> 0"
  shows "PTE_FLAGS pte OR PTE_P = PTE_FLAGS pte"
proof (rule bit_word_eqI)
  fix n
  have "bit pte 0"
  proof (rule ccontr)
    assume "\<not> bit pte 0"
    then have "pte AND PTE_P = 0" by (auto intro!: bit_word_eqI simp: bit_simps)
    with assms show False by simp
  qed
  then show "bit (PTE_FLAGS pte OR PTE_P) n = bit (PTE_FLAGS pte) n"
    by (auto simp: PTE_FLAGS_def mask_12 bit_simps)
qed

lemma copy_page:
  assumes "m mod PGSIZE = 0" "f mod PGSIZE = 0" "page_ok s m" "page_ok s f" "KERNBASE < kend s"
  shows "\<forall>x. PGROUNDDOWN x \<noteq> m \<longrightarrow> memmove (mem s) m f PGSIZE x = mem s x"
    and "\<forall>i < PGSIZE. memmove (mem s) m f PGSIZE (m + i) = mem s (f + i)"
proof -
  have hi: "unat p + 4096 \<le> 2 ^ 32" if "page_ok s p" for p
    using page_ok_high [OF that order_less_imp_le [OF assms(5)]] by (simp add: word_less_nat_alt)
  have "memmove (mem s) m f PGSIZE = (\<lambda>x. if x - m < PGSIZE then mem s (f + (x - m)) else mem s x)"
    by (rule memmove_eq) (use hi [OF assms(3)] hi [OF assms(4)] in simp_all)
  then show "\<forall>x. PGROUNDDOWN x \<noteq> m \<longrightarrow> memmove (mem s) m f PGSIZE x = mem s x"
    "\<forall>i < PGSIZE. memmove (mem s) m f PGSIZE (m + i) = mem s (f + i)"
    by (simp_all add: in_page_iff [OF assms(1)] PGROUNDDOWN_add(1) [OF assms(1)])
qed

definition copied :: "bmem \<Rightarrow> u32 \<Rightarrow> (u32 \<Rightarrow> u32 option) \<Rightarrow> u32 set \<Rightarrow> bmem \<Rightarrow> u32 \<Rightarrow> bool" where
  "copied m pd l is m' d \<longleftrightarrow>
     (\<forall>w. if PGROUNDDOWN w \<in> is then page_copied m pd m' d w else lookup m' d w = l w)"

lemma page_copied_same:
  assumes "page_copied m pd (mem t) d w" "lookup (mem s') d w = lookup (mem t) d w"
    and "mem_same (frames (mem t) d) t s'" "w < KERNBASE"
  shows "page_copied m pd (mem s') d w"
proof -
  from assms(1) obtain pte pte' where p: "lookup m pd w = Some pte" "lookup (mem t) d w = Some pte'"
    "PTE_FLAGS pte' = PTE_FLAGS pte" "\<forall>i < PGSIZE. mem t (frame pte' + i) = m (frame pte + i)"
    unfolding page_copied_def by blast
  have "frame pte' \<in> frames (mem t) d" using p(2) assms(4) by (auto simp: frames_def)
  then have "mem s' (frame pte' + i) = mem t (frame pte' + i)" if "i < PGSIZE" for i
    using assms(3) PGROUNDDOWN_add(1) [OF aligned_frame that] by (simp add: mem_same_def)
  with p assms(2) show ?thesis by (auto simp: page_copied_def)
qed

lemma copied_step:
  assumes c: "copied m pd (lookup (mem t) d) is (mem s') d" and a: "a mod PGSIZE = 0" "a \<notin> is" "a < KERNBASE"
    and l: "lookup (mem t) d = map_at l a v" and p: "page_copied m pd (mem t) d a"
    and ms: "mem_same (frames (mem t) d) t s'"
  shows "copied m pd l (insert a is) (mem s') d"
  unfolding copied_def
proof
  fix w
  note C = c [unfolded copied_def, rule_format, of w]
  show "if PGROUNDDOWN w \<in> insert a is then page_copied m pd (mem s') d w else lookup (mem s') d w = l w"
  proof (cases "PGROUNDDOWN w = a")
    case True
    then have eq: "PGROUNDDOWN w = PGROUNDDOWN a" using a(1) by (simp add: PGROUNDDOWN_aligned)
    have "page_copied m pd (mem t) d w"
      using p same_page_cong [OF eq] unfolding page_copied_def by simp
    moreover have "lookup (mem s') d w = lookup (mem t) d w" using C True a(2) by simp
    moreover have "w < KERNBASE" using same_page_user [OF eq] a(3) by simp
    ultimately have "page_copied m pd (mem s') d w" using ms page_copied_same by blast
    with True show ?thesis by simp
  next
    case False
    with C a show ?thesis by (auto simp: l map_at_def PGROUNDDOWN_aligned)
  qed
qed

lemma copyuvm_loop_run:
  assumes wf0: "as_wf s0 xs0 pd" and inv0: "kmem_inv s0 xs0" and "new_space s0 xs0 d s xs" "distinct is"
    and "\<forall>i \<in> set is. i mod PGSIZE = 0 \<and> i < KERNBASE \<and> lookup (mem s0) pd i \<noteq> None \<and> lookup (mem s) d i = None"
  shows "(\<exists>s' xs'. copyuvm_loop is pd d s = Ret d s' \<and> new_space s0 xs0 d s' xs' \<and>
      copied (mem s0) pd (lookup (mem s) d) (set is) (mem s') d \<and> frames (mem s) d \<subseteq> frames (mem s') d \<and>
      mem_same (frames (mem s) d) s s') \<or>
    (\<exists>s' xs'. copyuvm_loop is pd d s = Ret 0 s' \<and> same_space s0 xs0 s' xs')"
  using assms(3-)
proof (induction "is" arbitrary: s xs)
  case Nil
  then show ?case by (intro disjI1 exI [of _ s] exI [of _ xs]) (simp add: copied_def)
next
  case (Cons i "is")
  have n: "kmem_inv s xs" "as_wf s xs d" "set xs \<union> owned (mem s) d = set xs0" "mem_same (- set xs0) s0 s"
    "s = s0\<lparr>mem := mem s, freelist := freelist s\<rparr>" using Cons.prems(1) by (simp_all add: new_space_def)
  note O = other_space_same [OF wf0 n(4)]
  obtain pte where pte: "lookup (mem s0) pd i = Some pte" using Cons.prems(3) by auto
  have i: "i mod PGSIZE = 0" "i < KERNBASE" "lookup (mem s) d i = None" using Cons.prems(3) by simp_all
  have ls: "lookup (mem s) pd i = Some pte" using pte by (simp add: lookup_same [OF O(1)])
  then have pr: "present (mem s) pd i" "pte AND PTE_P \<noteq> 0" "load32 (mem s) (pgtab_of (mem s) pd i + 4 * PTX i) = pte"
    by (auto simp: lookup_def pte_at_def split: if_splits)
  have q: "pgtab_of (mem s) pd i + 4 * PTX i \<noteq> 0"
    using slot_nonzero [OF inv0 wf0] pr(1) by (simp add: present_same [OF O(1)] pgtab_of_same [OF O(1)])
  have walk: "walkpgdir pd i False s = Ret (pgtab_of (mem s) pd i + 4 * PTX i) s" by (rule walkpgdir_present [OF pr(1)])
  have po: "page_ok s = page_ok s0" "kend s = kend s0" by (subst n(5), simp)+
  have f: "frame pte \<in> owned (mem s0) pd" using pte i(2) by (auto simp: owned_def frames_def)
  then have pf: "page_ok s (frame pte)" using as_wf_parts(1) [OF wf0] by (simp add: po)
  have fsame: "mem s (frame pte + j) = mem s0 (frame pte + j)" if "j < PGSIZE" for j
    using O(2) f PGROUNDDOWN_add(1) [OF aligned_frame that] by (simp add: mem_same_def)
  have ke: "KERNBASE < kend s" using n(1) by (simp add: kmem_inv_def)
  from n(1) show ?case
  proof (cases rule: kalloc_cases)
    case none
    with new_space_freevm [OF Cons.prems(1)] walk q pr(2,3) show ?thesis
      by (intro disjI2) (auto simp: bindK_def Let_def)
  next
    case (page m ys)
    let ?t = "s\<lparr>freelist := load32 (mem s) m, mem := memmove (mem s) m (frame pte) PGSIZE\<rparr>"
    have al: "m mod PGSIZE = 0" using page(5) by (rule page_ok_aligned)
    note CP = copy_page [OF al aligned_frame page(5) pf ke]
    note mys = n(1) [unfolded page(1)] n(2) [unfolded page(1)]
    have head: "copyuvm_loop (i # is) pd d s =
        bindK (map_page d i (V2P m) (PTE_FLAGS pte)) (\<lambda>r.
          if r < 0 then bindK (kfree m) (\<lambda>_. bindK (freevm d) (\<lambda>_. retK 0)) else copyuvm_loop is pd d) ?t"
      using walk q pr(2,3) page(2,3)
      by (simp add: bindK_def Let_def mappages_one [OF i(1)] frame_def)
    show ?thesis
    proof (cases rule: take_map [OF mys refl CP(1) i(2,3) PTE_FLAGS_less [of pte]])
      case 1
      note T = take_page [OF mys refl CP(1)]
      note G = vm_step_take_give [OF mys refl CP(1) vm_step_refl [OF T(1,2)]]
      have "new_space s0 xs0 d (freed m ?t) (m # ys)"
        using new_space_step [OF Cons.prems(1), of "freed m ?t" "m # ys"] G(1) page(1) by simp
      with new_space_freevm [OF this] head 1(2) G(2) show ?thesis
        by (intro disjI2) (auto simp: bindK_def)
    next
      case (2 t ys' v)
      have nt: "new_space s0 xs0 d t ys'" using new_space_step [OF Cons.prems(1)] 2(4) page(1) by simp
      have "\<forall>j \<in> set is. j mod PGSIZE = 0 \<and> j < KERNBASE \<and> lookup (mem s0) pd j \<noteq> None \<and> lookup (mem t) d j = None"
        using Cons.prems(2,3) i(1) by (auto simp: 2(5) map_at_def PGROUNDDOWN_aligned)
      from Cons.IH [OF nt _ this] Cons.prems(2) head 2(1)
      consider (ok) s' xs' where "copyuvm_loop (i # is) pd d s = Ret d s'" "new_space s0 xs0 d s' xs'"
          "copied (mem s0) pd (lookup (mem t) d) (set is) (mem s') d" "frames (mem t) d \<subseteq> frames (mem s') d"
          "mem_same (frames (mem t) d) t s'"
        | (bad) s' xs' where "copyuvm_loop (i # is) pd d s = Ret 0 s'" "same_space s0 xs0 s' xs'"
        by (fastforce simp: bindK_def)
      then show ?thesis
      proof cases
        case bad
        then show ?thesis by blast
      next
        case ok
        have fl: "PTE_FLAGS v = PTE_FLAGS pte"
          using flags_bits(2) [OF aligned_V2P [OF al] PTE_FLAGS_less [of pte]] PTE_FLAGS_P [OF pr(2)]
          by (simp add: 2(2) or.assoc)
        have "mem t (m + j) = mem s0 (frame pte + j)" if "j < PGSIZE" for j
          using 2(9) CP(2) fsame [OF that] that PGROUNDDOWN_add(1) [OF al that] by (simp add: mem_same_def)
        then have "page_copied (mem s0) pd (mem t) d i"
          using pte fl by (auto simp: page_copied_def 2(5) map_at_def 2(3))
        from copied_step [OF ok(3) i(1) _ i(2) 2(5) this ok(5)] Cons.prems(2)
        have "copied (mem s0) pd (lookup (mem s) d) (set (i # is)) (mem s') d" by simp
        moreover have "mem_same (frames (mem s) d) s s'" by (rule mem_same_trans [OF 2(8) ok(5) 2(6)])
        ultimately show ?thesis using ok(1,2,4) 2(6) by blast
      qed
    qed
  qed
qed

lemma kvm_map_user: "w < KERNBASE \<Longrightarrow> kvm_map data w = None"
  using same_page_user [of "PGROUNDDOWN w" w] by (simp add: kvm_map_def Let_def)

section \<open>A concrete address space\<close>

text \<open>A directory with one page table and one user page, at address 0, and no free pages.\<close>

definition vm_example :: kmem where
  "vm_example = \<lparr>held = {}, mem = store32 (with_table (\<lambda>x. 0) 0x80200000 0 0x80201000) 0x80201000 0x202007,
     freelist = 0, use_lock = True, kend = 0x80115000, kdata = 0x8010A000\<rparr>"

lemma vm_example_ok:
  "kmem_inv vm_example []" "as_wf vm_example [] 0x80200000"
  "lookup (mem vm_example) 0x80200000 = map_at (\<lambda>w. None) 0 0x202007" "kvm_ok vm_example"
proof -
  let ?pd = "0x80200000 :: u32" and ?t = "0x80201000 :: u32"
  define s0 :: kmem where "s0 = \<lparr>held = {}, mem = (\<lambda>x. 0), freelist = ?t, use_lock = True,
    kend = 0x80115000, kdata = 0x8010A000\<rparr>"
  have i0: "kmem_inv s0 [?t]" by (simp add: kmem_inv_def s0_def page_ok_def V2P_def)
  have "page_ok s0 ?pd" "?pd \<notin> set [?t]" "zero_page (mem s0) ?pd"
    by (simp_all add: s0_def page_ok_def V2P_def zero_page_def)
  note E = empty_directory [OF i0 this]
  define s1 where "s1 = s0\<lparr>freelist := load32 (mem s0) ?t, mem := with_table (mem s0) ?pd 0 ?t\<rparr>"
  have "\<not> present (mem s0) ?pd 0" by (simp add: present_def pde_at_def s0_def)
  from vm_step_with_table [OF i0 E(1) this s1_def]
  have s1: "vm_step ?pd {} s0 [?t] s1 []" "present (mem s1) ?pd 0" "pgtab_of (mem s1) ?pd 0 = ?t"
    "lookup (mem s1) ?pd = lookup (mem s0) ?pd" by simp_all
  then have i1: "kmem_inv s1 []" "as_wf s1 [] ?pd" "owned (mem s1) ?pd = {?t, ?pd}"
    using E(3) by (auto simp: vm_step_def)
  define s2 where "s2 = s1\<lparr>mem := store32 (mem s1) (pgtab_of (mem s1) ?pd 0 + 4 * PTX 0) 0x202007\<rparr>"
  have f: "frame 0x202007 = 0x80202000" by (simp add: frame_def PTE_ADDR_def P2V_def)
  have "page_ok s1 0x80202000" by (simp add: page_ok_def s1_def s0_def V2P_def)
  then have "page_ok s1 (frame 0x202007) \<and> frame 0x202007 \<notin> set [] \<union> owned (mem s1) ?pd"
    by (simp add: f i1(3))
  with vm_step_map [OF i1(1,2) s1(2) _ _ _ s2_def] s1(4) E(2)
  have s2: "vm_step ?pd {frame 0x202007} s1 [] s2 []" "lookup (mem s2) ?pd = map_at (\<lambda>w. None) 0 0x202007"
    by simp_all
  have "s2 = vm_example"
    by (simp add: s2_def s1(3)) (simp add: s1_def s0_def vm_example_def PTX_def)
  with s2 show "kmem_inv vm_example []" "as_wf vm_example [] ?pd"
    "lookup (mem vm_example) ?pd = map_at (\<lambda>w. None) 0 0x202007"
    by (simp_all add: vm_step_def)
  show "kvm_ok vm_example" by (simp add: kvm_ok_def vm_example_def)
qed

section \<open>Properties\<close>

text \<open>
  C7: \<open>copyuvm\<close>, the copy that \<^verbatim>\<open>fork\<close> makes, returns. When it fails, with result 0, every page it
  had taken is free again. When it succeeds, the new address space is made of pages that were
  free, each user page of the parent below \<open>sz\<close> is mapped in the child with the same permissions
  and the same contents, nothing else is mapped in the user part, and the kernel part is the one
  of every address space. In both cases the memory outside of the free pages, and with it the
  parent, is unchanged.
\<close>

theorem copyuvm_correct:
  assumes inv: "kmem_inv s xs" and wf: "as_wf s xs pd" and ok: "kvm_ok s" and sz: "sz \<le> KERNBASE"
    and mapped: "\<forall>i < sz. lookup (mem s) pd i \<noteq> None"
  shows "\<exists>d s' xs'. copyuvm pd sz s = Ret d s' \<and> mem_same (- set xs) s s' \<and> kmem_inv s' xs' \<and>
    (d = 0 \<and> set xs' = set xs \<or>
     d \<noteq> 0 \<and> as_wf s' xs' d \<and> set xs' \<union> owned (mem s') d = set xs \<and>
     (\<forall>w. if PGROUNDDOWN w < sz then page_copied (mem s) pd (mem s') d w
          else lookup (mem s') d w = kvm_map (kdata s) w))"
  using inv ok
proof (cases rule: setupkvm_run)
  case none
  then show ?thesis by (intro exI [of _ 0]) (auto simp: copyuvm_def bindK_def same_space_def)
next
  case (space d t ys)
  have al0: "(0 :: u32) mod PGSIZE = 0" by simp
  note R = page_range_set [OF sz al0]
  have is_pg: "\<forall>i \<in> set (page_range 0 sz). i mod PGSIZE = 0 \<and> i < KERNBASE \<and>
      lookup (mem s) pd i \<noteq> None \<and> lookup (mem t) d i = None"
    using R sz mapped space(4) by (auto simp: kvm_map_user)
  have run: "copyuvm pd sz s = copyuvm_loop (page_range 0 sz) pd d t"
    using space(1,2) by (simp add: copyuvm_def bindK_def)
  from copyuvm_loop_run [OF wf inv space(3) conjunct2 [OF R] is_pg]
  show ?thesis
  proof
    assume "\<exists>s' xs'. copyuvm_loop (page_range 0 sz) pd d t = Ret d s' \<and> new_space s xs d s' xs' \<and>
      copied (mem s) pd (lookup (mem t) d) (set (page_range 0 sz)) (mem s') d \<and>
      frames (mem t) d \<subseteq> frames (mem s') d \<and> mem_same (frames (mem t) d) t s'"
    then obtain s' xs' where r: "copyuvm pd sz s = Ret d s'" "new_space s xs d s' xs'"
      "copied (mem s) pd (kvm_map (kdata s)) (set (page_range 0 sz)) (mem s') d"
      using run space(4) by auto
    have "PGROUNDDOWN w \<in> set (page_range 0 sz) \<longleftrightarrow> PGROUNDDOWN w < sz" for w using R by simp
    with r(3) have "\<forall>w. if PGROUNDDOWN w < sz then page_copied (mem s) pd (mem s') d w
          else lookup (mem s') d w = kvm_map (kdata s) w" by (simp add: copied_def)
    with r(1,2) space(2) show ?thesis
      by (intro exI [of _ d] exI [of _ s'] exI [of _ xs']) (simp add: new_space_def)
  next
    assume "\<exists>s' xs'. copyuvm_loop (page_range 0 sz) pd d t = Ret 0 s' \<and> same_space s xs s' xs'"
    then show ?thesis using run by (auto simp: same_space_def)
  qed
qed

theorem copyuvm_correct_witness:
  "\<exists>d s' xs'. copyuvm 0x80200000 0x1000 vm_example = Ret d s' \<and> mem_same UNIV vm_example s' \<and> kmem_inv s' xs' \<and>
     d = 0 \<and> xs' = []"
proof -
  have "PGROUNDDOWN i = 0" if "i < 0x1000" for i
    using PGROUNDDOWN_add(1) [of 0 i] that by simp
  then have "\<forall>i < 0x1000. lookup (mem vm_example) 0x80200000 i \<noteq> None"
    by (simp add: vm_example_ok(3) map_at_def)
  from copyuvm_correct [OF vm_example_ok(1,2,4) _ this] show ?thesis
    by (auto simp: owned_def)
qed

text \<open>
  C8: \<open>allocuvm\<close> returns. On success every page from \<open>oldsz\<close> up to \<open>newsz\<close> is mapped, writable by the
  user, to a page of its own that is full of zeroes, and no other mapping changes. On failure it
  returns 0 and the mapping is what it was. In both cases the user memory that was there keeps
  its contents, and no page is lost or shared: what is free and what the address space owns
  afterwards is what was free or owned before.
\<close>

theorem allocuvm_correct:
  assumes "kmem_inv s xs" "as_wf s xs pd" "oldsz \<le> newsz" "newsz < KERNBASE"
    and "\<forall>w. PGROUNDUP oldsz \<le> PGROUNDDOWN w \<and> PGROUNDDOWN w < newsz \<longrightarrow> lookup (mem s) pd w = None"
  shows "\<exists>r s' xs'. allocuvm pd oldsz newsz s = Ret r s' \<and>
    kmem_inv s' xs' \<and> as_wf s' xs' pd \<and> set xs' \<union> owned (mem s') pd = set xs \<union> owned (mem s) pd \<and>
    mem_same (frames (mem s) pd) s s' \<and>
    (r = newsz \<and> grown (lookup (mem s) pd) {p. p mod PGSIZE = 0 \<and> PGROUNDUP oldsz \<le> p \<and> p < newsz} (mem s') pd \<or>
     r = 0 \<and> lookup (mem s') pd = lookup (mem s) pd)"
  using allocuvm_run [OF assms] by (auto simp: vm_step_def)

theorem allocuvm_correct_witness:
  "\<exists>r s' xs'. allocuvm 0x80200000 0x1000 0x3000 vm_example = Ret r s' \<and> kmem_inv s' xs' \<and>
     as_wf s' xs' 0x80200000 \<and> mem_same (frames (mem vm_example) 0x80200000) vm_example s'"
proof -
  have u: "PGROUNDUP 0x1000 = 0x1000" by (simp add: PGROUNDUP_def)
  have "\<forall>w. PGROUNDUP 0x1000 \<le> PGROUNDDOWN w \<and> PGROUNDDOWN w < 0x3000 \<longrightarrow> lookup (mem vm_example) 0x80200000 w = None"
    by (auto simp: vm_example_ok(3) map_at_def u PGROUNDDOWN_def [of 0])
  from allocuvm_correct [OF vm_example_ok(1,2) _ _ this] show ?thesis by auto
qed

text \<open>
  C9: \<open>freevm\<close> returns and leaks nothing: the pages that are free afterwards are those that were free
  before, the directory, every page table and every user frame of the address space. It writes
  to no other page.
\<close>

theorem freevm_no_leak:
  assumes "kmem_inv s xs" "as_wf s xs pd"
  shows "\<exists>s' xs'. freevm pd s = Ret () s' \<and> kmem_inv s' xs' \<and> set xs' = set xs \<union> owned (mem s) pd \<and>
    mem_same (- (set xs \<union> owned (mem s) pd)) s s'"
  using freevm_run [OF assms] by blast

theorem freevm_no_leak_witness:
  "\<exists>s' xs'. freevm 0x80200000 vm_example = Ret () s' \<and> kmem_inv s' xs' \<and> 0x80202000 \<in> set xs'"
proof -
  have "lookup (mem vm_example) 0x80200000 0 = Some 0x202007" by (simp add: vm_example_ok(3) map_at_def)
  moreover have "frame 0x202007 = 0x80202000" by (simp add: frame_def PTE_ADDR_def P2V_def)
  ultimately have "0x80202000 \<in> owned (mem vm_example) 0x80200000"
    unfolding owned_def frames_def by (intro insertI2 UnI2 CollectI exI [of _ 0] exI [of _ "0x202007"]) simp
  with freevm_no_leak [OF vm_example_ok(1,2)] show ?thesis by auto
qed

text \<open>
  C10: \<open>deallocuvm\<close> returns and unmaps exactly the pages from \<open>newsz\<close> up to \<open>oldsz\<close>, whose frames become
  free; the memory that stays mapped keeps its contents.
\<close>

theorem deallocuvm_correct:
  assumes "kmem_inv s xs" "as_wf s xs pd" "oldsz \<le> KERNBASE" "newsz < oldsz"
  shows "\<exists>s' xs'. deallocuvm pd oldsz newsz s = Ret newsz s' \<and> kmem_inv s' xs' \<and> as_wf s' xs' pd \<and>
    set xs' \<union> owned (mem s') pd = set xs \<union> owned (mem s) pd \<and>
    lookup (mem s') pd = unmap_range (lookup (mem s) pd) (PGROUNDUP newsz) oldsz \<and>
    mem_same (frames (mem s') pd) s s'"
  using deallocuvm_run [OF assms] by (auto simp: vm_step_def)

theorem deallocuvm_correct_witness:
  "\<exists>s'. deallocuvm 0x80200000 0x1000 0 vm_example = Ret 0 s' \<and> lookup (mem s') 0x80200000 = (\<lambda>w. None)"
proof -
  have "unmap_range (map_at (\<lambda>w. None) 0 0x202007) (PGROUNDUP 0) 0x1000 = (\<lambda>w. None)"
    by (simp add: unmap_range_def map_at_def fun_eq_iff PGROUNDUP_def PGROUNDDOWN_def [of 0])
  with deallocuvm_correct [OF vm_example_ok(1,2), of "0x1000" 0] show ?thesis
    by (auto simp: vm_example_ok(3))
qed

end
