(* ===== verification/Spinlock.thy ===== *)
theory Spinlock
  imports Kmonad Memlayout
begin

text \<open>
  Spin locks, \<^verbatim>\<open>spinlock.c\<close>, on a machine with several processors, and \<^verbatim>\<open>mycpu()\<close> of
  \<^verbatim>\<open>proc.c\<close>.

  \<^verbatim>\<open>acquire\<close> and \<^verbatim>\<open>release\<close> are split at every access to the fields \<^verbatim>\<open>locked\<close> and \<^verbatim>\<open>cpu\<close> of a lock, which other processors read
  and write. \<^verbatim>\<open>acquire\<close> is \<open>acquire_call\<close> (up to the reading of \<^verbatim>\<open>locked\<close> in \<^verbatim>\<open>holding\<close>), \<open>acquire_check\<close> (the reading of
  \<^verbatim>\<open>cpu\<close>, if the lock was taken), \<open>acquire_xchg\<close> (one round of the loop), \<open>acquire_cpu\<close> and
  \<open>acquire_pcs\<close>; \<^verbatim>\<open>release\<close> is \<open>release_call\<close>, \<open>release_check\<close>, \<open>release_pcs\<close>, \<open>release_cpu\<close> and
  \<open>release_store\<close>. The array \<^verbatim>\<open>pcs\<close> of a lock, which only its holder touches, is filled in one piece. The relation \<open>lstep\<close>
  interleaves the pieces arbitrarily. \<open>pcs\<close> is the piece a processor executes next, and \<open>own\<close>, which no operation
  reads, the set of locks whose critical section a processor is in, up to the clearing of \<^verbatim>\<open>cpu\<close> in \<^verbatim>\<open>release\<close>.

  The invariant \<open>minv\<close> gives mutual exclusion, that interrupts are off while a lock is held, and
  that \<^verbatim>\<open>holding\<close> tells the truth although it reads the two fields one after the other. It makes \<^verbatim>\<open>spinlock.c\<close> an
  instance of the interface \<open>spin_locks\<close> on which the rest of the kernel is built.
\<close>

section \<open>Definitions\<close>

record cpu =
  apicid :: byte
  ncli :: int
  intena :: bool

record spinlock =
  locked :: u32
  lcpu :: "nat option"
  lpcs :: "u32 list"

datatype pc = Run | Chk lockid | Spin lockid | Got lockid | Trace lockid | RChk lockid | RelP lockid | RelC lockid | Rel lockid

text \<open>
  \<open>iflag\<close> is the flag \<^verbatim>\<open>FL_IF\<close> and \<open>lapic\<close> the APIC id of each processor, \<open>argp\<close> the address of the
  argument of the lock function it executes, \<open>stk\<close> the memory of the stacks.
\<close>

record mach =
  cpus :: "cpu list"
  iflag :: "nat \<Rightarrow> bool"
  lapic :: "nat \<Rightarrow> byte"
  locks :: "lockid \<Rightarrow> spinlock"
  argp :: "nat \<Rightarrow> u32"
  stk :: bmem
  pcs :: "nat \<Rightarrow> pc"
  own :: "nat \<Rightarrow> lockid set"

definition initlock :: "spinlock \<Rightarrow> spinlock" where
  "initlock lk = lk\<lparr>locked := 0, lcpu := None\<rparr>"

text \<open>\<^verbatim>\<open>mycpu()\<close> on processor \<open>c\<close>: the index in \<^verbatim>\<open>cpus[]\<close>.\<close>

definition mycpu :: "nat \<Rightarrow> (mach, nat) kop" where
  "mycpu c s =
     (if iflag s c then Panic ''mycpu called with interrupts enabled''
      else case find_idx (\<lambda>k. apicid k = lapic s c) (cpus s) of
          Some i \<Rightarrow> Ret i s
        | None \<Rightarrow> Panic ''unknown apicid'')"

definition upd_cpu :: "nat \<Rightarrow> (cpu \<Rightarrow> cpu) \<Rightarrow> mach \<Rightarrow> mach" where
  "upd_cpu i f s = s\<lparr>cpus := (cpus s)[i := f (cpus s ! i)]\<rparr>"

definition set_iflag :: "nat \<Rightarrow> bool \<Rightarrow> mach \<Rightarrow> mach" where
  "set_iflag c b s = s\<lparr>iflag := (iflag s)(c := b)\<rparr>"

definition pushcli :: "nat \<Rightarrow> (mach, unit) kop" where
  "pushcli c =
     bindK (getK (\<lambda>s. iflag s c)) (\<lambda>eflags.
     bindK (modK (set_iflag c False)) (\<lambda>_.
     bindK (mycpu c) (\<lambda>i.
     bindK (getK (\<lambda>s. ncli (cpus s ! i))) (\<lambda>n.
     bindK (whenK (n = 0) (modK (upd_cpu i (\<lambda>k. k\<lparr>intena := eflags\<rparr>)))) (\<lambda>_.
     modK (upd_cpu i (\<lambda>k. k\<lparr>ncli := ncli k + 1\<rparr>)))))))"

definition popcli :: "nat \<Rightarrow> (mach, unit) kop" where
  "popcli c =
     bindK (getK (\<lambda>s. iflag s c)) (\<lambda>eflags.
     if eflags then panicK ''popcli - interruptible''
     else bindK (mycpu c) (\<lambda>i.
       bindK (modK (upd_cpu i (\<lambda>k. k\<lparr>ncli := ncli k - 1\<rparr>))) (\<lambda>_.
       bindK (getK (\<lambda>s. cpus s ! i)) (\<lambda>k.
       if ncli k < 0 then panicK ''popcli''
       else whenK (ncli k = 0 \<and> intena k) (modK (set_iflag c True))))))"

text \<open>The two reads of \<^verbatim>\<open>holding\<close>: of \<^verbatim>\<open>locked\<close>, and, if it is not 0, of \<^verbatim>\<open>cpu\<close>.\<close>

definition is_locked :: "lockid \<Rightarrow> (mach, bool) kop" where
  "is_locked l = getK (\<lambda>s. locked (locks s l) \<noteq> 0)"

definition is_mine :: "nat \<Rightarrow> lockid \<Rightarrow> (mach, bool) kop" where
  "is_mine c l = bindK (mycpu c) (\<lambda>i. getK (\<lambda>s. lcpu (locks s l) = Some i))"

definition holding :: "nat \<Rightarrow> lockid \<Rightarrow> (mach, bool) kop" where
  "holding c l =
     bindK (pushcli c) (\<lambda>_.
     bindK (is_locked l) (\<lambda>b.
     bindK (if b then is_mine c l else retK False) (\<lambda>r.
     bindK (popcli c) (\<lambda>_.
     retK r))))"

fun callerpcs_loop :: "bmem \<Rightarrow> nat \<Rightarrow> u32 \<Rightarrow> u32 list" where
  "callerpcs_loop m 0 ebp = []"
| "callerpcs_loop m (Suc n) ebp =
     (if ebp = 0 \<or> ebp < KERNBASE \<or> ebp = 0xFFFFFFFF then replicate (Suc n) 0
      else load32 m (ebp + 4) # callerpcs_loop m n (load32 m ebp))"

definition getcallerpcs :: "bmem \<Rightarrow> u32 \<Rightarrow> u32 list" where
  "getcallerpcs m v = callerpcs_loop m 10 (v - 8)"

definition upd_lock :: "lockid \<Rightarrow> (spinlock \<Rightarrow> spinlock) \<Rightarrow> mach \<Rightarrow> mach" where
  "upd_lock l f s = s\<lparr>locks := (locks s)(l := f (locks s l))\<rparr>"

definition set_pc :: "nat \<Rightarrow> pc \<Rightarrow> mach \<Rightarrow> mach" where
  "set_pc c p s = s\<lparr>pcs := (pcs s)(c := p)\<rparr>"

text \<open>The pieces of \<^verbatim>\<open>acquire\<close>. The first one returns whether the second one follows.\<close>

definition acquire_call :: "nat \<Rightarrow> lockid \<Rightarrow> (mach, bool) kop" where
  "acquire_call c l =
     bindK (pushcli c) (\<lambda>_.
     bindK (pushcli c) (\<lambda>_.
     bindK (is_locked l) (\<lambda>b.
     bindK (if b then modK (set_pc c (Chk l)) else bindK (popcli c) (\<lambda>_. modK (set_pc c (Spin l)))) (\<lambda>_.
     retK b))))"

definition acquire_check :: "nat \<Rightarrow> lockid \<Rightarrow> (mach, unit) kop" where
  "acquire_check c l =
     bindK (is_mine c l) (\<lambda>h.
     bindK (popcli c) (\<lambda>_.
     if h then panicK ''acquire'' else modK (set_pc c (Spin l))))"

text \<open>\<^verbatim>\<open>xchg(&lk->locked, 1)\<close>: the result is whether the loop ends.\<close>

definition acquire_xchg :: "nat \<Rightarrow> lockid \<Rightarrow> (mach, bool) kop" where
  "acquire_xchg c l =
     bindK (getK (\<lambda>s. locked (locks s l))) (\<lambda>old.
     bindK (modK (upd_lock l (\<lambda>k. k\<lparr>locked := 1\<rparr>))) (\<lambda>_.
     bindK (whenK (old = 0) (modK (set_pc c (Got l)))) (\<lambda>_.
     retK (old = 0))))"

definition acquire_cpu :: "nat \<Rightarrow> lockid \<Rightarrow> (mach, unit) kop" where
  "acquire_cpu c l =
     bindK (mycpu c) (\<lambda>i.
     bindK (modK (upd_lock l (\<lambda>k. k\<lparr>lcpu := Some i\<rparr>))) (\<lambda>_.
     modK (set_pc c (Trace l))))"

definition acquire_pcs :: "nat \<Rightarrow> lockid \<Rightarrow> (mach, unit) kop" where
  "acquire_pcs c l =
     bindK (modK (\<lambda>s. upd_lock l (\<lambda>k. k\<lparr>lpcs := getcallerpcs (stk s) (argp s c)\<rparr>) s)) (\<lambda>_.
     modK (\<lambda>s. (set_pc c Run s)\<lparr>own := (own s)(c := insert l (own s c))\<rparr>))"

text \<open>The pieces of \<^verbatim>\<open>release\<close>.\<close>

definition release_call :: "nat \<Rightarrow> lockid \<Rightarrow> (mach, unit) kop" where
  "release_call c l =
     bindK (pushcli c) (\<lambda>_.
     bindK (is_locked l) (\<lambda>b.
     if b then modK (set_pc c (RChk l)) else bindK (popcli c) (\<lambda>_. panicK ''release'')))"

definition release_check :: "nat \<Rightarrow> lockid \<Rightarrow> (mach, unit) kop" where
  "release_check c l =
     bindK (is_mine c l) (\<lambda>h.
     bindK (popcli c) (\<lambda>_.
     if \<not> h then panicK ''release'' else modK (set_pc c (RelP l))))"

definition release_pcs :: "nat \<Rightarrow> lockid \<Rightarrow> (mach, unit) kop" where
  "release_pcs c l =
     bindK (modK (upd_lock l (\<lambda>k. k\<lparr>lpcs := (lpcs k)[0 := 0]\<rparr>))) (\<lambda>_.
     modK (set_pc c (RelC l)))"

definition release_cpu :: "nat \<Rightarrow> lockid \<Rightarrow> (mach, unit) kop" where
  "release_cpu c l =
     bindK (modK (upd_lock l (\<lambda>k. k\<lparr>lcpu := None\<rparr>))) (\<lambda>_.
     modK (\<lambda>s. (set_pc c (Rel l) s)\<lparr>own := (own s)(c := own s c - {l})\<rparr>))"

definition release_store :: "nat \<Rightarrow> lockid \<Rightarrow> (mach, unit) kop" where
  "release_store c l =
     bindK (modK (upd_lock l (\<lambda>k. k\<lparr>locked := 0\<rparr>))) (\<lambda>_.
     bindK (modK (set_pc c Run)) (\<lambda>_.
     popcli c))"

text \<open>
  The two functions when no other processor comes in between. The loop of \<^verbatim>\<open>acquire\<close> then ends at
  once or never.
\<close>

definition spin_acquire :: "nat \<Rightarrow> lockid \<Rightarrow> (mach, unit) kop" where
  "spin_acquire c l =
     bindK (acquire_call c l) (\<lambda>b.
     bindK (whenK b (acquire_check c l)) (\<lambda>_.
     bindK (acquire_xchg c l) (\<lambda>got.
     if got then bindK (acquire_cpu c l) (\<lambda>_. acquire_pcs c l) else divergeK)))"

definition spin_release :: "nat \<Rightarrow> lockid \<Rightarrow> (mach, unit) kop" where
  "spin_release c l =
     bindK (release_call c l) (\<lambda>_.
     bindK (release_check c l) (\<lambda>_.
     bindK (release_pcs c l) (\<lambda>_.
     bindK (release_cpu c l) (\<lambda>_.
     release_store c l))))"

inductive cpu_step :: "nat \<Rightarrow> mach \<Rightarrow> mach \<Rightarrow> bool" for c where
  call_acquire: "pcs s c = Run \<Longrightarrow> acquire_call c l s = Ret b s' \<Longrightarrow> cpu_step c s s'"
| check: "pcs s c = Chk l \<Longrightarrow> acquire_check c l s = Ret () s' \<Longrightarrow> cpu_step c s s'"
| xchg: "pcs s c = Spin l \<Longrightarrow> acquire_xchg c l s = Ret b s' \<Longrightarrow> cpu_step c s s'"
| record_cpu: "pcs s c = Got l \<Longrightarrow> acquire_cpu c l s = Ret () s' \<Longrightarrow> cpu_step c s s'"
| record_pcs: "pcs s c = Trace l \<Longrightarrow> acquire_pcs c l s = Ret () s' \<Longrightarrow> cpu_step c s s'"
| call_release: "pcs s c = Run \<Longrightarrow> release_call c l s = Ret () s' \<Longrightarrow> cpu_step c s s'"
| recheck: "pcs s c = RChk l \<Longrightarrow> release_check c l s = Ret () s' \<Longrightarrow> cpu_step c s s'"
| clear_pcs: "pcs s c = RelP l \<Longrightarrow> release_pcs c l s = Ret () s' \<Longrightarrow> cpu_step c s s'"
| clear_cpu: "pcs s c = RelC l \<Longrightarrow> release_cpu c l s = Ret () s' \<Longrightarrow> cpu_step c s s'"
| store: "pcs s c = Rel l \<Longrightarrow> release_store c l s = Ret () s' \<Longrightarrow> cpu_step c s s'"

inductive lstep :: "mach \<Rightarrow> mach \<Rightarrow> bool" where
  some_cpu: "c < length (cpus s) \<Longrightarrow> cpu_step c s s' \<Longrightarrow> lstep s s'"

text \<open>The machine before the first lock is taken; interrupts may be on or off.\<close>

definition mach_start :: "mach \<Rightarrow> bool" where
  "mach_start s \<longleftrightarrow> distinct (map apicid (cpus s)) \<and> (\<forall>c < length (cpus s). lapic s c = apicid (cpus s ! c)) \<and>
     (\<forall>c < length (cpus s). ncli (cpus s ! c) = 0) \<and> (\<forall>c. pcs s c = Run) \<and> (\<forall>c. own s c = {}) \<and>
     (\<forall>l. locked (locks s l) = 0 \<and> lcpu (locks s l) = None)"

section \<open>The invariant\<close>

text \<open>How many calls of \<^verbatim>\<open>pushcli\<close> a processor has made in the function it is in.\<close>

definition busy :: "pc \<Rightarrow> int" where
  "busy p = (case p of Run \<Rightarrow> 0 | Chk l \<Rightarrow> 2 | RelP l \<Rightarrow> 0 | RelC l \<Rightarrow> 0 | _ \<Rightarrow> 1)"

text \<open>Processor \<open>c\<close> has set \<^verbatim>\<open>locked\<close>, and it is the one recorded in \<^verbatim>\<open>cpu\<close>.\<close>

definition has :: "mach \<Rightarrow> nat \<Rightarrow> lockid \<Rightarrow> bool" where
  "has s c l \<longleftrightarrow> l \<in> own s c \<or> pcs s c = Got l \<or> pcs s c = Trace l \<or> pcs s c = Rel l"

definition recd :: "mach \<Rightarrow> nat \<Rightarrow> lockid \<Rightarrow> bool" where
  "recd s c l \<longleftrightarrow> l \<in> own s c \<or> pcs s c = Trace l"

definition cpus_ok :: "mach \<Rightarrow> bool" where
  "cpus_ok s \<longleftrightarrow> distinct (map apicid (cpus s)) \<and> (\<forall>c < length (cpus s). lapic s c = apicid (cpus s ! c))"

fun pc_ok :: "lockid set \<Rightarrow> pc \<Rightarrow> bool" where
  "pc_ok w (Spin l) = (l \<notin> w)"
| "pc_ok w (Got l) = (l \<notin> w)"
| "pc_ok w (Trace l) = (l \<notin> w)"
| "pc_ok w (Rel l) = (l \<notin> w)"
| "pc_ok w (RelP l) = (l \<in> w)"
| "pc_ok w (RelC l) = (l \<in> w)"
| "pc_ok w _ = True"

text \<open>What concerns one processor only.\<close>

definition local_ok :: "mach \<Rightarrow> nat \<Rightarrow> bool" where
  "local_ok s c \<longleftrightarrow> finite (own s c) \<and> pc_ok (own s c) (pcs s c) \<and>
     (if c < length (cpus s) then ncli (cpus s ! c) = int (card (own s c)) + busy (pcs s c) \<and> (0 < ncli (cpus s ! c) \<longrightarrow> \<not> iflag s c)
      else pcs s c = Run \<and> own s c = {})"

definition minv :: "mach \<Rightarrow> bool" where
  "minv s \<longleftrightarrow> cpus_ok s \<and> (\<forall>c. local_ok s c) \<and>
     (\<forall>c d l. has s c l \<longrightarrow> has s d l \<longrightarrow> c = d) \<and>
     (\<forall>l. locked (locks s l) \<noteq> 0 \<longleftrightarrow> (\<exists>c. has s c l)) \<and>
     (\<forall>c l. lcpu (locks s l) = Some c \<longleftrightarrow> recd s c l)"

lemma minvD:
  assumes "minv s"
  shows "cpus_ok s" "local_ok s c" "has s c l \<Longrightarrow> has s d l \<Longrightarrow> c = d" "locked (locks s l) \<noteq> 0 \<longleftrightarrow> (\<exists>c. has s c l)"
    "lcpu (locks s l) = Some c \<longleftrightarrow> recd s c l"
  using assms unfolding minv_def by blast+

lemma minv_cpu:
  assumes "minv s" "c < length (cpus s)"
  shows "ncli (cpus s ! c) = int (card (own s c)) + busy (pcs s c)" "0 < ncli (cpus s ! c) \<Longrightarrow> \<not> iflag s c" "finite (own s c)"
    "pc_ok (own s c) (pcs s c)" "0 \<le> ncli (cpus s ! c)"
  using minvD(2) [OF assms(1), of c] assms(2) by (auto simp: local_ok_def busy_def split: pc.splits)

lemma recd_has: "recd s c l \<Longrightarrow> has s c l"
  by (auto simp: recd_def has_def)

text \<open>A step of processor \<open>c\<close>: it suffices to look at what concerns \<open>c\<close>, and at how the two fields of each lock follow it.\<close>

lemma minv_step:
  assumes inv: "minv s" and cpus: "cpus_ok s'" "length (cpus s') = length (cpus s)"
    and other: "\<And>d. d \<noteq> c \<Longrightarrow> pcs s' d = pcs s d \<and> own s' d = own s d \<and> cpus s' ! d = cpus s ! d \<and> iflag s' d = iflag s d"
    and loc: "local_ok s' c"
    and new: "\<And>k. has s' c k \<Longrightarrow> has s c k \<or> locked (locks s k) = 0"
    and word: "\<And>k. locked (locks s' k) \<noteq> 0 \<longleftrightarrow> has s' c k \<or> (locked (locks s k) \<noteq> 0 \<and> \<not> has s c k)"
    and rec: "\<And>k. lcpu (locks s' k) = (if recd s' c k then Some c else if recd s c k then None else lcpu (locks s k))"
  shows "minv s' \<and> (\<forall>d. d \<noteq> c \<longrightarrow> recd s' d = recd s d)"
proof
  note D = minvD [OF inv]
  have o: "has s' d k = has s d k" "recd s' d k = recd s d k" "local_ok s' d = local_ok s d" if "d \<noteq> c" for d k
    using other [OF that] cpus(2) by (simp_all add: has_def recd_def local_ok_def)
  show "\<forall>d. d \<noteq> c \<longrightarrow> recd s' d = recd s d" by (simp add: o fun_eq_iff)
  have excl: "\<not> has s' c k" if "has s d k" "d \<noteq> c" for d k using new [of k] D(3) [of c k d] D(4) [of k] that by blast
  show "minv s'" unfolding minv_def
  proof (intro conjI allI impI)
    fix d e k assume "has s' d k" "has s' e k"
    then show "d = e" using o(1) excl D(3) by (metis (full_types))
  next
    fix k show "locked (locks s' k) \<noteq> 0 \<longleftrightarrow> (\<exists>d. has s' d k)"
      unfolding word using o(1) D(3,4) by (metis (full_types))
  next
    fix d k show "lcpu (locks s' k) = Some d \<longleftrightarrow> recd s' d k"
      using D(5) [of k d] D(5) [of k c] o(2) [of d k] excl [of d k] recd_has [of s d k] recd_has [of s' c k] unfolding rec
      by (cases "d = c") (auto split: if_splits)
  qed (use cpus(1) loc o(3) D(2) in metis)+
qed

text \<open>A step that neither takes nor gives up anything.\<close>

lemma minv_private:
  assumes inv: "minv s" and cpus: "cpus_ok s'" "length (cpus s') = length (cpus s)"
    and other: "\<And>d. d \<noteq> c \<Longrightarrow> pcs s' d = pcs s d \<and> own s' d = own s d \<and> cpus s' ! d = cpus s ! d \<and> iflag s' d = iflag s d"
    and loc: "local_ok s' c"
    and same: "has s' c = has s c" "recd s' c = recd s c"
    and words: "\<And>k. locked (locks s' k) \<noteq> 0 \<longleftrightarrow> locked (locks s k) \<noteq> 0" "\<And>k. lcpu (locks s' k) = lcpu (locks s k)"
  shows "minv s'" "recd s' d = recd s d"
proof -
  note D = minvD [OF inv]
  have "minv s' \<and> (\<forall>d. d \<noteq> c \<longrightarrow> recd s' d = recd s d)"
    by (rule minv_step [OF inv cpus, of c]) (use other loc same words D(4) D(5) in auto)
  then show "minv s'" "recd s' d = recd s d" using same(2) by (cases "d = c"; simp)+
qed

section \<open>The pieces\<close>

lemma mycpu_run:
  assumes "cpus_ok s" "c < length (cpus s)" "\<not> iflag s c"
  shows "mycpu c s = Ret c s"
proof -
  have "find_idx (\<lambda>k. apicid k = lapic s c) (cpus s) = Some c"
  proof (rule find_idx_SomeI [OF assms(2)])
    show "apicid (cpus s ! c) = lapic s c" using assms by (simp add: cpus_ok_def)
    show "apicid (cpus s ! j) \<noteq> lapic s c" if "j < c" for j
      using assms that by (auto simp: cpus_ok_def distinct_conv_nth)
  qed
  with assms(3) show ?thesis by (simp add: mycpu_def)
qed

lemma upd_simps [simp]:
  "cpus (set_iflag c b s) = cpus s" "lapic (set_iflag c b s) = lapic s" "locks (set_iflag c b s) = locks s"
  "pcs (set_iflag c b s) = pcs s" "own (set_iflag c b s) = own s" "iflag (set_iflag c b s) = (iflag s)(c := b)"
  "stk (set_iflag c b s) = stk s" "argp (set_iflag c b s) = argp s"
  "cpus (upd_lock l g s) = cpus s" "lapic (upd_lock l g s) = lapic s" "pcs (upd_lock l g s) = pcs s"
  "own (upd_lock l g s) = own s" "iflag (upd_lock l g s) = iflag s" "locks (upd_lock l g s) = (locks s)(l := g (locks s l))"
  "stk (upd_lock l g s) = stk s" "argp (upd_lock l g s) = argp s"
  "cpus (set_pc c p s) = cpus s" "lapic (set_pc c p s) = lapic s" "locks (set_pc c p s) = locks s"
  "own (set_pc c p s) = own s" "iflag (set_pc c p s) = iflag s" "pcs (set_pc c p s) = (pcs s)(c := p)"
  "stk (set_pc c p s) = stk s" "argp (set_pc c p s) = argp s"
  "cpus (upd_cpu i f s) = (cpus s)[i := f (cpus s ! i)]" "lapic (upd_cpu i f s) = lapic s"
  "locks (upd_cpu i f s) = locks s" "pcs (upd_cpu i f s) = pcs s" "own (upd_cpu i f s) = own s"
  "iflag (upd_cpu i f s) = iflag s" "stk (upd_cpu i f s) = stk s" "argp (upd_cpu i f s) = argp s"
  by (simp_all add: set_iflag_def upd_lock_def set_pc_def upd_cpu_def)

lemma cpus_ok_upd [simp]:
  "cpus_ok (set_iflag c b s) = cpus_ok s" "cpus_ok (upd_lock l g s) = cpus_ok s" "cpus_ok (set_pc c p s) = cpus_ok s"
  "cpus_ok (s\<lparr>own := w\<rparr>) = cpus_ok s"
  by (simp_all add: cpus_ok_def)

lemma cpus_ok_upd_cpu:
  assumes "\<And>k. apicid (f k) = apicid k"
  shows "cpus_ok (upd_cpu i f s) = cpus_ok s"
proof -
  have "map apicid ((cpus s)[i := f (cpus s ! i)]) = map apicid (cpus s)"
    by (rule map_list_update_same) (rule assms)
  moreover have "apicid ((cpus s)[i := f (cpus s ! i)] ! c) = apicid (cpus s ! c)" if "c < length (cpus s)" for c
    using that by (cases "i = c") (simp_all add: assms)
  ultimately show ?thesis by (simp add: cpus_ok_def)
qed

text \<open>The states after \<open>pushcli\<close> and \<open>popcli\<close>.\<close>

definition pushed :: "nat \<Rightarrow> mach \<Rightarrow> mach" where
  "pushed c s = upd_cpu c (\<lambda>k. k\<lparr>intena := (if ncli k = 0 then iflag s c else intena k), ncli := ncli k + 1\<rparr>)
     (set_iflag c False s)"

definition popped :: "nat \<Rightarrow> mach \<Rightarrow> mach" where
  "popped c s = (let s' = upd_cpu c (\<lambda>k. k\<lparr>ncli := ncli k - 1\<rparr>) s
     in if ncli (cpus s ! c) = 1 \<and> intena (cpus s ! c) then set_iflag c True s' else s')"

lemma pushcli_run:
  assumes "cpus_ok s" "c < length (cpus s)"
  shows "pushcli c s = Ret () (pushed c s)"
proof -
  have "mycpu c (set_iflag c False s) = Ret c (set_iflag c False s)"
    using assms by (intro mycpu_run) simp_all
  then show ?thesis using assms(2)
    by (simp add: pushcli_def bindK_def pushed_def upd_cpu_def set_iflag_def)
qed

lemma popcli_run:
  assumes "cpus_ok s" "c < length (cpus s)" "\<not> iflag s c" "0 < ncli (cpus s ! c)"
  shows "popcli c s = Ret () (popped c s)"
  using assms mycpu_run [OF assms(1-3)] by (simp add: popcli_def bindK_def popped_def Let_def)

lemma pushed_simps [simp]:
  "pcs (pushed c s) = pcs s" "own (pushed c s) = own s" "locks (pushed c s) = locks s" "stk (pushed c s) = stk s" "argp (pushed c s) = argp s"
  "length (cpus (pushed c s)) = length (cpus s)" "cpus_ok (pushed c s) = cpus_ok s" "iflag (pushed c s) = (iflag s)(c := False)"
  "d \<noteq> c \<Longrightarrow> cpus (pushed c s) ! d = cpus s ! d" "c < length (cpus s) \<Longrightarrow> ncli (cpus (pushed c s) ! c) = ncli (cpus s ! c) + 1"
  by (simp_all add: pushed_def cpus_ok_upd_cpu)

lemma popped_simps [simp]:
  "pcs (popped c s) = pcs s" "own (popped c s) = own s" "locks (popped c s) = locks s" "stk (popped c s) = stk s" "argp (popped c s) = argp s"
  "length (cpus (popped c s)) = length (cpus s)" "cpus_ok (popped c s) = cpus_ok s"
  "d \<noteq> c \<Longrightarrow> cpus (popped c s) ! d = cpus s ! d" "d \<noteq> c \<Longrightarrow> iflag (popped c s) d = iflag s d"
  "c < length (cpus s) \<Longrightarrow> ncli (cpus (popped c s) ! c) = ncli (cpus s ! c) - 1"
  "ncli (cpus s ! c) \<noteq> 1 \<Longrightarrow> iflag (popped c s) = iflag s"
  by (simp_all add: popped_def Let_def cpus_ok_upd_cpu)

text \<open>\<open>pushcli\<close> and \<open>popcli\<close> nest: the flag \<^verbatim>\<open>FL_IF\<close> is restored by the last \<open>popcli\<close>.\<close>

lemma popped_pushed:
  assumes "c < length (cpus s)" "0 < ncli (cpus s ! c) \<longrightarrow> \<not> iflag s c" "0 \<le> ncli (cpus s ! c)"
  shows "popped c (pushed c s) = upd_cpu c (\<lambda>k. if ncli k = 0 then k\<lparr>intena := iflag s c\<rparr> else k) s"
  using assms by (auto simp: popped_def pushed_def Let_def upd_cpu_def set_iflag_def fun_upd_idem)

lemma popped_pushed_pushed:
  assumes "c < length (cpus s)" "0 \<le> ncli (cpus s ! c)"
  shows "popped c (pushed c (pushed c s)) = pushed c s"
  by (subst popped_pushed) (use assms in \<open>simp_all add: upd_cpu_def\<close>)

lemma is_mine_run:
  assumes "minv s" "c < length (cpus s)" "\<not> iflag s c"
  shows "is_mine c l s = Ret (recd s c l) s"
  using mycpu_run [OF minvD(1) [OF assms(1)] assms(2,3)] minvD(5) [OF assms(1), of l c] by (simp add: is_mine_def bindK_def)

lemma minv_pushed_locks:
  assumes "minv s" "c < length (cpus s)" "locks t = locks s" "cpus_ok t" "length (cpus t) = length (cpus s)" "\<not> iflag t c"
  shows "is_mine c l t = Ret (recd s c l) t"
  using mycpu_run [of t c] assms minvD(5) [OF assms(1), of l c] by (simp add: is_mine_def bindK_def)

lemma holding_run:
  assumes inv: "minv s" and c: "c < length (cpus s)"
  shows "holding c l s = Ret (recd s c l) (upd_cpu c (\<lambda>k. if ncli k = 0 then k\<lparr>intena := iflag s c\<rparr> else k) s)"
proof -
  note N = minv_cpu [OF inv c]
  have p: "pushcli c s = Ret () (pushed c s)" by (rule pushcli_run [OF minvD(1) [OF inv] c])
  have q: "popcli c (pushed c s) = Ret () (popped c (pushed c s))" by (rule popcli_run) (use minvD(1) [OF inv] c N(5) in simp_all)
  have r: "is_mine c l (pushed c s) = Ret (recd s c l) (pushed c s)" by (rule minv_pushed_locks [OF inv c]) (use minvD(1) [OF inv] c in simp_all)
  have "recd s c l \<Longrightarrow> locked (locks s l) \<noteq> 0" using minvD(4) [OF inv, of l] recd_has by blast
  then show ?thesis using p q r popped_pushed [OF c _ N(5)] N(2)
    by (auto simp: holding_def is_locked_def bindK_def)
qed

lemma acquire_call_run:
  assumes inv: "minv s" and c: "c < length (cpus s)"
  shows "acquire_call c l s = (if locked (locks s l) \<noteq> 0 then Ret True (set_pc c (Chk l) (pushed c (pushed c s)))
    else Ret False (set_pc c (Spin l) (pushed c s)))"
proof -
  note N = minv_cpu [OF inv c]
  have p: "pushcli c s = Ret () (pushed c s)" "pushcli c (pushed c s) = Ret () (pushed c (pushed c s))"
    using minvD(1) [OF inv] c by (simp_all add: pushcli_run)
  have "popcli c (pushed c (pushed c s)) = Ret () (pushed c s)"
    using popcli_run [of "pushed c (pushed c s)" c] popped_pushed_pushed [OF c N(5)] minvD(1) [OF inv] c N(5) by simp
  then show ?thesis using p by (simp add: acquire_call_def is_locked_def bindK_def)
qed

lemma acquire_check_run:
  assumes inv: "minv s" and c: "c < length (cpus s)" "pcs s c = Chk l"
  shows "acquire_check c l s = (if recd s c l then Panic ''acquire'' else Ret () (set_pc c (Spin l) (popped c s)))"
proof -
  note N = minv_cpu [OF inv c(1)]
  have n: "2 \<le> ncli (cpus s ! c)" using N(1) c(2) by (simp add: busy_def)
  have "is_mine c l s = Ret (recd s c l) s" "popcli c s = Ret () (popped c s)"
    using is_mine_run [OF inv c(1)] popcli_run [OF minvD(1) [OF inv] c(1)] N(2) n by simp_all
  then show ?thesis by (simp add: acquire_check_def bindK_def)
qed

lemma acquire_cpu_run:
  assumes inv: "minv s" and c: "c < length (cpus s)" "pcs s c = Got l"
  shows "acquire_cpu c l s = Ret () (set_pc c (Trace l) (upd_lock l (\<lambda>k. k\<lparr>lcpu := Some c\<rparr>) s))"
proof -
  note N = minv_cpu [OF inv c(1)]
  have "\<not> iflag s c" using N(1,2) c(2) by (simp add: busy_def)
  then show ?thesis using mycpu_run [OF minvD(1) [OF inv] c(1)] by (simp add: acquire_cpu_def bindK_def)
qed

lemma release_call_run:
  assumes inv: "minv s" and c: "c < length (cpus s)"
  shows "release_call c l s = (if locked (locks s l) = 0 then Panic ''release'' else Ret () (set_pc c (RChk l) (pushed c s)))"
proof -
  note N = minv_cpu [OF inv c]
  have "popcli c (pushed c s) = Ret () (popped c (pushed c s))" by (rule popcli_run) (use minvD(1) [OF inv] c N(5) in simp_all)
  then show ?thesis using pushcli_run [OF minvD(1) [OF inv] c] by (simp add: release_call_def is_locked_def bindK_def)
qed

lemma release_check_run:
  assumes inv: "minv s" and c: "c < length (cpus s)" "pcs s c = RChk l"
  shows "release_check c l s = (if recd s c l then Ret () (set_pc c (RelP l) (popped c s)) else Panic ''release'')"
proof -
  note N = minv_cpu [OF inv c(1)]
  have n: "1 \<le> ncli (cpus s ! c)" using N(1) c(2) by (simp add: busy_def)
  have "is_mine c l s = Ret (recd s c l) s" "popcli c s = Ret () (popped c s)"
    using is_mine_run [OF inv c(1)] popcli_run [OF minvD(1) [OF inv] c(1)] N(2) n by simp_all
  then show ?thesis by (simp add: release_check_def bindK_def)
qed

lemma release_store_run:
  assumes inv: "minv s" and c: "c < length (cpus s)" "pcs s c = Rel l"
  shows "release_store c l s = Ret () (popped c (set_pc c Run (upd_lock l (\<lambda>k. k\<lparr>locked := 0\<rparr>) s)))"
proof -
  note N = minv_cpu [OF inv c(1)]
  let ?t = "set_pc c Run (upd_lock l (\<lambda>k. k\<lparr>locked := 0\<rparr>) s)"
  have "popcli c ?t = Ret () (popped c ?t)"
    using minvD(1) [OF inv] N(1,2) c by (intro popcli_run) (simp_all add: busy_def)
  then show ?thesis by (simp add: release_store_def)
qed

section \<open>The invariant is kept\<close>

text \<open>A step of \<open>c\<close> changes at most one record: \<open>c\<close> is entered in a lock that nobody holds, or taken out of one that it holds.\<close>

definition moves :: "nat \<Rightarrow> mach \<Rightarrow> mach \<Rightarrow> bool" where
  "moves c s s' \<longleftrightarrow> (\<forall>d. d \<noteq> c \<longrightarrow> recd s' d = recd s d) \<and>
     (recd s' c = recd s c \<or> (\<exists>l. \<not> recd s c l \<and> recd s' c = (recd s c)(l := True)) \<or> (\<exists>l. recd s c l \<and> recd s' c = (recd s c)(l := False)))"

lemma private_step:
  assumes "minv s" "cpus_ok s'" "length (cpus s') = length (cpus s)"
    "\<And>d. d \<noteq> c \<Longrightarrow> pcs s' d = pcs s d \<and> own s' d = own s d \<and> cpus s' ! d = cpus s ! d \<and> iflag s' d = iflag s d"
    "local_ok s' c" "has s' c = has s c" "recd s' c = recd s c"
    "\<And>k. locked (locks s' k) \<noteq> 0 \<longleftrightarrow> locked (locks s k) \<noteq> 0" "\<And>k. lcpu (locks s' k) = lcpu (locks s k)"
  shows "minv s' \<and> moves c s s'"
  using minv_private [OF assms] by (simp add: moves_def)

lemma step_acquire_call:
  assumes inv: "minv s" and c: "c < length (cpus s)" "pcs s c = Run" and r: "acquire_call c l s = Ret b s'"
  shows "minv s' \<and> moves c s s'"
proof -
  note N = minv_cpu [OF inv c(1)]
  have s': "s' = (if locked (locks s l) \<noteq> 0 then set_pc c (Chk l) (pushed c (pushed c s)) else set_pc c (Spin l) (pushed c s))"
    using r acquire_call_run [OF inv c(1), of l] by (auto split: if_splits)
  have "locked (locks s l) = 0 \<Longrightarrow> l \<notin> own s c" using minvD(4) [OF inv, of l] by (auto simp: has_def)
  then show ?thesis using c N minvD(1) [OF inv]
    by (intro private_step [OF inv]) (auto simp: s' local_ok_def busy_def has_def recd_def fun_eq_iff)
qed

lemma step_acquire_check:
  assumes inv: "minv s" and c: "c < length (cpus s)" "pcs s c = Chk l" and r: "acquire_check c l s = Ret () s'"
  shows "minv s' \<and> moves c s s'"
proof -
  note N = minv_cpu [OF inv c(1)]
  have l: "\<not> recd s c l" and s': "s' = set_pc c (Spin l) (popped c s)" using r acquire_check_run [OF inv c] by (auto split: if_splits)
  have "ncli (cpus s ! c) \<noteq> 1" using N(1) c(2) by (simp add: busy_def)
  then show ?thesis using c N l minvD(1) [OF inv]
    by (intro private_step [OF inv]) (auto simp: s' local_ok_def busy_def has_def recd_def fun_eq_iff)
qed

lemma step_xchg:
  assumes inv: "minv s" and c: "c < length (cpus s)" "pcs s c = Spin l" and r: "acquire_xchg c l s = Ret b s'"
  shows "minv s' \<and> moves c s s'"
proof (cases "locked (locks s l) = 0")
  case True
  note N = minv_cpu [OF inv c(1)]
  have s': "s' = set_pc c (Got l) (upd_lock l (\<lambda>k. k\<lparr>locked := 1\<rparr>) s)" using r True by (simp add: acquire_xchg_def)
  have has: "has s' c k \<longleftrightarrow> has s c k \<or> k = l" and rec: "recd s' c k = recd s c k" for k using c by (auto simp: has_def recd_def s')
  have loc: "local_ok s' c" using N c by (simp add: s' local_ok_def busy_def)
  have w: "locked (locks s' k) \<noteq> 0 \<longleftrightarrow> has s' c k \<or> (locked (locks s k) \<noteq> 0 \<and> \<not> has s c k)" for k
    using minvD(4) [OF inv, of k] unfolding has by (cases "k = l") (auto simp: s')
  have q: "lcpu (locks s' k) = (if recd s' c k then Some c else if recd s c k then None else lcpu (locks s k))" for k
    using minvD(5) [OF inv, of k c] unfolding rec by (auto simp: s')
  have "minv s' \<and> (\<forall>d. d \<noteq> c \<longrightarrow> recd s' d = recd s d)"
    by (rule minv_step [OF inv _ _ _ loc _ w q]) (use True has minvD(1) [OF inv] in \<open>auto simp: s'\<close>)
  then show ?thesis using rec by (simp add: moves_def fun_eq_iff)
next
  case False
  have s': "s' = upd_lock l (\<lambda>k. k\<lparr>locked := 1\<rparr>) s" using r False by (simp add: acquire_xchg_def)
  show ?thesis using False minvD(1) [OF inv] minvD(2) [OF inv, of c]
    by (intro private_step [OF inv]) (auto simp: s' local_ok_def has_def recd_def fun_eq_iff)
qed

lemma step_acquire_cpu:
  assumes inv: "minv s" and c: "c < length (cpus s)" "pcs s c = Got l" and r: "acquire_cpu c l s = Ret () s'"
  shows "minv s' \<and> moves c s s'"
proof -
  note N = minv_cpu [OF inv c(1)]
  have s': "s' = set_pc c (Trace l) (upd_lock l (\<lambda>k. k\<lparr>lcpu := Some c\<rparr>) s)" using r acquire_cpu_run [OF inv c] by simp
  have has: "has s' c k = has s c k" and rec: "recd s' c k \<longleftrightarrow> recd s c k \<or> k = l" for k using c by (auto simp: has_def recd_def s')
  have loc: "local_ok s' c" using N c by (simp add: s' local_ok_def busy_def)
  have w: "locked (locks s' k) \<noteq> 0 \<longleftrightarrow> has s' c k \<or> (locked (locks s k) \<noteq> 0 \<and> \<not> has s c k)" for k
    using minvD(4) [OF inv, of k] unfolding has by (auto simp: s')
  have q: "lcpu (locks s' k) = (if recd s' c k then Some c else if recd s c k then None else lcpu (locks s k))" for k
    using minvD(5) [OF inv, of k c] unfolding rec by (auto simp: s')
  have m: "minv s' \<and> (\<forall>d. d \<noteq> c \<longrightarrow> recd s' d = recd s d)"
    by (rule minv_step [OF inv _ _ _ loc _ w q]) (use has minvD(1) [OF inv] in \<open>auto simp: s'\<close>)
  have "\<not> recd s c l" using N(4) c(2) by (simp add: recd_def)
  then have "\<exists>l. \<not> recd s c l \<and> recd s' c = (recd s c)(l := True)" using rec by (intro exI [of _ l]) (auto simp: fun_eq_iff)
  then show ?thesis using m by (simp add: moves_def)
qed

lemma step_acquire_pcs:
  assumes inv: "minv s" and c: "c < length (cpus s)" "pcs s c = Trace l" and r: "acquire_pcs c l s = Ret () s'"
  shows "minv s' \<and> moves c s s'"
proof -
  note N = minv_cpu [OF inv c(1)]
  have s': "s' = (set_pc c Run (upd_lock l (\<lambda>k. k\<lparr>lpcs := getcallerpcs (stk s) (argp s c)\<rparr>) s))\<lparr>own := (own s)(c := insert l (own s c))\<rparr>"
    using r by (simp add: acquire_pcs_def)
  have "l \<notin> own s c" using N(4) c(2) by simp
  then have loc: "local_ok s' c" using N c by (simp add: s' local_ok_def busy_def)
  show ?thesis using c minvD(1) [OF inv]
    by (intro private_step [OF inv _ _ _ loc]) (auto simp: s' has_def recd_def fun_eq_iff)
qed

lemma step_release_call:
  assumes inv: "minv s" and c: "c < length (cpus s)" "pcs s c = Run" and r: "release_call c l s = Ret () s'"
  shows "minv s' \<and> moves c s s'"
proof -
  note N = minv_cpu [OF inv c(1)]
  have s': "s' = set_pc c (RChk l) (pushed c s)" using r release_call_run [OF inv c(1), of l] by (auto split: if_splits)
  show ?thesis using c N minvD(1) [OF inv]
    by (intro private_step [OF inv]) (auto simp: s' local_ok_def busy_def has_def recd_def fun_eq_iff)
qed

lemma own_card: "finite A \<Longrightarrow> l \<in> A \<Longrightarrow> 1 \<le> int (card A) \<and> int (card (A - {l})) = int (card A) - 1"
  using card.remove [of A l] by simp

lemma step_release_check:
  assumes inv: "minv s" and c: "c < length (cpus s)" "pcs s c = RChk l" and r: "release_check c l s = Ret () s'"
  shows "minv s' \<and> moves c s s'"
proof -
  note N = minv_cpu [OF inv c(1)]
  have l: "recd s c l" and s': "s' = set_pc c (RelP l) (popped c s)" using r release_check_run [OF inv c] by (auto split: if_splits)
  then have o: "l \<in> own s c" using c(2) by (simp add: recd_def)
  then have "ncli (cpus s ! c) \<noteq> 1" using N(1) own_card [OF N(3) o] c(2) by (simp add: busy_def)
  then show ?thesis using c N o minvD(1) [OF inv]
    by (intro private_step [OF inv]) (auto simp: s' local_ok_def busy_def has_def recd_def fun_eq_iff)
qed

lemma step_release_pcs:
  assumes inv: "minv s" and c: "c < length (cpus s)" "pcs s c = RelP l" and r: "release_pcs c l s = Ret () s'"
  shows "minv s' \<and> moves c s s'"
proof -
  note N = minv_cpu [OF inv c(1)]
  have s': "s' = set_pc c (RelC l) (upd_lock l (\<lambda>k. k\<lparr>lpcs := (lpcs k)[0 := 0]\<rparr>) s)" using r by (simp add: release_pcs_def)
  have loc: "local_ok s' c" using N c by (simp add: s' local_ok_def busy_def)
  show ?thesis using c minvD(1) [OF inv]
    by (intro private_step [OF inv _ _ _ loc]) (auto simp: s' has_def recd_def fun_eq_iff)
qed

lemma step_release_cpu:
  assumes inv: "minv s" and c: "c < length (cpus s)" "pcs s c = RelC l" and r: "release_cpu c l s = Ret () s'"
  shows "minv s' \<and> moves c s s'"
proof -
  note N = minv_cpu [OF inv c(1)]
  have s': "s' = (set_pc c (Rel l) (upd_lock l (\<lambda>k. k\<lparr>lcpu := None\<rparr>) s))\<lparr>own := (own s)(c := own s c - {l})\<rparr>"
    using r by (simp add: release_cpu_def)
  have o: "l \<in> own s c" using N(4) c(2) by simp
  have has: "has s' c k = has s c k" and rec: "recd s' c k \<longleftrightarrow> recd s c k \<and> k \<noteq> l" for k using c o by (auto simp: has_def recd_def s')
  have loc: "local_ok s' c" using N c own_card [OF N(3) o] by (simp add: s' local_ok_def busy_def)
  have w: "locked (locks s' k) \<noteq> 0 \<longleftrightarrow> has s' c k \<or> (locked (locks s k) \<noteq> 0 \<and> \<not> has s c k)" for k
    using minvD(4) [OF inv, of k] unfolding has by (auto simp: s')
  have ol: "recd s c l" using o by (simp add: recd_def)
  have q: "lcpu (locks s' k) = (if recd s' c k then Some c else if recd s c k then None else lcpu (locks s k))" for k
    using minvD(5) [OF inv, of k c] ol unfolding rec by (auto simp: s')
  have m: "minv s' \<and> (\<forall>d. d \<noteq> c \<longrightarrow> recd s' d = recd s d)"
    by (rule minv_step [OF inv _ _ _ loc _ w q]) (use has minvD(1) [OF inv] in \<open>auto simp: s'\<close>)
  have "\<exists>l. recd s c l \<and> recd s' c = (recd s c)(l := False)" using rec ol by (intro exI [of _ l]) (auto simp: fun_eq_iff)
  then show ?thesis using m by (simp add: moves_def)
qed

lemma step_release_store:
  assumes inv: "minv s" and c: "c < length (cpus s)" "pcs s c = Rel l" and r: "release_store c l s = Ret () s'"
  shows "minv s' \<and> moves c s s'"
proof -
  note N = minv_cpu [OF inv c(1)]
  let ?t = "set_pc c Run (upd_lock l (\<lambda>k. k\<lparr>locked := 0\<rparr>) s)"
  have s': "s' = popped c ?t" using r release_store_run [OF inv c] by simp
  have o: "l \<notin> own s c" using N(4) c(2) by simp
  have has: "has s' c k \<longleftrightarrow> has s c k \<and> k \<noteq> l" and rec: "recd s' c k = recd s c k" for k using c o by (auto simp: has_def recd_def s')
  have hl: "has s c l" using c(2) by (simp add: has_def)
  have "0 < ncli (cpus s' ! c) \<Longrightarrow> iflag s' c = iflag ?t c" using c(1) by (subst (asm) s', subst s', subst popped_simps(11)) auto
  then have loc: "local_ok s' c" using N c by (auto simp: s' local_ok_def busy_def)
  have w: "locked (locks s' k) \<noteq> 0 \<longleftrightarrow> has s' c k \<or> (locked (locks s k) \<noteq> 0 \<and> \<not> has s c k)" for k
    using minvD(4) [OF inv, of k] hl unfolding has by (cases "k = l") (auto simp: s')
  have q: "lcpu (locks s' k) = (if recd s' c k then Some c else if recd s c k then None else lcpu (locks s k))" for k
    using minvD(5) [OF inv, of k c] unfolding rec by (auto simp: s')
  have "minv s' \<and> (\<forall>d. d \<noteq> c \<longrightarrow> recd s' d = recd s d)"
    by (rule minv_step [OF inv _ _ _ loc _ w q]) (use has minvD(1) [OF inv] in \<open>auto simp: s'\<close>)
  then show ?thesis using rec by (simp add: moves_def fun_eq_iff)
qed

lemmas piece_steps = step_acquire_call step_acquire_check step_xchg step_acquire_cpu step_acquire_pcs
  step_release_call step_release_check step_release_pcs step_release_cpu step_release_store

lemma cpu_step_keeps: "cpu_step c s s' \<Longrightarrow> minv s \<Longrightarrow> c < length (cpus s) \<Longrightarrow> minv s' \<and> moves c s s'"
  by (induction rule: cpu_step.induct) (rule piece_steps; assumption)+

lemma minv_lstep: "lstep s s' \<Longrightarrow> minv s \<Longrightarrow> minv s'"
  by (induction rule: lstep.induct) (simp add: cpu_step_keeps)

lemma minv_start: "mach_start s \<Longrightarrow> minv s"
  unfolding minv_def local_ok_def by (auto simp: mach_start_def cpus_ok_def has_def recd_def busy_def)

lemma minv_reachable: "lstep\<^sup>*\<^sup>* s t \<Longrightarrow> minv s \<Longrightarrow> minv t"
  by (induction rule: rtranclp_induct) (auto intro: minv_lstep)

section \<open>The locks as the rest of the kernel sees them\<close>

text \<open>The locks that are held by processor \<open>c\<close>, read off their fields as \<^verbatim>\<open>holding\<close> does.\<close>

definition holds :: "mach \<Rightarrow> nat \<Rightarrow> lockid set" where
  "holds s c = {l. locked (locks s l) \<noteq> 0 \<and> lcpu (locks s l) = Some c}"

lemma holds_recd: "minv s \<Longrightarrow> l \<in> holds s c \<longleftrightarrow> recd s c l"
  using minvD(4,5) [of s l] recd_has [of s c l] by (auto simp: holds_def)

lemma spin_acquire_run:
  assumes inv: "minv s" and c: "c < length (cpus s)" "pcs s c = Run"
  shows "l \<in> holds s c \<Longrightarrow> spin_acquire c l s = Panic ''acquire''"
    "l \<notin> holds s c \<Longrightarrow> locked (locks s l) \<noteq> 0 \<Longrightarrow> spin_acquire c l s = Diverge"
    "locked (locks s l) = 0 \<Longrightarrow> \<exists>t. spin_acquire c l s = Ret () t \<and> minv t \<and> pcs t = pcs s \<and> length (cpus t) = length (cpus s) \<and>
       locks t = (locks s)(l := \<lparr>locked = 1, lcpu = Some c, lpcs = getcallerpcs (stk s) (argp s c)\<rparr>) \<and> own t = (own s)(c := insert l (own s c))"
proof -
  let ?a = "set_pc c (Chk l) (pushed c (pushed c s))"
  have ca: "c < length (cpus ?a)" "pcs ?a c = Chk l" "recd ?a c l = recd s c l" using c by (simp_all add: recd_def)
  have a: "acquire_call c l s = Ret True ?a \<and> minv ?a" if "locked (locks s l) \<noteq> 0"
    using that acquire_call_run [OF inv c(1), of l] step_acquire_call [OF inv c, of l] by simp
  show "spin_acquire c l s = Panic ''acquire''" if h: "l \<in> holds s c"
  proof -
    have l: "locked (locks s l) \<noteq> 0" "recd s c l" using h holds_recd [OF inv] by (auto simp: holds_def)
    then show ?thesis using a acquire_check_run [OF _ ca(1,2)] ca(3) by (simp add: spin_acquire_def bindK_def)
  qed
  show "spin_acquire c l s = Diverge" if h: "l \<notin> holds s c" "locked (locks s l) \<noteq> 0"
  proof -
    have "\<not> recd s c l" using h(1) holds_recd [OF inv] by simp
    then show ?thesis using h(2) a acquire_check_run [OF _ ca(1,2)] ca(3)
      by (simp add: spin_acquire_def bindK_def acquire_xchg_def divergeK_def)
  qed
  show "\<exists>t. spin_acquire c l s = Ret () t \<and> minv t \<and> pcs t = pcs s \<and> length (cpus t) = length (cpus s) \<and>
       locks t = (locks s)(l := \<lparr>locked = 1, lcpu = Some c, lpcs = getcallerpcs (stk s) (argp s c)\<rparr>) \<and> own t = (own s)(c := insert l (own s c))"
    if h: "locked (locks s l) = 0"
  proof -
    define a where "a = set_pc c (Spin l) (pushed c s)"
    define x where "x = set_pc c (Got l) (upd_lock l (\<lambda>k. k\<lparr>locked := 1\<rparr>) a)"
    define y where "y = set_pc c (Trace l) (upd_lock l (\<lambda>k. k\<lparr>lcpu := Some c\<rparr>) x)"
    define t where "t = (set_pc c Run (upd_lock l (\<lambda>k. k\<lparr>lpcs := getcallerpcs (stk s) (argp s c)\<rparr>) y))\<lparr>own := (own s)(c := insert l (own s c))\<rparr>"
    have r1: "acquire_call c l s = Ret False a" using h acquire_call_run [OF inv c(1), of l] by (simp add: a_def)
    have ia: "minv a" using step_acquire_call [OF inv c r1] by simp
    have r2: "acquire_xchg c l a = Ret True x" using h by (simp add: acquire_xchg_def a_def x_def)
    have ix: "minv x" using step_xchg [OF ia _ _ r2] c by (simp add: a_def)
    have r3: "acquire_cpu c l x = Ret () y" using acquire_cpu_run [OF ix, of c l] c by (simp add: x_def y_def a_def)
    have iy: "minv y" using step_acquire_cpu [OF ix _ _ r3] c by (simp add: x_def a_def)
    have r4: "acquire_pcs c l y = Ret () t" by (simp add: acquire_pcs_def t_def y_def x_def a_def)
    have "minv t" using step_acquire_pcs [OF iy _ _ r4] c by (simp add: y_def x_def a_def)
    moreover have "spin_acquire c l s = Ret () t" using r1 r2 r3 r4 by (simp add: spin_acquire_def bindK_def)
    moreover have "locks t = (locks s)(l := \<lparr>locked = 1, lcpu = Some c, lpcs = getcallerpcs (stk s) (argp s c)\<rparr>)"
      by (cases "locks s l") (simp add: t_def y_def x_def a_def)
    moreover have "pcs t = pcs s" using c(2) by (auto simp: t_def y_def x_def a_def)
    ultimately show ?thesis by (intro exI [of _ t]) (simp add: t_def y_def x_def a_def)
  qed
qed

lemma spin_release_run:
  assumes inv: "minv s" and c: "c < length (cpus s)" "pcs s c = Run"
  shows "l \<notin> holds s c \<Longrightarrow> spin_release c l s = Panic ''release''"
    "l \<in> holds s c \<Longrightarrow> \<exists>t. spin_release c l s = Ret () t \<and> minv t \<and> pcs t = pcs s \<and> length (cpus t) = length (cpus s) \<and>
       locks t = (locks s)(l := \<lparr>locked = 0, lcpu = None, lpcs = (lpcs (locks s l))[0 := 0]\<rparr>) \<and> own t = (own s)(c := own s c - {l})"
proof -
  define a where "a = set_pc c (RChk l) (pushed c s)"
  have ca: "c < length (cpus a)" "pcs a c = RChk l" "recd a c l = recd s c l" using c by (simp_all add: a_def recd_def)
  have a: "release_call c l s = Ret () a" "minv a" if "locked (locks s l) \<noteq> 0"
    using that release_call_run [OF inv c(1), of l] step_release_call [OF inv c, of l] by (simp_all add: a_def)
  show "spin_release c l s = Panic ''release''" if h: "l \<notin> holds s c"
  proof (cases "locked (locks s l) = 0")
    case True
    then show ?thesis using release_call_run [OF inv c(1), of l] by (simp add: spin_release_def bindK_def)
  next
    case False
    then show ?thesis using a release_check_run [OF _ ca(1,2)] ca(3) h holds_recd [OF inv] by (simp add: spin_release_def bindK_def)
  qed
  show "\<exists>t. spin_release c l s = Ret () t \<and> minv t \<and> pcs t = pcs s \<and> length (cpus t) = length (cpus s) \<and>
       locks t = (locks s)(l := \<lparr>locked = 0, lcpu = None, lpcs = (lpcs (locks s l))[0 := 0]\<rparr>) \<and> own t = (own s)(c := own s c - {l})"
    if h: "l \<in> holds s c"
  proof -
    have l: "locked (locks s l) \<noteq> 0" "recd s c l" using h holds_recd [OF inv] by (auto simp: holds_def)
    define x where "x = set_pc c (RelP l) (popped c a)"
    define y where "y = set_pc c (RelC l) (upd_lock l (\<lambda>k. k\<lparr>lpcs := (lpcs k)[0 := 0]\<rparr>) x)"
    define z where "z = (set_pc c (Rel l) (upd_lock l (\<lambda>k. k\<lparr>lcpu := None\<rparr>) y))\<lparr>own := (own s)(c := own s c - {l})\<rparr>"
    define t where "t = popped c (set_pc c Run (upd_lock l (\<lambda>k. k\<lparr>locked := 0\<rparr>) z))"
    note F = a_def x_def y_def z_def t_def
    have r2: "release_check c l a = Ret () x" using release_check_run [OF a(2) [OF l(1)] ca(1,2)] l(2) ca(3) by (simp add: x_def)
    have ix: "minv x" using step_release_check [OF a(2) [OF l(1)] ca(1,2) r2] by simp
    have r3: "release_pcs c l x = Ret () y" by (simp add: release_pcs_def y_def)
    have iy: "minv y" using step_release_pcs [OF ix _ _ r3] c by (simp add: F)
    have r4: "release_cpu c l y = Ret () z" by (simp add: release_cpu_def F)
    have iz: "minv z" using step_release_cpu [OF iy _ _ r4] c by (simp add: F)
    have r5: "release_store c l z = Ret () t" using release_store_run [OF iz, of c l] c by (simp add: F)
    have "minv t" using step_release_store [OF iz _ _ r5] c by (simp add: F)
    moreover have "spin_release c l s = Ret () t" using a(1) [OF l(1)] r2 r3 r4 r5 by (simp add: spin_release_def bindK_def)
    moreover have "locks t = (locks s)(l := \<lparr>locked = 0, lcpu = None, lpcs = (lpcs (locks s l))[0 := 0]\<rparr>)" by (cases "locks s l") (simp add: F)
    moreover have "pcs t = pcs s" using c(2) by (auto simp: F)
    ultimately show ?thesis by (intro exI [of _ t]) (simp add: F)
  qed
qed

text \<open>No other processor is in a lock function or holds a lock.\<close>

definition quiet :: "nat \<Rightarrow> mach \<Rightarrow> bool" where
  "quiet c s \<longleftrightarrow> minv s \<and> c < length (cpus s) \<and> (\<forall>d. pcs s d = Run) \<and> (\<forall>d. d \<noteq> c \<longrightarrow> own s d = {})"

lemma quiet_free: "quiet c s \<Longrightarrow> l \<notin> holds s c \<Longrightarrow> locked (locks s l) = 0"
  using minvD(4) [of s l] holds_recd [of s l c] by (fastforce simp: quiet_def has_def recd_def)

interpretation cpu_locks: spin_locks "spin_acquire c" "spin_release c" "\<lambda>s. holds s c" "quiet c" for c
proof unfold_locales
  fix s l
  assume q: "quiet c s"
  then have inv: "minv s" "c < length (cpus s)" "pcs s c = Run" by (simp_all add: quiet_def)
  show "\<exists>s'. spin_acquire c l s = Ret () s' \<and> holds s' c = insert l (holds s c) \<and> quiet c s'" if h: "l \<notin> holds s c"
  proof -
    from spin_acquire_run(3) [OF inv quiet_free [OF q h]] obtain t where
      "spin_acquire c l s = Ret () t" "minv t" "pcs t = pcs s" "length (cpus t) = length (cpus s)"
      "locks t = (locks s)(l := \<lparr>locked = 1, lcpu = Some c, lpcs = getcallerpcs (stk s) (argp s c)\<rparr>)" "own t = (own s)(c := insert l (own s c))" by blast
    then show ?thesis using q by (intro exI [of _ t]) (auto simp: holds_def quiet_def)
  qed
  show "spin_acquire c l s = Panic ''acquire''" if "l \<in> holds s c" by (rule spin_acquire_run(1) [OF inv that])
  show "\<exists>s'. spin_release c l s = Ret () s' \<and> holds s' c = holds s c - {l} \<and> quiet c s'" if h: "l \<in> holds s c"
  proof -
    from spin_release_run(2) [OF inv h] obtain t where
      "spin_release c l s = Ret () t" "minv t" "pcs t = pcs s" "length (cpus t) = length (cpus s)"
      "locks t = (locks s)(l := \<lparr>locked = 0, lcpu = None, lpcs = (lpcs (locks s l))[0 := 0]\<rparr>)" "own t = (own s)(c := own s c - {l})" by blast
    then show ?thesis using q by (intro exI [of _ t]) (auto simp: holds_def quiet_def)
  qed
  show "spin_release c l s = Panic ''release''" if "l \<notin> holds s c" by (rule spin_release_run(1) [OF inv that])
qed

section \<open>Properties\<close>

text \<open>
  C12: mutual exclusion. Whatever the interleaving of the processors, a lock is in the hands of at
  most one processor, is marked as locked while it is, and its holder has interrupts turned off;
  \<^verbatim>\<open>holding()\<close> returns whether the processor that asks is the holder.
\<close>

theorem spinlock_mutual_exclusion:
  assumes "mach_start s" "lstep\<^sup>*\<^sup>* s t" "c < length (cpus t)" "l \<in> own t c"
  shows "(\<forall>d. l \<in> own t d \<longrightarrow> d = c) \<and> locked (locks t l) \<noteq> 0 \<and> \<not> iflag t c \<and>
    (\<forall>d < length (cpus t). \<exists>t'. holding d l t = Ret (d = c) t')"
proof -
  have inv: "minv t" using minv_reachable [OF assms(2) minv_start [OF assms(1)]] .
  note N = minv_cpu [OF inv assms(3)]
  have r: "recd t c l" "has t c l" using assms(4) by (simp_all add: recd_def has_def)
  have u: "d = c" if "recd t d l" for d using minvD(3) [OF inv recd_has [OF that] r(2)] .
  have "0 \<le> busy (pcs t c)" by (simp add: busy_def split: pc.split)
  then have "0 < ncli (cpus t ! c)" using N(1) own_card [OF N(3) assms(4)] by simp
  moreover have "locked (locks t l) \<noteq> 0" using minvD(4) [OF inv, of l] r(2) by blast
  moreover have "\<exists>t'. holding d l t = Ret (d = c) t'" if "d < length (cpus t)" for d
  proof -
    have "recd t d l \<longleftrightarrow> d = c" using u r(1) by blast
    with holding_run [OF inv that, of l] show ?thesis by simp
  qed
  moreover have "d = c" if "l \<in> own t d" for d using u that by (simp add: recd_def)
  ultimately show ?thesis using N(2) by blast
qed

definition mach_example :: mach where
  "mach_example = \<lparr>cpus = [\<lparr>apicid = 0, ncli = 0, intena = False\<rparr>, \<lparr>apicid = 1, ncli = 0, intena = False\<rparr>],
     iflag = (\<lambda>c. True), lapic = (\<lambda>c. of_nat c), locks = (\<lambda>l. \<lparr>locked = 0, lcpu = None, lpcs = []\<rparr>),
     argp = (\<lambda>c. 0), stk = (\<lambda>a. 0), pcs = (\<lambda>c. Run), own = (\<lambda>c. {})\<rparr>"

lemma mach_example_start: "mach_start mach_example"
  by (auto simp: mach_start_def mach_example_def less_Suc_eq nth_Cons split: nat.splits)

text \<open>Processor 1 takes a lock.\<close>

lemma mach_example_run:
  "\<exists>t. lstep\<^sup>*\<^sup>* mach_example t \<and> length (cpus t) = 2 \<and> own t 1 = {L_kmem} \<and> pcs t = (\<lambda>c. Run) \<and>
     locks t L_kmem = \<lparr>locked = 1, lcpu = Some 1, lpcs = replicate 10 0\<rparr> \<and> locked (locks t L_ptable) = 0"
proof -
  let ?s = mach_example
  have inv: "minv ?s" using minv_start [OF mach_example_start] .
  have c: "1 < length (cpus ?s)" "pcs ?s 1 = Run" "locked (locks ?s L_kmem) = 0" by (simp_all add: mach_example_def)
  define a where "a = set_pc 1 (Spin L_kmem) (pushed 1 ?s)"
  define x where "x = set_pc 1 (Got L_kmem) (upd_lock L_kmem (\<lambda>k. k\<lparr>locked := 1\<rparr>) a)"
  define y where "y = set_pc 1 (Trace L_kmem) (upd_lock L_kmem (\<lambda>k. k\<lparr>lcpu := Some 1\<rparr>) x)"
  have ca: "acquire_call 1 L_kmem ?s = Ret False a" using acquire_call_run [OF inv c(1), of L_kmem] c(3) by (simp add: a_def)
  have cx: "acquire_xchg 1 L_kmem a = Ret True x" using c(3) by (simp add: acquire_xchg_def a_def x_def)
  have ix: "minv x" using step_acquire_call [OF inv c(1,2) ca] step_xchg [OF _ _ _ cx] c(1) by (simp add: a_def)
  have cy: "acquire_cpu 1 L_kmem x = Ret () y" using acquire_cpu_run [OF ix, of 1 L_kmem] c(1) by (simp add: x_def y_def a_def)
  obtain t where ct: "acquire_pcs 1 L_kmem y = Ret () t" by (simp add: acquire_pcs_def)
  have "lstep ?s a" by (rule some_cpu [OF c(1) call_acquire [OF c(2) ca]])
  moreover have "lstep a x" by (rule some_cpu [of 1, OF _ xchg [OF _ cx]]) (use c in \<open>simp_all add: a_def\<close>)
  moreover have "lstep x y" by (rule some_cpu [of 1, OF _ record_cpu [OF _ cy]]) (use c in \<open>simp_all add: x_def a_def\<close>)
  moreover have "lstep y t" by (rule some_cpu [of 1, OF _ record_pcs [OF _ ct]]) (use c in \<open>simp_all add: y_def x_def a_def\<close>)
  ultimately have "lstep\<^sup>*\<^sup>* ?s t" by (meson rtranclp.rtrancl_into_rtrancl rtranclp.rtrancl_refl)
  moreover have "length (cpus t) = 2 \<and> own t 1 = {L_kmem} \<and> pcs t = (\<lambda>c. Run) \<and>
     locks t L_kmem = \<lparr>locked = 1, lcpu = Some 1, lpcs = replicate 10 0\<rparr> \<and> locked (locks t L_ptable) = 0"
    using ct by (auto simp: acquire_pcs_def y_def x_def a_def mach_example_def getcallerpcs_def numeral_eq_Suc)
  ultimately show ?thesis by blast
qed

theorem spinlock_mutual_exclusion_witness:
  "\<exists>t. lstep\<^sup>*\<^sup>* mach_example t \<and> L_kmem \<in> own t 1 \<and> (\<forall>d. L_kmem \<in> own t d \<longrightarrow> d = 1) \<and> \<not> iflag t 1"
proof -
  obtain t where t: "lstep\<^sup>*\<^sup>* mach_example t" "length (cpus t) = 2" "own t 1 = {L_kmem}" using mach_example_run by blast
  then have "1 < length (cpus t)" "L_kmem \<in> own t 1" by simp_all
  from spinlock_mutual_exclusion [OF mach_example_start t(1) this] t show ?thesis by blast
qed

text \<open>
  C13: \<^verbatim>\<open>spinlock.c\<close> implements the locks of the rest of the model, in terms of the fields of the locks. In every state that the
  processors can reach, with the others anywhere inside \<^verbatim>\<open>acquire\<close> and \<^verbatim>\<open>release\<close>, a step of another processor does not change the set of
  locks that a processor holds, and each of its own steps leaves it as it is or changes it as
  one call of \<open>acquire\<close> or \<open>release\<close> of the kernel model does. A call of \<^verbatim>\<open>acquire\<close> that is not interrupted takes a free
  lock and marks it, panics if the processor holds it and spins if another one has it; a call of
  \<^verbatim>\<open>release\<close> frees the lock, so that it can be taken again, and panics if the processor does not hold it. The other locks are not touched.
\<close>

definition abs_locks :: "nat \<Rightarrow> mach \<Rightarrow> kcore" where
  "abs_locks c s = \<lparr>held = holds s c\<rparr>"

theorem spinlock_refines:
  assumes "mach_start s0" "lstep\<^sup>*\<^sup>* s0 s" "c < length (cpus s)"
  shows "(\<forall>d t. d < length (cpus s) \<longrightarrow> cpu_step d s t \<longrightarrow>
      abs_locks c t = abs_locks c s \<or>
      (d = c \<and> (\<exists>l. acquire l (abs_locks c s) = Ret () (abs_locks c t) \<or> release l (abs_locks c s) = Ret () (abs_locks c t)))) \<and>
    (pcs s c = Run \<longrightarrow>
      (if locked (locks s l) = 0 then
         \<exists>t. spin_acquire c l s = Ret () t \<and> locks t = (locks s)(l := \<lparr>locked = 1, lcpu = Some c, lpcs = getcallerpcs (stk s) (argp s c)\<rparr>) \<and>
             acquire l (abs_locks c s) = Ret () (abs_locks c t)
       else if l \<in> holds s c then spin_acquire c l s = Panic ''acquire'' \<and> acquire l (abs_locks c s) = Panic ''acquire''
       else spin_acquire c l s = Diverge) \<and>
      (if l \<in> holds s c then
         \<exists>t. spin_release c l s = Ret () t \<and> locks t = (locks s)(l := \<lparr>locked = 0, lcpu = None, lpcs = (lpcs (locks s l))[0 := 0]\<rparr>) \<and>
             release l (abs_locks c s) = Ret () (abs_locks c t)
       else spin_release c l s = Panic ''release'' \<and> release l (abs_locks c s) = Panic ''release''))"
proof (intro conjI allI impI)
  have inv: "minv s" using minv_reachable [OF assms(2) minv_start [OF assms(1)]] .
  fix d t assume d: "d < length (cpus s)" "cpu_step d s t"
  have t: "minv t" "moves d s t" using cpu_step_keeps [OF d(2) inv d(1)] by simp_all
  have h: "holds s c = {l. recd s c l}" "holds t c = {l. recd t c l}" using holds_recd [OF inv] holds_recd [OF t(1)] by auto
  show "abs_locks c t = abs_locks c s \<or>
      (d = c \<and> (\<exists>l. acquire l (abs_locks c s) = Ret () (abs_locks c t) \<or> release l (abs_locks c s) = Ret () (abs_locks c t)))"
  proof (cases "recd t c = recd s c")
    case False
    then have "d = c" "(\<exists>l. \<not> recd s c l \<and> recd t c = (recd s c)(l := True)) \<or> (\<exists>l. recd s c l \<and> recd t c = (recd s c)(l := False))"
      using t(2) unfolding moves_def by metis+
    moreover have "acquire l (abs_locks c s) = Ret () (abs_locks c t)" if "\<not> recd s c l" "recd t c = (recd s c)(l := True)" for l
      using that by (auto simp: abs_locks_def h acquire_def)
    moreover have "release l (abs_locks c s) = Ret () (abs_locks c t)" if "recd s c l" "recd t c = (recd s c)(l := False)" for l
      using that by (auto simp: abs_locks_def h release_def)
    ultimately show ?thesis by blast
  qed (simp add: abs_locks_def h)
next
  have inv: "minv s" using minv_reachable [OF assms(2) minv_start [OF assms(1)]] .
  assume r: "pcs s c = Run"
  note A = spin_acquire_run [OF inv assms(3) r] and R = spin_release_run [OF inv assms(3) r]
  show "if locked (locks s l) = 0 then
         \<exists>t. spin_acquire c l s = Ret () t \<and> locks t = (locks s)(l := \<lparr>locked = 1, lcpu = Some c, lpcs = getcallerpcs (stk s) (argp s c)\<rparr>) \<and>
             acquire l (abs_locks c s) = Ret () (abs_locks c t)
       else if l \<in> holds s c then spin_acquire c l s = Panic ''acquire'' \<and> acquire l (abs_locks c s) = Panic ''acquire''
       else spin_acquire c l s = Diverge"
    using A [of l] by (auto simp: abs_locks_def acquire_def holds_def)
  show "if l \<in> holds s c then
         \<exists>t. spin_release c l s = Ret () t \<and> locks t = (locks s)(l := \<lparr>locked = 0, lcpu = None, lpcs = (lpcs (locks s l))[0 := 0]\<rparr>) \<and>
             release l (abs_locks c s) = Ret () (abs_locks c t)
       else spin_release c l s = Panic ''release'' \<and> release l (abs_locks c s) = Panic ''release''"
    using R [of l] by (auto simp: abs_locks_def release_def holds_def)
qed

theorem spinlock_refines_witness:
  "\<exists>s. lstep\<^sup>*\<^sup>* mach_example s \<and> holds s 1 \<noteq> {} \<and> spin_acquire 0 L_kmem s = Diverge \<and>
     (\<exists>t. spin_release 1 L_kmem s = Ret () t \<and> locked (locks t L_kmem) = 0 \<and> holds t 1 = {})"
proof -
  obtain s where s: "lstep\<^sup>*\<^sup>* mach_example s" "length (cpus s) = 2" "pcs s = (\<lambda>c. Run)"
    "locks s L_kmem = \<lparr>locked = 1, lcpu = Some 1, lpcs = replicate 10 0\<rparr>" "own s 1 = {L_kmem}" using mach_example_run by blast
  have inv: "minv s" using minv_reachable [OF s(1) minv_start [OF mach_example_start]] .
  have h: "L_kmem \<in> holds s 1" "L_kmem \<notin> holds s 0" using s(4) by (simp_all add: holds_def)
  have one: "holds s 1 = {L_kmem}" using holds_recd [OF inv, of _ 1] s(3,5) by (auto simp: recd_def)
  have c: "0 < length (cpus s)" "1 < length (cpus s)" using s(2) by simp_all
  have "spin_acquire 0 L_kmem s = Diverge"
    using spinlock_refines [OF mach_example_start s(1) c(1), of L_kmem] s(3,4) h(2) by simp
  moreover obtain t where "spin_release 1 L_kmem s = Ret () t" "locked (locks t L_kmem) = 0" "release L_kmem (abs_locks 1 s) = Ret () (abs_locks 1 t)"
    using spinlock_refines [OF mach_example_start s(1) c(2), of L_kmem] s(3) h(1) by auto
  ultimately show ?thesis using s(1) h(1) one by (auto simp: release_def abs_locks_def)
qed

end
