(* ===== verification/Proc.thy ===== *)
theory Proc
  imports Vm
begin

text \<open>
  Processes, \<^verbatim>\<open>proc.c\<close> without \<^verbatim>\<open>fork\<close>, \<^verbatim>\<open>exit\<close> and \<^verbatim>\<open>userinit\<close>, which need the file system
  and are in the theory \<open>Fork\<close>.

  A process is the index of its entry in \<^verbatim>\<open>ptable.proc\<close>. Trap frames and kernel contexts lie on
  the kernel stack of the process, in \<open>mem\<close>, as in the code; \<open>p_tf\<close> and \<open>p_context\<close> are their
  addresses. The state is that of the machine as one processor sees it while it executes an operation:
  \<open>curproc\<close> is its \<^verbatim>\<open>mycpu()->proc\<close>, and \<open>other_procs\<close> are the fields \<^verbatim>\<open>proc\<close> of the other entries of \<^verbatim>\<open>cpus[]\<close>. Pids are of
  type \<^verbatim>\<open>int\<close>, so that \<^verbatim>\<open>nextpid\<close> wraps around. \<open>sched\<close> ends in \<open>Swtch\<close>: the process gives the
  processor to the scheduler. What follows in the code is an operation of its own, \<open>yield_return\<close>
  and \<open>sleep_return\<close>. The scheduler is \<open>scheduler_round\<close>, the part of a round before the switch to
  a process, and \<open>scheduler_after\<close>, the part after it.
\<close>

section \<open>Definitions\<close>

datatype procstate = UNUSED | EMBRYO | SLEEPING | RUNNABLE | RUNNING | ZOMBIE

record proc =
  p_sz :: u32
  p_pgdir :: u32
  p_kstack :: u32
  p_state :: procstate
  p_pid :: int
  p_parent :: "nat option"
  p_tf :: u32
  p_context :: u32
  p_chan :: "chan option"
  p_killed :: bool
  p_ofile :: "nat option list"
  p_cwd :: "nat option"
  p_name :: "byte list"
  p_signal_handlers :: "u32 list"
  p_pending_signals :: u32

text \<open>
  \<open>first\<close> is the static variable of \<^verbatim>\<open>forkret\<close>; \<open>forkret_pc\<close> and \<open>trapret_pc\<close> are the addresses the
  linker gives to \<^verbatim>\<open>forkret\<close> and \<^verbatim>\<open>trapret\<close>.
\<close>

record kproc = kvm +
  ptable :: "proc list"
  nextpid :: int
  initproc :: "nat option"
  curproc :: "nat option"
  other_procs :: "nat option list"
  first :: bool
  forkret_pc :: u32
  trapret_pc :: u32

abbreviation (input) NPROC :: nat where "NPROC \<equiv> 64"
abbreviation (input) NOFILE :: nat where "NOFILE \<equiv> 16"
abbreviation (input) NUMSIGNALS :: nat where "NUMSIGNALS \<equiv> 32"
abbreviation (input) KSTACKSIZE :: u32 where "KSTACKSIZE \<equiv> 4096"

text \<open>\<^verbatim>\<open>struct trapframe\<close> and \<^verbatim>\<open>struct context\<close>: their sizes and the offsets of their fields.\<close>

abbreviation (input) sizeof_tf :: u32 where "sizeof_tf \<equiv> 76"
abbreviation (input) tf_eax :: u32 where "tf_eax \<equiv> 28"
abbreviation (input) tf_es :: u32 where "tf_es \<equiv> 40"
abbreviation (input) tf_ds :: u32 where "tf_ds \<equiv> 44"
abbreviation (input) tf_trapno :: u32 where "tf_trapno \<equiv> 48"
abbreviation (input) tf_eip :: u32 where "tf_eip \<equiv> 56"
abbreviation (input) tf_cs :: u32 where "tf_cs \<equiv> 60"
abbreviation (input) tf_eflags :: u32 where "tf_eflags \<equiv> 64"
abbreviation (input) tf_esp :: u32 where "tf_esp \<equiv> 68"
abbreviation (input) tf_ss :: u32 where "tf_ss \<equiv> 72"
abbreviation (input) sizeof_context :: u32 where "sizeof_context \<equiv> 20"
abbreviation (input) context_eip :: u32 where "context_eip \<equiv> 16"

definition upd_proc :: "nat \<Rightarrow> (proc \<Rightarrow> proc) \<Rightarrow> 'z kproc_scheme \<Rightarrow> 'z kproc_scheme" where
  "upd_proc i f s = s\<lparr>ptable := (ptable s)[i := f (ptable s ! i)]\<rparr>"

text \<open>Code that uses \<^verbatim>\<open>myproc()\<close>; a null pointer there is a page fault in the kernel.\<close>

definition with_myproc :: "(nat \<Rightarrow> ('z kproc_scheme, 'a) kop) \<Rightarrow> ('z kproc_scheme, 'a) kop" where
  "with_myproc f = bindK (getK curproc) (\<lambda>c. case c of None \<Rightarrow> panicK ''trap'' | Some i \<Rightarrow> f i)"

definition pinit :: "('z kproc_scheme, unit) kop" where
  "pinit = modK (\<lambda>s. s\<lparr>held := held s - {L_ptable}\<rparr>)"

definition allocproc :: "('z kproc_scheme, nat option) kop" where
  "allocproc =
     bindK (acquire L_ptable) (\<lambda>_.
     bindK (getK (\<lambda>s. find_idx (\<lambda>p. p_state p = UNUSED) (ptable s))) (\<lambda>found.
     case found of
       None \<Rightarrow> bindK (release L_ptable) (\<lambda>_. retK None)
     | Some i \<Rightarrow>
         bindK (modK (\<lambda>s. (upd_proc i (\<lambda>p. p\<lparr>p_state := EMBRYO, p_pid := nextpid s\<rparr>) s)\<lparr>nextpid := int32 (nextpid s + 1)\<rparr>)) (\<lambda>_.
         bindK (modK (upd_proc i (\<lambda>p. p\<lparr>p_pending_signals := 0, p_signal_handlers := replicate NUMSIGNALS 0\<rparr>))) (\<lambda>_.
         bindK (release L_ptable) (\<lambda>_.
         bindK kalloc (\<lambda>k.
         bindK (modK (upd_proc i (\<lambda>p. p\<lparr>p_kstack := k\<rparr>))) (\<lambda>_.
         if k = 0 then
           bindK (modK (upd_proc i (\<lambda>p. p\<lparr>p_state := UNUSED\<rparr>))) (\<lambda>_. retK None)
         else
           let sp = k + KSTACKSIZE - sizeof_tf; sp1 = sp - 4; sp2 = sp1 - sizeof_context
           in bindK (modK (upd_proc i (\<lambda>p. p\<lparr>p_tf := sp\<rparr>))) (\<lambda>_.
              bindK (modK (\<lambda>s. s\<lparr>mem := store32 (mem s) sp1 (trapret_pc s)\<rparr>)) (\<lambda>_.
              bindK (modK (upd_proc i (\<lambda>p. p\<lparr>p_context := sp2\<rparr>))) (\<lambda>_.
              bindK (modK (\<lambda>s. s\<lparr>mem := memset (mem s) sp2 0 sizeof_context\<rparr>)) (\<lambda>_.
              bindK (modK (\<lambda>s. s\<lparr>mem := store32 (mem s) (sp2 + context_eip) (forkret_pc s)\<rparr>)) (\<lambda>_.
              retK (Some i)))))))))))))"

text \<open>
  A user address that the kernel calls as a function, in kernel mode: what is at that address is
  not code of the kernel, so what the call does is the parameter \<open>call\<close>.
\<close>

definition deliver_signal ::
  "(u32 \<Rightarrow> ('z kproc_scheme, unit) kop) \<Rightarrow> nat \<Rightarrow> nat \<Rightarrow> ('z kproc_scheme, unit) kop" where
  "deliver_signal call p i =
     bindK (getK (\<lambda>s. p_pending_signals (ptable s ! p) AND push_bit i 1)) (\<lambda>pending.
     whenK (pending \<noteq> 0)
       (bindK (modK (upd_proc p (\<lambda>q. q\<lparr>p_pending_signals := p_pending_signals q AND NOT (push_bit i 1)\<rparr>))) (\<lambda>_.
        bindK (getK (\<lambda>s. p_signal_handlers (ptable s ! p) ! i)) (\<lambda>h.
        if h \<noteq> 0 then
          bindK (release L_ptable) (\<lambda>_.
          bindK (call h) (\<lambda>_.
          acquire L_ptable))
        else whenK (i = 2) (modK (upd_proc p (\<lambda>q. q\<lparr>p_killed := True\<rparr>)))))))"

definition swtchK :: "('s, 'a) kop" where
  "swtchK s = Swtch s"

definition switch_to :: "nat \<Rightarrow> ('z kproc_scheme, unit) kop" where
  "switch_to p =
     bindK (getK (\<lambda>s. (p_kstack (ptable s ! p), p_pgdir (ptable s ! p)))) (\<lambda>kp. switchuvm (Some kp))"

text \<open>
  One round of the scheduler for the table entry \<open>p\<close>, up to the switch to the process, and what
  the scheduler does when the processor comes back to it.
\<close>

definition scheduler_round ::
  "(u32 \<Rightarrow> ('z kproc_scheme, unit) kop) \<Rightarrow> nat \<Rightarrow> ('z kproc_scheme, unit) kop" where
  "scheduler_round call p =
     bindK (getK (\<lambda>s. p_state (ptable s ! p))) (\<lambda>st.
     if st \<noteq> RUNNABLE then retK ()
     else
       bindK (getK (\<lambda>s. p_pending_signals (ptable s ! p))) (\<lambda>pending.
       bindK (whenK (pending \<noteq> 0) (forK [0..<NUMSIGNALS] (deliver_signal call p))) (\<lambda>_.
       bindK (modK (\<lambda>s. s\<lparr>curproc := Some p\<rparr>)) (\<lambda>_.
       bindK (switch_to p) (\<lambda>_.
       bindK (modK (upd_proc p (\<lambda>q. q\<lparr>p_state := RUNNING\<rparr>))) (\<lambda>_.
       swtchK))))))"

definition scheduler_after :: "('z kproc_scheme, unit) kop" where
  "scheduler_after = bindK switchkvm (\<lambda>_. modK (\<lambda>s. s\<lparr>curproc := None\<rparr>))"

definition growproc :: "int \<Rightarrow> ('z kproc_scheme, int) kop" where
  "growproc n =
     with_myproc (\<lambda>c.
     bindK (getK (\<lambda>s. p_sz (ptable s ! c))) (\<lambda>sz.
     bindK (getK (\<lambda>s. p_pgdir (ptable s ! c))) (\<lambda>pgdir.
     bindK (if n > 0 then allocuvm pgdir sz (sz + of_int n)
            else if n < 0 then deallocuvm pgdir sz (sz + of_int n)
            else retK sz) (\<lambda>sz'.
     if n \<noteq> 0 \<and> sz' = 0 then retK (-1)
     else
       bindK (modK (upd_proc c (\<lambda>p. p\<lparr>p_sz := sz'\<rparr>))) (\<lambda>_.
       bindK (switch_to c) (\<lambda>_.
       retK 0))))))"

text \<open>
  \<open>sched\<close>. Holding \<open>ptable.lock\<close> and no other lock is \<^verbatim>\<open>ncli == 1\<close> for a processor that holds
  \<open>ptable.lock\<close>; interrupts are off while a lock is held.
\<close>

definition sched :: "('z kproc_scheme, 'a) kop" where
  "sched =
     with_myproc (\<lambda>c.
     bindK (getK held) (\<lambda>h.
     if L_ptable \<notin> h then panicK ''sched ptable.lock''
     else if h \<noteq> {L_ptable} then panicK ''sched locks''
     else bindK (getK (\<lambda>s. p_state (ptable s ! c))) (\<lambda>st.
       if st = RUNNING then panicK ''sched running'' else swtchK)))"

definition yield :: "('z kproc_scheme, unit) kop" where
  "yield =
     bindK (acquire L_ptable) (\<lambda>_.
     with_myproc (\<lambda>c.
     bindK (modK (upd_proc c (\<lambda>p. p\<lparr>p_state := RUNNABLE\<rparr>))) (\<lambda>_.
     sched)))"

definition yield_return :: "('z kproc_scheme, unit) kop" where
  "yield_return = release L_ptable"

definition sleep :: "chan \<Rightarrow> lockid \<Rightarrow> ('z kproc_scheme, 'a) kop" where
  "sleep ch lk =
     bindK (getK curproc) (\<lambda>c.
     case c of None \<Rightarrow> panicK ''sleep''
     | Some p \<Rightarrow>
         bindK (whenK (lk \<noteq> L_ptable) (bindK (acquire L_ptable) (\<lambda>_. release lk))) (\<lambda>_.
         bindK (modK (upd_proc p (\<lambda>q. q\<lparr>p_chan := Some ch\<rparr>))) (\<lambda>_.
         bindK (modK (upd_proc p (\<lambda>q. q\<lparr>p_state := SLEEPING\<rparr>))) (\<lambda>_.
         sched))))"

definition sleep_return :: "nat \<Rightarrow> lockid \<Rightarrow> ('z kproc_scheme, unit) kop" where
  "sleep_return p lk =
     bindK (modK (upd_proc p (\<lambda>q. q\<lparr>p_chan := None\<rparr>))) (\<lambda>_.
     whenK (lk \<noteq> L_ptable) (bindK (release L_ptable) (\<lambda>_. acquire lk)))"

text \<open>A channel of \<^verbatim>\<open>wakeup1\<close> may be the null pointer (\<open>None\<close>).\<close>

definition wake :: "chan option \<Rightarrow> proc \<Rightarrow> proc" where
  "wake ch p = (if p_state p = SLEEPING \<and> p_chan p = ch then p\<lparr>p_state := RUNNABLE\<rparr> else p)"

definition wakeup1 :: "chan option \<Rightarrow> ('z kproc_scheme, unit) kop" where
  "wakeup1 ch = modK (\<lambda>s. s\<lparr>ptable := map (wake ch) (ptable s)\<rparr>)"

definition wakeup :: "chan \<Rightarrow> ('z kproc_scheme, unit) kop" where
  "wakeup ch =
     bindK (acquire L_ptable) (\<lambda>_.
     bindK (wakeup1 (Some ch)) (\<lambda>_.
     release L_ptable))"

definition kill :: "int \<Rightarrow> ('z kproc_scheme, int) kop" where
  "kill pid =
     bindK (acquire L_ptable) (\<lambda>_.
     bindK (getK (\<lambda>s. find_idx (\<lambda>p. p_pid p = pid) (ptable s))) (\<lambda>found.
     case found of
       None \<Rightarrow> bindK (release L_ptable) (\<lambda>_. retK (-1))
     | Some i \<Rightarrow>
         bindK (modK (upd_proc i (\<lambda>p. p\<lparr>p_killed := True\<rparr>))) (\<lambda>_.
         bindK (modK (upd_proc i (\<lambda>p. if p_state p = SLEEPING then p\<lparr>p_state := RUNNABLE\<rparr> else p))) (\<lambda>_.
         bindK (release L_ptable) (\<lambda>_.
         retK 0)))))"

text \<open>
  \<open>wait\<close>: the loop over the table finds the first zombie child; \<open>wait_loop\<close> is the body of the
  outer loop, which is also where the process continues after it slept.
\<close>

definition reap :: "nat \<Rightarrow> ('z kproc_scheme, int) kop" where
  "reap i =
     bindK (getK (\<lambda>s. p_pid (ptable s ! i))) (\<lambda>pid.
     bindK (getK (\<lambda>s. p_kstack (ptable s ! i))) (\<lambda>k.
     bindK (kfree k) (\<lambda>_.
     bindK (modK (upd_proc i (\<lambda>p. p\<lparr>p_kstack := 0\<rparr>))) (\<lambda>_.
     bindK (getK (\<lambda>s. p_pgdir (ptable s ! i))) (\<lambda>pgdir.
     bindK (freevm pgdir) (\<lambda>_.
     bindK (modK (upd_proc i (\<lambda>p. p\<lparr>p_pid := 0, p_parent := None, p_name := (p_name p)[0 := 0],
                                   p_killed := False, p_state := UNUSED\<rparr>))) (\<lambda>_.
     bindK (release L_ptable) (\<lambda>_.
     retK pid))))))))"

definition wait_loop :: "nat \<Rightarrow> ('z kproc_scheme, int) kop" where
  "wait_loop c =
     bindK (getK ptable) (\<lambda>ps.
     case find_idx (\<lambda>p. p_parent p = Some c \<and> p_state p = ZOMBIE) ps of
       Some i \<Rightarrow> reap i
     | None \<Rightarrow>
         if (\<forall>p \<in> set ps. p_parent p \<noteq> Some c) \<or> p_killed (ps ! c) then
           bindK (release L_ptable) (\<lambda>_. retK (-1))
         else sleep (ChanProc c) L_ptable)"

definition wait :: "('z kproc_scheme, int) kop" where
  "wait = with_myproc (\<lambda>c. bindK (acquire L_ptable) (\<lambda>_. wait_loop c))"

definition wait_return :: "nat \<Rightarrow> ('z kproc_scheme, int) kop" where
  "wait_return c = bindK (sleep_return c L_ptable) (\<lambda>_. wait_loop c)"

end
