(* ===== verification/Proc_Props.thy ===== *)
theory Proc_Props
  imports Proc Vm_Copy
begin

text \<open>
  What updates of the process table change, and what \<open>allocproc\<close> does.
\<close>

section \<open>Updates of the table\<close>

lemma kmem_inv_cong:
  assumes "mem s' = mem s" "freelist s' = freelist s" "kend s' = kend s" "held s' = held s"
  shows "kmem_inv s' xs = kmem_inv s xs"
  using assms by (simp add: kmem_inv_def page_ok_def)

lemma upd_proc_simps [simp]:
  "ptable (upd_proc i f s) = (ptable s)[i := f (ptable s ! i)]" "mem (upd_proc i f s) = mem s"
  "freelist (upd_proc i f s) = freelist s" "kend (upd_proc i f s) = kend s" "kdata (upd_proc i f s) = kdata s"
  "held (upd_proc i f s) = held s" "use_lock (upd_proc i f s) = use_lock s" "nextpid (upd_proc i f s) = nextpid s"
  "initproc (upd_proc i f s) = initproc s" "curproc (upd_proc i f s) = curproc s" "other_procs (upd_proc i f s) = other_procs s"
  "forkret_pc (upd_proc i f s) = forkret_pc s" "trapret_pc (upd_proc i f s) = trapret_pc s"
  "cr3 (upd_proc i f s) = cr3 s" "kpgdir (upd_proc i f s) = kpgdir s" "first (upd_proc i f s) = first s"
  by (simp_all add: upd_proc_def)

lemma upd_proc_held [simp]:
  "(upd_proc i f s)\<lparr>held := h\<rparr> = upd_proc i f (s\<lparr>held := h\<rparr>)" "(upd_proc i f s)\<lparr>mem := m\<rparr> = upd_proc i f (s\<lparr>mem := m\<rparr>)"
  "(upd_proc i f s)\<lparr>freelist := a\<rparr> = upd_proc i f (s\<lparr>freelist := a\<rparr>)"
  "(upd_proc i f s)\<lparr>nextpid := n\<rparr> = upd_proc i f (s\<lparr>nextpid := n\<rparr>)"
  by (simp_all add: upd_proc_def)

lemma upd_proc_upd_proc [simp]:
  "i < length (ptable s) \<Longrightarrow> upd_proc i f (upd_proc i g s) = upd_proc i (f \<circ> g) s"
  by (simp add: upd_proc_def)

section \<open>allocproc\<close>

definition new_proc :: "int \<Rightarrow> u32 \<Rightarrow> proc \<Rightarrow> proc" where
  "new_proc pid k p = p\<lparr>p_state := EMBRYO, p_pid := pid, p_pending_signals := 0,
     p_signal_handlers := replicate 32 0, p_kstack := k, p_tf := k + 4020, p_context := k + 3996\<rparr>"

definition new_stack :: "bmem \<Rightarrow> u32 \<Rightarrow> u32 \<Rightarrow> u32 \<Rightarrow> bmem" where
  "new_stack m k trapret forkret =
     store32 (memset (store32 m (k + 4016) trapret) (k + 3996) 0 20) (k + 4012) forkret"

lemma kstack_addr:
  assumes "k mod PGSIZE = 0" "i < PGSIZE" "i mod 4 = 0"
  shows "PGROUNDDOWN (k + i) = k" "(k + i) mod 4 = 0"
  using PGROUNDDOWN_add(1) [OF assms(1,2)] aligned4_add [OF page_aligned4 [OF assms(1)] assms(3)] by simp_all

lemma new_stack_other:
  assumes k: "k mod PGSIZE = 0" and x: "PGROUNDDOWN x \<noteq> k"
  shows "new_stack m k trapret forkret x = m x"
proof -
  have "\<not> x - (k + 3996) < 20"
  proof
    have lt: "y + 3996 < PGSIZE" if "y < 20" for y :: u32
      using that by (simp add: word_less_nat_alt unat_word_ariths)
    assume "x - (k + 3996) < 20"
    from PGROUNDDOWN_add(1) [OF k lt [OF this]] x show False by simp
  qed
  with x k show ?thesis
    by (simp add: new_stack_def store32_other_page kstack_addr memset_eq)
qed

lemma new_stack_words:
  assumes k: "k mod PGSIZE = 0"
  shows "load32 (new_stack m k trapret forkret) (k + 4016) = trapret"
    "load32 (new_stack m k trapret forkret) (k + 4012) = forkret"
proof -
  have "load32 (memset (store32 m (k + 4016) trapret) (k + 3996) 0 20) (k + 4016) = load32 (store32 m (k + 4016) trapret) (k + 4016)"
    by (simp add: load32_def memset_eq add.assoc)
  then show "load32 (new_stack m k trapret forkret) (k + 4016) = trapret"
    using kstack_addr(2) [OF k, of 4016] kstack_addr(2) [OF k, of 4012] by (simp add: new_stack_def)
  show "load32 (new_stack m k trapret forkret) (k + 4012) = forkret" by (simp add: new_stack_def)
qed

lemma allocproc_run:
  assumes inv: "kmem_inv s xs" and lock: "L_ptable \<notin> held s"
  obtains (full) "find_idx (\<lambda>p. p_state p = UNUSED) (ptable s) = None" "allocproc s = Ret None s"
  | (nomem) i where "find_idx (\<lambda>p. p_state p = UNUSED) (ptable s) = Some i" "xs = []"
      "allocproc s = Ret None (upd_proc i (\<lambda>p. p\<lparr>p_pid := nextpid s, p_pending_signals := 0,
          p_signal_handlers := replicate 32 0, p_kstack := 0, p_state := UNUSED\<rparr>) (s\<lparr>nextpid := int32 (nextpid s + 1)\<rparr>))"
  | (ok) i k ys where "find_idx (\<lambda>p. p_state p = UNUSED) (ptable s) = Some i" "xs = k # ys"
      "allocproc s = Ret (Some i) (upd_proc i (new_proc (nextpid s) k)
         (s\<lparr>nextpid := int32 (nextpid s + 1), freelist := load32 (mem s) k,
            mem := new_stack (mem s) k (trapret_pc s) (forkret_pc s)\<rparr>))"
proof (cases "find_idx (\<lambda>p. p_state p = UNUSED) (ptable s)")
  case None
  with lock full show ?thesis by (simp add: allocproc_def bindK_def acquire_def release_def)
next
  case (Some i)
  then have i: "i < length (ptable s)" by (rule find_idx_bound)
  define t where "t = upd_proc i (\<lambda>p. p\<lparr>p_state := EMBRYO, p_pid := nextpid s, p_pending_signals := 0,
     p_signal_handlers := replicate 32 0\<rparr>) (s\<lparr>nextpid := int32 (nextpid s + 1)\<rparr>)"
  have ti: "kmem_inv t xs" using inv by (subst kmem_inv_cong [of _ s]) (simp_all add: t_def)
  have tl: "length (ptable t) = length (ptable s)" by (simp add: t_def)
  from ti show ?thesis
  proof (cases rule: kalloc_cases)
    case none
    show ?thesis
      by (rule nomem [OF Some none(1)])
         (use Some lock i none(2) in \<open>simp add: allocproc_def bindK_def acquire_def release_def t_def comp_def\<close>)
  next
    case (page k ys)
    show ?thesis
      by (rule ok [OF Some page(1)])
         (use Some lock i page(2,3) in \<open>simp add: allocproc_def bindK_def acquire_def release_def t_def comp_def Let_def
            new_stack_def new_proc_def [abs_def] add.commute [of k]\<close>)
  qed
qed

section \<open>A concrete process\<close>

definition proc_zero :: proc where
  "proc_zero = \<lparr>p_sz = 0, p_pgdir = 0, p_kstack = 0, p_state = UNUSED, p_pid = 0, p_parent = None, p_tf = 0, p_context = 0,
     p_chan = None, p_killed = False, p_ofile = replicate 16 None, p_cwd = None, p_name = [], p_signal_handlers = [],
     p_pending_signals = 0\<rparr>"

end
