(* ===== verification/Vm_Keeps.thy ===== *)
theory Vm_Keeps
  imports Vm
begin

text \<open>
  The operations of \<open>Kalloc\<close> and \<open>Vm\<close> change only memory, the free list and, for the time of a
  critical section, the set of locks that are held. Whatever does not depend on these is kept by
  all of them: the locale \<open>mem_indep\<close> is interpreted by the invariants of the components above.
\<close>

locale mem_indep =
  fixes I :: "'z kmem_scheme \<Rightarrow> bool"
  assumes I_mem: "I s \<Longrightarrow> I (s\<lparr>mem := m\<rparr>)"
    and I_freelist: "I s \<Longrightarrow> I (s\<lparr>freelist := f\<rparr>)"
    and I_held: "I s \<Longrightarrow> I (s\<lparr>held := h\<rparr>)"
begin

lemma keeps_locks: "keepsK I (acquire l)" "keepsK I (release l)"
  by (rule keepsK_acquire keepsK_release, erule I_held)+

lemma keeps_mem: "keepsK I (modK (\<lambda>s. s\<lparr>mem := g s\<rparr>))"
  by (intro keepsK_modK I_mem)

lemma keeps_kalloc: "keepsK I kalloc"
  unfolding kalloc_def by (intro inv_intros keeps_locks I_freelist)

lemma keeps_kfree: "keepsK I (kfree v)"
  unfolding kfree_def by (intro inv_intros keeps_locks I_freelist I_mem)

lemmas keeps_basic = keeps_locks keeps_mem keeps_kalloc keeps_kfree

lemma keeps_walkpgdir: "keepsK I (walkpgdir pd va al)"
  unfolding walkpgdir_def by (intro inv_intros keeps_basic)

lemma keeps_map_page: "keepsK I (map_page pd a pa perm)"
  unfolding map_page_def by (intro inv_intros keeps_basic keeps_walkpgdir)

lemma keeps_mappages_loop: "keepsK I (mappages_loop n pd a pa perm)"
proof (induction n arbitrary: a pa)
  case 0
  show ?case by (simp only: mappages_loop.simps keeps_map_page)
next
  case (Suc n)
  show ?case by (simp only: mappages_loop.simps) (intro inv_intros keeps_map_page Suc.IH)
qed

lemma keeps_mappages: "keepsK I (mappages pd va sz pa perm)"
  unfolding mappages_def Let_def by (rule keeps_mappages_loop)

lemma keeps_dealloc_page: "keepsK I (dealloc_page pd a)"
  unfolding dealloc_page_def Let_def by (intro inv_intros keeps_basic keeps_walkpgdir)

lemma keeps_deallocuvm_loop: "keepsK I (deallocuvm_loop pd oldsz a)"
proof -
  have "I s \<Longrightarrow> (case deallocuvm_loop pd oldsz a s of Ret u s' \<Rightarrow> I s' | Panic e \<Rightarrow> True | Swtch s' \<Rightarrow> I s' | Diverge \<Rightarrow> True)"
    for s
  proof (induction pd oldsz a s rule: deallocuvm_loop.induct)
    case (1 pd oldsz a s)
    note r = keepsK_Ret [OF keeps_dealloc_page "1.prems"] keepsK_Swtch [OF keeps_dealloc_page "1.prems"]
    show ?case
    proof (cases "\<not> a < oldsz")
      case True
      then show ?thesis using "1.prems" by (simp add: deallocuvm_loop.simps [of pd oldsz a s])
    next
      case False
      show ?thesis
      proof (cases "dealloc_page pd a s")
        case (Ret a1 s1)
        with "1.IH" [OF False Ret _ r(1) [OF Ret]] False r(1) [OF Ret] show ?thesis
          by (simp add: deallocuvm_loop.simps [of pd oldsz a s])
      qed (use False r in \<open>simp_all add: deallocuvm_loop.simps [of pd oldsz a s]\<close>)
    qed
  qed
  then show ?thesis by (simp add: keepsK_def)
qed

lemma keeps_deallocuvm: "keepsK I (deallocuvm pd oldsz newsz)"
  unfolding deallocuvm_def by (intro inv_intros keeps_deallocuvm_loop)

lemma keeps_allocuvm_loop: "keepsK I (allocuvm_loop as pd oldsz newsz)"
proof (induction as)
  case Nil
  show ?case by (simp only: allocuvm_loop.simps) (intro inv_intros)
next
  case (Cons a as)
  show ?case by (simp only: allocuvm_loop.simps)
    (intro inv_intros keeps_basic keeps_mappages keeps_deallocuvm Cons.IH)
qed

lemma keeps_allocuvm: "keepsK I (allocuvm pd oldsz newsz)"
  unfolding allocuvm_def by (intro inv_intros keeps_allocuvm_loop)

lemma keeps_freevm: "keepsK I (freevm pd)"
  unfolding freevm_def free_tab_def by (intro inv_intros keeps_basic keeps_deallocuvm)

lemma keeps_setupkvm_loop: "keepsK I (setupkvm_loop ks pd)"
proof (induction ks)
  case Nil
  show ?case by (simp only: setupkvm_loop.simps) (intro inv_intros)
next
  case (Cons k ks)
  obtain v ps pe pm where k: "k = (v, ps, pe, pm)" by (cases k)
  show ?case unfolding k by (simp only: setupkvm_loop.simps) (intro inv_intros keeps_mappages keeps_freevm Cons.IH)
qed

lemma keeps_setupkvm: "keepsK I setupkvm"
  unfolding setupkvm_def by (intro inv_intros keeps_basic keeps_setupkvm_loop)

lemma keeps_copyuvm_loop: "keepsK I (copyuvm_loop is pd d)"
proof (induction "is")
  case Nil
  show ?case by (simp only: copyuvm_loop.simps) (intro inv_intros)
next
  case (Cons i "is")
  show ?case by (simp only: copyuvm_loop.simps Let_def)
    (intro inv_intros keeps_basic keeps_walkpgdir keeps_mappages keeps_freevm Cons.IH)
qed

lemma keeps_copyuvm: "keepsK I (copyuvm pd sz)"
  unfolding copyuvm_def by (intro inv_intros keeps_setupkvm keeps_copyuvm_loop)

lemma keeps_inituvm: "keepsK I (inituvm pd init sz)"
  unfolding inituvm_def by (intro inv_intros keeps_basic keeps_mappages)

lemma keeps_clearpteu: "keepsK I (clearpteu pd uva)"
  unfolding clearpteu_def by (intro inv_intros keeps_mem keeps_walkpgdir)

lemmas keeps_vm = keeps_basic keeps_walkpgdir keeps_mappages keeps_deallocuvm keeps_allocuvm keeps_freevm
  keeps_setupkvm keeps_copyuvm keeps_inituvm keeps_clearpteu

end

end
