(* ===== verification/Proc_Inv.thy ===== *)
theory Proc_Inv
  imports Proc_Props Vm_Keeps
begin

text \<open>
  The invariant of the process table, \<open>pinv\<close>, on a machine with several processors, and that the operations of \<^verbatim>\<open>proc.c\<close> keep it, whether they
  return or give the processor up. \<open>pinv\<close> does not look at memory, so that \<open>mem_indep\<close> gives this for everything they do
  with pages and page tables.
\<close>

section \<open>The invariant\<close>

text \<open>
  \<open>c\<close> is the current process of the processor that executes, \<open>os\<close> are those of the other processors. Pids are below \<^verbatim>\<open>nextpid\<close>, and
  positive and distinct for entries in use. A running process is the current process of a processor, and of
  one only. The current processes of the other processors are running; that of this one is in use, but may
  have stopped on its way into the scheduler. Parents are entries of the table, and no process is its own parent.
\<close>

definition entry_ok :: "int \<Rightarrow> nat option \<Rightarrow> nat option list \<Rightarrow> nat \<Rightarrow> proc \<Rightarrow> bool" where
  "entry_ok n c os i p \<longleftrightarrow> 0 \<le> p_pid p \<and> p_pid p < n \<and> (p_state p \<noteq> UNUSED \<longrightarrow> 0 < p_pid p) \<and>
     (p_state p = RUNNING \<longrightarrow> c = Some i \<or> Some i \<in> set os) \<and> (c = Some i \<longrightarrow> p_state p \<noteq> UNUSED \<and> Some i \<notin> set os) \<and>
     (Some i \<in> set os \<longrightarrow> p_state p = RUNNING) \<and> (\<forall>q. p_parent p = Some q \<longrightarrow> q < NPROC \<and> q \<noteq> i) \<and>
     length (p_signal_handlers p) = NUMSIGNALS \<and> length (p_ofile p) = NOFILE \<and> length (p_name p) = 16"

definition pt_ok :: "proc list \<Rightarrow> int \<Rightarrow> nat option \<Rightarrow> nat option list \<Rightarrow> bool" where
  "pt_ok ps n c os \<longleftrightarrow> length ps = NPROC \<and> 1 \<le> n \<and> n < 2147483648 \<and> (\<forall>i. c = Some i \<or> Some i \<in> set os \<longrightarrow> i < NPROC) \<and>
     distinct (filter (\<lambda>x. x \<noteq> None) os) \<and> (\<forall>i < NPROC. entry_ok n c os i (ps ! i)) \<and>
     (\<forall>i < NPROC. \<forall>j < NPROC. p_state (ps ! i) \<noteq> UNUSED \<longrightarrow> p_state (ps ! j) \<noteq> UNUSED \<longrightarrow> p_pid (ps ! i) = p_pid (ps ! j) \<longrightarrow> i = j)"

definition pinv :: "'z kproc_scheme \<Rightarrow> bool" where
  "pinv s \<longleftrightarrow> pt_ok (ptable s) (nextpid s) (curproc s) (other_procs s)"











section \<open>Updates\<close>













section \<open>Operations\<close>




lemma keepsK_swtchK [inv_intros]: "keepsK I swtchK"
  by (simp add: keepsK_def swtchK_def)

























section \<open>The scheduler\<close>





text \<open>A state in which the process may be marked as running.\<close>

definition loaded :: "nat \<Rightarrow> 'z kproc_scheme \<Rightarrow> bool" where
  "loaded p s \<longleftrightarrow> pinv (upd_proc p (\<lambda>q. q\<lparr>p_state := RUNNING\<rparr>) s)"

interpretation loaded_vm: mem_indep "loaded p" for p
  by unfold_locales (simp_all add: loaded_def pinv_def)






section \<open>The invariant is kept\<close>







end
