(* ===== verification/Sleeplock.thy ===== *)
theory Sleeplock
  imports Proc
begin

text \<open>
  Sleep locks, \<^verbatim>\<open>sleeplock.c\<close>. There is one in every buffer and in every inode; \<open>slocks\<close> holds
  them by the object they are in. The loop of \<open>acquiresleep\<close> is \<open>acquiresleep_loop\<close>: a process that
  finds the lock taken sleeps (the operation ends in \<open>Swtch\<close>) and goes on with
  \<open>acquiresleep_return\<close>.
\<close>

record sleeplock =
  sl_locked :: bool
  sl_pid :: int

record kslp = kproc +
  slocks :: "slock \<Rightarrow> sleeplock"

definition upd_slock :: "slock \<Rightarrow> (sleeplock \<Rightarrow> sleeplock) \<Rightarrow> 'z kslp_scheme \<Rightarrow> 'z kslp_scheme" where
  "upd_slock l f s = s\<lparr>slocks := (slocks s)(l := f (slocks s l))\<rparr>"

definition initsleeplock :: "slock \<Rightarrow> ('z kslp_scheme, unit) kop" where
  "initsleeplock l =
     bindK (modK (\<lambda>s. s\<lparr>held := held s - {L_sleep l}\<rparr>)) (\<lambda>_.
     modK (upd_slock l (\<lambda>k. k\<lparr>sl_locked := False, sl_pid := 0\<rparr>)))"

definition acquiresleep_loop :: "slock \<Rightarrow> ('z kslp_scheme, unit) kop" where
  "acquiresleep_loop l =
     bindK (getK (\<lambda>s. sl_locked (slocks s l))) (\<lambda>b.
     if b then sleep (ChanSlock l) (L_sleep l)
     else
       bindK (modK (upd_slock l (\<lambda>k. k\<lparr>sl_locked := True\<rparr>))) (\<lambda>_.
       with_myproc (\<lambda>c.
       bindK (modK (\<lambda>s. upd_slock l (\<lambda>k. k\<lparr>sl_pid := p_pid (ptable s ! c)\<rparr>) s)) (\<lambda>_.
       release (L_sleep l)))))"

definition acquiresleep :: "slock \<Rightarrow> ('z kslp_scheme, unit) kop" where
  "acquiresleep l = bindK (acquire (L_sleep l)) (\<lambda>_. acquiresleep_loop l)"

definition acquiresleep_return :: "nat \<Rightarrow> slock \<Rightarrow> ('z kslp_scheme, unit) kop" where
  "acquiresleep_return c l = bindK (sleep_return c (L_sleep l)) (\<lambda>_. acquiresleep_loop l)"

definition releasesleep :: "slock \<Rightarrow> ('z kslp_scheme, unit) kop" where
  "releasesleep l =
     bindK (acquire (L_sleep l)) (\<lambda>_.
     bindK (modK (upd_slock l (\<lambda>k. k\<lparr>sl_locked := False, sl_pid := 0\<rparr>))) (\<lambda>_.
     bindK (wakeup (ChanSlock l)) (\<lambda>_.
     release (L_sleep l))))"

definition holdingsleep :: "slock \<Rightarrow> ('z kslp_scheme, bool) kop" where
  "holdingsleep l =
     bindK (acquire (L_sleep l)) (\<lambda>_.
     bindK (getK (\<lambda>s. sl_locked (slocks s l))) (\<lambda>b.
     bindK (if b then with_myproc (\<lambda>c. getK (\<lambda>s. sl_pid (slocks s l) = p_pid (ptable s ! c)))
            else retK False) (\<lambda>r.
     bindK (release (L_sleep l)) (\<lambda>_.
     retK r))))"

end
