(* ===== verification/Bytes.thy ===== *)
theory Bytes
  imports Prelude
begin

text \<open>
  Byte arrays: the contents of a disk block, and the C structures that the kernel keeps in one.
  \<open>le16\<close> and \<open>le32\<close> are the bytes of a short and of an int on the machine, \<open>get16\<close> and \<open>get32\<close>
  read them back at an offset, and \<open>put_bytes\<close> stores bytes at an offset. The lemmas are the laws of
  reading what was written: the same field, another field, and how many bytes there are.
\<close>

abbreviation BSIZE :: nat where "BSIZE \<equiv> 512"

definition le16 :: "u16 \<Rightarrow> byte list" where
  "le16 v = [ucast v, ucast (drop_bit 8 v)]"

definition le32 :: "u32 \<Rightarrow> byte list" where
  "le32 v = [ucast v, ucast (drop_bit 8 v), ucast (drop_bit 16 v), ucast (drop_bit 24 v)]"

definition get16 :: "byte list \<Rightarrow> nat \<Rightarrow> u16" where
  "get16 bs i = ucast (bs ! i) OR push_bit 8 (ucast (bs ! (i + 1)))"

definition get32 :: "byte list \<Rightarrow> nat \<Rightarrow> u32" where
  "get32 bs i = ucast (bs ! i) OR push_bit 8 (ucast (bs ! (i + 1)))
     OR push_bit 16 (ucast (bs ! (i + 2))) OR push_bit 24 (ucast (bs ! (i + 3)))"

definition put_bytes :: "nat \<Rightarrow> byte list \<Rightarrow> byte list \<Rightarrow> byte list" where
  "put_bytes i xs bs = take i bs @ xs @ drop (i + length xs) bs"

definition slice :: "nat \<Rightarrow> nat \<Rightarrow> byte list \<Rightarrow> byte list" where
  "slice i n bs = take n (drop i bs)"

section \<open>Laws\<close>

lemma length_le [simp]: "length (le16 v) = 2" "length (le32 w) = 4"
  by (simp_all add: le16_def le32_def)

lemma length_put_bytes [simp]: "i + length xs \<le> length bs \<Longrightarrow> length (put_bytes i xs bs) = length bs"
  by (simp add: put_bytes_def)

lemma nth_put_bytes:
  "i + length xs \<le> length bs \<Longrightarrow> k < length bs \<Longrightarrow>
     put_bytes i xs bs ! k = (if i \<le> k \<and> k < i + length xs then xs ! (k - i) else bs ! k)"
  by (auto simp: put_bytes_def nth_append min_def)

lemma slice_put_bytes_same: "i + length xs \<le> length bs \<Longrightarrow> slice i (length xs) (put_bytes i xs bs) = xs"
  by (simp add: slice_def put_bytes_def)

lemma length_slice [simp]: "i + n \<le> length bs \<Longrightarrow> length (slice i n bs) = n"
  by (simp add: slice_def)

lemma nth_slice: "i + n \<le> length bs \<Longrightarrow> k < n \<Longrightarrow> slice i n bs ! k = bs ! (i + k)"
  by (simp add: slice_def)

lemma slice_put_bytes_other:
  assumes "i + length xs \<le> length bs" "k + n \<le> length bs" "k + n \<le> i \<or> i + length xs \<le> k"
  shows "slice k n (put_bytes i xs bs) = slice k n bs"
  by (rule nth_equalityI) (use assms in \<open>auto simp: nth_slice nth_put_bytes\<close>)

lemma get16_le16: "get16 (le16 v) 0 = v"
  unfolding get16_def le16_def by (rule bit_word_eqI) (auto simp: bit_simps)

lemma get32_le32: "get32 (le32 v) 0 = v"
proof (rule bit_word_eqI)
  fix n
  assume "n < LENGTH(32)"
  then show "bit (get32 (le32 v) 0) n = bit v n"
    by (cases "24 \<le> n"; cases "16 \<le> n"; cases "8 \<le> n") (auto simp: get32_def le32_def bit_simps)
qed

lemma get16_slice: "i + 2 \<le> length bs \<Longrightarrow> get16 bs i = get16 (slice i 2 bs) 0"
  by (simp add: get16_def nth_slice)

lemma get32_slice: "i + 4 \<le> length bs \<Longrightarrow> get32 bs i = get32 (slice i 4 bs) 0"
  by (simp add: get32_def nth_slice)

lemma get16_put_same: "i + 2 \<le> length bs \<Longrightarrow> get16 (put_bytes i (le16 v) bs) i = v"
  using slice_put_bytes_same [of i "le16 v" bs] by (simp add: get16_slice get16_le16)

lemma get32_put_same: "i + 4 \<le> length bs \<Longrightarrow> get32 (put_bytes i (le32 v) bs) i = v"
  using slice_put_bytes_same [of i "le32 v" bs] by (simp add: get32_slice get32_le32)

lemma get16_put_other:
  "i + length xs \<le> length bs \<Longrightarrow> k + 2 \<le> length bs \<Longrightarrow> k + 2 \<le> i \<or> i + length xs \<le> k \<Longrightarrow>
     get16 (put_bytes i xs bs) k = get16 bs k"
  by (simp add: get16_slice slice_put_bytes_other)

lemma get32_put_other:
  "i + length xs \<le> length bs \<Longrightarrow> k + 4 \<le> length bs \<Longrightarrow> k + 4 \<le> i \<or> i + length xs \<le> k \<Longrightarrow>
     get32 (put_bytes i xs bs) k = get32 bs k"
  by (simp add: get32_slice slice_put_bytes_other)

lemmas get_put = get16_put_same get32_put_same get16_put_other get32_put_other

end
