(* ===== verification/Bio.thy ===== *)
theory Bio
  imports Sleeplock Bytes
begin

text \<open>
  The buffer cache, \<^verbatim>\<open>bio.c\<close>, on the memory disk of \<^verbatim>\<open>memide.c\<close>.

  A buffer is its index in \<^verbatim>\<open>bcache.buf\<close>; the index \<open>NBUF\<close> is \<^verbatim>\<open>bcache.head\<close>. The list of all
  buffers is doubly linked through \<open>b_prev\<close> and \<open>b_next\<close>, as in the code. The two bits of
  \<^verbatim>\<open>flags\<close> are \<open>b_valid\<close> and \<open>b_dirty\<close>. \<open>disk\<close> is the memory disk by blocks. \<open>disk_hist\<close> is not in the
  code: it is the list of all writes to the disk since the start, the last one at the end, so that
  one can speak of the disk after a crash between two writes.
\<close>

abbreviation (input) NBUF :: nat where "NBUF \<equiv> 30"

record buf =
  b_valid :: bool
  b_dirty :: bool
  b_dev :: u32
  b_blockno :: u32
  b_refcnt :: u32
  b_prev :: nat
  b_next :: nat
  b_data :: "byte list"

record kbio = kslp +
  bufs :: "buf list"
  disk :: "u32 \<Rightarrow> byte list"
  disksize :: u32
  disk_hist :: "(u32 \<times> byte list) list"

definition upd_buf :: "nat \<Rightarrow> (buf \<Rightarrow> buf) \<Rightarrow> 'z kbio_scheme \<Rightarrow> 'z kbio_scheme" where
  "upd_buf b f s = s\<lparr>bufs := (bufs s)[b := f (bufs s ! b)]\<rparr>"

section \<open>The memory disk\<close>

definition ideinit :: "(u32 \<Rightarrow> byte list) \<Rightarrow> u32 \<Rightarrow> ('z kbio_scheme, unit) kop" where
  "ideinit fs_img fs_img_size = modK (\<lambda>s. s\<lparr>disk := fs_img, disksize := fs_img_size div 512\<rparr>)"

definition ideintr :: "('z kbio_scheme, unit) kop" where
  "ideintr = retK ()"

definition iderw :: "nat \<Rightarrow> ('z kbio_scheme, unit) kop" where
  "iderw b =
     bindK (holdingsleep (BufLock b)) (\<lambda>h.
     if \<not> h then panicK ''iderw: buf not locked''
     else bindK (getK (\<lambda>s. bufs s ! b)) (\<lambda>p.
     if b_valid p \<and> \<not> b_dirty p then panicK ''iderw: nothing to do''
     else if b_dev p \<noteq> 1 then panicK ''iderw: request not for disk 1''
     else bindK (getK disksize) (\<lambda>n.
     if n \<le> b_blockno p then panicK ''iderw: block out of range''
     else
       bindK (if b_dirty p then
                bindK (modK (upd_buf b (\<lambda>q. q\<lparr>b_dirty := False\<rparr>))) (\<lambda>_.
                modK (\<lambda>s. s\<lparr>disk := (disk s)(b_blockno p := b_data p),
                             disk_hist := disk_hist s @ [(b_blockno p, b_data p)]\<rparr>))
              else modK (\<lambda>s. upd_buf b (\<lambda>q. q\<lparr>b_data := disk s (b_blockno p)\<rparr>) s)) (\<lambda>_.
       modK (upd_buf b (\<lambda>q. q\<lparr>b_valid := True\<rparr>))))))"

section \<open>The buffer cache\<close>

text \<open>\<open>link_head b\<close> puts \<open>b\<close> at the front of the list, as \<open>binit\<close> and \<open>brelse\<close> do.\<close>

definition link_head :: "nat \<Rightarrow> ('z kbio_scheme, unit) kop" where
  "link_head b =
     bindK (modK (\<lambda>s. upd_buf b (\<lambda>q. q\<lparr>b_next := b_next (bufs s ! NBUF)\<rparr>) s)) (\<lambda>_.
     bindK (modK (upd_buf b (\<lambda>q. q\<lparr>b_prev := NBUF\<rparr>))) (\<lambda>_.
     bindK (modK (\<lambda>s. upd_buf (b_next (bufs s ! NBUF)) (\<lambda>q. q\<lparr>b_prev := b\<rparr>) s)) (\<lambda>_.
     modK (upd_buf NBUF (\<lambda>q. q\<lparr>b_next := b\<rparr>)))))"

definition binit :: "('z kbio_scheme, unit) kop" where
  "binit =
     bindK (modK (\<lambda>s. s\<lparr>held := held s - {L_bcache}\<rparr>)) (\<lambda>_.
     bindK (modK (upd_buf NBUF (\<lambda>q. q\<lparr>b_prev := NBUF, b_next := NBUF\<rparr>))) (\<lambda>_.
     forK [0..<NBUF] (\<lambda>b.
       bindK (initsleeplock (BufLock b)) (\<lambda>_. link_head b))))"

text \<open>
  The loop over the list, forwards or backwards, up to the first buffer with \<open>P\<close>. The first
  argument bounds the number of buffers it looks at; \<open>None\<close> is a list that has not come back to its
  head by then.
\<close>

fun find_buf :: "nat \<Rightarrow> (buf \<Rightarrow> nat) \<Rightarrow> (buf \<Rightarrow> bool) \<Rightarrow> buf list \<Rightarrow> nat \<Rightarrow> nat option option" where
  "find_buf 0 nxt P bs b = None"
| "find_buf (Suc n) nxt P bs b =
     (if b = NBUF then Some None
      else if P (bs ! b) then Some (Some b)
      else find_buf n nxt P bs (nxt (bs ! b)))"

definition bget :: "u32 \<Rightarrow> u32 \<Rightarrow> ('z kbio_scheme, nat) kop" where
  "bget dev blockno =
     bindK (acquire L_bcache) (\<lambda>_.
     bindK (getK (\<lambda>s. find_buf (NBUF + 1) b_next (\<lambda>p. b_dev p = dev \<and> b_blockno p = blockno)
                        (bufs s) (b_next (bufs s ! NBUF)))) (\<lambda>r.
     case r of
       None \<Rightarrow> divergeK
     | Some (Some b) \<Rightarrow>
         bindK (modK (upd_buf b (\<lambda>p. p\<lparr>b_refcnt := b_refcnt p + 1\<rparr>))) (\<lambda>_.
         bindK (release L_bcache) (\<lambda>_.
         bindK (acquiresleep (BufLock b)) (\<lambda>_.
         retK b)))
     | Some None \<Rightarrow>
         bindK (getK (\<lambda>s. find_buf (NBUF + 1) b_prev (\<lambda>p. b_refcnt p = 0 \<and> \<not> b_dirty p)
                            (bufs s) (b_prev (bufs s ! NBUF)))) (\<lambda>r.
         case r of
           None \<Rightarrow> divergeK
         | Some None \<Rightarrow> panicK ''bget: no buffers''
         | Some (Some b) \<Rightarrow>
             bindK (modK (upd_buf b (\<lambda>p. p\<lparr>b_dev := dev, b_blockno := blockno, b_valid := False,
                                           b_dirty := False, b_refcnt := 1\<rparr>))) (\<lambda>_.
             bindK (release L_bcache) (\<lambda>_.
             bindK (acquiresleep (BufLock b)) (\<lambda>_.
             retK b))))))"

definition bread :: "u32 \<Rightarrow> u32 \<Rightarrow> ('z kbio_scheme, nat) kop" where
  "bread dev blockno =
     bindK (bget dev blockno) (\<lambda>b.
     bindK (getK (\<lambda>s. b_valid (bufs s ! b))) (\<lambda>v.
     bindK (whenK (\<not> v) (iderw b)) (\<lambda>_.
     retK b)))"

definition bwrite :: "nat \<Rightarrow> ('z kbio_scheme, unit) kop" where
  "bwrite b =
     bindK (holdingsleep (BufLock b)) (\<lambda>h.
     if \<not> h then panicK ''bwrite''
     else
       bindK (modK (upd_buf b (\<lambda>p. p\<lparr>b_dirty := True\<rparr>))) (\<lambda>_.
       iderw b))"

definition unlink_buf :: "nat \<Rightarrow> ('z kbio_scheme, unit) kop" where
  "unlink_buf b =
     bindK (modK (\<lambda>s. upd_buf (b_next (bufs s ! b)) (\<lambda>q. q\<lparr>b_prev := b_prev (bufs s ! b)\<rparr>) s)) (\<lambda>_.
     modK (\<lambda>s. upd_buf (b_prev (bufs s ! b)) (\<lambda>q. q\<lparr>b_next := b_next (bufs s ! b)\<rparr>) s))"

definition brelse :: "nat \<Rightarrow> ('z kbio_scheme, unit) kop" where
  "brelse b =
     bindK (holdingsleep (BufLock b)) (\<lambda>h.
     if \<not> h then panicK ''brelse''
     else
       bindK (releasesleep (BufLock b)) (\<lambda>_.
       bindK (acquire L_bcache) (\<lambda>_.
       bindK (modK (upd_buf b (\<lambda>p. p\<lparr>b_refcnt := b_refcnt p - 1\<rparr>))) (\<lambda>_.
       bindK (getK (\<lambda>s. b_refcnt (bufs s ! b))) (\<lambda>r.
       bindK (whenK (r = 0) (bindK (unlink_buf b) (\<lambda>_. link_head b))) (\<lambda>_.
       release L_bcache))))))"

end
