(* ===== verification/Log.thy ===== *)
theory Log
  imports Bio
begin

text \<open>
  The log, \<^verbatim>\<open>log.c\<close>: transactions that are on the disk completely or not at all. The in-memory
  header is \<open>lh_n\<close> and \<open>lh_block\<close>. \<open>begin_op\<close> may sleep; its loop is \<open>begin_op_loop\<close>, which is also
  where it continues. Reading a header whose \<open>n\<close> is larger than the array of block numbers is
  outside what C defines and ends in a panic of the model.
\<close>

abbreviation (input) LOGSIZE :: int where "LOGSIZE \<equiv> 30"
abbreviation (input) MAXOPBLOCKS :: int where "MAXOPBLOCKS \<equiv> 10"

record superblock =
  sb_size :: u32
  sb_nblocks :: u32
  sb_ninodes :: u32
  sb_nlog :: u32
  sb_logstart :: u32
  sb_inodestart :: u32
  sb_bmapstart :: u32

record klog = kbio +
  log_start :: int
  log_size :: int
  log_outstanding :: int
  log_committing :: bool
  log_dev :: int
  lh_n :: int
  lh_block :: "u32 list"

text \<open>\<^verbatim>\<open>struct superblock\<close> at the start of a block.\<close>

definition dec_sb :: "byte list \<Rightarrow> superblock" where
  "dec_sb bs = \<lparr>sb_size = get32 bs 0, sb_nblocks = get32 bs 4, sb_ninodes = get32 bs 8, sb_nlog = get32 bs 12,
     sb_logstart = get32 bs 16, sb_inodestart = get32 bs 20, sb_bmapstart = get32 bs 24\<rparr>"

definition readsb :: "u32 \<Rightarrow> ('z kbio_scheme, superblock) kop" where
  "readsb dev =
     bindK (bread dev 1) (\<lambda>bp.
     bindK (getK (\<lambda>s. dec_sb (b_data (bufs s ! bp)))) (\<lambda>sb.
     bindK (brelse bp) (\<lambda>_.
     retK sb)))"

text \<open>\<open>copy_buf to from\<close> is \<^verbatim>\<open>memmove(to->data, from->data, BSIZE)\<close>.\<close>

definition copy_buf :: "nat \<Rightarrow> nat \<Rightarrow> ('z kbio_scheme, unit) kop" where
  "copy_buf to from = modK (\<lambda>s. upd_buf to (\<lambda>p. p\<lparr>b_data := b_data (bufs s ! from)\<rparr>) s)"

definition log_bread :: "(('z klog_scheme) \<Rightarrow> u32) \<Rightarrow> ('z klog_scheme, nat) kop" where
  "log_bread f = bindK (getK (\<lambda>s. (of_int (log_dev s), f s))) (\<lambda>(dev, n). bread dev n)"

definition install_block :: "nat \<Rightarrow> ('z klog_scheme, unit) kop" where
  "install_block tail =
     bindK (log_bread (\<lambda>s. of_int (log_start s + int tail + 1))) (\<lambda>lbuf.
     bindK (log_bread (\<lambda>s. lh_block s ! tail)) (\<lambda>dbuf.
     bindK (copy_buf dbuf lbuf) (\<lambda>_.
     bindK (bwrite dbuf) (\<lambda>_.
     bindK (brelse lbuf) (\<lambda>_.
     brelse dbuf)))))"

definition install_trans :: "('z klog_scheme, unit) kop" where
  "install_trans = bindK (getK lh_n) (\<lambda>n. forK [0..<nat n] install_block)"

text \<open>\<^verbatim>\<open>struct logheader\<close> in a block: \<open>n\<close> at offset 0, \<open>block[i]\<close> at \<open>4 + 4 * i\<close>.\<close>

definition read_head :: "('z klog_scheme, unit) kop" where
  "read_head =
     bindK (log_bread (\<lambda>s. of_int (log_start s))) (\<lambda>buf.
     bindK (getK (\<lambda>s. b_data (bufs s ! buf))) (\<lambda>lh.
     bindK (modK (\<lambda>s. s\<lparr>lh_n := sint (get32 lh 0)\<rparr>)) (\<lambda>_.
     bindK (getK lh_n) (\<lambda>n.
     if LOGSIZE < n then panicK ''undefined: block[n]''
     else
       bindK (forK [0..<nat n] (\<lambda>i. modK (\<lambda>s. s\<lparr>lh_block := (lh_block s)[i := get32 lh (4 + 4 * i)]\<rparr>))) (\<lambda>_.
       brelse buf)))))"

definition put_head :: "nat \<Rightarrow> int \<Rightarrow> u32 list \<Rightarrow> ('z klog_scheme, unit) kop" where
  "put_head buf n block =
     bindK (modK (upd_buf buf (\<lambda>p. p\<lparr>b_data := put_bytes 0 (le32 (of_int n)) (b_data p)\<rparr>))) (\<lambda>_.
     forK [0..<nat n] (\<lambda>i.
       modK (upd_buf buf (\<lambda>p. p\<lparr>b_data := put_bytes (4 + 4 * i) (le32 (block ! i)) (b_data p)\<rparr>))))"

definition write_head :: "('z klog_scheme, unit) kop" where
  "write_head =
     bindK (log_bread (\<lambda>s. of_int (log_start s))) (\<lambda>buf.
     bindK (getK (\<lambda>s. (lh_n s, lh_block s))) (\<lambda>(n, block).
     bindK (put_head buf n block) (\<lambda>_.
     bindK (bwrite buf) (\<lambda>_.
     brelse buf))))"

definition recover_from_log :: "('z klog_scheme, unit) kop" where
  "recover_from_log =
     bindK read_head (\<lambda>_.
     bindK install_trans (\<lambda>_.
     bindK (modK (\<lambda>s. s\<lparr>lh_n := 0\<rparr>)) (\<lambda>_.
     write_head)))"

definition initlog :: "int \<Rightarrow> ('z klog_scheme, unit) kop" where
  "initlog dev =
     bindK (modK (\<lambda>s. s\<lparr>held := held s - {L_log}\<rparr>)) (\<lambda>_.
     bindK (readsb (of_int dev)) (\<lambda>sb.
     bindK (modK (\<lambda>s. s\<lparr>log_start := sint (sb_logstart sb), log_size := sint (sb_nlog sb), log_dev := dev\<rparr>)) (\<lambda>_.
     recover_from_log)))"

definition begin_op_loop :: "('z klog_scheme, unit) kop" where
  "begin_op_loop =
     bindK (getK log_committing) (\<lambda>c.
     bindK (getK (\<lambda>s. lh_n s + (log_outstanding s + 1) * MAXOPBLOCKS > LOGSIZE)) (\<lambda>full.
     if c then sleep ChanLog L_log
     else if full then sleep ChanLog L_log
     else
       bindK (modK (\<lambda>s. s\<lparr>log_outstanding := log_outstanding s + 1\<rparr>)) (\<lambda>_.
       release L_log)))"

definition begin_op :: "('z klog_scheme, unit) kop" where
  "begin_op = bindK (acquire L_log) (\<lambda>_. begin_op_loop)"

definition begin_op_return :: "nat \<Rightarrow> ('z klog_scheme, unit) kop" where
  "begin_op_return c = bindK (sleep_return c L_log) (\<lambda>_. begin_op_loop)"

definition log_block :: "nat \<Rightarrow> ('z klog_scheme, unit) kop" where
  "log_block tail =
     bindK (log_bread (\<lambda>s. of_int (log_start s + int tail + 1))) (\<lambda>to.
     bindK (log_bread (\<lambda>s. lh_block s ! tail)) (\<lambda>from.
     bindK (copy_buf to from) (\<lambda>_.
     bindK (bwrite to) (\<lambda>_.
     bindK (brelse from) (\<lambda>_.
     brelse to)))))"

definition write_log :: "('z klog_scheme, unit) kop" where
  "write_log = bindK (getK lh_n) (\<lambda>n. forK [0..<nat n] log_block)"

definition commit :: "('z klog_scheme, unit) kop" where
  "commit =
     bindK (getK lh_n) (\<lambda>n.
     whenK (0 < n)
       (bindK write_log (\<lambda>_.
        bindK write_head (\<lambda>_.
        bindK install_trans (\<lambda>_.
        bindK (modK (\<lambda>s. s\<lparr>lh_n := 0\<rparr>)) (\<lambda>_.
        write_head))))))"

definition end_op :: "('z klog_scheme, unit) kop" where
  "end_op =
     bindK (acquire L_log) (\<lambda>_.
     bindK (modK (\<lambda>s. s\<lparr>log_outstanding := log_outstanding s - 1\<rparr>)) (\<lambda>_.
     bindK (getK (\<lambda>s. (log_committing s, log_outstanding s))) (\<lambda>(c, out).
     if c then panicK ''log.committing''
     else
       bindK (if out = 0 then modK (\<lambda>s. s\<lparr>log_committing := True\<rparr>) else wakeup ChanLog) (\<lambda>_.
       bindK (release L_log) (\<lambda>_.
       whenK (out = 0)
         (bindK commit (\<lambda>_.
          bindK (acquire L_log) (\<lambda>_.
          bindK (modK (\<lambda>s. s\<lparr>log_committing := False\<rparr>)) (\<lambda>_.
          bindK (wakeup ChanLog) (\<lambda>_.
          release L_log))))))))))"

text \<open>
  \<open>log_slot\<close> is the loop that looks for the block in the header: the index of the entry, or \<open>n\<close>.
\<close>

definition log_slot :: "int \<Rightarrow> u32 list \<Rightarrow> u32 \<Rightarrow> nat" where
  "log_slot n block b = (case find_idx (\<lambda>x. x = b) (take (nat n) block) of Some i \<Rightarrow> i | None \<Rightarrow> nat n)"

definition log_write :: "nat \<Rightarrow> ('z klog_scheme, unit) kop" where
  "log_write b =
     bindK (getK (\<lambda>s. (lh_n s, log_size s, log_outstanding s))) (\<lambda>(n, size, out).
     if LOGSIZE \<le> n \<or> size - 1 \<le> n then panicK ''too big a transaction''
     else if out < 1 then panicK ''log_write outside of trans''
     else
       bindK (acquire L_log) (\<lambda>_.
       bindK (getK (\<lambda>s. log_slot (lh_n s) (lh_block s) (b_blockno (bufs s ! b)))) (\<lambda>i.
       bindK (modK (\<lambda>s. s\<lparr>lh_block := (lh_block s)[i := b_blockno (bufs s ! b)]\<rparr>)) (\<lambda>_.
       bindK (modK (\<lambda>s. if int i = lh_n s then s\<lparr>lh_n := lh_n s + 1\<rparr> else s)) (\<lambda>_.
       bindK (modK (upd_buf b (\<lambda>p. p\<lparr>b_dirty := True\<rparr>))) (\<lambda>_.
       release L_log))))))"

end
