(* ===== verification/Inode.thy ===== *)
theory Inode
  imports Log Vm
begin

text \<open>
  Blocks and inodes: the first part of \<^verbatim>\<open>fs.c\<close>, up to \<^verbatim>\<open>stati\<close>. An inode is its index in
  \<^verbatim>\<open>icache.inode\<close>, so the tests for a null pointer are in the type. The shorts of
  \<^verbatim>\<open>struct inode\<close> are 16-bit words.
\<close>

abbreviation (input) NINODE :: nat where "NINODE \<equiv> 50"
abbreviation (input) NDIRECT :: nat where "NDIRECT \<equiv> 12"
abbreviation (input) NINDIRECT :: nat where "NINDIRECT \<equiv> 128"
abbreviation (input) BPB :: nat where "BPB \<equiv> 4096"
abbreviation (input) IPB :: u32 where "IPB \<equiv> 8"
abbreviation (input) T_DIR :: u16 where "T_DIR \<equiv> 1"
abbreviation (input) T_FILE :: u16 where "T_FILE \<equiv> 2"
abbreviation (input) T_DEV :: u16 where "T_DEV \<equiv> 3"

record inode =
  i_dev :: u32
  i_inum :: u32
  i_ref :: int
  i_valid :: bool
  i_type :: u16
  i_major :: u16
  i_minor :: u16
  i_nlink :: u16
  i_size :: u32
  i_addrs :: "u32 list"

record kino = klog +
  sb :: superblock
  icache :: "inode list"

definition upd_inode :: "nat \<Rightarrow> (inode \<Rightarrow> inode) \<Rightarrow> 'z kino_scheme \<Rightarrow> 'z kino_scheme" where
  "upd_inode i f s = s\<lparr>icache := (icache s)[i := f (icache s ! i)]\<rparr>"

definition upd_data :: "nat \<Rightarrow> (byte list \<Rightarrow> byte list) \<Rightarrow> ('z kbio_scheme, unit) kop" where
  "upd_data b f = modK (upd_buf b (\<lambda>p. p\<lparr>b_data := f (b_data p)\<rparr>))"

definition data_of :: "nat \<Rightarrow> ('z kbio_scheme, byte list) kop" where
  "data_of b = getK (\<lambda>s. b_data (bufs s ! b))"

section \<open>Blocks\<close>

definition bzero :: "u32 \<Rightarrow> u32 \<Rightarrow> ('z klog_scheme, unit) kop" where
  "bzero dev bno =
     bindK (bread dev bno) (\<lambda>bp.
     bindK (upd_data bp (\<lambda>_. replicate BSIZE 0)) (\<lambda>_.
     bindK (log_write bp) (\<lambda>_.
     brelse bp)))"

definition BBLOCK :: "u32 \<Rightarrow> superblock \<Rightarrow> u32" where
  "BBLOCK b sblk = b div 4096 + sb_bmapstart sblk"

definition IBLOCK :: "u32 \<Rightarrow> superblock \<Rightarrow> u32" where
  "IBLOCK i sblk = i div IPB + sb_inodestart sblk"

text \<open>Bit \<open>bi\<close> of a block of the free map.\<close>

definition bit_clear :: "byte list \<Rightarrow> nat \<Rightarrow> bool" where
  "bit_clear bs bi \<longleftrightarrow> bs ! (bi div 8) AND push_bit (bi mod 8) 1 = 0"

definition set_map_bit :: "nat \<Rightarrow> byte list \<Rightarrow> byte list" where
  "set_map_bit bi bs = bs[bi div 8 := bs ! (bi div 8) OR push_bit (bi mod 8) 1]"

definition clear_map_bit :: "nat \<Rightarrow> byte list \<Rightarrow> byte list" where
  "clear_map_bit bi bs = bs[bi div 8 := bs ! (bi div 8) AND NOT (push_bit (bi mod 8) 1)]"

text \<open>
  The outer loop of \<open>balloc\<close>, over the values of \<open>b\<close>; the inner one is the search for the first
  free bit below \<open>BPB\<close> and below the end of the disk.
\<close>

fun balloc_loop :: "nat list \<Rightarrow> u32 \<Rightarrow> ('z kino_scheme, u32) kop" where
  "balloc_loop [] dev = panicK ''balloc: out of blocks''"
| "balloc_loop (b # bs) dev =
     bindK (getK sb) (\<lambda>sb.
     bindK (bread dev (BBLOCK (of_nat b) sb)) (\<lambda>bp.
     bindK (data_of bp) (\<lambda>d.
     case find_idx (bit_clear d) [0..<min BPB (unat (sb_size sb) - b)] of
       Some bi \<Rightarrow>
         bindK (upd_data bp (set_map_bit bi)) (\<lambda>_.
         bindK (log_write bp) (\<lambda>_.
         bindK (brelse bp) (\<lambda>_.
         bindK (bzero dev (of_nat (b + bi))) (\<lambda>_.
         retK (of_nat (b + bi))))))
     | None \<Rightarrow> bindK (brelse bp) (\<lambda>_. balloc_loop bs dev))))"

definition balloc :: "u32 \<Rightarrow> ('z kino_scheme, u32) kop" where
  "balloc dev =
     bindK (getK (\<lambda>s. unat (sb_size (sb s)))) (\<lambda>n.
     balloc_loop (map (\<lambda>k. BPB * k) [0..<(n + BPB - 1) div BPB]) dev)"

definition bfree :: "u32 \<Rightarrow> u32 \<Rightarrow> ('z kino_scheme, unit) kop" where
  "bfree dev b =
     bindK (getK sb) (\<lambda>sb.
     bindK (bread dev (BBLOCK b sb)) (\<lambda>bp.
     bindK (data_of bp) (\<lambda>d.
     let bi = unat b mod BPB
     in if bit_clear d bi then panicK ''freeing free block''
        else
          bindK (upd_data bp (clear_map_bit bi)) (\<lambda>_.
          bindK (log_write bp) (\<lambda>_.
          brelse bp)))))"

section \<open>Inodes\<close>

definition iinit :: "u32 \<Rightarrow> ('z kino_scheme, unit) kop" where
  "iinit dev =
     bindK (modK (\<lambda>s. s\<lparr>held := held s - {L_icache}\<rparr>)) (\<lambda>_.
     bindK (forK [0..<NINODE] (\<lambda>i. initsleeplock (InodeLock i))) (\<lambda>_.
     bindK (readsb dev) (\<lambda>b.
     modK (\<lambda>s. s\<lparr>sb := b\<rparr>))))"

text \<open>\<^verbatim>\<open>struct dinode\<close>: the offset of inode \<open>inum\<close> in its block, and the fields there.\<close>

definition dip_off :: "u32 \<Rightarrow> nat" where
  "dip_off inum = 64 * unat (inum mod IPB)"

definition dinode_bytes :: "inode \<Rightarrow> byte list" where
  "dinode_bytes ip = le16 (i_type ip) @ le16 (i_major ip) @ le16 (i_minor ip) @ le16 (i_nlink ip) @
     le32 (i_size ip) @ concat (map le32 (i_addrs ip))"

definition load_dinode :: "byte list \<Rightarrow> nat \<Rightarrow> inode \<Rightarrow> inode" where
  "load_dinode bs o' ip = ip\<lparr>i_type := get16 bs o', i_major := get16 bs (o' + 2), i_minor := get16 bs (o' + 4),
     i_nlink := get16 bs (o' + 6), i_size := get32 bs (o' + 8),
     i_addrs := map (\<lambda>k. get32 bs (o' + 12 + 4 * k)) [0..<NDIRECT + 1]\<rparr>"

definition iget :: "u32 \<Rightarrow> u32 \<Rightarrow> ('z kino_scheme, nat) kop" where
  "iget dev inum =
     bindK (acquire L_icache) (\<lambda>_.
     bindK (getK (\<lambda>s. find_idx (\<lambda>p. i_ref p > 0 \<and> i_dev p = dev \<and> i_inum p = inum) (icache s))) (\<lambda>found.
     case found of
       Some ip \<Rightarrow>
         bindK (modK (upd_inode ip (\<lambda>p. p\<lparr>i_ref := i_ref p + 1\<rparr>))) (\<lambda>_.
         bindK (release L_icache) (\<lambda>_.
         retK ip))
     | None \<Rightarrow>
         bindK (getK (\<lambda>s. find_idx (\<lambda>p. i_ref p = 0) (icache s))) (\<lambda>empty.
         case empty of
           None \<Rightarrow> panicK ''iget: no inodes''
         | Some ip \<Rightarrow>
             bindK (modK (upd_inode ip (\<lambda>p. p\<lparr>i_dev := dev, i_inum := inum, i_ref := 1, i_valid := False\<rparr>))) (\<lambda>_.
             bindK (release L_icache) (\<lambda>_.
             retK ip)))))"

fun ialloc_loop :: "u32 list \<Rightarrow> u32 \<Rightarrow> u16 \<Rightarrow> ('z kino_scheme, nat) kop" where
  "ialloc_loop [] dev type = panicK ''ialloc: no inodes''"
| "ialloc_loop (inum # inums) dev type =
     bindK (getK sb) (\<lambda>sb.
     bindK (bread dev (IBLOCK inum sb)) (\<lambda>bp.
     bindK (data_of bp) (\<lambda>d.
     if get16 d (dip_off inum) = 0 then
       bindK (upd_data bp (put_bytes (dip_off inum) (replicate 64 0))) (\<lambda>_.
       bindK (upd_data bp (put_bytes (dip_off inum) (le16 type))) (\<lambda>_.
       bindK (log_write bp) (\<lambda>_.
       bindK (brelse bp) (\<lambda>_.
       iget dev inum))))
     else bindK (brelse bp) (\<lambda>_. ialloc_loop inums dev type))))"

definition ialloc :: "u32 \<Rightarrow> u16 \<Rightarrow> ('z kino_scheme, nat) kop" where
  "ialloc dev type =
     bindK (getK (\<lambda>s. unat (sb_ninodes (sb s)))) (\<lambda>n.
     ialloc_loop (map of_nat [1..<n]) dev type)"

definition iupdate :: "nat \<Rightarrow> ('z kino_scheme, unit) kop" where
  "iupdate ip =
     bindK (getK (\<lambda>s. (icache s ! ip, sb s))) (\<lambda>(p, sb).
     bindK (bread (i_dev p) (IBLOCK (i_inum p) sb)) (\<lambda>bp.
     bindK (upd_data bp (put_bytes (dip_off (i_inum p)) (dinode_bytes p))) (\<lambda>_.
     bindK (log_write bp) (\<lambda>_.
     brelse bp))))"

definition idup :: "nat \<Rightarrow> ('z kino_scheme, nat) kop" where
  "idup ip =
     bindK (acquire L_icache) (\<lambda>_.
     bindK (modK (upd_inode ip (\<lambda>p. p\<lparr>i_ref := i_ref p + 1\<rparr>))) (\<lambda>_.
     bindK (release L_icache) (\<lambda>_.
     retK ip)))"

definition ilock :: "nat \<Rightarrow> ('z kino_scheme, unit) kop" where
  "ilock ip =
     bindK (getK (\<lambda>s. i_ref (icache s ! ip))) (\<lambda>r.
     if r < 1 then panicK ''ilock''
     else
       bindK (acquiresleep (InodeLock ip)) (\<lambda>_.
       bindK (getK (\<lambda>s. (icache s ! ip, sb s))) (\<lambda>(p, sb).
       whenK (\<not> i_valid p)
         (bindK (bread (i_dev p) (IBLOCK (i_inum p) sb)) (\<lambda>bp.
          bindK (data_of bp) (\<lambda>d.
          bindK (modK (upd_inode ip (load_dinode d (dip_off (i_inum p))))) (\<lambda>_.
          bindK (brelse bp) (\<lambda>_.
          bindK (modK (upd_inode ip (\<lambda>q. q\<lparr>i_valid := True\<rparr>))) (\<lambda>_.
          bindK (getK (\<lambda>s. i_type (icache s ! ip))) (\<lambda>t.
          whenK (t = 0) (panicK ''ilock: no type'')))))))))))"
definition iunlock :: "nat \<Rightarrow> ('z kino_scheme, unit) kop" where
  "iunlock ip =
     bindK (holdingsleep (InodeLock ip)) (\<lambda>h.
     if \<not> h then panicK ''iunlock''
     else bindK (getK (\<lambda>s. i_ref (icache s ! ip))) (\<lambda>r.
     if r < 1 then panicK ''iunlock''
     else releasesleep (InodeLock ip)))"

text \<open>The loops of \<open>itrunc\<close> free the direct and the indirect blocks.\<close>

definition free_direct :: "nat \<Rightarrow> nat \<Rightarrow> ('z kino_scheme, unit) kop" where
  "free_direct ip i =
     bindK (getK (\<lambda>s. (i_dev (icache s ! ip), i_addrs (icache s ! ip) ! i))) (\<lambda>(dev, a).
     whenK (a \<noteq> 0)
       (bindK (bfree dev a) (\<lambda>_.
        modK (upd_inode ip (\<lambda>p. p\<lparr>i_addrs := (i_addrs p)[i := 0]\<rparr>)))))"

definition free_indirect :: "nat \<Rightarrow> nat \<Rightarrow> nat \<Rightarrow> ('z kino_scheme, unit) kop" where
  "free_indirect ip bp j =
     bindK (getK (\<lambda>s. (i_dev (icache s ! ip), get32 (b_data (bufs s ! bp)) (4 * j)))) (\<lambda>(dev, a).
     whenK (a \<noteq> 0) (bfree dev a))"

definition itrunc :: "nat \<Rightarrow> ('z kino_scheme, unit) kop" where
  "itrunc ip =
     bindK (forK [0..<NDIRECT] (free_direct ip)) (\<lambda>_.
     bindK (getK (\<lambda>s. (i_dev (icache s ! ip), i_addrs (icache s ! ip) ! NDIRECT))) (\<lambda>(dev, ind).
     bindK (whenK (ind \<noteq> 0)
       (bindK (bread dev ind) (\<lambda>bp.
        bindK (forK [0..<NINDIRECT] (free_indirect ip bp)) (\<lambda>_.
        bindK (brelse bp) (\<lambda>_.
        bindK (bfree dev ind) (\<lambda>_.
        modK (upd_inode ip (\<lambda>p. p\<lparr>i_addrs := (i_addrs p)[NDIRECT := 0]\<rparr>)))))))) (\<lambda>_.
     bindK (modK (upd_inode ip (\<lambda>p. p\<lparr>i_size := 0\<rparr>))) (\<lambda>_.
     iupdate ip))))"

definition iput_free :: "nat \<Rightarrow> ('z kino_scheme, unit) kop" where
  "iput_free ip =
     bindK (acquire L_icache) (\<lambda>_.
     bindK (getK (\<lambda>s. i_ref (icache s ! ip))) (\<lambda>r.
     bindK (release L_icache) (\<lambda>_.
     whenK (r = 1)
       (bindK (itrunc ip) (\<lambda>_.
        bindK (modK (upd_inode ip (\<lambda>p. p\<lparr>i_type := 0\<rparr>))) (\<lambda>_.
        bindK (iupdate ip) (\<lambda>_.
        modK (upd_inode ip (\<lambda>p. p\<lparr>i_valid := False\<rparr>)))))))))"
definition iput :: "nat \<Rightarrow> ('z kino_scheme, unit) kop" where
  "iput ip =
     bindK (acquiresleep (InodeLock ip)) (\<lambda>_.
     bindK (getK (\<lambda>s. i_valid (icache s ! ip) \<and> i_nlink (icache s ! ip) = 0)) (\<lambda>b.
     bindK (whenK b (iput_free ip)) (\<lambda>_.
     bindK (releasesleep (InodeLock ip)) (\<lambda>_.
     bindK (acquire L_icache) (\<lambda>_.
     bindK (modK (upd_inode ip (\<lambda>p. p\<lparr>i_ref := i_ref p - 1\<rparr>))) (\<lambda>_.
     release L_icache))))))"

definition iunlockput :: "nat \<Rightarrow> ('z kino_scheme, unit) kop" where
  "iunlockput ip = bindK (iunlock ip) (\<lambda>_. iput ip)"

section \<open>Contents\<close>

definition bmap :: "nat \<Rightarrow> u32 \<Rightarrow> ('z kino_scheme, u32) kop" where
  "bmap ip bn =
     bindK (getK (\<lambda>s. icache s ! ip)) (\<lambda>p.
     if bn < 12 then
       (let addr = i_addrs p ! unat bn
        in if addr = 0 then
             bindK (balloc (i_dev p)) (\<lambda>addr.
             bindK (modK (upd_inode ip (\<lambda>q. q\<lparr>i_addrs := (i_addrs q)[unat bn := addr]\<rparr>))) (\<lambda>_.
             retK addr))
           else retK addr)
     else if bn - 12 < 128 then
       bindK (if i_addrs p ! NDIRECT = 0 then
                bindK (balloc (i_dev p)) (\<lambda>addr.
                bindK (modK (upd_inode ip (\<lambda>q. q\<lparr>i_addrs := (i_addrs q)[NDIRECT := addr]\<rparr>))) (\<lambda>_.
                retK addr))
              else retK (i_addrs p ! NDIRECT)) (\<lambda>ind.
       bindK (bread (i_dev p) ind) (\<lambda>bp.
       bindK (data_of bp) (\<lambda>a.
       bindK (if get32 a (4 * unat (bn - 12)) = 0 then
                bindK (balloc (i_dev p)) (\<lambda>addr.
                bindK (upd_data bp (put_bytes (4 * unat (bn - 12)) (le32 addr))) (\<lambda>_.
                bindK (log_write bp) (\<lambda>_.
                retK addr)))
              else retK (get32 a (4 * unat (bn - 12)))) (\<lambda>addr.
       bindK (brelse bp) (\<lambda>_.
       retK addr)))))
     else panicK ''bmap: out of range'')"

text \<open>\<^verbatim>\<open>struct stat\<close> is 20 bytes; \<open>st\<close> is an address of the process.\<close>

definition stati :: "nat \<Rightarrow> u32 \<Rightarrow> ('z kino_scheme, unit) kop" where
  "stati ip st =
     bindK (getK (\<lambda>s. icache s ! ip)) (\<lambda>p.
     bindK (vwrite (st + 4) (le32 (i_dev p))) (\<lambda>_.
     bindK (vwrite (st + 8) (le32 (i_inum p))) (\<lambda>_.
     bindK (vwrite st (le16 (i_type p))) (\<lambda>_.
     bindK (vwrite (st + 12) (le16 (i_nlink p))) (\<lambda>_.
     vwrite (st + 16) (le32 (i_size p)))))))"

end
