(* ===== verification/Console.thy ===== *)
theory Console
  imports Inode
begin

text \<open>
  The console: \<^verbatim>\<open>console.c\<close>, \<^verbatim>\<open>kbd.c\<close> with the tables of \<^verbatim>\<open>kbd.h\<close>, the character routines of
  \<^verbatim>\<open>uart.c\<close>, and \<^verbatim>\<open>procdump\<close>, which prints.

  The devices are part of the state: \<open>crt\<close> is the video memory and \<open>crt_pos\<close> the cursor registers,
  \<open>kbd_in\<close> and \<open>uart_in\<close> are the bytes that wait in the keyboard controller and in the serial port,
  \<open>uart_out\<close> is everything sent to the serial port. A function pointer of \<^verbatim>\<open>devsw\<close> is the name of
  the function, \<open>devfun\<close>. The arguments of \<^verbatim>\<open>cprintf\<close> are a list; fewer arguments than the format
  asks for, or of the wrong kind, is outside what C defines and ends in a panic of the model.

  Where the kernel copies to or from a buffer, the buffer is memory of the process or a local
  variable: \<open>Addr\<close> is the former, \<open>Local\<close> the latter, whose bytes the operation returns.
\<close>

datatype devfun = Consoleread | Consolewrite

record kcons = kino +
  cons_locking :: bool
  panicked :: bool
  crt :: "nat \<Rightarrow> u16"
  crt_pos :: u16
  input_buf :: "byte list"
  input_r :: u32
  input_w :: u32
  input_e :: u32
  kbd_shift :: u32
  kbd_in :: "byte list"
  uart :: bool
  uart_in :: "byte list"
  uart_out :: "byte list"
  devsw :: "(devfun option \<times> devfun option) list"

section \<open>Copies\<close>

datatype dst = Addr u32 | Local

datatype src = Mem u32 | Bytes "byte list"

definition copy_to :: "dst \<Rightarrow> u32 \<Rightarrow> byte list \<Rightarrow> ('z kvm_scheme, unit) kop" where
  "copy_to d tot bs = (case d of Addr a \<Rightarrow> vwrite (a + tot) bs | Local \<Rightarrow> retK ())"

definition copy_from :: "src \<Rightarrow> u32 \<Rightarrow> u32 \<Rightarrow> ('z kvm_scheme, byte list) kop" where
  "copy_from r tot m =
     (case r of Mem a \<Rightarrow> vread (a + tot) (unat m) | Bytes bs \<Rightarrow> retK (take (unat m) (drop (unat tot) bs)))"

section \<open>Output\<close>

abbreviation (input) BACKSPACE :: int where "BACKSPACE \<equiv> 0x100"

definition uartputc :: "int \<Rightarrow> ('z kcons_scheme, unit) kop" where
  "uartputc c = bindK (getK uart) (\<lambda>u. whenK u (modK (\<lambda>s. s\<lparr>uart_out := uart_out s @ [of_int c]\<rparr>)))"

definition cgaputc :: "int \<Rightarrow> ('z kcons_scheme, unit) kop" where
  "cgaputc c =
     bindK (getK (\<lambda>s. uint (crt_pos s))) (\<lambda>pos.
     bindK (whenK (c \<noteq> 10 \<and> c \<noteq> BACKSPACE)
              (modK (\<lambda>s. s\<lparr>crt := (crt s)(nat pos := (of_int c AND 0xFF) OR 0x0700)\<rparr>))) (\<lambda>_.
     let pos = (if c = 10 then pos + (80 - pos mod 80)
                else if c = BACKSPACE then (if pos > 0 then pos - 1 else pos)
                else pos + 1)
     in if pos < 0 \<or> pos > 25 * 80 then panicK ''pos under/overflow''
        else
          bindK (if pos div 80 \<ge> 24 then
                   bindK (modK (\<lambda>s. s\<lparr>crt := (\<lambda>i. if i < 23 * 80 then crt s (i + 80) else crt s i)\<rparr>)) (\<lambda>_.
                   bindK (modK (\<lambda>s. s\<lparr>crt := (\<lambda>i. if nat (pos - 80) \<le> i \<and> i < 24 * 80 then 0 else crt s i)\<rparr>)) (\<lambda>_.
                   retK (pos - 80)))
                 else retK pos) (\<lambda>pos.
          bindK (modK (\<lambda>s. s\<lparr>crt_pos := of_int pos\<rparr>)) (\<lambda>_.
          modK (\<lambda>s. s\<lparr>crt := (crt s)(nat pos := 0x0720)\<rparr>)))))"

definition consputc :: "int \<Rightarrow> ('z kcons_scheme, unit) kop" where
  "consputc c =
     bindK (getK panicked) (\<lambda>p.
     if p then divergeK
     else
       bindK (if c = BACKSPACE then
                bindK (uartputc 8) (\<lambda>_. bindK (uartputc 32) (\<lambda>_. uartputc 8))
              else uartputc c) (\<lambda>_.
       cgaputc c))"

text \<open>\<open>digits_loop\<close> is the loop of \<open>printint\<close>: the digits, the last one first.\<close>

definition digit :: "nat \<Rightarrow> int" where
  "digit d = (if d < 10 then 48 + int d else 87 + int d)"

function digits_loop :: "nat \<Rightarrow> nat \<Rightarrow> int list" where
  "digits_loop x base =
     digit (x mod base) # (if x div base = 0 \<or> base < 2 then [] else digits_loop (x div base) base)"
  by pat_completeness auto
termination
  by (relation "measure fst") (auto simp: div_eq_0_iff intro: div_less_dividend)

definition int_chars :: "u32 \<Rightarrow> nat \<Rightarrow> bool \<Rightarrow> int list" where
  "int_chars xx base sign =
     (let neg = (sign \<and> sint xx < 0);
          x = (if neg then - xx else xx)
      in rev (digits_loop (unat x) base @ (if neg then [45] else [])))"

definition printint :: "u32 \<Rightarrow> nat \<Rightarrow> bool \<Rightarrow> ('z kcons_scheme, unit) kop" where
  "printint xx base sign = forK (int_chars xx base sign) consputc"

datatype carg = CInt u32 | CStr "byte list option"

fun cprintf_loop :: "byte list \<Rightarrow> carg list \<Rightarrow> ('z kcons_scheme, unit) kop" where
  "cprintf_loop [] as = retK ()"
| "cprintf_loop (c # cs) as =
     (if c \<noteq> 37 then bindK (consputc (uint c)) (\<lambda>_. cprintf_loop cs as)
      else case cs of
        [] \<Rightarrow> retK ()
      | d # ds \<Rightarrow>
          if d = 100 then
            (case as of
               CInt n # as' \<Rightarrow> bindK (printint n 10 True) (\<lambda>_. cprintf_loop ds as')
             | _ \<Rightarrow> panicK ''undefined: cprintf'')
          else if d = 120 \<or> d = 112 then
            (case as of
               CInt n # as' \<Rightarrow> bindK (printint n 16 False) (\<lambda>_. cprintf_loop ds as')
             | _ \<Rightarrow> panicK ''undefined: cprintf'')
          else if d = 115 then
            (case as of
               CStr str # as' \<Rightarrow>
                 bindK (forK (case str of None \<Rightarrow> bytes ''(null)'' | Some b \<Rightarrow> b) (\<lambda>b. consputc (uint b))) (\<lambda>_.
                 cprintf_loop ds as')
             | _ \<Rightarrow> panicK ''undefined: cprintf'')
          else if d = 37 then bindK (consputc 37) (\<lambda>_. cprintf_loop ds as)
          else bindK (consputc 37) (\<lambda>_. bindK (consputc (uint d)) (\<lambda>_. cprintf_loop ds as)))"

definition cprintf :: "byte list \<Rightarrow> carg list \<Rightarrow> ('z kcons_scheme, unit) kop" where
  "cprintf fmt as =
     bindK (getK cons_locking) (\<lambda>locking.
     bindK (whenK locking (acquire L_cons)) (\<lambda>_.
     bindK (cprintf_loop fmt as) (\<lambda>_.
     whenK locking (release L_cons))))"

section \<open>The process listing\<close>

fun state_name :: "procstate \<Rightarrow> string" where
  "state_name UNUSED = ''UNUSED''"
| "state_name EMBRYO = ''EMBRYO''"
| "state_name SLEEPING = ''SLEEPING''"
| "state_name RUNNABLE = ''RUNNABLE''"
| "state_name RUNNING = ''RUNNING''"
| "state_name ZOMBIE = ''ZOMBIE''"

definition procdump_line :: "nat \<Rightarrow> ('z kcons_scheme, unit) kop" where
  "procdump_line i =
     bindK (getK ptable) (\<lambda>ps.
     let p = ps ! i
     in if p_state p = UNUSED then retK ()
        else
          cprintf (bytes ''%d'' @ [9] @ bytes ''%d'' @ [9] @ bytes ''%s'' @ [9] @ bytes ''%s'' @ [10])
            [CInt (of_int (p_pid p)),
             CInt (case p_parent p of None \<Rightarrow> 0 | Some q \<Rightarrow> of_int (p_pid (ps ! q))),
             CStr (Some (bytes (state_name (p_state p)))), CStr (Some (cstr (p_name p)))])"

definition procdump :: "('z kcons_scheme, unit) kop" where
  "procdump = forK [0..<NPROC] procdump_line"

section \<open>Input\<close>

definition set_buf :: "byte \<Rightarrow> 'z kcons_scheme \<Rightarrow> 'z kcons_scheme" where
  "set_buf c s = s\<lparr>input_buf := (input_buf s)[unat (input_e s mod 128) := c], input_e := input_e s + 1\<rparr>"

text \<open>The loop of Control-U. Its bound is the number of characters of the line.\<close>

fun kill_line :: "nat \<Rightarrow> ('z kcons_scheme, unit) kop" where
  "kill_line 0 = retK ()"
| "kill_line (Suc n) =
     bindK (getK (\<lambda>s. input_e s \<noteq> input_w s \<and> input_buf s ! unat ((input_e s - 1) mod 128) \<noteq> 10)) (\<lambda>b.
     whenK b
       (bindK (modK (\<lambda>s. s\<lparr>input_e := input_e s - 1\<rparr>)) (\<lambda>_.
        bindK (consputc BACKSPACE) (\<lambda>_.
        kill_line n))))"

text \<open>
  One character of the loop of \<open>consoleintr\<close>; the result says whether it asked for a process
  listing.
\<close>

definition raise_sigint :: "('z kcons_scheme, unit) kop" where
  "raise_sigint =
     bindK (getK curproc) (\<lambda>c. case c of
       None \<Rightarrow> retK ()
     | Some i \<Rightarrow> modK (upd_proc i (\<lambda>p. p\<lparr>p_pending_signals := p_pending_signals p OR push_bit 2 1\<rparr>)))"

definition store_char :: "int \<Rightarrow> ('z kcons_scheme, unit) kop" where
  "store_char c =
     bindK (getK (\<lambda>s. c \<noteq> 0 \<and> input_e s - input_r s < 128)) (\<lambda>room.
     whenK room
       (let c = (if c = 13 then 10 else c)
        in bindK (modK (set_buf (of_int c))) (\<lambda>_.
           bindK (consputc c) (\<lambda>_.
           bindK (getK (\<lambda>s. c = 10 \<or> c = 4 \<or> input_e s = input_r s + 128)) (\<lambda>fin.
           whenK fin
             (bindK (modK (\<lambda>s. s\<lparr>input_w := input_e s\<rparr>)) (\<lambda>_.
              wakeup ChanInput)))))))"
definition console_char :: "int \<Rightarrow> ('z kcons_scheme, bool) kop" where
  "console_char c =
     (if c = 16 then retK True
      else if c = 21 then
        bindK (getK (\<lambda>s. unat (input_e s - input_w s))) (\<lambda>n. bindK (kill_line n) (\<lambda>_. retK False))
      else if c = 8 \<or> c = 127 then
        bindK (getK (\<lambda>s. input_e s \<noteq> input_w s)) (\<lambda>b.
        bindK (whenK b (bindK (modK (\<lambda>s. s\<lparr>input_e := input_e s - 1\<rparr>)) (\<lambda>_. consputc BACKSPACE))) (\<lambda>_.
        retK False))
      else if c = 67 then
        bindK (cprintf (bytes ''Shift+C detected'' @ [10]) []) (\<lambda>_. bindK raise_sigint (\<lambda>_. retK False))
      else bindK (store_char c) (\<lambda>_. retK False))"

text \<open>
  The loop reads characters until the device has none; the first argument bounds their number.
\<close>

fun consoleintr_loop :: "nat \<Rightarrow> ('z kcons_scheme, int) kop \<Rightarrow> bool \<Rightarrow> ('z kcons_scheme, bool) kop" where
  "consoleintr_loop 0 getc dump = divergeK"
| "consoleintr_loop (Suc n) getc dump =
     bindK getc (\<lambda>c.
     if c < 0 then retK dump
     else bindK (console_char c) (\<lambda>d. consoleintr_loop n getc (dump \<or> d)))"

definition consoleintr :: "nat \<Rightarrow> ('z kcons_scheme, int) kop \<Rightarrow> ('z kcons_scheme, unit) kop" where
  "consoleintr n getc =
     bindK (acquire L_cons) (\<lambda>_.
     bindK (consoleintr_loop n getc False) (\<lambda>dump.
     bindK (release L_cons) (\<lambda>_.
     whenK dump procdump)))"

section \<open>The keyboard\<close>

definition shiftcode :: "nat \<Rightarrow> u32" where
  "shiftcode i = (if i = 0x1D \<or> i = 0x9D then 2 else if i = 0x2A \<or> i = 0x36 then 1
     else if i = 0x38 \<or> i = 0xB8 then 4 else 0)"

definition togglecode :: "nat \<Rightarrow> u32" where
  "togglecode i = (if i = 0x3A then 8 else if i = 0x45 then 16 else if i = 0x46 then 32 else 0)"

text \<open>The entries beyond the main part of a map: keypad Enter, keypad divide, the cursor keys.\<close>

definition keypad :: "u32 \<Rightarrow> u32 \<Rightarrow> nat \<Rightarrow> u32" where
  "keypad enter slash i =
     (if i = 0x9C then enter else if i = 0xB5 then slash
      else if i = 0xC8 then 0xE2 else if i = 0xD0 then 0xE3
      else if i = 0xC9 then 0xE6 else if i = 0xD1 then 0xE7
      else if i = 0xCB then 0xE4 else if i = 0xCD then 0xE5
      else if i = 0x97 then 0xE0 else if i = 0xCF then 0xE1
      else if i = 0xD2 then 0xE8 else if i = 0xD3 then 0xE9 else 0)"

definition normal_keys :: "u32 list" where
  "normal_keys =
    [0, 27, 49, 50, 51, 52, 53, 54, 55, 56, 57, 48, 45, 61, 8, 9,
     113, 119, 101, 114, 116, 121, 117, 105, 111, 112, 91, 93, 10, 0, 97, 115,
     100, 102, 103, 104, 106, 107, 108, 59, 39, 96, 0, 92, 122, 120, 99, 118,
     98, 110, 109, 44, 46, 47, 0, 42, 0, 32, 0, 0, 0, 0, 0, 0,
     0, 0, 0, 0, 0, 0, 0, 55, 56, 57, 45, 52, 53, 54, 43, 49,
     50, 51, 48, 46, 0, 0, 0, 0]"

definition shift_keys :: "u32 list" where
  "shift_keys =
    [0, 27, 33, 64, 35, 36, 37, 94, 38, 42, 40, 41, 95, 43, 8, 9,
     81, 87, 69, 82, 84, 89, 85, 73, 79, 80, 123, 125, 10, 0, 65, 83,
     68, 70, 71, 72, 74, 75, 76, 58, 34, 126, 0, 124, 90, 88, 67, 86,
     66, 78, 77, 60, 62, 63, 0, 42, 0, 32, 0, 0, 0, 0, 0, 0,
     0, 0, 0, 0, 0, 0, 0, 55, 56, 57, 45, 52, 53, 54, 43, 49,
     50, 51, 48, 46, 0, 0, 0, 0]"

definition ctl_keys :: "u32 list" where
  "ctl_keys =
    [0, 0, 0, 0, 0, 0, 0, 0, 0, 0, 0, 0, 0, 0, 0, 0,
     17, 23, 5, 18, 20, 25, 21, 9, 15, 16, 0, 0, 13, 0, 1, 19,
     4, 6, 7, 8, 10, 11, 12, 0, 0, 0, 0, 28, 26, 24, 3, 22,
     2, 14, 13, 0, 0, 239, 0, 0]"

definition keymap :: "u32 list \<Rightarrow> u32 \<Rightarrow> u32 \<Rightarrow> nat \<Rightarrow> u32" where
  "keymap keys enter slash i = (if i < length keys then keys ! i else keypad enter slash i)"

definition normalmap :: "nat \<Rightarrow> u32" where
  "normalmap = keymap normal_keys 10 47"

definition shiftmap :: "nat \<Rightarrow> u32" where
  "shiftmap = keymap shift_keys 10 47"

definition ctlmap :: "nat \<Rightarrow> u32" where
  "ctlmap = keymap ctl_keys 13 239"

definition charcode :: "u32 \<Rightarrow> nat \<Rightarrow> u32" where
  "charcode k = (if k = 0 then normalmap else if k = 1 then shiftmap else ctlmap)"

definition key_char :: "u32 \<Rightarrow> nat \<Rightarrow> int" where
  "key_char shift data =
     (let c = charcode (shift AND 3) data
      in uint (if shift AND 8 = 0 then c
               else if 97 \<le> c \<and> c \<le> 122 then c - 32
               else if 65 \<le> c \<and> c \<le> 90 then c + 32
               else c))"

definition kbdgetc :: "('z kcons_scheme, int) kop" where
  "kbdgetc =
     bindK (getK kbd_in) (\<lambda>q.
     case q of
       [] \<Rightarrow> retK (-1)
     | d # q' \<Rightarrow>
         bindK (modK (\<lambda>s. s\<lparr>kbd_in := q'\<rparr>)) (\<lambda>_.
         let data = (ucast d :: u32)
         in bindK (getK kbd_shift) (\<lambda>shift.
            if data = 0xE0 then
              bindK (modK (\<lambda>s. s\<lparr>kbd_shift := shift OR 64\<rparr>)) (\<lambda>_. retK 0)
            else if data AND 0x80 \<noteq> 0 then
              (let data = (if shift AND 64 \<noteq> 0 then data else data AND 0x7F)
               in bindK (modK (\<lambda>s. s\<lparr>kbd_shift := shift AND NOT (shiftcode (unat data) OR 64)\<rparr>)) (\<lambda>_. retK 0))
            else
              (let esc = (shift AND 64 \<noteq> 0);
                   data = unat (if esc then data OR 0x80 else data);
                   shift = (if esc then shift AND NOT 64 else shift);
                   shift = (shift OR shiftcode data) XOR togglecode data
               in bindK (modK (\<lambda>s. s\<lparr>kbd_shift := shift\<rparr>)) (\<lambda>_. retK (key_char shift data))))))"

definition kbdintr :: "('z kcons_scheme, unit) kop" where
  "kbdintr = bindK (getK (\<lambda>s. length (kbd_in s) + 1)) (\<lambda>n. consoleintr n kbdgetc)"

definition uartgetc :: "('z kcons_scheme, int) kop" where
  "uartgetc =
     bindK (getK (\<lambda>s. (uart s, uart_in s))) (\<lambda>(u, q).
     if \<not> u then retK (-1)
     else case q of
       [] \<Rightarrow> retK (-1)
     | d # q' \<Rightarrow> bindK (modK (\<lambda>s. s\<lparr>uart_in := q'\<rparr>)) (\<lambda>_. retK (uint d)))"

definition uartintr :: "('z kcons_scheme, unit) kop" where
  "uartintr = bindK (getK (\<lambda>s. length (uart_in s) + 1)) (\<lambda>n. consoleintr n uartgetc)"

section \<open>The console as a device\<close>

text \<open>
  \<open>consoleread_loop\<close> is the outer loop of \<open>consoleread\<close> with \<open>n\<close> bytes to go; it is where the process
  continues after it slept. The second result is what has been stored at \<open>d\<close>.
\<close>

definition consoleread_end :: "nat \<Rightarrow> int \<Rightarrow> byte list \<Rightarrow> ('z kcons_scheme, int \<times> byte list) kop" where
  "consoleread_end ip r acc =
     bindK (release L_cons) (\<lambda>_.
     bindK (ilock ip) (\<lambda>_.
     retK (r, acc)))"

fun consoleread_loop ::
  "nat \<Rightarrow> nat \<Rightarrow> dst \<Rightarrow> nat \<Rightarrow> byte list \<Rightarrow> ('z kcons_scheme, int \<times> byte list) kop" where
  "consoleread_loop 0 ip d target acc = consoleread_end ip (int target) acc"
| "consoleread_loop (Suc n) ip d target acc =
     bindK (getK (\<lambda>s. input_r s = input_w s)) (\<lambda>empty.
     if empty then
       with_myproc (\<lambda>c.
       bindK (getK (\<lambda>s. p_killed (ptable s ! c))) (\<lambda>k.
       if k then consoleread_end ip (-1) acc else sleep ChanInput L_cons))
     else
       bindK (getK (\<lambda>s. input_buf s ! unat (input_r s mod 128))) (\<lambda>c.
       bindK (modK (\<lambda>s. s\<lparr>input_r := input_r s + 1\<rparr>)) (\<lambda>_.
       if c = 4 then
         bindK (whenK (Suc n < target) (modK (\<lambda>s. s\<lparr>input_r := input_r s - 1\<rparr>))) (\<lambda>_.
         consoleread_end ip (int (target - Suc n)) acc)
       else
         bindK (copy_to d (of_nat (target - Suc n)) [c]) (\<lambda>_.
         if c = 10 then consoleread_end ip (int (target - n)) (acc @ [c])
         else consoleread_loop n ip d target (acc @ [c])))))"

definition consoleread :: "nat \<Rightarrow> dst \<Rightarrow> int \<Rightarrow> ('z kcons_scheme, int \<times> byte list) kop" where
  "consoleread ip d n =
     bindK (iunlock ip) (\<lambda>_.
     bindK (acquire L_cons) (\<lambda>_.
     consoleread_loop (nat n) ip d (nat n) []))"

definition consoleread_return ::
  "nat \<Rightarrow> nat \<Rightarrow> nat \<Rightarrow> dst \<Rightarrow> nat \<Rightarrow> byte list \<Rightarrow> ('z kcons_scheme, int \<times> byte list) kop" where
  "consoleread_return c n ip d target acc =
     bindK (sleep_return c L_cons) (\<lambda>_. consoleread_loop n ip d target acc)"

definition consolewrite :: "nat \<Rightarrow> src \<Rightarrow> int \<Rightarrow> ('z kcons_scheme, int) kop" where
  "consolewrite ip r n =
     bindK (iunlock ip) (\<lambda>_.
     bindK (acquire L_cons) (\<lambda>_.
     bindK (forK [0..<nat n] (\<lambda>i.
       bindK (copy_from r (of_nat i) 1) (\<lambda>bs. consputc (uint (hd bs))))) (\<lambda>_.
     bindK (release L_cons) (\<lambda>_.
     bindK (ilock ip) (\<lambda>_.
     retK n)))))"

definition consoleinit :: "('z kcons_scheme, unit) kop" where
  "consoleinit =
     bindK (modK (\<lambda>s. s\<lparr>held := held s - {L_cons}\<rparr>)) (\<lambda>_.
     bindK (modK (\<lambda>s. s\<lparr>devsw := (devsw s)[1 := (fst (devsw s ! 1), Some Consolewrite)]\<rparr>)) (\<lambda>_.
     bindK (modK (\<lambda>s. s\<lparr>devsw := (devsw s)[1 := (Some Consoleread, snd (devsw s ! 1))]\<rparr>)) (\<lambda>_.
     modK (\<lambda>s. s\<lparr>cons_locking := True\<rparr>))))"

definition consoleclear :: "('z kcons_scheme, unit) kop" where
  "consoleclear =
     bindK (acquire L_cons) (\<lambda>_.
     bindK (forK [0..<25 * 80] (\<lambda>i. modK (\<lambda>s. s\<lparr>crt := (crt s)(i := 0x0720)\<rparr>))) (\<lambda>_.
     bindK (modK (\<lambda>s. s\<lparr>crt_pos := 0\<rparr>)) (\<lambda>_.
     release L_cons)))"

end
