(* ===== verification/Fs.thy ===== *)
theory Fs
  imports Console
begin

text \<open>
  Files, directories and paths: the second part of \<^verbatim>\<open>fs.c\<close>. A C string (a path, a name) is the list
  of its bytes before the NUL. \<open>readi\<close> returns its result and the bytes it has read; these are also
  stored at the destination. A loop over the entries of a directory recurses on their offsets.
\<close>

section \<open>Reading and writing\<close>

definition dev_read :: "devfun \<Rightarrow> nat \<Rightarrow> dst \<Rightarrow> int \<Rightarrow> ('z kcons_scheme, int \<times> byte list) kop" where
  "dev_read f ip d n = (case f of Consoleread \<Rightarrow> consoleread ip d n | Consolewrite \<Rightarrow> panicK ''undefined: devsw'')"

definition dev_write :: "devfun \<Rightarrow> nat \<Rightarrow> src \<Rightarrow> int \<Rightarrow> ('z kcons_scheme, int) kop" where
  "dev_write f ip r n = (case f of Consolewrite \<Rightarrow> consolewrite ip r n | Consoleread \<Rightarrow> panicK ''undefined: devsw'')"

function readi_loop ::
  "nat \<Rightarrow> dst \<Rightarrow> u32 \<Rightarrow> u32 \<Rightarrow> nat \<Rightarrow> byte list \<Rightarrow> ('z kcons_scheme, byte list) kop" where
  "readi_loop ip d off tot rem acc =
     (if rem = 0 then retK acc
      else
        let m = min rem (BSIZE - unat off mod BSIZE)
        in bindK (bmap ip (off div 512)) (\<lambda>addr.
           bindK (getK (\<lambda>s. i_dev (icache s ! ip))) (\<lambda>dev.
           bindK (bread dev addr) (\<lambda>bp.
           bindK (getK (\<lambda>s. slice (unat off mod BSIZE) m (b_data (bufs s ! bp)))) (\<lambda>bs.
           bindK (copy_to d tot bs) (\<lambda>_.
           bindK (brelse bp) (\<lambda>_.
           readi_loop ip d (off + of_nat m) (tot + of_nat m) (rem - m) (acc @ bs))))))))"
  by pat_completeness auto
termination
  by (relation "measure (\<lambda>(ip, d, off, tot, rem, acc). rem)") auto

definition readi :: "nat \<Rightarrow> dst \<Rightarrow> u32 \<Rightarrow> u32 \<Rightarrow> ('z kcons_scheme, int \<times> byte list) kop" where
  "readi ip d off n =
     bindK (getK (\<lambda>s. (icache s ! ip, devsw s))) (\<lambda>(p, dv).
     if i_type p = T_DEV then
       (if sint (i_major p) < 0 \<or> 10 \<le> sint (i_major p) then retK (-1, [])
        else case fst (dv ! unat (i_major p)) of
          None \<Rightarrow> retK (-1, [])
        | Some f \<Rightarrow> dev_read f ip d (sint n))
     else if i_size p < off \<or> off + n < off then retK (-1, [])
     else
       let n = (if i_size p < off + n then i_size p - off else n)
       in bindK (readi_loop ip d off 0 (unat n) []) (\<lambda>bs. retK (sint n, bs)))"

function writei_loop :: "nat \<Rightarrow> src \<Rightarrow> u32 \<Rightarrow> u32 \<Rightarrow> nat \<Rightarrow> ('z kcons_scheme, u32) kop" where
  "writei_loop ip r off tot rem =
     (if rem = 0 then retK off
      else
        let m = min rem (BSIZE - unat off mod BSIZE)
        in bindK (bmap ip (off div 512)) (\<lambda>addr.
           bindK (getK (\<lambda>s. i_dev (icache s ! ip))) (\<lambda>dev.
           bindK (bread dev addr) (\<lambda>bp.
           bindK (copy_from r tot (of_nat m)) (\<lambda>bs.
           bindK (upd_data bp (put_bytes (unat off mod BSIZE) bs)) (\<lambda>_.
           bindK (log_write bp) (\<lambda>_.
           bindK (brelse bp) (\<lambda>_.
           writei_loop ip r (off + of_nat m) (tot + of_nat m) (rem - m)))))))))"
  by pat_completeness auto
termination
  by (relation "measure (\<lambda>(ip, r, off, tot, rem). rem)") auto

definition writei :: "nat \<Rightarrow> src \<Rightarrow> u32 \<Rightarrow> u32 \<Rightarrow> ('z kcons_scheme, int) kop" where
  "writei ip r off n =
     bindK (getK (\<lambda>s. (icache s ! ip, devsw s))) (\<lambda>(p, dv).
     if i_type p = T_DEV then
       (if sint (i_major p) < 0 \<or> 10 \<le> sint (i_major p) then retK (-1)
        else case snd (dv ! unat (i_major p)) of
          None \<Rightarrow> retK (-1)
        | Some f \<Rightarrow> dev_write f ip r (sint n))
     else if i_size p < off \<or> off + n < off then retK (-1)
     else if 71680 < off + n then retK (-1)
     else
       bindK (writei_loop ip r off 0 (unat n)) (\<lambda>off'.
       bindK (whenK (0 < n \<and> i_size p < off')
         (bindK (modK (upd_inode ip (\<lambda>q. q\<lparr>i_size := off'\<rparr>))) (\<lambda>_. iupdate ip))) (\<lambda>_.
       retK (sint n))))"

declare readi_loop.simps [simp del] writei_loop.simps [simp del]

section \<open>Directories\<close>

abbreviation (input) DIRSIZ :: nat where "DIRSIZ \<equiv> 14"

text \<open>\<^verbatim>\<open>strncmp\<close> on strings given as lists; the byte after the end of a list is its NUL.\<close>

fun strncmp_list :: "nat \<Rightarrow> byte list \<Rightarrow> byte list \<Rightarrow> int" where
  "strncmp_list 0 p q = 0"
| "strncmp_list (Suc n) [] [] = 0"
| "strncmp_list (Suc n) [] (d # q) = - uint d"
| "strncmp_list (Suc n) (c # p) [] = uint c"
| "strncmp_list (Suc n) (c # p) (d # q) =
     (if c \<noteq> 0 \<and> c = d then strncmp_list n p q else uint c - uint d)"

definition namecmp :: "byte list \<Rightarrow> byte list \<Rightarrow> int" where
  "namecmp s t = strncmp_list DIRSIZ s t"

text \<open>\<^verbatim>\<open>struct dirent\<close>: the inode number, and the name padded with zeroes.\<close>

definition de_inum :: "byte list \<Rightarrow> u16" where
  "de_inum de = get16 de 0"

definition de_name :: "byte list \<Rightarrow> byte list" where
  "de_name de = drop 2 de"

definition strncpy_list :: "nat \<Rightarrow> byte list \<Rightarrow> byte list" where
  "strncpy_list n bs = take n (cstr bs @ replicate n 0)"

definition mk_dirent :: "byte list \<Rightarrow> u16 \<Rightarrow> byte list" where
  "mk_dirent name inum = le16 inum @ strncpy_list DIRSIZ name"

definition dir_offs :: "u32 \<Rightarrow> u32 \<Rightarrow> u32 list" where
  "dir_offs start sz = map (\<lambda>k. start + of_nat (16 * k)) [0..<(unat sz - unat start + 15) div 16]"

definition read_dirent :: "nat \<Rightarrow> u32 \<Rightarrow> string \<Rightarrow> ('z kcons_scheme, byte list) kop" where
  "read_dirent dp off msg =
     bindK (readi dp Local off 16) (\<lambda>(r, de).
     if r \<noteq> 16 then panicK msg else retK de)"

fun dirlookup_loop :: "u32 list \<Rightarrow> nat \<Rightarrow> byte list \<Rightarrow> ('z kcons_scheme, (nat \<times> u32) option) kop" where
  "dirlookup_loop [] dp name = retK None"
| "dirlookup_loop (off # offs) dp name =
     bindK (read_dirent dp off ''dirlookup read'') (\<lambda>de.
     if de_inum de = 0 then dirlookup_loop offs dp name
     else if namecmp name (de_name de) = 0 then
       bindK (getK (\<lambda>s. i_dev (icache s ! dp))) (\<lambda>dev.
       bindK (iget dev (ucast (de_inum de))) (\<lambda>ip.
       retK (Some (ip, off))))
     else dirlookup_loop offs dp name)"

definition dirlookup :: "nat \<Rightarrow> byte list \<Rightarrow> ('z kcons_scheme, (nat \<times> u32) option) kop" where
  "dirlookup dp name =
     bindK (getK (\<lambda>s. icache s ! dp)) (\<lambda>p.
     if i_type p \<noteq> T_DIR then panicK ''dirlookup not DIR''
     else dirlookup_loop (dir_offs 0 (i_size p)) dp name)"

text \<open>The search of \<open>dirlink\<close> for an empty entry; without one, the offset after the last.\<close>

fun empty_dirent :: "u32 list \<Rightarrow> u32 \<Rightarrow> nat \<Rightarrow> ('z kcons_scheme, u32) kop" where
  "empty_dirent [] fin dp = retK fin"
| "empty_dirent (off # offs) fin dp =
     bindK (read_dirent dp off ''dirlink read'') (\<lambda>de.
     if de_inum de = 0 then retK off else empty_dirent offs fin dp)"

definition dirlink :: "nat \<Rightarrow> byte list \<Rightarrow> u32 \<Rightarrow> ('z kcons_scheme, int) kop" where
  "dirlink dp name inum =
     bindK (dirlookup dp name) (\<lambda>r.
     case r of
       Some (ip, off) \<Rightarrow> bindK (iput ip) (\<lambda>_. retK (-1))
     | None \<Rightarrow>
         bindK (getK (\<lambda>s. i_size (icache s ! dp))) (\<lambda>sz.
         bindK (empty_dirent (dir_offs 0 sz) (of_nat (16 * length (dir_offs 0 sz))) dp) (\<lambda>off.
         bindK (writei dp (Bytes (mk_dirent name (ucast inum))) off 16) (\<lambda>r.
         if r \<noteq> 16 then panicK ''dirlink'' else retK 0))))"

section \<open>Paths\<close>

definition skipelem :: "byte list \<Rightarrow> (byte list \<times> byte list) option" where
  "skipelem path =
     (let path = dropWhile (\<lambda>c. c = 47) path
      in if path = [] then None
         else
           let s = takeWhile (\<lambda>c. c \<noteq> 47) path;
               path = dropWhile (\<lambda>c. c \<noteq> 47) path
           in Some (take DIRSIZ s, dropWhile (\<lambda>c. c = 47) path))"

lemma skipelem_shorter: "skipelem path = Some (name, rest) \<Longrightarrow> length rest < length path"
proof -
  assume a: "skipelem path = Some (name, rest)"
  define p where "p = dropWhile (\<lambda>c. c = 47) path"
  from a have p: "p \<noteq> []" "rest = dropWhile (\<lambda>c. c = 47) (dropWhile (\<lambda>c. c \<noteq> 47) p)"
    by (auto simp: skipelem_def p_def Let_def split: if_splits)
  from p(1) have "hd p \<noteq> 47" using hd_dropWhile [of "\<lambda>c. c = 47" path] by (simp add: p_def)
  with p(1) have "length (dropWhile (\<lambda>c. c \<noteq> 47) p) < length p"
    by (cases p) (auto intro: le_imp_less_Suc length_dropWhile_le)
  moreover have "length rest \<le> length (dropWhile (\<lambda>c. c \<noteq> 47) p)"
    unfolding p(2) by (rule length_dropWhile_le)
  moreover have "length p \<le> length path" unfolding p_def by (rule length_dropWhile_le)
  ultimately show ?thesis by simp
qed

function namex_loop :: "byte list \<Rightarrow> nat \<Rightarrow> bool \<Rightarrow> byte list \<Rightarrow> ('z kcons_scheme, (nat \<times> byte list) option) kop" where
  "namex_loop path ip par nm =
     (case skipelem path of
        None \<Rightarrow> if par then bindK (iput ip) (\<lambda>_. retK None) else retK (Some (ip, nm))
      | Some (name, rest) \<Rightarrow>
          bindK (ilock ip) (\<lambda>_.
          bindK (getK (\<lambda>s. i_type (icache s ! ip))) (\<lambda>t.
          if t \<noteq> T_DIR then bindK (iunlockput ip) (\<lambda>_. retK None)
          else if par \<and> rest = [] then bindK (iunlock ip) (\<lambda>_. retK (Some (ip, name)))
          else
            bindK (dirlookup ip name) (\<lambda>r.
            case r of
              None \<Rightarrow> bindK (iunlockput ip) (\<lambda>_. retK None)
            | Some (nxt, off) \<Rightarrow>
                bindK (iunlockput ip) (\<lambda>_.
                namex_loop rest nxt par name)))))"
  by pat_completeness auto
termination
  by (relation "measure (\<lambda>(path, ip, par, nm). length path)") (auto dest: skipelem_shorter)

declare namex_loop.simps [simp del]

text \<open>A null current directory would be dereferenced, which C does not define.\<close>

definition namex :: "byte list \<Rightarrow> bool \<Rightarrow> ('z kcons_scheme, (nat \<times> byte list) option) kop" where
  "namex path par =
     bindK (if path \<noteq> [] \<and> hd path = 47 then iget 1 1
            else with_myproc (\<lambda>c.
              bindK (getK (\<lambda>s. p_cwd (ptable s ! c))) (\<lambda>cwd.
              case cwd of None \<Rightarrow> panicK ''undefined: null'' | Some d \<Rightarrow> idup d))) (\<lambda>ip.
     namex_loop path ip par [])"

definition namei :: "byte list \<Rightarrow> ('z kcons_scheme, nat option) kop" where
  "namei path = bindK (namex path False) (\<lambda>r. retK (map_option fst r))"

definition nameiparent :: "byte list \<Rightarrow> ('z kcons_scheme, (nat \<times> byte list) option) kop" where
  "nameiparent path = namex path True"

end
