(* ===== verification/File.thy ===== *)
theory File
  imports Fs
begin

text \<open>
  Open files and pipes: \<^verbatim>\<open>file.c\<close> and \<^verbatim>\<open>pipe.c\<close>. An open file is its index in \<^verbatim>\<open>ftable.file\<close>. A
  pipe is the address of the page it lives in, as in the code; \<open>pipes\<close> is what the structure in that
  page holds, kept beside \<open>mem\<close>: no other code uses the page between \<^verbatim>\<open>kalloc\<close> in \<open>pipealloc\<close> and \<^verbatim>\<open>kfree\<close> in \<open>pipeclose\<close>. \<open>pipewrite_loop\<close> and \<open>piperead_loop\<close> are the loops in which a process can sleep, and
  where it continues.
\<close>

abbreviation (input) NFILE :: nat where "NFILE \<equiv> 100"
abbreviation (input) PIPESIZE :: u32 where "PIPESIZE \<equiv> 512"

datatype filetype = FD_NONE | FD_PIPE | FD_INODE

record ofile =
  f_type :: filetype
  f_ref :: int
  f_readable :: bool
  f_writable :: bool
  f_pipe :: u32
  f_ip :: nat
  f_off :: u32

record pipe =
  pi_data :: "byte list"
  pi_nread :: u32
  pi_nwrite :: u32
  pi_readopen :: bool
  pi_writeopen :: bool

record kfile = kcons +
  ftable :: "ofile list"
  pipes :: "u32 \<Rightarrow> pipe"

definition upd_file :: "nat \<Rightarrow> (ofile \<Rightarrow> ofile) \<Rightarrow> 'z kfile_scheme \<Rightarrow> 'z kfile_scheme" where
  "upd_file f g s = s\<lparr>ftable := (ftable s)[f := g (ftable s ! f)]\<rparr>"

definition upd_pipe :: "u32 \<Rightarrow> (pipe \<Rightarrow> pipe) \<Rightarrow> 'z kfile_scheme \<Rightarrow> 'z kfile_scheme" where
  "upd_pipe p g s = s\<lparr>pipes := (pipes s)(p := g (pipes s p))\<rparr>"

abbreviation (input) pipe_lock :: "u32 \<Rightarrow> lockid" where "pipe_lock p \<equiv> L_pipe (unat p)"
abbreviation (input) chan_read :: "u32 \<Rightarrow> chan" where "chan_read p \<equiv> ChanPipeRead (unat p)"
abbreviation (input) chan_write :: "u32 \<Rightarrow> chan" where "chan_write p \<equiv> ChanPipeWrite (unat p)"

section \<open>Pipes\<close>

definition pipeclose :: "u32 \<Rightarrow> bool \<Rightarrow> ('z kfile_scheme, unit) kop" where
  "pipeclose p writable =
     bindK (acquire (pipe_lock p)) (\<lambda>_.
     bindK (if writable then
              bindK (modK (upd_pipe p (\<lambda>q. q\<lparr>pi_writeopen := False\<rparr>))) (\<lambda>_. wakeup (chan_read p))
            else
              bindK (modK (upd_pipe p (\<lambda>q. q\<lparr>pi_readopen := False\<rparr>))) (\<lambda>_. wakeup (chan_write p))) (\<lambda>_.
     bindK (getK (\<lambda>s. \<not> pi_readopen (pipes s p) \<and> \<not> pi_writeopen (pipes s p))) (\<lambda>closed.
     if closed then bindK (release (pipe_lock p)) (\<lambda>_. kfree p)
     else release (pipe_lock p))))"

definition pipe_put :: "byte \<Rightarrow> pipe \<Rightarrow> pipe" where
  "pipe_put c q = q\<lparr>pi_data := (pi_data q)[unat (pi_nwrite q mod PIPESIZE) := c], pi_nwrite := pi_nwrite q + 1\<rparr>"

text \<open>\<open>pipewrite_loop k\<close>: there are \<open>k\<close> bytes left of the \<open>n\<close>.\<close>

fun pipewrite_loop :: "nat \<Rightarrow> u32 \<Rightarrow> src \<Rightarrow> nat \<Rightarrow> ('z kfile_scheme, int) kop" where
  "pipewrite_loop 0 p r n =
     bindK (wakeup (chan_read p)) (\<lambda>_.
     bindK (release (pipe_lock p)) (\<lambda>_.
     retK (int n)))"
| "pipewrite_loop (Suc k) p r n =
     bindK (getK (\<lambda>s. pipes s p)) (\<lambda>q.
     if pi_nwrite q = pi_nread q + PIPESIZE then
       bindK (if \<not> pi_readopen q then retK True
              else with_myproc (\<lambda>c. getK (\<lambda>s. p_killed (ptable s ! c)))) (\<lambda>stop.
       if stop then bindK (release (pipe_lock p)) (\<lambda>_. retK (-1))
       else bindK (wakeup (chan_read p)) (\<lambda>_. sleep (chan_write p) (pipe_lock p)))
     else
       bindK (copy_from r (of_nat (n - Suc k)) 1) (\<lambda>bs.
       bindK (modK (upd_pipe p (pipe_put (hd bs)))) (\<lambda>_.
       pipewrite_loop k p r n)))"

text \<open>A negative count has no iteration and is returned as it is.\<close>

definition pipewrite :: "u32 \<Rightarrow> src \<Rightarrow> int \<Rightarrow> ('z kfile_scheme, int) kop" where
  "pipewrite p r n =
     bindK (acquire (pipe_lock p)) (\<lambda>_.
     bindK (pipewrite_loop (nat n) p r (nat n)) (\<lambda>v.
     retK (if n < 0 then n else v)))"

definition pipewrite_return :: "nat \<Rightarrow> nat \<Rightarrow> u32 \<Rightarrow> src \<Rightarrow> nat \<Rightarrow> ('z kfile_scheme, int) kop" where
  "pipewrite_return c k p r n = bindK (sleep_return c (pipe_lock p)) (\<lambda>_. pipewrite_loop k p r n)"

text \<open>
  \<open>piperead_copy\<close> is the second loop of \<open>piperead\<close>, with \<open>k\<close> bytes of room left. A byte goes to the memory at the destination; if that is a local
  variable of the caller, \<open>buf\<close> is what the variable holds so far.
\<close>

fun piperead_copy :: "nat \<Rightarrow> u32 \<Rightarrow> dst \<Rightarrow> nat \<Rightarrow> byte list \<Rightarrow> ('z kfile_scheme, nat \<times> byte list) kop" where
  "piperead_copy 0 p d i buf = retK (i, buf)"
| "piperead_copy (Suc k) p d i buf =
     bindK (getK (\<lambda>s. pipes s p)) (\<lambda>q.
     if pi_nread q = pi_nwrite q then retK (i, buf)
     else
       bindK (modK (upd_pipe p (\<lambda>q. q\<lparr>pi_nread := pi_nread q + 1\<rparr>))) (\<lambda>_.
       let c = pi_data q ! unat (pi_nread q mod PIPESIZE)
       in bindK (copy_to d (of_nat i) [c]) (\<lambda>_.
          piperead_copy k p d (Suc i) (if d = Local then buf @ [c] else buf))))"

definition piperead_loop :: "u32 \<Rightarrow> dst \<Rightarrow> int \<Rightarrow> ('z kfile_scheme, int \<times> byte list) kop" where
  "piperead_loop p d n =
     bindK (getK (\<lambda>s. pi_nread (pipes s p) = pi_nwrite (pipes s p) \<and> pi_writeopen (pipes s p))) (\<lambda>empty.
     if empty then
       with_myproc (\<lambda>c.
       bindK (getK (\<lambda>s. p_killed (ptable s ! c))) (\<lambda>k.
       if k then bindK (release (pipe_lock p)) (\<lambda>_. retK (-1, []))
       else sleep (chan_read p) (pipe_lock p)))
     else
       bindK (piperead_copy (nat n) p d 0 []) (\<lambda>(i, buf).
       bindK (wakeup (chan_write p)) (\<lambda>_.
       bindK (release (pipe_lock p)) (\<lambda>_.
       retK (int i, buf)))))"

definition piperead :: "u32 \<Rightarrow> dst \<Rightarrow> int \<Rightarrow> ('z kfile_scheme, int \<times> byte list) kop" where
  "piperead p d n = bindK (acquire (pipe_lock p)) (\<lambda>_. piperead_loop p d n)"

definition piperead_return :: "nat \<Rightarrow> u32 \<Rightarrow> dst \<Rightarrow> int \<Rightarrow> ('z kfile_scheme, int \<times> byte list) kop" where
  "piperead_return c p d n = bindK (sleep_return c (pipe_lock p)) (\<lambda>_. piperead_loop p d n)"

section \<open>Open files\<close>

definition fileinit :: "('z kfile_scheme, unit) kop" where
  "fileinit = modK (\<lambda>s. s\<lparr>held := held s - {L_ftable}\<rparr>)"

definition filealloc :: "('z kfile_scheme, nat option) kop" where
  "filealloc =
     bindK (acquire L_ftable) (\<lambda>_.
     bindK (getK (\<lambda>s. find_idx (\<lambda>f. f_ref f = 0) (ftable s))) (\<lambda>found.
     case found of
       Some f \<Rightarrow>
         bindK (modK (upd_file f (\<lambda>g. g\<lparr>f_ref := 1\<rparr>))) (\<lambda>_.
         bindK (release L_ftable) (\<lambda>_.
         retK (Some f)))
     | None \<Rightarrow> bindK (release L_ftable) (\<lambda>_. retK None)))"

definition filedup :: "nat \<Rightarrow> ('z kfile_scheme, nat) kop" where
  "filedup f =
     bindK (acquire L_ftable) (\<lambda>_.
     bindK (getK (\<lambda>s. f_ref (ftable s ! f))) (\<lambda>r.
     if r < 1 then panicK ''filedup''
     else
       bindK (modK (upd_file f (\<lambda>g. g\<lparr>f_ref := f_ref g + 1\<rparr>))) (\<lambda>_.
       bindK (release L_ftable) (\<lambda>_.
       retK f))))"

definition fileclose :: "nat \<Rightarrow> ('z kfile_scheme, unit) kop" where
  "fileclose f =
     bindK (acquire L_ftable) (\<lambda>_.
     bindK (getK (\<lambda>s. f_ref (ftable s ! f))) (\<lambda>r.
     if r < 1 then panicK ''fileclose''
     else
       bindK (modK (upd_file f (\<lambda>g. g\<lparr>f_ref := f_ref g - 1\<rparr>))) (\<lambda>_.
       if r - 1 > 0 then release L_ftable
       else
         bindK (getK (\<lambda>s. ftable s ! f)) (\<lambda>ff.
         bindK (modK (upd_file f (\<lambda>g. g\<lparr>f_ref := 0, f_type := FD_NONE\<rparr>))) (\<lambda>_.
         bindK (release L_ftable) (\<lambda>_.
         case f_type ff of
           FD_PIPE \<Rightarrow> pipeclose (f_pipe ff) (f_writable ff)
         | FD_INODE \<Rightarrow> bindK begin_op (\<lambda>_. bindK (iput (f_ip ff)) (\<lambda>_. end_op))
         | FD_NONE \<Rightarrow> retK ()))))))"

definition filestat :: "nat \<Rightarrow> u32 \<Rightarrow> ('z kfile_scheme, int) kop" where
  "filestat f st =
     bindK (getK (\<lambda>s. ftable s ! f)) (\<lambda>ff.
     if f_type ff = FD_INODE then
       bindK (ilock (f_ip ff)) (\<lambda>_.
       bindK (stati (f_ip ff) st) (\<lambda>_.
       bindK (iunlock (f_ip ff)) (\<lambda>_.
       retK 0)))
     else retK (-1))"

definition fileread :: "nat \<Rightarrow> dst \<Rightarrow> int \<Rightarrow> ('z kfile_scheme, int \<times> byte list) kop" where
  "fileread f d n =
     bindK (getK (\<lambda>s. ftable s ! f)) (\<lambda>ff.
     if \<not> f_readable ff then retK (-1, [])
     else case f_type ff of
       FD_PIPE \<Rightarrow> piperead (f_pipe ff) d n
     | FD_INODE \<Rightarrow>
         bindK (ilock (f_ip ff)) (\<lambda>_.
         bindK (getK (\<lambda>s. f_off (ftable s ! f))) (\<lambda>off.
         bindK (readi (f_ip ff) d off (of_int n)) (\<lambda>(r, bs).
         bindK (whenK (r > 0) (modK (upd_file f (\<lambda>g. g\<lparr>f_off := f_off g + of_int r\<rparr>)))) (\<lambda>_.
         bindK (iunlock (f_ip ff)) (\<lambda>_.
         retK (r, bs))))))
     | FD_NONE \<Rightarrow> panicK ''fileread'')"

text \<open>The loop of \<open>filewrite\<close>, in transactions of at most 1536 bytes.\<close>

function filewrite_loop :: "nat \<Rightarrow> src \<Rightarrow> int \<Rightarrow> int \<Rightarrow> ('z kfile_scheme, int) kop" where
  "filewrite_loop f r n i =
     (if \<not> i < n then retK (if i = n then n else -1)
      else
        let n1 = min (n - i) 1536
        in bindK (getK (\<lambda>s. f_ip (ftable s ! f))) (\<lambda>ip.
           bindK begin_op (\<lambda>_.
           bindK (ilock ip) (\<lambda>_.
           bindK (getK (\<lambda>s. f_off (ftable s ! f))) (\<lambda>off.
           bindK (writei ip (case r of Mem a \<Rightarrow> Mem (a + of_int i) | Bytes bs \<Rightarrow> Bytes (drop (nat i) bs)) off (of_int n1)) (\<lambda>v.
           bindK (whenK (v > 0) (modK (upd_file f (\<lambda>g. g\<lparr>f_off := f_off g + of_int v\<rparr>)))) (\<lambda>_.
           bindK (iunlock ip) (\<lambda>_.
           bindK end_op (\<lambda>_.
           if v < 0 then retK (if i = n then n else -1)
           else if v \<noteq> n1 then panicK ''short filewrite''
           else filewrite_loop f r n (i + n1))))))))))"
  by pat_completeness auto
termination
  by (relation "measure (\<lambda>(f, r, n, i). nat (n - i))") auto

declare filewrite_loop.simps [simp del]

definition filewrite :: "nat \<Rightarrow> src \<Rightarrow> int \<Rightarrow> ('z kfile_scheme, int) kop" where
  "filewrite f r n =
     bindK (getK (\<lambda>s. ftable s ! f)) (\<lambda>ff.
     if \<not> f_writable ff then retK (-1)
     else case f_type ff of
       FD_PIPE \<Rightarrow> pipewrite (f_pipe ff) r n
     | FD_INODE \<Rightarrow> filewrite_loop f r n 0
     | FD_NONE \<Rightarrow> panicK ''filewrite'')"

section \<open>New pipes\<close>

text \<open>The label \<^verbatim>\<open>bad\<close> of \<open>pipealloc\<close>.\<close>

definition pipealloc_bad :: "nat option \<Rightarrow> nat option \<Rightarrow> ('z kfile_scheme, (nat \<times> nat) option) kop" where
  "pipealloc_bad f0 f1 =
     bindK (case f0 of None \<Rightarrow> retK () | Some f \<Rightarrow> fileclose f) (\<lambda>_.
     bindK (case f1 of None \<Rightarrow> retK () | Some f \<Rightarrow> fileclose f) (\<lambda>_.
     retK None))"

definition pipealloc :: "('z kfile_scheme, (nat \<times> nat) option) kop" where
  "pipealloc =
     bindK filealloc (\<lambda>r0. case r0 of None \<Rightarrow> pipealloc_bad None None | Some f0 \<Rightarrow>
     bindK filealloc (\<lambda>r1. case r1 of None \<Rightarrow> pipealloc_bad (Some f0) None | Some f1 \<Rightarrow>
     bindK kalloc (\<lambda>p.
     if p = 0 then pipealloc_bad (Some f0) (Some f1)
     else
       bindK (modK (upd_pipe p (\<lambda>q. q\<lparr>pi_readopen := True, pi_writeopen := True, pi_nwrite := 0, pi_nread := 0\<rparr>))) (\<lambda>_.
       bindK (modK (\<lambda>s. s\<lparr>held := held s - {pipe_lock p}\<rparr>)) (\<lambda>_.
       bindK (modK (upd_file f0 (\<lambda>g. g\<lparr>f_type := FD_PIPE, f_readable := True, f_writable := False, f_pipe := p\<rparr>))) (\<lambda>_.
       bindK (modK (upd_file f1 (\<lambda>g. g\<lparr>f_type := FD_PIPE, f_readable := False, f_writable := True, f_pipe := p\<rparr>))) (\<lambda>_.
       retK (Some (f0, f1)))))))))"
end
