(* ===== verification/Syscall.thy ===== *)
theory Syscall
  imports File
begin

text \<open>
  The arguments of system calls, the first part of \<^verbatim>\<open>syscall.c\<close>: words and strings in the memory of
  the process, read through its page table. A result of -1 is \<open>None\<close>. A pointer to a string comes
  with the characters of the string.
\<close>

definition fetchint :: "u32 \<Rightarrow> ('z kproc_scheme, u32 option) kop" where
  "fetchint addr =
     with_myproc (\<lambda>c.
     bindK (getK (\<lambda>s. p_sz (ptable s ! c))) (\<lambda>sz.
     if sz \<le> addr \<or> sz < addr + 4 then retK None
     else bindK (vload32 addr) (\<lambda>v. retK (Some v))))"

text \<open>The loop of \<open>fetchstr\<close> with \<open>n\<close> bytes up to the end of the process.\<close>

fun fetchstr_loop :: "nat \<Rightarrow> u32 \<Rightarrow> byte list \<Rightarrow> ('z kproc_scheme, byte list option) kop" where
  "fetchstr_loop 0 a acc = retK None"
| "fetchstr_loop (Suc n) a acc =
     bindK (vload8 a) (\<lambda>c.
     if c = 0 then retK (Some acc) else fetchstr_loop n (a + 1) (acc @ [c]))"

definition fetchstr :: "u32 \<Rightarrow> ('z kproc_scheme, (u32 \<times> byte list) option) kop" where
  "fetchstr addr =
     with_myproc (\<lambda>c.
     bindK (getK (\<lambda>s. p_sz (ptable s ! c))) (\<lambda>sz.
     if sz \<le> addr then retK None
     else
       bindK (fetchstr_loop (unat (sz - addr)) addr []) (\<lambda>r.
       retK (map_option (Pair addr) r))))"

definition argint :: "nat \<Rightarrow> ('z kproc_scheme, u32 option) kop" where
  "argint n =
     with_myproc (\<lambda>c.
     bindK (getK (\<lambda>s. load32 (mem s) (p_tf (ptable s ! c) + tf_esp))) (\<lambda>esp.
     fetchint (esp + 4 + of_nat (4 * n))))"

definition argptr :: "nat \<Rightarrow> int \<Rightarrow> ('z kproc_scheme, u32 option) kop" where
  "argptr n len =
     with_myproc (\<lambda>c.
     bindK (argint n) (\<lambda>r.
     case r of
       None \<Rightarrow> retK None
     | Some i \<Rightarrow>
         bindK (getK (\<lambda>s. p_sz (ptable s ! c))) (\<lambda>sz.
         if len < 0 \<or> sz \<le> i \<or> sz < i + of_int len then retK None
         else retK (Some i))))"

definition argstr :: "nat \<Rightarrow> ('z kproc_scheme, (u32 \<times> byte list) option) kop" where
  "argstr n = bindK (argint n) (\<lambda>r. case r of None \<Rightarrow> retK None | Some a \<Rightarrow> fetchstr a)"

end
