(* ===== verification/Sysfile.thy ===== *)
theory Sysfile
  imports Syscall
begin

text \<open>
  The system calls on files, \<^verbatim>\<open>sysfile.c\<close> without \<^verbatim>\<open>sys_exec\<close>. A label such as \<^verbatim>\<open>bad\<close> that several
  places jump to is a definition of its own. \<open>orK\<close> is the idiom
  \<^verbatim>\<open>if(f(..., &x) < 0) return -1;\<close>.
\<close>

definition orK :: "('s, 'a option) kop \<Rightarrow> ('s, 'b) kop \<Rightarrow> ('a \<Rightarrow> ('s, 'b) kop) \<Rightarrow> ('s, 'b) kop" where
  "orK m bad f = bindK m (\<lambda>r. case r of None \<Rightarrow> bad | Some a \<Rightarrow> f a)"

section \<open>Descriptors\<close>

definition argfd :: "nat \<Rightarrow> ('z kproc_scheme, (nat \<times> nat) option) kop" where
  "argfd n =
     orK (argint n) (retK None) (\<lambda>v.
     if sint v < 0 \<or> int NOFILE \<le> sint v then retK None
     else with_myproc (\<lambda>c.
       bindK (getK (\<lambda>s. p_ofile (ptable s ! c) ! unat v)) (\<lambda>f.
       retK (map_option (Pair (unat v)) f))))"

definition fdalloc :: "nat \<Rightarrow> ('z kproc_scheme, nat option) kop" where
  "fdalloc f =
     with_myproc (\<lambda>c.
     bindK (getK (\<lambda>s. find_idx (\<lambda>x. x = None) (p_ofile (ptable s ! c)))) (\<lambda>r.
     case r of
       None \<Rightarrow> retK None
     | Some fd \<Rightarrow>
         bindK (modK (upd_proc c (\<lambda>p. p\<lparr>p_ofile := (p_ofile p)[fd := Some f]\<rparr>))) (\<lambda>_.
         retK (Some fd))))"

definition clear_fd :: "nat \<Rightarrow> ('z kproc_scheme, unit) kop" where
  "clear_fd fd = with_myproc (\<lambda>c. modK (upd_proc c (\<lambda>p. p\<lparr>p_ofile := (p_ofile p)[fd := None]\<rparr>)))"

definition sys_dup :: "('z kfile_scheme, int) kop" where
  "sys_dup =
     orK (argfd 0) (retK (-1)) (\<lambda>(_, f).
     orK (fdalloc f) (retK (-1)) (\<lambda>fd.
     bindK (filedup f) (\<lambda>_.
     retK (int fd))))"

text \<open>The three tests of \<^verbatim>\<open>sys_read\<close> and \<^verbatim>\<open>sys_write\<close>, in their order.\<close>

definition rw_args :: "('z kfile_scheme, (nat \<times> u32 \<times> int) option) kop" where
  "rw_args =
     orK (argfd 0) (retK None) (\<lambda>(_, f).
     orK (argint 2) (retK None) (\<lambda>n.
     orK (argptr 1 (sint n)) (retK None) (\<lambda>p.
     retK (Some (f, p, sint n)))))"

definition sys_read :: "('z kfile_scheme, int) kop" where
  "sys_read =
     orK rw_args (retK (-1)) (\<lambda>(f, p, n).
     bindK (fileread f (Addr p) n) (\<lambda>(r, _).
     retK r))"

definition sys_write :: "('z kfile_scheme, int) kop" where
  "sys_write = orK rw_args (retK (-1)) (\<lambda>(f, p, n). filewrite f (Mem p) n)"

definition sys_close :: "('z kfile_scheme, int) kop" where
  "sys_close =
     orK (argfd 0) (retK (-1)) (\<lambda>(fd, f).
     bindK (clear_fd fd) (\<lambda>_.
     bindK (fileclose f) (\<lambda>_.
     retK 0)))"

definition sys_fstat :: "('z kfile_scheme, int) kop" where
  "sys_fstat =
     orK (argfd 0) (retK (-1)) (\<lambda>(_, f).
     orK (argptr 1 20) (retK (-1)) (\<lambda>st.
     filestat f st))"

section \<open>Links\<close>

definition end_with :: "int \<Rightarrow> ('z klog_scheme, int) kop" where
  "end_with r = bindK end_op (\<lambda>_. retK r)"

definition link_bad :: "nat \<Rightarrow> ('z kfile_scheme, int) kop" where
  "link_bad ip =
     bindK (ilock ip) (\<lambda>_.
     bindK (modK (upd_inode ip (\<lambda>p. p\<lparr>i_nlink := i_nlink p - 1\<rparr>))) (\<lambda>_.
     bindK (iupdate ip) (\<lambda>_.
     bindK (iunlockput ip) (\<lambda>_.
     end_with (-1)))))"

definition sys_link :: "('z kfile_scheme, int) kop" where
  "sys_link =
     orK (argstr 0) (retK (-1)) (\<lambda>(_, old).
     orK (argstr 1) (retK (-1)) (\<lambda>(_, new).
     bindK begin_op (\<lambda>_.
     orK (namei old) (end_with (-1)) (\<lambda>ip.
     bindK (ilock ip) (\<lambda>_.
     bindK (getK (\<lambda>s. i_type (icache s ! ip))) (\<lambda>t.
     if t = T_DIR then bindK (iunlockput ip) (\<lambda>_. end_with (-1))
     else
       bindK (modK (upd_inode ip (\<lambda>p. p\<lparr>i_nlink := i_nlink p + 1\<rparr>))) (\<lambda>_.
       bindK (iupdate ip) (\<lambda>_.
       bindK (iunlock ip) (\<lambda>_.
       orK (nameiparent new) (link_bad ip) (\<lambda>(dp, name).
       bindK (ilock dp) (\<lambda>_.
       bindK (getK (\<lambda>s. (i_dev (icache s ! dp), i_dev (icache s ! ip), i_inum (icache s ! ip)))) (\<lambda>(ddev, idev, inum).
       bindK (if ddev \<noteq> idev then retK (-1) else dirlink dp name inum) (\<lambda>r.
       if r < 0 then bindK (iunlockput dp) (\<lambda>_. link_bad ip)
       else
         bindK (iunlockput dp) (\<lambda>_.
         bindK (iput ip) (\<lambda>_.
         end_with 0)))))))))))))))"

fun isdirempty_loop :: "u32 list \<Rightarrow> nat \<Rightarrow> ('z kcons_scheme, bool) kop" where
  "isdirempty_loop [] dp = retK True"
| "isdirempty_loop (off # offs) dp =
     bindK (read_dirent dp off ''isdirempty: readi'') (\<lambda>de.
     if de_inum de \<noteq> 0 then retK False else isdirempty_loop offs dp)"

definition isdirempty :: "nat \<Rightarrow> ('z kcons_scheme, bool) kop" where
  "isdirempty dp = bindK (getK (\<lambda>s. i_size (icache s ! dp))) (\<lambda>sz. isdirempty_loop (dir_offs 32 sz) dp)"

definition unlink_bad :: "nat \<Rightarrow> ('z kfile_scheme, int) kop" where
  "unlink_bad dp = bindK (iunlockput dp) (\<lambda>_. end_with (-1))"

text \<open>What \<^verbatim>\<open>sys_unlink\<close> does once it has the entry at \<open>off\<close> for the locked inode \<open>ip\<close>.\<close>

definition unlink_entry :: "nat \<Rightarrow> nat \<Rightarrow> u32 \<Rightarrow> ('z kfile_scheme, int) kop" where
  "unlink_entry dp ip off =
     bindK (writei dp (Bytes (replicate 16 0)) off 16) (\<lambda>w.
     if w \<noteq> 16 then panicK ''unlink: writei''
     else
       bindK (getK (\<lambda>s. i_type (icache s ! ip))) (\<lambda>t.
       bindK (whenK (t = T_DIR)
         (bindK (modK (upd_inode dp (\<lambda>p. p\<lparr>i_nlink := i_nlink p - 1\<rparr>))) (\<lambda>_. iupdate dp))) (\<lambda>_.
       bindK (iunlockput dp) (\<lambda>_.
       bindK (modK (upd_inode ip (\<lambda>p. p\<lparr>i_nlink := i_nlink p - 1\<rparr>))) (\<lambda>_.
       bindK (iupdate ip) (\<lambda>_.
       bindK (iunlockput ip) (\<lambda>_.
       end_with 0)))))))"

definition sys_unlink :: "('z kfile_scheme, int) kop" where
  "sys_unlink =
     orK (argstr 0) (retK (-1)) (\<lambda>(_, path).
     bindK begin_op (\<lambda>_.
     orK (nameiparent path) (end_with (-1)) (\<lambda>(dp, name).
     bindK (ilock dp) (\<lambda>_.
     if namecmp name (bytes ''.'') = 0 \<or> namecmp name (bytes ''..'') = 0 then unlink_bad dp
     else
       orK (dirlookup dp name) (unlink_bad dp) (\<lambda>(ip, off).
       bindK (ilock ip) (\<lambda>_.
       bindK (getK (\<lambda>s. (i_nlink (icache s ! ip), i_type (icache s ! ip)))) (\<lambda>(nlink, t).
       if sint nlink < 1 then panicK ''unlink: nlink < 1''
       else
         bindK (if t = T_DIR then isdirempty ip else retK True) (\<lambda>empty.
         if \<not> empty then bindK (iunlockput ip) (\<lambda>_. unlink_bad dp)
         else unlink_entry dp ip off))))))))"
section \<open>Creation\<close>

definition create_dots :: "nat \<Rightarrow> nat \<Rightarrow> ('z kfile_scheme, unit) kop" where
  "create_dots dp ip =
     bindK (modK (upd_inode dp (\<lambda>p. p\<lparr>i_nlink := i_nlink p + 1\<rparr>))) (\<lambda>_.
     bindK (iupdate dp) (\<lambda>_.
     bindK (getK (\<lambda>s. (i_inum (icache s ! ip), i_inum (icache s ! dp)))) (\<lambda>(inum, dinum).
     bindK (dirlink ip (bytes ''.'') inum) (\<lambda>r1.
     if r1 < 0 then panicK ''create dots''
     else bindK (dirlink ip (bytes ''..'') dinum) (\<lambda>r2.
     if r2 < 0 then panicK ''create dots'' else retK ())))))"

definition create :: "byte list \<Rightarrow> u16 \<Rightarrow> u16 \<Rightarrow> u16 \<Rightarrow> ('z kfile_scheme, nat option) kop" where
  "create path type major minor =
     orK (nameiparent path) (retK None) (\<lambda>(dp, name).
     bindK (ilock dp) (\<lambda>_.
     bindK (dirlookup dp name) (\<lambda>r.
     case r of
       Some (ip, _) \<Rightarrow>
         bindK (iunlockput dp) (\<lambda>_.
         bindK (ilock ip) (\<lambda>_.
         bindK (getK (\<lambda>s. i_type (icache s ! ip))) (\<lambda>t.
         if type = T_FILE \<and> t = T_FILE then retK (Some ip)
         else bindK (iunlockput ip) (\<lambda>_. retK None))))
     | None \<Rightarrow>
         bindK (getK (\<lambda>s. i_dev (icache s ! dp))) (\<lambda>dev.
         bindK (ialloc dev type) (\<lambda>ip.
         bindK (ilock ip) (\<lambda>_.
         bindK (modK (upd_inode ip (\<lambda>p. p\<lparr>i_major := major, i_minor := minor, i_nlink := 1\<rparr>))) (\<lambda>_.
         bindK (iupdate ip) (\<lambda>_.
         bindK (whenK (type = T_DIR) (create_dots dp ip)) (\<lambda>_.
         bindK (getK (\<lambda>s. i_inum (icache s ! ip))) (\<lambda>inum.
         bindK (dirlink dp name inum) (\<lambda>l.
         if l < 0 then panicK ''create: dirlink''
         else bindK (iunlockput dp) (\<lambda>_. retK (Some ip)))))))))))))"

definition open_fd :: "nat \<Rightarrow> u32 \<Rightarrow> ('z kfile_scheme, int) kop" where
  "open_fd ip omode =
     orK filealloc (bindK (iunlockput ip) (\<lambda>_. end_with (-1))) (\<lambda>f.
     orK (fdalloc f) (bindK (fileclose f) (\<lambda>_. bindK (iunlockput ip) (\<lambda>_. end_with (-1)))) (\<lambda>fd.
     bindK (iunlock ip) (\<lambda>_.
     bindK end_op (\<lambda>_.
     bindK (modK (upd_file f (\<lambda>g. g\<lparr>f_type := FD_INODE, f_ip := ip, f_off := 0,
         f_readable := (omode AND 1 = 0), f_writable := (omode AND 1 \<noteq> 0 \<or> omode AND 2 \<noteq> 0)\<rparr>))) (\<lambda>_.
     retK (int fd))))))"

definition sys_open :: "('z kfile_scheme, int) kop" where
  "sys_open =
     orK (argstr 0) (retK (-1)) (\<lambda>(_, path).
     orK (argint 1) (retK (-1)) (\<lambda>omode.
     bindK begin_op (\<lambda>_.
     if omode AND 0x200 \<noteq> 0 then
       orK (create path T_FILE 0 0) (end_with (-1)) (\<lambda>ip. open_fd ip omode)
     else
       orK (namei path) (end_with (-1)) (\<lambda>ip.
       bindK (ilock ip) (\<lambda>_.
       bindK (getK (\<lambda>s. i_type (icache s ! ip))) (\<lambda>t.
       if t = T_DIR \<and> omode \<noteq> 0 then bindK (iunlockput ip) (\<lambda>_. end_with (-1))
       else open_fd ip omode))))))"

definition sys_mkdir :: "('z kfile_scheme, int) kop" where
  "sys_mkdir =
     bindK begin_op (\<lambda>_.
     orK (argstr 0) (end_with (-1)) (\<lambda>(_, path).
     orK (create path T_DIR 0 0) (end_with (-1)) (\<lambda>ip.
     bindK (iunlockput ip) (\<lambda>_.
     end_with 0))))"

definition sys_mknod :: "('z kfile_scheme, int) kop" where
  "sys_mknod =
     bindK begin_op (\<lambda>_.
     orK (argstr 0) (end_with (-1)) (\<lambda>(_, path).
     orK (argint 1) (end_with (-1)) (\<lambda>major.
     orK (argint 2) (end_with (-1)) (\<lambda>minor.
     orK (create path T_DEV (ucast major) (ucast minor)) (end_with (-1)) (\<lambda>ip.
     bindK (iunlockput ip) (\<lambda>_.
     end_with 0))))))"

definition sys_chdir :: "('z kfile_scheme, int) kop" where
  "sys_chdir =
     with_myproc (\<lambda>c.
     bindK begin_op (\<lambda>_.
     orK (argstr 0) (end_with (-1)) (\<lambda>(_, path).
     orK (namei path) (end_with (-1)) (\<lambda>ip.
     bindK (ilock ip) (\<lambda>_.
     bindK (getK (\<lambda>s. i_type (icache s ! ip))) (\<lambda>t.
     if t \<noteq> T_DIR then bindK (iunlockput ip) (\<lambda>_. end_with (-1))
     else
       bindK (iunlock ip) (\<lambda>_.
       bindK (getK (\<lambda>s. p_cwd (ptable s ! c))) (\<lambda>cwd.
       bindK (case cwd of None \<Rightarrow> panicK ''undefined: null'' | Some d \<Rightarrow> iput d) (\<lambda>_.
       bindK end_op (\<lambda>_.
       bindK (modK (upd_proc c (\<lambda>p. p\<lparr>p_cwd := Some ip\<rparr>))) (\<lambda>_.
       retK 0)))))))))))"

section \<open>Pipes\<close>

definition sys_pipe :: "('z kfile_scheme, int) kop" where
  "sys_pipe =
     orK (argptr 0 8) (retK (-1)) (\<lambda>fd.
     orK pipealloc (retK (-1)) (\<lambda>(rf, wf).
     let fail = bindK (fileclose rf) (\<lambda>_. bindK (fileclose wf) (\<lambda>_. retK (-1)))
     in orK (fdalloc rf) fail (\<lambda>fd0.
        orK (fdalloc wf) (bindK (clear_fd fd0) (\<lambda>_. fail)) (\<lambda>fd1.
        bindK (vwrite fd (le32 (of_nat fd0))) (\<lambda>_.
        bindK (vwrite (fd + 4) (le32 (of_nat fd1))) (\<lambda>_.
        retK 0))))))"

section \<open>The copy system call\<close>

text \<open>
  The loop of \<^verbatim>\<open>sys_copy\<close>; the first argument bounds the number of rounds. Every round that does not
  leave it moves the offset of the source on by at least one byte.
\<close>

fun copy_loop :: "nat \<Rightarrow> nat \<Rightarrow> nat \<Rightarrow> ('z kfile_scheme, int) kop" where
  "copy_loop 0 sf df = divergeK"
| "copy_loop (Suc k) sf df =
     bindK (fileread sf Local 512) (\<lambda>(n, buffer).
     if n > 0 then
       bindK (filewrite df (Bytes buffer) n) (\<lambda>w.
       if w \<noteq> n then
         bindK (fileclose sf) (\<lambda>_. bindK (fileclose df) (\<lambda>_. end_with (-1)))
       else copy_loop k sf df)
     else
       bindK (fileclose sf) (\<lambda>_. bindK (fileclose df) (\<lambda>_. end_with 0)))"

definition sys_copy :: "('z kfile_scheme, int) kop" where
  "sys_copy =
     (let invalid = bindK (cprintf (bytes ''sys_copy: invalid arguments'' @ [10]) []) (\<lambda>_. retK (-1))
      in orK (argstr 0) invalid (\<lambda>(_, srcp).
         orK (argstr 1) invalid (\<lambda>(_, dstp).
         bindK (cprintf (bytes ''sys_copy: src=%s, dst=%s'' @ [10]) [CStr (Some srcp), CStr (Some dstp)]) (\<lambda>_.
         bindK begin_op (\<lambda>_.
         orK (namei srcp) (end_with (-1)) (\<lambda>sip.
         bindK (ilock sip) (\<lambda>_.
         orK filealloc (bindK (iunlockput sip) (\<lambda>_. end_with (-1))) (\<lambda>sf.
         bindK (modK (upd_file sf (\<lambda>g. g\<lparr>f_type := FD_INODE, f_ip := sip, f_off := 0, f_readable := True, f_writable := False\<rparr>))) (\<lambda>_.
         orK (create dstp T_FILE 0 0) (bindK (fileclose sf) (\<lambda>_. end_with (-1))) (\<lambda>dip.
         orK filealloc (bindK (fileclose sf) (\<lambda>_. bindK (iunlockput dip) (\<lambda>_. end_with (-1)))) (\<lambda>df.
         bindK (modK (upd_file df (\<lambda>g. g\<lparr>f_type := FD_INODE, f_ip := dip, f_off := 0, f_readable := False, f_writable := True\<rparr>))) (\<lambda>_.
         bindK (getK (\<lambda>s. unat (i_size (icache s ! sip)) + 1)) (\<lambda>rounds.
         copy_loop rounds sf df)))))))))))))"

end
