(* ===== verification/Exec.thy ===== *)
theory Exec
  imports Sysfile
begin

text \<open>
  \<^verbatim>\<open>exec.c\<close>, with \<^verbatim>\<open>loaduvm\<close> of \<^verbatim>\<open>vm.c\<close> and \<^verbatim>\<open>sys_exec\<close>. The headers of the program file are byte
  lists read by their offsets. \<open>copyout_bytes\<close> is \<^verbatim>\<open>copyout\<close> from a local array (\<^verbatim>\<open>ustack\<close>).
\<close>

abbreviation (input) MAXARG :: nat where "MAXARG \<equiv> 32"

fun loaduvm_loop :: "u32 list \<Rightarrow> u32 \<Rightarrow> u32 \<Rightarrow> nat \<Rightarrow> u32 \<Rightarrow> u32 \<Rightarrow> ('z kcons_scheme, int) kop" where
  "loaduvm_loop [] pgdir addr ip offset sz = retK 0"
| "loaduvm_loop (i # is) pgdir addr ip offset sz =
     bindK (walkpgdir pgdir (addr + i) False) (\<lambda>pte.
     if pte = 0 then panicK ''loaduvm: address should exist''
     else bindK (getK (\<lambda>s. PTE_ADDR (load32 (mem s) pte))) (\<lambda>pa.
       let n = (if sz - i < PGSIZE then sz - i else PGSIZE)
       in bindK (readi ip (Addr (P2V pa)) (offset + i) n) (\<lambda>(r, _).
          if r \<noteq> sint n then retK (-1) else loaduvm_loop is pgdir addr ip offset sz)))"

definition loaduvm :: "u32 \<Rightarrow> u32 \<Rightarrow> nat \<Rightarrow> u32 \<Rightarrow> u32 \<Rightarrow> ('z kcons_scheme, int) kop" where
  "loaduvm pgdir addr ip offset sz =
     (if addr mod PGSIZE \<noteq> 0 then panicK ''loaduvm: addr must be page aligned''
      else loaduvm_loop (page_range 0 sz) pgdir addr ip offset sz)"

function copyout_bytes :: "u32 \<Rightarrow> u32 \<Rightarrow> byte list \<Rightarrow> ('z kvm_scheme, int) kop" where
  "copyout_bytes pgdir va bs =
     (if bs = [] then retK 0
      else
        let va0 = PGROUNDDOWN va; n = min (length bs) (4096 - unat (take_bit 12 va))
        in bindK (uva2ka pgdir va0) (\<lambda>pa0.
           if pa0 = 0 then retK (-1)
           else
             bindK (vwrite (pa0 + (va - va0)) (take n bs)) (\<lambda>_.
             copyout_bytes pgdir (va0 + PGSIZE) (drop n bs))))"
  by pat_completeness auto
termination
proof (relation "measure (\<lambda>(pgdir, va, bs). length bs)", goal_cases)
  case (2 pgdir va bs va0 n pa0 u)
  have "unat (take_bit 12 va) < 4096"
    using take_bit_12_less [of va] by (simp add: word_less_nat_alt)
  with 2 show ?case by simp
qed simp

declare copyout_bytes.simps [simp del]

text \<open>The label \<^verbatim>\<open>bad\<close>; \<open>ip\<close> is null once the program is loaded.\<close>

definition exec_bad :: "u32 \<Rightarrow> nat option \<Rightarrow> ('z kfile_scheme, int) kop" where
  "exec_bad pgdir ip =
     bindK (whenK (pgdir \<noteq> 0) (freevm pgdir)) (\<lambda>_.
     bindK (case ip of None \<Rightarrow> retK () | Some i \<Rightarrow> bindK (iunlockput i) (\<lambda>_. end_op)) (\<lambda>_.
     retK (-1)))"

text \<open>The loop over the program headers, \<open>k\<close> of them left; \<open>None\<close> is \<^verbatim>\<open>goto bad\<close>.\<close>

fun load_segments :: "nat \<Rightarrow> u32 \<Rightarrow> u32 \<Rightarrow> nat \<Rightarrow> u32 \<Rightarrow> ('z kfile_scheme, u32 option) kop" where
  "load_segments 0 off pgdir ip sz = retK (Some sz)"
| "load_segments (Suc k) off pgdir ip sz =
     bindK (readi ip Local off 32) (\<lambda>(r, ph).
     if r \<noteq> 32 then retK None
     else if get32 ph 0 \<noteq> 1 then load_segments k (off + 32) pgdir ip sz
     else
       let vaddr = get32 ph 8; filesz = get32 ph 16; memsz = get32 ph 20
       in if memsz < filesz then retK None
          else if vaddr + memsz < vaddr then retK None
          else
            bindK (allocuvm pgdir sz (vaddr + memsz)) (\<lambda>sz'.
            if sz' = 0 then retK None
            else if vaddr mod PGSIZE \<noteq> 0 then retK None
            else
              bindK (loaduvm pgdir vaddr ip (get32 ph 4) filesz) (\<lambda>l.
              if l < 0 then retK None else load_segments k (off + 32) pgdir ip sz')))"

text \<open>The loop that pushes the argument strings: the new stack pointer and the addresses.\<close>

fun push_args :: "(u32 \<times> byte list) list \<Rightarrow> nat \<Rightarrow> u32 \<Rightarrow> u32 \<Rightarrow> u32 list \<Rightarrow> ('z kfile_scheme, (u32 \<times> u32 list) option) kop" where
  "push_args [] argc pgdir sp acc = retK (Some (sp, acc))"
| "push_args ((a, str) # argv) argc pgdir sp acc =
     (if argc \<ge> MAXARG then retK None
      else
        let sp' = (sp - of_nat (length str + 1)) AND NOT 3
        in bindK (copyout pgdir sp' a (of_nat (length str + 1))) (\<lambda>r.
           if r < 0 then retK None else push_args argv (argc + 1) pgdir sp' (acc @ [sp'])))"

definition exec_commit :: "nat \<Rightarrow> byte list \<Rightarrow> u32 \<Rightarrow> u32 \<Rightarrow> u32 \<Rightarrow> u32 \<Rightarrow> ('z kfile_scheme, int) kop" where
  "exec_commit c path pgdir sz entry sp =
     (let last = rev (takeWhile (\<lambda>x. x \<noteq> 47) (rev path))
      in bindK (modK (upd_proc c (\<lambda>p. p\<lparr>p_name := safestrcpy_arr (p_name p) (last @ [0]) 15\<rparr>))) (\<lambda>_.
         bindK (getK (\<lambda>s. p_pgdir (ptable s ! c))) (\<lambda>oldpgdir.
         bindK (modK (upd_proc c (\<lambda>p. p\<lparr>p_pgdir := pgdir, p_sz := sz\<rparr>))) (\<lambda>_.
         bindK (modK (\<lambda>s. s\<lparr>mem := store32 (mem s) (p_tf (ptable s ! c) + tf_eip) entry\<rparr>)) (\<lambda>_.
         bindK (modK (\<lambda>s. s\<lparr>mem := store32 (mem s) (p_tf (ptable s ! c) + tf_esp) sp\<rparr>)) (\<lambda>_.
         bindK (switch_to c) (\<lambda>_.
         bindK (freevm oldpgdir) (\<lambda>_.
         retK 0))))))))"

text \<open>From the allocation of the user stack to the end.\<close>

definition exec_stack ::
  "nat \<Rightarrow> byte list \<Rightarrow> (u32 \<times> byte list) list \<Rightarrow> u32 \<Rightarrow> u32 \<Rightarrow> u32 \<Rightarrow> ('z kfile_scheme, int) kop" where
  "exec_stack c path argv pgdir sz0 entry =
     bindK (allocuvm pgdir (PGROUNDUP sz0) (PGROUNDUP sz0 + 2 * PGSIZE)) (\<lambda>sz.
     if sz = 0 then exec_bad pgdir None
     else
       bindK (clearpteu pgdir (sz - 2 * PGSIZE)) (\<lambda>_.
       orK (push_args argv 0 pgdir sz []) (exec_bad pgdir None) (\<lambda>(sp, ptrs).
       let argc = length ptrs;
           ustack = [0xffffffff, of_nat argc, sp - of_nat ((argc + 1) * 4)] @ ptrs @ [0];
           sp' = sp - of_nat ((3 + argc + 1) * 4)
       in bindK (copyout_bytes pgdir sp' (concat (map le32 ustack))) (\<lambda>r.
          if r < 0 then exec_bad pgdir None
          else exec_commit c path pgdir sz entry sp'))))"

definition exec :: "byte list \<Rightarrow> (u32 \<times> byte list) list \<Rightarrow> ('z kfile_scheme, int) kop" where
  "exec path argv =
     with_myproc (\<lambda>c.
     bindK begin_op (\<lambda>_.
     orK (namei path)
       (bindK end_op (\<lambda>_. bindK (cprintf (bytes ''exec: fail'' @ [10]) []) (\<lambda>_. retK (-1)))) (\<lambda>ip.
     bindK (ilock ip) (\<lambda>_.
     bindK (readi ip Local 0 52) (\<lambda>(r, elf).
     if r \<noteq> 52 then exec_bad 0 (Some ip)
     else if get32 elf 0 \<noteq> 0x464C457F then exec_bad 0 (Some ip)
     else
       bindK setupkvm (\<lambda>pgdir.
       if pgdir = 0 then exec_bad 0 (Some ip)
       else
         orK (load_segments (unat (get16 elf 44)) (get32 elf 28) pgdir ip 0) (exec_bad pgdir (Some ip)) (\<lambda>sz.
         bindK (iunlockput ip) (\<lambda>_.
         bindK end_op (\<lambda>_.
         exec_stack c path argv pgdir sz (get32 elf 24))))))))))"

fun exec_args :: "nat \<Rightarrow> u32 \<Rightarrow> (u32 \<times> byte list) list \<Rightarrow> ('z kproc_scheme, (u32 \<times> byte list) list option) kop" where
  "exec_args 0 a acc = retK None"
| "exec_args (Suc k) a acc =
     orK (fetchint a) (retK None) (\<lambda>uarg.
     if uarg = 0 then retK (Some acc)
     else orK (fetchstr uarg) (retK None) (\<lambda>arg. exec_args k (a + 4) (acc @ [arg])))"

definition sys_exec :: "('z kfile_scheme, int) kop" where
  "sys_exec =
     orK (argstr 0) (retK (-1)) (\<lambda>(_, path).
     orK (argint 1) (retK (-1)) (\<lambda>uargv.
     orK (exec_args MAXARG uargv []) (retK (-1)) (\<lambda>argv.
     exec path argv)))"

end
