(* ===== verification/Fork.thy ===== *)
theory Fork
  imports Exec
begin

text \<open>
  The operations of \<^verbatim>\<open>proc.c\<close> that use the file system: \<^verbatim>\<open>userinit\<close>, \<^verbatim>\<open>fork\<close>, \<^verbatim>\<open>exit\<close>, \<^verbatim>\<open>forkret\<close>.
  Where the first program lies in the kernel image and how long it is are arguments of \<open>userinit\<close>.
\<close>

text \<open>The fields of the trap frame of the process in slot \<open>i\<close>.\<close>

definition set_tf :: "nat \<Rightarrow> u32 \<Rightarrow> u32 \<Rightarrow> ('z kproc_scheme, unit) kop" where
  "set_tf i off v = modK (\<lambda>s. s\<lparr>mem := store32 (mem s) (p_tf (ptable s ! i) + off) v\<rparr>)"

definition set_tf16 :: "nat \<Rightarrow> u32 \<Rightarrow> u16 \<Rightarrow> ('z kproc_scheme, unit) kop" where
  "set_tf16 i off v =
     modK (\<lambda>s. let a = p_tf (ptable s ! i) + off
                in s\<lparr>mem := (mem s)(a := ucast v, a + 1 := ucast (drop_bit 8 v))\<rparr>)"

text \<open>
  A null result of \<open>allocproc\<close> is not tested: the code goes on to write through a null pointer,
  which C does not define.
\<close>

definition userinit :: "u32 \<Rightarrow> u32 \<Rightarrow> ('z kfile_scheme, unit) kop" where
  "userinit init_start init_size =
     bindK allocproc (\<lambda>r.
     bindK (modK (\<lambda>s. s\<lparr>initproc := r\<rparr>)) (\<lambda>_.
     case r of
       None \<Rightarrow> panicK ''undefined: null''
     | Some p \<Rightarrow>
         bindK setupkvm (\<lambda>pgdir.
         bindK (modK (upd_proc p (\<lambda>q. q\<lparr>p_pgdir := pgdir\<rparr>))) (\<lambda>_.
         if pgdir = 0 then panicK ''userinit: out of memory?''
         else
           bindK (inituvm pgdir init_start init_size) (\<lambda>_.
           bindK (modK (upd_proc p (\<lambda>q. q\<lparr>p_sz := PGSIZE\<rparr>))) (\<lambda>_.
           bindK (modK (\<lambda>s. s\<lparr>mem := memset (mem s) (p_tf (ptable s ! p)) 0 sizeof_tf\<rparr>)) (\<lambda>_.
           bindK (set_tf16 p tf_cs 0x1B) (\<lambda>_.
           bindK (set_tf16 p tf_ds 0x23) (\<lambda>_.
           bindK (set_tf16 p tf_es 0x23) (\<lambda>_.
           bindK (set_tf16 p tf_ss 0x23) (\<lambda>_.
           bindK (set_tf p tf_eflags 0x200) (\<lambda>_.
           bindK (set_tf p tf_esp PGSIZE) (\<lambda>_.
           bindK (set_tf p tf_eip 0) (\<lambda>_.
           bindK (modK (upd_proc p (\<lambda>q. q\<lparr>p_name := safestrcpy_arr (p_name q) (bytes ''initcode'' @ [0]) 15\<rparr>))) (\<lambda>_.
           bindK (namei (bytes ''/'')) (\<lambda>cwd.
           bindK (modK (upd_proc p (\<lambda>q. q\<lparr>p_cwd := cwd\<rparr>))) (\<lambda>_.
           bindK (acquire L_ptable) (\<lambda>_.
           bindK (modK (upd_proc p (\<lambda>q. q\<lparr>p_state := RUNNABLE\<rparr>))) (\<lambda>_.
           release L_ptable)))))))))))))))))))"

definition dup_ofile :: "nat \<Rightarrow> nat \<Rightarrow> nat \<Rightarrow> ('z kfile_scheme, unit) kop" where
  "dup_ofile c np i =
     bindK (getK (\<lambda>s. p_ofile (ptable s ! c) ! i)) (\<lambda>f.
     case f of
       None \<Rightarrow> retK ()
     | Some g \<Rightarrow>
         bindK (filedup g) (\<lambda>g'.
         modK (upd_proc np (\<lambda>p. p\<lparr>p_ofile := (p_ofile p)[i := Some g']\<rparr>))))"

definition fork :: "('z kfile_scheme, int) kop" where
  "fork =
     with_myproc (\<lambda>c.
     orK allocproc (retK (-1)) (\<lambda>np.
     bindK (getK (\<lambda>s. (p_pgdir (ptable s ! c), p_sz (ptable s ! c)))) (\<lambda>(pgdir, sz).
     bindK (copyuvm pgdir sz) (\<lambda>d.
     bindK (modK (upd_proc np (\<lambda>p. p\<lparr>p_pgdir := d\<rparr>))) (\<lambda>_.
     if d = 0 then
       bindK (getK (\<lambda>s. p_kstack (ptable s ! np))) (\<lambda>k.
       bindK (kfree k) (\<lambda>_.
       bindK (modK (upd_proc np (\<lambda>p. p\<lparr>p_kstack := 0\<rparr>))) (\<lambda>_.
       bindK (modK (upd_proc np (\<lambda>p. p\<lparr>p_state := UNUSED\<rparr>))) (\<lambda>_.
       retK (-1)))))
     else
       bindK (modK (upd_proc np (\<lambda>p. p\<lparr>p_sz := sz, p_parent := Some c\<rparr>))) (\<lambda>_.
       bindK (modK (\<lambda>s. s\<lparr>mem := memmove (mem s) (p_tf (ptable s ! np)) (p_tf (ptable s ! c)) sizeof_tf\<rparr>)) (\<lambda>_.
       bindK (modK (\<lambda>s. upd_proc np (\<lambda>p. p\<lparr>p_signal_handlers := p_signal_handlers (ptable s ! c)\<rparr>) s)) (\<lambda>_.
       bindK (set_tf np tf_eax 0) (\<lambda>_.
       bindK (forK [0..<NOFILE] (dup_ofile c np)) (\<lambda>_.
       bindK (getK (\<lambda>s. p_cwd (ptable s ! c))) (\<lambda>cwd.
       bindK (case cwd of None \<Rightarrow> panicK ''undefined: null'' | Some d \<Rightarrow> idup d) (\<lambda>dup.
       bindK (modK (upd_proc np (\<lambda>p. p\<lparr>p_cwd := Some dup\<rparr>))) (\<lambda>_.
       bindK (modK (\<lambda>s. upd_proc np (\<lambda>p. p\<lparr>p_name := safestrcpy_arr (p_name p) (p_name (ptable s ! c)) 15\<rparr>) s)) (\<lambda>_.
       bindK (getK (\<lambda>s. p_pid (ptable s ! np))) (\<lambda>pid.
       bindK (acquire L_ptable) (\<lambda>_.
       bindK (modK (upd_proc np (\<lambda>p. p\<lparr>p_state := RUNNABLE\<rparr>))) (\<lambda>_.
       bindK (release L_ptable) (\<lambda>_.
       retK pid))))))))))))))))))"

definition close_ofile :: "nat \<Rightarrow> nat \<Rightarrow> ('z kfile_scheme, unit) kop" where
  "close_ofile c fd =
     bindK (getK (\<lambda>s. p_ofile (ptable s ! c) ! fd)) (\<lambda>f.
     case f of
       None \<Rightarrow> retK ()
     | Some g \<Rightarrow>
         bindK (fileclose g) (\<lambda>_.
         modK (upd_proc c (\<lambda>p. p\<lparr>p_ofile := (p_ofile p)[fd := None]\<rparr>))))"

definition pass_child :: "nat \<Rightarrow> nat \<Rightarrow> ('z kproc_scheme, unit) kop" where
  "pass_child c i =
     bindK (getK (\<lambda>s. p_parent (ptable s ! i))) (\<lambda>par.
     whenK (par = Some c)
       (bindK (modK (\<lambda>s. upd_proc i (\<lambda>p. p\<lparr>p_parent := initproc s\<rparr>) s)) (\<lambda>_.
        bindK (getK (\<lambda>s. (p_state (ptable s ! i), initproc s))) (\<lambda>(st, ini).
        whenK (st = ZOMBIE) (wakeup1 (map_option ChanProc ini))))))"

definition exit :: "('z kfile_scheme, 'a) kop" where
  "exit =
     with_myproc (\<lambda>c.
     bindK (getK initproc) (\<lambda>ini.
     if ini = Some c then panicK ''init exiting''
     else
       bindK (forK [0..<NOFILE] (close_ofile c)) (\<lambda>_.
       bindK begin_op (\<lambda>_.
       bindK (getK (\<lambda>s. p_cwd (ptable s ! c))) (\<lambda>cwd.
       bindK (case cwd of None \<Rightarrow> panicK ''undefined: null'' | Some d \<Rightarrow> iput d) (\<lambda>_.
       bindK end_op (\<lambda>_.
       bindK (modK (upd_proc c (\<lambda>p. p\<lparr>p_cwd := None\<rparr>))) (\<lambda>_.
       bindK (acquire L_ptable) (\<lambda>_.
       bindK (modK (upd_proc c (\<lambda>p. p\<lparr>p_signal_handlers := replicate NUMSIGNALS 0\<rparr>))) (\<lambda>_.
       bindK (getK (\<lambda>s. p_parent (ptable s ! c))) (\<lambda>par.
       bindK (wakeup1 (map_option ChanProc par)) (\<lambda>_.
       bindK (forK [0..<NPROC] (pass_child c)) (\<lambda>_.
       bindK (modK (upd_proc c (\<lambda>p. p\<lparr>p_state := ZOMBIE\<rparr>))) (\<lambda>_.
       bindK sched (\<lambda>_ :: unit.
       panicK ''zombie exit'')))))))))))))))"

definition forkret :: "('z kfile_scheme, unit) kop" where
  "forkret =
     bindK (release L_ptable) (\<lambda>_.
     bindK (getK first) (\<lambda>f.
     whenK f
       (bindK (modK (\<lambda>s. s\<lparr>first := False\<rparr>)) (\<lambda>_.
        bindK (iinit 1) (\<lambda>_.
        initlog 1)))))"

end
