(* ===== verification/Sysproc.thy ===== *)
theory Sysproc
  imports Fork
begin

text \<open>
  The system calls on processes and the additions to xv6, \<^verbatim>\<open>sysproc.c\<close>: shared memory, signals, the
  message queue of \<^verbatim>\<open>msgqueue.h\<close> (initialised in \<^verbatim>\<open>main.c\<close>), the process listing. A system call
  returns an \<open>int\<close>; unsigned results are converted as in C.
\<close>

abbreviation (input) MAX_MESSAGES :: int where "MAX_MESSAGES \<equiv> 64"
abbreviation (input) MSG_SIZE :: int where "MSG_SIZE \<equiv> 32"

record message =
  m_type :: int
  m_data :: "byte list"

record msgqueue =
  mq_messages :: "message list"
  mq_head :: int
  mq_tail :: int
  mq_count :: int

record ksys = kfile +
  ticks :: u32
  shared_memory :: u32
  msgq :: msgqueue

section \<open>Processes\<close>

definition sys_fork :: "('z ksys_scheme, int) kop" where
  "sys_fork = fork"

definition sys_exit :: "('z ksys_scheme, int) kop" where
  "sys_exit = exit"

definition sys_wait :: "('z ksys_scheme, int) kop" where
  "sys_wait = wait"

definition sys_kill :: "('z ksys_scheme, int) kop" where
  "sys_kill = orK (argint 0) (retK (-1)) (\<lambda>pid. kill (sint pid))"

definition sys_getpid :: "('z ksys_scheme, int) kop" where
  "sys_getpid = with_myproc (\<lambda>c. getK (\<lambda>s. p_pid (ptable s ! c)))"

definition sys_sbrk :: "('z ksys_scheme, int) kop" where
  "sys_sbrk =
     orK (argint 0) (retK (-1)) (\<lambda>n.
     with_myproc (\<lambda>c.
     bindK (getK (\<lambda>s. sint (p_sz (ptable s ! c)))) (\<lambda>addr.
     bindK (growproc (sint n)) (\<lambda>r.
     if r < 0 then retK (-1) else retK addr))))"

text \<open>\<open>ticks - ticks0 < n\<close> compares unsigned numbers.\<close>

definition sys_sleep_loop :: "u32 \<Rightarrow> u32 \<Rightarrow> ('z ksys_scheme, int) kop" where
  "sys_sleep_loop ticks0 n =
     bindK (getK (\<lambda>s. ticks s - ticks0 < n)) (\<lambda>more.
     if more then
       with_myproc (\<lambda>c.
       bindK (getK (\<lambda>s. p_killed (ptable s ! c))) (\<lambda>k.
       if k then bindK (release L_ticks) (\<lambda>_. retK (-1))
       else sleep ChanTicks L_ticks))
     else bindK (release L_ticks) (\<lambda>_. retK 0))"

definition sys_sleep :: "('z ksys_scheme, int) kop" where
  "sys_sleep =
     orK (argint 0) (retK (-1)) (\<lambda>n.
     bindK (acquire L_ticks) (\<lambda>_.
     bindK (getK ticks) (\<lambda>ticks0.
     sys_sleep_loop ticks0 n)))"

definition sys_sleep_return :: "nat \<Rightarrow> u32 \<Rightarrow> u32 \<Rightarrow> ('z ksys_scheme, int) kop" where
  "sys_sleep_return c ticks0 n = bindK (sleep_return c L_ticks) (\<lambda>_. sys_sleep_loop ticks0 n)"

definition sys_uptime :: "('z ksys_scheme, int) kop" where
  "sys_uptime =
     bindK (acquire L_ticks) (\<lambda>_.
     bindK (getK ticks) (\<lambda>xticks.
     bindK (release L_ticks) (\<lambda>_.
     retK (sint xticks))))"

text \<open>
  With a null parent the field \<^verbatim>\<open>pid\<close>, at offset 16 of \<^verbatim>\<open>struct proc\<close>, is read at address 16 of
  the current address space.
\<close>

definition sys_getppid :: "('z ksys_scheme, int) kop" where
  "sys_getppid =
     with_myproc (\<lambda>c.
     bindK (getK (\<lambda>s. p_parent (ptable s ! c))) (\<lambda>par.
     case par of
       None \<Rightarrow> bindK (vload32 16) (\<lambda>v. retK (sint v))
     | Some q \<Rightarrow> getK (\<lambda>s. p_pid (ptable s ! q))))"

section \<open>Shared memory\<close>

abbreviation (input) SHMEM :: u32 where "SHMEM \<equiv> 0x80000000"

definition shm_map :: "('z ksys_scheme, int) kop" where
  "shm_map =
     with_myproc (\<lambda>c.
     bindK (getK (\<lambda>s. (p_pgdir (ptable s ! c), shared_memory s))) (\<lambda>(pgdir, shm).
     bindK (mappages pgdir SHMEM PGSIZE (V2P shm) (PTE_W OR PTE_U)) (\<lambda>r.
     if r < 0 then
       bindK (cprintf (bytes ''sys_shmget: mappages failed'' @ [10]) []) (\<lambda>_. retK (-1))
     else retK (sint SHMEM))))"

definition sys_shmget :: "('z ksys_scheme, int) kop" where
  "sys_shmget =
     bindK (getK shared_memory) (\<lambda>shm.
     if shm = 0 then
       bindK kalloc (\<lambda>k.
       bindK (modK (\<lambda>s. s\<lparr>shared_memory := k\<rparr>)) (\<lambda>_.
       if k = 0 then
         bindK (cprintf (bytes ''sys_shmget: kalloc failed'' @ [10]) []) (\<lambda>_. retK (-1))
       else
         bindK (modK (\<lambda>s. s\<lparr>mem := memset (mem s) k 0 PGSIZE\<rparr>)) (\<lambda>_.
         shm_map)))
     else shm_map)"

definition sys_shmrem :: "('z ksys_scheme, int) kop" where
  "sys_shmrem =
     bindK (getK shared_memory) (\<lambda>shm.
     if shm = 0 then retK (-1)
     else
       bindK (kfree shm) (\<lambda>_.
       bindK (modK (\<lambda>s. s\<lparr>shared_memory := 0\<rparr>)) (\<lambda>_.
       retK 0)))"

section \<open>Signals\<close>

definition sys_signal :: "('z ksys_scheme, int) kop" where
  "sys_signal =
     orK (argint 0) (retK (-1)) (\<lambda>signum.
     orK (argptr 1 4) (retK (-1)) (\<lambda>handler.
     if sint signum < 0 \<or> int NUMSIGNALS \<le> sint signum then retK (-1)
     else
       with_myproc (\<lambda>c.
       bindK (modK (upd_proc c (\<lambda>p. p\<lparr>p_signal_handlers := (p_signal_handlers p)[unat signum := handler]\<rparr>))) (\<lambda>_.
       retK 0))))"

section \<open>Messages\<close>

definition msgqueue_init :: "('z ksys_scheme, unit) kop" where
  "msgqueue_init =
     bindK (modK (\<lambda>s. s\<lparr>held := held s - {L_msgq}\<rparr>)) (\<lambda>_.
     bindK (modK (\<lambda>s. s\<lparr>msgq := (msgq s)\<lparr>mq_head := 0, mq_tail := 0, mq_count := 0\<rparr>\<rparr>)) (\<lambda>_.
     cprintf (bytes ''Message queue initialized.'' @ [10]) []))"

text \<open>The bytes of a user string that \<^verbatim>\<open>safestrcpy\<close> reads: up to \<open>n\<close>, the NUL included.\<close>

fun vread_str :: "nat \<Rightarrow> u32 \<Rightarrow> ('z kvm_scheme, byte list) kop" where
  "vread_str 0 a = retK []"
| "vread_str (Suc n) a =
     bindK (vload8 a) (\<lambda>c.
     if c = 0 then retK [0] else bindK (vread_str n (a + 1)) (\<lambda>cs. retK (c # cs)))"

definition mq_put :: "int \<Rightarrow> byte list \<Rightarrow> msgqueue \<Rightarrow> msgqueue" where
  "mq_put type str q =
     (let t = nat (mq_tail q);
          m = (mq_messages q ! t)\<lparr>m_type := type\<rparr>;
          m = m\<lparr>m_data := safestrcpy_arr (m_data m) str 31\<rparr>
      in q\<lparr>mq_messages := (mq_messages q)[t := m], mq_tail := (mq_tail q + 1) mod MAX_MESSAGES,
           mq_count := mq_count q + 1\<rparr>)"

definition sys_send :: "('z ksys_scheme, int) kop" where
  "sys_send =
     orK (argint 0) (retK (-1)) (\<lambda>type.
     orK (argptr 1 MSG_SIZE) (retK (-1)) (\<lambda>msg.
     bindK (acquire L_msgq) (\<lambda>_.
     bindK (getK (\<lambda>s. mq_count (msgq s))) (\<lambda>n.
     if n = MAX_MESSAGES then bindK (release L_msgq) (\<lambda>_. retK (-1))
     else
       bindK (vread_str 31 msg) (\<lambda>str.
       bindK (modK (\<lambda>s. s\<lparr>msgq := mq_put (sint type) str (msgq s)\<rparr>)) (\<lambda>_.
       bindK (release L_msgq) (\<lambda>_.
       retK 0)))))))"

text \<open>
  The loop that moves the messages behind index \<open>j\<close> up. It ends when \<open>j\<close> has reached the tail, at
  the latest after going round once; the first argument bounds the number of rounds.
\<close>

fun mq_shift :: "nat \<Rightarrow> int \<Rightarrow> int \<Rightarrow> message list \<Rightarrow> message list" where
  "mq_shift 0 j tail ms = ms"
| "mq_shift (Suc k) j tail ms =
     (if j = tail then ms
      else mq_shift k ((j + 1) mod MAX_MESSAGES) tail (ms[nat j := ms ! nat ((j + 1) mod MAX_MESSAGES)]))"

definition mq_remove :: "int \<Rightarrow> msgqueue \<Rightarrow> msgqueue" where
  "mq_remove index q =
     q\<lparr>mq_messages := mq_shift 64 index (mq_tail q) (mq_messages q),
       mq_tail := (mq_tail q - 1 + MAX_MESSAGES) mod MAX_MESSAGES, mq_count := mq_count q - 1\<rparr>"

text \<open>The search of \<^verbatim>\<open>sys_recv\<close>: the index in the array of the first message of the type.\<close>

definition mq_find :: "int \<Rightarrow> msgqueue \<Rightarrow> int option" where
  "mq_find type q =
     map_option (\<lambda>i. (mq_head q + int i) mod MAX_MESSAGES)
       (find_idx (\<lambda>i. m_type (mq_messages q ! nat ((mq_head q + int i) mod MAX_MESSAGES)) = type)
          [0..<nat (mq_count q)])"

definition sys_recv :: "('z ksys_scheme, int) kop" where
  "sys_recv =
     orK (argint 0) (retK (-1)) (\<lambda>type.
     orK (argptr 1 MSG_SIZE) (retK (-1)) (\<lambda>msg.
     bindK (acquire L_msgq) (\<lambda>_.
     bindK (getK (\<lambda>s. mq_find (sint type) (msgq s))) (\<lambda>found.
     case found of
       None \<Rightarrow> bindK (release L_msgq) (\<lambda>_. retK (-1))
     | Some index \<Rightarrow>
         bindK (getK (\<lambda>s. take 31 (cstr (m_data (mq_messages (msgq s) ! nat index))))) (\<lambda>str.
         bindK (vwrite msg (str @ (if length str < 31 then [0, 0] else [0]))) (\<lambda>_.
         bindK (modK (\<lambda>s. s\<lparr>msgq := mq_remove index (msgq s)\<rparr>)) (\<lambda>_.
         bindK (release L_msgq) (\<lambda>_.
         retK 0))))))))"

section \<open>The rest\<close>

definition sys_clear_console :: "('z ksys_scheme, int) kop" where
  "sys_clear_console = bindK consoleclear (\<lambda>_. retK 0)"

definition sys_ps :: "('z ksys_scheme, int) kop" where
  "sys_ps = bindK procdump (\<lambda>_. retK 0)"

end
