(* ===== verification/Trap.thy ===== *)
theory Trap
  imports Sysproc
begin

text \<open>
  Traps: \<^verbatim>\<open>trap.c\<close>, and the dispatch of system calls in \<^verbatim>\<open>syscall.c\<close>. \<open>tf\<close> is the address of the trap
  frame. Which processor runs, the register \<^verbatim>\<open>cr2\<close> and what a signal handler of the user does when
  the kernel calls it (\<open>call\<close>) are arguments. When the process gives the processor up in \<^verbatim>\<open>yield\<close> the
  rest of \<^verbatim>\<open>trap\<close> is \<open>trap_return\<close>.
\<close>

section \<open>System calls\<close>

definition syscalls :: "nat \<Rightarrow> ('z ksys_scheme, int) kop option" where
  "syscalls n = map_of
     [(1, sys_fork), (2, sys_exit), (3, sys_wait), (4, sys_pipe), (5, sys_read), (6, sys_kill),
      (7, sys_exec), (8, sys_fstat), (9, sys_chdir), (10, sys_dup), (11, sys_getpid), (12, sys_sbrk),
      (13, sys_sleep), (14, sys_uptime), (15, sys_open), (16, sys_write), (17, sys_mknod),
      (18, sys_unlink), (19, sys_link), (20, sys_mkdir), (21, sys_close), (22, sys_getppid),
      (23, sys_shmget), (24, sys_shmrem), (25, sys_signal), (26, sys_send), (27, sys_recv),
      (28, sys_clear_console), (29, sys_ps), (30, sys_copy)] n"

definition get_tf :: "nat \<Rightarrow> u32 \<Rightarrow> ('z kproc_scheme, u32) kop" where
  "get_tf c off = getK (\<lambda>s. load32 (mem s) (p_tf (ptable s ! c) + off))"

definition syscall :: "('z ksys_scheme, unit) kop" where
  "syscall =
     with_myproc (\<lambda>c.
     bindK (get_tf c tf_eax) (\<lambda>v.
     case (if 0 < sint v \<and> sint v < 31 then syscalls (unat v) else None) of
       Some f \<Rightarrow> bindK f (\<lambda>r. set_tf c tf_eax (of_int r))
     | None \<Rightarrow>
         bindK (getK (\<lambda>s. ptable s ! c)) (\<lambda>p.
         bindK (cprintf (bytes ''%d %s: unknown sys call %d'' @ [10])
                  [CInt (of_int (p_pid p)), CStr (Some (cstr (p_name p))), CInt v]) (\<lambda>_.
         set_tf c tf_eax (-1)))))"

section \<open>Traps\<close>

text \<open>Code under \<^verbatim>\<open>if (myproc() ...)\<close>.\<close>

definition if_proc :: "(nat \<Rightarrow> ('z kproc_scheme, unit) kop) \<Rightarrow> ('z kproc_scheme, unit) kop" where
  "if_proc f = bindK (getK curproc) (\<lambda>c. case c of None \<Rightarrow> retK () | Some i \<Rightarrow> f i)"

definition exit_if_killed :: "('z kfile_scheme, unit) kop" where
  "exit_if_killed = if_proc (\<lambda>c. bindK (getK (\<lambda>s. p_killed (ptable s ! c))) (\<lambda>k. whenK k exit))"

definition raise_signal :: "nat \<Rightarrow> nat \<Rightarrow> ('z kproc_scheme, unit) kop" where
  "raise_signal c n = modK (upd_proc c (\<lambda>p. p\<lparr>p_pending_signals := p_pending_signals p OR push_bit n 1\<rparr>))"

definition print_pid :: "byte list \<Rightarrow> nat \<Rightarrow> ('z kcons_scheme, unit) kop" where
  "print_pid fmt c = bindK (getK (\<lambda>s. p_pid (ptable s ! c))) (\<lambda>pid. cprintf fmt [CInt (of_int pid)])"

definition set_killed :: "nat \<Rightarrow> ('z kproc_scheme, unit) kop" where
  "set_killed c = modK (upd_proc c (\<lambda>p. p\<lparr>p_killed := True\<rparr>))"

text \<open>The \<^verbatim>\<open>default\<close> case: a fault of the kernel is a panic, a fault of a process kills it.\<close>

definition trap_default :: "nat \<Rightarrow> u32 \<Rightarrow> u32 \<Rightarrow> ('z ksys_scheme, unit) kop" where
  "trap_default cpu cr2 tf =
     bindK (getK (\<lambda>s. (load32 (mem s) (tf + tf_trapno), load32 (mem s) (tf + 52), load32 (mem s) (tf + tf_eip),
                       load32 (mem s) (tf + tf_cs) AND 0xFFFF))) (\<lambda>(trapno, err, eip, cs).
     bindK (getK curproc) (\<lambda>cur.
     if cur = None \<or> cs AND 3 = 0 then
       bindK (cprintf (bytes ''unexpected trap %d from cpu %d eip %x (cr2=0x%x)'' @ [10])
                [CInt trapno, CInt (of_nat cpu), CInt eip, CInt cr2]) (\<lambda>_.
       panicK ''trap'')
     else
       if_proc (\<lambda>c.
       bindK (getK (\<lambda>s. ptable s ! c)) (\<lambda>p.
       bindK (cprintf (bytes ''pid %d %s: trap %d err %d on cpu %d eip 0x%x addr 0x%x--kill proc'' @ [10])
                [CInt (of_int (p_pid p)), CStr (Some (cstr (p_name p))), CInt trapno, CInt err,
                 CInt (of_nat cpu), CInt eip, CInt cr2]) (\<lambda>_.
       set_killed c)))))"

definition trap_timer :: "nat \<Rightarrow> ('z ksys_scheme, unit) kop" where
  "trap_timer cpu =
     whenK (cpu = 0)
       (bindK (acquire L_ticks) (\<lambda>_.
        bindK (modK (\<lambda>s. s\<lparr>ticks := ticks s + 1\<rparr>)) (\<lambda>_.
        bindK (wakeup ChanTicks) (\<lambda>_.
        release L_ticks))))"

definition trap_spurious :: "nat \<Rightarrow> u32 \<Rightarrow> ('z ksys_scheme, unit) kop" where
  "trap_spurious cpu tf =
     bindK (getK (\<lambda>s. (load32 (mem s) (tf + tf_cs) AND 0xFFFF, load32 (mem s) (tf + tf_eip)))) (\<lambda>(cs, eip).
     cprintf (bytes ''cpu%d: spurious interrupt at %x:%x'' @ [10]) [CInt (of_nat cpu), CInt cs, CInt eip])"

text \<open>\<open>eoi\<close> is \<^verbatim>\<open>lapiceoi()\<close>, which belongs to the state of the devices in \<open>Mp\<close>; \<open>kernel_trap\<close> in \<open>Apic\<close> is the function with it.\<close>

definition trap_switch :: "('z ksys_scheme, unit) kop \<Rightarrow> nat \<Rightarrow> u32 \<Rightarrow> u32 \<Rightarrow> u32 \<Rightarrow> ('z ksys_scheme, unit) kop" where
  "trap_switch eoi cpu cr2 tf trapno =
     (if trapno = 32 then bindK (trap_timer cpu) (\<lambda>_. eoi)
      else if trapno = 46 then bindK ideintr (\<lambda>_. eoi)
      else if trapno = 47 then retK ()
      else if trapno = 33 then
        bindK kbdintr (\<lambda>_.
        bindK (if_proc (\<lambda>c.
          bindK (raise_signal c 2) (\<lambda>_.
          print_pid (bytes ''SIGINT triggered by Shift+C for process %d'' @ [10]) c))) (\<lambda>_.
        eoi))
      else if trapno = 36 then bindK uartintr (\<lambda>_. eoi)
      else if trapno = 0 then
        if_proc (\<lambda>c.
        bindK (raise_signal c 8) (\<lambda>_.
        print_pid (bytes ''SIGFPE triggered for process %d'' @ [10]) c))
      else if trapno = 39 \<or> trapno = 63 then bindK (trap_spurious cpu tf) (\<lambda>_. eoi)
      else trap_default cpu cr2 tf)"

text \<open>One round of the loop that delivers the pending signals of the process.\<close>

definition trap_deliver :: "(u32 \<Rightarrow> ('z ksys_scheme, unit) kop) \<Rightarrow> nat \<Rightarrow> ('z ksys_scheme, unit) kop" where
  "trap_deliver call i =
     with_myproc (\<lambda>c.
     bindK (getK (\<lambda>s. p_pending_signals (ptable s ! c) AND push_bit i 1)) (\<lambda>pending.
     whenK (pending \<noteq> 0)
       (bindK (modK (upd_proc c (\<lambda>p. p\<lparr>p_pending_signals := p_pending_signals p AND NOT (push_bit i 1)\<rparr>))) (\<lambda>_.
        bindK (getK (\<lambda>s. p_signal_handlers (ptable s ! c) ! i)) (\<lambda>h.
        if h \<noteq> 0 then
          bindK (modK (upd_proc c (\<lambda>p. p\<lparr>p_signal_handlers := (p_signal_handlers p)[i := 0]\<rparr>))) (\<lambda>_.
          call h)
        else if i = 2 then
          bindK (print_pid (bytes ''SIGINT received (Shift+C): terminating process %d'' @ [10]) c) (\<lambda>_.
          set_killed c)
        else if i = 8 then
          bindK (print_pid (bytes ''SIGFPE received: terminating process %d'' @ [10]) c) (\<lambda>_.
          set_killed c)
        else retK ())))))"

definition user_mode :: "u32 \<Rightarrow> ('z kproc_scheme, bool) kop" where
  "user_mode tf = getK (\<lambda>s. load32 (mem s) (tf + tf_cs) AND 3 = 3)"

definition trap_return :: "u32 \<Rightarrow> ('z ksys_scheme, unit) kop" where
  "trap_return tf = bindK (user_mode tf) (\<lambda>u. whenK u exit_if_killed)"

definition trap :: "('z ksys_scheme, unit) kop \<Rightarrow> (u32 \<Rightarrow> ('z ksys_scheme, unit) kop) \<Rightarrow> nat \<Rightarrow> u32 \<Rightarrow> u32 \<Rightarrow> ('z ksys_scheme, unit) kop" where
  "trap eoi call cpu cr2 tf =
     bindK (getK (\<lambda>s. load32 (mem s) (tf + tf_trapno))) (\<lambda>trapno.
     if trapno = 64 then
       bindK exit_if_killed (\<lambda>_.
       bindK (with_myproc (\<lambda>c. modK (upd_proc c (\<lambda>p. p\<lparr>p_tf := tf\<rparr>)))) (\<lambda>_.
       bindK syscall (\<lambda>_.
       exit_if_killed)))
     else
       bindK (trap_switch eoi cpu cr2 tf trapno) (\<lambda>_.
       bindK (if_proc (\<lambda>c.
         bindK (getK (\<lambda>s. p_pending_signals (ptable s ! c))) (\<lambda>pending.
         whenK (pending \<noteq> 0) (forK [0..<NUMSIGNALS] (trap_deliver call))))) (\<lambda>_.
       bindK (trap_return tf) (\<lambda>_.
       bindK (if_proc (\<lambda>c.
         bindK (getK (\<lambda>s. p_state (ptable s ! c))) (\<lambda>st.
         whenK (st = RUNNING \<and> trapno = 32) yield))) (\<lambda>_.
       trap_return tf)))))"

end
