(* ===== verification/Sleeplock_Props.thy ===== *)
theory Sleeplock_Props
  imports Sleeplock Proc_Props
begin

text \<open>
  How sleeping, waking and sleep locks execute. \<open>woken ch s\<close> is the state after \<open>wakeup(ch)\<close>;
  \<open>ptable_wk\<close> relates two process tables that differ by wake-ups only.
\<close>

definition woken :: "chan \<Rightarrow> 'z kproc_scheme \<Rightarrow> 'z kproc_scheme" where
  "woken ch s = s\<lparr>ptable := map (wake (Some ch)) (ptable s)\<rparr>"

definition ptable_wk :: "proc list \<Rightarrow> proc list \<Rightarrow> bool" where
  "ptable_wk ps qs \<longleftrightarrow> length qs = length ps \<and>
     (\<forall>i < length ps. qs ! i = ps ! i \<or> (p_state (ps ! i) = SLEEPING \<and> qs ! i = (ps ! i)\<lparr>p_state := RUNNABLE\<rparr>))"

lemma ptable_wk_refl [simp]: "ptable_wk ps ps"
  by (simp add: ptable_wk_def)

lemma ptable_wk_trans: "ptable_wk ps qs \<Longrightarrow> ptable_wk qs rs \<Longrightarrow> ptable_wk ps rs"
  by (fastforce simp: ptable_wk_def)

lemma ptable_wk_map_wake [simp]: "ptable_wk ps (map (wake ch) ps)"
  by (simp add: ptable_wk_def wake_def)

lemma ptable_wk_length: "ptable_wk ps qs \<Longrightarrow> length qs = length ps"
  by (simp add: ptable_wk_def)

lemma ptable_wk_fields:
  assumes "ptable_wk ps qs" "i < length ps"
  shows "p_pid (qs ! i) = p_pid (ps ! i)" "p_killed (qs ! i) = p_killed (ps ! i)"
    "p_sz (qs ! i) = p_sz (ps ! i)" "p_pgdir (qs ! i) = p_pgdir (ps ! i)" "p_tf (qs ! i) = p_tf (ps ! i)"
    "p_ofile (qs ! i) = p_ofile (ps ! i)" "p_cwd (qs ! i) = p_cwd (ps ! i)"
    "p_state (ps ! i) \<noteq> SLEEPING \<Longrightarrow> qs ! i = ps ! i"
  using assms unfolding ptable_wk_def by (auto dest!: spec [of _ i])

lemma woken_simps [simp]:
  "held (woken ch s) = held s" "curproc (woken ch s) = curproc s" "nextpid (woken ch s) = nextpid s"
  "mem (woken ch s) = mem s" "ptable (woken ch s) = map (wake (Some ch)) (ptable s)"
  by (simp_all add: woken_def)

lemma wakeup_run: "L_ptable \<notin> held s \<Longrightarrow> wakeup ch s = Ret () (woken ch s)"
  by (simp add: wakeup_def wakeup1_def bindK_def acquire_def release_def woken_def)

text \<open>
  \<open>sleep\<close> of a process that holds the lock \<open>lk\<close> and no other: it gives the processor up with only
  \<open>ptable.lock\<close> held.
\<close>

lemma sleep_run:
  assumes "curproc s = Some c" "held s = {lk}" "lk \<noteq> L_ptable" "c < length (ptable s)"
  shows "sleep ch lk s =
    Swtch (upd_proc c (\<lambda>p. p\<lparr>p_chan := Some ch, p_state := SLEEPING\<rparr>) (s\<lparr>held := {L_ptable}\<rparr>))"
  using assms by (simp add: sleep_def bindK_def acquire_def release_def sched_def with_myproc_def swtchK_def insert_Diff_if comp_def)

lemma upd_slock_simps [simp]:
  "held (upd_slock l f s) = held s" "curproc (upd_slock l f s) = curproc s" "ptable (upd_slock l f s) = ptable s"
  "slocks (upd_slock l f s) = (slocks s)(l := f (slocks s l))"
  by (simp_all add: upd_slock_def)

lemma acquiresleep_free:
  assumes "curproc s = Some c" "L_sleep l \<notin> held s" "\<not> sl_locked (slocks s l)"
  shows "acquiresleep l s =
    Ret () (upd_slock l (\<lambda>k. k\<lparr>sl_locked := True, sl_pid := p_pid (ptable s ! c)\<rparr>) s)"
  using assms
  by (simp add: acquiresleep_def acquiresleep_loop_def bindK_def acquire_def release_def with_myproc_def upd_slock_def)

lemma acquiresleep_taken:
  assumes "curproc s = Some c" "held s = {}" "sl_locked (slocks s l)" "c < length (ptable s)"
  shows "acquiresleep l s =
    Swtch (upd_proc c (\<lambda>p. p\<lparr>p_chan := Some (ChanSlock l), p_state := SLEEPING\<rparr>) (s\<lparr>held := {L_ptable}\<rparr>))"
proof -
  let ?t = "s\<lparr>held := {L_sleep l}\<rparr>"
  have "sleep (ChanSlock l) (L_sleep l) ?t =
      Swtch (upd_proc c (\<lambda>p. p\<lparr>p_chan := Some (ChanSlock l), p_state := SLEEPING\<rparr>) (?t\<lparr>held := {L_ptable}\<rparr>))"
    by (rule sleep_run) (use assms in simp_all)
  then show ?thesis
    using assms by (simp add: acquiresleep_def acquiresleep_loop_def bindK_def acquire_def)
qed

lemma releasesleep_run:
  assumes "L_sleep l \<notin> held s" "L_ptable \<notin> held s"
  shows "releasesleep l s = Ret () (woken (ChanSlock l) (upd_slock l (\<lambda>k. k\<lparr>sl_locked := False, sl_pid := 0\<rparr>) s))"
  using assms
  by (simp add: releasesleep_def bindK_def acquire_def release_def wakeup_run woken_def upd_slock_def)

lemma holdingsleep_run:
  assumes "curproc s = Some c" "L_sleep l \<notin> held s"
  shows "holdingsleep l s = Ret (sl_locked (slocks s l) \<and> sl_pid (slocks s l) = p_pid (ptable s ! c)) s"
  using assms
  by (simp add: holdingsleep_def bindK_def acquire_def release_def with_myproc_def)

end
