(* ===== verification/Bio_Ring.thy ===== *)
theory Bio_Ring
  imports Bio Sleeplock_Props
begin

text \<open>
  The doubly linked list of the buffer cache. \<open>path f a xs z\<close>: following \<open>f\<close> from \<open>a\<close> leads through
  \<open>xs\<close> to \<open>z\<close>. \<open>ring bs xs\<close>: the list holds the buffers \<open>xs\<close>, each once, the most recently used one
  first, and the links agree in both directions. The searches of \<open>bget\<close> end and find the first
  buffer of the list, from either end; \<open>brelse\<close> moves a buffer to the front.
\<close>

fun path :: "(nat \<Rightarrow> nat) \<Rightarrow> nat \<Rightarrow> nat list \<Rightarrow> nat \<Rightarrow> bool" where
  "path f a [] z \<longleftrightarrow> f a = z"
| "path f a (x # xs) z \<longleftrightarrow> f a = x \<and> path f x xs z"

definition nexts :: "buf list \<Rightarrow> nat \<Rightarrow> nat" where
  "nexts bs i = b_next (bs ! i)"

definition prevs :: "buf list \<Rightarrow> nat \<Rightarrow> nat" where
  "prevs bs i = b_prev (bs ! i)"

definition ring :: "buf list \<Rightarrow> nat list \<Rightarrow> bool" where
  "ring bs xs \<longleftrightarrow> length bs = 31 \<and> distinct xs \<and> set xs = {0..<30} \<and>
     path (nexts bs) 30 xs 30 \<and> path (prevs bs) 30 (rev xs) 30"

section \<open>Paths\<close>

lemma path_append: "path f a (xs @ y # ys) z \<longleftrightarrow> path f a xs y \<and> path f y ys z"
  by (induction xs arbitrary: a) auto

lemma path_first: "path f a xs z \<Longrightarrow> f a = hd (xs @ [z])"
  by (cases xs) auto

lemma path_cong: "f a = g b \<Longrightarrow> (\<And>x. x \<in> set xs \<Longrightarrow> f x = g x) \<Longrightarrow> path f a xs z \<longleftrightarrow> path g b xs z"
proof (induction xs arbitrary: a b)
  case (Cons x xs)
  then have "path f x xs z = path g x xs z" by (intro Cons.IH) simp_all
  with Cons.prems(1) show ?case by simp
qed simp

lemma path_other: "u \<notin> set (a # xs) \<Longrightarrow> path (f(u := v)) a xs z \<longleftrightarrow> path f a xs z"
  by (rule path_cong) auto

lemma path_delete:
  "path f a (us @ b # vs) z \<Longrightarrow> distinct (a # us @ b # vs) \<Longrightarrow> path (f(last (a # us) := f b)) a (us @ vs) z"
proof (induction us arbitrary: a)
  case Nil
  then have "f a = b" "path f b vs z" by simp_all
  from Nil.prems(2) have "path (f(a := f b)) a vs z \<longleftrightarrow> path f b vs z"
    by (intro path_cong) auto
  with \<open>path f b vs z\<close> show ?case by (simp only: last_ConsL append_Nil)
next
  case (Cons u us)
  define l where "l = last (u # us)"
  have "path (f(l := f b)) u (us @ vs) z"
    unfolding l_def by (rule Cons.IH) (use Cons.prems in auto)
  moreover have "l \<in> set (u # us)" unfolding l_def by (rule last_in_set) simp
  then have "a \<noteq> l" using Cons.prems(2) by auto
  moreover have "last (a # u # us) = l" by (simp add: l_def)
  ultimately show ?case using Cons.prems(1) by (simp del: last.simps fun_upd_apply add: fun_upd_other)
qed

lemma path_insert_first:
  assumes "path f a xs z" "b \<notin> set (a # xs)" "a \<notin> set xs"
  shows "path (f(b := f a, a := b)) a (b # xs) z"
proof -
  have "path (f(b := f a, a := b)) b xs z \<longleftrightarrow> path f a xs z"
    by (rule path_cong) (use assms in auto)
  with assms show ?thesis by (simp del: fun_upd_apply add: fun_upd_same)
qed

lemma path_insert_last:
  "path f a xs z \<Longrightarrow> b \<notin> set (a # xs) \<Longrightarrow> distinct (a # xs) \<Longrightarrow> path (f(b := z, last (a # xs) := b)) a (xs @ [b]) z"
proof (induction xs arbitrary: a)
  case Nil
  then show ?case by simp
next
  case (Cons x xs)
  define l where "l = last (x # xs)"
  have "path (f(b := z, l := b)) x (xs @ [b]) z"
    unfolding l_def by (rule Cons.IH) (use Cons.prems in auto)
  moreover have "l \<in> set (x # xs)" unfolding l_def by (rule last_in_set) simp
  then have "a \<noteq> l" using Cons.prems(3) by auto
  moreover have "last (a # x # xs) = l" by (simp add: l_def)
  ultimately show ?case using Cons.prems by (simp del: last.simps fun_upd_apply add: fun_upd_other)
qed

section \<open>Searches\<close>

lemma find_buf_path:
  "path (\<lambda>i. nxt (bs ! i)) a xs 30 \<Longrightarrow> 30 \<notin> set xs \<Longrightarrow> length xs < n \<Longrightarrow>
     find_buf n nxt P bs (nxt (bs ! a)) = Some (find (\<lambda>i. P (bs ! i)) xs)"
proof (induction xs arbitrary: a n)
  case Nil
  then show ?case by (cases n) simp_all
next
  case (Cons x xs)
  then obtain k where "n = Suc k" by (cases n) auto
  with Cons show ?case by auto
qed

lemma ring_length: "ring bs xs \<Longrightarrow> length xs = 30"
  unfolding ring_def by (metis card_atLeastLessThan diff_zero distinct_card)

lemma find_buf_next: "ring bs xs \<Longrightarrow> find_buf (30 + 1) b_next P bs (b_next (bs ! 30)) = Some (find (\<lambda>i. P (bs ! i)) xs)"
  by (rule find_buf_path) (auto simp: ring_def nexts_def [abs_def] ring_length)

lemma find_buf_prev: "ring bs xs \<Longrightarrow> find_buf (30 + 1) b_prev P bs (b_prev (bs ! 30)) = Some (find (\<lambda>i. P (bs ! i)) (rev xs))"
  by (rule find_buf_path) (auto simp: ring_def prevs_def [abs_def] ring_length)

section \<open>Links\<close>

text \<open>An update of the list of buffers that keeps the links of every entry.\<close>

definition same_links :: "buf list \<Rightarrow> buf list \<Rightarrow> bool" where
  "same_links bs cs \<longleftrightarrow> length cs = length bs \<and> (\<forall>i < length bs. b_next (cs ! i) = b_next (bs ! i) \<and> b_prev (cs ! i) = b_prev (bs ! i))"

lemma ring_same_links: "same_links bs cs \<Longrightarrow> ring bs xs \<Longrightarrow> ring cs xs"
proof -
  assume l: "same_links bs cs" and r: "ring bs xs"
  from r have "length bs = 31" "set xs = {0..<30}" by (simp_all add: ring_def)
  with l have "nexts cs i = nexts bs i" "prevs cs i = prevs bs i" if "i \<in> set (30 # xs)" for i
    using that by (auto simp: same_links_def nexts_def prevs_def)
  then have "path (nexts cs) 30 xs 30 = path (nexts bs) 30 xs 30" "path (prevs cs) 30 (rev xs) 30 = path (prevs bs) 30 (rev xs) 30"
    by (intro path_cong; simp)+
  with l r show ?thesis by (simp add: ring_def same_links_def)
qed

lemma same_links_update:
  "b_next (f (bs ! i)) = b_next (bs ! i) \<Longrightarrow> b_prev (f (bs ! i)) = b_prev (bs ! i) \<Longrightarrow> same_links bs (bs[i := f (bs ! i)])"
  unfolding same_links_def by (cases "i < length bs") (auto simp: nth_list_update list_update_beyond)

lemma nexts_update: "i < length bs \<Longrightarrow> nexts (bs[i := b]) = (nexts bs)(i := b_next b)"
  by (rule ext) (simp add: nexts_def nth_list_update)

lemma prevs_update: "i < length bs \<Longrightarrow> prevs (bs[i := b]) = (prevs bs)(i := b_prev b)"
  by (rule ext) (simp add: prevs_def nth_list_update)

text \<open>The list of buffers after \<open>unlink_buf b\<close> and \<open>link_head b\<close>.\<close>

definition to_front :: "nat \<Rightarrow> buf list \<Rightarrow> buf list" where
  "to_front b bs =
     (let n = b_next (bs ! b); p = b_prev (bs ! b);
          bs1 = bs[n := (bs ! n)\<lparr>b_prev := p\<rparr>];
          bs2 = bs1[p := (bs1 ! p)\<lparr>b_next := n\<rparr>];
          f = b_next (bs2 ! 30);
          bs3 = bs2[b := (bs2 ! b)\<lparr>b_next := f, b_prev := 30\<rparr>];
          bs4 = bs3[f := (bs3 ! f)\<lparr>b_prev := b\<rparr>]
      in bs4[30 := (bs4 ! 30)\<lparr>b_next := b\<rparr>])"

lemma last_Cons_rev: "last (a # rev xs) = hd (xs @ [a])"
  by (cases xs) simp_all

lemma ring_neighbours:
  assumes "ring bs (us @ b # vs)"
  shows "b_next (bs ! b) = hd (vs @ [30])" "b_prev (bs ! b) = hd (rev us @ [30])"
  using assms path_first [of "nexts bs" b vs 30] path_first [of "prevs bs" b "rev us" 30]
  by (simp_all add: ring_def path_append nexts_def prevs_def)

lemma hd_in_range: "set xs \<subseteq> {0..<30} \<Longrightarrow> hd (xs @ [30]) < (31 :: nat)"
  by (cases xs) auto

text \<open>The links that \<open>to_front\<close> writes.\<close>

lemma to_front_links:
  assumes r: "ring bs (us @ b # vs)"
  defines "n \<equiv> hd (vs @ [30])" and "p \<equiv> hd (rev us @ [30])"
  defines "N2 \<equiv> (nexts bs)(p := n)"
  shows "nexts (to_front b bs) = N2(b := N2 30, 30 := b)"
    "prevs (to_front b bs) = (prevs bs)(n := p, b := 30, N2 30 := b)" "length (to_front b bs) = 31"
proof -
  from r have len: "length bs = 31" and s: "set (us @ b # vs) = {0..<30}" and d: "distinct (us @ b # vs)"
    by (simp_all only: ring_def)
  have "b \<in> {0..<30}" unfolding s [symmetric] by simp
  then have b: "b < 30" "b < 31" by simp_all
  have "set vs \<subseteq> {0..<30}" "set (rev us) \<subseteq> {0..<30}" using s by auto
  then have np: "n < 31" "p < 31" unfolding n_def p_def by (blast intro: hd_in_range)+
  from r have "path (nexts bs) 30 us b" by (simp add: ring_def path_append)
  have "N2 30 < 31"
  proof (cases "p = 30")
    case True
    then show ?thesis using np by (simp add: N2_def)
  next
    case False
    then have "N2 30 = nexts bs 30" by (simp add: N2_def)
    also have "\<dots> = hd (us @ [b])" using \<open>path (nexts bs) 30 us b\<close> by (rule path_first)
    finally have "N2 30 \<in> set (us @ b # vs)" by (cases us) auto
    then show ?thesis unfolding s by simp
  qed
  note nb = ring_neighbours [OF r, folded n_def p_def]
  define bs1 where "bs1 = bs[n := (bs ! n)\<lparr>b_prev := p\<rparr>]"
  define bs2 where "bs2 = bs1[p := (bs1 ! p)\<lparr>b_next := n\<rparr>]"
  define bs3 where "bs3 = bs2[b := (bs2 ! b)\<lparr>b_next := N2 30, b_prev := 30\<rparr>]"
  define bs4 where "bs4 = bs3[N2 30 := (bs3 ! (N2 30))\<lparr>b_prev := b\<rparr>]"
  have l: "length bs1 = 31" "length bs2 = 31" "length bs3 = 31" "length bs4 = 31"
    by (simp_all add: bs1_def bs2_def bs3_def bs4_def len)
  have 1: "nexts bs1 = nexts bs" "prevs bs1 = (prevs bs)(n := p)"
    using np len by (simp_all add: bs1_def nexts_update prevs_update fun_upd_idem_iff) (simp add: nexts_def)
  have 2: "nexts bs2 = N2" "prevs bs2 = prevs bs1"
    using np l 1(1) by (simp_all add: bs2_def nexts_update prevs_update fun_upd_idem_iff N2_def) (simp add: prevs_def)
  have 3: "nexts bs3 = N2(b := N2 30)" "prevs bs3 = (prevs bs1)(b := 30)"
    using b l 2 by (simp_all add: bs3_def nexts_update prevs_update)
  have 4: "nexts bs4 = nexts bs3" "prevs bs4 = (prevs bs3)(N2 30 := b)"
    using \<open>N2 30 < 31\<close> l by (simp_all add: bs4_def nexts_update prevs_update fun_upd_idem_iff) (simp add: nexts_def)
  have f: "b_next (bs2 ! 30) = N2 30" using 2(1) by (simp add: nexts_def fun_eq_iff)
  have tf: "to_front b bs = bs4[30 := (bs4 ! 30)\<lparr>b_next := b\<rparr>]"
    by (simp add: to_front_def Let_def nb bs1_def [symmetric] bs2_def [symmetric] f bs3_def [symmetric] bs4_def [symmetric])
  show "length (to_front b bs) = 31" by (simp add: tf l)
  show "nexts (to_front b bs) = N2(b := N2 30, 30 := b)"
    using l by (simp add: tf nexts_update 4 3)
  show "prevs (to_front b bs) = (prevs bs)(n := p, b := 30, N2 30 := b)"
    using l by (simp add: tf prevs_update fun_upd_idem_iff) (simp add: prevs_def fun_upd_idem_iff flip: 4 3 1)
qed

lemma ring_to_front:
  assumes r: "ring bs (us @ b # vs)"
  shows "ring (to_front b bs) (b # us @ vs)"
proof -
  let ?n = "hd (vs @ [30])" and ?p = "hd (rev us @ [30])"
  let ?N2 = "(nexts bs)(?p := ?n)"
  from r have d: "distinct (us @ b # vs)" "set (us @ b # vs) = {0..<30}"
    and pn: "path (nexts bs) 30 (us @ b # vs) 30" and pp: "path (prevs bs) 30 (rev vs @ b # rev us) 30"
    by (simp_all add: ring_def)
  have ne: "30 \<notin> set (us @ b # vs)" unfolding d(2) by simp
  have nb: "nexts bs b = ?n" "prevs bs b = ?p" using ring_neighbours [OF r] by (simp_all add: nexts_def prevs_def)
  have l1: "last (30 # us) = ?p" using last_Cons_rev [of 30 "rev us"] by simp
  have N2: "path ?N2 30 (us @ vs) 30"
    using path_delete [OF pn] d(1) ne unfolding l1 nb(1) by simp
  have 1: "path (?N2(b := ?N2 30, 30 := b)) 30 (b # us @ vs) 30"
    by (rule path_insert_first [OF N2]) (use d(1) ne in auto)
  have l2: "last (30 # rev vs) = ?n" by (rule last_Cons_rev)
  have P2: "path ((prevs bs)(?n := ?p)) 30 (rev vs @ rev us) 30"
    using path_delete [OF pp] d(1) ne unfolding l2 nb(2) by auto
  have f: "last (30 # rev vs @ rev us) = ?N2 30"
    using last_Cons_rev [of 30 "us @ vs"] path_first [OF N2] by simp
  have "path ((prevs bs)(?n := ?p, b := 30, last (30 # rev vs @ rev us) := b)) 30 ((rev vs @ rev us) @ [b]) 30"
    by (rule path_insert_last [OF P2]) (use d(1) ne in auto)
  then have 2: "path ((prevs bs)(?n := ?p, b := 30, ?N2 30 := b)) 30 (rev (b # us @ vs)) 30"
    unfolding f by simp
  show ?thesis
    unfolding ring_def to_front_links(1,2) [OF r] using to_front_links(3) [OF r] 1 2 d by auto
qed

text \<open>Apart from its links every buffer stays the same.\<close>

definition core :: "buf \<Rightarrow> buf" where
  "core p = p\<lparr>b_prev := 0, b_next := 0\<rparr>"

definition same_core :: "buf list \<Rightarrow> buf list \<Rightarrow> bool" where
  "same_core bs cs \<longleftrightarrow> map core cs = map core bs"

lemma same_core_length: "same_core bs cs \<Longrightarrow> length cs = length bs"
  unfolding same_core_def by (rule map_eq_imp_length_eq)

lemma core_eqD:
  assumes "core q = core p"
  shows "b_valid q = b_valid p" "b_dirty q = b_dirty p" "b_dev q = b_dev p"
    "b_blockno q = b_blockno p" "b_refcnt q = b_refcnt p" "b_data q = b_data p"
  using assms by (cases p; cases q; simp add: core_def)+

lemma same_core_nth: "same_core bs cs \<Longrightarrow> i < length bs \<Longrightarrow> core (cs ! i) = core (bs ! i)"
  by (metis same_core_def same_core_length nth_map)

lemmas same_coreD = core_eqD [OF same_core_nth]

lemma same_core_refl: "same_core bs bs"
  by (simp add: same_core_def)

lemma same_core_trans: "same_core bs cs \<Longrightarrow> same_core cs ds \<Longrightarrow> same_core bs ds"
  by (simp add: same_core_def)

lemma same_core_update: "core q = core (bs ! i) \<Longrightarrow> same_core bs (bs[i := q])"
  unfolding same_core_def by (rule map_list_update_same)

lemma same_core_link:
  "same_core bs (bs[i := (bs ! i)\<lparr>b_prev := x\<rparr>])" "same_core bs (bs[i := (bs ! i)\<lparr>b_next := y\<rparr>])"
  "same_core bs (bs[i := (bs ! i)\<lparr>b_next := y, b_prev := x\<rparr>])"
  by (rule same_core_update, simp add: core_def)+

lemma same_core_to_front: "same_core bs (to_front b bs)"
  unfolding to_front_def Let_def by (intro same_core_trans [OF _ same_core_link(1)] same_core_trans [OF _ same_core_link(2)]
    same_core_trans [OF _ same_core_link(3)] same_core_refl)

lemma nth_link_fields:
  "b_next (bs[i := (bs ! i)\<lparr>b_prev := x\<rparr>] ! k) = b_next (bs ! k)"
  "b_prev (bs[i := (bs ! i)\<lparr>b_prev := b_prev (bs ! k)\<rparr>] ! k) = b_prev (bs ! k)"
  by (cases "i < length bs"; simp add: nth_list_update list_update_beyond)+

lemma unlink_buf_run:
  "unlink_buf b s =
     (let n = b_next (bufs s ! b); p = b_prev (bufs s ! b); bs1 = (bufs s)[n := (bufs s ! n)\<lparr>b_prev := p\<rparr>]
      in Ret () (s\<lparr>bufs := bs1[p := (bs1 ! p)\<lparr>b_next := n\<rparr>]\<rparr>))"
  by (simp add: unlink_buf_def bindK_def upd_buf_def Let_def nth_link_fields)

lemma link_head_run:
  "b \<noteq> 30 \<Longrightarrow> link_head b s =
     (let f = b_next (bufs s ! 30); bs3 = (bufs s)[b := (bufs s ! b)\<lparr>b_next := f, b_prev := 30\<rparr>];
          bs4 = bs3[f := (bs3 ! f)\<lparr>b_prev := b\<rparr>]
      in Ret () (s\<lparr>bufs := bs4[30 := (bs4 ! 30)\<lparr>b_next := b\<rparr>]\<rparr>))"
proof -
  assume "b \<noteq> 30"
  moreover have "(bufs s)[b := (bufs s ! b)\<lparr>b_next := f\<rparr>, b := ((bufs s)[b := (bufs s ! b)\<lparr>b_next := f\<rparr>] ! b)\<lparr>b_prev := 30\<rparr>] =
      (bufs s)[b := (bufs s ! b)\<lparr>b_next := f, b_prev := 30\<rparr>]" for f
    by (cases "b < length (bufs s)") (simp_all add: list_update_beyond)
  ultimately show ?thesis
    by (simp add: link_head_def bindK_def upd_buf_def Let_def)
qed

lemma move_to_front_run:
  "b \<noteq> 30 \<Longrightarrow> bindK (unlink_buf b) (\<lambda>_. link_head b) s = Ret () (s\<lparr>bufs := to_front b (bufs s)\<rparr>)"
  by (simp add: bindK_def unlink_buf_run link_head_run to_front_def Let_def)

end
