(* ===== verification/Bio_Props.thy ===== *)
theory Bio_Props
  imports Bio_Ring
begin

text \<open>
  The contract of the buffer cache for the process that runs in the file system. \<open>bio_ok c s\<close> is the
  invariant: process \<open>c\<close> runs, no spin lock is held, the list is a ring, there is at most one buffer
  for a block, and the data of a clean buffer that nobody uses are those on the disk. Nobody but \<open>c\<close>
  uses a buffer: with the memory disk no operation of the cache waits, so another process never
  stops while it holds one.

  \<open>bview s n\<close> is what a reader finds in block \<open>n\<close>, \<open>bdirty s\<close> are the blocks that are modified and not
  yet written, \<open>blocked s\<close> the buffers in use. \<open>bread\<close>, \<open>bwrite\<close> and \<open>brelse\<close> are described by what they
  do to these three and to the disk.
\<close>

section \<open>The invariant\<close>

definition buf_ok :: "(u32 \<Rightarrow> byte list) \<Rightarrow> int \<Rightarrow> sleeplock \<Rightarrow> buf \<Rightarrow> bool" where
  "buf_ok d pid l q \<longleftrightarrow> length (b_data q) = BSIZE \<and> (b_dirty q \<longrightarrow> b_valid q) \<and> (b_valid q \<longrightarrow> b_dev q = 1) \<and>
     (b_valid q \<and> \<not> b_dirty q \<and> \<not> sl_locked l \<longrightarrow> b_data q = d (b_blockno q)) \<and>
     b_refcnt q = (if sl_locked l then 1 else 0) \<and> (sl_locked l \<longrightarrow> sl_pid l = pid \<and> b_valid q)"

definition uniq :: "buf list \<Rightarrow> bool" where
  "uniq bs \<longleftrightarrow> (\<forall>i < 30. \<forall>j < 30. b_dev (bs ! i) = 1 \<longrightarrow> b_dev (bs ! j) = 1 \<longrightarrow>
     b_blockno (bs ! i) = b_blockno (bs ! j) \<longrightarrow> i = j)"

definition bio_ok :: "nat \<Rightarrow> 'z kbio_scheme \<Rightarrow> bool" where
  "bio_ok c s \<longleftrightarrow> held s = {} \<and> curproc s = Some c \<and> c < length (ptable s) \<and> (\<exists>xs. ring (bufs s) xs) \<and>
     (\<forall>n. length (disk s n) = BSIZE) \<and> uniq (bufs s) \<and>
     (\<forall>i < 30. buf_ok (disk s) (p_pid (ptable s ! c)) (slocks s (BufLock i)) (bufs s ! i))"

definition bview :: "'z kbio_scheme \<Rightarrow> u32 \<Rightarrow> byte list" where
  "bview s n = (case find_idx (\<lambda>p. b_valid p \<and> b_blockno p = n) (take 30 (bufs s)) of
     Some i \<Rightarrow> b_data (bufs s ! i) | None \<Rightarrow> disk s n)"

definition bdirty :: "'z kbio_scheme \<Rightarrow> u32 set" where
  "bdirty s = {b_blockno (bufs s ! i) | i. i < 30 \<and> b_dirty (bufs s ! i)}"

definition blocked :: "'z kbio_scheme \<Rightarrow> nat set" where
  "blocked s = {i. i < 30 \<and> sl_locked (slocks s (BufLock i))}"

text \<open>What the cache may change besides: wake-ups and its own locks.\<close>

definition bframe :: "'z kbio_scheme \<Rightarrow> 'z kbio_scheme \<Rightarrow> bool" where
  "bframe s t \<longleftrightarrow> (\<exists>ps sl bs d h. t = s\<lparr>ptable := ps, slocks := sl, bufs := bs, disk := d, disk_hist := h\<rparr> \<and>
     ptable_wk (ptable s) ps \<and> (\<forall>i. sl (InodeLock i) = slocks s (InodeLock i)))"

lemma bframeI:
  "t = s\<lparr>ptable := ps, slocks := sl, bufs := bs, disk := d, disk_hist := h\<rparr> \<Longrightarrow> ptable_wk (ptable s) ps \<Longrightarrow>
     (\<And>i. sl (InodeLock i) = slocks s (InodeLock i)) \<Longrightarrow> bframe s t"
  unfolding bframe_def by blast

lemma bframe_refl: "bframe s s"
  by (rule bframeI [where ps = "ptable s" and sl = "slocks s" and bs = "bufs s" and d = "disk s" and h = "disk_hist s"]) simp_all

lemma bframe_trans:
  assumes "bframe s t" "bframe t u"
  shows "bframe s u"
proof -
  from assms(1) obtain ps sl bs d h where t: "t = s\<lparr>ptable := ps, slocks := sl, bufs := bs, disk := d, disk_hist := h\<rparr>"
    "ptable_wk (ptable s) ps" "\<And>i. sl (InodeLock i) = slocks s (InodeLock i)"
    unfolding bframe_def by blast
  from assms(2) obtain ps' sl' bs' d' h' where u: "u = t\<lparr>ptable := ps', slocks := sl', bufs := bs', disk := d', disk_hist := h'\<rparr>"
    "ptable_wk (ptable t) ps'" "\<And>i. sl' (InodeLock i) = slocks t (InodeLock i)"
    unfolding bframe_def by blast
  show ?thesis
    by (rule bframeI [where ps = ps' and sl = sl' and bs = bs' and d = d' and h = h']) (use t u in \<open>auto intro: ptable_wk_trans\<close>)
qed

lemma bio_okD:
  assumes "bio_ok c s"
  shows "held s = {}" "curproc s = Some c" "c < length (ptable s)" "\<exists>xs. ring (bufs s) xs" "length (disk s n) = 512"
    "uniq (bufs s)" "i < 30 \<Longrightarrow> buf_ok (disk s) (p_pid (ptable s ! c)) (slocks s (BufLock i)) (bufs s ! i)"
    "length (bufs s) = 31"
  using assms by (auto simp: bio_ok_def ring_def)

lemma buf_okD:
  assumes "buf_ok d pid l q"
  shows "length (b_data q) = 512" "b_dirty q \<Longrightarrow> b_valid q" "b_valid q \<Longrightarrow> b_dev q = 1"
    "b_valid q \<Longrightarrow> \<not> b_dirty q \<Longrightarrow> \<not> sl_locked l \<Longrightarrow> b_data q = d (b_blockno q)"
    "b_refcnt q = (if sl_locked l then 1 else 0)" "sl_locked l \<Longrightarrow> sl_pid l = pid" "sl_locked l \<Longrightarrow> b_valid q"
  using assms by (auto simp: buf_ok_def)

lemma uniqD: "uniq bs \<Longrightarrow> i < 30 \<Longrightarrow> j < 30 \<Longrightarrow> b_dev (bs ! i) = 1 \<Longrightarrow> b_dev (bs ! j) = 1 \<Longrightarrow>
    b_blockno (bs ! i) = b_blockno (bs ! j) \<Longrightarrow> i = j"
  unfolding uniq_def by blast

section \<open>What a reader finds\<close>

lemma bview_valid:
  assumes ok: "bio_ok c s" and i: "i < 30" "b_valid (bufs s ! i)"
  shows "bview s (b_blockno (bufs s ! i)) = b_data (bufs s ! i)"
proof -
  let ?P = "\<lambda>p. b_valid p \<and> b_blockno p = b_blockno (bufs s ! i)"
  have len: "length (bufs s) = 31" by (rule bio_okD [OF ok])
  have "find_idx ?P (take 30 (bufs s)) = Some i"
  proof (rule find_idx_SomeI)
    fix j assume "j < i"
    show "\<not> ?P (take 30 (bufs s) ! j)"
    proof
      assume "?P (take 30 (bufs s) ! j)"
      with \<open>j < i\<close> i have P: "?P (bufs s ! j)" "j < 30" by simp_all
      then have "b_dev (bufs s ! j) = 1" "b_dev (bufs s ! i) = 1"
        using buf_okD(3) [OF bio_okD(7) [OF ok]] i by auto
      with uniqD [OF bio_okD(6) [OF ok] P(2) i(1)] P \<open>j < i\<close> show False by simp
    qed
  qed (use i len in simp_all)
  then show ?thesis by (simp add: bview_def)
qed

lemma bview_invalid:
  assumes ok: "bio_ok c s" and "\<And>i. i < 30 \<Longrightarrow> b_valid (bufs s ! i) \<Longrightarrow> b_blockno (bufs s ! i) \<noteq> n"
  shows "bview s n = disk s n"
proof -
  have "find_idx (\<lambda>p. b_valid p \<and> b_blockno p = n) (take 30 (bufs s)) = None"
    using bio_okD(8) [OF ok] by (auto simp: find_idx_None_iff in_set_conv_nth) (metis assms(2))
  then show ?thesis by (simp add: bview_def)
qed

lemma bview_eqI:
  assumes ok: "bio_ok c s" and v: "\<And>i. i < 30 \<Longrightarrow> b_valid (bufs s ! i) \<Longrightarrow> b_data (bufs s ! i) = V (b_blockno (bufs s ! i))"
    and d: "\<And>n. (\<And>i. i < 30 \<Longrightarrow> b_valid (bufs s ! i) \<Longrightarrow> b_blockno (bufs s ! i) \<noteq> n) \<Longrightarrow> disk s n = V n"
  shows "bview s = V"
proof
  fix n
  show "bview s n = V n"
  proof (cases "\<exists>i < 30. b_valid (bufs s ! i) \<and> b_blockno (bufs s ! i) = n")
    case True
    then obtain i where "i < 30" "b_valid (bufs s ! i)" "b_blockno (bufs s ! i) = n" by blast
    with bview_valid [OF ok, of i] v [of i] show ?thesis by simp
  next
    case False
    then have "disk s n = V n" using d by blast
    moreover have "bview s n = disk s n" using False by (intro bview_invalid [OF ok]) blast
    ultimately show ?thesis by simp
  qed
qed

lemma length_bview: "bio_ok c s \<Longrightarrow> length (bview s n) = 512"
  by (cases "\<exists>i < 30. b_valid (bufs s ! i) \<and> b_blockno (bufs s ! i) = n")
     (metis bview_valid bio_okD(7) buf_okD(1), metis bview_invalid bio_okD(5))

text \<open>A block that is not dirty and not in use is on the disk as the reader finds it.\<close>

lemma bview_clean:
  assumes ok: "bio_ok c s" and n: "n \<notin> bdirty s" "\<And>i. i \<in> blocked s \<Longrightarrow> b_blockno (bufs s ! i) \<noteq> n"
  shows "bview s n = disk s n"
proof (cases "\<exists>i < 30. b_valid (bufs s ! i) \<and> b_blockno (bufs s ! i) = n")
  case True
  then obtain i where i: "i < 30" "b_valid (bufs s ! i)" "b_blockno (bufs s ! i) = n" by blast
  with n have "\<not> b_dirty (bufs s ! i)" "\<not> sl_locked (slocks s (BufLock i))"
    by (auto simp: bdirty_def blocked_def)
  with i bview_valid [OF ok i(1,2)] buf_okD(4) [OF bio_okD(7) [OF ok i(1)]] show ?thesis by simp
next
  case False
  then show ?thesis by (intro bview_invalid [OF ok]) blast
qed

section \<open>Changing one buffer\<close>

lemma bio_ok_set:
  assumes ok: "bio_ok c s" and b: "b < 30" and links: "b_next q = b_next (bufs s ! b)" "b_prev q = b_prev (bufs s ! b)"
    and q: "buf_ok d (p_pid (ptable s ! c)) l q"
    and u: "\<And>j. j < 30 \<Longrightarrow> j \<noteq> b \<Longrightarrow> b_dev (bufs s ! j) = 1 \<Longrightarrow> b_dev q = 1 \<Longrightarrow> b_blockno (bufs s ! j) \<noteq> b_blockno q"
    and d: "d = disk s \<or> b_dev q = 1 \<and> (\<exists>x. length x = 512 \<and> d = (disk s)(b_blockno q := x))"
    and wk: "ptable_wk (ptable s) ps"
  shows "bio_ok c (s\<lparr>ptable := ps, slocks := (slocks s)(BufLock b := l), bufs := (bufs s)[b := q], disk := d, disk_hist := h\<rparr>)"
    (is "bio_ok c ?t")
proof -
  note B = bio_okD [OF ok]
  have bs: "(bufs s)[b := q] ! i = (if i = b then q else bufs s ! i)" if "i < 30" for i
    using B(8) b by (simp add: nth_list_update)
  have pid: "p_pid (ptable ?t ! c) = p_pid (ptable s ! c)" "c < length (ptable ?t)"
    using ptable_wk_fields(1) [OF wk B(3)] ptable_wk_length [OF wk] B(3) by simp_all
  from B(4) obtain xs where "ring (bufs s) xs" by blast
  moreover have "same_links (bufs s) (bufs ?t)"
    using same_links_update [of "\<lambda>_. q" "bufs s" b] links by simp
  ultimately have "\<exists>xs. ring (bufs ?t) xs" using ring_same_links by blast
  moreover have "length (disk ?t m) = 512" for m using d B(5) by auto
  moreover have "uniq (bufs ?t)"
    unfolding uniq_def
  proof (intro allI impI)
    fix i j
    assume "i < 30" "j < 30" "b_dev (bufs ?t ! i) = 1" "b_dev (bufs ?t ! j) = 1" "b_blockno (bufs ?t ! i) = b_blockno (bufs ?t ! j)"
    then show "i = j"
      using u [of i] u [of j] uniqD [OF B(6), of i j] by (cases "i = b"; cases "j = b") (simp_all add: bs)
  qed
  moreover have "buf_ok (disk ?t) (p_pid (ptable ?t ! c)) (slocks ?t (BufLock i)) (bufs ?t ! i)" if i: "i < 30" for i
  proof (cases "i = b")
    case True
    with q i pid show ?thesis by (simp add: bs)
  next
    case False
    note bi = B(7) [OF i]
    have "b_valid (bufs s ! i) \<Longrightarrow> d (b_blockno (bufs s ! i)) = disk s (b_blockno (bufs s ! i))"
      using d u [OF i False] buf_okD(3) [OF bi] by auto
    with bi False i pid show ?thesis by (auto simp: bs buf_ok_def)
  qed
  ultimately show ?thesis using B pid unfolding bio_ok_def by simp
qed

text \<open>The views after such a change, with the contents of the disk as a reader sees them.\<close>

lemma bview_set:
  assumes ok: "bio_ok c s" and b: "b < 30"
    and t: "bio_ok c t" "bufs t = (bufs s)[b := q]" "\<And>m. m \<noteq> b_blockno q \<Longrightarrow> disk t m = disk s m"
    and q: "b_valid q" and old: "b_blockno (bufs s ! b) = b_blockno q \<or> \<not> b_dirty (bufs s ! b) \<and> b \<notin> blocked s"
  shows "bview t = (bview s)(b_blockno q := b_data q)"
proof (rule bview_eqI [OF t(1)])
  note B = bio_okD [OF ok] and T = bio_okD [OF t(1)]
  have bs: "bufs t ! i = (if i = b then q else bufs s ! i)" if "i < 30" for i
    using B(8) b by (simp add: t(2) nth_list_update)
  have qdev: "b_dev q = 1" using buf_okD(3) [OF T(7) [OF b]] q b by (simp add: bs)
  fix i assume i: "i < 30" "b_valid (bufs t ! i)"
  show "b_data (bufs t ! i) = ((bview s)(b_blockno q := b_data q)) (b_blockno (bufs t ! i))"
  proof (cases "i = b")
    case True
    with i b show ?thesis by (simp add: bs)
  next
    case False
    with i have v: "b_valid (bufs s ! i)" "b_dev (bufs s ! i) = 1" using buf_okD(3) [OF B(7) [OF i(1)]] by (simp_all add: bs)
    have "b_blockno (bufs t ! i) \<noteq> b_blockno (bufs t ! b)"
      using uniqD [OF T(6) i(1) b] False v qdev b i(1) by (auto simp: bs)
    with False i b bview_valid [OF ok i(1) v(1)] show ?thesis by (simp add: bs)
  qed
next
  note B = bio_okD [OF ok]
  have bs: "bufs t ! i = (if i = b then q else bufs s ! i)" if "i < 30" for i
    using B(8) b by (simp add: t(2) nth_list_update)
  fix n assume n: "\<And>i. i < 30 \<Longrightarrow> b_valid (bufs t ! i) \<Longrightarrow> b_blockno (bufs t ! i) \<noteq> n"
  from n [OF b] q b have nq: "b_blockno q \<noteq> n" by (simp add: bs)
  have "bview s n = disk s n"
  proof (cases "b_valid (bufs s ! b) \<and> b_blockno (bufs s ! b) = n")
    case True
    with old nq have "\<not> b_dirty (bufs s ! b)" "\<not> sl_locked (slocks s (BufLock b))" using b by (auto simp: blocked_def)
    with True bview_valid [OF ok b] buf_okD(4) [OF B(7) [OF b]] show ?thesis by simp
  next
    case False
    show ?thesis
    proof (rule bview_invalid [OF ok])
      fix i assume "i < 30" "b_valid (bufs s ! i)"
      with False n [of i] show "b_blockno (bufs s ! i) \<noteq> n" by (cases "i = b") (auto simp: bs)
    qed
  qed
  with nq t(3) [of n] show "disk t n = ((bview s)(b_blockno q := b_data q)) n" by simp
qed

section \<open>bget and bread\<close>

definition lock_of :: "nat \<Rightarrow> 'z kproc_scheme \<Rightarrow> sleeplock \<Rightarrow> sleeplock" where
  "lock_of c s l = l\<lparr>sl_locked := True, sl_pid := p_pid (ptable s ! c)\<rparr>"

lemma upd_buf_simps [simp]:
  "held (upd_buf b f s) = held s" "curproc (upd_buf b f s) = curproc s" "ptable (upd_buf b f s) = ptable s"
  "slocks (upd_buf b f s) = slocks s" "bufs (upd_buf b f s) = (bufs s)[b := f (bufs s ! b)]" "disk (upd_buf b f s) = disk s"
  "disksize (upd_buf b f s) = disksize s" "disk_hist (upd_buf b f s) = disk_hist s"
  by (simp_all add: upd_buf_def)

text \<open>A buffer for block \<open>n\<close> can be had: it is cached and not in use, or some buffer can be recycled.\<close>

definition room :: "'z kbio_scheme \<Rightarrow> u32 \<Rightarrow> bool" where
  "room s n \<longleftrightarrow> (\<forall>i < 30. b_dev (bufs s ! i) = 1 \<and> b_blockno (bufs s ! i) = n \<longrightarrow> i \<notin> blocked s) \<and>
     (\<exists>i < 30. b_dev (bufs s ! i) = 1 \<and> b_blockno (bufs s ! i) = n \<or> i \<notin> blocked s \<and> \<not> b_dirty (bufs s ! i))"

lemma bget_run:
  assumes ok: "bio_ok c s" and room: "room s n"
  obtains (hit) b where "b < 30" "b_dev (bufs s ! b) = 1" "b_blockno (bufs s ! b) = n" "b \<notin> blocked s"
      "bget 1 n s = Ret b (upd_slock (BufLock b) (lock_of c s) (upd_buf b (\<lambda>p. p\<lparr>b_refcnt := b_refcnt p + 1\<rparr>) s))"
  | (miss) b where "b < 30" "\<And>i. i < 30 \<Longrightarrow> b_dev (bufs s ! i) = 1 \<Longrightarrow> b_blockno (bufs s ! i) \<noteq> n" "b \<notin> blocked s" "\<not> b_dirty (bufs s ! b)"
      "bget 1 n s = Ret b (upd_slock (BufLock b) (lock_of c s) (upd_buf b (\<lambda>p. p\<lparr>b_dev := 1, b_blockno := n,
         b_valid := False, b_dirty := False, b_refcnt := 1\<rparr>) s))"
proof -
  note B = bio_okD [OF ok]
  obtain xs where r: "ring (bufs s) xs" using B(4) by blast
  then have xs: "set xs = {0..<30}" by (simp add: ring_def)
  let ?P = "\<lambda>p. b_dev p = 1 \<and> b_blockno p = n" and ?Q = "\<lambda>p. b_refcnt p = 0 \<and> \<not> b_dirty p"
  have f1: "find_buf (Suc 30) b_next ?P (bufs s) (b_next (bufs s ! 30)) = Some (find (\<lambda>i. ?P (bufs s ! i)) xs)"
    using find_buf_next [OF r, of ?P] by simp
  have f2: "find_buf (Suc 30) b_prev ?Q (bufs s) (b_prev (bufs s ! 30)) = Some (find (\<lambda>i. ?Q (bufs s ! i)) (rev xs))"
    using find_buf_prev [OF r, of ?Q] by simp
  have acq: "acquiresleep (BufLock b) t = Ret () (upd_slock (BufLock b) (lock_of c t) t)"
    if "held t = {}" "curproc t = Some c" "b \<notin> blocked s" "b < 30" "slocks t = slocks s" for b and t :: "'a kbio_scheme"
    using acquiresleep_free [of t c "BufLock b"] that by (simp add: blocked_def lock_of_def [abs_def])
  show thesis
  proof (cases "find (\<lambda>i. ?P (bufs s ! i)) xs")
    case (Some b)
    then have b: "b \<in> set xs" "?P (bufs s ! b)" by (auto simp: find_Some_iff)
    then have "b < 30" using xs by auto
    moreover have "b \<notin> blocked s" using room b \<open>b < 30\<close> by (auto simp: room_def)
    moreover have "bget 1 n s = Ret b (upd_slock (BufLock b) (lock_of c s) (upd_buf b (\<lambda>p. p\<lparr>b_refcnt := b_refcnt p + 1\<rparr>) s))"
      using Some f1 B(1,2) \<open>b < 30\<close> \<open>b \<notin> blocked s\<close>
      by (simp add: bget_def bindK_def acquire_def release_def acq lock_of_def [abs_def] upd_buf_def upd_slock_def del: find_buf.simps)
    ultimately show thesis using hit b by blast
  next
    case None
    then have no: "\<And>i. i < 30 \<Longrightarrow> b_dev (bufs s ! i) = 1 \<Longrightarrow> b_blockno (bufs s ! i) \<noteq> n"
      using xs by (auto simp: find_None_iff)
    then obtain i where i: "i < 30" "i \<notin> blocked s" "\<not> b_dirty (bufs s ! i)" using room by (auto simp: room_def)
    then have "?Q (bufs s ! i)" using buf_okD(5) [OF B(7) [OF i(1)]] by (simp add: blocked_def)
    moreover have "i \<in> set (rev xs)" using i xs by simp
    ultimately obtain b where b: "find (\<lambda>i. ?Q (bufs s ! i)) (rev xs) = Some b"
      by (cases "find (\<lambda>i. ?Q (bufs s ! i)) (rev xs)") (auto simp: find_None_iff)
    then have "b \<in> set (rev xs)" and q: "?Q (bufs s ! b)" by (auto simp: find_Some_iff) (metis nth_mem rev_nth set_rev length_rev)
    then have "b < 30" using xs by simp
    moreover have "b \<notin> blocked s" using buf_okD(5) [OF B(7) [OF \<open>b < 30\<close>]] q by (auto simp: blocked_def)
    moreover have "bget 1 n s = Ret b (upd_slock (BufLock b) (lock_of c s) (upd_buf b (\<lambda>p. p\<lparr>b_dev := 1, b_blockno := n,
         b_valid := False, b_dirty := False, b_refcnt := 1\<rparr>) s))"
      using None f1 f2 b B(1,2) \<open>b < 30\<close> \<open>b \<notin> blocked s\<close>
      by (simp add: bget_def bindK_def acquire_def release_def acq lock_of_def [abs_def] upd_buf_def upd_slock_def del: find_buf.simps)
    ultimately show thesis using miss no q by blast
  qed
qed

text \<open>
  \<open>bread\<close> in one step: one buffer and its lock change. The buffer holds what a reader finds in the block.
\<close>

lemma iderw_read:
  assumes "held s = {}" "curproc s = Some c" "sl_locked (slocks s (BufLock b))" "sl_pid (slocks s (BufLock b)) = p_pid (ptable s ! c)"
    "\<not> b_valid (bufs s ! b)" "\<not> b_dirty (bufs s ! b)" "b_dev (bufs s ! b) = 1" "b_blockno (bufs s ! b) < disksize s" "b < length (bufs s)"
  shows "iderw b s = Ret () (upd_buf b (\<lambda>q. q\<lparr>b_data := disk s (b_blockno q), b_valid := True\<rparr>) s)"
  using assms by (simp add: iderw_def bindK_def holdingsleep_run upd_buf_def not_le)

lemma bread_run:
  assumes ok: "bio_ok c s" and room: "room s n" and n: "n < disksize s"
  obtains b q where "b < 30" "b \<notin> blocked s" "b_blockno (bufs s ! b) = n \<or> \<not> b_dirty (bufs s ! b)"
    "b_dirty q = (b_dirty (bufs s ! b) \<and> b_blockno (bufs s ! b) = n)"
    "b_dev q = 1" "b_blockno q = n" "b_valid q" "b_data q = bview s n" "b_refcnt q = 1"
    "b_next q = b_next (bufs s ! b)" "b_prev q = b_prev (bufs s ! b)"
    "\<And>j. j < 30 \<Longrightarrow> j \<noteq> b \<Longrightarrow> b_dev (bufs s ! j) = 1 \<Longrightarrow> b_blockno (bufs s ! j) \<noteq> n"
    "bread 1 n s = Ret b (s\<lparr>slocks := (slocks s)(BufLock b := lock_of c s (slocks s (BufLock b))), bufs := (bufs s)[b := q]\<rparr>)"
proof -
  note B = bio_okD [OF ok]
  from ok room show thesis
  proof (cases rule: bget_run)
    case (hit b)
    let ?p = "bufs s ! b" and ?t = "upd_slock (BufLock b) (lock_of c s) (upd_buf b (\<lambda>p. p\<lparr>b_refcnt := b_refcnt p + 1\<rparr>) s)"
    note bb = buf_okD [OF B(7) [OF hit(1)]]
    let ?q = "?p\<lparr>b_refcnt := 1, b_data := bview s n, b_valid := True\<rparr>"
    have ref: "b_refcnt ?p = 0" using bb(5) hit(1,4) by (simp add: blocked_def)
    have other: "b_blockno (bufs s ! j) \<noteq> n" if "j < 30" "j \<noteq> b" "b_dev (bufs s ! j) = 1" for j
      using uniqD [OF B(6) that(1) hit(1)] that hit(2,3) by auto
    have view: "bview s n = (if b_valid ?p then b_data ?p else disk s n)"
    proof (cases "b_valid ?p")
      case True
      with bview_valid [OF ok hit(1)] hit(3) show ?thesis by simp
    next
      case False
      have "bview s n = disk s n"
        by (rule bview_invalid [OF ok]) (metis False other bio_okD(7) buf_okD(3) ok)
      with False show ?thesis by simp
    qed
    have run: "bread 1 n s = Ret b (s\<lparr>slocks := (slocks s)(BufLock b := lock_of c s (slocks s (BufLock b))), bufs := (bufs s)[b := ?q]\<rparr>)"
    proof (cases "b_valid ?p")
      case True
      have "?p\<lparr>b_refcnt := 1\<rparr> = ?q" using True view by simp
      with True hit B(8) ref show ?thesis by (simp add: bread_def bindK_def upd_buf_def upd_slock_def)
    next
      case False
      then have "\<not> b_dirty ?p" using bb(2) by blast
      with False have "iderw b ?t = Ret () (upd_buf b (\<lambda>q. q\<lparr>b_data := disk ?t (b_blockno q), b_valid := True\<rparr>) ?t)"
        by (intro iderw_read) (use B hit n in \<open>simp_all add: upd_slock_def lock_of_def\<close>)
      with False hit B(8) ref view show ?thesis by (simp add: bread_def bindK_def upd_buf_def upd_slock_def)
    qed
    show thesis by (rule that [OF hit(1,4) _ _ _ _ _ _ _ _ _ other run]) (use hit bb in simp_all)
  next
    case (miss b)
    let ?p = "bufs s ! b"
    let ?t = "upd_slock (BufLock b) (lock_of c s) (upd_buf b (\<lambda>p. p\<lparr>b_dev := 1, b_blockno := n,
         b_valid := False, b_dirty := False, b_refcnt := 1\<rparr>) s)"
    let ?q = "?p\<lparr>b_dev := 1, b_blockno := n, b_dirty := False, b_refcnt := 1, b_data := bview s n, b_valid := True\<rparr>"
    have view: "bview s n = disk s n"
      by (rule bview_invalid [OF ok]) (metis miss(2) bio_okD(7) buf_okD(3) ok)
    have "iderw b ?t = Ret () (upd_buf b (\<lambda>q. q\<lparr>b_data := disk ?t (b_blockno q), b_valid := True\<rparr>) ?t)"
      by (rule iderw_read) (use B miss n in \<open>simp_all add: upd_slock_def lock_of_def\<close>)
    with miss B(8) view
    have run: "bread 1 n s = Ret b (s\<lparr>slocks := (slocks s)(BufLock b := lock_of c s (slocks s (BufLock b))), bufs := (bufs s)[b := ?q]\<rparr>)"
      by (simp add: bread_def bindK_def upd_buf_def upd_slock_def)
    show thesis by (rule that [OF miss(1,3) _ _ _ _ _ _ _ _ _ _ run]) (use miss in simp_all)
  qed
qed

end
