(* ===== verification/Bio_Spec.thy ===== *)
theory Bio_Spec
  imports Bio_Props
begin

text \<open>
  The abstract block store and the refinement. An \<open>acache\<close> has no buffers, no list and no locks: which
  handles are in use and for which block, the contents a reader finds, the set of modified blocks, the
  disk and the history of the writes to it. \<open>cabs\<close> abstracts the buffer cache to it; \<open>bread\<close>, \<open>bwrite\<close>,
  \<open>brelse\<close> and a change of the data of a buffer in use are the operations \<open>ac_read\<close>, \<open>ac_write\<close>, \<open>ac_rel\<close>
  and \<open>ac_set\<close>. The locale \<open>block_store\<close> is this contract, with what its clients do over and over:
  read a block, replace a block, copy one block over another.
\<close>

record acache =
  ac_use :: "nat \<Rightarrow> u32 option"
  ac_view :: "u32 \<Rightarrow> byte list"
  ac_dirty :: "u32 set"
  ac_disk :: "u32 \<Rightarrow> byte list"
  ac_hist :: "(u32 \<times> byte list) list"

definition cabs :: "'z kbio_scheme \<Rightarrow> acache" where
  "cabs s = \<lparr>ac_use = (\<lambda>i. if i \<in> blocked s then Some (b_blockno (bufs s ! i)) else None), ac_view = bview s,
     ac_dirty = bdirty s, ac_disk = disk s, ac_hist = disk_hist s\<rparr>"

definition ac_read :: "nat \<Rightarrow> u32 \<Rightarrow> acache \<Rightarrow> acache" where
  "ac_read b n A = A\<lparr>ac_use := (ac_use A)(b \<mapsto> n)\<rparr>"

definition ac_set :: "u32 \<Rightarrow> byte list \<Rightarrow> acache \<Rightarrow> acache" where
  "ac_set n x A = A\<lparr>ac_view := (ac_view A)(n := x)\<rparr>"

definition ac_mark :: "u32 \<Rightarrow> acache \<Rightarrow> acache" where
  "ac_mark n A = A\<lparr>ac_dirty := insert n (ac_dirty A)\<rparr>"

definition ac_write :: "u32 \<Rightarrow> acache \<Rightarrow> acache" where
  "ac_write n A = A\<lparr>ac_dirty := ac_dirty A - {n}, ac_disk := (ac_disk A)(n := ac_view A n),
     ac_hist := ac_hist A @ [(n, ac_view A n)]\<rparr>"

definition ac_rel :: "nat \<Rightarrow> acache \<Rightarrow> acache" where
  "ac_rel b A = A\<lparr>ac_use := (ac_use A)(b := None)\<rparr>"

text \<open>A handle for block \<open>n\<close> can be had.\<close>

definition ac_room :: "acache \<Rightarrow> u32 \<Rightarrow> bool" where
  "ac_room A n \<longleftrightarrow> n \<notin> ran (ac_use A) \<and> (n \<in> ac_dirty A \<or> card (ac_dirty A \<union> ran (ac_use A)) < 30)"

lemmas ac_defs = ac_read_def ac_set_def ac_mark_def ac_write_def ac_rel_def

section \<open>The cache implements it\<close>

lemma cabs_simps [simp]:
  "ac_view (cabs s) = bview s" "ac_dirty (cabs s) = bdirty s" "ac_disk (cabs s) = disk s" "ac_hist (cabs s) = disk_hist s"
  "ac_use (cabs s) i = (if i \<in> blocked s then Some (b_blockno (bufs s ! i)) else None)"
  by (simp_all add: cabs_def)

lemma finite_bdirty [simp]: "finite (bdirty s)"
proof -
  have "bdirty s \<subseteq> (\<lambda>i. b_blockno (bufs s ! i)) ` {..<30}" by (auto simp: bdirty_def)
  then show ?thesis using finite_surj by blast
qed

lemma blocked_less: "i \<in> blocked s \<Longrightarrow> i < 30"
  by (simp add: blocked_def)

lemma ran_use: "ran (ac_use (cabs s)) = (\<lambda>i. b_blockno (bufs s ! i)) ` blocked s"
  by (auto simp: ran_def)

lemma room_of_ac_room:
  assumes ok: "bio_ok c s" and r: "ac_room (cabs s) n"
  shows "room s n"
proof -
  note B = bio_okD [OF ok]
  let ?busy = "{i. i < 30 \<and> (b_dirty (bufs s ! i) \<or> i \<in> blocked s)}"
  have "inj_on (\<lambda>i. b_blockno (bufs s ! i)) ?busy"
  proof (rule inj_onI)
    fix i j assume *: "i \<in> ?busy" "j \<in> ?busy" "b_blockno (bufs s ! i) = b_blockno (bufs s ! j)"
    have "b_dev (bufs s ! k) = 1" if "k \<in> ?busy" for k
      using that buf_okD(2,3,7) [OF B(7), of k] by (auto simp: blocked_def)
    with * uniqD [OF B(6)] show "i = j" by blast
  qed
  moreover have "(\<lambda>i. b_blockno (bufs s ! i)) ` ?busy = ac_dirty (cabs s) \<union> ran (ac_use (cabs s))"
    by (auto simp: ran_use bdirty_def blocked_def)
  ultimately have card: "card (ac_dirty (cabs s) \<union> ran (ac_use (cabs s))) = card ?busy" using card_image by fastforce
  have free: "i \<notin> blocked s" if "b_blockno (bufs s ! i) = n" for i
    using r that by (auto simp: ac_room_def ran_use)
  show ?thesis
  proof (cases "n \<in> bdirty s")
    case True
    then obtain i where "i < 30" "b_blockno (bufs s ! i) = n" "b_dev (bufs s ! i) = 1"
      using buf_okD(2,3) [OF B(7)] by (auto simp: bdirty_def)
    with free show ?thesis unfolding room_def by blast
  next
    case False
    then have "card ?busy < 30" using r card by (simp add: ac_room_def)
    then have "?busy \<noteq> {..<30}" by (metis card_lessThan less_irrefl)
    then obtain i where "i < 30" "i \<notin> blocked s" "\<not> b_dirty (bufs s ! i)" by blast
    with free show ?thesis unfolding room_def by blast
  qed
qed

lemma cabs_set:
  assumes ok: "bio_ok c s" and b: "b < 30" and t: "bio_ok c t"
    and eq: "slocks t = (slocks s)(BufLock b := l)" "bufs t = (bufs s)[b := q]"
    and d: "\<And>m. m \<noteq> b_blockno q \<Longrightarrow> disk t m = disk s m"
    and q: "b_valid q" and old: "b_blockno (bufs s ! b) = b_blockno q \<or> \<not> b_dirty (bufs s ! b) \<and> b \<notin> blocked s"
  shows "cabs t = \<lparr>ac_use = (ac_use (cabs s))(b := if sl_locked l then Some (b_blockno q) else None),
     ac_view = (bview s)(b_blockno q := b_data q),
     ac_dirty = (if b_dirty q then insert (b_blockno q) (bdirty s) else bdirty s - {b_blockno q}),
     ac_disk = disk t, ac_hist = disk_hist t\<rparr>"
proof -
  note B = bio_okD [OF ok] and T = bio_okD [OF t]
  have bs: "bufs t ! i = (if i = b then q else bufs s ! i)" if "i < 30" for i
    using B(8) b by (simp add: eq nth_list_update)
  have bt: "blocked t = (if sl_locked l then insert b (blocked s) else blocked s - {b})"
    using b by (auto simp: blocked_def eq)
  have use: "ac_use (cabs t) = (ac_use (cabs s))(b := if sl_locked l then Some (b_blockno q) else None)"
    using b by (intro ext) (auto simp: bt bs blocked_less)
  have qd: "b_dev q = 1" using buf_okD(3) [OF T(7) [OF b]] q b by (simp add: bs)
  have ne: "b_blockno (bufs s ! i) \<noteq> b_blockno q" if "i < 30" "i \<noteq> b" "b_dirty (bufs s ! i)" for i
  proof -
    have "b_dev (bufs s ! i) = 1" using buf_okD(2,3) [OF B(7) [OF that(1)]] that(3) by blast
    with uniqD [OF T(6) that(1) b] that b qd show ?thesis by (auto simp: bs)
  qed
  have "bdirty t = (if b_dirty q then insert (b_blockno q) (bdirty s) else bdirty s - {b_blockno q})" (is "_ = ?D")
  proof (intro set_eqI iffI)
    fix m assume "m \<in> bdirty t"
    then obtain i where "i < 30" "b_dirty (bufs t ! i)" "m = b_blockno (bufs t ! i)" by (auto simp: bdirty_def)
    then show "m \<in> ?D" using ne [of i] by (cases "i = b") (auto simp: bs bdirty_def)
  next
    fix m assume "m \<in> ?D"
    then consider "b_dirty q" "m = b_blockno q" | "m \<in> bdirty s" "m \<noteq> b_blockno q" by (auto split: if_splits)
    then show "m \<in> bdirty t"
    proof cases
      case 1
      with b show ?thesis unfolding bdirty_def by (intro CollectI exI [of _ b]) (simp add: bs)
    next
      case 2
      then obtain i where "i < 30" "b_dirty (bufs s ! i)" "m = b_blockno (bufs s ! i)" by (auto simp: bdirty_def)
      with 2 old show ?thesis unfolding bdirty_def by (intro CollectI exI [of _ i]) (auto simp: bs)
    qed
  qed
  with use bview_set [OF ok b t eq(2) d q old] show ?thesis
    by (intro acache.equality) simp_all
qed

text \<open>The data of a handle are the contents of its block.\<close>

lemma cabs_data:
  "bio_ok c s \<Longrightarrow> ac_use (cabs s) b = Some n \<Longrightarrow> b_data (bufs s ! b) = bview s n \<and> b_blockno (bufs s ! b) = n"
  using bview_valid [of c s b] buf_okD(7) [OF bio_okD(7), of c s b] by (auto simp: blocked_def split: if_splits)

theorem bread_refines:
  assumes ok: "bio_ok c s" and r: "ac_room (cabs s) n" and n: "n < disksize s"
  obtains b t where "bread 1 n s = Ret b t" "bio_ok c t" "bframe s t" "ac_use (cabs s) b = None" "cabs t = ac_read b n (cabs s)"
proof -
  note B = bio_okD [OF ok]
  obtain b q where bq: "b < 30" "b \<notin> blocked s"
    "b_blockno (bufs s ! b) = n \<or> \<not> b_dirty (bufs s ! b)"
    "b_dirty q = (b_dirty (bufs s ! b) \<and> b_blockno (bufs s ! b) = n)"
    "b_dev q = 1" "b_blockno q = n" "b_valid q" "b_data q = bview s n" "b_refcnt q = 1"
    "b_next q = b_next (bufs s ! b)" "b_prev q = b_prev (bufs s ! b)"
    "\<And>j. j < 30 \<Longrightarrow> j \<noteq> b \<Longrightarrow> b_dev (bufs s ! j) = 1 \<Longrightarrow> b_blockno (bufs s ! j) \<noteq> n"
    "bread 1 n s = Ret b (s\<lparr>slocks := (slocks s)(BufLock b := lock_of c s (slocks s (BufLock b))), bufs := (bufs s)[b := q]\<rparr>)"
    by (rule bread_run [OF ok room_of_ac_room [OF ok r] n]) blast
  let ?l = "lock_of c s (slocks s (BufLock b))"
  let ?t = "s\<lparr>slocks := (slocks s)(BufLock b := ?l), bufs := (bufs s)[b := q]\<rparr>"
  have "bio_ok c (s\<lparr>ptable := ptable s, slocks := (slocks s)(BufLock b := ?l), bufs := (bufs s)[b := q], disk := disk s, disk_hist := disk_hist s\<rparr>)"
    by (rule bio_ok_set [OF ok bq(1,10,11)]) (use bq length_bview [OF ok] in \<open>auto simp: buf_ok_def lock_of_def\<close>)
  then have t: "bio_ok c ?t" by simp
  have "b_dirty q \<longleftrightarrow> n \<in> bdirty s"
  proof
    assume "n \<in> bdirty s"
    then obtain i where i: "i < 30" "b_dirty (bufs s ! i)" "b_blockno (bufs s ! i) = n" by (auto simp: bdirty_def)
    then have "b_dev (bufs s ! i) = 1" using buf_okD(2,3) [OF B(7)] by blast
    with i bq(12) [of i] bq(4) show "b_dirty q" by blast
  qed (use bq in \<open>auto simp: bdirty_def intro!: exI [of _ b]\<close>)
  then have "cabs ?t = ac_read b n (cabs s)"
    by (subst cabs_set [OF ok bq(1) t, of ?l q])
       (use bq in \<open>auto simp: ac_read_def lock_of_def intro!: acache.equality\<close>)
  moreover have "bframe s ?t"
    by (rule bframeI [where ps = "ptable s" and sl = "slocks ?t" and bs = "bufs ?t" and d = "disk s" and h = "disk_hist s"]) simp_all
  ultimately show thesis using that [OF bq(13) t] bq(2) by simp
qed


text \<open>A buffer in use.\<close>

lemma in_useD:
  assumes ok: "bio_ok c s" and b: "ac_use (cabs s) b = Some n"
  shows "b < 30" "b \<in> blocked s" "sl_locked (slocks s (BufLock b))" "sl_pid (slocks s (BufLock b)) = p_pid (ptable s ! c)"
    "b_valid (bufs s ! b)" "b_dev (bufs s ! b) = 1" "b_blockno (bufs s ! b) = n" "b_data (bufs s ! b) = bview s n"
    "b_refcnt (bufs s ! b) = 1" "b_dirty (bufs s ! b) \<longleftrightarrow> n \<in> bdirty s"
proof -
  note B = bio_okD [OF ok]
  show 1: "b \<in> blocked s" "b < 30" using b by (auto simp: blocked_def split: if_splits)
  note bb = buf_okD [OF B(7) [OF 1(2)]]
  show l: "sl_locked (slocks s (BufLock b))" using 1 by (simp add: blocked_def)
  then show "sl_pid (slocks s (BufLock b)) = p_pid (ptable s ! c)" "b_valid (bufs s ! b)" "b_refcnt (bufs s ! b) = 1" using bb by simp_all
  then show dev: "b_dev (bufs s ! b) = 1" using bb by simp
  show n: "b_blockno (bufs s ! b) = n" "b_data (bufs s ! b) = bview s n" using cabs_data [OF ok b] by simp_all
  show "b_dirty (bufs s ! b) \<longleftrightarrow> n \<in> bdirty s"
  proof
    assume "n \<in> bdirty s"
    then obtain i where i: "i < 30" "b_dirty (bufs s ! i)" "b_blockno (bufs s ! i) = n" by (auto simp: bdirty_def)
    then have "b_dev (bufs s ! i) = 1" using buf_okD(2,3) [OF B(7)] by blast
    with i uniqD [OF B(6) i(1) 1(2)] dev n show "b_dirty (bufs s ! b)" by auto
  qed (use 1 n in \<open>auto simp: bdirty_def intro!: exI [of _ b]\<close>)
qed

text \<open>A change of the contents, the flags and the disk block of a buffer in use.\<close>

lemma use_set:
  fixes h :: "(u32 \<times> byte list) list"
  assumes ok: "bio_ok c s" and b: "ac_use (cabs s) b = Some n"
    and q: "q = (bufs s ! b)\<lparr>b_data := x, b_dirty := dd\<rparr>" "length x = 512"
    and d: "d = disk s \<or> (\<exists>y. length y = 512 \<and> d = (disk s)(n := y))"
  defines "t \<equiv> s\<lparr>bufs := (bufs s)[b := q], disk := d, disk_hist := h\<rparr>"
  shows "bio_ok c t" "bframe s t"
    "cabs t = (cabs s)\<lparr>ac_view := (bview s)(n := x), ac_dirty := (if dd then insert n (bdirty s) else bdirty s - {n}),
       ac_disk := d, ac_hist := h\<rparr>"
proof -
  note u = in_useD [OF ok b] and B = bio_okD [OF ok]
  let ?l = "slocks s (BufLock b)"
  have q': "b_next q = b_next (bufs s ! b)" "b_prev q = b_prev (bufs s ! b)" "b_valid q" "b_dev q = 1" "b_blockno q = n"
    "b_refcnt q = 1" "b_data q = x" "length (b_data q) = 512" "b_dirty q = dd"
    using u q by simp_all
  have "bio_ok c (s\<lparr>ptable := ptable s, slocks := (slocks s)(BufLock b := ?l), bufs := (bufs s)[b := q], disk := d, disk_hist := h\<rparr>)"
  proof (rule bio_ok_set [OF ok u(1)])
    fix j assume "j < 30" "j \<noteq> b" "b_dev (bufs s ! j) = 1" "b_dev q = 1"
    with uniqD [OF B(6) _ u(1)] u(6,7) q'(5) show "b_blockno (bufs s ! j) \<noteq> b_blockno q" by metis
  qed (use u(3,4) q' d in \<open>auto simp: buf_ok_def\<close>)
  then show t: "bio_ok c t" by (simp add: t_def)
  show "bframe s t" unfolding t_def
    by (rule bframeI [where ps = "ptable s" and sl = "slocks s" and bs = "(bufs s)[b := q]" and d = d and h = h]) simp_all
  show "cabs t = (cabs s)\<lparr>ac_view := (bview s)(n := x), ac_dirty := (if dd then insert n (bdirty s) else bdirty s - {n}),
       ac_disk := d, ac_hist := h\<rparr>"
    by (subst cabs_set [OF ok u(1) t, of ?l q]) (use u(2,3,7) q' d in \<open>auto simp: t_def intro!: acache.equality\<close>)
qed

theorem bwrite_refines:
  assumes ok: "bio_ok c s" and b: "ac_use (cabs s) b = Some n" and n: "n < disksize s"
  obtains t where "bwrite b s = Ret () t" "bio_ok c t" "bframe s t" "cabs t = ac_write n (cabs s)"
proof -
  note u = in_useD [OF ok b] and B = bio_okD [OF ok]
  let ?q = "(bufs s ! b)\<lparr>b_data := bview s n, b_dirty := False\<rparr>" and ?d = "(disk s)(n := bview s n)"
  let ?t = "s\<lparr>bufs := (bufs s)[b := ?q], disk := ?d, disk_hist := disk_hist s @ [(n, bview s n)]\<rparr>"
  have q: "(bufs s ! b)\<lparr>b_dirty := False, b_valid := True\<rparr> = ?q" using u(5) by (simp flip: u(8))
  have "bwrite b s = Ret () (s\<lparr>bufs := (bufs s)[b := (bufs s ! b)\<lparr>b_dirty := False, b_valid := True\<rparr>],
      disk := (disk s)(n := b_data (bufs s ! b)), disk_hist := disk_hist s @ [(n, b_data (bufs s ! b))]\<rparr>)"
    using u(1,3,4,6,7) n B(1,2,8) by (simp add: bwrite_def iderw_def bindK_def holdingsleep_run upd_buf_def not_le)
  then have "bwrite b s = Ret () ?t" unfolding q u(8) .
  moreover have "bio_ok c ?t" "bframe s ?t"
    by (rule use_set [OF ok b]; use length_bview [OF ok] in auto)+
  moreover have "cabs ?t = ac_write n (cabs s)"
    by (subst use_set(3) [OF ok b refl]) (use length_bview [OF ok] in \<open>auto simp: ac_write_def intro!: acache.equality\<close>)
  ultimately show thesis by (rule that)
qed

theorem set_refines:
  assumes ok: "bio_ok c s" and b: "ac_use (cabs s) b = Some n" and x: "length x = 512"
  shows "bio_ok c (upd_buf b (\<lambda>p. p\<lparr>b_data := x\<rparr>) s)" "bframe s (upd_buf b (\<lambda>p. p\<lparr>b_data := x\<rparr>) s)"
    "cabs (upd_buf b (\<lambda>p. p\<lparr>b_data := x\<rparr>) s) = ac_set n x (cabs s)"
proof -
  let ?q = "(bufs s ! b)\<lparr>b_data := x, b_dirty := b_dirty (bufs s ! b)\<rparr>"
  note T = use_set [OF ok b, where q = ?q and d = "disk s" and h = "disk_hist s", OF refl x] and u = in_useD [OF ok b]
  have eq: "upd_buf b (\<lambda>p. p\<lparr>b_data := x\<rparr>) s = s\<lparr>bufs := (bufs s)[b := ?q], disk := disk s, disk_hist := disk_hist s\<rparr>"
    by (simp add: upd_buf_def)
  show "bio_ok c (upd_buf b (\<lambda>p. p\<lparr>b_data := x\<rparr>) s)" "bframe s (upd_buf b (\<lambda>p. p\<lparr>b_data := x\<rparr>) s)"
    unfolding eq using T(1,2) by blast+
  show "cabs (upd_buf b (\<lambda>p. p\<lparr>b_data := x\<rparr>) s) = ac_set n x (cabs s)"
    unfolding eq by (subst T(3)) (use u in \<open>auto simp: ac_set_def intro!: acache.equality\<close>)
qed

theorem mark_refines:
  assumes ok: "bio_ok c s" and b: "ac_use (cabs s) b = Some n"
  shows "bio_ok c (upd_buf b (\<lambda>p. p\<lparr>b_dirty := True\<rparr>) s)" "bframe s (upd_buf b (\<lambda>p. p\<lparr>b_dirty := True\<rparr>) s)"
    "cabs (upd_buf b (\<lambda>p. p\<lparr>b_dirty := True\<rparr>) s) = ac_mark n (cabs s)"
proof -
  let ?q = "(bufs s ! b)\<lparr>b_data := bview s n, b_dirty := True\<rparr>"
  note T = use_set [OF ok b, where q = ?q and d = "disk s" and h = "disk_hist s", OF refl length_bview [OF ok]] and u = in_useD [OF ok b]
  have eq: "upd_buf b (\<lambda>p. p\<lparr>b_dirty := True\<rparr>) s = s\<lparr>bufs := (bufs s)[b := ?q], disk := disk s, disk_hist := disk_hist s\<rparr>"
    using u by (simp add: upd_buf_def flip: u(8))
  show "bio_ok c (upd_buf b (\<lambda>p. p\<lparr>b_dirty := True\<rparr>) s)" "bframe s (upd_buf b (\<lambda>p. p\<lparr>b_dirty := True\<rparr>) s)"
    unfolding eq using T(1,2) by blast+
  show "cabs (upd_buf b (\<lambda>p. p\<lparr>b_dirty := True\<rparr>) s) = ac_mark n (cabs s)"
    unfolding eq by (subst T(3)) (use u in \<open>auto simp: ac_mark_def intro!: acache.equality\<close>)
qed

text \<open>The order of the list does not show.\<close>

lemma bio_ok_relink:
  assumes ok: "bio_ok c s" and r: "ring bs xs" and same: "same_core (bufs s) bs"
  shows "bio_ok c (s\<lparr>bufs := bs\<rparr>)" "cabs (s\<lparr>bufs := bs\<rparr>) = cabs s"
proof -
  note B = bio_okD [OF ok]
  note f = same_coreD [OF same, unfolded B(8)]
  have f': "b_valid (bs ! i) = b_valid (bufs s ! i)" "b_dirty (bs ! i) = b_dirty (bufs s ! i)" "b_dev (bs ! i) = b_dev (bufs s ! i)"
    "b_blockno (bs ! i) = b_blockno (bufs s ! i)" "b_refcnt (bs ! i) = b_refcnt (bufs s ! i)" "b_data (bs ! i) = b_data (bufs s ! i)"
    if "i < 30" for i using f [of i] that by simp_all
  have "uniq bs" using B(6) by (simp add: uniq_def f')
  moreover have "buf_ok (disk s) (p_pid (ptable s ! c)) (slocks s (BufLock i)) (bs ! i)" if "i < 30" for i
    using B(7) [OF that] that by (simp add: buf_ok_def f')
  ultimately show t: "bio_ok c (s\<lparr>bufs := bs\<rparr>)" using ok r by (auto simp: bio_ok_def)
  have "bview (s\<lparr>bufs := bs\<rparr>) = bview s"
  proof (rule bview_eqI [OF t])
    fix i assume "i < 30" "b_valid (bufs (s\<lparr>bufs := bs\<rparr>) ! i)"
    then show "b_data (bufs (s\<lparr>bufs := bs\<rparr>) ! i) = bview s (b_blockno (bufs (s\<lparr>bufs := bs\<rparr>) ! i))"
      using bview_valid [OF ok, of i] by (simp add: f')
  next
    fix n assume n: "\<And>i. i < 30 \<Longrightarrow> b_valid (bufs (s\<lparr>bufs := bs\<rparr>) ! i) \<Longrightarrow> b_blockno (bufs (s\<lparr>bufs := bs\<rparr>) ! i) \<noteq> n"
    have "bview s n = disk s n" by (rule bview_invalid [OF ok]) (use n in \<open>simp add: f'\<close>)
    then show "disk (s\<lparr>bufs := bs\<rparr>) n = bview s n" by simp
  qed
  moreover have "bdirty (s\<lparr>bufs := bs\<rparr>) = bdirty s" by (auto simp: bdirty_def f') (metis f'(2,4))
  moreover have "blocked (s\<lparr>bufs := bs\<rparr>) = blocked s" by (simp add: blocked_def)
  ultimately show "cabs (s\<lparr>bufs := bs\<rparr>) = cabs s"
    by (intro acache.equality) (auto simp: f' blocked_less)
qed

lemma bio_ok_front:
  assumes ok: "bio_ok c s" and b: "b < 30"
  shows "bio_ok c (s\<lparr>bufs := to_front b (bufs s)\<rparr>)" "cabs (s\<lparr>bufs := to_front b (bufs s)\<rparr>) = cabs s"
proof -
  obtain xs where r: "ring (bufs s) xs" using bio_okD(4) [OF ok] by blast
  then have "b \<in> set xs" using b by (simp add: ring_def)
  then obtain us vs where "xs = us @ b # vs" by (meson split_list)
  with r have "ring (to_front b (bufs s)) (b # us @ vs)" by (auto intro: ring_to_front)
  from bio_ok_relink [OF ok this same_core_to_front]
  show "bio_ok c (s\<lparr>bufs := to_front b (bufs s)\<rparr>)" "cabs (s\<lparr>bufs := to_front b (bufs s)\<rparr>) = cabs s" .
qed

theorem brelse_refines:
  assumes ok: "bio_ok c s" and b: "ac_use (cabs s) b = Some n" and clean: "n \<in> bdirty s \<or> bview s n = disk s n"
  obtains t where "brelse b s = Ret () t" "bio_ok c t" "bframe s t" "cabs t = ac_rel b (cabs s)"
proof -
  note u = in_useD [OF ok b] and B = bio_okD [OF ok]
  let ?l = "(slocks s (BufLock b))\<lparr>sl_locked := False, sl_pid := 0\<rparr>" and ?q = "(bufs s ! b)\<lparr>b_refcnt := 0\<rparr>"
  let ?ps = "map (wake (Some (ChanSlock (BufLock b)))) (ptable s)"
  let ?t = "s\<lparr>ptable := ?ps, slocks := (slocks s)(BufLock b := ?l), bufs := (bufs s)[b := ?q], disk := disk s, disk_hist := disk_hist s\<rparr>"
  let ?u = "?t\<lparr>bufs := to_front b (bufs ?t)\<rparr>"
  have t: "bio_ok c ?t"
  proof (rule bio_ok_set [OF ok u(1)])
    fix j assume "j < 30" "j \<noteq> b" "b_dev (bufs s ! j) = 1" "b_dev ?q = 1"
    with uniqD [OF B(6) _ u(1)] u(6,7) show "b_blockno (bufs s ! j) \<noteq> b_blockno ?q" by auto
  qed (use u(5-10) clean length_bview [OF ok] in \<open>auto simp: buf_ok_def\<close>)
  have "cabs ?t = ac_rel b (cabs s)"
    by (subst cabs_set [OF ok u(1) t, of ?l ?q]) (use u in \<open>auto simp: ac_rel_def intro!: acache.equality\<close>)
  with bio_ok_front [OF t u(1)] have "bio_ok c ?u" "cabs ?u = ac_rel b (cabs s)" by simp_all
  moreover have "bframe s ?u"
    by (rule bframeI [where ps = ?ps and sl = "slocks ?t" and bs = "bufs ?u" and d = "disk s" and h = "disk_hist s"]) simp_all
  moreover have "brelse b s = Ret () ?u"
    using u(1,3,4,9) B(1,2,8)
    by (simp add: move_to_front_run [unfolded bindK_def] brelse_def bindK_def holdingsleep_run releasesleep_run acquire_def release_def woken_def upd_slock_def upd_buf_def)
  ultimately show thesis by (intro that)
qed

section \<open>The contract and its clients\<close>

text \<open>
  \<open>ok\<close> is the invariant, \<open>fr\<close> what the operations leave alone, \<open>blks\<close> the number of blocks, \<open>dat\<close> and \<open>put\<close>
  the data of a handle. The clients below start and end with no handle in use.
\<close>

definition idle :: "acache \<Rightarrow> bool" where
  "idle A \<longleftrightarrow> ac_use A = Map.empty"

definition synced :: "acache \<Rightarrow> bool" where
  "synced A \<longleftrightarrow> (\<forall>n. n \<notin> ac_dirty A \<longrightarrow> ac_view A n = ac_disk A n)"

locale block_store =
  fixes ok :: "'s \<Rightarrow> bool" and fr :: "'s \<Rightarrow> 's \<Rightarrow> bool" and abs :: "'s \<Rightarrow> acache" and blks :: "'s \<Rightarrow> u32"
    and rd :: "u32 \<Rightarrow> ('s, nat) kop" and wr rel :: "nat \<Rightarrow> ('s, unit) kop"
    and dat :: "nat \<Rightarrow> 's \<Rightarrow> byte list" and put :: "nat \<Rightarrow> byte list \<Rightarrow> 's \<Rightarrow> 's"
  assumes fr_refl: "fr s s" and fr_trans: "fr s t \<Longrightarrow> fr t u \<Longrightarrow> fr s u" and fr_blks: "fr s t \<Longrightarrow> blks t = blks s"
    and rd: "ok s \<Longrightarrow> ac_room (abs s) n \<Longrightarrow> n < blks s \<Longrightarrow>
      \<exists>b t. rd n s = Ret b t \<and> ok t \<and> fr s t \<and> ac_use (abs s) b = None \<and> abs t = ac_read b n (abs s)"
    and wr: "ok s \<Longrightarrow> ac_use (abs s) b = Some n \<Longrightarrow> n < blks s \<Longrightarrow>
      \<exists>t. wr b s = Ret () t \<and> ok t \<and> fr s t \<and> abs t = ac_write n (abs s)"
    and rel: "ok s \<Longrightarrow> ac_use (abs s) b = Some n \<Longrightarrow> n \<in> ac_dirty (abs s) \<or> ac_view (abs s) n = ac_disk (abs s) n \<Longrightarrow>
      \<exists>t. rel b s = Ret () t \<and> ok t \<and> fr s t \<and> abs t = ac_rel b (abs s)"
    and dat: "ok s \<Longrightarrow> ac_use (abs s) b = Some n \<Longrightarrow> dat b s = ac_view (abs s) n"
    and put: "ok s \<Longrightarrow> ac_use (abs s) b = Some n \<Longrightarrow> length x = 512 \<Longrightarrow>
      ok (put b x s) \<and> fr s (put b x s) \<and> abs (put b x s) = ac_set n x (abs s)"
    and len: "ok s \<Longrightarrow> length (ac_view (abs s) n) = 512"
begin

lemma read_block:
  assumes ok: "ok s" and i: "idle (abs s)" "synced (abs s)" "card (ac_dirty (abs s)) < 30" and n: "n < blks s"
    and R: "\<And>t. fr s t \<Longrightarrow> R t = rd n t"
  shows "\<exists>t. bindK R (\<lambda>b. bindK (getK (\<lambda>s. f (dat b s))) (\<lambda>x. bindK (rel b) (\<lambda>_. retK x))) s = Ret (f (ac_view (abs s) n)) t \<and>
    ok t \<and> fr s t \<and> abs t = abs s"
proof -
  from i have "ac_room (abs s) n" by (simp add: ac_room_def idle_def)
  then obtain b t where t: "rd n s = Ret b t" "ok t" "fr s t" "ac_use (abs s) b = None" "abs t = ac_read b n (abs s)"
    using rd [OF ok _ n] by blast
  have u: "ac_use (abs t) b = Some n" by (simp add: t ac_read_def)
  obtain v where v: "rel b t = Ret () v" "ok v" "fr t v" "abs v = ac_rel b (abs t)"
    using rel [OF t(2) u] i(2) by (auto simp: synced_def t ac_read_def)
  have "abs v = abs s" using v(4) t(4,5) by (simp add: ac_read_def ac_rel_def fun_upd_idem)
  then show ?thesis using R [OF fr_refl] t v fr_trans [OF t(3) v(3)] dat [OF t(2) u] by (simp add: bindK_def ac_read_def)
qed

text \<open>Reading a block, replacing its contents and writing it to the disk.\<close>

lemma replace_block:
  assumes ok: "ok s" and i: "idle (abs s)" "synced (abs s)" "card (ac_dirty (abs s)) < 30" and n: "n < blks s"
    and R: "\<And>t. fr s t \<Longrightarrow> R t = rd n t"
    and U: "\<And>b t. ok t \<Longrightarrow> fr s t \<Longrightarrow> ac_use (abs t) b = Some n \<Longrightarrow> U b t = Ret () (put b (f (dat b t)) t)"
    and f: "\<And>x. length x = 512 \<Longrightarrow> length (f x) = 512"
  shows "\<exists>t. bindK R (\<lambda>b. bindK (U b) (\<lambda>_. bindK (wr b) (\<lambda>_. rel b))) s = Ret () t \<and> ok t \<and> fr s t \<and>
    abs t = ac_write n (ac_set n (f (ac_view (abs s) n)) (abs s))"
proof -
  let ?x = "f (ac_view (abs s) n)"
  from i have "ac_room (abs s) n" by (simp add: ac_room_def idle_def)
  then obtain b t where t: "rd n s = Ret b t" "ok t" "fr s t" "ac_use (abs s) b = None" "abs t = ac_read b n (abs s)"
    using rd [OF ok _ n] by blast
  have u: "ac_use (abs t) b = Some n" "dat b t = ac_view (abs s) n" using dat [OF t(2)] by (simp_all add: t ac_read_def)
  note p = put [OF t(2) u(1), of ?x, OF f [OF len [OF ok]]]
  then have pu: "ac_use (abs (put b ?x t)) b = Some n" using u by (simp add: ac_set_def)
  have "n < blks (put b ?x t)" using p fr_blks t(3) n by metis
  then obtain v where v: "wr b (put b ?x t) = Ret () v" "ok v" "fr (put b ?x t) v" "abs v = ac_write n (abs (put b ?x t))"
    using wr [OF _ pu] p by blast
  have "ac_use (abs v) b = Some n" using v(4) pu by (simp add: ac_write_def)
  moreover have "ac_view (abs v) n = ac_disk (abs v) n" by (simp add: v(4) ac_write_def)
  ultimately obtain w where w: "rel b v = Ret () w" "ok w" "fr v w" "abs w = ac_rel b (abs v)"
    using rel [OF v(2)] by blast
  have "abs w = ac_write n (ac_set n ?x (abs s))" using t(4) by (simp add: w v p t ac_defs fun_upd_idem)
  moreover have "fr s w" using fr_trans t p v w by metis
  ultimately show ?thesis using R [OF fr_refl] U [OF t(2,3) u(1)] t v w u by (simp add: bindK_def)
qed

text \<open>Copying block \<open>m\<close> over block \<open>n\<close> on the disk, with the two handles taken in either order.\<close>

lemma copy_tail:
  assumes ok: "ok s" and u: "ac_use (abs s) l = Some m" "ac_use (abs s) d = Some n" "m \<noteq> n" and n: "n < blks s"
    and m: "m \<in> ac_dirty (abs s) \<or> ac_view (abs s) m = ac_disk (abs s) m"
  shows "\<exists>t. bindK (modK (\<lambda>s. put d (dat l s) s)) (\<lambda>_. bindK (wr d) (\<lambda>_. bindK (rel l) (\<lambda>_. rel d))) s = Ret () t \<and> ok t \<and> fr s t \<and>
    abs t = ac_rel d (ac_rel l (ac_write n (ac_set n (ac_view (abs s) m) (abs s))))"
proof -
  let ?x = "ac_view (abs s) m"
  note p = put [OF ok u(2) len [OF ok, of m]]
  then have pu: "ac_use (abs (put d ?x s)) d = Some n" using u by (simp add: ac_set_def)
  have "n < blks (put d ?x s)" using p fr_blks n by metis
  then obtain v where v: "wr d (put d ?x s) = Ret () v" "ok v" "fr (put d ?x s) v" "abs v = ac_write n (abs (put d ?x s))"
    using wr [OF _ pu] p by blast
  have "ac_use (abs v) l = Some m" "m \<in> ac_dirty (abs v) \<or> ac_view (abs v) m = ac_disk (abs v) m"
    using u m by (auto simp: v(4) p ac_defs)
  then obtain w where w: "rel l v = Ret () w" "ok w" "fr v w" "abs w = ac_rel l (abs v)"
    using rel [OF v(2)] by blast
  have "ac_use (abs w) d = Some n" "ac_view (abs w) n = ac_disk (abs w) n" using u by (auto simp: w(4) v(4) p ac_defs)
  then obtain z where z: "rel d w = Ret () z" "ok z" "fr w z" "abs z = ac_rel d (abs w)"
    using rel [OF w(2)] by blast
  have "fr s z" using fr_trans p v w z by metis
  then show ?thesis using v w z p dat [OF ok u(1)] by (simp add: bindK_def)
qed

lemma read_two:
  assumes ok: "ok s" and i: "idle (abs s)" and m: "ac_room (abs s) m" "m < blks s" and n: "n < blks s" "m \<noteq> n"
    and r: "n \<in> ac_dirty (abs s) \<or> card (insert m (ac_dirty (abs s))) < 30"
  obtains l t d u where "rd m s = Ret l t" "fr s t" "rd n t = Ret d u" "ok u" "fr s u"
    "abs u = (abs s)\<lparr>ac_use := [l \<mapsto> m, d \<mapsto> n]\<rparr>" "l \<noteq> d"
proof -
  from rd [OF ok m] obtain l t where t: "rd m s = Ret l t" "ok t" "fr s t" "abs t = ac_read l m (abs s)" by blast
  have "ac_room (abs t) n" using n r i by (auto simp: ac_room_def t(4) ac_read_def idle_def)
  moreover have "n < blks t" using fr_blks [OF t(3)] n by simp
  ultimately obtain d u where u: "rd n t = Ret d u" "ok u" "fr t u" "ac_use (abs t) d = None" "abs u = ac_read d n (abs t)"
    using rd [OF t(2)] by blast
  have "l \<noteq> d" using u(4) t(4) by (auto simp: ac_read_def)
  moreover have "abs u = (abs s)\<lparr>ac_use := [l \<mapsto> m, d \<mapsto> n]\<rparr>" using i by (simp add: u(5) t(4) ac_read_def idle_def)
  moreover have "fr s u" using t(3) u(3) by (rule fr_trans)
  ultimately show thesis using that t u by blast
qed

lemma copy_block:
  assumes ok: "ok s" and i: "idle (abs s)" "synced (abs s)" and m: "m < blks s" and n: "n < blks s" "m \<noteq> n"
    and R: "\<And>t. fr s t \<Longrightarrow> M t = rd m t" "\<And>t. fr s t \<Longrightarrow> N t = rd n t"
    and T: "\<And>l d. T l d = bindK (modK (\<lambda>s. put d (dat l s) s)) (\<lambda>_. bindK (wr d) (\<lambda>_. bindK (rel l) (\<lambda>_. rel d)))"
    and r: "ac_room (abs s) m" "n \<in> ac_dirty (abs s) \<or> card (insert m (ac_dirty (abs s))) < 30"
  shows "\<exists>t. bindK M (\<lambda>l. bindK N (\<lambda>d. T l d)) s = Ret () t \<and> ok t \<and> fr s t \<and>
    abs t = ac_write n (ac_set n (ac_view (abs s) m) (abs s))"
proof -
  from read_two [OF ok i(1) r(1) m n r(2)] obtain l t d u where u: "rd m s = Ret l t" "fr s t" "rd n t = Ret d u" "ok u" "fr s u"
    "abs u = (abs s)\<lparr>ac_use := [l \<mapsto> m, d \<mapsto> n]\<rparr>" "l \<noteq> d" by blast
  have "\<exists>v. T l d u = Ret () v \<and> ok v \<and> fr u v \<and> abs v = ac_rel d (ac_rel l (ac_write n (ac_set n (ac_view (abs u) m) (abs u))))"
    unfolding T by (rule copy_tail) (use u n i fr_blks [OF u(5)] in \<open>auto simp: synced_def\<close>)
  then obtain v where v: "T l d u = Ret () v" "ok v" "fr u v"
    "abs v = ac_rel d (ac_rel l (ac_write n (ac_set n (ac_view (abs u) m) (abs u))))" by blast
  have "abs v = ac_write n (ac_set n (ac_view (abs s) m) (abs s))"
    using i(1) u(7) by (simp add: v(4) u(6) ac_defs idle_def fun_upd_twist)
  with u v R(1) [OF fr_refl] R(2) [OF u(2)] fr_trans [OF u(5) v(3)] show ?thesis by (simp add: bindK_def)
qed

lemma copy_block':
  assumes ok: "ok s" and i: "idle (abs s)" "synced (abs s)" and m: "m < blks s" and n: "n < blks s" "m \<noteq> n"
    and R: "\<And>t. fr s t \<Longrightarrow> M t = rd m t" "\<And>t. fr s t \<Longrightarrow> N t = rd n t"
    and T: "\<And>l d. T l d = bindK (modK (\<lambda>s. put d (dat l s) s)) (\<lambda>_. bindK (wr d) (\<lambda>_. bindK (rel l) (\<lambda>_. rel d)))"
    and r: "ac_room (abs s) n" "m \<in> ac_dirty (abs s) \<or> card (insert n (ac_dirty (abs s))) < 30"
  shows "\<exists>t. bindK N (\<lambda>d. bindK M (\<lambda>l. T l d)) s = Ret () t \<and> ok t \<and> fr s t \<and>
    abs t = ac_write n (ac_set n (ac_view (abs s) m) (abs s))"
proof -
  from read_two [OF ok i(1) r(1) n(1) m n(2) [symmetric] r(2)] obtain d t l u where u: "rd n s = Ret d t" "fr s t" "rd m t = Ret l u"
    "ok u" "fr s u" "abs u = (abs s)\<lparr>ac_use := [d \<mapsto> n, l \<mapsto> m]\<rparr>" "d \<noteq> l" by blast
  have "\<exists>v. T l d u = Ret () v \<and> ok v \<and> fr u v \<and> abs v = ac_rel d (ac_rel l (ac_write n (ac_set n (ac_view (abs u) m) (abs u))))"
    unfolding T by (rule copy_tail) (use u n i fr_blks [OF u(5)] in \<open>auto simp: synced_def\<close>)
  then obtain v where v: "T l d u = Ret () v" "ok v" "fr u v"
    "abs v = ac_rel d (ac_rel l (ac_write n (ac_set n (ac_view (abs u) m) (abs u))))" by blast
  have "abs v = ac_write n (ac_set n (ac_view (abs s) m) (abs s))"
    using i(1) u(7) by (simp add: v(4) u(6) ac_defs idle_def fun_upd_twist)
  with u v R(2) [OF fr_refl] R(1) [OF u(2)] fr_trans [OF u(5) v(3)] show ?thesis by (simp add: bindK_def)
qed

end

text \<open>The buffer cache satisfies the contract, for the process that runs.\<close>

interpretation bc: block_store "bio_ok c" bframe cabs disksize "bread 1" bwrite brelse "\<lambda>b s. b_data (bufs s ! b)"
  "\<lambda>b x. upd_buf b (\<lambda>p. p\<lparr>b_data := x\<rparr>)" for c
proof unfold_locales
  fix s t u :: "'a kbio_scheme"
  show "bframe s s" by (rule bframe_refl)
  show "bframe s t \<Longrightarrow> bframe t u \<Longrightarrow> bframe s u" by (rule bframe_trans)
  show "bframe s t \<Longrightarrow> disksize t = disksize s" by (auto simp: bframe_def)
  assume ok: "bio_ok c s"
  show "length (ac_view (cabs s) n) = 512" for n using length_bview [OF ok] by simp
  show "ac_room (cabs s) n \<Longrightarrow> n < disksize s \<Longrightarrow>
    \<exists>b t. bread 1 n s = Ret b t \<and> bio_ok c t \<and> bframe s t \<and> ac_use (cabs s) b = None \<and> cabs t = ac_read b n (cabs s)" for n
    using bread_refines [OF ok, of n] by metis
  show "ac_use (cabs s) b = Some n \<Longrightarrow> n < disksize s \<Longrightarrow>
    \<exists>t. bwrite b s = Ret () t \<and> bio_ok c t \<and> bframe s t \<and> cabs t = ac_write n (cabs s)" for b n
    using bwrite_refines [OF ok, of b n] by metis
  show "ac_use (cabs s) b = Some n \<Longrightarrow> n \<in> ac_dirty (cabs s) \<or> ac_view (cabs s) n = ac_disk (cabs s) n \<Longrightarrow>
    \<exists>t. brelse b s = Ret () t \<and> bio_ok c t \<and> bframe s t \<and> cabs t = ac_rel b (cabs s)" for b n
    using brelse_refines [OF ok, of b n] by (metis cabs_simps(1,2,3))
  show "ac_use (cabs s) b = Some n \<Longrightarrow> b_data (bufs s ! b) = ac_view (cabs s) n" for b n
    using cabs_data [OF ok] by simp
  show "ac_use (cabs s) b = Some n \<Longrightarrow> length x = 512 \<Longrightarrow> bio_ok c (upd_buf b (\<lambda>p. p\<lparr>b_data := x\<rparr>) s) \<and>
    bframe s (upd_buf b (\<lambda>p. p\<lparr>b_data := x\<rparr>) s) \<and> cabs (upd_buf b (\<lambda>p. p\<lparr>b_data := x\<rparr>) s) = ac_set n x (cabs s)" for b n x
    using set_refines [OF ok] by blast
qed

text \<open>With no buffer in use the clean blocks are on the disk.\<close>

lemma idle_synced:
  assumes "bio_ok c s" "idle (cabs s)"
  shows "synced (cabs s)"
proof -
  have "blocked s = {}" using assms(2) by (auto simp: idle_def fun_eq_iff split: if_splits)
  then show ?thesis using bview_clean [OF assms(1)] by (auto simp: synced_def)
qed

end
