(* ===== verification/Log_Props.thy ===== *)
theory Log_Props
  imports Log Bio_Spec
begin

text \<open>
  What the log promises: a transaction is on the disk completely or not at all. The effect of \<open>commit\<close>
  and of \<open>recover_from_log\<close> on the abstract block store is a list of block writes, \<open>ac_writes W\<close>; the
  machine may stop between any two of them. \<open>commit_run\<close> and \<open>recover_run\<close> compute the list from the
  contract of the buffer cache, and \<open>crash_homes\<close> says what recovery makes of each prefix of it.
\<close>

section \<open>Lists of block writes\<close>

definition apply_writes :: "(u32 \<times> byte list) list \<Rightarrow> (u32 \<Rightarrow> byte list) \<Rightarrow> u32 \<Rightarrow> byte list" where
  "apply_writes W D = fold (\<lambda>(n, x) D. D(n := x)) W D"

definition ac_writes :: "(u32 \<times> byte list) list \<Rightarrow> acache \<Rightarrow> acache" where
  "ac_writes W A = A\<lparr>ac_view := apply_writes W (ac_view A), ac_dirty := ac_dirty A - fst ` set W,
     ac_disk := apply_writes W (ac_disk A), ac_hist := ac_hist A @ W\<rparr>"

lemma apply_writes_simps [simp]:
  "apply_writes [] D = D" "apply_writes (V @ W) D = apply_writes W (apply_writes V D)"
  "apply_writes ((n, x) # W) D = apply_writes W (D(n := x))"
  by (simp_all add: apply_writes_def)

lemma apply_writes_other: "n \<notin> fst ` set W \<Longrightarrow> apply_writes W D n = D n"
  by (induction W arbitrary: D) auto

lemma apply_writes_mem:
  assumes "(n, x) \<in> set W" "\<And>y. (n, y) \<in> set W \<Longrightarrow> y = x"
  shows "apply_writes W D n = x"
  using assms
proof (induction W rule: rev_induct)
  case (snoc w W)
  obtain m y where w: "w = (m, y)" by (cases w)
  show ?case
  proof (cases "m = n")
    case True
    then show ?thesis using snoc.prems(2) [of y] by (simp add: w)
  next
    case False
    then have "(n, x) \<in> set W" using snoc.prems(1) by (simp add: w)
    moreover have "\<And>y. (n, y) \<in> set W \<Longrightarrow> y = x" using snoc.prems(2) by simp
    ultimately have "apply_writes W D n = x" by (rule snoc.IH)
    then show ?thesis using False by (simp add: w)
  qed
qed simp

lemma ac_writes_Nil: "ac_writes [] A = A"
  by (simp add: ac_writes_def)

lemma ac_writes_snoc: "ac_write n (ac_set n x (ac_writes W A)) = ac_writes (W @ [(n, x)]) A"
  by (intro acache.equality) (auto simp: ac_writes_def ac_write_def ac_set_def)

lemma ac_writes_append: "ac_writes W (ac_writes V A) = ac_writes (V @ W) A"
  by (intro acache.equality) (auto simp: ac_writes_def)

lemma idle_ac_writes [simp]: "idle (ac_writes W A) = idle A"
  by (simp add: idle_def ac_writes_def)

section \<open>The header block\<close>

definition hdr :: "int \<Rightarrow> u32 list \<Rightarrow> byte list \<Rightarrow> byte list" where
  "hdr n block x = fold (\<lambda>i x. put_bytes (4 + 4 * i) (le32 (block ! i)) x) [0..<nat n] (put_bytes 0 (le32 (of_int n)) x)"

lemma hdr_facts:
  assumes "length x = 512" "n \<le> 30"
  shows "length (hdr n block x) = 512 \<and> get32 (hdr n block x) 0 = of_int n \<and>
    (\<forall>i < nat n. get32 (hdr n block x) (4 + 4 * i) = block ! i)"
proof -
  let ?h = "\<lambda>k. fold (\<lambda>i x. put_bytes (4 + 4 * i) (le32 (block ! i)) x) [0..<k] (put_bytes 0 (le32 (of_int n)) x)"
  have "length (?h k) = 512 \<and> get32 (?h k) 0 = of_int n \<and> (\<forall>i < k. get32 (?h k) (4 + 4 * i) = block ! i)" if "k \<le> 30" for k
    using that
  proof (induction k)
    case 0
    then show ?case using assms by (simp add: get_put)
  next
    case (Suc k)
    then have IH: "length (?h k) = 512" "get32 (?h k) 0 = of_int n" "\<forall>i < k. get32 (?h k) (4 + 4 * i) = block ! i" by auto
    have "get32 (?h (Suc k)) (4 + 4 * i) = block ! i" if "i < Suc k" for i
      using that IH Suc.prems by (cases "i = k") (simp_all add: get_put)
    then show ?case using IH Suc.prems by (simp add: get_put)
  qed
  from this [of "nat n"] show ?thesis using assms by (simp add: hdr_def)
qed

lemmas hdr_simps = hdr_facts [THEN conjunct1] hdr_facts [THEN conjunct2, THEN conjunct1]
lemmas hdr_block = hdr_facts [THEN conjunct2, THEN conjunct2, rule_format]

lemma put_head_run:
  assumes "buf < length (bufs s)"
  shows "put_head buf n block s = Ret () (upd_buf buf (\<lambda>p. p\<lparr>b_data := hdr n block (b_data (bufs s ! buf))\<rparr>) s)"
proof -
  let ?h = "\<lambda>k. fold (\<lambda>i x. put_bytes (4 + 4 * i) (le32 (block ! i)) x) [0..<k] (put_bytes 0 (le32 (of_int n)) (b_data (bufs s ! buf)))"
  let ?t = "\<lambda>k. upd_buf buf (\<lambda>p. p\<lparr>b_data := ?h k\<rparr>) s"
  have "\<exists>t. forK [0..<nat n] (\<lambda>i. modK (upd_buf buf (\<lambda>p. p\<lparr>b_data := put_bytes (4 + 4 * i) (le32 (block ! i)) (b_data p)\<rparr>))) (?t 0) = Ret () t \<and> t = ?t (nat n)"
    by (rule forK_upto) (use assms in \<open>auto simp: upd_buf_def\<close>)
  then show ?thesis by (simp add: put_head_def bindK_def hdr_def upd_buf_def)
qed

section \<open>The place of the log\<close>

text \<open>\<open>lblk s 0\<close> is the header block and \<open>lblk s (Suc i)\<close> the block for the \<open>i\<close>-th entry.\<close>

definition lblk :: "'z klog_scheme \<Rightarrow> nat \<Rightarrow> u32" where
  "lblk s k = of_int (log_start s + int k)"

definition log_geo :: "'z klog_scheme \<Rightarrow> bool" where
  "log_geo s \<longleftrightarrow> log_dev s = 1 \<and> 0 \<le> log_start s \<and> log_start s + 30 < uint (disksize s) \<and> length (lh_block s) = 30"

text \<open>The 30 blocks of the log: the header and 29 others.\<close>

definition in_log :: "'z klog_scheme \<Rightarrow> u32 \<Rightarrow> bool" where
  "in_log s n \<longleftrightarrow> (\<exists>k < 30. n = lblk s k)"

lemma uint_lblk:
  assumes "log_geo s" "k \<le> 30"
  shows "uint (lblk s k) = log_start s + int k"
proof -
  have "uint (disksize s) < 2 ^ 32" using uint_lt2p [of "disksize s"] by simp
  with assms have "0 \<le> log_start s + int k" "log_start s + int k < 2 ^ 32" by (simp_all add: log_geo_def)
  then show ?thesis by (simp add: lblk_def unsigned_of_int take_bit_int_eq_self del: of_int_add)
qed

lemma lblk_inj: "log_geo s \<Longrightarrow> i \<le> 30 \<Longrightarrow> j \<le> 30 \<Longrightarrow> lblk s i = lblk s j \<longleftrightarrow> i = j"
  by (metis uint_lblk add_left_cancel of_nat_eq_iff)

lemma lblk_less: "log_geo s \<Longrightarrow> k \<le> 30 \<Longrightarrow> lblk s k < disksize s"
  by (simp add: word_less_def uint_lblk) (simp add: log_geo_def)

lemma in_log_lblk: "k < 30 \<Longrightarrow> in_log s (lblk s k)"
  by (auto simp: in_log_def)

lemma bframe_log:
  assumes "bframe s (t :: 'z klog_scheme)"
  shows "log_start t = log_start s" "log_size t = log_size s" "log_outstanding t = log_outstanding s"
    "log_committing t = log_committing s" "log_dev t = log_dev s" "lh_n t = lh_n s" "lh_block t = lh_block s"
    "disksize t = disksize s" "lblk t = lblk s" "log_geo t = log_geo s" "in_log t = in_log s"
  using assms by (auto simp: bframe_def lblk_def log_geo_def in_log_def)

lemma log_bread_run:
  assumes "log_geo s" "bframe s t" "f t = n"
  shows "log_bread f t = bread 1 n t"
  using assms bframe_log(5) [OF assms(2)] by (simp add: log_bread_def bindK_def log_geo_def)

lemma log_reads:
  assumes "log_geo s" "bframe s t"
  shows "log_bread (\<lambda>s. of_int (log_start s)) t = bread 1 (lblk s 0) t"
    "log_bread (\<lambda>s. of_int (log_start s + int i + 1)) t = bread 1 (lblk s (Suc i)) t"
    "log_bread (\<lambda>s. lh_block s ! i) t = bread 1 (lh_block s ! i) t"
  by (rule log_bread_run [OF assms]; simp add: bframe_log [OF assms(2)] lblk_def add.assoc add.commute)+

section \<open>Copying a block to the log and back\<close>

definition ready :: "nat \<Rightarrow> 'z klog_scheme \<Rightarrow> bool" where
  "ready c s \<longleftrightarrow> bio_ok c s \<and> idle (cabs s) \<and> log_geo s \<and> card (bdirty s) < 30"

lemma install_block_run:
  assumes s: "ready c s" and i: "i < 29" and h: "lh_block s ! i < disksize s" "\<not> in_log s (lh_block s ! i)"
    and r: "lh_block s ! i \<in> bdirty s \<or> bdirty s = {}"
  shows "\<exists>t. install_block i s = Ret () t \<and> bio_ok c t \<and> bframe s t \<and>
    cabs t = ac_writes [(lh_block s ! i, bview s (lblk s (Suc i)))] (cabs s)"
proof -
  from s have ok: "bio_ok c s" and id: "idle (cabs s)" and geo: "log_geo s" and card: "card (bdirty s) < 30"
    by (auto simp: ready_def)
  have ne: "lblk s (Suc i) \<noteq> lh_block s ! i" using h(2) i in_log_lblk [of "Suc i" s] by auto
  have L: "lblk s (Suc i) < disksize s" using lblk_less [OF geo] i by simp
  have "\<exists>t. install_block i s = Ret () t \<and> bio_ok c t \<and> bframe s t \<and>
      cabs t = ac_write (lh_block s ! i) (ac_set (lh_block s ! i) (ac_view (cabs s) (lblk s (Suc i))) (cabs s))"
    unfolding install_block_def
    by (rule bc.copy_block [OF ok id idle_synced [OF ok id] L h(1) ne log_reads(2) [OF geo] log_reads(3) [OF geo]])
       (use i id card r in \<open>auto simp: copy_buf_def ac_room_def idle_def\<close>)
  then show ?thesis using ac_writes_snoc [of _ _ "[]"] by (simp add: ac_writes_Nil)
qed

lemma log_block_run:
  assumes s: "ready c s" and i: "i < 29" and h: "lh_block s ! i < disksize s" "\<not> in_log s (lh_block s ! i)"
    and r: "lh_block s ! i \<in> bdirty s"
  shows "\<exists>t. log_block i s = Ret () t \<and> bio_ok c t \<and> bframe s t \<and>
    cabs t = ac_writes [(lblk s (Suc i), bview s (lh_block s ! i))] (cabs s)"
proof -
  from s have ok: "bio_ok c s" and id: "idle (cabs s)" and geo: "log_geo s" and card: "card (bdirty s) < 30"
    by (auto simp: ready_def)
  have ne: "lh_block s ! i \<noteq> lblk s (Suc i)" using h(2) i in_log_lblk [of "Suc i" s] by auto
  have L: "lblk s (Suc i) < disksize s" using lblk_less [OF geo] i by simp
  have "\<exists>t. log_block i s = Ret () t \<and> bio_ok c t \<and> bframe s t \<and>
      cabs t = ac_write (lblk s (Suc i)) (ac_set (lblk s (Suc i)) (ac_view (cabs s) (lh_block s ! i)) (cabs s))"
    unfolding log_block_def
    by (rule bc.copy_block' [OF ok id idle_synced [OF ok id] h(1) L ne log_reads(3) [OF geo] log_reads(2) [OF geo]])
       (use i id card r in \<open>auto simp: copy_buf_def ac_room_def idle_def\<close>)
  then show ?thesis using ac_writes_snoc [of _ _ "[]"] by (simp add: ac_writes_Nil)
qed

lemma write_head_run:
  assumes s: "ready c s" and n: "lh_n s \<le> 30"
  shows "\<exists>t. write_head s = Ret () t \<and> bio_ok c t \<and> bframe s t \<and>
    cabs t = ac_writes [(lblk s 0, hdr (lh_n s) (lh_block s) (bview s (lblk s 0)))] (cabs s)"
proof -
  from s have ok: "bio_ok c s" and id: "idle (cabs s)" and geo: "log_geo s" and card: "card (bdirty s) < 30"
    by (auto simp: ready_def)
  let ?U = "\<lambda>b. bindK (getK (\<lambda>s. (lh_n s, lh_block s))) (\<lambda>(n, block). put_head b n block)"
  have w: "write_head = bindK (log_bread (\<lambda>s. of_int (log_start s))) (\<lambda>b. bindK (?U b) (\<lambda>_. bindK (bwrite b) (\<lambda>_. brelse b)))"
    by (simp add: write_head_def bindK_assoc case_prod_unfold)
  have "\<exists>t. write_head s = Ret () t \<and> bio_ok c t \<and> bframe s t \<and>
      cabs t = ac_write (lblk s 0) (ac_set (lblk s 0) (hdr (lh_n s) (lh_block s) (ac_view (cabs s) (lblk s 0))) (cabs s))"
    unfolding w
  proof (rule bc.replace_block [OF ok id idle_synced [OF ok id] _ lblk_less [OF geo] log_reads(1) [OF geo]])
    fix b t assume t: "bio_ok c t" "bframe s t" "ac_use (cabs t) b = Some (lblk s 0)"
    have "b < length (bufs t)" using in_useD(1) [OF t(1,3)] bio_okD(8) [OF t(1)] by simp
    with t(2) show "?U b t = Ret () (upd_buf b (\<lambda>p. p\<lparr>b_data := hdr (lh_n s) (lh_block s) (b_data (bufs t ! b))\<rparr>) t)"
      by (simp add: bindK_def bframe_log put_head_run)
  qed (use card n in \<open>auto simp: hdr_simps\<close>)
  then show ?thesis using ac_writes_snoc [of _ _ "[]"] by (simp add: ac_writes_Nil)
qed

section \<open>The loops\<close>

lemma readyI:
  assumes s: "ready c s" and t: "bio_ok c t" "bframe s t" "cabs t = ac_writes W (cabs s)"
  shows "ready c t" "bview t = apply_writes W (bview s)" "bdirty t = bdirty s - fst ` set W" "disk t = apply_writes W (disk s)"
    "disk_hist t = disk_hist s @ W"
proof -
  have A: "ac_view (cabs t) = ac_view (ac_writes W (cabs s))" "ac_dirty (cabs t) = ac_dirty (ac_writes W (cabs s))"
    "ac_disk (cabs t) = ac_disk (ac_writes W (cabs s))" "ac_hist (cabs t) = ac_hist (ac_writes W (cabs s))"
    unfolding t(3) by (rule refl)+
  then show d: "bview t = apply_writes W (bview s)" "bdirty t = bdirty s - fst ` set W" "disk t = apply_writes W (disk s)"
    "disk_hist t = disk_hist s @ W"
    by (simp_all add: ac_writes_def)
  have "card (bdirty t) \<le> card (bdirty s)" unfolding d(2) by (intro card_mono) auto
  moreover have "idle (cabs t)" unfolding t(3) using s by (simp add: ready_def)
  ultimately show "ready c t" using s t bframe_log(10) [OF t(2)] by (simp add: ready_def)
qed

text \<open>The entries of the log are blocks of the disk outside the log.\<close>

definition homes_ok :: "'z klog_scheme \<Rightarrow> nat \<Rightarrow> bool" where
  "homes_ok s n \<longleftrightarrow> (\<forall>i < n. lh_block s ! i < disksize s \<and> \<not> in_log s (lh_block s ! i))"

lemma write_log_run:
  assumes s: "ready c s" and n: "lh_n s \<le> 29" "homes_ok s (nat (lh_n s))" and d: "\<forall>i < nat (lh_n s). lh_block s ! i \<in> bdirty s"
  shows "\<exists>t. write_log s = Ret () t \<and> bio_ok c t \<and> bframe s t \<and>
    cabs t = ac_writes (map (\<lambda>i. (lblk s (Suc i), bview s (lh_block s ! i))) [0..<nat (lh_n s)]) (cabs s)"
proof -
  let ?W = "\<lambda>k. map (\<lambda>i. (lblk s (Suc i), bview s (lh_block s ! i))) [0..<k]"
  let ?P = "\<lambda>k t. bio_ok c t \<and> bframe s t \<and> cabs t = ac_writes (?W k) (cabs s)"
  have "\<exists>t. forK [0..<nat (lh_n s)] log_block s = Ret () t \<and> ?P (nat (lh_n s)) t"
  proof (rule forK_upto)
    show "?P 0 s" using s by (simp add: ready_def bframe_refl ac_writes_Nil)
    fix i t assume i: "i < nat (lh_n s)" and t: "?P i t"
    note T = readyI [OF s, of t "?W i"] and fr = bframe_log [of s t]
    have h: "lh_block s ! i \<notin> fst ` set (?W i)" "lh_block s ! i < disksize s" "\<not> in_log s (lh_block s ! i)"
      using n i in_log_lblk [of _ s] by (auto simp: homes_ok_def)
    then have "lh_block t ! i \<in> bdirty t" "bview t (lh_block t ! i) = bview s (lh_block s ! i)"
      using t T fr d i by (simp_all add: apply_writes_other)
    moreover have "\<exists>u. log_block i t = Ret () u \<and> bio_ok c u \<and> bframe t u \<and>
        cabs u = ac_writes [(lblk t (Suc i), bview t (lh_block t ! i))] (cabs t)"
      by (rule log_block_run) (use T t fr h i n calculation in simp_all)
    ultimately show "\<exists>u. log_block i t = Ret () u \<and> ?P (Suc i) u"
      using t fr by (auto simp: ac_writes_append intro: bframe_trans)
  qed
  then show ?thesis by (simp add: write_log_def bindK_def)
qed

lemma install_trans_run:
  assumes s: "ready c s" and n: "lh_n s \<le> 29" "homes_ok s (nat (lh_n s))"
    and d: "bdirty s = {} \<or> distinct (take (nat (lh_n s)) (lh_block s)) \<and> (\<forall>i < nat (lh_n s). lh_block s ! i \<in> bdirty s)"
  shows "\<exists>t. install_trans s = Ret () t \<and> bio_ok c t \<and> bframe s t \<and>
    cabs t = ac_writes (map (\<lambda>i. (lh_block s ! i, bview s (lblk s (Suc i)))) [0..<nat (lh_n s)]) (cabs s)"
proof -
  let ?W = "\<lambda>k. map (\<lambda>i. (lh_block s ! i, bview s (lblk s (Suc i)))) [0..<k]"
  let ?P = "\<lambda>k t. bio_ok c t \<and> bframe s t \<and> cabs t = ac_writes (?W k) (cabs s)"
  have len: "length (lh_block s) = 30" using s by (simp add: ready_def log_geo_def)
  have "\<exists>t. forK [0..<nat (lh_n s)] install_block s = Ret () t \<and> ?P (nat (lh_n s)) t"
  proof (rule forK_upto)
    show "?P 0 s" using s by (simp add: ready_def bframe_refl ac_writes_Nil)
    fix i t assume i: "i < nat (lh_n s)" and t: "?P i t"
    note T = readyI [OF s, of t "?W i"] and fr = bframe_log [of s t]
    have "Suc i < 30" using i n(1) by linarith
    then have h: "lblk s (Suc i) \<notin> fst ` set (?W i)" "lh_block s ! i < disksize s" "\<not> in_log s (lh_block s ! i)"
      using n i in_log_lblk [of "Suc i" s] by (auto simp: homes_ok_def)
    then have v: "bview t (lblk t (Suc i)) = bview s (lblk s (Suc i))"
      using t T fr i by (simp_all add: apply_writes_other)
    have "lh_block s ! i \<noteq> lh_block s ! j" if "j < i" "distinct (take (nat (lh_n s)) (lh_block s))" for j
      using that i n(1) len by (auto simp: distinct_conv_nth)
    then have "lh_block s ! i \<notin> fst ` set (?W i)" if "distinct (take (nat (lh_n s)) (lh_block s))" using that by fastforce
    moreover have "bdirty t = bdirty s - fst ` set (?W i)" "lh_block t = lh_block s" using t T(3) fr(7) by blast+
    ultimately have "lh_block t ! i \<in> bdirty t \<or> bdirty t = {}" using d i by auto
    then have "\<exists>u. install_block i t = Ret () u \<and> bio_ok c u \<and> bframe t u \<and>
        cabs u = ac_writes [(lh_block t ! i, bview t (lblk t (Suc i)))] (cabs t)"
      by (intro install_block_run) (use T t fr h i n in simp_all)
    with v show "\<exists>u. install_block i t = Ret () u \<and> ?P (Suc i) u"
      using t fr by (auto simp: ac_writes_append intro: bframe_trans)
  qed
  then show ?thesis by (simp add: install_trans_def bindK_def)
qed

section \<open>commit\<close>

lemma cabs_cong:
  assumes "bufs t = bufs s" "disk t = disk s" "slocks t = slocks s" "disk_hist t = disk_hist s"
  shows "bview t = bview s" "bdirty t = bdirty s" "cabs t = cabs s"
proof -
  show "bview t = bview s" using assms by (simp add: bview_def fun_eq_iff split: option.split)
  moreover show "bdirty t = bdirty s" using assms by (simp add: bdirty_def)
  moreover have "blocked t = blocked s" using assms by (simp add: blocked_def)
  ultimately show "cabs t = cabs s" using assms by (simp add: cabs_def cong: if_cong)
qed

lemma log_field_simps [simp]:
  "bio_ok c (s\<lparr>lh_n := n\<rparr>) = bio_ok c s" "cabs (s\<lparr>lh_n := n\<rparr>) = cabs s" "lblk (s\<lparr>lh_n := n\<rparr>) = lblk s"
  "log_geo (s\<lparr>lh_n := n\<rparr>) = log_geo s" "bview (s\<lparr>lh_n := n\<rparr>) = bview s" "bdirty (s\<lparr>lh_n := n\<rparr>) = bdirty s"
  by (simp_all add: bio_ok_def fun_eq_iff lblk_def log_geo_def cabs_cong [where t = "s\<lparr>lh_n := n\<rparr>" and s = s])

lemma log_field_simps' [simp]:
  "in_log (s\<lparr>lh_n := n\<rparr>) = in_log s" "homes_ok (s\<lparr>lh_n := n\<rparr>) = homes_ok s" "ready c (s\<lparr>lh_n := n\<rparr>) = ready c s"
  by (simp_all add: fun_eq_iff in_log_def homes_ok_def ready_def)

lemma bframe_lh:
  assumes "bframe s t"
  shows "bframe (s\<lparr>lh_n := n\<rparr>) (t\<lparr>lh_n := n\<rparr>)"
proof -
  from assms obtain ps sl bs d h where t: "t = s\<lparr>ptable := ps, slocks := sl, bufs := bs, disk := d, disk_hist := h\<rparr>"
    "ptable_wk (ptable s) ps" "\<And>i. sl (InodeLock i) = slocks s (InodeLock i)"
    unfolding bframe_def by blast
  show ?thesis
    by (rule bframeI [where ps = ps and sl = sl and bs = bs and d = d and h = h]) (use t in simp_all)
qed

definition commit_ready :: "nat \<Rightarrow> 'z klog_scheme \<Rightarrow> bool" where
  "commit_ready c s \<longleftrightarrow> bio_ok c s \<and> idle (cabs s) \<and> log_geo s \<and> 0 \<le> lh_n s \<and> lh_n s \<le> 29 \<and> homes_ok s (nat (lh_n s)) \<and>
     distinct (take (nat (lh_n s)) (lh_block s)) \<and> bdirty s = set (take (nat (lh_n s)) (lh_block s))"

definition log_writes :: "'z klog_scheme \<Rightarrow> (u32 \<times> byte list) list" where
  "log_writes s = map (\<lambda>i. (lblk s (Suc i), bview s (lh_block s ! i))) [0..<nat (lh_n s)]"

definition home_writes :: "'z klog_scheme \<Rightarrow> (u32 \<times> byte list) list" where
  "home_writes s = map (\<lambda>i. (lh_block s ! i, bview s (lh_block s ! i))) [0..<nat (lh_n s)]"

definition commit_hdr :: "'z klog_scheme \<Rightarrow> byte list" where
  "commit_hdr s = hdr (lh_n s) (lh_block s) (bview s (lblk s 0))"

definition commit_writes :: "'z klog_scheme \<Rightarrow> (u32 \<times> byte list) list" where
  "commit_writes s = log_writes s @ (lblk s 0, commit_hdr s) # home_writes s @ [(lblk s 0, hdr 0 (lh_block s) (commit_hdr s))]"

lemma commit_readyD:
  assumes "commit_ready c s"
  shows "ready c s" "lh_n s \<le> 29" "homes_ok s (nat (lh_n s))" "\<forall>i < nat (lh_n s). lh_block s ! i \<in> bdirty s"
    "distinct (take (nat (lh_n s)) (lh_block s))" "length (lh_block s) = 30" "log_geo s" "bio_ok c s" "idle (cabs s)"
    "lh_n s \<le> 29" "0 \<le> lh_n s" "bdirty s = set (take (nat (lh_n s)) (lh_block s))"
proof -
  have "card (bdirty s) \<le> nat (lh_n s)"
    using assms card_length [of "take (nat (lh_n s)) (lh_block s)"] by (simp add: commit_ready_def)
  then show "ready c s" using assms by (auto simp: commit_ready_def ready_def)
  show "\<forall>i < nat (lh_n s). lh_block s ! i \<in> bdirty s"
  proof (intro allI impI)
    fix i assume i: "i < nat (lh_n s)"
    then have "take (nat (lh_n s)) (lh_block s) ! i \<in> set (take (nat (lh_n s)) (lh_block s))"
      using assms by (intro nth_mem) (auto simp: commit_ready_def log_geo_def)
    with i show "lh_block s ! i \<in> bdirty s" using assms by (simp add: commit_ready_def)
  qed
qed (use assms in \<open>auto simp: commit_ready_def log_geo_def\<close>)

lemma log_writes_other: "log_geo s \<Longrightarrow> lh_n s \<le> 29 \<Longrightarrow> lblk s 0 \<notin> fst ` set (log_writes s)"
  by (auto simp: log_writes_def lblk_inj)

lemma home_writes_other: "homes_ok s (nat (lh_n s)) \<Longrightarrow> in_log s n \<Longrightarrow> n \<notin> fst ` set (home_writes s)"
  by (auto simp: home_writes_def homes_ok_def)

lemma log_writes_at:
  assumes "log_geo s" "lh_n s \<le> 29" "i < nat (lh_n s)"
  shows "apply_writes (log_writes s) D (lblk s (Suc i)) = bview s (lh_block s ! i)"
  by (rule apply_writes_mem) (use assms in \<open>auto simp: log_writes_def lblk_inj\<close>)

lemma commit_run:
  assumes s: "commit_ready c s" and pos: "0 < lh_n s"
  shows "\<exists>t. commit s = Ret () t \<and> bio_ok c t \<and> bframe (s\<lparr>lh_n := 0\<rparr>) t \<and> cabs t = ac_writes (commit_writes s) (cabs s)"
proof -
  note S = commit_readyD [OF s]
  obtain t where t: "write_log s = Ret () t" "bio_ok c t" "bframe s t" "cabs t = ac_writes (log_writes s) (cabs s)"
    using write_log_run [OF S(1-4)] by (auto simp: log_writes_def)
  note T = readyI [OF S(1) t(2-4)] and ft = bframe_log [OF t(3)]
  have "bview t (lblk s 0) = bview s (lblk s 0)" using T(2) log_writes_other [OF S(7,2)] by (simp add: apply_writes_other)
  then obtain u where u: "write_head t = Ret () u" "bio_ok c u" "bframe t u" "cabs u = ac_writes [(lblk s 0, commit_hdr s)] (cabs t)"
    using write_head_run [OF T(1)] S(2) ft by (auto simp: commit_hdr_def)
  note U = readyI [OF T(1) u(2-4)] and fu = bframe_log [OF bframe_trans [OF t(3) u(3)]]
  have L0: "lh_block s ! i \<noteq> lblk s 0" "lblk s (Suc i) \<noteq> lblk s 0" "lh_block s ! i \<notin> fst ` set (log_writes s)" if "i < nat (lh_n s)" for i
    using that S(2,3) in_log_lblk [of _ s] lblk_inj [OF S(7), of "Suc i" 0] by (auto simp: homes_ok_def log_writes_def)
  then have "\<forall>i < nat (lh_n s). lh_block s ! i \<in> bdirty u" using S(4) U(3) T(3) by auto
  then obtain v where v: "install_trans u = Ret () v" "bio_ok c v" "bframe u v"
    "cabs v = ac_writes (map (\<lambda>i. (lh_block s ! i, bview u (lblk s (Suc i)))) [0..<nat (lh_n s)]) (cabs u)"
    using install_trans_run [OF U(1)] S(2,3,5) fu by (auto simp: homes_ok_def)
  have "map (\<lambda>i. (lh_block s ! i, bview u (lblk s (Suc i)))) [0..<nat (lh_n s)] = home_writes s"
    using L0 log_writes_at [OF S(7,2)] U(2) T(2) by (simp add: home_writes_def)
  note v' = v(4) [unfolded this]
  note V = readyI [OF U(1) v(2,3) v'] and fv = bframe_log [OF bframe_trans [OF bframe_trans [OF t(3) u(3)] v(3)]]
  have "bview v (lblk s 0) = commit_hdr s"
    using V(2) U(2) home_writes_other [OF S(3) in_log_lblk] by (simp add: apply_writes_other)
  then obtain w where w: "write_head (v\<lparr>lh_n := 0\<rparr>) = Ret () w" "bio_ok c w" "bframe (v\<lparr>lh_n := 0\<rparr>) w"
    "cabs w = ac_writes [(lblk s 0, hdr 0 (lh_block s) (commit_hdr s))] (cabs v)"
    using write_head_run [of c "v\<lparr>lh_n := 0\<rparr>"] V(1) fv by auto
  have "cabs w = ac_writes (commit_writes s) (cabs s)"
    by (simp add: w(4) v' u(4) t(4) ac_writes_append commit_writes_def)
  moreover have "bframe (s\<lparr>lh_n := 0\<rparr>) w"
    using bframe_trans [OF bframe_lh [OF bframe_trans [OF bframe_trans [OF t(3) u(3)] v(3)]] w(3)] .
  ultimately show ?thesis using pos t(1) u(1) v(1) w by (simp add: commit_def bindK_def whenK_def)
qed

section \<open>Recovery\<close>

lemma lh_block_simps [simp]:
  "bio_ok c (s\<lparr>lh_block := b\<rparr>) = bio_ok c s" "cabs (s\<lparr>lh_block := b\<rparr>) = cabs s" "lblk (s\<lparr>lh_block := b\<rparr>) = lblk s"
  "bview (s\<lparr>lh_block := b\<rparr>) = bview s" "bdirty (s\<lparr>lh_block := b\<rparr>) = bdirty s"
  by (simp_all add: bio_ok_def fun_eq_iff lblk_def cabs_cong [where t = "s\<lparr>lh_block := b\<rparr>" and s = s])

lemma lh_block_simps' [simp]:
  "in_log (s\<lparr>lh_block := b\<rparr>) = in_log s" "length b = length (lh_block s) \<Longrightarrow> log_geo (s\<lparr>lh_block := b\<rparr>) = log_geo s"
  "length b = length (lh_block s) \<Longrightarrow> ready c (s\<lparr>lh_block := b\<rparr>) = ready c s"
  by (simp_all add: fun_eq_iff in_log_def log_geo_def ready_def)

lemma bframe_lh_block:
  assumes "bframe s t"
  shows "bframe (s\<lparr>lh_block := b\<rparr>) (t\<lparr>lh_block := b\<rparr>)"
proof -
  from assms obtain ps sl bs d h where t: "t = s\<lparr>ptable := ps, slocks := sl, bufs := bs, disk := d, disk_hist := h\<rparr>"
    "ptable_wk (ptable s) ps" "\<And>i. sl (InodeLock i) = slocks s (InodeLock i)"
    unfolding bframe_def by blast
  show ?thesis
    by (rule bframeI [where ps = ps and sl = sl and bs = bs and d = d and h = h]) (use t in simp_all)
qed

text \<open>The loop of \<open>read_head\<close>.\<close>

lemma load_blocks_run:
  assumes "length (lh_block s) = 30" "n \<le> 30"
  obtains b where "forK [0..<n] (\<lambda>i. modK (\<lambda>s. s\<lparr>lh_block := (lh_block s)[i := g i]\<rparr>)) s = Ret () (s\<lparr>lh_block := b\<rparr>)"
    "length b = 30" "\<And>i. i < n \<Longrightarrow> b ! i = g i"
proof -
  have "\<exists>t. forK [0..<n] (\<lambda>i. modK (\<lambda>s. s\<lparr>lh_block := (lh_block s)[i := g i]\<rparr>)) s = Ret () t \<and>
      (\<exists>b. t = s\<lparr>lh_block := b\<rparr> \<and> length b = 30 \<and> (\<forall>i < n. b ! i = g i))"
  proof (rule forK_upto)
    show "\<exists>b. s = s\<lparr>lh_block := b\<rparr> \<and> length b = 30 \<and> (\<forall>i < 0. b ! i = g i)"
      using assms by (intro exI [of _ "lh_block s"]) simp
    fix i t assume i: "i < n" and "\<exists>b. t = s\<lparr>lh_block := b\<rparr> \<and> length b = 30 \<and> (\<forall>j < i. b ! j = g j)"
    then obtain b where b: "t = s\<lparr>lh_block := b\<rparr>" "length b = 30" "\<forall>j < i. b ! j = g j" by blast
    then show "\<exists>t'. modK (\<lambda>s. s\<lparr>lh_block := (lh_block s)[i := g i]\<rparr>) t = Ret () t' \<and>
        (\<exists>b. t' = s\<lparr>lh_block := b\<rparr> \<and> length b = 30 \<and> (\<forall>j < Suc i. b ! j = g j))"
      using i assms(2) by (auto simp: less_Suc_eq nth_list_update intro!: exI [of _ "b[i := g i]"])
  qed
  then show thesis using that by blast
qed

definition disk_n :: "'z klog_scheme \<Rightarrow> int" where
  "disk_n s = sint (get32 (disk s (lblk s 0)) 0)"

definition disk_home :: "'z klog_scheme \<Rightarrow> nat \<Rightarrow> u32" where
  "disk_home s i = get32 (disk s (lblk s 0)) (4 + 4 * i)"

lemma clean_view: "ready c s \<Longrightarrow> bdirty s = {} \<Longrightarrow> bview s = disk s"
  using idle_synced [of c s] by (auto simp: ready_def synced_def)

lemma read_head_run:
  assumes s: "ready c s" and d: "bdirty s = {}" and n: "disk_n s \<le> 30"
  obtains t b where "read_head s = Ret () t" "bio_ok c t" "bframe (s\<lparr>lh_n := disk_n s, lh_block := b\<rparr>) t" "cabs t = cabs s"
    "length b = 30" "\<And>i. i < nat (disk_n s) \<Longrightarrow> b ! i = disk_home s i"
proof -
  from s have ok: "bio_ok c s" and id: "idle (cabs s)" and geo: "log_geo s" by (auto simp: ready_def)
  have "ac_room (cabs s) (lblk s 0)" using id d by (simp add: ac_room_def idle_def)
  then obtain buf t where t: "bread 1 (lblk s 0) s = Ret buf t" "bio_ok c t" "bframe s t" "ac_use (cabs s) buf = None"
    "cabs t = ac_read buf (lblk s 0) (cabs s)"
    by (rule bread_refines [OF ok _ lblk_less [OF geo zero_le]])
  have u: "ac_use (cabs t) buf = Some (lblk s 0)" by (simp add: t(5) ac_read_def)
  have "bview t = bview s" "bdirty t = {}" "disk t = disk s"
    using arg_cong [OF t(5), of ac_view] arg_cong [OF t(5), of ac_dirty] arg_cong [OF t(5), of ac_disk] d by (simp_all add: ac_read_def)
  with cabs_data [OF t(2) u] clean_view [OF s d] have x: "b_data (bufs t ! buf) = disk s (lblk s 0)" "bview t = disk t" by simp_all
  let ?n = "disk_n s" and ?g = "\<lambda>i. get32 (disk s (lblk s 0)) (4 + 4 * i)"
  have "length (lh_block (t\<lparr>lh_n := ?n\<rparr>)) = 30" using geo bframe_log [OF t(3)] by (simp add: log_geo_def)
  then obtain b where b: "forK [0..<nat ?n] (\<lambda>i. modK (\<lambda>s. s\<lparr>lh_block := (lh_block s)[i := ?g i]\<rparr>)) (t\<lparr>lh_n := ?n\<rparr>) = Ret () (t\<lparr>lh_n := ?n, lh_block := b\<rparr>)"
    "length b = 30" "\<And>i. i < nat ?n \<Longrightarrow> b ! i = ?g i"
    by (rule load_blocks_run [of "t\<lparr>lh_n := ?n\<rparr>" "nat ?n" ?g]) (use n in \<open>auto simp: nat_le_iff\<close>)
  let ?u = "t\<lparr>lh_n := ?n, lh_block := b\<rparr>"
  obtain v where v: "brelse buf ?u = Ret () v" "bio_ok c v" "bframe ?u v" "cabs v = ac_rel buf (cabs ?u)"
    by (rule brelse_refines [of c ?u buf "lblk s 0"]) (use t(2) u x in simp_all)
  have "cabs v = cabs s" using t(4,5) by (simp add: v(4) ac_read_def ac_rel_def fun_upd_idem)
  moreover have "bframe (s\<lparr>lh_n := ?n, lh_block := b\<rparr>) v" using bframe_lh_block [OF bframe_lh [OF t(3)]] v(3) by (rule bframe_trans)
  moreover have "read_head s = Ret () v"
    using log_reads(1) [OF geo bframe_refl] t(1) x(1) b(1) v(1) n by (simp add: read_head_def bindK_def flip: disk_n_def)
  ultimately show thesis using that v(2) b by (simp add: disk_home_def)
qed

text \<open>The header on the disk names blocks of the disk outside the log.\<close>

definition disk_log_ok :: "'z klog_scheme \<Rightarrow> bool" where
  "disk_log_ok s \<longleftrightarrow> disk_n s \<le> 29 \<and> (\<forall>i < nat (disk_n s). disk_home s i < disksize s \<and> \<not> in_log s (disk_home s i))"

definition recover_writes :: "'z klog_scheme \<Rightarrow> (u32 \<times> byte list) list" where
  "recover_writes s = map (\<lambda>i. (disk_home s i, disk s (lblk s (Suc i)))) [0..<nat (disk_n s)] @
     [(lblk s 0, put_bytes 0 (le32 0) (disk s (lblk s 0)))]"

lemma hdr_zero: "hdr 0 b x = put_bytes 0 (le32 0) x"
  by (simp add: hdr_def)

lemma recover_run:
  assumes s: "ready c s" and d: "bdirty s = {}" and ok: "disk_log_ok s"
  shows "\<exists>t b. recover_from_log s = Ret () t \<and> bio_ok c t \<and> bframe (s\<lparr>lh_block := b, lh_n := 0\<rparr>) t \<and> length b = 30 \<and>
    cabs t = ac_writes (recover_writes s) (cabs s)"
proof -
  let ?n = "disk_n s"
  from ok have n: "?n \<le> 29" and n30: "?n \<le> 30" by (simp_all add: disk_log_ok_def)
  obtain t b where t: "read_head s = Ret () t" "bio_ok c t" "bframe (s\<lparr>lh_n := ?n, lh_block := b\<rparr>) t" "cabs t = cabs s"
    "length b = 30" "\<And>i. i < nat ?n \<Longrightarrow> b ! i = disk_home s i"
    by (rule read_head_run [OF s d n30]) blast
  let ?r = "s\<lparr>lh_n := ?n, lh_block := b\<rparr>"
  have r: "ready c ?r" using s t(5) by (simp add: ready_def log_geo_def)
  have "cabs t = ac_writes [] (cabs ?r)" using t(4) by (simp add: ac_writes_Nil)
  note T = readyI [OF r t(2,3) this] and ft = bframe_log [OF t(3)]
  have v: "bview s = disk s" by (rule clean_view [OF s d])
  have H: "homes_ok t (nat (lh_n t))" using ok ft t(6) by (simp add: homes_ok_def disk_log_ok_def)
  have W: "map (\<lambda>i. (lh_block t ! i, bview t (lblk t (Suc i)))) [0..<nat (lh_n t)] =
      map (\<lambda>i. (disk_home s i, disk s (lblk s (Suc i)))) [0..<nat ?n]" (is "_ = ?W")
    using ft T(2) v t(6) by simp
  have "lh_n t \<le> 29" "bdirty t = {}" using ft(6) T(3) d n by simp_all
  then obtain u where u: "install_trans t = Ret () u" "bio_ok c u" "bframe t u" "cabs u = ac_writes ?W (cabs t)"
    using install_trans_run [OF T(1) _ H, unfolded W] by blast
  note U = readyI [OF T(1) u(2-4)] and fu = bframe_log [OF bframe_trans [OF t(3) u(3)]]
  have "lblk s 0 \<notin> fst ` set ?W" using ok in_log_lblk [of 0 s] by (auto simp: disk_log_ok_def)
  then have "bview u (lblk s 0) = disk s (lblk s 0)" using U(2) T(2) v by (simp add: apply_writes_other)
  then obtain w where w: "write_head (u\<lparr>lh_n := 0\<rparr>) = Ret () w" "bio_ok c w" "bframe (u\<lparr>lh_n := 0\<rparr>) w"
    "cabs w = ac_writes [(lblk s 0, put_bytes 0 (le32 0) (disk s (lblk s 0)))] (cabs u)"
    using write_head_run [of c "u\<lparr>lh_n := 0\<rparr>"] U(1) fu by (auto simp: hdr_zero)
  have "cabs w = ac_writes (recover_writes s) (cabs s)"
    by (simp add: w(4) u(4) t(4) ac_writes_append recover_writes_def)
  moreover have "bframe (s\<lparr>lh_block := b, lh_n := 0\<rparr>) w"
    using bframe_trans [OF bframe_lh [OF bframe_trans [OF t(3) u(3)], of 0] w(3)] by simp
  ultimately show ?thesis using t(1,5) u(1) w by (auto simp: recover_from_log_def bindK_def)
qed

section \<open>A crash during commit\<close>

lemma home_writes_apply:
  assumes "commit_ready c s"
  shows "apply_writes (home_writes s) D m = (if m \<in> bdirty s then bview s m else D m)"
proof (cases "m \<in> bdirty s")
  case True
  note S = commit_readyD [OF assms]
  from True S(12) obtain i where "i < nat (lh_n s)" "m = lh_block s ! i" by (auto simp: in_set_conv_nth)
  then have "apply_writes (home_writes s) D m = bview s m"
    by (intro apply_writes_mem) (auto simp: home_writes_def)
  with True show ?thesis by simp
next
  case False
  with commit_readyD(4) [OF assms] show ?thesis by (auto simp: home_writes_def intro!: apply_writes_other)
qed

lemma home_writes_take_apply:
  assumes "commit_ready c s" "m \<notin> bdirty s"
  shows "apply_writes (take j (home_writes s)) D m = D m"
proof (rule apply_writes_other)
  show "m \<notin> fst ` set (take j (home_writes s))"
    using commit_readyD(4) [OF assms(1)] assms(2) set_take_subset [of j "home_writes s"] by (auto simp: home_writes_def)
qed

text \<open>
  The machine \<open>r\<close> after a crash: nothing in the cache, the disk as it was left, the log where it was.
\<close>

definition rebooted :: "nat \<Rightarrow> 'z klog_scheme \<Rightarrow> (u32 \<Rightarrow> byte list) \<Rightarrow> 'y klog_scheme \<Rightarrow> bool" where
  "rebooted c s D r \<longleftrightarrow> bio_ok c r \<and> idle (cabs r) \<and> bdirty r = {} \<and> log_geo r \<and> log_start r = log_start s \<and>
     disksize r = disksize s \<and> disk r = D"

lemma rebootedD:
  assumes "rebooted c s D r"
  shows "ready c r" "bdirty r = {}" "lblk r = lblk s" "in_log r = in_log s" "disksize r = disksize s" "disk r = D"
  using assms by (auto simp: rebooted_def ready_def lblk_def in_log_def)

lemma recover_homes:
  assumes r: "rebooted c s D r" and ok: "disk_log_ok r"
  shows "\<exists>t. recover_from_log r = Ret () t \<and> rebooted c s (disk t) t \<and> lh_n t = 0 \<and> disk_n t = 0 \<and>
    (\<forall>m. \<not> in_log s m \<longrightarrow> disk t m = apply_writes (map (\<lambda>i. (disk_home r i, D (lblk s (Suc i)))) [0..<nat (disk_n r)]) D m)"
proof -
  note R = rebootedD [OF r]
  from recover_run [OF R(1,2) ok] obtain t b where t: "recover_from_log r = Ret () t" "bio_ok c t"
    "bframe (r\<lparr>lh_block := b, lh_n := 0\<rparr>) t" "length b = 30" "cabs t = ac_writes (recover_writes r) (cabs r)" by blast
  let ?r = "r\<lparr>lh_block := b, lh_n := 0\<rparr>"
  have "ready c ?r" using R(1) t(4) by (simp add: ready_def log_geo_def)
  note T = readyI [OF this t(2,3)] and ft = bframe_log [OF t(3)]
  have T': "ready c t" "disk t = apply_writes (recover_writes r) D" "bdirty t = {}"
    using T t(5) R(2,6) by simp_all
  have "length (D (lblk s 0)) = 512" using bio_okD(5) [of c r] r by (auto simp: rebooted_def)
  then have "disk_n t = 0" using ft R(3,6) by (simp add: disk_n_def T'(2) recover_writes_def get_put)
  moreover have "m \<noteq> lblk s 0" if "\<not> in_log s m" for m using that in_log_lblk [of 0 s] by auto
  then have "\<forall>m. \<not> in_log s m \<longrightarrow> disk t m = apply_writes (map (\<lambda>i. (disk_home r i, D (lblk s (Suc i)))) [0..<nat (disk_n r)]) D m"
    using R(3,6) by (simp add: T'(2) recover_writes_def)
  moreover have "rebooted c s (disk t) t" using T' ft r t(4) by (auto simp: rebooted_def ready_def)
  moreover have "lh_n t = 0" using ft(6) by simp
  ultimately show ?thesis using t(1) by blast
qed

lemma commit_disk:
  assumes s: "commit_ready c s" and m: "\<not> in_log s m"
  shows "apply_writes (take k (log_writes s)) D m = D m" "m \<noteq> lblk s 0" "m \<notin> bdirty s \<Longrightarrow> bview s m = disk s m"
proof -
  note S = commit_readyD [OF s]
  have "m \<noteq> lblk s (Suc i)" if "i < nat (lh_n s)" for i using m in_log_lblk [of "Suc i" s] that S(2) by auto
  then have "m \<notin> fst ` set (log_writes s)" by (fastforce simp: log_writes_def)
  then show "apply_writes (take k (log_writes s)) D m = D m"
    using set_take_subset [of k "log_writes s"] by (intro apply_writes_other) auto
  show "m \<noteq> lblk s 0" using m in_log_lblk [of 0 s] by auto
  show "m \<notin> bdirty s \<Longrightarrow> bview s m = disk s m" using idle_synced [OF S(8,9)] by (simp add: synced_def)
qed

lemma sint_small: "0 \<le> n \<Longrightarrow> n \<le> 30 \<Longrightarrow> sint (of_int n :: u32) = n"
  by (simp add: signed_of_int signed_take_bit_int_eq_self)

text \<open>The three phases of \<open>commit\<close>: before the header is on the disk, before it is cleared, and after.\<close>

lemma crash_before:
  assumes s: "commit_ready c s" "disk_n s = 0" and k: "k \<le> nat (lh_n s)"
    and r: "rebooted d s (apply_writes (take k (commit_writes s)) (disk s)) r"
  shows "\<exists>t. recover_from_log r = Ret () t \<and> rebooted d s (disk t) t \<and> lh_n t = 0 \<and> disk_n t = 0 \<and>
    (\<forall>m. \<not> in_log s m \<longrightarrow> disk t m = disk s m)"
proof -
  note S = commit_readyD [OF s(1)] and R = rebootedD [OF r]
  have W: "take k (commit_writes s) = take k (log_writes s)" using k by (simp add: commit_writes_def log_writes_def)
  have "lblk s 0 \<notin> fst ` set (take k (log_writes s))"
    using log_writes_other [OF S(7,2)] set_take_subset [of k "log_writes s"] by blast
  then have "disk_n r = 0" using s(2) R(3,6) by (simp add: disk_n_def W apply_writes_other)
  with recover_homes [OF r] commit_disk [OF s(1)] show ?thesis by (auto simp: W disk_log_ok_def)
qed

lemma crash_during:
  assumes s: "commit_ready c s" and k: "j \<le> nat (lh_n s)"
    and r: "rebooted d s (apply_writes (log_writes s @ (lblk s 0, commit_hdr s) # take j (home_writes s)) (disk s)) r"
  shows "\<exists>t. recover_from_log r = Ret () t \<and> rebooted d s (disk t) t \<and> lh_n t = 0 \<and> disk_n t = 0 \<and>
    (\<forall>m. \<not> in_log s m \<longrightarrow> disk t m = bview s m)"
proof -
  let ?D = "apply_writes (log_writes s @ (lblk s 0, commit_hdr s) # take j (home_writes s)) (disk s)"
  note S = commit_readyD [OF s] and R = rebootedD [OF r]
  have home: "n \<notin> fst ` set (take j (home_writes s))" if "in_log s n" for n
    using home_writes_other [OF S(3) that] set_take_subset [of j "home_writes s"] by blast
  have H: "?D (lblk s 0) = commit_hdr s" using home [OF in_log_lblk] by (simp add: apply_writes_other)
  have L: "?D (lblk s (Suc i)) = bview s (lh_block s ! i)" if "i < nat (lh_n s)" for i
  proof -
    have i: "Suc i < 30" using that S(10) by linarith
    then have "lblk s (Suc i) \<noteq> lblk s 0" using lblk_inj [OF S(7) less_imp_le [OF i], of 0] by simp
    with home [OF in_log_lblk [OF i]] log_writes_at [OF S(7,2) that] show ?thesis by (simp add: apply_writes_other)
  qed
  have l: "length (bview s (lblk s 0)) = 512" "lh_n s \<le> 30" using length_bview [OF S(8)] S(2) by simp_all
  note h = hdr_simps(2) [OF l] hdr_block [OF l]
  have n: "disk_n r = lh_n s" using R(3,6) H h(1) S(2,11) by (simp add: disk_n_def commit_hdr_def sint_small)
  have b: "disk_home r i = lh_block s ! i" if "i < nat (lh_n s)" for i
    using R(3,6) H h(2) [OF that] by (simp add: disk_home_def commit_hdr_def)
  have W: "map (\<lambda>i. (disk_home r i, ?D (lblk s (Suc i)))) [0..<nat (disk_n r)] = home_writes s"
    using n b L by (simp add: home_writes_def)
  have "disk_log_ok r" using n b S(2,3) R by (simp add: disk_log_ok_def homes_ok_def)
  from recover_homes [OF r this, unfolded W] obtain t where t: "recover_from_log r = Ret () t" "rebooted d s (disk t) t" "lh_n t = 0" "disk_n t = 0"
    "\<And>m. \<not> in_log s m \<Longrightarrow> disk t m = apply_writes (home_writes s) ?D m" by blast
  have "disk t m = bview s m" if "\<not> in_log s m" for m
    using commit_disk [OF s that] commit_disk(1) [OF s that, of "length (log_writes s)"] home_writes_take_apply [OF s, of m]
    by (simp add: t(5) [OF that] home_writes_apply [OF s])
  then show ?thesis using t by blast
qed

lemma crash_after:
  assumes s: "commit_ready c s" and r: "rebooted d s (apply_writes (commit_writes s) (disk s)) r"
  shows "disk_n r = 0" "\<not> in_log s m \<Longrightarrow> disk r m = bview s m"
    "\<exists>t. recover_from_log r = Ret () t \<and> rebooted d s (disk t) t \<and> lh_n t = 0 \<and> disk_n t = 0 \<and>
      (\<forall>m. \<not> in_log s m \<longrightarrow> disk t m = bview s m)"
proof -
  note S = commit_readyD [OF s] and R = rebootedD [OF r]
  have "length (commit_hdr s) = 512" using hdr_simps(1) [OF length_bview [OF S(8)], of "lh_n s"] S(2) by (simp add: commit_hdr_def)
  then show n: "disk_n r = 0"
    using R(3,6) by (simp add: disk_n_def commit_writes_def hdr_zero get_put)
  have D: "disk r m = bview s m" if "\<not> in_log s m" for m
    using commit_disk [OF s that] commit_disk(1) [OF s that, of "length (log_writes s)"]
    by (simp add: R(6) commit_writes_def home_writes_apply [OF s])
  then show "\<not> in_log s m \<Longrightarrow> disk r m = bview s m" .
  show "\<exists>t. recover_from_log r = Ret () t \<and> rebooted d s (disk t) t \<and> lh_n t = 0 \<and> disk_n t = 0 \<and>
      (\<forall>m. \<not> in_log s m \<longrightarrow> disk t m = bview s m)"
    using recover_homes [OF r] n D R(6) by (auto simp: disk_log_ok_def)
qed

text \<open>What every prefix of the writes \<open>W\<close> of a transaction leads to after recovery.\<close>

definition all_or_nothing :: "'z klog_scheme \<Rightarrow> (u32 \<times> byte list) list \<Rightarrow> bool" where
  "all_or_nothing s W \<longleftrightarrow> (\<forall>k d (r :: 'z klog_scheme). k \<le> length W \<longrightarrow> rebooted d s (apply_writes (take k W) (disk s)) r \<longrightarrow>
     (\<exists>u. recover_from_log r = Ret () u \<and> rebooted d s (disk u) u \<and> disk_n u = 0 \<and>
        ((\<forall>m. \<not> in_log s m \<longrightarrow> disk u m = disk s m) \<or> (\<forall>m. \<not> in_log s m \<longrightarrow> disk u m = bview s m))))"

lemma all_or_nothing_Nil:
  assumes "all_or_nothing s W"
  shows "all_or_nothing s []"
  unfolding all_or_nothing_def
proof (intro allI impI)
  fix k d and r :: "'a klog_scheme"
  assume "rebooted d s (apply_writes (take k []) (disk s)) r"
  with assms [unfolded all_or_nothing_def, rule_format, of 0 d r]
  show "\<exists>u. recover_from_log r = Ret () u \<and> rebooted d s (disk u) u \<and> disk_n u = 0 \<and>
      ((\<forall>m. \<not> in_log s m \<longrightarrow> disk u m = disk s m) \<or> (\<forall>m. \<not> in_log s m \<longrightarrow> disk u m = bview s m))" by simp
qed

lemma commit_writes_atomic:
  assumes s: "commit_ready c s" "disk_n s = 0"
  shows "all_or_nothing s (commit_writes s)"
  unfolding all_or_nothing_def
proof (intro allI impI)
  fix k d and r :: "'a klog_scheme"
  assume k: "k \<le> length (commit_writes s)" and r: "rebooted d s (apply_writes (take k (commit_writes s)) (disk s)) r"
  let ?n = "nat (lh_n s)"
  have len: "length (log_writes s) = ?n" "length (home_writes s) = ?n" by (simp_all add: log_writes_def home_writes_def)
  consider "k \<le> ?n" | j where "k = Suc (?n + j)" "j \<le> ?n" | "k = length (commit_writes s)"
  proof -
    have "length (commit_writes s) = 2 * ?n + 2" by (simp add: commit_writes_def len)
    then have "k \<le> ?n \<or> (\<exists>j. k = Suc (?n + j) \<and> j \<le> ?n) \<or> k = length (commit_writes s)"
      using k by (cases "k \<le> ?n"; cases "k = 2 * ?n + 2") (auto intro: exI [of _ "k - Suc ?n"])
    then show thesis using that by blast
  qed
  then show "\<exists>u. recover_from_log r = Ret () u \<and> rebooted d s (disk u) u \<and> disk_n u = 0 \<and>
      ((\<forall>m. \<not> in_log s m \<longrightarrow> disk u m = disk s m) \<or> (\<forall>m. \<not> in_log s m \<longrightarrow> disk u m = bview s m))"
  proof cases
    case 1
    from crash_before [OF s 1 r] show ?thesis by blast
  next
    case 2
    then have "take k (commit_writes s) = log_writes s @ (lblk s 0, commit_hdr s) # take j (home_writes s)"
      using len by (simp add: commit_writes_def)
    with r have "rebooted d s (apply_writes (log_writes s @ (lblk s 0, commit_hdr s) # take j (home_writes s)) (disk s)) r" by simp
    from crash_during [OF s(1) 2(2) this] show ?thesis by blast
  next
    case 3
    with r have "rebooted d s (apply_writes (commit_writes s) (disk s)) r" by simp
    from crash_after(3) [OF s(1) this] show ?thesis by blast
  qed
qed

lemma commit_atomic:
  assumes s: "commit_ready c s" "disk_n s = 0"
  shows "\<exists>t W. commit s = Ret () t \<and> commit_ready c t \<and> bframe (s\<lparr>lh_n := 0\<rparr>) t \<and> disk_n t = 0 \<and>
    disk_hist t = disk_hist s @ W \<and> (\<forall>m. \<not> in_log s m \<longrightarrow> disk t m = bview s m) \<and> all_or_nothing s W"
proof (cases "0 < lh_n s")
  case True
  note S = commit_readyD [OF s(1)]
  from commit_run [OF s(1) True] obtain t where t: "commit s = Ret () t" "bio_ok c t" "bframe (s\<lparr>lh_n := 0\<rparr>) t"
    "cabs t = ac_writes (commit_writes s) (cabs s)" by blast
  have "ready c (s\<lparr>lh_n := 0\<rparr>)" using S(1) by simp
  note T = readyI [OF this t(2,3)] and ft = bframe_log [OF t(3)]
  have T': "ready c t" "disk t = apply_writes (commit_writes s) (disk s)" "disk_hist t = disk_hist s @ commit_writes s"
    "bdirty t = bdirty s - fst ` set (commit_writes s)"
    using T t(4) by simp_all
  have "bdirty s \<subseteq> fst ` set (commit_writes s)"
  proof
    fix m assume "m \<in> bdirty s"
    with S(12) obtain i where "i < nat (lh_n s)" "m = lh_block s ! i" by (auto simp: in_set_conv_nth)
    then show "m \<in> fst ` set (commit_writes s)" by (force simp: commit_writes_def home_writes_def)
  qed
  then have "bdirty t = {}" using T'(4) by blast
  then have "rebooted c s (apply_writes (commit_writes s) (disk s)) t" "commit_ready c t"
    using T' ft by (auto simp: rebooted_def ready_def commit_ready_def homes_ok_def)
  with crash_after(1,2) [OF s(1)] commit_writes_atomic [OF s] t T' show ?thesis by blast
next
  case False
  note S = commit_readyD [OF s(1)]
  have n: "lh_n s = 0" using False S(11) by simp
  then have v: "bview s = disk s" using clean_view [OF S(1)] S(12) by simp
  have "all_or_nothing s []" using commit_writes_atomic [OF s] by (rule all_or_nothing_Nil)
  moreover have "commit s = Ret () s" "s\<lparr>lh_n := 0\<rparr> = s" using n by (simp_all add: commit_def bindK_def whenK_def)
  ultimately show ?thesis using s v bframe_refl by (metis append_Nil2)
qed

end
