(* ===== verification/Bio_Init.thy ===== *)
theory Bio_Init
  imports Bio_Spec
begin

text \<open>
  \<open>binit\<close> builds the list of the buffers, the last one first, and establishes the invariant of the
  cache: a reader then finds what is on the disk.
\<close>

text \<open>What one call of \<open>link_head\<close> does to a list that has \<open>xs\<close> on it.\<close>

lemma link_head_path:
  assumes len: "length (bufs s) = 31" and b: "b < 30" "b \<notin> set xs" and xs: "distinct xs" "set xs \<subseteq> {0..<30}"
    and p: "path (nexts (bufs s)) 30 xs 30" "path (prevs (bufs s)) 30 (rev xs) 30"
  obtains bs where "link_head b s = Ret () (s\<lparr>bufs := bs\<rparr>)" "length bs = 31" "same_core (bufs s) bs"
    "path (nexts bs) 30 (b # xs) 30" "path (prevs bs) 30 (rev (b # xs)) 30"
proof -
  let ?f = "b_next (bufs s ! 30)"
  define bs3 where "bs3 = (bufs s)[b := (bufs s ! b)\<lparr>b_next := ?f, b_prev := 30\<rparr>]"
  define bs4 where "bs4 = bs3[?f := (bs3 ! ?f)\<lparr>b_prev := b\<rparr>]"
  define bs where "bs = bs4[30 := (bs4 ! 30)\<lparr>b_next := b\<rparr>]"
  have "30 \<notin> set xs" "b \<noteq> 30" using xs b by auto
  have f: "?f = last (30 # rev xs)" using path_first [OF p(1)] last_Cons_rev [of 30 xs] by (simp add: nexts_def)
  then have "?f \<in> set (30 # rev xs)" by (metis last_in_set list.discI)
  then have f31: "?f < 31" using xs by auto
  have l: "length bs3 = 31" "length bs4 = 31" "length bs = 31" by (simp_all add: bs3_def bs4_def bs_def len)
  have "link_head b s = Ret () (s\<lparr>bufs := bs\<rparr>)"
    using \<open>b \<noteq> 30\<close> by (simp add: link_head_run Let_def bs3_def bs4_def bs_def)
  moreover have "same_core (bufs s) bs"
    unfolding bs_def bs4_def bs3_def
    by (intro same_core_trans [OF _ same_core_link(2)] same_core_trans [OF _ same_core_link(1)] same_core_link(3))
  moreover have n4: "nexts bs4 = nexts bs3"
    using f31 l by (simp add: bs4_def nexts_update fun_upd_idem_iff) (simp add: nexts_def)
  have "nexts bs = (nexts (bufs s))(b := ?f, 30 := b)"
    using l b len by (simp add: bs_def nexts_update n4 bs3_def)
  with path_insert_first [OF p(1), of b] \<open>30 \<notin> set xs\<close> \<open>b \<noteq> 30\<close> b have "path (nexts bs) 30 (b # xs) 30"
    by (simp add: nexts_def [of "bufs s"] del: path.simps)
  moreover have "prevs bs = prevs bs4"
    using l by (simp add: bs_def prevs_update fun_upd_idem_iff) (simp add: prevs_def)
  then have "prevs bs = (prevs (bufs s))(b := 30, ?f := b)"
    using f31 l b len by (simp add: bs4_def bs3_def prevs_update)
  with path_insert_last [OF p(2), of b] \<open>30 \<notin> set xs\<close> \<open>b \<noteq> 30\<close> b xs f have "path (prevs bs) 30 (rev (b # xs)) 30"
    by (simp del: path.simps fun_upd_apply last.simps)
  ultimately show thesis using that l(3) by blast
qed

text \<open>The memory of the cache as the kernel finds it: the bytes of the variable are zero.\<close>

definition bufs_zero :: "buf list \<Rightarrow> bool" where
  "bufs_zero bs \<longleftrightarrow> length bs = 31 \<and> (\<forall>p \<in> set bs. \<not> b_valid p \<and> \<not> b_dirty p \<and> b_dev p = 0 \<and> b_refcnt p = 0 \<and> length (b_data p) = 512)"

lemma binit_loop_run:
  assumes z: "bufs_zero (bufs s)" "held s = {}" "path (nexts (bufs s)) 30 [] 30" "path (prevs (bufs s)) 30 [] 30"
  shows "\<exists>t. forK [0..<NBUF] (\<lambda>b. bindK (initsleeplock (BufLock b)) (\<lambda>_. link_head b)) s = Ret () t \<and>
    (\<exists>sl bs. t = s\<lparr>slocks := sl, bufs := bs\<rparr> \<and> length bs = 31 \<and> same_core (bufs s) bs \<and>
       (\<forall>i < 30. \<not> sl_locked (sl (BufLock i))) \<and> (\<forall>i. sl (InodeLock i) = slocks s (InodeLock i)) \<and>
       path (nexts bs) 30 (rev [0..<30]) 30 \<and> path (prevs bs) 30 (rev (rev [0..<30])) 30)"
proof (rule forK_upto [where P = "\<lambda>k t. \<exists>sl bs. t = s\<lparr>slocks := sl, bufs := bs\<rparr> \<and> length bs = 31 \<and> same_core (bufs s) bs \<and>
       (\<forall>i < k. \<not> sl_locked (sl (BufLock i))) \<and> (\<forall>i. sl (InodeLock i) = slocks s (InodeLock i)) \<and>
       path (nexts bs) 30 (rev [0..<k]) 30 \<and> path (prevs bs) 30 (rev (rev [0..<k])) 30"], goal_cases)
  case 1
  show ?case using z by (intro exI [of _ "slocks s"] exI [of _ "bufs s"]) (simp add: bufs_zero_def same_core_refl)
next
  case (2 i t)
  then obtain sl bs where t: "t = s\<lparr>slocks := sl, bufs := bs\<rparr>" "length bs = 31" "same_core (bufs s) bs"
    "\<forall>j < i. \<not> sl_locked (sl (BufLock j))" "\<forall>j. sl (InodeLock j) = slocks s (InodeLock j)"
    "path (nexts bs) 30 (rev [0..<i]) 30" "path (prevs bs) 30 (rev (rev [0..<i])) 30" by blast
  let ?sl = "sl(BufLock i := (sl (BufLock i))\<lparr>sl_locked := False, sl_pid := 0\<rparr>)"
  let ?u = "s\<lparr>slocks := ?sl, bufs := bs\<rparr>"
  have u: "initsleeplock (BufLock i) t = Ret () ?u"
    using z(2) by (auto simp: initsleeplock_def bindK_def upd_slock_def t(1) intro!: kbio.equality)
  obtain cs where "link_head i ?u = Ret () (?u\<lparr>bufs := cs\<rparr>)" "length cs = 31" "same_core (bufs ?u) cs"
    "path (nexts cs) 30 (i # rev [0..<i]) 30" "path (prevs cs) 30 (rev (i # rev [0..<i])) 30"
    by (rule link_head_path [of ?u i "rev [0..<i]"]) (use t 2 in auto)
  then show ?case using t u same_core_trans [OF t(3), of cs]
    by (intro exI [of _ "s\<lparr>slocks := ?sl, bufs := cs\<rparr>"] conjI exI [of _ ?sl] exI [of _ cs])
       (auto simp: bindK_def less_Suc_eq simp del: path.simps)
qed

lemma binit_run:
  assumes z: "bufs_zero (bufs s)" and h: "held s = {}" and c: "curproc s = Some c" "c < length (ptable s)"
    and d: "\<And>n. length (disk s n) = 512"
  shows "\<exists>t. binit s = Ret () t \<and> bio_ok c t \<and> bframe s t \<and> ring (bufs t) (rev [0..<30]) \<and> idle (cabs t) \<and> bdirty t = {} \<and> bview t = disk s"
proof -
  let ?s = "upd_buf 30 (\<lambda>q. q\<lparr>b_prev := 30, b_next := 30\<rparr>) s"
  have len: "length (bufs s) = 31" using z by (simp add: bufs_zero_def)
  have same: "same_core (bufs s) (bufs ?s)"
    using same_core_update [of "(bufs s ! 30)\<lparr>b_prev := 30, b_next := 30\<rparr>" "bufs s" 30] by (simp add: core_def)
  have "bufs_zero (bufs ?s)" 
    using z len nth_mem [of 30 "bufs s"] by (auto simp: bufs_zero_def dest!: subsetD [OF set_update_subset_insert])
  moreover have "path (nexts (bufs ?s)) 30 [] 30" "path (prevs (bufs ?s)) 30 [] 30"
    using len by (simp_all add: nexts_def prevs_def)
  ultimately obtain sl bs where t: "forK [0..<NBUF] (\<lambda>b. bindK (initsleeplock (BufLock b)) (\<lambda>_. link_head b)) ?s = Ret () (?s\<lparr>slocks := sl, bufs := bs\<rparr>)"
    "length bs = 31" "same_core (bufs ?s) bs" "\<forall>i < 30. \<not> sl_locked (sl (BufLock i))" "\<forall>i. sl (InodeLock i) = slocks s (InodeLock i)"
    "path (nexts bs) 30 (rev [0..<30]) 30" "path (prevs bs) 30 (rev (rev [0..<30])) 30"
    using binit_loop_run [of ?s] h by auto
  let ?t = "s\<lparr>slocks := sl, bufs := bs\<rparr>"
  have "binit s = Ret () ?t" 
  proof -
    have "s\<lparr>held := held s - {L_bcache}\<rparr> = s" using h by (intro kbio.equality) simp_all
    then show ?thesis using t(1) by (simp add: binit_def bindK_def upd_buf_def)
  qed
  moreover have r: "ring bs (rev [0..<30])" using t(2,6,7) by (auto simp: ring_def)
  have f: "\<not> b_valid (bs ! i)" "\<not> b_dirty (bs ! i)" "b_dev (bs ! i) = 0" "b_refcnt (bs ! i) = 0" "length (b_data (bs ! i)) = 512" if "i < 30" for i
  proof -
    have "bufs s ! i \<in> set (bufs s)" using that len by simp
    then show "\<not> b_valid (bs ! i)" "\<not> b_dirty (bs ! i)" "b_dev (bs ! i) = 0" "b_refcnt (bs ! i) = 0" "length (b_data (bs ! i)) = 512"
      using z same_coreD [OF same_core_trans [OF same t(3)], of i] that len by (simp_all add: bufs_zero_def)
  qed
  have ok: "bio_ok c ?t" using r h c d t(4) f by (auto simp: bio_ok_def uniq_def buf_ok_def)
  moreover have "idle (cabs ?t)" using t(4) by (auto simp: idle_def fun_eq_iff blocked_def)
  moreover have "bdirty ?t = {}" using f by (auto simp: bdirty_def)
  moreover have "bview ?t = disk s" using bview_invalid [OF ok] f by (auto simp: fun_eq_iff)
  moreover have "bframe s ?t"
    by (rule bframeI [where ps = "ptable s" and sl = sl and bs = bs and d = "disk s" and h = "disk_hist s"]) (use t(5) in simp_all)
  ultimately show ?thesis using r by auto
qed

end
