(* ===== verification/Log_Txn.thy ===== *)
theory Log_Txn
  imports Log_Props Bio_Init
begin

text \<open>
  Transactions. \<open>log_inv\<close> is the invariant while a transaction is open: the modified blocks are the
  ones in the header of the log. \<open>log_write\<close> keeps it and records a block once, however often it is
  written. A transaction is what the file system makes of it: \<open>begin_op\<close>, then blocks that are read,
  changed, passed to \<open>log_write\<close> and released, then \<open>end_op\<close>.
\<close>

section \<open>log_write\<close>

definition log_inv :: "nat \<Rightarrow> 'z klog_scheme \<Rightarrow> bool" where
  "log_inv c s \<longleftrightarrow> bio_ok c s \<and> log_geo s \<and> 0 \<le> lh_n s \<and> lh_n s \<le> 29 \<and> homes_ok s (nat (lh_n s)) \<and>
     distinct (take (nat (lh_n s)) (lh_block s)) \<and> bdirty s = set (take (nat (lh_n s)) (lh_block s))"

lemma commit_ready_iff: "commit_ready c s \<longleftrightarrow> log_inv c s \<and> idle (cabs s)"
  by (auto simp: commit_ready_def log_inv_def)

lemma log_inv_card: "log_inv c s \<Longrightarrow> lh_n s = int (card (bdirty s))"
  by (auto simp: log_inv_def distinct_card log_geo_def)

text \<open>The search for the block in the header, and the entry it leads to.\<close>

lemma log_slot_update:
  assumes "n < length bl" "distinct (take n bl)" and "i = log_slot (int n) bl x"
  shows "i \<le> n" "distinct (take (if i = n then Suc n else n) (bl[i := x]))"
    "set (take (if i = n then Suc n else n) (bl[i := x])) = insert x (set (take n bl))"
proof -
  have "i \<le> n \<and> distinct (take (if i = n then Suc n else n) (bl[i := x])) \<and>
    set (take (if i = n then Suc n else n) (bl[i := x])) = insert x (set (take n bl))"
  proof (cases "find_idx (\<lambda>y. y = x) (take n bl)")
    case None
    then have "i = n" using assms(3) by (simp add: log_slot_def)
    moreover have "x \<notin> set (take n bl)" using None by (auto simp: find_idx_None_iff)
    ultimately show ?thesis using assms(1,2) by (auto simp: take_Suc_conv_app_nth)
  next
    case (Some j)
    then have j: "i = j" "j < n" "bl ! j = x" "j < length bl" using assms(1,3) find_idx_SomeD [OF Some] by (auto simp: log_slot_def)
    then have "bl[i := x] = bl" by auto
    moreover have "x \<in> set (take n bl)" using find_idx_SomeD [OF Some] by (metis nth_mem)
    ultimately show ?thesis using j assms(2) by (auto simp: insert_absorb)
  qed
  then show "i \<le> n" "distinct (take (if i = n then Suc n else n) (bl[i := x]))"
    "set (take (if i = n then Suc n else n) (bl[i := x])) = insert x (set (take n bl))" by simp_all
qed

text \<open>What the log may change: the cache, and its header.\<close>

definition lframe :: "'z klog_scheme \<Rightarrow> 'z klog_scheme \<Rightarrow> bool" where
  "lframe s t \<longleftrightarrow> (\<exists>b n. bframe (s\<lparr>lh_block := b, lh_n := n\<rparr>) t)"

lemma lframe_of_bframe: "bframe s t \<Longrightarrow> lframe s t"
  unfolding lframe_def by (rule exI [of _ "lh_block s"], rule exI [of _ "lh_n s"]) simp

lemma lframe_trans:
  assumes "lframe s t" "lframe t u"
  shows "lframe s u"
proof -
  from assms obtain b n b' n' where "bframe (s\<lparr>lh_block := b, lh_n := n\<rparr>) t" "bframe (t\<lparr>lh_block := b', lh_n := n'\<rparr>) u"
    by (auto simp: lframe_def)
  with bframe_trans [OF bframe_lh [OF bframe_lh_block]] have "bframe (s\<lparr>lh_block := b', lh_n := n'\<rparr>) u" by fastforce
  then show ?thesis unfolding lframe_def by blast
qed

lemma lframe_simps:
  assumes "lframe s t"
  shows "log_start t = log_start s" "log_size t = log_size s" "log_outstanding t = log_outstanding s"
    "log_committing t = log_committing s" "disksize t = disksize s" "in_log t = in_log s" "lblk t = lblk s"
proof -
  obtain b n where "bframe (s\<lparr>lh_block := b, lh_n := n\<rparr>) t" using assms by (auto simp: lframe_def)
  from bframe_log [OF this] show "log_start t = log_start s" "log_size t = log_size s" "log_outstanding t = log_outstanding s"
    "log_committing t = log_committing s" "disksize t = disksize s" "in_log t = in_log s" "lblk t = lblk s" by simp_all
qed

lemma log_write_run:
  assumes s: "log_inv c s" and b: "ac_use (cabs s) b = Some n" and n: "n < disksize s" "\<not> in_log s n"
    and g: "lh_n s < 29" "log_size s = 30" "1 \<le> log_outstanding s"
  shows "\<exists>t. log_write b s = Ret () t \<and> log_inv c t \<and> lframe s t \<and> cabs t = ac_mark n (cabs s)"
proof -
  from s have ok: "bio_ok c s" and geo: "log_geo s" and l0: "0 \<le> lh_n s" and H: "homes_ok s (nat (lh_n s))"
    and D: "distinct (take (nat (lh_n s)) (lh_block s))" "bdirty s = set (take (nat (lh_n s)) (lh_block s))" by (auto simp: log_inv_def)
  note u = in_useD [OF ok b]
  define i where "i = log_slot (lh_n s) (lh_block s) n"
  define n' where "n' = (if i = nat (lh_n s) then Suc (nat (lh_n s)) else nat (lh_n s))"
  have len: "nat (lh_n s) < length (lh_block s)" "length (lh_block s) = 30" using g geo by (auto simp: log_geo_def)
  note slot = log_slot_update [OF len(1) D(1), of i n, folded n'_def]
  have slot: "i \<le> nat (lh_n s)" "distinct (take n' ((lh_block s)[i := n]))"
    "set (take n' ((lh_block s)[i := n])) = insert n (set (take (nat (lh_n s)) (lh_block s)))"
    using slot l0 by (simp_all add: i_def)
  let ?v = "s\<lparr>lh_block := (lh_block s)[i := n], lh_n := int n'\<rparr>"
  let ?t = "upd_buf b (\<lambda>p. p\<lparr>b_dirty := True\<rparr>) ?v"
  have v: "bio_ok c ?v" "ac_use (cabs ?v) b = Some n" using ok b by simp_all
  note T = mark_refines [OF v]
  have run: "log_write b s = Ret () ?t"
  proof -
    have "int i = lh_n s \<longleftrightarrow> i = nat (lh_n s)" using l0 by auto
    then show ?thesis
      using g bio_okD(1) [OF ok] u(7) l0
      by (auto simp: log_write_def bindK_def acquire_def release_def n'_def upd_buf_def simp flip: i_def intro!: klog.equality)
  qed
  have "lframe s ?t" using T(2) unfolding lframe_def by blast
  moreover have "log_inv c ?t"
  proof -
    have "ac_dirty (cabs ?t) = insert n (bdirty s)" unfolding T(3) by (simp add: ac_mark_def)
    moreover have "homes_ok ?t n'"
      using H n slot l0 g(1) len bframe_log [OF T(2)]
      by (auto simp: homes_ok_def n'_def nth_list_update less_Suc_eq)
    moreover have "n' \<le> 29" using g(1) by (auto simp: n'_def)
    moreover have "log_geo ?t" using geo bframe_log(10) [OF T(2)] by simp
    ultimately show ?thesis using T(1) slot D(2) bframe_log [OF T(2)] by (simp add: log_inv_def)
  qed
  ultimately show ?thesis using run T(3) by auto
qed

section \<open>A block update\<close>

lemma log_inv_bframe:
  assumes "log_inv c s" "bframe s t" "bio_ok c t" "bdirty t = bdirty s"
  shows "log_inv c t"
  using assms bframe_log [OF assms(2)] by (auto simp: log_inv_def homes_ok_def)

definition put_block :: "u32 \<Rightarrow> byte list \<Rightarrow> ('z klog_scheme, unit) kop" where
  "put_block n x =
     bindK (bread 1 n) (\<lambda>b.
     bindK (modK (upd_buf b (\<lambda>p. p\<lparr>b_data := x\<rparr>))) (\<lambda>_.
     bindK (log_write b) (\<lambda>_.
     brelse b)))"

lemma put_block_run:
  assumes s: "log_inv c s" "idle (cabs s)" and n: "n < disksize s" "\<not> in_log s n" "length x = 512"
    and g: "card (bdirty s) < 29" "log_size s = 30" "1 \<le> log_outstanding s"
  shows "\<exists>t. put_block n x s = Ret () t \<and> log_inv c t \<and> lframe s t \<and> cabs t = ac_mark n (ac_set n x (cabs s))"
proof -
  from s have ok: "bio_ok c s" by (simp add: log_inv_def)
  have "ac_room (cabs s) n" using s(2) g(1) by (simp add: ac_room_def idle_def)
  then obtain b t where t: "bread 1 n s = Ret b t" "bio_ok c t" "bframe s t" "ac_use (cabs s) b = None" "cabs t = ac_read b n (cabs s)"
    by (rule bread_refines [OF ok _ n(1)])
  have u: "ac_use (cabs t) b = Some n" by (simp add: t(5) ac_read_def)
  let ?u = "upd_buf b (\<lambda>p. p\<lparr>b_data := x\<rparr>) t"
  note U = set_refines [OF t(2) u n(3)]
  have fu: "bframe s ?u" using t(3) U(2) by (rule bframe_trans)
  have "ac_dirty (cabs ?u) = ac_dirty (cabs s)" unfolding U(3) t(5) by (simp add: ac_defs)
  then have "log_inv c ?u" using log_inv_bframe [OF s(1) fu U(1)] by simp
  moreover have "ac_use (cabs ?u) b = Some n" unfolding U(3) using u by (simp add: ac_set_def)
  ultimately obtain v where v: "log_write b ?u = Ret () v" "log_inv c v" "lframe ?u v" "cabs v = ac_mark n (cabs ?u)"
    using log_write_run [of c ?u b n] n g bframe_log [OF fu] \<open>ac_dirty (cabs ?u) = _\<close> log_inv_card [of c ?u] by auto
  have "ac_use (cabs v) b = Some n" "n \<in> ac_dirty (cabs v)" unfolding v(4) U(3) using u by (simp_all add: ac_defs)
  then obtain w where w: "brelse b v = Ret () w" "bio_ok c w" "bframe v w" "cabs w = ac_rel b (cabs v)"
    using brelse_refines [of c v b n] v(2) by (auto simp: log_inv_def)
  have "ac_dirty (cabs w) = ac_dirty (cabs v)" unfolding w(4) by (simp add: ac_rel_def)
  then have "log_inv c w" using log_inv_bframe [OF v(2) w(3,2)] by simp
  moreover have "cabs w = ac_mark n (ac_set n x (cabs s))"
    using t(4) by (simp add: w(4) v(4) U(3) t(5) ac_defs fun_upd_idem)
  moreover have "lframe s w" using fu v(3) w(3) by (blast intro: lframe_trans lframe_of_bframe)
  ultimately show ?thesis using t(1) v(1) w(1) by (simp add: put_block_def bindK_def)
qed

lemma put_blocks_run:
  assumes s: "log_inv c s" "idle (cabs s)" and ups: "\<forall>(n, x) \<in> set ups. n < disksize s \<and> \<not> in_log s n \<and> length x = 512"
    and g: "card (bdirty s \<union> fst ` set ups) < 29" "log_size s = 30" "1 \<le> log_outstanding s"
  shows "\<exists>t. forK ups (\<lambda>(n, x). put_block n x) s = Ret () t \<and> log_inv c t \<and> lframe s t \<and>
    cabs t = (cabs s)\<lparr>ac_view := apply_writes ups (bview s), ac_dirty := bdirty s \<union> fst ` set ups\<rparr>"
  using s ups g
proof (induction ups arbitrary: s)
  case Nil
  then show ?case by (auto intro!: lframe_of_bframe bframe_refl acache.equality)
next
  case (Cons a ups)
  obtain n x where a: "a = (n, x)" by (cases a)
  have "card (bdirty s) \<le> card (bdirty s \<union> fst ` set (a # ups))" by (rule card_mono) auto
  then obtain t where t: "put_block n x s = Ret () t" "log_inv c t" "lframe s t" "cabs t = ac_mark n (ac_set n x (cabs s))"
    using put_block_run [of c s n x] Cons.prems by (auto simp: a)
  have "ac_dirty (cabs t) = insert n (bdirty s)" "ac_view (cabs t) = (bview s)(n := x)" unfolding t(4) by (simp_all add: ac_defs)
  then have A: "bdirty t = insert n (bdirty s)" "bview t = (bview s)(n := x)" by simp_all
  have "idle (cabs t)" using Cons.prems(2) by (simp add: t(4) idle_def ac_defs)
  then have "\<exists>u. forK ups (\<lambda>(n, x). put_block n x) t = Ret () u \<and> log_inv c u \<and> lframe t u \<and>
    cabs u = (cabs t)\<lparr>ac_view := apply_writes ups (bview t), ac_dirty := bdirty t \<union> fst ` set ups\<rparr>"
    by (intro Cons.IH) (use t(2) Cons.prems lframe_simps [OF t(3)] A in \<open>auto simp: a\<close>)
  then obtain u where u: "forK ups (\<lambda>(n, x). put_block n x) t = Ret () u" "log_inv c u" "lframe t u"
    "cabs u = (cabs t)\<lparr>ac_view := apply_writes ups (bview t), ac_dirty := bdirty t \<union> fst ` set ups\<rparr>" by blast
  have "cabs u = (cabs s)\<lparr>ac_view := apply_writes (a # ups) (bview s), ac_dirty := bdirty s \<union> fst ` set (a # ups)\<rparr>"
    by (auto simp: u(4) t(4) A ac_defs a intro!: acache.equality)
  then show ?case using t(1) u lframe_trans [OF t(3) u(3)] by (auto simp: a bindK_def)
qed

section \<open>begin_op and end_op\<close>

lemma outstanding_simps [simp]:
  "bio_ok c (s\<lparr>log_outstanding := k\<rparr>) = bio_ok c s" "cabs (s\<lparr>log_outstanding := k\<rparr>) = cabs s"
  "lblk (s\<lparr>log_outstanding := k\<rparr>) = lblk s" "log_geo (s\<lparr>log_outstanding := k\<rparr>) = log_geo s"
  "bio_ok c (s\<lparr>log_committing := x\<rparr>) = bio_ok c s" "cabs (s\<lparr>log_committing := x\<rparr>) = cabs s"
  "lblk (s\<lparr>log_committing := x\<rparr>) = lblk s" "log_geo (s\<lparr>log_committing := x\<rparr>) = log_geo s"
  "bview (s\<lparr>log_outstanding := k\<rparr>) = bview s" "bview (s\<lparr>log_committing := x\<rparr>) = bview s"
  "bdirty (s\<lparr>log_outstanding := k\<rparr>) = bdirty s" "bdirty (s\<lparr>log_committing := x\<rparr>) = bdirty s"
  by (simp_all add: bio_ok_def fun_eq_iff lblk_def log_geo_def cabs_cong [where t = "s\<lparr>log_outstanding := k\<rparr>" and s = s]
      cabs_cong [where t = "s\<lparr>log_committing := x\<rparr>" and s = s])

lemma outstanding_simps' [simp]:
  "in_log (s\<lparr>log_outstanding := k\<rparr>) = in_log s" "in_log (s\<lparr>log_committing := x\<rparr>) = in_log s"
  "homes_ok (s\<lparr>log_outstanding := k\<rparr>) = homes_ok s" "homes_ok (s\<lparr>log_committing := x\<rparr>) = homes_ok s"
  by (simp_all add: in_log_def fun_eq_iff homes_ok_def)

lemma outstanding_simps'' [simp]:
  "log_inv c (s\<lparr>log_outstanding := k\<rparr>) = log_inv c s" "log_inv c (s\<lparr>log_committing := x\<rparr>) = log_inv c s"
  "disk_n (s\<lparr>log_outstanding := k\<rparr>) = disk_n s" "disk_n (s\<lparr>log_committing := x\<rparr>) = disk_n s"
  "all_or_nothing (s\<lparr>log_outstanding := k\<rparr>) W = all_or_nothing s W" "all_or_nothing (s\<lparr>log_committing := x\<rparr>) W = all_or_nothing s W"
  by (simp_all add: log_inv_def disk_n_def all_or_nothing_def rebooted_def)

lemma bio_ok_woken:
  assumes "bio_ok c s"
  shows "bio_ok c (woken ch s)" "cabs (woken ch s) = cabs s"
proof -
  note B = bio_okD [OF assms]
  have "p_pid (map (wake (Some ch)) (ptable s) ! c) = p_pid (ptable s ! c)" using B(3) by (simp add: wake_def)
  then show "bio_ok c (woken ch s)" using assms by (simp add: bio_ok_def woken_def)
  show "cabs (woken ch s) = cabs s" by (rule cabs_cong(3)) (simp_all add: woken_def)
qed

text \<open>The state between transactions.\<close>

definition log_quiet :: "nat \<Rightarrow> 'z klog_scheme \<Rightarrow> bool" where
  "log_quiet c s \<longleftrightarrow> bio_ok c s \<and> idle (cabs s) \<and> log_geo s \<and> bdirty s = {} \<and> lh_n s = 0 \<and> log_outstanding s = 0 \<and>
     \<not> log_committing s \<and> log_size s = 30 \<and> disk_n s = 0"

lemma begin_op_run:
  assumes "held s = {}" "\<not> log_committing s" "lh_n s + (log_outstanding s + 1) * 10 \<le> 30"
  shows "begin_op s = Ret () (s\<lparr>log_outstanding := log_outstanding s + 1\<rparr>)"
  using assms by (auto simp: begin_op_def begin_op_loop_def bindK_def acquire_def release_def intro!: klog.equality)

lemma end_op_run:
  assumes s: "commit_ready c s" "disk_n s = 0" and o: "log_outstanding s = 1" "\<not> log_committing s" "log_size s = 30"
  shows "\<exists>t W. end_op s = Ret () t \<and> log_quiet c t \<and> disk_hist t = disk_hist s @ W \<and> in_log t = in_log s \<and>
    (\<forall>m. \<not> in_log s m \<longrightarrow> disk t m = bview s m) \<and> all_or_nothing s W"
proof -
  let ?s = "s\<lparr>log_outstanding := 0, log_committing := True\<rparr>"
  have h: "held s = {}" using s(1) by (auto simp: commit_ready_iff log_inv_def bio_ok_def)
  have "commit_ready c ?s" "disk_n ?s = 0" using s by (simp_all add: commit_ready_iff)
  from commit_atomic [OF this] obtain t W where t: "commit ?s = Ret () t" "commit_ready c t" "bframe (?s\<lparr>lh_n := 0\<rparr>) t" "disk_n t = 0"
    "disk_hist t = disk_hist s @ W" "\<forall>m. \<not> in_log s m \<longrightarrow> disk t m = bview s m" "all_or_nothing ?s W" by auto
  note ft = bframe_log [OF t(3)]
  have ok: "bio_ok c t" "idle (cabs t)" "log_geo t" "held t = {}"
    using t(2) by (auto simp: commit_ready_iff log_inv_def bio_ok_def)
  have d: "bdirty t = {}" using t(2) ft(6) by (auto simp: commit_ready_def)
  let ?u = "woken ChanLog (t\<lparr>log_committing := False\<rparr>)"
  have W: "lh_n ?u = 0" "log_outstanding ?u = 0" "\<not> log_committing ?u" "log_size ?u = 30" "log_start ?u = log_start t" "disk ?u = disk t"
    "disk_hist ?u = disk_hist t" "lh_block ?u = lh_block t" "log_dev ?u = log_dev t" "disksize ?u = disksize t"
    using ft o by (simp_all add: woken_def)
  note U = bio_ok_woken [of c "t\<lparr>log_committing := False\<rparr>" ChanLog]
  have "ac_dirty (cabs ?u) = {}" using U(2) ok(1) d by simp
  then have "bdirty ?u = {}" by simp
  then have "log_quiet c ?u" using U ok W t(4) by (simp add: log_quiet_def log_geo_def disk_n_def lblk_def)
  moreover have "end_op s = Ret () ?u"
  proof -
    have "s\<lparr>log_outstanding := 0, log_committing := True, held := {}\<rparr> = ?s"
      using h by (intro klog.equality) simp_all
    then have "commit (s\<lparr>log_outstanding := 0, log_committing := True, held := {}\<rparr>) = Ret () t" using t(1) by metis
    moreover have "wakeup ChanLog (t\<lparr>held := {L_log}, log_committing := False\<rparr>) = Ret () (woken ChanLog (t\<lparr>held := {L_log}, log_committing := False\<rparr>))"
      by (rule wakeup_run) simp
    moreover have "woken ChanLog (t\<lparr>held := {L_log}, log_committing := False\<rparr>)\<lparr>held := {}\<rparr> = ?u"
      using ok(4) by (intro klog.equality) (simp_all add: woken_def)
    ultimately show ?thesis using h o ok(4)
      by (simp add: end_op_def bindK_def acquire_def release_def)
  qed
  moreover have "in_log ?u = in_log s" using ft W(5) by (simp add: in_log_def lblk_def fun_eq_iff)
  ultimately show ?thesis using t W by auto
qed

section \<open>A whole transaction\<close>

definition txn :: "(u32 \<times> byte list) list \<Rightarrow> ('z klog_scheme, unit) kop" where
  "txn ups = bindK begin_op (\<lambda>_. bindK (forK ups (\<lambda>(n, x). put_block n x)) (\<lambda>_. end_op))"

text \<open>C1: A transaction is atomic. From a state in which the log is empty, \<open>begin_op\<close>, updates of at most
  28 blocks outside the log and \<open>end_op\<close> run to the end, no matter which buffers are cached; then the
  blocks have their new contents on the disk and the log is empty again. If the machine stops after
  any prefix of the disk writes and boots again, \<open>recover_from_log\<close> runs to the end and leaves either
  all the old contents or all the new ones.\<close>

theorem txn_atomic:
  fixes s :: "'z klog_scheme"
  assumes s: "log_quiet c s" and ups: "\<forall>(n, x) \<in> set ups. n < disksize s \<and> \<not> in_log s n \<and> length x = 512"
    and g: "card (fst ` set ups) \<le> 28"
  shows "\<exists>t W. txn ups s = Ret () t \<and> log_quiet c t \<and> disk_hist t = disk_hist s @ W \<and> in_log t = in_log s \<and>
    (\<forall>m. \<not> in_log s m \<longrightarrow> disk t m = apply_writes ups (disk s) m) \<and>
    (\<forall>k d (r :: 'z klog_scheme). k \<le> length W \<longrightarrow> rebooted d s (apply_writes (take k W) (disk s)) r \<longrightarrow>
      (\<exists>u. recover_from_log r = Ret () u \<and> rebooted d s (disk u) u \<and> disk_n u = 0 \<and>
        ((\<forall>m. \<not> in_log s m \<longrightarrow> disk u m = disk s m) \<or> (\<forall>m. \<not> in_log s m \<longrightarrow> disk u m = apply_writes ups (disk s) m))))"
proof -
  let ?s = "s\<lparr>log_outstanding := 1\<rparr>"
  have q: "bio_ok c s" "idle (cabs s)" "bdirty s = {}" "lh_n s = 0" "log_geo s" "held s = {}" "disk_n s = 0"
    using s by (auto simp: log_quiet_def bio_ok_def)
  have v: "bview s = disk s" using idle_synced [OF q(1,2)] q(3) by (auto simp: synced_def)
  have 1: "begin_op s = Ret () ?s" using begin_op_run [of s] s q(6) by (simp add: log_quiet_def)
  have "log_inv c ?s" using q by (simp add: log_inv_def homes_ok_def)
  then have "\<exists>t. forK ups (\<lambda>(n, x). put_block n x) ?s = Ret () t \<and> log_inv c t \<and> lframe ?s t \<and>
    cabs t = (cabs ?s)\<lparr>ac_view := apply_writes ups (bview ?s), ac_dirty := bdirty ?s \<union> fst ` set ups\<rparr>"
    by (rule put_blocks_run) (use q ups g s in \<open>auto simp: log_quiet_def\<close>)
  then obtain t where t: "forK ups (\<lambda>(n, x). put_block n x) ?s = Ret () t" "log_inv c t" "lframe ?s t"
    "cabs t = (cabs s)\<lparr>ac_view := apply_writes ups (disk s), ac_dirty := fst ` set ups\<rparr>" using q(3) v by auto
  have A: "ac_view (cabs t) = apply_writes ups (disk s)" "ac_disk (cabs t) = disk s" "ac_hist (cabs t) = disk_hist s" "idle (cabs t)"
    unfolding t(4) using q(2) by (simp_all add: idle_def)
  note f = lframe_simps [OF t(3)]
  have "commit_ready c t" "disk_n t = 0" "log_outstanding t = 1" "\<not> log_committing t" "log_size t = 30"
    using t(2) A f q(7) s by (auto simp: commit_ready_iff disk_n_def log_quiet_def)
  from end_op_run [OF this] obtain u W where u: "end_op t = Ret () u" "log_quiet c u" "disk_hist u = disk_hist t @ W"
    "in_log u = in_log t" "\<forall>m. \<not> in_log t m \<longrightarrow> disk u m = bview t m" "all_or_nothing t W" by blast
  have "txn ups s = Ret () u" using 1 t(1) u(1) by (simp add: txn_def bindK_def)
  moreover have "rebooted d s D r = rebooted d t D r" for d D and r :: "'z klog_scheme" using f by (simp add: rebooted_def)
  ultimately show ?thesis using u A f unfolding all_or_nothing_def by (intro exI [of _ u] exI [of _ W]) simp
qed


text \<open>A machine with a disk of 1000 zero blocks and the log at block 2, before \<open>binit\<close>.\<close>

definition buf_zero :: buf where
  "buf_zero = \<lparr>b_valid = False, b_dirty = False, b_dev = 0, b_blockno = 0, b_refcnt = 0, b_prev = 0, b_next = 0,
     b_data = replicate 512 0\<rparr>"

definition klog_example :: klog where
  "klog_example = \<lparr>held = {}, mem = (\<lambda>_. 0), freelist = 0, use_lock = True, kend = 0, kdata = 0, kpgdir = 0, cr3 = 0, ts_ss0 = 0,
     ts_esp0 = 0, ts_iomb = 0, tr = 0, ptable = proc_zero\<lparr>p_state := RUNNING, p_pid := 1\<rparr> # replicate 63 proc_zero, nextpid = 2,
     initproc = Some 0, curproc = Some 0, other_procs = [], first = False, forkret_pc = 0, trapret_pc = 0,
     slocks = (\<lambda>_. \<lparr>sl_locked = False, sl_pid = 0\<rparr>), bufs = replicate 31 buf_zero, disk = (\<lambda>_. replicate 512 0), disksize = 1000,
     disk_hist = [], log_start = 2, log_size = 30, log_outstanding = 0, log_committing = False, log_dev = 1, lh_n = 0,
     lh_block = replicate 30 0\<rparr>"

lemma klog_example_quiet:
  "\<exists>s. binit klog_example = Ret () s \<and> log_quiet 0 s \<and> disksize s = 1000 \<and> log_start s = 2 \<and> disk s = (\<lambda>_. replicate 512 0)"
proof -
  have z: "bufs_zero (bufs klog_example)" by (auto simp: bufs_zero_def klog_example_def buf_zero_def)
  have "\<exists>s. binit klog_example = Ret () s \<and> bio_ok 0 s \<and> bframe klog_example s \<and> ring (bufs s) (rev [0..<30]) \<and> idle (cabs s) \<and>
      bdirty s = {} \<and> bview s = disk klog_example"
    by (rule binit_run [OF z]) (simp_all add: klog_example_def)
  then obtain s where s: "binit klog_example = Ret () s" "bio_ok 0 s" "bframe klog_example s" "idle (cabs s)" "bdirty s = {}"
    "bview s = disk klog_example" by blast
  have "disk s = bview s" using idle_synced [OF s(2,4)] s(5) by (auto simp: synced_def)
  then have d: "disk s = (\<lambda>_. replicate 512 0)" using s(6) by (simp add: klog_example_def)
  have "get32 (replicate 512 0) 0 = 0" by (simp add: get32_def)
  then have "disk_n s = 0" by (simp add: disk_n_def d)
  moreover have "log_geo klog_example" by (simp add: log_geo_def klog_example_def)
  ultimately show ?thesis using s d bframe_log [OF s(3)] by (auto simp: log_quiet_def klog_example_def)
qed

theorem txn_atomic_witness:
  "\<exists>(s :: klog) t. binit klog_example = Ret () s \<and> txn [(100, replicate 512 1), (101, replicate 512 2), (100, replicate 512 3)] s = Ret () t \<and>
     log_quiet 0 t \<and> disk t 100 = replicate 512 3 \<and> disk t 101 = replicate 512 2 \<and> disk t 102 = replicate 512 0"
proof -
  obtain s where s: "binit klog_example = Ret () s" "log_quiet 0 s" "disksize s = 1000" "log_start s = 2" "disk s = (\<lambda>_. replicate 512 0)"
    using klog_example_quiet by blast
  have geo: "log_geo s" using s(2) by (simp add: log_quiet_def)
  have il: "\<not> in_log s n" if "uint n > 40" for n
    using that uint_lblk [OF geo] s(4) by (auto simp: in_log_def)
  let ?u = "[(100, replicate 512 1), (101, replicate 512 2), (100, replicate 512 3)] :: (u32 \<times> byte list) list"
  have "\<forall>(n, x) \<in> set ?u. n < disksize s \<and> \<not> in_log s n \<and> length x = 512" using s(3) il by simp
  moreover have "card (fst ` set ?u) \<le> 28" by (simp add: card_insert_if)
  ultimately obtain t where "txn ?u s = Ret () t" "log_quiet 0 t" "\<And>m. \<not> in_log s m \<Longrightarrow> disk t m = apply_writes ?u (disk s) m"
    using txn_atomic [OF s(2), of ?u] by blast
  then show ?thesis using s il by (intro exI [of _ s] exI [of _ t]) simp
qed


text \<open>C2: The buffer cache implements the abstract block store. From a state with the invariant, \<open>bread\<close> of a
  block for which there is room returns a fresh handle whose data are the current contents of the
  block and changes nothing else; \<open>bwrite\<close> puts the contents of a handle on the disk as one write;
  \<open>brelse\<close> of a handle whose contents are on the disk or marked as modified gives the handle back.
  None of them panics, waits or breaks the invariant.\<close>

theorem bcache_refines:
  assumes ok: "bio_ok c s"
  shows "(\<forall>n. ac_room (cabs s) n \<longrightarrow> n < disksize s \<longrightarrow>
      (\<exists>b t. bread 1 n s = Ret b t \<and> bio_ok c t \<and> ac_use (cabs s) b = None \<and> cabs t = ac_read b n (cabs s) \<and>
         b_data (bufs t ! b) = ac_view (cabs s) n)) \<and>
    (\<forall>b n. ac_use (cabs s) b = Some n \<longrightarrow> n < disksize s \<longrightarrow>
      (\<exists>t. bwrite b s = Ret () t \<and> bio_ok c t \<and> cabs t = ac_write n (cabs s))) \<and>
    (\<forall>b n. ac_use (cabs s) b = Some n \<longrightarrow> n \<in> ac_dirty (cabs s) \<or> ac_view (cabs s) n = ac_disk (cabs s) n \<longrightarrow>
      (\<exists>t. brelse b s = Ret () t \<and> bio_ok c t \<and> cabs t = ac_rel b (cabs s)))"
proof (intro conjI allI impI)
  fix n assume n: "ac_room (cabs s) n" "n < disksize s"
  from bc.rd [OF ok n] obtain b t where t: "bread 1 n s = Ret b t" "bio_ok c t" "ac_use (cabs s) b = None" "cabs t = ac_read b n (cabs s)" by blast
  have "ac_use (cabs t) b = Some n" "ac_view (cabs t) = ac_view (cabs s)" unfolding t(4) by (simp_all add: ac_read_def)
  with bc.dat [OF t(2)] t show "\<exists>b t. bread 1 n s = Ret b t \<and> bio_ok c t \<and> ac_use (cabs s) b = None \<and> cabs t = ac_read b n (cabs s) \<and>
      b_data (bufs t ! b) = ac_view (cabs s) n" by metis
next
  fix b n assume "ac_use (cabs s) b = Some n" "n < disksize s"
  from bc.wr [OF ok this] show "\<exists>t. bwrite b s = Ret () t \<and> bio_ok c t \<and> cabs t = ac_write n (cabs s)" by blast
next
  fix b n assume "ac_use (cabs s) b = Some n" "n \<in> ac_dirty (cabs s) \<or> ac_view (cabs s) n = ac_disk (cabs s) n"
  from bc.rel [OF ok this] show "\<exists>t. brelse b s = Ret () t \<and> bio_ok c t \<and> cabs t = ac_rel b (cabs s)" by blast
qed

theorem bcache_refines_witness:
  "\<exists>s b t. binit klog_example = Ret () s \<and> bread 1 100 s = Ret b t \<and> b_data (bufs t ! b) = replicate 512 0 \<and> bio_ok 0 t"
proof -
  obtain s where s: "binit klog_example = Ret () s" "log_quiet 0 s" "disksize s = 1000" "disk s = (\<lambda>_. replicate 512 0)"
    using klog_example_quiet by blast
  then have ok: "bio_ok 0 s" "idle (cabs s)" "bdirty s = {}" by (auto simp: log_quiet_def)
  then have "ac_room (cabs s) 100" "100 < disksize s" using s(3) by (simp_all add: ac_room_def idle_def)
  moreover have "ac_view (cabs s) 100 = replicate 512 0" using idle_synced [OF ok(1,2)] ok(3) s(4) by (simp add: synced_def)
  ultimately show ?thesis using bcache_refines [OF ok(1)] s(1) by metis
qed

text \<open>C14: \<open>binit\<close> establishes the invariant of the cache: from zeroed buffers it returns with all thirty
  buffers on the list, the last one at the front, none of them locked, valid or modified, so that a
  reader finds the contents of the disk.\<close>

theorem binit_establishes:
  assumes "bufs_zero (bufs s)" "held s = {}" "curproc s = Some c" "c < length (ptable s)" "\<And>n. length (disk s n) = 512"
  shows "\<exists>t. binit s = Ret () t \<and> bio_ok c t \<and> ring (bufs t) (rev [0..<30]) \<and> ac_use (cabs t) = Map.empty \<and>
    ac_dirty (cabs t) = {} \<and> ac_view (cabs t) = disk s"
  using binit_run [OF assms] by (auto simp: idle_def)

theorem binit_establishes_witness:
  "\<exists>t. binit klog_example = Ret () t \<and> ring (bufs t) (rev [0..<30]) \<and> ac_view (cabs t) 7 = replicate 512 0"
proof -
  have z: "bufs_zero (bufs klog_example)" by (auto simp: bufs_zero_def klog_example_def buf_zero_def)
  have "\<exists>t. binit klog_example = Ret () t \<and> bio_ok 0 t \<and> ring (bufs t) (rev [0..<30]) \<and> ac_use (cabs t) = Map.empty \<and>
      ac_dirty (cabs t) = {} \<and> ac_view (cabs t) = disk klog_example"
    by (rule binit_establishes [OF z]) (simp_all add: klog_example_def)
  then show ?thesis by (auto simp: klog_example_def)
qed

text \<open>One more block than the header takes.\<close>

lemma put_block_too_big:
  assumes s: "log_inv c s" "idle (cabs s)" and n: "n < disksize s" "length x = 512" and g: "lh_n s = 29" "log_size s = 30"
  shows "put_block n x s = Panic ''too big a transaction''"
proof -
  have "card (bdirty s) = 29" using log_inv_card [OF s(1)] g(1) by simp
  then have "ac_room (cabs s) n" using s(2) by (simp add: ac_room_def idle_def)
  then obtain b t where t: "bread 1 n s = Ret b t" "bframe s t"
    using bc.rd [of c s n] s(1) n(1) unfolding log_inv_def by blast
  then show ?thesis using g bframe_log [OF t(2)] by (simp add: put_block_def bindK_def log_write_def upd_buf_def)
qed

text \<open>C15: The reservation of \<open>begin_op\<close> and the check of \<open>log_write\<close> disagree by one block. \<open>begin_op\<close> admits three
  operations of ten blocks each to an empty log. When they update 30 different blocks, the last
  \<open>log_write\<close> panics.\<close>

theorem reservation_off_by_one:
  assumes s: "log_quiet c s" and ups: "\<forall>(n, x) \<in> set ups. n < disksize s \<and> \<not> in_log s n \<and> length x = 512"
    and n: "distinct (map fst ups)" "length ups = 30"
  shows "bindK begin_op (\<lambda>_. bindK begin_op (\<lambda>_. bindK begin_op (\<lambda>_. forK ups (\<lambda>(n, x). put_block n x)))) s =
    Panic ''too big a transaction''"
proof -
  let ?s = "s\<lparr>log_outstanding := 3\<rparr>"
  let ?a = "take 28 ups"
  obtain n1 x1 n2 x2 where e: "ups ! 28 = (n1, x1)" "ups ! 29 = (n2, x2)" by fastforce
  have "drop 28 ups = [(n1, x1), (n2, x2)]"
    by (rule nth_equalityI) (use n(2) e in \<open>auto simp: less_Suc_eq numeral_2_eq_2\<close>)
  then have split: "ups = ?a @ [(n1, x1), (n2, x2)]" by (metis append_take_drop_id)
  have q: "log_inv c ?s" "idle (cabs ?s)" "held s = {}" "\<not> log_committing s" "lh_n s = 0" "log_outstanding s = 0" "bdirty s = {}" "log_size s = 30"
    using s by (auto simp: log_quiet_def log_inv_def homes_ok_def bio_ok_def)
  have "begin_op s = Ret () (s\<lparr>log_outstanding := 1\<rparr>)" "begin_op (s\<lparr>log_outstanding := 1\<rparr>) = Ret () (s\<lparr>log_outstanding := 2\<rparr>)"
    "begin_op (s\<lparr>log_outstanding := 2\<rparr>) = Ret () ?s"
    using q by (simp_all add: begin_op_run)
  moreover have "forK ups (\<lambda>(n, x). put_block n x) ?s = Panic ''too big a transaction''"
  proof -
    have "distinct (map fst ?a)" using n(1) by (metis distinct_take List.take_map)
    then have c28: "card (fst ` set ?a) = 28" using distinct_card [of "map fst ?a"] n(2) by simp
    have "\<exists>t. forK ?a (\<lambda>(n, x). put_block n x) ?s = Ret () t \<and> log_inv c t \<and> lframe ?s t \<and>
      cabs t = (cabs ?s)\<lparr>ac_view := apply_writes ?a (bview ?s), ac_dirty := bdirty ?s \<union> fst ` set ?a\<rparr>"
      by (rule put_blocks_run) (use q ups c28 in \<open>auto dest!: in_set_takeD\<close>)
    then obtain t where t: "forK ?a (\<lambda>(n, x). put_block n x) ?s = Ret () t" "log_inv c t" "lframe ?s t"
      "cabs t = (cabs s)\<lparr>ac_view := apply_writes ?a (bview s), ac_dirty := fst ` set ?a\<rparr>" using q(7) by auto
    have "ac_dirty (cabs t) = fst ` set ?a" unfolding t(4) by simp
    then have dt: "bdirty t = fst ` set ?a" by simp
    have it: "idle (cabs t)" using q(2) by (simp add: t(4) idle_def)
    have m: "(n1, x1) \<in> set ups" "(n2, x2) \<in> set ups" using nth_mem [of 28 ups] nth_mem [of 29 ups] n(2) e by simp_all
    then obtain u where u: "put_block n1 x1 t = Ret () u" "log_inv c u" "lframe t u" "cabs u = ac_mark n1 (ac_set n1 x1 (cabs t))"
      using put_block_run [OF t(2) it, of n1 x1] ups lframe_simps [OF t(3)] q(8) c28 dt by auto
    have "ac_dirty (cabs u) = insert n1 (bdirty t)" unfolding u(4) by (simp add: ac_defs)
    moreover have "distinct (map fst (?a @ [(n1, x1), (n2, x2)]))" using n(1) by (simp only: split [symmetric])
    then have "n1 \<notin> fst ` set ?a" by auto
    ultimately have "lh_n u = 29" using log_inv_card [OF u(2)] dt c28 by simp
    moreover have "idle (cabs u)" using it by (simp add: u(4) idle_def ac_defs)
    ultimately have "put_block n2 x2 u = Panic ''too big a transaction''"
      using put_block_too_big [OF u(2)] m ups lframe_simps [OF t(3)] lframe_simps [OF u(3)] q(8) by auto
    then show ?thesis using t(1) u(1) by (subst split) (simp add: forK_append bindK_def)
  qed
  ultimately show ?thesis by (simp add: bindK_def)
qed

theorem reservation_off_by_one_witness:
  "\<exists>s. binit klog_example = Ret () s \<and>
     bindK begin_op (\<lambda>_. bindK begin_op (\<lambda>_. bindK begin_op (\<lambda>_. forK (map (\<lambda>i. (of_nat (100 + i), replicate 512 1)) [0..<30])
       (\<lambda>(n, x). put_block n x)))) s = Panic ''too big a transaction''"
proof -
  obtain s where s: "binit klog_example = Ret () s" "log_quiet 0 s" "disksize s = 1000" "log_start s = 2"
    using klog_example_quiet by blast
  have geo: "log_geo s" using s(2) by (simp add: log_quiet_def)
  let ?u = "map (\<lambda>i. (of_nat (100 + i), replicate 512 1)) [0..<30] :: (u32 \<times> byte list) list"
  have u: "uint (of_nat (100 + i) :: u32) = int (100 + i)" if "i < 30" for i
    using that by (simp add: unsigned_of_nat take_bit_nat_eq_self del: of_nat_add)
  have "\<not> in_log s (of_nat (100 + i))" if "i < 30" for i
    using u [OF that] uint_lblk [OF geo] s(4) by (auto simp: in_log_def)
  moreover have "of_nat (100 + i) < disksize s" if "i < 30" for i using u [OF that] that s(3) by (simp add: word_less_def)
  ultimately have "\<forall>(n, x) \<in> set ?u. n < disksize s \<and> \<not> in_log s n \<and> length x = 512" by auto
  moreover have "inj_on (\<lambda>i. of_nat (100 + i) :: u32) {0..<30}"
  proof (rule inj_onI)
    fix i j :: nat assume *: "i \<in> {0..<30}" "j \<in> {0..<30}" "(of_nat (100 + i) :: u32) = of_nat (100 + j)"
    then have "uint (of_nat (100 + i) :: u32) = int (100 + i)" "uint (of_nat (100 + j) :: u32) = int (100 + j)"
      using u [of i] u [of j] by auto
    then have "int (100 + i) = int (100 + j)" unfolding *(3) by (rule trans [OF sym])
    then show "i = j" by simp
  qed
  then have "distinct (map fst ?u)" by (simp add: distinct_map comp_def del: of_nat_add)
  moreover have "length ?u = 30" by simp
  ultimately show ?thesis using reservation_off_by_one [OF s(2)] s(1) by blast
qed

end
