(* ===== verification/Grep.thy ===== *)
theory Grep
  imports Prelude
begin

text \<open>
  The user program \<^verbatim>\<open>grep.c\<close>. A pointer into a string is the list of the bytes from there up to the
  terminating zero, which the list leaves out; so \<open>re[1] == '*'\<close> is a test of the second byte of the
  list. \<open>grep\<close> reads from an input that delivers its bytes in chunks: a \<^verbatim>\<open>read\<close> returns the next
  chunk, cut to the number of bytes asked for.

  The reference is what a pattern describes: a list of atoms, each once or any number of times, and
  whether the match has to reach the end of the text.
\<close>

abbreviation (input) STAR :: byte where "STAR \<equiv> 42"
abbreviation (input) DOT :: byte where "DOT \<equiv> 46"
abbreviation (input) DOLLAR :: byte where "DOLLAR \<equiv> 36"
abbreviation (input) CARET :: byte where "CARET \<equiv> 94"
abbreviation (input) NEWLINE :: byte where "NEWLINE \<equiv> 10"

section \<open>The matcher\<close>

function (sequential) matchhere :: "byte list \<Rightarrow> byte list \<Rightarrow> bool"
  and matchstar :: "byte \<Rightarrow> byte list \<Rightarrow> byte list \<Rightarrow> bool" where
  "matchhere [] text = True"
| "matchhere (r # re) text =
     (if re \<noteq> [] \<and> hd re = STAR then matchstar r (tl re) text
      else if r = DOLLAR \<and> re = [] then text = []
      else if text \<noteq> [] \<and> (r = DOT \<or> r = hd text) then matchhere re (tl text)
      else False)"
| "matchstar c re text =
     (if matchhere re text then True
      else if text \<noteq> [] \<and> (hd text = c \<or> c = DOT) then matchstar c re (tl text)
      else False)"
  by pat_completeness auto

termination
proof (relation "measures [\<lambda>x. case x of Inl (re, text) \<Rightarrow> length re | Inr (c, re, text) \<Rightarrow> length re,
     \<lambda>x. case x of Inl (re, text) \<Rightarrow> length text | Inr (c, re, text) \<Rightarrow> Suc (length text)]", goal_cases)
  case (2 r re x)
  then show ?case by (cases re) auto
qed (auto simp: less_Suc_eq_le)

fun match_loop :: "byte list \<Rightarrow> byte list \<Rightarrow> bool" where
  "match_loop re [] = matchhere re []"
| "match_loop re (t # text) = (if matchhere re (t # text) then True else match_loop re text)"

definition match :: "byte list \<Rightarrow> byte list \<Rightarrow> bool" where
  "match re text = (if re \<noteq> [] \<and> hd re = CARET then matchhere (tl re) text else match_loop re text)"

section \<open>What a pattern describes\<close>

datatype atom = Once byte | Many byte

fun pattern :: "byte list \<Rightarrow> atom list \<times> bool" where
  "pattern [] = ([], False)"
| "pattern [r] = (if r = DOLLAR then ([], True) else ([Once r], False))"
| "pattern (r # q # re) =
     (if q = STAR then (Many r # fst (pattern re), snd (pattern re))
      else (Once r # fst (pattern (q # re)), snd (pattern (q # re))))"

definition fits :: "byte \<Rightarrow> byte \<Rightarrow> bool" where
  "fits r t \<longleftrightarrow> r = DOT \<or> r = t"

inductive matches :: "atom list \<Rightarrow> byte list \<Rightarrow> bool" where
  empty: "matches [] []"
| once: "fits r t \<Longrightarrow> matches ps u \<Longrightarrow> matches (Once r # ps) (t # u)"
| many: "list_all (fits r) v \<Longrightarrow> matches ps u \<Longrightarrow> matches (Many r # ps) (v @ u)"

inductive_cases matches_elims: "matches [] u" "matches (Once r # ps) u" "matches (Many r # ps) u"

definition finds_at_start :: "atom list \<times> bool \<Rightarrow> byte list \<Rightarrow> bool" where
  "finds_at_start P text \<longleftrightarrow> (\<exists>u w. text = u @ w \<and> matches (fst P) u \<and> (snd P \<longrightarrow> w = []))"

lemma finds_at_startE:
  assumes "finds_at_start (ps, e) text"
  obtains u w where "text = u @ w" "matches ps u" "e \<longrightarrow> w = []"
  using assms by (auto simp: finds_at_start_def)

lemma finds_at_startI: "matches ps u \<Longrightarrow> (e \<longrightarrow> w = []) \<Longrightarrow> finds_at_start (ps, e) (u @ w)"
  unfolding finds_at_start_def by auto

lemma finds_Nil: "finds_at_start ([], e) text \<longleftrightarrow> (e \<longrightarrow> text = [])"
  by (auto simp: finds_at_start_def elim: matches_elims intro: matches.empty)

lemma finds_Once: "finds_at_start (Once r # ps, e) text \<longleftrightarrow> text \<noteq> [] \<and> fits r (hd text) \<and> finds_at_start (ps, e) (tl text)"
proof
  assume "finds_at_start (Once r # ps, e) text"
  then obtain v w where "text = v @ w" "matches (Once r # ps) v" "e \<longrightarrow> w = []" by (rule finds_at_startE)
  then obtain t u where "text = t # u @ w" "fits r t" "matches ps u" "e \<longrightarrow> w = []" by (auto elim: matches_elims(2))
  then show "text \<noteq> [] \<and> fits r (hd text) \<and> finds_at_start (ps, e) (tl text)" by (simp add: finds_at_startI)
next
  assume *: "text \<noteq> [] \<and> fits r (hd text) \<and> finds_at_start (ps, e) (tl text)"
  then obtain u w where "tl text = u @ w" "matches ps u" "e \<longrightarrow> w = []" by (blast elim: finds_at_startE)
  with * finds_at_startI [OF matches.once, of r "hd text" ps u e w] show "finds_at_start (Once r # ps, e) text"
    by (cases "text") auto
qed

lemma finds_ManyE:
  assumes "finds_at_start (Many r # ps, e) text"
  obtains v u w where "text = v @ u @ w" "list_all (fits r) v" "matches ps u" "e \<longrightarrow> w = []"
proof -
  from assms obtain x w where x: "text = x @ w" "matches (Many r # ps) x" "e \<longrightarrow> w = []" by (rule finds_at_startE)
  from x(2) obtain v u where "x = v @ u" "list_all (fits r) v" "matches ps u" by (rule matches_elims(3))
  with x that show thesis by simp
qed

lemma finds_ManyI: "list_all (fits r) v \<Longrightarrow> matches ps u \<Longrightarrow> (e \<longrightarrow> w = []) \<Longrightarrow> finds_at_start (Many r # ps, e) (v @ u @ w)"
  using finds_at_startI [OF matches.many, of r v ps u e w] by simp

lemma finds_Many:
  "finds_at_start (Many r # ps, e) text \<longleftrightarrow>
     finds_at_start (ps, e) text \<or> text \<noteq> [] \<and> fits r (hd text) \<and> finds_at_start (Many r # ps, e) (tl text)" (is "_ \<longleftrightarrow> ?R")
proof
  assume "finds_at_start (Many r # ps, e) text"
  then obtain v u w where *: "text = v @ u @ w" "list_all (fits r) v" "matches ps u" "e \<longrightarrow> w = []" by (rule finds_ManyE)
  show ?R
  proof (cases v)
    case Nil
    with * show ?thesis by (simp add: finds_at_startI)
  next
    case (Cons t v')
    with * show ?thesis by (simp add: finds_ManyI)
  qed
next
  assume ?R
  then show "finds_at_start (Many r # ps, e) text"
  proof
    assume "finds_at_start (ps, e) text"
    then obtain u w where "text = u @ w" "matches ps u" "e \<longrightarrow> w = []" by (rule finds_at_startE)
    then show ?thesis using finds_ManyI [of r "[]"] by simp
  next
    assume *: "text \<noteq> [] \<and> fits r (hd text) \<and> finds_at_start (Many r # ps, e) (tl text)"
    then obtain v u w where "tl text = v @ u @ w" "list_all (fits r) v" "matches ps u" "e \<longrightarrow> w = []" by (blast elim: finds_ManyE)
    with * finds_ManyI [of r "hd text # v" ps u e w] show ?thesis by (cases "text") auto
  qed
qed

lemma matchhere_finds:
  "matchhere re text \<longleftrightarrow> finds_at_start (pattern re) text"
  "matchstar c re text \<longleftrightarrow> finds_at_start (Many c # fst (pattern re), snd (pattern re)) text"
proof (induction re "text" and c re "text" rule: matchhere_matchstar.induct)
  case (1 x)
  then show ?case by (simp add: finds_Nil)
next
  case (2 r re x)
  then show ?case by (cases re) (auto simp: finds_Nil finds_Once fits_def)
next
  case (3 c re x)
  then show ?case by (subst finds_Many) (auto simp: fits_def)
qed

lemma match_loop_finds: "match_loop re text \<longleftrightarrow> (\<exists>i \<le> length text. finds_at_start (pattern re) (drop i text))"
proof (induction re "text" rule: match_loop.induct)
  case (2 re t x)
  have "(\<exists>i \<le> length (t # x). finds_at_start (pattern re) (drop i (t # x))) \<longleftrightarrow>
      finds_at_start (pattern re) (t # x) \<or> (\<exists>i \<le> length x. finds_at_start (pattern re) (drop i x))" (is "?L \<longleftrightarrow> ?R")
  proof
    assume ?L
    then obtain i where "i \<le> length (t # x)" "finds_at_start (pattern re) (drop i (t # x))" by blast
    then show ?R by (cases i) auto
  next
    assume ?R
    then show ?L by (metis Suc_le_mono drop0 drop_Suc_Cons le0 length_Cons)
  qed
  with 2 show ?case by (simp add: matchhere_finds)
qed (simp add: matchhere_finds)

section \<open>The loop over the input\<close>

text \<open>\<open>strchr_list\<close> is \<^verbatim>\<open>strchr\<close> of \<^verbatim>\<open>ulib.c\<close>: the position of the character before the terminating zero.\<close>

definition strchr_list :: "byte \<Rightarrow> byte list \<Rightarrow> nat option" where
  "strchr_list c bs = find_idx (\<lambda>b. b = c) (takeWhile (\<lambda>b. b \<noteq> 0) bs)"

lemma strchr_list_bound: "strchr_list c bs = Some k \<Longrightarrow> k < length bs"
  unfolding strchr_list_def by (meson find_idx_bound length_takeWhile_le less_le_trans)

text \<open>
  The inner loop: what it writes, and the bytes from the last \<open>p\<close> on. The outer loop starts with the
  \<open>m\<close> bytes that are left over in the buffer of 1024 bytes.
\<close>

function grep_lines :: "byte list \<Rightarrow> byte list \<Rightarrow> byte list \<times> byte list" where
  "grep_lines re bs =
     (case strchr_list NEWLINE bs of
        None \<Rightarrow> ([], bs)
      | Some k \<Rightarrow>
          let r = grep_lines re (drop (Suc k) bs)
          in ((if match re (take k bs) then take k bs @ [NEWLINE] else []) @ fst r, snd r))"
  by pat_completeness auto
termination
  by (relation "measure (length \<circ> snd)") (auto dest: strchr_list_bound)

declare grep_lines.simps [simp del]

definition read_chunk :: "nat \<Rightarrow> byte list list \<Rightarrow> byte list \<times> byte list list" where
  "read_chunk n ins =
     (case ins of
        [] \<Rightarrow> ([], [])
      | c # cs \<Rightarrow> if length c \<le> n then (c, cs) else (take n c, drop n c # cs))"

lemma read_chunk_less: "read_chunk n ins = (c, cs) \<Longrightarrow> c \<noteq> [] \<Longrightarrow> sum_list (map length cs) < sum_list (map length ins)"
  by (cases ins) (auto simp: read_chunk_def split: if_splits)

function grep_loop :: "byte list \<Rightarrow> byte list \<Rightarrow> byte list list \<Rightarrow> byte list" where
  "grep_loop re buf ins =
     (case read_chunk (1024 - length buf - 1) ins of (c, cs) \<Rightarrow>
        if c = [] then []
        else
          let bs = buf @ c; r = grep_lines re bs
          in fst r @ grep_loop re (if length (snd r) = length bs then [] else snd r) cs)"
  by pat_completeness auto
termination
  by (relation "measure (\<lambda>(re, buf, ins). sum_list (map length ins))") (auto dest!: read_chunk_less [OF sym])

declare grep_loop.simps [simp del]

definition grep :: "byte list \<Rightarrow> byte list list \<Rightarrow> byte list" where
  "grep re ins = grep_loop re [] ins"

text \<open>
  \<open>main\<close>, with what it writes to which descriptor. \<open>opn\<close> gives what the files deliver, \<open>None\<close> for a
  file that cannot be opened.
\<close>

fun grep_files :: "(byte list \<Rightarrow> byte list list option) \<Rightarrow> byte list \<Rightarrow> byte list list \<Rightarrow> (nat \<times> byte list) list" where
  "grep_files opn re [] = []"
| "grep_files opn re (f # fs) =
     (case opn f of
        None \<Rightarrow> [(1, bytes ''grep: cannot open '' @ f @ [NEWLINE])]
      | Some ins \<Rightarrow> (1, grep re ins) # grep_files opn re fs)"

definition grep_main :: "byte list list \<Rightarrow> (byte list \<Rightarrow> byte list list option) \<Rightarrow> byte list list \<Rightarrow> (nat \<times> byte list) list" where
  "grep_main stdin opn argv =
     (if length argv \<le> 1 then [(2, bytes ''usage: grep pattern [file ...]'' @ [NEWLINE])]
      else if length argv \<le> 2 then [(1, grep (argv ! 1) stdin)]
      else grep_files opn (argv ! 1) (drop 2 argv))"

section \<open>Files of short lines\<close>

definition line_ok :: "byte list \<Rightarrow> bool" where
  "line_ok l \<longleftrightarrow> 0 \<notin> set l \<and> NEWLINE \<notin> set l \<and> length l \<le> 1022"

definition hit :: "byte list \<Rightarrow> byte list \<Rightarrow> byte list" where
  "hit re l = (if match re l then l @ [NEWLINE] else [])"

definition unlines :: "byte list list \<Rightarrow> byte list" where
  "unlines ls = concat (map (\<lambda>l. l @ [NEWLINE]) ls)"

lemma unlines_simps [simp]: "unlines [] = []" "unlines (l # ls) = l @ NEWLINE # unlines ls"
  by (simp_all add: unlines_def)

lemma strchr_line:
  assumes "line_ok l"
  shows "strchr_list NEWLINE (l @ NEWLINE # bs) = Some (length l)"
proof -
  have "takeWhile (\<lambda>b. b \<noteq> 0) (l @ NEWLINE # bs) = l @ NEWLINE # takeWhile (\<lambda>b. b \<noteq> 0) bs"
    using assms by (subst takeWhile_append2) (auto simp: line_ok_def)
  then show ?thesis
    unfolding strchr_list_def
    by (intro find_idx_SomeI) (use assms in \<open>auto simp: line_ok_def nth_append dest: nth_mem\<close>)
qed

lemma strchr_none: "NEWLINE \<notin> set bs \<Longrightarrow> strchr_list NEWLINE bs = None"
  unfolding strchr_list_def by (auto simp: find_idx_None_iff dest: set_takeWhileD)

lemma grep_lines_line: "line_ok l \<Longrightarrow> grep_lines re (l @ NEWLINE # bs) = (hit re l @ fst (grep_lines re bs), snd (grep_lines re bs))"
  by (subst grep_lines.simps) (simp add: strchr_line hit_def Let_def)

lemma grep_lines_rest: "NEWLINE \<notin> set bs \<Longrightarrow> grep_lines re bs = ([], bs)"
  by (subst grep_lines.simps) (simp add: strchr_none)

lemma grep_lines_run:
  "list_all line_ok ls \<Longrightarrow> NEWLINE \<notin> set p \<Longrightarrow> grep_lines re (unlines ls @ p) = (concat (map (hit re) ls), p)"
  by (induction ls) (simp_all add: grep_lines_rest grep_lines_line)

text \<open>Every prefix of a file is some whole lines and the start of the next one.\<close>

lemma prefix_lines:
  assumes "list_all line_ok ls"
  obtains as p ls' where "take n (unlines ls) = unlines as @ p" "NEWLINE \<notin> set p" "length p \<le> 1022" "list_all line_ok (as @ ls')"
    "p @ drop n (unlines ls) = unlines ls'" "ls = as @ ls'"
  using assms
proof (induction ls arbitrary: n thesis)
  case Nil
  then show ?case by (auto intro: Nil.prems(1) [of "[]" "[]" "[]"])
next
  case (Cons l ls)
  then have l: "line_ok l" "list_all line_ok ls" by simp_all
  show ?case
  proof (cases "n \<le> length l")
    case True
    have "NEWLINE \<notin> set (take n l)" "length (take n l) \<le> 1022" using l(1) by (auto simp: line_ok_def dest: in_set_takeD)
    then show ?thesis using Cons.prems(1) [of "[]" "take n l" "l # ls"] l True by simp
  next
    case False
    then obtain k where k: "n = Suc (length l + k)" by (metis add_Suc_right less_iff_Suc_add not_le)
    obtain as p ls' where *: "take k (unlines ls) = unlines as @ p" "NEWLINE \<notin> set p" "length p \<le> 1022" "list_all line_ok (as @ ls')"
      "p @ drop k (unlines ls) = unlines ls'" "ls = as @ ls'" using Cons.IH [of k] l(2) by blast
    then show ?thesis using Cons.prems(1) [of "l # as" p ls'] l k by simp
  qed
qed

lemma newline_in_prefix:
  assumes "list_all line_ok ls" "ls \<noteq> []" "n \<ge> 1023 \<or> n \<ge> length (unlines ls)"
  shows "NEWLINE \<in> set (take n (unlines ls))"
proof -
  obtain l ls' where ls: "ls = l # ls'" "length l \<le> 1022" using assms(1,2) by (cases ls) (auto simp: line_ok_def)
  then have "length l < n" using assms(3) by auto
  then obtain k where "n = Suc (length l + k)" by (metis less_iff_Suc_add)
  then show ?thesis by (simp add: ls)
qed

lemma grep_loop_run:
  assumes "list_all line_ok ls" "buf @ inp = unlines ls" "NEWLINE \<notin> set buf" "length buf \<le> 1022"
  shows "grep_loop re buf [inp] = concat (map (hit re) ls)"
  using assms
proof (induction "length inp" arbitrary: buf inp ls rule: less_induct)
  case less
  let ?n = "1024 - length buf - 1"
  show ?case
  proof (cases "inp = []")
    case True
    with less.prems have "ls = []" by (cases ls) auto
    with True show ?thesis by (subst grep_loop.simps) (simp add: read_chunk_def)
  next
    case False
    have n: "0 < ?n" using less.prems(4) by simp
    let ?c = "take ?n inp"
    have c: "?c \<noteq> []" using False n by simp
    have ls: "ls \<noteq> []" using False less.prems(2) by auto
    have t: "buf @ ?c = take 1023 (unlines ls)" using less.prems(2,4) by (simp flip: less.prems(2))
    obtain as p ls' where *: "buf @ ?c = unlines as @ p" "NEWLINE \<notin> set p" "length p \<le> 1022" "list_all line_ok (as @ ls')"
      "p @ drop 1023 (unlines ls) = unlines ls'" "ls = as @ ls'"
      using prefix_lines [OF less.prems(1), of 1023] t by metis
    have "NEWLINE \<in> set (buf @ ?c)" unfolding t by (rule newline_in_prefix [OF less.prems(1) ls]) simp
    then have "as \<noteq> []" using * by auto
    then have as: "length p \<noteq> length (unlines as @ p)" by (cases as) simp_all
    have d: "drop 1023 (unlines ls) = drop ?n inp" using less.prems(4) by (simp flip: less.prems(2))
    have gl: "grep_lines re (buf @ ?c) = (concat (map (hit re) as), p)"
      unfolding *(1) by (rule grep_lines_run) (use * in simp_all)
    have "grep_loop re p [drop ?n inp] = concat (map (hit re) ls')"
    proof (rule less.hyps)
      show "length (drop ?n inp) < length inp" using False n by (cases inp) auto
    qed (use * d in simp_all)
    moreover have "grep_loop re p [] = concat (map (hit re) ls')" if "length inp \<le> ?n"
    proof -
      have "p = unlines ls'" using *(5) d that by simp
      then have "ls' = []" using *(2) by (cases ls') auto
      then show ?thesis by (subst grep_loop.simps) (simp add: read_chunk_def)
    qed
    moreover have "length p \<noteq> length (buf @ ?c)" using as unfolding *(1) .
    ultimately show ?thesis
      using c gl *(6) by (subst grep_loop.simps) (auto simp: read_chunk_def Let_def)
  qed
qed

section \<open>Properties\<close>

text \<open>C16: The matcher of \<^verbatim>\<open>grep\<close> decides what patterns mean. \<open>match\<close> returns, for every pattern and every text, and
  it returns true exactly when the text has a part that the atoms of the pattern describe: a part at
  the start of the text if the pattern begins with \<open>^\<close>, and a part up to the end if it ends in \<open>$\<close>.\<close>

theorem match_correct:
  "match re text \<longleftrightarrow>
     (if re \<noteq> [] \<and> hd re = CARET then finds_at_start (pattern (tl re)) text
      else \<exists>i \<le> length text. finds_at_start (pattern re) (drop i text))"
  by (simp add: match_def matchhere_finds match_loop_finds)

text \<open>C17: On a file whose lines have at most 1022 characters, \<open>grep\<close> writes exactly the lines that match, in order,
  however the lines lie relative to the 1023 bytes it reads at a time.\<close>

theorem grep_correct:
  assumes "list_all line_ok ls"
  shows "grep re [unlines ls] = unlines (List.filter (match re) ls)"
proof -
  have "concat (map (hit re) ls) = unlines (List.filter (match re) ls)" by (induction ls) (simp_all add: hit_def)
  then show ?thesis using grep_loop_run [OF assms, of "[]" "unlines ls" re] by (simp add: grep_def)
qed

theorem grep_correct_witness:
  "grep [94, 98] [unlines [[97, 98], [98, 97]]] = [98, 97, 10]"
proof -
  have "list_all line_ok [[97, 98], [98, 97]]" by (simp add: line_ok_def)
  from grep_correct [OF this, of "[94, 98]"] show ?thesis by (simp add: match_def)
qed

text \<open>C18: When a line arrives in two pieces and the buffer holds no newline after the first, \<open>grep\<close> forgets the
  first piece: the line \<open>ab\<close> then matches \<open>^b\<close>, and what is written is not the line.\<close>

theorem grep_forgets_start:
  assumes "NEWLINE \<notin> set c" "c \<noteq> []" "length c \<le> 1023" "line_ok l"
  shows "grep re [c, l @ [NEWLINE]] = (if match re l then l @ [NEWLINE] else [])"
proof -
  have "grep_loop re [] [c, l @ [NEWLINE]] = grep_loop re [] [l @ [NEWLINE]]"
    using assms by (subst grep_loop.simps) (simp add: read_chunk_def grep_lines_rest)
  also have "\<dots> = concat (map (hit re) [l])"
    by (rule grep_loop_run) (use assms in simp_all)
  finally show ?thesis by (simp add: grep_def hit_def)
qed

theorem grep_forgets_start_witness:
  "grep [94, 98] [[97], [98, 10]] = [98, 10] \<and> grep [94, 98] [[97, 98, 10]] = []"
proof -
  have "grep [94, 98] [[97], [98] @ [10]] = (if match [94, 98] [98] then [98] @ [10] else [])"
    by (rule grep_forgets_start) (simp_all add: line_ok_def)
  moreover have "list_all line_ok [[97, 98]]" by (simp add: line_ok_def)
  then have "grep_loop [94, 98] [] [[97, 98, 10]] = concat (map (hit [94, 98]) [[97, 98]])" by (rule grep_loop_run) simp_all
  ultimately show ?thesis by (simp add: match_def hit_def grep_def)
qed

end
