(* ===== verification/Rt_Sched.thy ===== *)
theory Rt_Sched
  imports Prelude
begin

text \<open>
  The simulators of real-time scheduling, \<^verbatim>\<open>src/edf_premption.c\<close> (earliest deadline first) and
  \<^verbatim>\<open>src/rms_premption.c\<close> (rate monotonic). Both simulate one processor in steps of one time unit on an
  array of periodic processes; EDF sorts the array by the next deadline before every step, RMS once by
  the period. What they print is left out, apart from the sums behind the averages and the busy time
  behind the utilization. C's \<^verbatim>\<open>int\<close> is an \<open>int\<close>: times and sums are taken to stay in its range.

  The locale \<open>priority_step\<close> is what the two simulators share: the first ready process of an array
  that is sorted by a key is executed.
\<close>

section \<open>Sorting\<close>

text \<open>The two sorting functions are the same code with another field as the key.\<close>

definition cswap :: "('a \<Rightarrow> int) \<Rightarrow> nat \<Rightarrow> nat \<Rightarrow> 'a list \<Rightarrow> 'a list" where
  "cswap key i j ps = (if key (ps ! i) > key (ps ! j) then ps[i := ps ! j, j := ps ! i] else ps)"

definition sort_pass :: "('a \<Rightarrow> int) \<Rightarrow> nat \<Rightarrow> nat \<Rightarrow> 'a list \<Rightarrow> 'a list" where
  "sort_pass key n i ps = fold (cswap key i) [Suc i..<n] ps"

definition exchange_sort :: "('a \<Rightarrow> int) \<Rightarrow> nat \<Rightarrow> 'a list \<Rightarrow> 'a list" where
  "exchange_sort key n ps = fold (sort_pass key n) [0..<n - 1] ps"

lemma cswap_mset: "i < length ps \<Longrightarrow> j < length ps \<Longrightarrow> mset (cswap key i j ps) = mset ps"
  by (simp add: cswap_def mset_swap)

lemma length_cswap [simp]: "length (cswap key i j ps) = length ps"
  by (simp add: cswap_def)

lemma nth_cswap:
  "i < length ps \<Longrightarrow> j < length ps \<Longrightarrow> i \<noteq> j \<Longrightarrow> k < length ps \<Longrightarrow>
     cswap key i j ps ! k =
       (if key (ps ! i) > key (ps ! j) then (if k = j then ps ! i else if k = i then ps ! j else ps ! k) else ps ! k)"
  by (simp add: cswap_def nth_list_update)

text \<open>A pass puts a least element of the rest at position \<open>i\<close> and leaves what is before it alone.\<close>

lemma pass_upto:
  assumes "m \<le> length ps" "i < m"
  shows "length (fold (cswap key i) [Suc i..<m] ps) = length ps \<and> mset (fold (cswap key i) [Suc i..<m] ps) = mset ps \<and>
    take i (fold (cswap key i) [Suc i..<m] ps) = take i ps \<and> drop m (fold (cswap key i) [Suc i..<m] ps) = drop m ps \<and>
    (\<forall>j. i \<le> j \<longrightarrow> j < m \<longrightarrow> key (fold (cswap key i) [Suc i..<m] ps ! i) \<le> key (fold (cswap key i) [Suc i..<m] ps ! j))"
  using assms
proof (induction m)
  case (Suc m)
  show ?case
  proof (cases "i = m")
    case True
    then show ?thesis by (auto simp: less_Suc_eq)
  next
    case False
    let ?q = "fold (cswap key i) [Suc i..<m] ps"
    have im: "i < m" using False Suc.prems by simp
    with Suc have IH: "length ?q = length ps" "mset ?q = mset ps" "take i ?q = take i ps" "drop m ?q = drop m ps"
      "\<And>j. i \<le> j \<Longrightarrow> j < m \<Longrightarrow> key (?q ! i) \<le> key (?q ! j)" by auto
    have l: "i < length ?q" "m < length ?q" using im Suc.prems IH(1) by simp_all
    have e: "fold (cswap key i) [Suc i..<Suc m] ps = cswap key i m ?q" using im by simp
    have t: "take i (cswap key i m ?q) = take i ?q" using im by (simp add: cswap_def)
    have d: "drop (Suc m) (cswap key i m ?q) = drop (Suc m) ?q" using im by (simp add: cswap_def drop_update_cancel)
    have "drop (Suc m) ?q = drop (Suc m) ps" using IH(4) by (metis drop_Suc tl_drop)
    moreover have "key (cswap key i m ?q ! i) \<le> key (cswap key i m ?q ! j)" if "i \<le> j" "j < Suc m" for j
      using IH(5) [of j] that l im False nth_cswap [of i ?q m, of j key] nth_cswap [of i ?q m, of i key]
      by (auto simp: less_Suc_eq)
    ultimately show ?thesis using IH t d cswap_mset [OF l, of key] unfolding e by simp
  qed
qed simp

lemma sort_upto:
  assumes "k < length ps"
  shows "length (fold (sort_pass key (length ps)) [0..<k] ps) = length ps \<and> mset (fold (sort_pass key (length ps)) [0..<k] ps) = mset ps \<and>
    (\<forall>i j. i < k \<longrightarrow> i \<le> j \<longrightarrow> j < length ps \<longrightarrow>
       key (fold (sort_pass key (length ps)) [0..<k] ps ! i) \<le> key (fold (sort_pass key (length ps)) [0..<k] ps ! j))"
  using assms
proof (induction k)
  case (Suc k)
  let ?n = "length ps"
  let ?q = "fold (sort_pass key ?n) [0..<k] ps"
  let ?r = "sort_pass key ?n k ?q"
  have IH: "length ?q = ?n" "mset ?q = mset ps" "\<And>i j. i < k \<Longrightarrow> i \<le> j \<Longrightarrow> j < ?n \<Longrightarrow> key (?q ! i) \<le> key (?q ! j)"
    using Suc by auto
  have P: "length ?r = ?n" "mset ?r = mset ?q" "take k ?r = take k ?q" "\<And>j. k \<le> j \<Longrightarrow> j < ?n \<Longrightarrow> key (?r ! k) \<le> key (?r ! j)"
    using pass_upto [of ?n ?q k key] Suc.prems IH(1) by (auto simp: sort_pass_def)
  have t: "?r ! i = ?q ! i" if "i < k" for i using P(3) that by (metis nth_take)
  have "mset (drop k ?r) = mset (drop k ?q)"
    using P(2,3) by (metis append_take_drop_id mset_append add_left_cancel)
  then have d: "set (drop k ?r) = set (drop k ?q)" by (rule mset_eq_setD)
  have "key (?r ! i) \<le> key (?r ! j)" if "i < Suc k" "i \<le> j" "j < ?n" for i j
  proof (cases "i = k")
    case True
    then show ?thesis using P(4) that by simp
  next
    case False
    then have i: "i < k" using that by simp
    show ?thesis
    proof (cases "j < k")
      case True
      then show ?thesis using IH(3) [OF i, of j] that t i by simp
    next
      case False
      then have "?r ! j \<in> set (drop k ?r)" using that P(1) by (auto simp: in_set_conv_nth intro!: exI [of _ "j - k"])
      then obtain l where "l < ?n - k" "?q ! (k + l) = ?r ! j" unfolding d using IH(1) by (auto simp: in_set_conv_nth)
      then show ?thesis using IH(3) [OF i, of "k + l"] t [OF i] i by simp
    qed
  qed
  then show ?case using P IH by simp
qed simp

text \<open>The result is a sorted permutation of the array.\<close>

lemma exchange_sort_correct:
  "mset (exchange_sort key (length ps) ps) = mset ps \<and> sorted (map key (exchange_sort key (length ps) ps))"
proof (cases "length ps")
  case (Suc k)
  let ?q = "fold (sort_pass key (length ps)) [0..<k] ps"
  have q: "length ?q = length ps" "mset ?q = mset ps" "\<And>i j. i < k \<Longrightarrow> i \<le> j \<Longrightarrow> j < length ps \<Longrightarrow> key (?q ! i) \<le> key (?q ! j)"
    using sort_upto [of k ps key] Suc by auto
  have "sorted (map key ?q)" unfolding sorted_iff_nth_mono
  proof (intro allI impI)
    fix i j assume "i \<le> j" "j < length (map key ?q)"
    then show "map key ?q ! i \<le> map key ?q ! j" using q(1) q(3) [of i j] Suc by (cases "i = j") auto
  qed
  with q show ?thesis by (simp add: exchange_sort_def Suc)
qed (simp add: exchange_sort_def)

section \<open>What the schedulers share\<close>

text \<open>The variables \<^verbatim>\<open>time\<close>, \<^verbatim>\<open>waiting_time\<close>, \<^verbatim>\<open>turnaround_time\<close> and \<^verbatim>\<open>cpu_busy_time\<close>.\<close>

record clock =
  ck_time :: int
  ck_waiting :: int
  ck_turnaround :: int
  ck_busy :: int

definition clock_zero :: clock where
  "clock_zero = \<lparr>ck_time = 0, ck_waiting = 0, ck_turnaround = 0, ck_busy = 0\<rparr>"

locale priority_step =
  fixes key :: "'p \<Rightarrow> int" and ready :: "int \<Rightarrow> 'p \<Rightarrow> bool" and order :: "'q \<Rightarrow> 'p list"
  assumes sorted_order: "sorted (map key (order x))"
begin

lemma first_ready_least:
  assumes "find_idx (ready t) (order x) = Some i" "q \<in> set (order x)" "ready t q"
  shows "key (order x ! i) \<le> key q"
proof -
  from assms(2) obtain j where j: "j < length (order x)" "order x ! j = q" by (auto simp: in_set_conv_nth)
  from find_idx_SomeD [OF assms(1)] have i: "i < length (order x)" "\<And>k. k < i \<Longrightarrow> \<not> ready t (order x ! k)" by auto
  then have "i \<le> j" using j assms(3) by (metis not_le)
  then show ?thesis using sorted_nth_mono [OF sorted_order, of i j x] j i by simp
qed

end

lemma mset_replace: "i < length ps \<Longrightarrow> mset (ps[i := q]) = mset ps - {#ps ! i#} + {#q#}"
  by (simp add: mset_update)

section \<open>Earliest deadline first\<close>

record edf_process =
  e_id :: int
  e_execution_time :: int
  e_deadline :: int
  e_arrival_time :: int
  e_remaining_time :: int
  e_period :: int
  e_next_deadline :: int

definition sort_by_deadline :: "edf_process list \<Rightarrow> edf_process list" where
  "sort_by_deadline ps = exchange_sort e_next_deadline (length ps) ps"

definition edf_ready :: "int \<Rightarrow> edf_process \<Rightarrow> bool" where
  "edf_ready t p \<longleftrightarrow> e_arrival_time p \<le> t \<and> e_remaining_time p > 0"

text \<open>One time unit of a process, and the start of its next period when it has completed.\<close>

definition edf_run :: "edf_process \<Rightarrow> edf_process" where
  "edf_run p =
     (let q = p\<lparr>e_remaining_time := e_remaining_time p - 1\<rparr>
      in if e_remaining_time q = 0
         then q\<lparr>e_arrival_time := e_arrival_time q + e_period q, e_next_deadline := e_next_deadline q + e_period q,
                e_remaining_time := e_execution_time q\<rparr>
         else q)"

definition edf_tick :: "edf_process \<Rightarrow> clock \<Rightarrow> clock" where
  "edf_tick p c =
     (let d = c\<lparr>ck_time := ck_time c + 1, ck_busy := ck_busy c + 1\<rparr>
      in if e_remaining_time p - 1 = 0
         then d\<lparr>ck_waiting := ck_waiting d + (ck_time d - e_arrival_time p - e_execution_time p),
                ck_turnaround := ck_turnaround d + (ck_time d - e_arrival_time p)\<rparr>
         else d)"

definition edf_step :: "edf_process list \<Rightarrow> clock \<Rightarrow> edf_process list \<times> clock" where
  "edf_step ps0 c =
     (let ps = sort_by_deadline ps0
      in case find_idx (edf_ready (ck_time c)) ps of
           Some i \<Rightarrow> (ps[i := edf_run (ps ! i)], edf_tick (ps ! i) c)
         | None \<Rightarrow> (ps, c\<lparr>ck_time := ck_time c + 1\<rparr>))"

lemma edf_step_time: "ck_time (snd (edf_step ps c)) = ck_time c + 1"
  by (simp add: edf_step_def edf_tick_def Let_def split: option.split)

function edf_loop :: "int \<Rightarrow> edf_process list \<Rightarrow> clock \<Rightarrow> edf_process list \<times> clock" where
  "edf_loop total_time ps c =
     (if ck_time c < total_time then edf_loop total_time (fst (edf_step ps c)) (snd (edf_step ps c)) else (ps, c))"
  by pat_completeness auto
termination
  by (relation "measure (\<lambda>(total_time, ps, c). nat (total_time - ck_time c))") (auto simp: edf_step_time case_prod_beta)

declare edf_loop.simps [simp del]

definition edf_scheduling :: "edf_process list \<Rightarrow> int \<Rightarrow> edf_process list \<times> clock" where
  "edf_scheduling ps total_time = edf_loop total_time (map (\<lambda>p. p\<lparr>e_next_deadline := e_deadline p\<rparr>) ps) clock_zero"

interpretation edf: priority_step e_next_deadline edf_ready sort_by_deadline
  by unfold_locales (simp add: sort_by_deadline_def exchange_sort_correct)

lemma sort_by_deadline_mset: "mset (sort_by_deadline ps) = mset ps"
  by (simp add: sort_by_deadline_def exchange_sort_correct)

section \<open>Rate monotonic\<close>

record rms_process =
  r_id :: int
  r_execution_time :: int
  r_period :: int
  r_arrival_time :: int
  r_remaining_time :: int
  r_next_arrival_time :: int

definition sort_by_period :: "rms_process list \<Rightarrow> rms_process list" where
  "sort_by_period ps = exchange_sort r_period (length ps) ps"

definition rms_ready :: "int \<Rightarrow> rms_process \<Rightarrow> bool" where
  "rms_ready t p \<longleftrightarrow> r_next_arrival_time p \<le> t \<and> r_remaining_time p > 0"

definition rms_run :: "rms_process \<Rightarrow> rms_process" where
  "rms_run p =
     (let q = p\<lparr>r_remaining_time := r_remaining_time p - 1\<rparr>
      in if r_remaining_time q = 0
         then q\<lparr>r_next_arrival_time := r_next_arrival_time q + r_period q, r_remaining_time := r_execution_time q\<rparr>
         else q)"

definition rms_tick :: "rms_process \<Rightarrow> clock \<Rightarrow> clock" where
  "rms_tick p c =
     (let d = c\<lparr>ck_time := ck_time c + 1, ck_busy := ck_busy c + 1\<rparr>
      in if r_remaining_time p - 1 = 0
         then d\<lparr>ck_waiting := ck_waiting d + (ck_time d - r_next_arrival_time p - r_execution_time p),
                ck_turnaround := ck_turnaround d + (ck_time d - r_next_arrival_time p)\<rparr>
         else d)"

definition rms_step :: "rms_process list \<Rightarrow> clock \<Rightarrow> rms_process list \<times> clock" where
  "rms_step ps c =
     (case find_idx (rms_ready (ck_time c)) ps of
        Some i \<Rightarrow> (ps[i := rms_run (ps ! i)], rms_tick (ps ! i) c)
      | None \<Rightarrow> (ps, c\<lparr>ck_time := ck_time c + 1\<rparr>))"

lemma rms_step_time: "ck_time (snd (rms_step ps c)) = ck_time c + 1"
  by (simp add: rms_step_def rms_tick_def Let_def split: option.split)

function rms_loop :: "int \<Rightarrow> rms_process list \<Rightarrow> clock \<Rightarrow> rms_process list \<times> clock" where
  "rms_loop total_time ps c =
     (if ck_time c < total_time then rms_loop total_time (fst (rms_step ps c)) (snd (rms_step ps c)) else (ps, c))"
  by pat_completeness auto
termination
  by (relation "measure (\<lambda>(total_time, ps, c). nat (total_time - ck_time c))") (auto simp: rms_step_time case_prod_beta)

declare rms_loop.simps [simp del]

definition rms_scheduling :: "rms_process list \<Rightarrow> int \<Rightarrow> rms_process list \<times> clock" where
  "rms_scheduling ps total_time =
     rms_loop total_time (sort_by_period (map (\<lambda>p. p\<lparr>r_next_arrival_time := r_arrival_time p, r_remaining_time := r_execution_time p\<rparr>) ps))
       clock_zero"

text \<open>The order of the array never changes after it has been sorted.\<close>

lemma rms_run_period [simp]: "r_period (rms_run p) = r_period p" "r_id (rms_run p) = r_id p"
  by (simp_all add: rms_run_def Let_def)

lemma rms_step_order:
  "map r_period (fst (rms_step ps c)) = map r_period ps" "map r_id (fst (rms_step ps c)) = map r_id ps"
  by (auto simp: rms_step_def map_update intro!: list_update_same_conv [THEN iffD2] split: option.split dest: find_idx_SomeD)

definition rms_array :: "(rms_process list \<times> clock list) \<Rightarrow> rms_process list" where
  "rms_array x = fold (\<lambda>c ps. fst (rms_step ps c)) (snd x) (sort_by_period (fst x))"

lemma rms_array_period: "map r_period (rms_array x) = map r_period (sort_by_period (fst x))"
proof -
  have "map r_period (fold (\<lambda>c ps. fst (rms_step ps c)) cs ps) = map r_period ps" for cs ps
    by (induction cs arbitrary: ps) (simp_all add: rms_step_order)
  then show ?thesis by (simp add: rms_array_def)
qed

interpretation rms: priority_step r_period rms_ready rms_array
  by unfold_locales (simp add: rms_array_period, simp add: sort_by_period_def exchange_sort_correct)

section \<open>Properties\<close>

text \<open>C19: A step of EDF runs a process with the earliest deadline. If any process has arrived and has time left, the
  step gives one time unit to one whose next deadline is least among those, and leaves the others
  alone; otherwise the processor is idle for one time unit.\<close>

theorem edf_earliest_deadline:
  "case edf_step ps c of (qs, d) \<Rightarrow>
     ck_time d = ck_time c + 1 \<and>
     (if \<exists>q \<in> set ps. edf_ready (ck_time c) q
      then \<exists>p \<in> set ps. edf_ready (ck_time c) p \<and> (\<forall>q. q \<in> set ps \<and> edf_ready (ck_time c) q \<longrightarrow> e_next_deadline p \<le> e_next_deadline q) \<and>
             mset qs = mset ps - {#p#} + {#edf_run p#} \<and> ck_busy d = ck_busy c + 1
      else mset qs = mset ps \<and> ck_busy d = ck_busy c)"
proof -
  let ?s = "sort_by_deadline ps" and ?R = "edf_ready (ck_time c)"
  have set: "set ?s = set ps" by (rule mset_eq_setD [OF sort_by_deadline_mset])
  show ?thesis
  proof (cases "find_idx ?R ?s")
    case None
    then have "\<not> (\<exists>q \<in> set ps. ?R q)" by (simp add: find_idx_None_iff set)
    then show ?thesis using None by (simp add: edf_step_def sort_by_deadline_mset)
  next
    case (Some i)
    note i = find_idx_SomeD [OF Some]
    have p: "?s ! i \<in> set ps" "?R (?s ! i)" using i by (auto simp flip: set)
    have "\<forall>q. q \<in> set ps \<and> ?R q \<longrightarrow> e_next_deadline (?s ! i) \<le> e_next_deadline q"
      using edf.first_ready_least [OF Some] by (simp add: set)
    moreover have "mset (?s[i := edf_run (?s ! i)]) = mset ps - {#?s ! i#} + {#edf_run (?s ! i)#}"
      using i by (simp add: mset_update sort_by_deadline_mset)
    moreover have "ck_time (edf_tick (?s ! i) c) = ck_time c + 1" "ck_busy (edf_tick (?s ! i) c) = ck_busy c + 1"
      by (simp_all add: edf_tick_def Let_def)
    moreover have "edf_step ps c = (?s[i := edf_run (?s ! i)], edf_tick (?s ! i) c)" using Some by (simp add: edf_step_def Let_def)
    ultimately show ?thesis using p by auto
  qed
qed

theorem edf_earliest_deadline_witness:
  "\<exists>qs d. edf_step [\<lparr>e_id = 1, e_execution_time = 2, e_deadline = 9, e_arrival_time = 0, e_remaining_time = 2, e_period = 9, e_next_deadline = 9\<rparr>,
       \<lparr>e_id = 2, e_execution_time = 1, e_deadline = 4, e_arrival_time = 0, e_remaining_time = 1, e_period = 4, e_next_deadline = 4\<rparr>] clock_zero = (qs, d) \<and>
     ck_time d = 1 \<and> ck_busy d = 1 \<and> map e_remaining_time qs = [1, 2] \<and> map e_next_deadline qs = [8, 9]"
proof -
  let ?p = "\<lparr>e_id = 1, e_execution_time = 2, e_deadline = 9, e_arrival_time = 0, e_remaining_time = 2, e_period = 9, e_next_deadline = 9\<rparr> :: edf_process"
  let ?q = "\<lparr>e_id = 2, e_execution_time = 1, e_deadline = 4, e_arrival_time = 0, e_remaining_time = 1, e_period = 4, e_next_deadline = 4\<rparr> :: edf_process"
  have e: "edf_step [?p, ?q] clock_zero = ([edf_run ?q, ?p], edf_tick ?q clock_zero)"
    by (simp add: edf_step_def sort_by_deadline_def exchange_sort_def sort_pass_def cswap_def edf_ready_def clock_zero_def)
  have "ck_time (edf_tick ?q clock_zero) = ck_time clock_zero + 1"
    using edf_earliest_deadline [of clock_zero "[?p, ?q]"] unfolding e by (simp only: prod.case)
  then show ?thesis by (simp add: e) (simp add: edf_run_def edf_tick_def clock_zero_def)
qed

text \<open>A step of RMS runs a process with the shortest period. The array is sorted once, by the period; however many steps
  the simulation has made at whatever times, it holds the same processes in the same order, and the
  next step gives one time unit to a ready process whose period is least among the ready ones.\<close>

theorem rms_shortest_period:
  "let qs = fold (\<lambda>c ps. fst (rms_step ps c)) cs (sort_by_period ps)
   in map r_id qs = map r_id (sort_by_period ps) \<and> sorted (map r_period qs) \<and>
    (case find_idx (rms_ready (ck_time c)) qs of
       None \<Rightarrow> (\<forall>q \<in> set qs. \<not> rms_ready (ck_time c) q) \<and> rms_step qs c = (qs, c\<lparr>ck_time := ck_time c + 1\<rparr>)
     | Some i \<Rightarrow> rms_ready (ck_time c) (qs ! i) \<and> (\<forall>q. q \<in> set qs \<and> rms_ready (ck_time c) q \<longrightarrow> r_period (qs ! i) \<le> r_period q) \<and>
         rms_step qs c = (qs[i := rms_run (qs ! i)], rms_tick (qs ! i) c))"
proof -
  define qs where "qs = fold (\<lambda>c ps. fst (rms_step ps c)) cs (sort_by_period ps)"
  have qs: "qs = rms_array (ps, cs)" by (simp add: qs_def rms_array_def)
  have "map r_id (fold (\<lambda>c ps. fst (rms_step ps c)) cs xs) = map r_id xs" for xs
    by (induction cs arbitrary: xs) (simp_all add: rms_step_order)
  then have "map r_id qs = map r_id (sort_by_period ps)" by (simp add: qs_def)
  moreover have "sorted (map r_period qs)" unfolding qs by (rule rms.sorted_order)
  moreover have "case find_idx (rms_ready (ck_time c)) qs of
       None \<Rightarrow> (\<forall>q \<in> set qs. \<not> rms_ready (ck_time c) q) \<and> rms_step qs c = (qs, c\<lparr>ck_time := ck_time c + 1\<rparr>)
     | Some i \<Rightarrow> rms_ready (ck_time c) (qs ! i) \<and> (\<forall>q. q \<in> set qs \<and> rms_ready (ck_time c) q \<longrightarrow> r_period (qs ! i) \<le> r_period q) \<and>
         rms_step qs c = (qs[i := rms_run (qs ! i)], rms_tick (qs ! i) c)"
  proof (cases "find_idx (rms_ready (ck_time c)) qs")
    case None
    then show ?thesis by (simp add: rms_step_def) (simp add: find_idx_None_iff)
  next
    case (Some i)
    with rms.first_ready_least [of "ck_time c" "(ps, cs)" i] show ?thesis
      by (auto simp: rms_step_def qs dest: find_idx_holds)
  qed
  ultimately show ?thesis by (simp add: Let_def flip: qs_def)
qed

theorem rms_shortest_period_witness:
  "\<exists>qs. qs = sort_by_period [\<lparr>r_id = 1, r_execution_time = 2, r_period = 9, r_arrival_time = 0, r_remaining_time = 2, r_next_arrival_time = 0\<rparr>,
       \<lparr>r_id = 2, r_execution_time = 1, r_period = 4, r_arrival_time = 0, r_remaining_time = 1, r_next_arrival_time = 0\<rparr>] \<and>
     map r_id qs = [2, 1] \<and> sorted (map r_period qs) \<and> map r_next_arrival_time (fst (rms_step qs clock_zero)) = [4, 0]"
proof -
  let ?p = "\<lparr>r_id = 1, r_execution_time = 2, r_period = 9, r_arrival_time = 0, r_remaining_time = 2, r_next_arrival_time = 0\<rparr> :: rms_process"
  let ?q = "\<lparr>r_id = 2, r_execution_time = 1, r_period = 4, r_arrival_time = 0, r_remaining_time = 1, r_next_arrival_time = 0\<rparr> :: rms_process"
  have e: "sort_by_period [?p, ?q] = [?q, ?p]"
    by (simp add: sort_by_period_def exchange_sort_def sort_pass_def cswap_def)
  have "find_idx (rms_ready (ck_time clock_zero)) [?q, ?p] = Some 0" by (simp add: rms_ready_def clock_zero_def)
  then have "rms_step [?q, ?p] clock_zero = ([?q, ?p][0 := rms_run ?q], rms_tick ?q clock_zero) \<and> sorted (map r_period [?q, ?p])"
    using rms_shortest_period [of "[]" "[?p, ?q]" clock_zero] by (simp add: e)
  then show ?thesis by (simp add: e rms_run_def)
qed

text \<open>Both simulations end, at the time asked for, and the processor was busy for at most that time, so that the
  utilization they print is between 0 and 100 percent.\<close>

theorem simulations_end:
  assumes "0 \<le> total_time"
  shows "ck_time (snd (edf_scheduling es total_time)) = total_time \<and>
    0 \<le> ck_busy (snd (edf_scheduling es total_time)) \<and> ck_busy (snd (edf_scheduling es total_time)) \<le> total_time \<and>
    ck_time (snd (rms_scheduling rs total_time)) = total_time \<and>
    0 \<le> ck_busy (snd (rms_scheduling rs total_time)) \<and> ck_busy (snd (rms_scheduling rs total_time)) \<le> total_time"
proof -
  have e: "ck_time (snd (edf_loop total_time ps c)) = total_time \<and> ck_busy c \<le> ck_busy (snd (edf_loop total_time ps c)) \<and>
      ck_busy (snd (edf_loop total_time ps c)) - ck_busy c \<le> total_time - ck_time c" if "ck_time c \<le> total_time" for ps c
    using that
  proof (induction total_time ps c rule: edf_loop.induct)
    case (1 total_time ps c)
    have "ck_busy c \<le> ck_busy (snd (edf_step ps c))" "ck_busy (snd (edf_step ps c)) \<le> ck_busy c + 1"
      by (auto simp: edf_step_def edf_tick_def Let_def split: option.split)
    with 1 show ?case by (subst (1 2 3) edf_loop.simps) (auto simp: edf_step_time)
  qed
  have r: "ck_time (snd (rms_loop total_time ps c)) = total_time \<and> ck_busy c \<le> ck_busy (snd (rms_loop total_time ps c)) \<and>
      ck_busy (snd (rms_loop total_time ps c)) - ck_busy c \<le> total_time - ck_time c" if "ck_time c \<le> total_time" for ps c
    using that
  proof (induction total_time ps c rule: rms_loop.induct)
    case (1 total_time ps c)
    have "ck_busy c \<le> ck_busy (snd (rms_step ps c))" "ck_busy (snd (rms_step ps c)) \<le> ck_busy c + 1"
      by (auto simp: rms_step_def rms_tick_def Let_def split: option.split)
    with 1 show ?case by (subst (1 2 3) rms_loop.simps) (auto simp: rms_step_time)
  qed
  have "ck_time clock_zero \<le> total_time" "ck_busy clock_zero = 0" "ck_time clock_zero = 0" using assms by (simp_all add: clock_zero_def)
  then show ?thesis using e [of clock_zero] r [of clock_zero] by (simp add: edf_scheduling_def rms_scheduling_def)
qed

theorem simulations_end_witness:
  "ck_time (snd (edf_scheduling [\<lparr>e_id = 1, e_execution_time = 2, e_deadline = 3, e_arrival_time = 0, e_remaining_time = 2, e_period = 3,
     e_next_deadline = 3\<rparr>] 5)) = 5"
  using simulations_end [of 5 "[\<lparr>e_id = 1, e_execution_time = 2, e_deadline = 3, e_arrival_time = 0, e_remaining_time = 2, e_period = 3,
     e_next_deadline = 3\<rparr>]"] by simp

end
