(* ===== verification/Lottery.thy ===== *)
theory Lottery
  imports Prelude
begin

text \<open>
  The simulator \<^verbatim>\<open>src/lottery_sch_premption.c\<close>. \<open>rnd k\<close> is what the \<open>k\<close>-th call of \<^verbatim>\<open>rand\<close> returns. The loop
  of \<^verbatim>\<open>lottery_scheduling\<close> need not end, so it is a partial function; it returns the tasks and the time.
  What it prints and the calls of \<^verbatim>\<open>sleep\<close> are left out. Sums are taken in \<^verbatim>\<open>int\<close>, so that they wrap around: the property
  asks for fewer than \<open>2^31 - 1\<close> tickets, and two tasks of 2000000000 show what happens otherwise. \<^verbatim>\<open>total_tickets\<close>
  is computed anew after every slice, so that the subtraction before it has no effect. \<^verbatim>\<open>rand\<close> never returns a negative
  number, for which \<^verbatim>\<open>%\<close> and \<open>mod\<close> would differ.
\<close>

record task =
  t_id :: int
  t_burst_time :: int
  t_remaining_time :: int
  t_tickets :: int
  t_ticket_start :: int
  t_ticket_end :: int

fun allocate_ticket_ranges_from :: "int \<Rightarrow> task list \<Rightarrow> task list" where
  "allocate_ticket_ranges_from ticket_counter [] = []"
| "allocate_ticket_ranges_from ticket_counter (t # ts) =
     (if t_remaining_time t > 0
      then t\<lparr>t_ticket_start := ticket_counter, t_ticket_end := int32 (int32 (ticket_counter + t_tickets t) - 1)\<rparr>
           # allocate_ticket_ranges_from (int32 (ticket_counter + t_tickets t)) ts
      else t\<lparr>t_ticket_start := 0, t_ticket_end := 0\<rparr> # allocate_ticket_ranges_from ticket_counter ts)"

definition allocate_ticket_ranges :: "task list \<Rightarrow> task list" where
  "allocate_ticket_ranges ts = allocate_ticket_ranges_from 1 ts"

definition calculate_total_tickets :: "task list \<Rightarrow> int" where
  "calculate_total_tickets ts = fold (\<lambda>t n. if t_remaining_time t > 0 then int32 (n + t_tickets t) else n) ts 0"

definition pick_winning_ticket :: "int \<Rightarrow> int \<Rightarrow> int" where
  "pick_winning_ticket r total_tickets = int32 (r mod total_tickets + 1)"

definition has_ticket :: "int \<Rightarrow> task \<Rightarrow> bool" where
  "has_ticket w t \<longleftrightarrow> t_remaining_time t > 0 \<and> w \<ge> t_ticket_start t \<and> w \<le> t_ticket_end t"

definition run_slice :: "task \<Rightarrow> task" where
  "run_slice t =
     (let u = t\<lparr>t_remaining_time := int32 (t_remaining_time t - 1)\<rparr>
      in if t_remaining_time u \<le> 0 then u\<lparr>t_tickets := 0\<rparr> else u)"

partial_function (option) lottery_loop :: "(nat \<Rightarrow> int) \<Rightarrow> nat \<Rightarrow> task list \<Rightarrow> int \<Rightarrow> int \<Rightarrow> (task list \<times> int) option" where
  "lottery_loop rnd k ts total_tickets time =
     (if total_tickets \<le> 0 then Some (ts, time)
      else
        let us = allocate_ticket_ranges ts;
            w = pick_winning_ticket (rnd k) total_tickets;
            done = list_all (\<lambda>t. \<not> t_remaining_time t > 0) us;
            (vs, time') = (case find_idx (has_ticket w) us of
                             Some i \<Rightarrow> (us[i := run_slice (us ! i)], int32 (time + 1))
                           | None \<Rightarrow> (us, time))
        in if done then Some (vs, time') else lottery_loop rnd (Suc k) vs (calculate_total_tickets vs) time')"

definition lottery_scheduling :: "(nat \<Rightarrow> int) \<Rightarrow> task list \<Rightarrow> (task list \<times> int) option" where
  "lottery_scheduling rnd ts = lottery_loop rnd 0 ts (calculate_total_tickets ts) 0"

section \<open>The ranges\<close>

definition live :: "task list \<Rightarrow> int" where
  "live ts = (\<Sum>t \<leftarrow> ts. if t_remaining_time t > 0 then t_tickets t else 0)"

definition tasks_ok :: "task list \<Rightarrow> bool" where
  "tasks_ok ts \<longleftrightarrow> (\<forall>t \<in> set ts. 0 \<le> t_remaining_time t \<and> t_remaining_time t < 2147483648 \<and> (t_remaining_time t > 0 \<longrightarrow> t_tickets t > 0))"

lemma tasks_ok_Cons [simp]:
  "tasks_ok (t # ts) \<longleftrightarrow> 0 \<le> t_remaining_time t \<and> t_remaining_time t < 2147483648 \<and> (t_remaining_time t > 0 \<longrightarrow> t_tickets t > 0) \<and> tasks_ok ts"
  by (auto simp: tasks_ok_def)

lemma live_simps [simp]: "live [] = 0" "live (t # ts) = (if t_remaining_time t > 0 then t_tickets t else 0) + live ts"
  by (simp_all add: live_def)

lemma live_nonneg: "tasks_ok ts \<Longrightarrow> 0 \<le> live ts"
  by (induction ts) auto

lemma total_tickets_live:
  assumes "tasks_ok ts" "live ts < 2147483648"
  shows "calculate_total_tickets ts = live ts"
proof -
  have "fold (\<lambda>t n. if t_remaining_time t > 0 then int32 (n + t_tickets t) else n) ts n = n + live ts"
    if "0 \<le> n" "n + live ts < 2147483648" for n
    using that assms(1)
  proof (induction ts arbitrary: n)
    case (Cons t ts)
    show ?case
    proof (cases "t_remaining_time t > 0")
      case True
      have "n + t_tickets t < 2147483648" using Cons.prems True live_nonneg [of ts] by simp
      then show ?thesis using Cons.prems True Cons.IH [of "n + t_tickets t"] by simp
    qed (use Cons in simp)
  qed simp
  from this [of 0] assms(2) show ?thesis by (simp add: calculate_total_tickets_def)
qed

lemma ranges_fields:
  "map t_remaining_time (allocate_ticket_ranges_from n ts) = map t_remaining_time ts"
  "map t_tickets (allocate_ticket_ranges_from n ts) = map t_tickets ts"
  "map t_id (allocate_ticket_ranges_from n ts) = map t_id ts"
  "length (allocate_ticket_ranges_from n ts) = length ts"
  by (induction ts arbitrary: n) auto

text \<open>Without wrap-around the next range starts where the last one ended.\<close>

lemma ranges_Cons:
  assumes "tasks_ok (t # ts)" "0 \<le> n" "n + live (t # ts) < 2147483648" "t_remaining_time t > 0"
  shows "allocate_ticket_ranges_from n (t # ts) =
    t\<lparr>t_ticket_start := n, t_ticket_end := n + t_tickets t - 1\<rparr> # allocate_ticket_ranges_from (n + t_tickets t) ts"
  using assms live_nonneg [of ts] by simp

lemma ranges_lower:
  assumes "tasks_ok ts" "i < length ts" "w < n" "0 \<le> n" "n + live ts < 2147483648"
  shows "\<not> has_ticket w (allocate_ticket_ranges_from n ts ! i)"
  using assms
proof (induction ts arbitrary: i n)
  case (Cons t ts)
  show ?case
  proof (cases "t_remaining_time t > 0")
    case True
    note r = ranges_Cons [OF Cons.prems(1,4,5) True]
    show ?thesis unfolding r using Cons.prems True Cons.IH [of "i - 1" "n + t_tickets t"] by (cases i) (auto simp: has_ticket_def)
  next
    case False
    then show ?thesis using Cons.prems Cons.IH [of "i - 1" n] by (cases i) (auto simp: has_ticket_def)
  qed
qed simp

text \<open>Every ticket from \<open>n\<close> on belongs to exactly one task that has time left.\<close>

lemma ex1_Cons:
  assumes "\<exists>!i. i < length ts \<and> P (ts ! i)" "\<not> P t"
  shows "\<exists>!i. i < length (t # ts) \<and> P ((t # ts) ! i)"
proof -
  from assms(1) obtain i where i: "i < length ts" "P (ts ! i)" "\<And>j. j < length ts \<Longrightarrow> P (ts ! j) \<Longrightarrow> j = i" by auto
  show ?thesis
  proof (rule ex1I [of _ "Suc i"])
    fix j assume "j < length (t # ts) \<and> P ((t # ts) ! j)"
    then show "j = Suc i" using i(3) assms(2) by (cases j) auto
  qed (use i(1,2) in simp)
qed

lemma ranges_cover:
  assumes "tasks_ok ts" "0 \<le> n" "n + live ts < 2147483648" "n \<le> w" "w < n + live ts"
  shows "\<exists>!i. i < length (allocate_ticket_ranges_from n ts) \<and> has_ticket w (allocate_ticket_ranges_from n ts ! i)"
  using assms
proof (induction ts arbitrary: n)
  case (Cons t ts)
  show ?case
  proof (cases "t_remaining_time t > 0")
    case False
    then show ?thesis
      using ex1_Cons [OF Cons.IH [of n], of "t\<lparr>t_ticket_start := 0, t_ticket_end := 0\<rparr>"] Cons.prems by (simp add: has_ticket_def)
  next
    case True
    let ?m = "n + t_tickets t" and ?t = "t\<lparr>t_ticket_start := n, t_ticket_end := n + t_tickets t - 1\<rparr>"
    note e = ranges_Cons [OF Cons.prems(1-3) True]
    have m: "tasks_ok ts" "0 \<le> ?m" "?m + live ts < 2147483648" using Cons.prems True by simp_all
    show ?thesis
    proof (cases "w < ?m")
      case w: True
      show ?thesis unfolding e
      proof (rule ex1I [of _ 0])
        fix j assume "j < length (?t # allocate_ticket_ranges_from ?m ts) \<and> has_ticket w ((?t # allocate_ticket_ranges_from ?m ts) ! j)"
        then show "j = 0" using ranges_lower [OF m(1) _ w m(2,3)] by (cases j) (auto simp: ranges_fields)
      qed (use True w Cons.prems in \<open>simp add: has_ticket_def\<close>)
    next
      case w: False
      then have "\<not> has_ticket w ?t" by (simp add: has_ticket_def)
      moreover have "\<exists>!i. i < length (allocate_ticket_ranges_from ?m ts) \<and> has_ticket w (allocate_ticket_ranges_from ?m ts ! i)"
        by (rule Cons.IH [OF m]) (use w True Cons.prems in simp_all)
      ultimately show ?thesis unfolding e by (intro ex1_Cons)
    qed
  qed
qed simp

section \<open>The loop ends\<close>

definition total_remaining :: "task list \<Rightarrow> int" where
  "total_remaining ts = (\<Sum>t \<leftarrow> ts. t_remaining_time t)"

lemma sum_list_update_int:
  "i < length ts \<Longrightarrow> (\<Sum>t \<leftarrow> ts[i := u]. f t) = (\<Sum>t \<leftarrow> ts. f t) - f (ts ! i) + (f u :: int)"
proof (induction ts arbitrary: i)
  case (Cons t ts)
  then show ?case by (cases i) auto
qed simp

lemma sums_ranges: "total_remaining (allocate_ticket_ranges ts) = total_remaining ts" "live (allocate_ticket_ranges ts) = live ts"
proof -
  have "live (allocate_ticket_ranges_from n ts) = live ts" for n by (induction ts arbitrary: n) auto
  then show "total_remaining (allocate_ticket_ranges ts) = total_remaining ts" "live (allocate_ticket_ranges ts) = live ts"
    by (simp_all add: total_remaining_def allocate_ticket_ranges_def ranges_fields)
qed

lemma tasks_ok_ranges:
  assumes "tasks_ok ts"
  shows "tasks_ok (allocate_ticket_ranges ts)"
proof -
  have "tasks_ok (allocate_ticket_ranges_from n ts)" for n using assms by (induction ts arbitrary: n) auto
  then show ?thesis by (simp add: allocate_ticket_ranges_def)
qed

lemma tasks_ok_run:
  assumes "tasks_ok ts" "i < length ts" "t_remaining_time (ts ! i) > 0"
  shows "tasks_ok (ts[i := run_slice (ts ! i)])" "t_remaining_time (run_slice (ts ! i)) = t_remaining_time (ts ! i) - 1"
    "live (ts[i := run_slice (ts ! i)]) \<le> live ts"
proof -
  have t: "t_tickets (ts ! i) > 0" "t_remaining_time (ts ! i) < 2147483648" using assms by (auto simp: tasks_ok_def)
  then show "tasks_ok (ts[i := run_slice (ts ! i)])"
    using assms by (auto simp: tasks_ok_def run_slice_def Let_def dest!: subsetD [OF set_update_subset_insert])
  show "t_remaining_time (run_slice (ts ! i)) = t_remaining_time (ts ! i) - 1" using t assms(3) by (simp add: run_slice_def Let_def)
  show "live (ts[i := run_slice (ts ! i)]) \<le> live ts"
    using t assms(2,3) by (simp add: live_def sum_list_update_int run_slice_def Let_def)
qed

lemma live_pos_iff:
  assumes "tasks_ok ts"
  shows "live ts \<le> 0 \<longleftrightarrow> (\<forall>t \<in> set ts. t_remaining_time t = 0)" "0 \<le> total_remaining ts"
proof -
  have "0 \<le> live ts \<and> (live ts \<le> 0 \<longleftrightarrow> (\<forall>t \<in> set ts. t_remaining_time t = 0)) \<and> 0 \<le> (\<Sum>t \<leftarrow> ts. t_remaining_time t)"
    using assms by (induction ts) auto
  then show "live ts \<le> 0 \<longleftrightarrow> (\<forall>t \<in> set ts. t_remaining_time t = 0)" "0 \<le> total_remaining ts"
    by (simp_all add: total_remaining_def)
qed

text \<open>One round of the loop with tickets left: some task with time left gets one time unit.\<close>

lemma lottery_round:
  assumes ok: "tasks_ok ts" "live ts < 2147483647" and pos: "live ts > 0" and r: "rnd k \<ge> 0"
  obtains us i where "lottery_loop rnd k ts (live ts) time =
      lottery_loop rnd (Suc k) (us[i := run_slice (us ! i)]) (calculate_total_tickets (us[i := run_slice (us ! i)])) (int32 (time + 1))"
    "us = allocate_ticket_ranges ts" "i < length us" "t_remaining_time (us ! i) > 0"
proof -
  let ?us = "allocate_ticket_ranges ts" and ?w = "pick_winning_ticket (rnd k) (live ts)"
  have "0 \<le> rnd k mod live ts" "rnd k mod live ts < live ts" using pos by simp_all
  then have "1 \<le> ?w" "?w < 1 + live ts" using ok(2) by (simp_all add: pick_winning_ticket_def)
  then have "\<exists>!i. i < length ?us \<and> has_ticket ?w (?us ! i)"
    unfolding allocate_ticket_ranges_def using ok(2) by (intro ranges_cover [OF ok(1)]) simp_all
  then obtain j where "j < length ?us" "has_ticket ?w (?us ! j)" by blast
  then obtain i where i: "find_idx (has_ticket ?w) ?us = Some i" by (meson find_idx_ex nth_mem)
  from find_idx_SomeD [OF i] have "i < length ?us" "t_remaining_time (?us ! i) > 0" by (auto simp: has_ticket_def)
  moreover from this have "\<not> list_all (\<lambda>t. \<not> t_remaining_time t > 0) ?us" by (metis list_all_length)
  moreover from this have "lottery_loop rnd k ts (live ts) time =
      lottery_loop rnd (Suc k) (?us[i := run_slice (?us ! i)]) (calculate_total_tickets (?us[i := run_slice (?us ! i)])) (int32 (time + 1))"
    using pos i by (subst lottery_loop.simps) (simp add: Let_def)
  ultimately show thesis using that by blast
qed

lemma lottery_loop_ends:
  assumes "tasks_ok ts" "live ts < 2147483647" "0 \<le> time" "time + total_remaining ts < 2147483648" "\<And>k. rnd k \<ge> 0"
  shows "\<exists>us. lottery_loop rnd k ts (live ts) time = Some (us, time + total_remaining ts) \<and>
    map t_id us = map t_id ts \<and> (\<forall>t \<in> set us. t_remaining_time t = 0)"
  using assms(1-4)
proof (induction "nat (total_remaining ts)" arbitrary: ts k time rule: less_induct)
  case less
  show ?case
  proof (cases "live ts > 0")
    case False
    then have z: "\<forall>t \<in> set ts. t_remaining_time t = 0" using live_pos_iff(1) [OF less.prems(1)] by simp
    then have "total_remaining ts = 0" unfolding total_remaining_def by (induction ts) auto
    with z False show ?thesis by (subst lottery_loop.simps) simp
  next
    case True
    from lottery_round [OF less.prems(1,2) True, where rnd = rnd and k = k and time = time, OF assms(5)] obtain us i where
      u: "lottery_loop rnd k ts (live ts) time =
        lottery_loop rnd (Suc k) (us[i := run_slice (us ! i)]) (calculate_total_tickets (us[i := run_slice (us ! i)])) (int32 (time + 1))"
      "us = allocate_ticket_ranges ts" "i < length us" "t_remaining_time (us ! i) > 0" by blast
    let ?v = "us[i := run_slice (us ! i)]"
    have v: "tasks_ok ?v" "live ?v \<le> live ts" "total_remaining ?v = total_remaining ts - 1"
      using tasks_ok_run [OF tasks_ok_ranges [OF less.prems(1)], of i] u sums_ranges [of ts] sum_list_update_int [OF u(3), of t_remaining_time "run_slice (us ! i)"]
      by (simp_all add: total_remaining_def)
    have c: "calculate_total_tickets ?v = live ?v" "int32 (time + 1) = time + 1"
      using total_tickets_live [OF v(1)] v less.prems live_pos_iff(2) [OF v(1)] by simp_all
    have "nat (total_remaining ?v) < nat (total_remaining ts)" using v(3) live_pos_iff(2) [OF v(1)] by simp
    from less.hyps [OF this v(1), of "time + 1" "Suc k"] v less.prems obtain ws where
      w: "lottery_loop rnd (Suc k) ?v (live ?v) (time + 1) = Some (ws, time + 1 + total_remaining ?v)"
      "map t_id ws = map t_id ?v" "\<forall>t \<in> set ws. t_remaining_time t = 0" by auto
    have "map t_id ?v = map t_id us"
      using u(3) by (simp add: map_update run_slice_def Let_def list_update_same_conv)
    also have "\<dots> = map t_id ts" by (simp add: u(2) allocate_ticket_ranges_def ranges_fields)
    finally show ?thesis using u(1) w v(3) c by simp
  qed
qed

section \<open>Properties\<close>

text \<open>C20: Whatever the random numbers, the lottery ends. If every task has a positive number of tickets, and neither
  all tickets nor all burst times together exceed the range of an \<^verbatim>\<open>int\<close>, the
  simulation returns after exactly as many time units as the tasks need together, and all of them
  are completed: no task starves.\<close>

theorem lottery_completes:
  assumes "\<forall>t \<in> set ts. 0 \<le> t_remaining_time t \<and> 0 < t_tickets t" "\<forall>k. 0 \<le> rnd k"
    "(\<Sum>t \<leftarrow> ts. t_tickets t) < 2 ^ 31 - 1" "(\<Sum>t \<leftarrow> ts. t_remaining_time t) < 2 ^ 31"
  shows "\<exists>us. lottery_scheduling rnd ts = Some (us, \<Sum>t \<leftarrow> ts. t_remaining_time t) \<and>
    map t_id us = map t_id ts \<and> (\<forall>t \<in> set us. t_remaining_time t = 0)"
proof -
  have "t_remaining_time t \<le> (\<Sum>t \<leftarrow> ts. t_remaining_time t)" if "t \<in> set ts" for t
    using that assms(1) by (intro member_le_sum_list) auto
  then have ok: "tasks_ok ts" using assms(1,4) by (fastforce simp: tasks_ok_def)
  have "live ts \<le> (\<Sum>t \<leftarrow> ts. t_tickets t)" unfolding live_def using assms(1) by (intro sum_list_mono) auto
  then have "live ts < 2147483647" using assms(3) by simp
  with lottery_loop_ends [OF ok this, of 0 rnd 0] total_tickets_live [OF ok] assms(2,4) show ?thesis
    by (simp add: lottery_scheduling_def total_remaining_def)
qed

theorem lottery_completes_witness:
  "\<exists>us. lottery_scheduling (\<lambda>k. int k * 7)
      [\<lparr>t_id = 1, t_burst_time = 3, t_remaining_time = 3, t_tickets = 2, t_ticket_start = 0, t_ticket_end = 0\<rparr>,
       \<lparr>t_id = 2, t_burst_time = 4, t_remaining_time = 4, t_tickets = 1, t_ticket_start = 0, t_ticket_end = 0\<rparr>] = Some (us, 7) \<and>
     map t_id us = [1, 2] \<and> (\<forall>t \<in> set us. t_remaining_time t = 0)"
  using lottery_completes [of "[\<lparr>t_id = 1, t_burst_time = 3, t_remaining_time = 3, t_tickets = 2, t_ticket_start = 0, t_ticket_end = 0\<rparr>,
       \<lparr>t_id = 2, t_burst_time = 4, t_remaining_time = 4, t_tickets = 1, t_ticket_start = 0, t_ticket_end = 0\<rparr>]" "\<lambda>k. int k * 7"] by simp

text \<open>
  Tasks without tickets are reported as completed: when the tasks with time left have no tickets, the simulation
  ends at once and leaves their work undone. The same happens when the sum of the tickets overflows.
\<close>

lemma lottery_no_total:
  assumes "calculate_total_tickets ts \<le> 0"
  shows "lottery_scheduling rnd ts = Some (ts, 0)"
  unfolding lottery_scheduling_def using assms by (subst lottery_loop.simps) simp

lemma lottery_no_tickets:
  assumes "\<forall>t \<in> set ts. t_remaining_time t > 0 \<longrightarrow> t_tickets t = 0"
  shows "lottery_scheduling rnd ts = Some (ts, 0)"
proof -
  have "fold (\<lambda>t n. if t_remaining_time t > 0 then int32 (n + t_tickets t) else n) ts 0 = 0" using assms by (induction ts) auto
  then show ?thesis by (intro lottery_no_total) (simp add: calculate_total_tickets_def)
qed

lemma lottery_overflow:
  assumes "t_remaining_time t > 0" "t_tickets t = 2000000000"
  shows "lottery_scheduling rnd [t, t] = Some ([t, t], 0)"
  by (rule lottery_no_total) (use assms in \<open>simp add: calculate_total_tickets_def int32_def\<close>)

end
