(* ===== verification/Uprintf.thy ===== *)
theory Uprintf
  imports Console
begin

text \<open>
  Formatted output: \<^verbatim>\<open>printf.c\<close> of the user library, as the bytes that it writes to its descriptor, one
  \<^verbatim>\<open>write\<close> each. \<open>u_printint_buf\<close> is the array \<^verbatim>\<open>buf\<close> of 16 bytes in the order in which it is filled.
  Arguments that are missing or of the wrong type make the model return \<open>None\<close>. The lemmas also
  treat \<open>int_chars\<close>, the kernel's version of the same loop.
\<close>

section \<open>printf\<close>

definition u_digit :: "nat \<Rightarrow> byte" where
  "u_digit d = (if d < 10 then 48 + of_nat d else 55 + of_nat d)"

function u_digits :: "nat \<Rightarrow> nat \<Rightarrow> byte list" where
  "u_digits x base =
     u_digit (x mod base) # (if x div base = 0 \<or> base < 2 then [] else u_digits (x div base) base)"
  by pat_completeness auto
termination
  by (relation "measure fst") (auto simp: div_eq_0_iff intro: div_less_dividend)

declare u_digits.simps [simp del] digits_loop.simps [simp del]

definition u_printint_buf :: "u32 \<Rightarrow> nat \<Rightarrow> bool \<Rightarrow> byte list" where
  "u_printint_buf xx base sg =
     (let neg = (sg \<and> sint xx < 0);
          x = (if neg then - xx else xx)
      in u_digits (unat x) base @ (if neg then [45] else []))"

definition u_printint :: "u32 \<Rightarrow> nat \<Rightarrow> bool \<Rightarrow> byte list" where
  "u_printint xx base sg = rev (u_printint_buf xx base sg)"

fun u_printf_loop :: "bool \<Rightarrow> byte list \<Rightarrow> carg list \<Rightarrow> byte list option" where
  "u_printf_loop percent [] as = Some []"
| "u_printf_loop False (c # cs) as =
     (if c = 37 then u_printf_loop True cs as else map_option (append [c]) (u_printf_loop False cs as))"
| "u_printf_loop True (c # cs) as =
     (if c = 100 then
        (case as of CInt n # as' \<Rightarrow> map_option (append (u_printint n 10 True)) (u_printf_loop False cs as') | _ \<Rightarrow> None)
      else if c = 120 \<or> c = 112 then
        (case as of CInt n # as' \<Rightarrow> map_option (append (u_printint n 16 False)) (u_printf_loop False cs as') | _ \<Rightarrow> None)
      else if c = 115 then
        (case as of
           CStr str # as' \<Rightarrow>
             map_option (append (case str of None \<Rightarrow> bytes ''(null)'' | Some b \<Rightarrow> b)) (u_printf_loop False cs as')
         | _ \<Rightarrow> None)
      else if c = 99 then
        (case as of CInt n # as' \<Rightarrow> map_option (append [ucast n]) (u_printf_loop False cs as') | _ \<Rightarrow> None)
      else if c = 37 then map_option (append [c]) (u_printf_loop False cs as)
      else map_option (append [37, c]) (u_printf_loop False cs as))"

definition u_printf :: "byte list \<Rightarrow> carg list \<Rightarrow> byte list option" where
  "u_printf fmt as = u_printf_loop False fmt as"

section \<open>The number of digits\<close>

lemma length_u_digits: "2 \<le> base \<Longrightarrow> x < base ^ k \<Longrightarrow> 0 < k \<Longrightarrow> length (u_digits x base) \<le> k"
proof (induction k arbitrary: x)
  case (Suc k)
  show ?case
  proof (cases "x div base = 0")
    case True
    then show ?thesis by (subst u_digits.simps) simp
  next
    case False
    then have "base \<le> x" using Suc.prems(1) by (simp add: div_eq_0_iff)
    then have "0 < k" using Suc.prems by (cases k) auto
    moreover have "x div base < base ^ k" using Suc.prems by (simp add: less_mult_imp_div_less mult.commute)
    ultimately show ?thesis using Suc False by (subst u_digits.simps) simp
  qed
qed simp

lemma length_digits_loop: "length (digits_loop x base) = length (u_digits x base)"
  by (induction x base rule: digits_loop.induct) (subst u_digits.simps, subst digits_loop.simps, simp)

text \<open>What the digits mean.\<close>

lemma u_digits_value:
  assumes "2 \<le> base" "base \<le> 10"
  shows "foldr (\<lambda>d n. n * base + (unat d - 48)) (u_digits x base) 0 = x" "\<forall>d \<in> set (u_digits x base). 48 \<le> d \<and> d \<le> 57"
proof -
  have d: "unat (u_digit k) = 48 + k \<and> 48 \<le> u_digit k \<and> u_digit k \<le> 57" if "k < 10" for k
  proof -
    have "unat (48 + of_nat k :: byte) = 48 + k" using that by (simp add: unat_word_ariths unat_of_nat)
    then show ?thesis using that by (simp add: u_digit_def word_le_nat_alt)
  qed
  show "foldr (\<lambda>d n. n * base + (unat d - 48)) (u_digits x base) 0 = x"
    using assms
  proof (induction x base rule: u_digits.induct)
    case (1 x base)
    have "x mod base < 10" using 1(2,3) mod_less_divisor [of base x] by linarith
    then show ?case using 1 d by (subst u_digits.simps) (auto simp: div_eq_0_iff)
  qed
  show "\<forall>d \<in> set (u_digits x base). 48 \<le> d \<and> d \<le> 57"
    using assms
  proof (induction x base rule: u_digits.induct)
    case (1 x base)
    have "x mod base < 10" using 1(2,3) mod_less_divisor [of base x] by linarith
    then show ?case using 1 d by (subst u_digits.simps) auto
  qed
qed

text \<open>\<open>atoi\<close> reads the digits at an address.\<close>

lemma atoi_loop_digits:
  assumes "bytes_at m a (length ds) = ds" "\<forall>d \<in> set ds. 48 \<le> d \<and> d \<le> 57" "\<not> (48 \<le> m (a + of_nat (length ds)) \<and> m (a + of_nat (length ds)) \<le> 57)"
  shows "atoi_loop m a n = Some (fold (\<lambda>d n. n * 10 + ucast d - 48) ds n)"
  using assms
proof (induction ds arbitrary: a n)
  case Nil
  then show ?case by (subst atoi_loop.simps) auto
next
  case (Cons d ds)
  then have "m a = d" "bytes_at m (a + 1) (length ds) = ds" by (simp_all add: bytes_at_Suc)
  moreover have "m (a + 1 + of_nat (length ds)) = m (a + of_nat (length (d # ds)))" by (simp add: ac_simps)
  ultimately show ?case using Cons.prems Cons.IH [of "a + 1"] by (subst atoi_loop.simps) simp
qed

lemma digits_word_value:
  "\<forall>d \<in> set ds. 48 \<le> d \<and> d \<le> 57 \<Longrightarrow>
     foldr (\<lambda>d n. n * 10 + ucast d - 48) ds (0 :: u32) = of_nat (foldr (\<lambda>d n. n * 10 + (unat (d :: byte) - 48)) ds 0)"
proof (induction ds)
  case (Cons d ds)
  have "48 \<le> unat d" using Cons.prems by (simp add: word_le_nat_alt)
  then have "of_nat (unat d - 48) = (ucast d - 48 :: u32)" by (simp add: of_nat_diff)
  then show ?case using Cons by (simp add: algebra_simps)
qed simp

section \<open>Properties\<close>

text \<open>The number printers stay within their buffers of 16 bytes: in base 10 and in base 16, signed or not, the
  kernel's and the user library's \<^verbatim>\<open>printint\<close> store at most 16 characters for every 32-bit number.\<close>

theorem printint_fits:
  "base \<in> {10, 16} \<Longrightarrow> length (int_chars xx base sg) \<le> 16 \<and> length (u_printint_buf xx base sg) \<le> 16"
proof -
  assume b: "base \<in> {10, 16}"
  have "unat x < base ^ 15" for x :: u32 using b unat_u32_bound [of x] by auto
  then have l: "length (u_digits (unat x) base) \<le> 15" for x :: u32 using b by (intro length_u_digits) auto
  show ?thesis using l [of xx] l [of "- xx"] by (auto simp: int_chars_def u_printint_buf_def Let_def length_digits_loop le_SucI)
qed

theorem printint_fits_witness: "length (u_printint_buf 0x80000000 10 True) \<le> 16"
  using printint_fits [of 10 "0x80000000" True] by simp

text \<open>C21: \<^verbatim>\<open>atoi\<close> reads back what \<^verbatim>\<open>printf("%d")\<close> prints of a number that is not negative, whatever non-digit follows it in
  memory.\<close>

theorem printint_atoi:
  assumes "0 \<le> sint xx" "bytes_at m a (length (u_printint xx 10 True)) = u_printint xx 10 True"
    "\<not> (48 \<le> m (a + of_nat (length (u_printint xx 10 True))) \<and> m (a + of_nat (length (u_printint xx 10 True))) \<le> 57)"
  shows "atoi m a = Some xx"
proof -
  have e: "u_printint xx 10 True = rev (u_digits (unat xx) 10)" using assms(1) by (simp add: u_printint_def u_printint_buf_def)
  note v = u_digits_value [of 10 "unat xx"]
  have "atoi_loop m a 0 = Some (fold (\<lambda>d n. n * 10 + ucast d - 48) (rev (u_digits (unat xx) 10)) 0)"
    by (rule atoi_loop_digits) (use assms(2,3) e v(2) in simp_all)
  also have "fold (\<lambda>d n. n * 10 + ucast d - 48) (rev (u_digits (unat xx) 10)) (0 :: u32) = xx"
    using v digits_word_value [of "u_digits (unat xx) 10"] by (simp add: foldr_conv_fold)
  finally show ?thesis by (simp add: atoi_def)
qed

theorem printint_atoi_witness:
  "atoi (\<lambda>p. if p = 100 then 52 else if p = 101 then 50 else 0) 100 = Some 42"
proof -
  have "u_digits 42 10 = [50, 52]" by (simp add: u_digits.simps u_digit_def)
  then have e: "u_printint 42 10 True = [52, 50]" by (simp add: u_printint_def u_printint_buf_def)
  show ?thesis by (rule printint_atoi) (simp_all add: e bytes_at_def upt_rec)
qed

end
