(* ===== verification/Sh.thy ===== *)
theory Sh
  imports Prelude
begin

text \<open>
  The parser of the shell, \<^verbatim>\<open>sh.c\<close>. A command line is the list of its characters; the pointers
  into it (\<^verbatim>\<open>*ps\<close>, \<^verbatim>\<open>q\<close>, \<^verbatim>\<open>eq\<close>) are positions, and \<^verbatim>\<open>es\<close> is the position of the terminating zero. A
  parsed command is a tree whose words are pairs of positions, as in the code (the type of the words
  is a parameter of the tree, so that it can also hold the words themselves); \<open>nulterminate\<close> then
  writes zeros into the line. A syntax error is the message that \<^verbatim>\<open>panic\<close> prints. The nodes of a
  command come from \<^verbatim>\<open>malloc\<close>, which is taken to succeed, as the code takes it.
\<close>

section \<open>Tokens\<close>

definition whitespace :: "byte list" where
  "whitespace = [32, 9, 13, 10, 11]"

definition symbols :: "byte list" where
  "symbols = bytes ''<|>&;()''"

text \<open>\<^verbatim>\<open>*s\<close>, the terminating zero included.\<close>

definition char_at :: "byte list \<Rightarrow> nat \<Rightarrow> byte" where
  "char_at b s = (if s < length b then b ! s else 0)"

function skip_ws :: "byte list \<Rightarrow> nat \<Rightarrow> nat" where
  "skip_ws b s = (if s < length b \<and> char_at b s \<in> set whitespace then skip_ws b (s + 1) else s)"
  by auto
termination by (relation "measure (\<lambda>(b, s). length b - s)") auto

function skip_word :: "byte list \<Rightarrow> nat \<Rightarrow> nat" where
  "skip_word b s =
     (if s < length b \<and> char_at b s \<notin> set whitespace \<and> char_at b s \<notin> set symbols then skip_word b (s + 1) else s)"
  by auto
termination by (relation "measure (\<lambda>(b, s). length b - s)") auto

declare skip_ws.simps [simp del] skip_word.simps [simp del]

definition TOK_A :: byte where "TOK_A = 97"
definition TOK_APPEND :: byte where "TOK_APPEND = 43"
definition LT :: byte where "LT = 60"
definition GT :: byte where "GT = 62"

text \<open>\<open>gettoken\<close> returns the kind of the token, its bounds \<open>q\<close> and \<open>eq\<close>, and the new position.\<close>

definition token_end :: "byte list \<Rightarrow> nat \<Rightarrow> byte \<times> nat" where
  "token_end b q =
     (let c = char_at b q
      in if c = 0 then (0, q)
         else if c \<in> set (bytes ''|();&<'') then (c, q + 1)
         else if c = GT then (if char_at b (q + 1) = GT then (TOK_APPEND, q + 2) else (c, q + 1))
         else (TOK_A, skip_word b q))"

definition gettoken :: "byte list \<Rightarrow> nat \<Rightarrow> byte \<times> nat \<times> nat \<times> nat" where
  "gettoken b s = (let q = skip_ws b s; (ret, e) = token_end b q in (ret, q, e, skip_ws b e))"

definition peek :: "byte list \<Rightarrow> nat \<Rightarrow> byte list \<Rightarrow> nat \<times> bool" where
  "peek b s toks = (let s1 = skip_ws b s in (s1, char_at b s1 \<noteq> 0 \<and> char_at b s1 \<in> set toks))"

section \<open>Commands\<close>

type_synonym span = "nat \<times> nat"

datatype 'w cmd =
    EXEC "'w list"
  | REDIR "'w cmd" 'w u32 nat
  | PIPE "'w cmd" "'w cmd"
  | LIST "'w cmd" "'w cmd"
  | BACK "'w cmd"

definition O_RDONLY :: u32 where "O_RDONLY = 0"
definition O_WRONLY :: u32 where "O_WRONLY = 1"
definition O_CREATE :: u32 where "O_CREATE = 0x200"
definition MAXARGS :: nat where "MAXARGS = 10"

text \<open>\<^verbatim>\<open>cmd->argv[argc] = q\<close> through the pointer to the innermost node, which the redirections are around.\<close>

fun add_arg :: "'w \<Rightarrow> 'w cmd \<Rightarrow> 'w cmd" where
  "add_arg a (EXEC as) = EXEC (as @ [a])"
| "add_arg a (REDIR c f m fd) = REDIR (add_arg a c) f m fd"
| "add_arg a c = c"

definition redir_of :: "byte \<Rightarrow> 'w cmd \<Rightarrow> 'w \<Rightarrow> 'w cmd" where
  "redir_of tok c f =
     (if tok = LT then REDIR c f O_RDONLY 0
      else if tok = GT then REDIR c f (O_WRONLY OR O_CREATE) 1
      else if tok = TOK_APPEND then REDIR c f (O_WRONLY OR O_CREATE) 1
      else c)"

section \<open>What tokens consume\<close>

lemma skip_ws_mono: "s \<le> skip_ws b s"
  by (induction b s rule: skip_ws.induct) (subst skip_ws.simps, auto)

lemma skip_word_mono: "s \<le> skip_word b s"
  by (induction b s rule: skip_word.induct) (subst skip_word.simps, auto)

lemma char_at_end: "char_at b s \<noteq> 0 \<Longrightarrow> s < length b"
  by (simp add: char_at_def split: if_splits)

lemma zero_no_token [simp]: "0 \<notin> set whitespace" "0 \<notin> set symbols"
  by (simp_all add: whitespace_def symbols_def bytes_def)

lemma skip_ws_stops: "char_at b (skip_ws b s) \<notin> set whitespace"
  by (induction b s rule: skip_ws.induct) (subst skip_ws.simps, auto simp: char_at_def)

lemma skip_ws_skip_ws [simp]: "skip_ws b (skip_ws b s) = skip_ws b s"
  by (subst skip_ws.simps) (simp add: skip_ws_stops)

lemma skip_word_progress:
  "char_at b s \<noteq> 0 \<Longrightarrow> char_at b s \<notin> set whitespace \<Longrightarrow> char_at b s \<notin> set symbols \<Longrightarrow> s < skip_word b s"
  using skip_word_mono [of "s + 1" b] by (subst skip_word.simps) (auto dest: char_at_end)

lemma token_end_mono: "token_end b q = (r, e) \<Longrightarrow> q \<le> e"
  using skip_word_mono [of q b] by (auto simp: token_end_def Let_def split: if_splits)

lemma token_end_progress:
  assumes "token_end b q = (r, e)" "char_at b q \<noteq> 0" "char_at b q \<notin> set whitespace"
  shows "q < e"
proof -
  have "set symbols = insert GT (set (bytes ''|();&<''))" by (auto simp: symbols_def bytes_def GT_def)
  then show ?thesis using assms skip_word_progress [of b q] by (auto simp: token_end_def Let_def split: if_splits)
qed

lemma gettoken_mono: "gettoken b s = (r, q, e, t) \<Longrightarrow> s \<le> t"
  using skip_ws_mono [of s b] skip_ws_mono [of e b] token_end_mono [of b "skip_ws b s"]
  by (force simp: gettoken_def Let_def split: prod.splits)

lemma gettoken_progress:
  assumes "gettoken b s = (r, q, e, t)" "char_at b (skip_ws b s) \<noteq> 0"
  shows "s < t \<and> s < length b"
proof -
  obtain r' e' where te: "token_end b (skip_ws b s) = (r', e')" by fastforce
  have "skip_ws b s < e'" by (rule token_end_progress [OF te]) (use assms(2) skip_ws_stops in auto)
  then show ?thesis using assms te skip_ws_mono [of s b] skip_ws_mono [of e' b] char_at_end [OF assms(2)]
    by (auto simp: gettoken_def)
qed

lemma peek_mono: "peek b s toks = (t, r) \<Longrightarrow> s \<le> t"
  using skip_ws_mono [of s b] by (auto simp: peek_def Let_def)

lemma peek_gettoken:
  assumes "peek b s toks = (t, True)" "gettoken b t = (r, q, e, u)"
  shows "s < u \<and> s < length b"
proof -
  have "t = skip_ws b s" "char_at b t \<noteq> 0" using assms(1) by (auto simp: peek_def Let_def)
  then show ?thesis using gettoken_progress [OF assms(2)] skip_ws_mono [of s b] by simp
qed

lemma consume_less:
  "(t, True) = peek b s toks \<Longrightarrow> (r, q, e, u) = gettoken b t \<Longrightarrow> length b - u < length b - s"
  "(t, True) = peek b s toks \<Longrightarrow> (r, q, e, u) = gettoken b t \<Longrightarrow> (r2, q2, e2, v) = gettoken b u \<Longrightarrow> length b - v < length b - s"
  using peek_gettoken [of b s toks t r q e u] gettoken_mono [of b u r2 q2 e2 v] by (auto simp: eq_commute)

section \<open>The parser\<close>

function parseredirs :: "span cmd \<Rightarrow> byte list \<Rightarrow> nat \<Rightarrow> string + (span cmd \<times> nat)" where
  "parseredirs c b s =
     (case peek b s [LT, GT] of
        (s1, False) \<Rightarrow> Inr (c, s1)
      | (s1, True) \<Rightarrow>
          (case gettoken b s1 of (tok, _, _, s2) \<Rightarrow>
             (case gettoken b s2 of (tok2, q, eq, s3) \<Rightarrow>
                if tok2 \<noteq> TOK_A then Inl ''missing file for redirection''
                else parseredirs (redir_of tok c (q, eq)) b s3)))"
  by pat_completeness auto
termination by (relation "measure (\<lambda>(c, b, s). length b - s)") (auto intro: consume_less)

declare parseredirs.simps [simp del]

function parseargs :: "span cmd \<Rightarrow> nat \<Rightarrow> byte list \<Rightarrow> nat \<Rightarrow> string + (span cmd \<times> nat)" where
  "parseargs ret argc b s =
     (case peek b s (bytes ''|)&;'') of
        (s1, True) \<Rightarrow> Inr (ret, s1)
      | (s1, False) \<Rightarrow>
          (case gettoken b s1 of (tok, q, eq, s2) \<Rightarrow>
             if tok = 0 then Inr (ret, s2)
             else if tok \<noteq> TOK_A then Inl ''syntax''
             else if argc + 1 \<ge> MAXARGS then Inl ''too many args''
             else
               (case parseredirs (add_arg (q, eq) ret) b s2 of
                  Inl e \<Rightarrow> Inl e
                | Inr (ret1, s3) \<Rightarrow> parseargs ret1 (argc + 1) b s3)))"
  by pat_completeness auto
termination by (relation "measure (\<lambda>(ret, argc, b, s). MAXARGS - argc)") auto

declare parseargs.simps [simp del]

lemma parseredirs_mono: "parseredirs c b s = Inr (c', t) \<Longrightarrow> s \<le> t"
proof (induction c b s rule: parseredirs.induct)
  case (1 c b s)
  obtain s1 r where p: "peek b s [LT, GT] = (s1, r)" by fastforce
  obtain tok q1 e1 s2 where g: "gettoken b s1 = (tok, q1, e1, s2)" by (metis prod_cases4)
  obtain tok2 q e s3 where g2: "gettoken b s2 = (tok2, q, e, s3)" by (metis prod_cases4)
  have "s3 \<le> t" if "r" "tok2 = TOK_A" "parseredirs (redir_of tok c (q, e)) b s3 = Inr (c', t)"
    by (rule 1(1)) (use p g g2 that in auto)
  then show ?case
    using 1(2) p g g2 peek_mono [OF p] gettoken_mono [OF g] gettoken_mono [OF g2] by (subst (asm) parseredirs.simps) (auto split: bool.splits if_splits)
qed

text \<open>The loop \<^verbatim>\<open>while(peek(ps, es, "&"))\<close> of \<^verbatim>\<open>parseline\<close>.\<close>

function parseback :: "span cmd \<Rightarrow> byte list \<Rightarrow> nat \<Rightarrow> span cmd \<times> nat" where
  "parseback c b s =
     (case peek b s (bytes ''&'') of
        (s1, False) \<Rightarrow> (c, s1)
      | (s1, True) \<Rightarrow> (case gettoken b s1 of (_, _, _, s2) \<Rightarrow> parseback (BACK c) b s2))"
  by pat_completeness auto
termination by (relation "measure (\<lambda>(c, b, s). length b - s)") (auto intro: consume_less)

declare parseback.simps [simp del]

lemma parseargs_mono: "parseargs c n b s = Inr (c', t) \<Longrightarrow> s \<le> t"
proof (induction c n b s rule: parseargs.induct)
  case (1 c n b s)
  obtain s1 r where p: "peek b s (bytes ''|)&;'') = (s1, r)" by fastforce
  obtain tok q e s2 where g: "gettoken b s1 = (tok, q, e, s2)" by (metis prod_cases4)
  have "s3 \<le> t" if "\<not> r" "tok = TOK_A" "n + 1 < MAXARGS" "parseredirs (add_arg (q, e) c) b s2 = Inr (c1, s3)"
      "parseargs c1 (n + 1) b s3 = Inr (c', t)" for c1 s3
    by (rule 1(1)) (use p g that in \<open>auto simp: TOK_A_def\<close>)
  note ih = this
  show ?case
  proof (cases "r \<or> tok \<noteq> TOK_A \<or> MAXARGS \<le> n + 1")
    case True
    then show ?thesis using 1(2) p g peek_mono [OF p] gettoken_mono [OF g] by (subst (asm) parseargs.simps) (auto split: bool.splits if_splits)
  next
    case False
    then obtain c1 s3 where "parseredirs (add_arg (q, e) c) b s2 = Inr (c1, s3)" "parseargs c1 (n + 1) b s3 = Inr (c', t)"
      using 1(2) p g by (subst (asm) parseargs.simps) (auto simp: TOK_A_def split: bool.splits sum.splits)
    with ih [of c1 s3] False peek_mono [OF p] gettoken_mono [OF g] show ?thesis by (auto dest: parseredirs_mono)
  qed
qed

lemma parseback_mono: "parseback c b s = (c', t) \<Longrightarrow> s \<le> t"
proof (induction c b s rule: parseback.induct)
  case (1 c b s)
  obtain s1 r where p: "peek b s (bytes ''&'') = (s1, r)" by fastforce
  obtain tok q e s2 where g: "gettoken b s1 = (tok, q, e, s2)" by (metis prod_cases4)
  have "s2 \<le> t" if "r" "parseback (BACK c) b s2 = (c', t)"
    by (rule 1(1)) (use p g that in auto)
  then show ?case
    using 1(2) p g peek_mono [OF p] gettoken_mono [OF g] by (subst (asm) parseback.simps) (auto split: bool.splits)
qed

lemma consume_less_from:
  "(t, True) = peek b s1 toks \<Longrightarrow> (r, q, e, u) = gettoken b t \<Longrightarrow> s \<le> s1 \<Longrightarrow> length b - u < length b - s"
  using consume_less(1) [of t b s1 toks r q e u] by simp

lemma parseback_mono_sym: "(c', t) = parseback c b s1 \<Longrightarrow> s \<le> s1 \<Longrightarrow> s \<le> t"
  using parseback_mono [of c b s1 c' t] by simp

text \<open>
  The parser proper. Every call reads on, which is shown first and makes the calls end.
\<close>

function parseline :: "byte list \<Rightarrow> nat \<Rightarrow> string + (span cmd \<times> nat)"
  and parsepipe :: "byte list \<Rightarrow> nat \<Rightarrow> string + (span cmd \<times> nat)"
  and parseexec :: "byte list \<Rightarrow> nat \<Rightarrow> string + (span cmd \<times> nat)"
  and parseblock :: "byte list \<Rightarrow> nat \<Rightarrow> string + (span cmd \<times> nat)" where
  "parseline b s =
     (case parsepipe b s of
        Inl e \<Rightarrow> Inl e
      | Inr (c, s1) \<Rightarrow>
          (case parseback c b s1 of (c2, s2) \<Rightarrow>
             (case peek b s2 (bytes '';'') of
                (s3, False) \<Rightarrow> Inr (c2, s3)
              | (s3, True) \<Rightarrow>
                  (case gettoken b s3 of (_, _, _, s4) \<Rightarrow>
                     (case parseline b s4 of Inl e \<Rightarrow> Inl e | Inr (r, s5) \<Rightarrow> Inr (LIST c2 r, s5))))))"
| "parsepipe b s =
     (case parseexec b s of
        Inl e \<Rightarrow> Inl e
      | Inr (c, s1) \<Rightarrow>
          (case peek b s1 (bytes ''|'') of
             (s2, False) \<Rightarrow> Inr (c, s2)
           | (s2, True) \<Rightarrow>
               (case gettoken b s2 of (_, _, _, s3) \<Rightarrow>
                  (case parsepipe b s3 of Inl e \<Rightarrow> Inl e | Inr (r, s4) \<Rightarrow> Inr (PIPE c r, s4)))))"
| "parseexec b s =
     (case peek b s (bytes ''('') of
        (s1, True) \<Rightarrow> parseblock b s1
      | (s1, False) \<Rightarrow>
          (case parseredirs (EXEC []) b s1 of
             Inl e \<Rightarrow> Inl e
           | Inr (ret, s2) \<Rightarrow> parseargs ret 0 b s2))"
| "parseblock b s =
     (case peek b s (bytes ''('') of
        (s1, False) \<Rightarrow> Inl ''parseblock''
      | (s1, True) \<Rightarrow>
          (case gettoken b s1 of (_, _, _, s2) \<Rightarrow>
             (case parseline b s2 of
                Inl e \<Rightarrow> Inl e
              | Inr (c, s3) \<Rightarrow>
                  (case peek b s3 (bytes '')'') of
                     (s4, False) \<Rightarrow> Inl ''syntax - missing )''
                   | (s4, True) \<Rightarrow> (case gettoken b s4 of (_, _, _, s5) \<Rightarrow> parseredirs c b s5)))))"
  by pat_completeness auto
termination
proof -
  let ?dom = "parseline_parsepipe_parseexec_parseblock_dom"
  have mono:
    "?dom (Inl (Inl (b, s))) \<Longrightarrow> parseline b s = Inr (c, t) \<Longrightarrow> s \<le> t"
    "?dom (Inl (Inr (b, s))) \<Longrightarrow> parsepipe b s = Inr (c, t) \<Longrightarrow> s \<le> t"
    "?dom (Inr (Inl (b, s))) \<Longrightarrow> parseexec b s = Inr (c, t) \<Longrightarrow> s \<le> t"
    "?dom (Inr (Inr (b, s))) \<Longrightarrow> parseblock b s = Inr (c, t) \<Longrightarrow> s \<le> t"
    for b s c t
  proof (induction b s and b s and b s and b s arbitrary: c t and c t and c t and c t rule: parseline_parsepipe_parseexec_parseblock.pinduct)
    case (1 b s)
    from 1(1,4) obtain c1 s1 where p: "parsepipe b s = Inr (c1, s1)" by (auto simp: parseline.psimps split: sum.splits)
    obtain c2 s2 where k: "parseback c1 b s1 = (c2, s2)" by fastforce
    obtain s3 r where q: "peek b s2 (bytes '';'') = (s3, r)" by fastforce
    obtain tok q1 e1 s4 where g: "gettoken b s3 = (tok, q1, e1, s4)" by (metis prod_cases4)
    have "s4 \<le> t'" if r "parseline b s4 = Inr (d, t')" for d t' by (rule 1(3)) (use p k q g that in auto)
    then show ?case using 1(1,4) p k q g 1(2) [OF p] parseback_mono [OF k] peek_mono [OF q] gettoken_mono [OF g]
      by (fastforce simp: parseline.psimps split: bool.splits sum.splits intro: order_trans)
  next
    case (2 b s)
    from 2(1,4) obtain c1 s1 where p: "parseexec b s = Inr (c1, s1)" by (auto simp: parsepipe.psimps split: sum.splits)
    obtain s3 r where q: "peek b s1 (bytes ''|'') = (s3, r)" by fastforce
    obtain tok q1 e1 s4 where g: "gettoken b s3 = (tok, q1, e1, s4)" by (metis prod_cases4)
    have "s4 \<le> t'" if r "parsepipe b s4 = Inr (d, t')" for d t' by (rule 2(3)) (use p q g that in auto)
    then show ?case using 2(1,4) p q g 2(2) [OF p] peek_mono [OF q] gettoken_mono [OF g]
      by (fastforce simp: parsepipe.psimps split: bool.splits sum.splits intro: order_trans)
  next
    case (3 b s)
    obtain s1 r where q: "peek b s (bytes ''('') = (s1, r)" by fastforce
    have "s1 \<le> t'" if r "parseblock b s1 = Inr (d, t')" for d t' by (rule 3(2)) (use q that in auto)
    then show ?case using 3(1,3) q peek_mono [OF q]
      by (fastforce simp: parseexec.psimps split: bool.splits sum.splits dest: parseredirs_mono parseargs_mono intro: order_trans)
  next
    case (4 b s)
    obtain s1 r where q: "peek b s (bytes ''('') = (s1, r)" by fastforce
    obtain tok q1 e1 s2 where g: "gettoken b s1 = (tok, q1, e1, s2)" by (metis prod_cases4)
    from 4(1,3) q g obtain d s3 where p: "r" "parseline b s2 = Inr (d, s3)" by (auto simp: parseblock.psimps split: sum.splits bool.splits)
    obtain s4 r2 where q2: "peek b s3 (bytes '')'') = (s4, r2)" by fastforce
    obtain tok2 q3 e3 s5 where g2: "gettoken b s4 = (tok2, q3, e3, s5)" by (metis prod_cases4)
    have "s2 \<le> s3" by (rule 4(2)) (use q g p in auto)
    then show ?case using 4(1,3) q g p q2 g2 peek_mono [OF q] gettoken_mono [OF g] peek_mono [OF q2] gettoken_mono [OF g2]
      by (auto simp: parseblock.psimps split: bool.splits dest!: parseredirs_mono)
  qed
  have calls:
    "?dom (Inl (Inr (b, s))) \<Longrightarrow> parsepipe b s = Inr (c1, s1) \<Longrightarrow> (c2, s2) = parseback c1 b s1 \<Longrightarrow>
       (s3, True) = peek b s2 toks \<Longrightarrow> (r, q, e, s4) = gettoken b s3 \<Longrightarrow> length b - s4 < length b - s"
    "?dom (Inr (Inl (b, s))) \<Longrightarrow> parseexec b s = Inr (c1, s1) \<Longrightarrow>
       (s3, True) = peek b s1 toks \<Longrightarrow> (r, q, e, s4) = gettoken b s3 \<Longrightarrow> length b - s4 < length b - s"
    "(s3, True) = peek b s toks \<Longrightarrow> length b - s3 \<noteq> length b - s \<Longrightarrow> length b - s3 < length b - s"
    for b s c1 s1 c2 s2 s3 toks r q e s4
    using mono(2) [of b s c1 s1] mono(3) [of b s c1 s1] parseback_mono_sym [of c2 s2 c1 b s1 s] consume_less_from [of s3 b _ toks r q e s4 s]
      peek_mono [of b s toks s3 True] by auto
  show ?thesis
    by (relation "measures [\<lambda>x. case x of Inl (Inl (b, s)) \<Rightarrow> length b - s | Inl (Inr (b, s)) \<Rightarrow> length b - s | Inr (Inl (b, s)) \<Rightarrow> length b - s
        | Inr (Inr (b, s)) \<Rightarrow> length b - s,
      \<lambda>x. case x of Inl (Inl _) \<Rightarrow> 3 | Inl (Inr _) \<Rightarrow> 2 | Inr (Inl _) \<Rightarrow> 1 | Inr (Inr _) \<Rightarrow> (0 :: nat)]")
      (auto intro: calls consume_less)
qed

declare parseline.simps [simp del] parsepipe.simps [simp del] parseexec.simps [simp del] parseblock.simps [simp del]

section \<open>Terminating the words\<close>

text \<open>\<open>nulterminate\<close> on the line with its terminating zero.\<close>

fun nulterminate :: "span cmd \<Rightarrow> byte list \<Rightarrow> byte list" where
  "nulterminate (EXEC as) b = fold (\<lambda>(q, eq) b. b[eq := 0]) as b"
| "nulterminate (REDIR c (q, eq) m fd) b = (nulterminate c b)[eq := 0]"
| "nulterminate (PIPE l r) b = nulterminate r (nulterminate l b)"
| "nulterminate (LIST l r) b = nulterminate r (nulterminate l b)"
| "nulterminate (BACK c) b = nulterminate c b"

definition parsecmd :: "byte list \<Rightarrow> string + (span cmd \<times> byte list)" where
  "parsecmd b =
     (case parseline b 0 of
        Inl e \<Rightarrow> Inl e
      | Inr (c, s) \<Rightarrow>
          (case peek b s [] of (s1, _) \<Rightarrow>
             if s1 \<noteq> length b then Inl ''syntax'' else Inr (c, nulterminate c (b @ [0]))))"

section \<open>The words of a command\<close>

definition word_char :: "byte \<Rightarrow> bool" where
  "word_char c \<longleftrightarrow> c \<noteq> 0 \<and> c \<notin> set whitespace \<and> c \<notin> set symbols"

text \<open>A span that delimits a word completely.\<close>

fun span_ok :: "byte list \<Rightarrow> span \<Rightarrow> bool" where
  "span_ok b (q, e) \<longleftrightarrow> q < e \<and> e \<le> length b \<and> (\<forall>i \<in> {q..<e}. word_char (b ! i)) \<and> (e < length b \<longrightarrow> \<not> word_char (b ! e))"

text \<open>The characters of a span, and the C string that starts there.\<close>

fun slice :: "byte list \<Rightarrow> span \<Rightarrow> byte list" where
  "slice b (q, e) = take (e - q) (drop q b)"

fun cstring :: "byte list \<Rightarrow> span \<Rightarrow> byte list" where
  "cstring b (q, e) = takeWhile (\<lambda>c. c \<noteq> 0) (drop q b)"

fun args :: "'w cmd \<Rightarrow> nat" where
  "args (EXEC as) = length as"
| "args (REDIR c f m fd) = args c"
| "args c = 0"

fun wf_cmd :: "('w \<Rightarrow> bool) \<Rightarrow> 'w cmd \<Rightarrow> bool" where
  "wf_cmd P (EXEC as) \<longleftrightarrow> list_all P as \<and> length as < MAXARGS"
| "wf_cmd P (REDIR c f m fd) \<longleftrightarrow> wf_cmd P c \<and> P f \<and> (m, fd) \<in> {(O_RDONLY, 0), (O_WRONLY OR O_CREATE, 1)}"
| "wf_cmd P (PIPE l r) \<longleftrightarrow> wf_cmd P l \<and> wf_cmd P r"
| "wf_cmd P (LIST l r) \<longleftrightarrow> wf_cmd P l \<and> wf_cmd P r"
| "wf_cmd P (BACK c) \<longleftrightarrow> wf_cmd P c"

lemma skip_word_span:
  "0 \<notin> set b \<Longrightarrow> s \<le> length b \<Longrightarrow> s \<le> skip_word b s \<and> skip_word b s \<le> length b \<and> (\<forall>i \<in> {s..<skip_word b s}. word_char (b ! i)) \<and>
     (skip_word b s < length b \<longrightarrow> \<not> word_char (b ! skip_word b s))"
proof (induction b s rule: skip_word.induct)
  case (1 b s)
  show ?case
  proof (cases "s < length b \<and> char_at b s \<notin> set whitespace \<and> char_at b s \<notin> set symbols")
    case True
    moreover have "b ! s \<noteq> 0" using 1(2) True by (metis nth_mem)
    ultimately have "word_char (b ! s)" by (auto simp: word_char_def char_at_def)
    moreover have "skip_word b s = skip_word b (s + 1)" using True by (subst skip_word.simps) simp
    moreover have "{s..<skip_word b (s + 1)} = insert s {s + 1..<skip_word b (s + 1)}" using skip_word_mono [of "s + 1" b] by auto
    ultimately show ?thesis using 1 True by simp
  next
    case False
    then have "skip_word b s = s" by (subst skip_word.simps) auto
    then show ?thesis using False 1(2,3) by (auto simp: word_char_def char_at_def)
  qed
qed

lemma gettoken_word:
  assumes "gettoken b s = (TOK_A, q, e, t)" "0 \<notin> set b"
  shows "span_ok b (q, e)"
proof -
  have te: "token_end b q = (TOK_A, e)" and q: "q = skip_ws b s" using assms(1) by (auto simp: gettoken_def Let_def split: prod.splits)
  then have c: "char_at b q \<noteq> 0" "skip_word b q = e"
    by (auto simp: token_end_def Let_def TOK_A_def TOK_APPEND_def GT_def bytes_def split: if_splits)
  then have "q < length b" by (simp add: char_at_end)
  moreover have "q < e" by (rule token_end_progress [OF te c(1)]) (simp add: q skip_ws_stops)
  ultimately show ?thesis using skip_word_span [OF assms(2), of q] c(2) by simp
qed

declare span_ok.simps [simp del]

lemma add_arg_wf: "wf_cmd P c \<Longrightarrow> P a \<Longrightarrow> args c + 1 < MAXARGS \<Longrightarrow> wf_cmd P (add_arg a c) \<and> args (add_arg a c) \<le> args c + 1"
  by (induction a c rule: add_arg.induct) auto

lemma redir_of_wf: "wf_cmd P c \<Longrightarrow> P f \<Longrightarrow> wf_cmd P (redir_of tok c f) \<and> args (redir_of tok c f) = args c"
  by (simp add: redir_of_def)

lemma parseredirs_wf:
  "parseredirs c b s = Inr (d, t) \<Longrightarrow> 0 \<notin> set b \<Longrightarrow> wf_cmd (span_ok b) c \<Longrightarrow> wf_cmd (span_ok b) d \<and> args d = args c"
proof (induction c b s rule: parseredirs.induct)
  case (1 c b s)
  obtain s1 r where p: "peek b s [LT, GT] = (s1, r)" by fastforce
  obtain tok q1 e1 s2 where g: "gettoken b s1 = (tok, q1, e1, s2)" by (metis prod_cases4)
  obtain tok2 q e s3 where g2: "gettoken b s2 = (tok2, q, e, s3)" by (metis prod_cases4)
  show ?case
  proof (cases r)
    case False
    then show ?thesis using 1(2,4) p by (subst (asm) parseredirs.simps) simp
  next
    case True
    then have a: "tok2 = TOK_A" and pr: "parseredirs (redir_of tok c (q, e)) b s3 = Inr (d, t)"
      using 1(2) p g g2 by (subst (asm) parseredirs.simps, simp split: if_splits)+
    then have w: "wf_cmd (span_ok b) (redir_of tok c (q, e)) \<and> args (redir_of tok c (q, e)) = args c"
      using g2 1(3,4) by (intro redir_of_wf) (auto intro: gettoken_word)
    have "wf_cmd (span_ok b) d \<and> args d = args (redir_of tok c (q, e))"
      by (rule 1(1)) (use p g g2 a pr w True 1(3) in auto)
    then show ?thesis using w by simp
  qed
qed

lemma parseargs_wf:
  "parseargs c n b s = Inr (d, t) \<Longrightarrow> 0 \<notin> set b \<Longrightarrow> wf_cmd (span_ok b) c \<Longrightarrow> args c \<le> n \<Longrightarrow> wf_cmd (span_ok b) d"
proof (induction c n b s rule: parseargs.induct)
  case (1 c n b s)
  obtain s1 r where p: "peek b s (bytes ''|)&;'') = (s1, r)" by fastforce
  obtain tok q e s2 where g: "gettoken b s1 = (tok, q, e, s2)" by (metis prod_cases4)
  show ?case
  proof (cases "r \<or> tok \<noteq> TOK_A \<or> MAXARGS \<le> n + 1")
    case True
    then show ?thesis using 1(2,4) p g by (subst (asm) parseargs.simps) (auto split: bool.splits if_splits)
  next
    case False
    then obtain c1 s3 where pr: "parseredirs (add_arg (q, e) c) b s2 = Inr (c1, s3)" "parseargs c1 (n + 1) b s3 = Inr (d, t)"
      using 1(2) p g by (subst (asm) parseargs.simps) (auto simp: TOK_A_def split: bool.splits sum.splits)
    have "wf_cmd (span_ok b) (add_arg (q, e) c) \<and> args (add_arg (q, e) c) \<le> args c + 1"
      using 1(3,4,5) False g by (intro add_arg_wf) (auto intro: gettoken_word)
    with parseredirs_wf [OF pr(1) 1(3)] 1(5) have "wf_cmd (span_ok b) c1" "args c1 \<le> n + 1" by auto
    then show ?thesis using 1(1) [OF p [symmetric]] False g pr 1(3) by (auto simp: TOK_A_def)
  qed
qed

lemma parseback_wf: "parseback c b s = (d, t) \<Longrightarrow> wf_cmd P c \<Longrightarrow> wf_cmd P d"
proof (induction c b s rule: parseback.induct)
  case (1 c b s)
  obtain s1 r where p: "peek b s (bytes ''&'') = (s1, r)" by fastforce
  obtain tok q e s2 where g: "gettoken b s1 = (tok, q, e, s2)" by (metis prod_cases4)
  have "wf_cmd P d" if "r" "parseback (BACK c) b s2 = (d, t)"
    by (rule 1(1)) (use p g that 1(3) in auto)
  then show ?case using 1(2,3) p g by (subst (asm) parseback.simps) (auto split: bool.splits)
qed

lemma parse_wf:
  "parseline b s = Inr (c, t) \<Longrightarrow> 0 \<notin> set b \<Longrightarrow> wf_cmd (span_ok b) c"
  "parsepipe b s = Inr (c, t) \<Longrightarrow> 0 \<notin> set b \<Longrightarrow> wf_cmd (span_ok b) c"
  "parseexec b s = Inr (c, t) \<Longrightarrow> 0 \<notin> set b \<Longrightarrow> wf_cmd (span_ok b) c"
  "parseblock b s = Inr (c, t) \<Longrightarrow> 0 \<notin> set b \<Longrightarrow> wf_cmd (span_ok b) c"
proof (induction b s and b s and b s and b s arbitrary: c t and c t and c t and c t rule: parseline_parsepipe_parseexec_parseblock.induct)
  case (1 b s)
  from 1(3) obtain c1 s1 where p: "parsepipe b s = Inr (c1, s1)" by (subst (asm) parseline.simps) (auto split: sum.splits)
  obtain c2 s2 where k: "parseback c1 b s1 = (c2, s2)" by fastforce
  obtain s3 r where q: "peek b s2 (bytes '';'') = (s3, r)" by fastforce
  obtain tok q1 e1 s4 where g: "gettoken b s3 = (tok, q1, e1, s4)" by (metis prod_cases4)
  have "wf_cmd (span_ok b) d" if r "parseline b s4 = Inr (d, t')" for d t' by (rule 1(2)) (use p k q g that 1(4) in auto)
  moreover have "wf_cmd (span_ok b) c2" by (rule parseback_wf [OF k 1(1) [OF p 1(4)]])
  ultimately show ?case using 1(3) p k q g by (subst (asm) parseline.simps) (auto split: bool.splits sum.splits)
next
  case (2 b s)
  from 2(3) obtain c1 s1 where p: "parseexec b s = Inr (c1, s1)" by (subst (asm) parsepipe.simps) (auto split: sum.splits)
  obtain s3 r where q: "peek b s1 (bytes ''|'') = (s3, r)" by fastforce
  obtain tok q1 e1 s4 where g: "gettoken b s3 = (tok, q1, e1, s4)" by (metis prod_cases4)
  have "wf_cmd (span_ok b) d" if r "parsepipe b s4 = Inr (d, t')" for d t' by (rule 2(2)) (use p q g that 2(4) in auto)
  then show ?case using 2(3) p q g 2(1) [OF p 2(4)] by (subst (asm) parsepipe.simps) (auto split: bool.splits sum.splits)
next
  case (3 b s)
  obtain s1 r where q: "peek b s (bytes ''('') = (s1, r)" by fastforce
  have "wf_cmd (span_ok b) d" if r "parseblock b s1 = Inr (d, t')" for d t' by (rule 3(1)) (use q that 3(3) in auto)
  moreover have "wf_cmd (span_ok b) (EXEC [])" by (simp add: MAXARGS_def)
  ultimately show ?case using 3(2,3) q
    by (subst (asm) parseexec.simps) (auto split: bool.splits sum.splits dest!: parseredirs_wf parseargs_wf)
next
  case (4 b s)
  obtain s1 r where q: "peek b s (bytes ''('') = (s1, r)" by fastforce
  obtain tok q1 e1 s2 where g: "gettoken b s1 = (tok, q1, e1, s2)" by (metis prod_cases4)
  from 4(2) q g obtain d s3 where p: "r" "parseline b s2 = Inr (d, s3)"
    by (subst (asm) parseblock.simps) (auto split: sum.splits bool.splits)
  obtain s4 r2 where q2: "peek b s3 (bytes '')'') = (s4, r2)" by fastforce
  obtain tok2 q3 e3 s5 where g2: "gettoken b s4 = (tok2, q3, e3, s5)" by (metis prod_cases4)
  have "wf_cmd (span_ok b) d" by (rule 4(1)) (use q g p 4(3) in auto)
  then show ?case using 4(2,3) q g p q2 g2
    by (subst (asm) parseblock.simps) (auto split: bool.splits dest!: parseredirs_wf)
qed

lemma wf_cmd_map: "wf_cmd P (map_cmd f c) \<longleftrightarrow> wf_cmd (\<lambda>w. P (f w)) c"
  by (induction c) (auto simp: list_all_iff)

lemma wf_cmd_words: "wf_cmd P c \<Longrightarrow> w \<in> set_cmd c \<Longrightarrow> P w"
  by (induction c) (auto simp: list_all_iff)

lemma wf_cmd_mono: "wf_cmd P c \<Longrightarrow> (\<And>w. w \<in> set_cmd c \<Longrightarrow> P w \<Longrightarrow> Q w) \<Longrightarrow> wf_cmd Q c"
  by (induction c) (auto simp: list_all_iff)

lemma length_nulterminate_args: "length (fold (\<lambda>(q, eq) b. b[eq := 0]) as B) = length B"
  by (induction as arbitrary: B) auto

lemma length_nulterminate [simp]: "length (nulterminate c B) = length B"
  by (induction c B rule: nulterminate.induct) (simp_all add: length_nulterminate_args)

lemma nth_update: "i < length xs \<Longrightarrow> xs[k := x] ! i = (if k = i then x else xs ! i)"
  by (cases "k = i") simp_all

lemma nulterminate_nth:
  "i < length B \<Longrightarrow> nulterminate c B ! i = (if i \<in> snd ` set_cmd c then 0 else B ! i)"
proof (induction c B rule: nulterminate.induct)
  case (1 as B)
  then show ?case by (induction as arbitrary: B) (auto simp: nth_update image_iff, force+)
qed (simp_all add: nth_update image_Un)

lemma cstring_nulterminate:
  assumes "wf_cmd (span_ok b) c" "w \<in> set_cmd c"
  shows "cstring (nulterminate c (b @ [0])) w = slice b w"
proof -
  obtain q e where w: "w = (q, e)" by fastforce
  have sp: "span_ok b v" if "v \<in> set_cmd c" for v using wf_cmd_words [OF assms(1) that] .
  let ?b = "nulterminate c (b @ [0])"
  have ok: "q < e" "e \<le> length b" "\<forall>i \<in> {q..<e}. word_char (b ! i)" using sp [OF assms(2)] by (auto simp: w span_ok.simps)
  have keep: "?b ! i = b ! i" if "i < length b" "word_char (b ! i)" for i
  proof -
    have "i \<notin> snd ` set_cmd c" using sp that by (auto simp: span_ok.simps)
    then show ?thesis using that by (simp add: nulterminate_nth nth_append)
  qed
  have z: "?b ! e = 0" using ok assms(2) by (simp add: nulterminate_nth w image_iff) force
  have "takeWhile (\<lambda>c. c \<noteq> 0) (drop q ?b) = take (e - q) (drop q ?b)"
    by (rule takeWhile_eq_take_P_nth) (use ok keep z in \<open>auto simp: word_char_def\<close>)
  also have "\<dots> = take (e - q) (drop q b)"
    by (rule nth_equalityI) (use ok keep in auto)
  finally show ?thesis by (simp add: w)
qed

definition word_ok :: "byte list \<Rightarrow> bool" where
  "word_ok w \<longleftrightarrow> w \<noteq> [] \<and> list_all word_char w"

lemma span_ok_slice: "span_ok b w \<Longrightarrow> word_ok (slice b w)"
  by (cases w) (auto simp: span_ok.simps word_ok_def list_all_length)

lemma parsecmd_words_aux:
  assumes "parsecmd b = Inr (c, B)" "0 \<notin> set b"
  shows "wf_cmd (span_ok b) c" "B = nulterminate c (b @ [0])"
proof -
  obtain s where p: "parseline b 0 = Inr (c, s)" "B = nulterminate c (b @ [0])"
    using assms(1) by (auto simp: parsecmd_def split: sum.splits prod.splits if_splits)
  show "wf_cmd (span_ok b) c" by (rule parse_wf(1) [OF p(1) assms(2)])
  show "B = nulterminate c (b @ [0])" by (rule p(2))
qed

end
