(* ===== verification/Sh_Print.thy ===== *)
theory Sh_Print
  imports Sh
begin

text \<open>
  The round trip of the shell's parser: every command has a text that parses to it. The text is
  printed with the parentheses the grammar needs, and each level of the grammar (\<^verbatim>\<open>parseexec\<close>,
  \<^verbatim>\<open>parsepipe\<close>, the loop over \<^verbatim>\<open>&\<close>, \<^verbatim>\<open>parseline\<close>) is shown to read its level of the text.
\<close>

section \<open>Printing commands\<close>

text \<open>A text for every command, with parentheses where the grammar needs them; one space ends every word and symbol.\<close>

definition redir_text :: "byte list \<Rightarrow> nat \<Rightarrow> byte list" where
  "redir_text f fd = [if fd = 0 then LT else GT, 32] @ f @ [32]"

definition block_text :: "byte list \<Rightarrow> byte list" where
  "block_text u = bytes ''( '' @ u @ bytes '') ''"

fun exec_level :: "'w cmd \<Rightarrow> bool" where
  "exec_level (EXEC as) \<longleftrightarrow> True"
| "exec_level (REDIR c f m fd) \<longleftrightarrow> True"
| "exec_level c \<longleftrightarrow> False"

fun pipe_level :: "'w cmd \<Rightarrow> bool" where
  "pipe_level (LIST l r) \<longleftrightarrow> False"
| "pipe_level (BACK c) \<longleftrightarrow> False"
| "pipe_level c \<longleftrightarrow> True"

fun back_level :: "'w cmd \<Rightarrow> bool" where
  "back_level (LIST l r) \<longleftrightarrow> False"
| "back_level c \<longleftrightarrow> True"

fun unparse :: "byte list cmd \<Rightarrow> byte list" where
  "unparse (EXEC as) = concat (map (\<lambda>w. w @ [32]) as)"
| "unparse (REDIR c f m fd) = (if exec_level c then unparse c else block_text (unparse c)) @ redir_text f fd"
| "unparse (PIPE l r) =
     (if exec_level l then unparse l else block_text (unparse l)) @ bytes ''| '' @
     (if pipe_level r then unparse r else block_text (unparse r))"
| "unparse (LIST l r) = (if back_level l then unparse l else block_text (unparse l)) @ bytes ''; '' @ unparse r"
| "unparse (BACK c) = (if back_level c then unparse c else block_text (unparse c)) @ bytes ''& ''"

definition exec_text :: "byte list cmd \<Rightarrow> byte list" where
  "exec_text c = (if exec_level c then unparse c else block_text (unparse c))"

definition pipe_text :: "byte list cmd \<Rightarrow> byte list" where
  "pipe_text c = (if pipe_level c then unparse c else block_text (unparse c))"

definition back_text :: "byte list cmd \<Rightarrow> byte list" where
  "back_text c = (if back_level c then unparse c else block_text (unparse c))"

section \<open>Reading tokens from a text\<close>

definition follow :: "byte list \<Rightarrow> bool" where
  "follow post \<longleftrightarrow> post = [] \<or> hd post \<noteq> 0 \<and> hd post \<notin> set whitespace"

definition starts :: "byte list \<Rightarrow> byte list \<Rightarrow> bool" where
  "starts toks post \<longleftrightarrow> post = [] \<or> hd post \<in> set toks"

lemma drop_append_text: "drop s b = u @ v \<Longrightarrow> drop (s + length u) b = v"
  by (metis add.commute append_eq_conv_conj drop_drop)

lemma drop_Cons_text: "drop s b = x # v \<Longrightarrow> drop (s + 1) b = v"
  using drop_append_text [of s b "[x]" v] by simp

lemma char_at_text: "drop s b = post \<Longrightarrow> char_at b s = (if post = [] then 0 else hd post)"
  by (cases post) (auto simp: char_at_def nth_via_drop)

lemma length_text: "drop s b = x # v \<Longrightarrow> s < length b"
  by (metis drop_all linorder_not_less list.discI)

lemma skip_ws_text: "drop s b = post \<Longrightarrow> follow post \<Longrightarrow> skip_ws b s = s"
  by (subst skip_ws.simps) (auto simp: char_at_text follow_def)

lemma skip_ws_space: "drop s b = 32 # post \<Longrightarrow> follow post \<Longrightarrow> skip_ws b s = s + 1"
  using skip_ws_text [OF drop_Cons_text, of s b 32 post]
  by (subst skip_ws.simps) (auto simp: char_at_text length_text whitespace_def)

lemma skip_word_text: "drop s b = w @ 32 # post \<Longrightarrow> list_all word_char w \<Longrightarrow> skip_word b s = s + length w"
proof (induction w arbitrary: s)
  case Nil
  then show ?case by (subst skip_word.simps) (auto simp: char_at_text whitespace_def)
next
  case (Cons c w)
  then have "skip_word b (s + 1) = s + 1 + length w" using drop_Cons_text [of s b c] by (intro Cons.IH) auto
  then show ?case using Cons.prems length_text [of s b c] by (subst skip_word.simps) (auto simp: char_at_text word_char_def)
qed

lemma word_ok_hd: "word_ok w \<Longrightarrow> word_char (hd w)"
  by (cases w) (simp_all add: word_ok_def)

lemma follow_word: "word_ok w \<Longrightarrow> follow (w @ v)"
  using word_ok_hd [of w] by (auto simp: follow_def word_char_def word_ok_def)

lemma symbol_char: "c \<in> set symbols \<Longrightarrow> c \<noteq> 0 \<and> c \<notin> set whitespace \<and> \<not> word_char c"
  by (auto simp: word_char_def) (auto simp: symbols_def whitespace_def bytes_def)

lemma symbols_split: "set symbols = insert GT (set (bytes ''|();&<''))"
  by (auto simp: symbols_def bytes_def GT_def)

lemma gettoken_text_word:
  assumes "word_ok w" "drop s b = w @ 32 # post" "follow post"
  shows "gettoken b s = (TOK_A, s, s + length w, s + length w + 1)"
proof -
  have c: "char_at b s = hd w" using assms by (auto simp: char_at_text word_ok_def)
  have "token_end b s = (TOK_A, s + length w)"
    using word_ok_hd [OF assms(1)] skip_word_text [OF assms(2)] assms(1) symbols_split
    by (auto simp: token_end_def c word_char_def word_ok_def)
  moreover have "skip_ws b (s + length w) = s + length w + 1" by (rule skip_ws_space [OF drop_append_text [OF assms(2)] assms(3)])
  ultimately show ?thesis using skip_ws_text [OF assms(2) follow_word [OF assms(1)]] by (simp add: gettoken_def)
qed

lemma gettoken_text_symbol:
  assumes "c \<in> set symbols" "drop s b = c # 32 # post" "follow post"
  shows "gettoken b s = (c, s, s + 1, s + 2)"
proof -
  have "char_at b s = c" "char_at b (s + 1) = 32" using assms(2) drop_Cons_text [OF assms(2)] by (simp_all add: char_at_text)
  then have "token_end b s = (c, s + 1)" using assms(1) symbol_char [OF assms(1)] by (auto simp: token_end_def symbols_split GT_def)
  moreover have "skip_ws b (s + 1) = s + 2" using skip_ws_space [OF drop_Cons_text [OF assms(2)] assms(3)] by simp
  moreover have "skip_ws b s = s" by (rule skip_ws_text [OF assms(2)]) (use symbol_char [OF assms(1)] in \<open>simp add: follow_def\<close>)
  ultimately show ?thesis by (simp add: gettoken_def)
qed

lemma gettoken_text_end: "drop s b = [] \<Longrightarrow> gettoken b s = (0, s, s, s)"
  by (simp add: gettoken_def token_end_def skip_ws_text follow_def char_at_text)

lemma peek_text: "drop s b = post \<Longrightarrow> follow post \<Longrightarrow> peek b s toks = (s, post \<noteq> [] \<and> hd post \<in> set toks)"
  by (auto simp: peek_def skip_ws_text char_at_text follow_def)

lemma slice_text: "drop s b = w @ v \<Longrightarrow> slice b (s, s + length w) = w"
  by simp

lemma starts_follow: "starts toks post \<Longrightarrow> set toks \<subseteq> set symbols \<Longrightarrow> follow post"
  using symbol_char by (auto simp: starts_def follow_def)

section \<open>Redirections\<close>

type_synonym 'w redir = "'w \<times> u32 \<times> nat"

definition wrap :: "'w redir list \<Rightarrow> 'w cmd \<Rightarrow> 'w cmd" where
  "wrap rs c = fold (\<lambda>(f, m, fd) c. REDIR c f m fd) rs c"

definition redirs_text :: "byte list redir list \<Rightarrow> byte list" where
  "redirs_text rs = concat (map (\<lambda>(f, m, fd). redir_text f fd) rs)"

fun redir_ok :: "byte list redir \<Rightarrow> bool" where
  "redir_ok (f, m, fd) \<longleftrightarrow> word_ok f \<and> (m, fd) \<in> {(O_RDONLY, 0), (O_WRONLY OR O_CREATE, 1)}"

definition slices :: "byte list \<Rightarrow> span redir list \<Rightarrow> byte list redir list" where
  "slices b = map (\<lambda>(f, m, fd). (slice b f, m, fd))"

lemma map_wrap: "map_cmd (slice b) (wrap ds c) = wrap (slices b ds) (map_cmd (slice b) c)"
  by (induction ds arbitrary: c) (auto simp: wrap_def slices_def)

lemma parseredirs_none: "drop s b = post \<Longrightarrow> follow post \<Longrightarrow> hd post \<notin> {LT, GT} \<or> post = [] \<Longrightarrow> parseredirs c b s = Inr (c, s)"
  by (subst parseredirs.simps) (auto simp: peek_text)

lemma follow_symbol: "c \<in> set symbols \<Longrightarrow> follow (c # v)"
  by (simp add: follow_def symbol_char)

lemma redir_symbol: "LT \<in> set symbols" "GT \<in> set symbols" "(if fd = 0 then LT else GT) \<in> set symbols"
  by (simp_all add: symbols_def bytes_def LT_def GT_def)

lemma follow_redirs: "follow post \<Longrightarrow> follow (redirs_text rs @ post)"
  by (cases rs) (auto simp: redirs_text_def redir_text_def follow_symbol redir_symbol)

lemma parseredirs_text:
  assumes "drop s b = redirs_text rs @ post" "list_all redir_ok rs" "follow post" "hd post \<notin> {LT, GT} \<or> post = []"
  shows "\<exists>ds. parseredirs c b s = Inr (wrap ds c, s + length (redirs_text rs)) \<and> slices b ds = rs"
  using assms(1,2)
proof (induction rs arbitrary: s c)
  case Nil
  then show ?case using assms(3,4) by (intro exI [of _ "[]"]) (simp add: redirs_text_def wrap_def slices_def parseredirs_none)
next
  case (Cons r rs)
  obtain f m fd where r: "r = (f, m, fd)" by (cases r)
  let ?c = "if fd = 0 then LT else GT"
  have d: "drop s b = ?c # 32 # f @ 32 # redirs_text rs @ post" using Cons.prems(1) by (simp add: r redirs_text_def redir_text_def)
  have w: "word_ok f" "list_all redir_ok rs" using Cons.prems(2) by (simp_all add: r)
  have d2: "drop (s + 2) b = f @ 32 # redirs_text rs @ post" using drop_append_text [of s b "[?c, 32]"] d by simp
  have d3: "drop (s + 2 + length f + 1) b = redirs_text rs @ post"
    by (rule drop_Cons_text [OF drop_append_text [OF d2]])
  have pk: "peek b s [LT, GT] = (s, True)" by (subst peek_text [OF d follow_symbol [OF redir_symbol(3)]]) simp
  have g1: "gettoken b s = (?c, s, s + 1, s + 2)"
    by (rule gettoken_text_symbol [OF redir_symbol(3) d follow_word [OF w(1)]])
  have g2: "gettoken b (s + 2) = (TOK_A, s + 2, s + 2 + length f, s + 2 + length f + 1)"
    by (rule gettoken_text_word [OF w(1) d2 follow_redirs [OF assms(3)]])
  have rd: "redir_of ?c c (s + 2, s + 2 + length f) = REDIR c (s + 2, s + 2 + length f) m fd"
    using Cons.prems(2) by (auto simp: r redir_of_def LT_def GT_def)
  have "parseredirs c b s = parseredirs (REDIR c (s + 2, s + 2 + length f) m fd) b (s + 2 + length f + 1)"
    by (subst parseredirs.simps) (simp add: pk g1 g2 rd del: add_2_eq_Suc')
  moreover have "\<exists>ds. parseredirs (REDIR c (s + 2, s + 2 + length f) m fd) b (s + 2 + length f + 1) =
      Inr (wrap ds (REDIR c (s + 2, s + 2 + length f) m fd), s + 2 + length f + 1 + length (redirs_text rs)) \<and> slices b ds = rs"
    by (rule Cons.IH [OF d3 w(2)])
  then obtain ds where "parseredirs (REDIR c (s + 2, s + 2 + length f) m fd) b (s + 2 + length f + 1) =
      Inr (wrap ds (REDIR c (s + 2, s + 2 + length f) m fd), s + 2 + length f + 1 + length (redirs_text rs))" "slices b ds = rs" by blast
  moreover have "slice b (s + 2, s + 2 + length f) = f" by (rule slice_text [OF d2])
  ultimately show ?case
    by (intro exI [of _ "((s + 2, s + 2 + length f), m, fd) # ds"]) (simp add: wrap_def slices_def r redirs_text_def redir_text_def)
qed

section \<open>Simple commands\<close>

definition words_text :: "byte list list \<Rightarrow> byte list" where
  "words_text as = concat (map (\<lambda>w. w @ [32]) as)"

lemma stop_symbols: "set (bytes ''|)&;'') \<subseteq> set symbols"
  by (simp add: symbols_def bytes_def)

lemma stop_no_redir: "starts (bytes ''|)&;'') post \<Longrightarrow> hd post \<notin> {LT, GT} \<or> post = []"
  by (auto simp: starts_def bytes_def LT_def GT_def)

lemma parseargs_stop:
  assumes "drop s b = post" "starts (bytes ''|)&;'') post"
  shows "parseargs ret n b s = Inr (ret, s)"
  using assms peek_text [OF assms(1) starts_follow [OF assms(2) stop_symbols]] gettoken_text_end [of s b]
  by (subst parseargs.simps) (cases "post = []"; simp add: starts_def)

lemma follow_words: "list_all word_ok as \<Longrightarrow> follow post \<Longrightarrow> follow (words_text as @ post)"
  by (cases as) (auto simp: words_text_def intro: follow_word)

lemma word_no_symbol: "word_ok w \<Longrightarrow> c \<in> set symbols \<Longrightarrow> hd (w @ v) \<noteq> c"
  using word_ok_hd [of w] symbol_char [of c] by (auto simp: word_ok_def)

lemma parseargs_text:
  assumes "drop s b = words_text as @ redirs_text rs @ post" "list_all word_ok as" "list_all redir_ok rs" "starts (bytes ''|)&;'') post"
    "n + length as < MAXARGS" "as = [] \<Longrightarrow> rs = []"
  shows "\<exists>ys ds. parseargs (EXEC xs) n b s = Inr (wrap ds (EXEC (xs @ ys)), s + length (words_text as) + length (redirs_text rs)) \<and>
    map (slice b) ys = as \<and> slices b ds = rs"
  using assms(1,2,5,6)
proof (induction as arbitrary: s n xs)
  case Nil
  then show ?case using assms(4)
    by (intro exI [of _ "[]"]) (simp add: words_text_def redirs_text_def wrap_def slices_def parseargs_stop)
next
  case (Cons w as)
  note fp = starts_follow [OF assms(4) stop_symbols]
  have w: "word_ok w" "list_all word_ok as" using Cons.prems(2) by simp_all
  have fr: "follow (words_text as @ redirs_text rs @ post)" by (intro follow_words follow_redirs w fp)
  have d: "drop s b = w @ 32 # words_text as @ redirs_text rs @ post" using Cons.prems(1) by (simp add: words_text_def)
  have d2: "drop (s + length w + 1) b = words_text as @ redirs_text rs @ post" by (rule drop_Cons_text [OF drop_append_text [OF d]])
  have pk: "peek b s (bytes ''|)&;'') = (s, False)"
    using word_no_symbol [OF w(1)] stop_symbols by (subst peek_text [OF d follow_word [OF w(1)]]) fastforce
  have g: "gettoken b s = (TOK_A, s, s + length w, s + length w + 1)" by (rule gettoken_text_word [OF w(1) d fr])
  let ?a = "(s, s + length w)"
  have sl: "slice b ?a = w" by (rule slice_text [OF d])
  have step: "parseargs (EXEC xs) n b s =
      (case parseredirs (EXEC (xs @ [?a])) b (s + length w + 1) of Inl e \<Rightarrow> Inl e | Inr (ret1, s3) \<Rightarrow> parseargs ret1 (n + 1) b s3)"
    using Cons.prems(3) by (subst parseargs.simps) (simp add: pk g, simp add: TOK_A_def)
  show ?case
  proof (cases "as = []")
    case True
    then have d3: "drop (s + length w + 1) b = redirs_text rs @ post" using d2 by (simp add: words_text_def)
    obtain ds where ds: "parseredirs (EXEC (xs @ [?a])) b (s + length w + 1) =
        Inr (wrap ds (EXEC (xs @ [?a])), s + length w + 1 + length (redirs_text rs))" "slices b ds = rs"
      using parseredirs_text [OF d3 assms(3) fp stop_no_redir [OF assms(4)]] by blast
    have "parseargs ret m b (s + length w + 1 + length (redirs_text rs)) = Inr (ret, s + length w + 1 + length (redirs_text rs))" for ret m
      by (rule parseargs_stop [OF drop_append_text [OF d3] assms(4)])
    then show ?thesis using step ds sl True
      by (intro exI [of _ "[?a]"] exI [of _ ds]) (simp add: words_text_def del: slice.simps)
  next
    case False
    have "hd (words_text as @ redirs_text rs @ post) \<notin> {LT, GT}"
      using False w(2) word_no_symbol redir_symbol(1,2) by (cases as) (auto simp: words_text_def)
    then have pr: "parseredirs c b (s + length w + 1) = Inr (c, s + length w + 1)" for c using parseredirs_none [OF d2 fr] by blast
    have "\<exists>ys ds. parseargs (EXEC (xs @ [?a])) (n + 1) b (s + length w + 1) =
        Inr (wrap ds (EXEC ((xs @ [?a]) @ ys)), s + length w + 1 + length (words_text as) + length (redirs_text rs)) \<and>
        map (slice b) ys = as \<and> slices b ds = rs"
      by (rule Cons.IH [OF d2 w(2)]) (use Cons.prems(3) False in auto)
    then obtain ys ds where "parseargs (EXEC (xs @ [?a])) (n + 1) b (s + length w + 1) =
        Inr (wrap ds (EXEC ((xs @ [?a]) @ ys)), s + length w + 1 + length (words_text as) + length (redirs_text rs))"
        "map (slice b) ys = as" "slices b ds = rs" by blast
    then show ?thesis using step pr sl
      by (intro exI [of _ "?a # ys"] exI [of _ ds]) (simp add: words_text_def del: slice.simps)
  qed
qed

section \<open>The levels of the grammar\<close>

fun strip_redirs :: "'w cmd \<Rightarrow> 'w cmd \<times> 'w redir list" where
  "strip_redirs (REDIR c f m fd) = (case strip_redirs c of (c0, rs) \<Rightarrow> (c0, rs @ [(f, m, fd)]))"
| "strip_redirs c = (c, [])"

fun base_text :: "byte list cmd \<Rightarrow> byte list" where
  "base_text (EXEC as) = words_text as"
| "base_text c = block_text (unparse c)"

abbreviation wf_text :: "byte list cmd \<Rightarrow> bool" where
  "wf_text \<equiv> wf_cmd word_ok"

lemma strip_redirs:
  "strip_redirs c = (c0, rs) \<Longrightarrow> wf_text c \<Longrightarrow>
     c = wrap rs c0 \<and> exec_text c = base_text c0 @ redirs_text rs \<and> wf_text c0 \<and> list_all redir_ok rs \<and> (\<forall>d f m fd. c0 \<noteq> REDIR d f m fd)"
proof (induction c arbitrary: c0 rs)
  case (REDIR c f m fd)
  obtain rs' where st: "strip_redirs c = (c0, rs')" "rs = rs' @ [(f, m, fd)]" using REDIR.prems(1) by (auto split: prod.splits)
  with REDIR show ?case by (auto simp: wrap_def exec_text_def redirs_text_def)
qed (auto simp: wrap_def exec_text_def redirs_text_def words_text_def)

definition okE :: "byte list cmd \<Rightarrow> bool" where
  "okE c \<longleftrightarrow> (\<forall>b s post. drop s b = exec_text c @ post \<and> starts (bytes ''|)&;'') post \<longrightarrow>
     (\<exists>d. parseexec b s = Inr (d, s + length (exec_text c)) \<and> map_cmd (slice b) d = c))"

definition okP :: "byte list cmd \<Rightarrow> bool" where
  "okP c \<longleftrightarrow> (\<forall>b s post. drop s b = pipe_text c @ post \<and> starts (bytes '')&;'') post \<longrightarrow>
     (\<exists>d. parsepipe b s = Inr (d, s + length (pipe_text c)) \<and> map_cmd (slice b) d = c))"

definition okB :: "byte list cmd \<Rightarrow> bool" where
  "okB c \<longleftrightarrow> (\<forall>b s post. drop s b = back_text c @ post \<and> starts (bytes '')&;'') post \<longrightarrow>
     (\<exists>d0 s0 d. parsepipe b s = Inr (d0, s0) \<and> parseback d0 b s0 = parseback d b (s + length (back_text c)) \<and> map_cmd (slice b) d = c))"

definition okU :: "byte list cmd \<Rightarrow> bool" where
  "okU c \<longleftrightarrow> (\<forall>b s post. drop s b = unparse c @ post \<and> starts (bytes '')'') post \<longrightarrow>
     (\<exists>d. parseline b s = Inr (d, s + length (unparse c)) \<and> map_cmd (slice b) d = c))"

lemma level_symbols: "set (bytes '')&;'') \<subseteq> set symbols" "set (bytes '')'') \<subseteq> set symbols" "set (bytes ''|'') \<subseteq> set symbols"
    "set (bytes ''('') \<subseteq> set symbols" "set (bytes ''&'') \<subseteq> set symbols" "set (bytes '';'') \<subseteq> set symbols"
  by (simp_all add: symbols_def bytes_def)

lemma block_text_Cons: "block_text u @ post = 40 # 32 # u @ 41 # 32 # post"
  by (simp add: block_text_def bytes_def)

lemma symbol_members: "40 \<in> set symbols" "41 \<in> set symbols" "124 \<in> set symbols" "38 \<in> set symbols" "59 \<in> set symbols"
  by (simp_all add: symbols_def bytes_def)

lemma follow_unparse: "wf_text c \<Longrightarrow> follow post \<Longrightarrow> follow (unparse c @ post)"
proof (induction c arbitrary: post)
  case (EXEC as)
  then show ?case using follow_words by (simp add: words_text_def)
next
  case (REDIR c f m fd)
  moreover have "follow (redir_text f fd @ post)" by (simp add: redir_text_def follow_symbol redir_symbol)
  ultimately show ?case by (auto simp: block_text_Cons follow_symbol symbol_members)
next
  case (PIPE l r)
  have "follow (bytes ''| '' @ v)" for v by (simp add: bytes_def follow_symbol symbol_members)
  with PIPE show ?case by (auto simp: block_text_Cons follow_symbol symbol_members)
next
  case (LIST l r)
  have "follow (bytes ''; '' @ v)" for v by (simp add: bytes_def follow_symbol symbol_members)
  with LIST show ?case by (auto simp: block_text_Cons follow_symbol symbol_members)
next
  case (BACK c)
  have "follow (bytes ''& '' @ v)" for v by (simp add: bytes_def follow_symbol symbol_members)
  with BACK show ?case by (auto simp: block_text_Cons follow_symbol symbol_members)
qed

lemma parseexec_simple:
  assumes "drop s b = words_text as @ redirs_text rs @ post" "list_all word_ok as" "list_all redir_ok rs" "length as < MAXARGS"
    "starts (bytes ''|)&;'') post"
  shows "\<exists>ys ds. parseexec b s = Inr (wrap ds (EXEC ys), s + length (words_text as) + length (redirs_text rs)) \<and>
    map (slice b) ys = as \<and> slices b ds = rs"
proof -
  note fp = starts_follow [OF assms(5) stop_symbols]
  have fr: "follow (words_text as @ redirs_text rs @ post)" by (intro follow_words follow_redirs assms(2) fp)
  have n40: "hd (words_text as @ redirs_text rs @ post) \<noteq> 40 \<or> words_text as @ redirs_text rs @ post = []"
  proof (cases as)
    case Nil
    then show ?thesis using assms(5) by (cases rs) (auto simp: words_text_def redirs_text_def redir_text_def LT_def GT_def starts_def bytes_def split: if_splits)
  next
    case (Cons w ws)
    then show ?thesis using word_no_symbol [of w 40] assms(2) symbol_members by (simp add: words_text_def)
  qed
  have pk: "peek b s (bytes ''('') = (s, False)" using n40 by (subst peek_text [OF assms(1) fr]) (auto simp: bytes_def)
  show ?thesis
  proof (cases "as = []")
    case True
    then have d: "drop s b = redirs_text rs @ post" using assms(1) by (simp add: words_text_def)
    obtain ds where ds: "parseredirs (EXEC []) b s = Inr (wrap ds (EXEC []), s + length (redirs_text rs))" "slices b ds = rs"
      using parseredirs_text [OF d assms(3) fp stop_no_redir [OF assms(5)]] by blast
    then show ?thesis using True pk parseargs_stop [OF drop_append_text [OF d] assms(5)]
      by (subst parseexec.simps) (auto simp: words_text_def)
  next
    case False
    then have "hd (words_text as @ redirs_text rs @ post) \<notin> {LT, GT}"
      using assms(2) word_no_symbol redir_symbol(1,2) by (cases as) (auto simp: words_text_def)
    then have "parseexec b s = parseargs (EXEC []) 0 b s"
      using pk parseredirs_none [OF assms(1) fr] by (subst parseexec.simps) simp
    then show ?thesis using parseargs_text [OF assms(1-3,5), of 0 "[]"] assms(4) False by simp
  qed
qed

lemma parseexec_block:
  assumes "okU c0" "wf_text c0" "drop s b = block_text (unparse c0) @ redirs_text rs @ post" "list_all redir_ok rs" "starts (bytes ''|)&;'') post"
  shows "\<exists>d ds. parseexec b s = Inr (wrap ds d, s + length (block_text (unparse c0)) + length (redirs_text rs)) \<and>
    map_cmd (slice b) d = c0 \<and> slices b ds = rs"
proof -
  note fp = starts_follow [OF assms(5) stop_symbols]
  let ?v = "redirs_text rs @ post"
  have d: "drop s b = 40 # 32 # unparse c0 @ 41 # 32 # ?v" using assms(3) by (simp add: block_text_Cons)
  have d2: "drop (s + 2) b = unparse c0 @ 41 # 32 # ?v" using drop_append_text [of s b "[40, 32]"] d by simp
  obtain t where t: "t = s + 2 + length (unparse c0)" by simp
  have d3: "drop t b = 41 # 32 # ?v" unfolding t by (rule drop_append_text [OF d2])
  have d4: "drop (t + 2) b = ?v" using drop_append_text [of t b "[41, 32]"] d3 by simp
  have pk: "peek b s (bytes ''('') = (s, True)" by (subst peek_text [OF d]) (simp_all add: follow_symbol symbol_members bytes_def)
  have g: "gettoken b s = (40, s, s + 1, s + 2)"
    by (rule gettoken_text_symbol [OF _ d]) (simp_all add: symbol_members follow_unparse assms(2) follow_symbol)
  have "starts (bytes '')'') (41 # 32 # ?v)" by (simp add: starts_def bytes_def)
  then obtain e where e: "parseline b (s + 2) = Inr (e, t)" "map_cmd (slice b) e = c0" using assms(1) d2 unfolding okU_def t by blast
  have pk2: "peek b t (bytes '')'') = (t, True)" by (subst peek_text [OF d3]) (simp_all add: follow_symbol symbol_members bytes_def)
  have g2: "gettoken b t = (41, t, t + 1, t + 2)"
    by (rule gettoken_text_symbol [OF _ d3]) (simp_all add: symbol_members follow_redirs fp)
  obtain ds where ds: "parseredirs e b (t + 2) = Inr (wrap ds e, t + 2 + length (redirs_text rs))" "slices b ds = rs"
    using parseredirs_text [OF d4 assms(4) fp stop_no_redir [OF assms(5)]] by blast
  have "parseexec b s = Inr (wrap ds e, t + 2 + length (redirs_text rs))"
    by (subst parseexec.simps, simp only: pk prod.case bool.case, subst parseblock.simps)
      (simp only: pk g e(1) pk2 g2 ds(1) prod.case bool.case sum.case)
  moreover have "t + 2 = s + length (block_text (unparse c0))" by (simp add: t block_text_def bytes_def)
  ultimately show ?thesis using e(2) ds(2) by auto
qed

definition okBase :: "byte list cmd \<Rightarrow> bool" where
  "okBase c \<longleftrightarrow> (\<exists>as. c = EXEC as) \<or> okU c"

lemma okE_base:
  assumes "wf_text c" "okBase (fst (strip_redirs c))"
  shows "okE c"
  unfolding okE_def
proof (intro allI impI, elim conjE)
  fix b s post assume d: "drop s b = exec_text c @ post" and p: "starts (bytes ''|)&;'') post"
  obtain c0 rs where st: "strip_redirs c = (c0, rs)" by fastforce
  note sr = strip_redirs [OF st assms(1)]
  show "\<exists>d. parseexec b s = Inr (d, s + length (exec_text c)) \<and> map_cmd (slice b) d = c"
  proof (cases "\<exists>as. c0 = EXEC as")
    case True
    then obtain as where as: "c0 = EXEC as" by blast
    have "\<exists>ys ds. parseexec b s = Inr (wrap ds (EXEC ys), s + length (words_text as) + length (redirs_text rs)) \<and>
        map (slice b) ys = as \<and> slices b ds = rs"
      by (rule parseexec_simple [OF _ _ _ _ p]) (use d sr as in auto)
    then show ?thesis using sr as by (auto simp: map_wrap)
  next
    case False
    then have bt: "base_text c0 = block_text (unparse c0)" using sr by (cases c0) auto
    have "\<exists>d ds. parseexec b s = Inr (wrap ds d, s + length (block_text (unparse c0)) + length (redirs_text rs)) \<and>
        map_cmd (slice b) d = c0 \<and> slices b ds = rs"
      by (rule parseexec_block [OF _ _ _ _ p]) (use d sr bt False assms(2) st in \<open>auto simp: okBase_def\<close>)
    then show ?thesis using sr bt by (auto simp: map_wrap)
  qed
qed

lemma follow_texts:
  assumes "wf_text c" "follow post"
  shows "follow (exec_text c @ post)" "follow (pipe_text c @ post)" "follow (back_text c @ post)"
  using follow_unparse [OF assms]
  by (auto simp: exec_text_def pipe_text_def back_text_def block_text_Cons follow_symbol symbol_members)

text \<open>A symbol that the parser looks for, and one that it does not.\<close>

lemma take_symbol:
  assumes "drop s b = c # 32 # v" "c \<in> set symbols" "follow v" "c \<in> set toks"
  shows "peek b s toks = (s, True)" "gettoken b s = (c, s, s + 1, s + 2)" "drop (s + 2) b = v"
  using peek_text [OF assms(1) follow_symbol [OF assms(2)]] gettoken_text_symbol [OF assms(2,1,3)] drop_append_text [of s b "[c, 32]" v] assms
  by simp_all

lemma peek_other:
  assumes "drop s b = post" "starts toks1 post" "set toks1 \<subseteq> set symbols" "set toks1 \<inter> set toks2 = {}"
  shows "peek b s toks2 = (s, False)"
  using peek_text [OF assms(1) starts_follow [OF assms(2,3)]] assms(2,4) by (auto simp: starts_def)

lemma okP_exec:
  assumes "okE c" "\<And>l r. c \<noteq> PIPE l r"
  shows "okP c"
  unfolding okP_def
proof (intro allI impI, elim conjE)
  fix b s post assume d: "drop s b = pipe_text c @ post" and p: "starts (bytes '')&;'') post"
  have t: "pipe_text c = exec_text c" using assms(2) by (cases c) (blast | simp add: pipe_text_def exec_text_def)+
  have "starts (bytes ''|)&;'') post" using p by (auto simp: starts_def bytes_def)
  then obtain e where e: "parseexec b s = Inr (e, s + length (pipe_text c))" "map_cmd (slice b) e = c"
    using assms(1) d unfolding okE_def t by blast
  have "peek b (s + length (pipe_text c)) (bytes ''|'') = (s + length (pipe_text c), False)"
    by (rule peek_other [OF drop_append_text [OF d] p level_symbols(1)]) (simp add: bytes_def)
  then show "\<exists>d. parsepipe b s = Inr (d, s + length (pipe_text c)) \<and> map_cmd (slice b) d = c"
    using e by (subst parsepipe.simps) simp
qed

lemma okP_pipe:
  assumes "okE l" "okP r" "wf_text r"
  shows "okP (PIPE l r)"
  unfolding okP_def
proof (intro allI impI, elim conjE)
  fix b s post assume d0: "drop s b = pipe_text (PIPE l r) @ post" and p: "starts (bytes '')&;'') post"
  have t: "pipe_text (PIPE l r) = exec_text l @ 124 # 32 # pipe_text r" by (simp add: pipe_text_def exec_text_def bytes_def)
  obtain s1 where s1: "s1 = s + length (exec_text l)" by simp
  have d: "drop s b = exec_text l @ 124 # 32 # pipe_text r @ post" using d0 by (simp add: t)
  have d1: "drop s1 b = 124 # 32 # pipe_text r @ post" unfolding s1 by (rule drop_append_text [OF d])
  have f: "follow (pipe_text r @ post)" by (rule follow_texts(2) [OF assms(3) starts_follow [OF p level_symbols(1)]])
  have "starts (bytes ''|)&;'') (124 # 32 # pipe_text r @ post)" by (simp add: starts_def bytes_def)
  then obtain e where e: "parseexec b s = Inr (e, s1)" "map_cmd (slice b) e = l" using assms(1) d unfolding okE_def s1 by blast
  have "124 \<in> set (bytes ''|'')" by (simp add: bytes_def)
  note k = take_symbol [OF d1 symbol_members(3) f this]
  obtain e2 where e2: "parsepipe b (s1 + 2) = Inr (e2, s1 + 2 + length (pipe_text r))" "map_cmd (slice b) e2 = r"
    using assms(2) k(3) p unfolding okP_def by blast
  show "\<exists>d. parsepipe b s = Inr (d, s + length (pipe_text (PIPE l r))) \<and> map_cmd (slice b) d = PIPE l r"
    using e e2 k(1,2) by (subst parsepipe.simps) (simp add: t s1)
qed

lemma okB_pipe:
  assumes "okP c" "\<And>d. c \<noteq> BACK d"
  shows "okB c"
proof -
  have "back_text c = pipe_text c" using assms(2) by (cases c) (blast | simp add: pipe_text_def back_text_def)+
  then show ?thesis using assms(1) unfolding okB_def okP_def by metis
qed

lemma okB_back:
  assumes "okB c"
  shows "okB (BACK c)"
  unfolding okB_def
proof (intro allI impI, elim conjE)
  fix b s post assume d0: "drop s b = back_text (BACK c) @ post" and p: "starts (bytes '')&;'') post"
  have t: "back_text (BACK c) = back_text c @ [38, 32]" by (simp add: back_text_def bytes_def)
  obtain s1 where s1: "s1 = s + length (back_text c)" by simp
  have d: "drop s b = back_text c @ 38 # 32 # post" using d0 by (simp add: t)
  have d1: "drop s1 b = 38 # 32 # post" unfolding s1 by (rule drop_append_text [OF d])
  have "starts (bytes '')&;'') (38 # 32 # post)" by (simp add: starts_def bytes_def)
  then obtain e0 s0 e where e: "parsepipe b s = Inr (e0, s0)" "parseback e0 b s0 = parseback e b s1" "map_cmd (slice b) e = c"
    using assms d unfolding okB_def s1 by blast
  have "38 \<in> set (bytes ''&'')" by (simp add: bytes_def)
  note k = take_symbol [OF d1 symbol_members(4) starts_follow [OF p level_symbols(1)] this]
  have "parseback e b s1 = parseback (BACK e) b (s1 + 2)" using k(1,2) by (subst parseback.simps) simp
  then show "\<exists>d0 s0 d. parsepipe b s = Inr (d0, s0) \<and> parseback d0 b s0 = parseback d b (s + length (back_text (BACK c))) \<and>
      map_cmd (slice b) d = BACK c"
    using e by (intro exI [of _ e0] exI [of _ s0] exI [of _ "BACK e"]) (simp add: t s1)
qed

text \<open>After the last \<open>&\<close> the loop ends.\<close>

lemma parseback_end:
  assumes "drop s b = post" "starts (bytes '');'') post"
  shows "parseback d b s = (d, s)"
proof -
  have "peek b s (bytes ''&'') = (s, False)" by (rule peek_other [OF assms]) (simp_all add: bytes_def symbols_def)
  then show ?thesis by (subst parseback.simps) simp
qed

lemma okB_end:
  assumes "okB c" "drop s b = back_text c @ post" "starts (bytes '');'') post"
  shows "\<exists>d0 s0 d. parsepipe b s = Inr (d0, s0) \<and> parseback d0 b s0 = (d, s + length (back_text c)) \<and> map_cmd (slice b) d = c"
proof -
  have "starts (bytes '')&;'') post" using assms(3) by (auto simp: starts_def bytes_def)
  then show ?thesis using assms(1,2) parseback_end [OF drop_append_text [OF assms(2)] assms(3)] unfolding okB_def by metis
qed

lemma okU_back:
  assumes "okB c" "\<And>l r. c \<noteq> LIST l r"
  shows "okU c"
  unfolding okU_def
proof (intro allI impI, elim conjE)
  fix b s post assume d0: "drop s b = unparse c @ post" and p: "starts (bytes '')'') post"
  have t: "unparse c = back_text c" using assms(2) by (cases c) (blast | simp add: back_text_def)+
  have d: "drop s b = back_text c @ post" using d0 by (simp add: t)
  have p2: "starts (bytes '');'') post" using p by (auto simp: starts_def bytes_def)
  have "peek b (s + length (back_text c)) (bytes '';'') = (s + length (back_text c), False)"
    by (rule peek_other [OF drop_append_text [OF d] p level_symbols(2)]) (simp add: bytes_def)
  then show "\<exists>d. parseline b s = Inr (d, s + length (unparse c)) \<and> map_cmd (slice b) d = c"
    using okB_end [OF assms(1) d p2] by (subst parseline.simps) (auto simp: t)
qed

lemma okU_list:
  assumes "okB l" "okU r" "wf_text r"
  shows "okU (LIST l r)"
  unfolding okU_def
proof (intro allI impI, elim conjE)
  fix b s post assume d0: "drop s b = unparse (LIST l r) @ post" and p: "starts (bytes '')'') post"
  have t: "unparse (LIST l r) = back_text l @ 59 # 32 # unparse r" by (simp add: back_text_def bytes_def)
  obtain s1 where s1: "s1 = s + length (back_text l)" by simp
  have d: "drop s b = back_text l @ 59 # 32 # unparse r @ post" using d0 by (simp only: t append_assoc append_Cons)
  have d1: "drop s1 b = 59 # 32 # unparse r @ post" unfolding s1 by (rule drop_append_text [OF d])
  have f: "follow (unparse r @ post)" by (rule follow_unparse [OF assms(3) starts_follow [OF p level_symbols(2)]])
  have "starts (bytes '');'') (59 # 32 # unparse r @ post)" by (simp add: starts_def bytes_def)
  then obtain e0 s0 e where e: "parsepipe b s = Inr (e0, s0)" "parseback e0 b s0 = (e, s1)" "map_cmd (slice b) e = l"
    using okB_end [OF assms(1) d] unfolding s1 by blast
  have "59 \<in> set (bytes '';'')" by (simp add: bytes_def)
  note k = take_symbol [OF d1 symbol_members(5) f this]
  obtain e2 where e2: "parseline b (s1 + 2) = Inr (e2, s1 + 2 + length (unparse r))" "map_cmd (slice b) e2 = r"
    using assms(2) k(3) p unfolding okU_def by blast
  show "\<exists>d. parseline b s = Inr (d, s + length (unparse (LIST l r))) \<and> map_cmd (slice b) d = LIST l r"
    unfolding t using e e2 k(1,2) by (subst parseline.simps) (simp add: s1)
qed

lemma unparse_parses: "wf_text c \<Longrightarrow> okBase (fst (strip_redirs c)) \<and> okE c \<and> okP c \<and> okB c \<and> okU c"
proof (induction c)
  case (EXEC as)
  then have "okE (EXEC as)" by (intro okE_base) (simp_all add: okBase_def)
  then show ?case using okP_exec okB_pipe okU_back by (auto simp: okBase_def)
next
  case (REDIR c f m fd)
  then have b: "okBase (fst (strip_redirs (REDIR c f m fd)))" by (simp add: prod.case_eq_if)
  with REDIR.prems have "okE (REDIR c f m fd)" by (intro okE_base)
  then show ?case using okP_exec okB_pipe okU_back b by blast
next
  case (PIPE l r)
  then have "okP (PIPE l r)" by (intro okP_pipe) auto
  then have "okB (PIPE l r)" "okU (PIPE l r)" using okB_pipe okU_back by blast+
  then show ?case using okE_base [OF PIPE.prems] \<open>okP (PIPE l r)\<close> by (simp add: okBase_def)
next
  case (LIST l r)
  then have u: "okU (LIST l r)" by (intro okU_list) auto
  then have "okE (LIST l r)" using okE_base [OF LIST.prems] by (simp add: okBase_def)
  then show ?case using u okP_exec okB_pipe by (auto simp: okBase_def)
next
  case (BACK c)
  then have "okB (BACK c)" by (intro okB_back) auto
  then have "okU (BACK c)" using okU_back by blast
  then show ?case using okE_base [OF BACK.prems] \<open>okB (BACK c)\<close> okP_exec by (auto simp: okBase_def)
qed

lemma no_zero_word: "word_ok w \<Longrightarrow> 0 \<notin> set w"
  by (auto simp: word_ok_def word_char_def list_all_iff)

lemma no_zero_block: "0 \<notin> set (block_text u) \<longleftrightarrow> 0 \<notin> set u"
  by (simp add: block_text_def bytes_def)

lemma no_zero_unparse: "wf_text c \<Longrightarrow> 0 \<notin> set (unparse c)"
  by (induction c) (auto simp: list_all_iff redir_text_def LT_def GT_def no_zero_block dest: no_zero_word, auto simp: bytes_def)

text \<open>What the shell runs after parsing the text of a command: the command itself.\<close>

lemma parsecmd_text:
  assumes "wf_text c"
  shows "\<exists>d B. parsecmd (unparse c) = Inr (d, B) \<and> map_cmd (cstring B) d = c"
proof -
  let ?b = "unparse c"
  have "okU c" using unparse_parses [OF assms] by blast
  moreover have "drop 0 ?b = unparse c @ []" "starts (bytes '')'') []" by (simp_all add: starts_def)
  ultimately have "\<exists>d. parseline ?b 0 = Inr (d, 0 + length ?b) \<and> map_cmd (slice ?b) d = c" unfolding okU_def by blast
  then obtain d where d: "parseline ?b 0 = Inr (d, length ?b)" "map_cmd (slice ?b) d = c" by auto
  have "fst (peek ?b (length ?b) []) = length ?b" by (simp add: peek_def skip_ws.simps)
  then have p: "parsecmd ?b = Inr (d, nulterminate d (?b @ [0]))" using d(1) by (simp add: parsecmd_def prod.case_eq_if)
  have "map_cmd (cstring (nulterminate d (?b @ [0]))) d = map_cmd (slice ?b) d"
    by (rule cmd.map_cong [OF refl]) (rule cstring_nulterminate [OF parse_wf(1) [OF d(1) no_zero_unparse [OF assms]]])
  then show ?thesis using p d(2) by auto
qed

section \<open>Properties\<close>

text \<open>C22: The commands the shell runs are well-formed. If a line parses, then after the zeros are written into it every word of
  the command is, as a C string, exactly the characters between its two pointers: ending one word
  destroys no other. No word is empty or contains a blank or a symbol, a command has at most 9
  arguments, so that \<^verbatim>\<open>argv[MAXARGS]\<close> keeps room for the final null pointer, and a redirection is of descriptor 0 for reading or
  of descriptor 1 for writing.\<close>

theorem parsecmd_words:
  assumes "0 \<notin> set b" "parsecmd b = Inr (c, B)"
  shows "map_cmd (cstring B) c = map_cmd (slice b) c \<and> wf_cmd word_ok (map_cmd (cstring B) c) \<and> length B = length b + 1"
proof -
  note a = parsecmd_words_aux [OF assms(2,1)]
  have "map_cmd (cstring B) c = map_cmd (slice b) c"
    unfolding a(2) by (rule cmd.map_cong [OF refl]) (rule cstring_nulterminate [OF a(1)])
  moreover have "wf_cmd (\<lambda>w. word_ok (slice b w)) c" by (rule wf_cmd_mono [OF a(1)]) (rule span_ok_slice)
  ultimately show ?thesis by (simp add: a(2) wf_cmd_map)
qed

theorem parsecmd_words_witness:
  "\<exists>c B. parsecmd (unparse (EXEC [[97]])) = Inr (c, B) \<and> map_cmd (cstring B) c = map_cmd (slice (unparse (EXEC [[97]]))) c"
proof -
  have w: "wf_text (EXEC [[97]])" by (simp add: word_ok_def word_char_def whitespace_def symbols_def bytes_def MAXARGS_def)
  obtain c B where p: "parsecmd (unparse (EXEC [[97]])) = Inr (c, B)" using parsecmd_text [OF w] by blast
  from parsecmd_words [OF no_zero_unparse [OF w] p] p show ?thesis by blast
qed

text \<open>C23: The parser inverts the printer. For every command, however its pipes, lists, background commands and
  redirections are nested, the text printed for it parses, and the tree whose words are read as C
  strings is that command.\<close>

theorem parsecmd_unparse:
  assumes "wf_cmd word_ok c"
  shows "\<exists>d B. parsecmd (unparse c) = Inr (d, B) \<and> map_cmd (cstring B) d = c"
  by (rule parsecmd_text [OF assms])

theorem parsecmd_unparse_witness:
  "\<exists>d B. parsecmd (unparse (PIPE (LIST (EXEC [bytes ''ls'']) (EXEC [])) (REDIR (BACK (EXEC [bytes ''wc''])) (bytes ''f'') 0x201 1))) = Inr (d, B) \<and>
     map_cmd (cstring B) d = PIPE (LIST (EXEC [bytes ''ls'']) (EXEC [])) (REDIR (BACK (EXEC [bytes ''wc''])) (bytes ''f'') 0x201 1)"
  by (rule parsecmd_unparse) (simp add: word_ok_def word_char_def whitespace_def symbols_def bytes_def MAXARGS_def O_WRONLY_def O_CREATE_def O_RDONLY_def)

end
