(* ===== verification/Sh_Run.thy ===== *)
theory Sh_Run
  imports Sh_Print
begin

text \<open>
  How the shell runs commands, \<^verbatim>\<open>runcmd\<close> and the loop of \<^verbatim>\<open>main\<close> of \<^verbatim>\<open>sh.c\<close>. A process of the shell is the tree of the
  system calls it makes: what follows a call depends on its result, and a \<^verbatim>\<open>fork\<close> has a tree for
  the child and one for the parent. \<open>runs\<close> follows the trees of all processes with their file
  descriptors, when the calls succeed, and collects the programs they execute; \<open>wires\<close> says which input
  and output each program of a command should have.
\<close>

section \<open>The calls of the shell\<close>

datatype prog =
    Exit
  | Exec "byte list list" prog
  | Print "byte list" prog
  | Close nat prog
  | Open "byte list" u32 "int \<Rightarrow> prog"
  | Dup nat prog
  | Pipe "nat \<Rightarrow> nat \<Rightarrow> prog" prog
  | Fork prog prog prog
  | Wait prog
  | Chdir "byte list" "int \<Rightarrow> prog"

definition sh_panic :: "byte list \<Rightarrow> prog" where
  "sh_panic msg = Print (msg @ [10]) Exit"

text \<open>\<^verbatim>\<open>if(fork1() == 0) child; parent\<close>, where the child does not return.\<close>

definition fork1 :: "prog \<Rightarrow> prog \<Rightarrow> prog" where
  "fork1 child parent = Fork child parent (sh_panic (bytes ''fork''))"

primrec runcmd :: "byte list cmd \<Rightarrow> prog" where
  "runcmd (EXEC argv) =
     (if argv = [] then Exit
      else Exec argv (Print (bytes ''exec '' @ hd argv @ bytes '' failed'' @ [10]) Exit))"
| "runcmd (REDIR c f m fd) =
     Close fd (Open f m (\<lambda>r. if r < 0 then Print (bytes ''open '' @ f @ bytes '' failed'' @ [10]) Exit else runcmd c))"
| "runcmd (LIST l r) = fork1 (runcmd l) (Wait (runcmd r))"
| "runcmd (PIPE l r) =
     Pipe (\<lambda>p0 p1.
        fork1 (Close 1 (Dup p1 (Close p0 (Close p1 (runcmd l)))))
       (fork1 (Close 0 (Dup p0 (Close p0 (Close p1 (runcmd r)))))
       (Close p0 (Close p1 (Wait (Wait Exit))))))
       (sh_panic (bytes ''pipe''))"
| "runcmd (BACK c) = fork1 (runcmd c) Exit"

text \<open>\<^verbatim>\<open>gets\<close> of \<^verbatim>\<open>ulib.c\<close>, on the characters that \<^verbatim>\<open>read\<close> will return: the line, and what is left to read.\<close>

fun gets :: "nat \<Rightarrow> byte list \<Rightarrow> byte list \<times> byte list" where
  "gets mx [] = ([], [])"
| "gets mx (c # input) =
     (if mx \<le> 1 then ([], c # input)
      else if c = 10 \<or> c = 13 then ([c], input)
      else (case gets (mx - 1) input of (line, rest) \<Rightarrow> (c # line, rest)))"

text \<open>\<open>getcmd\<close>: the string in the buffer, or None at the end of the input.\<close>

definition getcmd :: "nat \<Rightarrow> byte list \<Rightarrow> byte list option \<times> byte list" where
  "getcmd nbuf input =
     (case gets nbuf input of (line, rest) \<Rightarrow>
        (let s = takeWhile (\<lambda>c. c \<noteq> 0) line in (if s = [] then None else Some s, rest)))"

text \<open>The body of the loop of \<^verbatim>\<open>main\<close> on a line that was read, before the rest \<open>k\<close> of the loop.\<close>

definition sh_line :: "byte list \<Rightarrow> prog \<Rightarrow> prog" where
  "sh_line line k =
     (if take 3 line = bytes ''cd '' then
        (let dir = drop 3 (butlast line)
         in Chdir dir (\<lambda>r. if r < 0 then Print (bytes ''cannot cd '' @ dir @ [10]) k else k))
      else
        fork1 (case parsecmd line of Inl msg \<Rightarrow> sh_panic (bytes msg) | Inr (c, B) \<Rightarrow> runcmd (map_cmd (cstring B) c)) (Wait k))"

section \<open>What is executed\<close>

text \<open>What a descriptor refers to: something inherited, a file, an end of the pipe made at a place in the tree of processes.\<close>

datatype obj = Given nat | Opened "byte list" u32 | PipeR "nat list" | PipeW "nat list"

type_synonym fdtab = "nat \<Rightarrow> obj option"

definition NOFILE :: nat where "NOFILE = 16"

definition fdfree :: "fdtab \<Rightarrow> nat" where
  "fdfree t = (case find_idx (\<lambda>fd. t fd = None) [0..<NOFILE] of None \<Rightarrow> NOFILE | Some fd \<Rightarrow> fd)"

lemma fdfree_None: "fdfree t < NOFILE \<Longrightarrow> t (fdfree t) = None"
  by (auto simp: fdfree_def NOFILE_def split: option.splits dest: find_idx_SomeD)

lemma fdfree_first: "fd < fdfree t \<Longrightarrow> fd < NOFILE \<Longrightarrow> t fd \<noteq> None"
  by (fastforce simp: fdfree_def find_idx_None_iff split: option.splits dest: find_idx_SomeD)

text \<open>The first loop of \<^verbatim>\<open>main\<close>: the console is opened until a descriptor from 3 on is returned, which is closed again, or \<^verbatim>\<open>open\<close> fails.\<close>

function open_console :: "fdtab \<Rightarrow> fdtab" where
  "open_console t =
     (if fdfree t < 3 then open_console (t(fdfree t := Some (Opened (bytes ''console'') 2))) else t)"
  by auto
termination
proof (relation "measure (\<lambda>t. card {fd. fd < 3 \<and> t fd = None})", goal_cases)
  case (2 t)
  have "t (fdfree t) = None" using 2 by (intro fdfree_None) (simp add: NOFILE_def)
  then have "{fd. fd < 3 \<and> (t(fdfree t := Some (Opened (bytes ''console'') 2))) fd = None} \<subset> {fd. fd < 3 \<and> t fd = None}"
    using 2 by auto
  then have "card {fd. fd < 3 \<and> (t(fdfree t := Some (Opened (bytes ''console'') 2))) fd = None} < card {fd. fd < 3 \<and> t fd = None}"
    by (intro psubset_card_mono) auto
  then show ?case by (simp only: in_measure)
qed simp

declare open_console.simps [simp del]

lemma open_console_std: "fd < 3 \<Longrightarrow> open_console t fd \<noteq> None"
proof (induction t rule: open_console.induct)
  case (1 t)
  show ?case
  proof (cases "fdfree t < 3")
    case True
    then show ?thesis using 1 by (subst open_console.simps) (simp add: fun_upd_def)
  next
    case False
    then show ?thesis using 1(2) fdfree_first [of fd t] by (subst open_console.simps) (simp add: NOFILE_def)
  qed
qed

primrec runs :: "prog \<Rightarrow> fdtab \<Rightarrow> nat list \<Rightarrow> (byte list list \<times> fdtab) list" where
  "runs Exit t p = []"
| "runs (Exec argv k) t p = [(argv, t)]"
| "runs (Print msg k) t p = runs k t p"
| "runs (Close fd k) t p = runs k (t(fd := None)) p"
| "runs (Open f m k) t p = runs (k (int (fdfree t))) (t(fdfree t := Some (Opened f m))) p"
| "runs (Dup fd k) t p = runs k (t(fdfree t := t fd)) p"
| "runs (Pipe k e) t p =
     (let p0 = fdfree t; t0 = t(p0 := Some (PipeR p)); p1 = fdfree t0
      in runs (k p0 p1) (t0(p1 := Some (PipeW p))) (p @ [2]))"
| "runs (Fork c k e) t p = runs c t (p @ [0]) @ runs k t (p @ [1])"
| "runs (Wait k) t p = runs k t p"
| "runs (Chdir d k) t p = runs (k 0) t p"

fun wires :: "byte list cmd \<Rightarrow> obj \<Rightarrow> obj \<Rightarrow> nat list \<Rightarrow> (byte list list \<times> obj \<times> obj) list" where
  "wires (EXEC argv) i j p = (if argv = [] then [] else [(argv, i, j)])"
| "wires (REDIR c f m fd) i j p = (if fd = 0 then wires c (Opened f m) j p else wires c i (Opened f m) p)"
| "wires (LIST l r) i j p = wires l i j (p @ [0]) @ wires r i j (p @ [1])"
| "wires (PIPE l r) i j p = wires l i (PipeW p) (p @ [2, 0]) @ wires r (PipeR p) j (p @ [2, 1, 0])"
| "wires (BACK c) i j p = wires c i j (p @ [0])"

text \<open>A process with the three standard descriptors and no other.\<close>

definition std :: "obj \<Rightarrow> obj \<Rightarrow> obj \<Rightarrow> fdtab" where
  "std i j e = (\<lambda>_. None)(0 := Some i, 1 := Some j, 2 := Some e)"

lemma fds: "[0..<NOFILE] = [0, 1, 2, 3, 4] @ [5..<16]"
  by (simp add: NOFILE_def upt_rec)

lemma fdfree_std:
  "fdfree (std i j e) = 3"
  "fdfree ((std i j e)(3 := Some x)) = 4"
  "fdfree ((std i j e)(3 := Some x, 4 := Some y, 0 := None)) = 0"
  "fdfree ((std i j e)(3 := Some x, 4 := Some y, Suc 0 := None)) = 1"
  "fdfree ((std i j e)(0 := None)) = 0"
  "fdfree ((std i j e)(Suc 0 := None)) = 1"
  by (simp_all add: fdfree_def std_def fds)

lemma std_wire:
  "(std i j e)(0 := Some x) = std x j e"
  "(std i j e)(Suc 0 := Some x) = std i x e"
  "(std i j e)(3 := None, 4 := None) = std i j e"
  by (auto simp: std_def fun_eq_iff)

lemma runs_wires:
  "wf_cmd P c \<Longrightarrow> runs (runcmd c) (std i j e) p = map (\<lambda>(argv, x, y). (argv, std x y e)) (wires c i j p)"
proof (induction c arbitrary: i j p)
  case (PIPE l r)
  then show ?case by (simp add: Let_def fdfree_std fork1_def std_wire)
next
  case (REDIR c f m fd)
  then have "fd = 0 \<or> fd = 1" by auto
  then show ?case using REDIR by (auto simp: fdfree_std std_wire)
qed (auto simp: fork1_def)

section \<open>Properties\<close>

text \<open>C24: The shell connects its programs correctly. Given the text of a command, the shell executes exactly the programs of the
  command, in every process with exactly three descriptors: the input and the output the command
  says, and the inherited error output. Both ends of every pipe are closed everywhere else, so that a
  reader sees the end of its input; and the shell itself goes on with its descriptors unchanged.\<close>

theorem shell_connects:
  assumes "wf_cmd word_ok c" "take 3 (unparse c) \<noteq> bytes ''cd ''"
  shows "runs (sh_line (unparse c) k) (std i j e) p =
    map (\<lambda>(argv, x, y). (argv, std x y e)) (wires c i j (p @ [0])) @ runs k (std i j e) (p @ [1])"
proof -
  obtain d B where "parsecmd (unparse c) = Inr (d, B)" "map_cmd (cstring B) d = c" using parsecmd_text [OF assms(1)] by blast
  then show ?thesis using assms(2) runs_wires [OF assms(1)] by (simp add: sh_line_def fork1_def)
qed

theorem shell_connects_witness:
  "runs (sh_line (unparse (PIPE (EXEC [bytes ''ls'']) (REDIR (EXEC [bytes ''wc'']) (bytes ''f'') 0x201 1))) Exit)
     (std (Given 0) (Given 1) (Given 2)) [] =
   [([bytes ''ls''], std (Given 0) (PipeW [0]) (Given 2)), ([bytes ''wc''], std (PipeR [0]) (Opened (bytes ''f'') 0x201) (Given 2))]"
  by (subst shell_connects)
    (simp_all add: word_ok_def word_char_def whitespace_def symbols_def bytes_def MAXARGS_def O_WRONLY_def O_CREATE_def O_RDONLY_def)

end
