(* ===== verification/Pipe_Props.thy ===== *)
theory Pipe_Props
  imports File Sleeplock_Props
begin

text \<open>
  Pipes are bounded queues of bytes. \<open>pipe_queue\<close> is what a pipe holds; its two counters run on
  and wrap around at \<open>2^32\<close>, a multiple of the size of the buffer. The locale \<open>fifo\<close> is the contract
  of a bounded queue, interpreted on the pipe. The loops of \<open>pipewrite\<close> and \<open>piperead\<close> are then executed:
  what they leave in the queue, and who sleeps.
\<close>

section \<open>Bounded queues\<close>

locale fifo =
  fixes ok :: "'s \<Rightarrow> bool" and queue :: "'s \<Rightarrow> 'b list" and put :: "'b \<Rightarrow> 's \<Rightarrow> 's" and get :: "'s \<Rightarrow> 'b \<times> 's" and cap :: nat
  assumes put_queue: "ok s \<Longrightarrow> length (queue s) < cap \<Longrightarrow> ok (put x s) \<and> queue (put x s) = queue s @ [x]"
    and get_queue: "ok s \<Longrightarrow> queue s = x # xs \<Longrightarrow> fst (get s) = x \<and> ok (snd (get s)) \<and> queue (snd (get s)) = xs"
begin

lemma put_all: "ok s \<Longrightarrow> length (queue s) + length bs \<le> cap \<Longrightarrow> ok (fold put bs s) \<and> queue (fold put bs s) = queue s @ bs"
proof (induction bs arbitrary: s)
  case (Cons b bs)
  then have p: "ok (put b s)" "queue (put b s) = queue s @ [b]" using put_queue [of s b] by auto
  then have "ok (fold put bs (put b s)) \<and> queue (fold put bs (put b s)) = queue (put b s) @ bs"
    using Cons.prems(2) by (intro Cons.IH) simp_all
  then show ?case using p(2) by simp
qed simp

fun take_out :: "nat \<Rightarrow> 's \<Rightarrow> 's" where
  "take_out 0 s = s"
| "take_out (Suc n) s = take_out n (snd (get s))"

lemma take_all: "ok s \<Longrightarrow> n \<le> length (queue s) \<Longrightarrow> ok (take_out n s) \<and> queue (take_out n s) = drop n (queue s)"
proof (induction n arbitrary: s)
  case (Suc n)
  then obtain x xs where "queue s = x # xs" by (cases "queue s") auto
  with get_queue [OF Suc.prems(1) this] Suc show ?case by simp
qed simp

end

section \<open>The buffer of a pipe\<close>

definition pipe_count :: "pipe \<Rightarrow> nat" where
  "pipe_count q = unat (pi_nwrite q - pi_nread q)"

definition pipe_ok :: "pipe \<Rightarrow> bool" where
  "pipe_ok q \<longleftrightarrow> length (pi_data q) = 512 \<and> pipe_count q \<le> 512"

definition pipe_queue :: "pipe \<Rightarrow> byte list" where
  "pipe_queue q = ring_list (pi_data q) (unat (pi_nread q)) (pipe_count q)"

definition pipe_get :: "pipe \<Rightarrow> byte \<times> pipe" where
  "pipe_get q = (pi_data q ! unat (pi_nread q mod PIPESIZE), q\<lparr>pi_nread := pi_nread q + 1\<rparr>)"

lemma length_pipe_queue [simp]: "length (pipe_queue q) = pipe_count q"
  by (simp add: pipe_queue_def)

lemma ring_list_start: "h mod length buf = k mod length buf \<Longrightarrow> ring_list buf h n = ring_list buf k n"
  unfolding ring_list_def by (intro map_cong refl arg_cong [of _ _ "nth buf"]) (metis mod_add_left_eq)

lemma unat_mod_512: "unat (x mod 512 :: u32) = unat x mod 512"
  by (simp add: unat_mod)

lemma unat_add_mod_512: "unat (x + y :: u32) mod 512 = (unat x + unat y) mod 512"
proof -
  have "unat (x + y) = (unat x + unat y) mod 4294967296" by (simp add: unat_word_ariths)
  then show ?thesis by (simp add: mod_mod_cancel)
qed

lemma pipe_slot: "unat (pi_nwrite q mod PIPESIZE) = (unat (pi_nread q) + pipe_count q) mod 512"
  using unat_add_mod_512 [of "pi_nread q" "pi_nwrite q - pi_nread q"] by (simp add: unat_mod_512 pipe_count_def)

lemma pipe_full_iff: "pipe_ok q \<Longrightarrow> pi_nwrite q = pi_nread q + PIPESIZE \<longleftrightarrow> pipe_count q = 512"
proof -
  have "pi_nwrite q = pi_nread q + PIPESIZE \<longleftrightarrow> pi_nwrite q - pi_nread q = PIPESIZE" by (auto simp: algebra_simps)
  also have "\<dots> \<longleftrightarrow> pipe_count q = 512" by (simp add: pipe_count_def word_unat_eq_iff)
  finally show ?thesis .
qed

lemma pipe_empty_iff: "pi_nread q = pi_nwrite q \<longleftrightarrow> pipe_count q = 0"
  by (auto simp: pipe_count_def unat_eq_0)

lemma pipe_put_queue:
  assumes "pipe_ok q" "length (pipe_queue q) < 512"
  shows "pipe_ok (pipe_put c q) \<and> pipe_queue (pipe_put c q) = pipe_queue q @ [c]"
proof -
  have e: "pi_nwrite q + 1 - pi_nread q = (pi_nwrite q - pi_nread q) + 1" by simp
  have "unat (pi_nwrite q - pi_nread q) < 512" using assms(2) by (simp add: pipe_count_def)
  then have "unat ((pi_nwrite q - pi_nread q) + 1) = Suc (pipe_count q)" unfolding pipe_count_def by (simp only: unat_word_ariths) simp
  then have n: "pipe_count (pipe_put c q) = Suc (pipe_count q)" unfolding e [symmetric] by (simp add: pipe_count_def pipe_put_def)
  have "pipe_queue (pipe_put c q) = ring_list ((pi_data q)[(unat (pi_nread q) + pipe_count q) mod length (pi_data q) := c]) (unat (pi_nread q)) (Suc (pipe_count q))"
    using assms(1) by (simp add: pipe_queue_def n) (simp add: pipe_put_def pipe_slot pipe_ok_def)
  also have "\<dots> = pipe_queue q @ [c]" unfolding pipe_queue_def by (rule ring_list_snoc) (use assms in \<open>simp add: pipe_ok_def\<close>)
  finally show ?thesis using assms n by (simp add: pipe_ok_def) (simp add: pipe_put_def)
qed

lemma pipe_get_queue:
  assumes "pipe_ok q" "pipe_queue q = x # xs"
  shows "fst (pipe_get q) = x \<and> pipe_ok (snd (pipe_get q)) \<and> pipe_queue (snd (pipe_get q)) = xs"
proof -
  obtain n where n: "pipe_count q = Suc n" using assms(2) length_pipe_queue [of q] by (metis length_Cons)
  have d: "pi_nwrite q - (pi_nread q + 1) = (pi_nwrite q - pi_nread q) - 1" by simp
  have "pi_nwrite q - pi_nread q \<noteq> 0" using n by (auto simp: pipe_count_def)
  from unat_pred_u32 [OF this] n have "unat ((pi_nwrite q - pi_nread q) - 1) = n" by (simp add: pipe_count_def)
  then have n2: "pipe_count (snd (pipe_get q)) = n" unfolding d [symmetric] by (simp add: pipe_count_def pipe_get_def)
  have e: "x # xs = pi_data q ! (unat (pi_nread q) mod 512) # ring_list (pi_data q) (Suc (unat (pi_nread q))) n"
    using assms ring_list_Suc_hd [of "pi_data q" "unat (pi_nread q)" n] by (simp add: pipe_queue_def n pipe_ok_def)
  have "ring_list (pi_data q) (unat (pi_nread q + 1)) n = ring_list (pi_data q) (Suc (unat (pi_nread q))) n"
    by (rule ring_list_start) (use unat_add_mod_512 [of "pi_nread q" 1] assms(1) in \<open>simp add: pipe_ok_def\<close>)
  then have "pipe_queue (snd (pipe_get q)) = xs" using e by (simp add: pipe_queue_def n2) (simp add: pipe_get_def)
  moreover have "fst (pipe_get q) = x" using e by (simp add: pipe_get_def unat_mod_512)
  moreover have "pipe_ok (snd (pipe_get q))" using assms(1) n n2 by (simp add: pipe_ok_def) (simp add: pipe_get_def)
  ultimately show ?thesis by simp
qed

interpretation pq: fifo pipe_ok pipe_queue pipe_put pipe_get 512
  by unfold_locales (simp_all add: pipe_put_queue pipe_get_queue)

section \<open>Writing\<close>

text \<open>The byte at position \<open>i\<close> of what is written, if it can be read.\<close>

definition src_byte :: "'z kvm_scheme \<Rightarrow> src \<Rightarrow> nat \<Rightarrow> byte option" where
  "src_byte s r i =
     (case r of Mem a \<Rightarrow> map_option (mem s) (mmu s False (a + of_nat i)) | Bytes bs \<Rightarrow> if i < length bs then Some (bs ! i) else None)"

lemma copy_from_byte:
  assumes "src_byte s r i = Some c" "i < 4294967296"
  shows "copy_from r (of_nat i) 1 s = Ret [c] s"
proof (cases r)
  case (Mem a)
  then show ?thesis using assms(1) by (auto simp: copy_from_def src_byte_def vread_def)
next
  case (Bytes bs)
  then have "i < length bs" "bs ! i = c" using assms(1) by (auto simp: src_byte_def split: if_splits)
  then have "take 1 (drop i bs) = [c]" by (simp add: take_Suc hd_drop_conv_nth)
  then show ?thesis using Bytes assms(2) by (simp add: copy_from_def unat_of_nat_u32)
qed

lemma upd_pipe_simps [simp]:
  "pipes (upd_pipe p f s) = (pipes s)(p := f (pipes s p))" "held (upd_pipe p f s) = held s" "curproc (upd_pipe p f s) = curproc s"
  "ptable (upd_pipe p f s) = ptable s" "upd_pipe p f (upd_pipe p g s) = upd_pipe p (f \<circ> g) s"
  "mem (upd_pipe p f s) = mem s"
  by (simp_all add: upd_pipe_def)

lemma src_byte_upd_pipe [simp]: "src_byte (upd_pipe p f s) r i = src_byte s r i"
  by (cases r) (simp_all add: src_byte_def upd_pipe_def mmu_def)

lemma upd_pipe_id: "upd_pipe p id s = s"
  by (simp add: upd_pipe_def)

text \<open>What a writer does when the pipe is full: it gives up, or it wakes the readers and sleeps.\<close>

definition write_blocked :: "u32 \<Rightarrow> nat \<Rightarrow> ('z kfile_scheme, int) kop" where
  "write_blocked p c s =
     (if \<not> pi_readopen (pipes s p) \<or> p_killed (ptable s ! c) then Ret (-1) (s\<lparr>held := {}\<rparr>)
      else Swtch (upd_proc c (\<lambda>q. q\<lparr>p_chan := Some (chan_write p), p_state := SLEEPING\<rparr>) ((woken (chan_read p) s)\<lparr>held := {L_ptable}\<rparr>)))"

lemma write_blocked_loop:
  fixes s :: "'z kfile_scheme"
  assumes "pipe_ok (pipes s p)" "pipe_count (pipes s p) = 512" "held s = {pipe_lock p}" "curproc s = Some c" "c < length (ptable s)"
  shows "pipewrite_loop (Suc k) p r n s = write_blocked p c s"
proof -
  have "sleep (chan_write p) (pipe_lock p) (woken (chan_read p) s) =
      (Swtch :: _ \<Rightarrow> ('z kfile_scheme, int) outcome) (upd_proc c (\<lambda>q. q\<lparr>p_chan := Some (chan_write p), p_state := SLEEPING\<rparr>) ((woken (chan_read p) s)\<lparr>held := {L_ptable}\<rparr>))"
    by (rule sleep_run) (use assms in simp_all)
  moreover have "wakeup (chan_read p) s = Ret () (woken (chan_read p) s)" by (rule wakeup_run) (simp add: assms(3))
  ultimately show ?thesis using assms
    by (simp add: pipe_full_iff write_blocked_def with_myproc_def bindK_def release_def)
qed

lemma pipewrite_loop_put:
  assumes "pipe_ok (pipes s p)" "pipe_count (pipes s p) < 512" "src_byte s r (n - Suc k) = Some c" "n < 4294967296"
  shows "pipewrite_loop (Suc k) p r n s = pipewrite_loop k p r n (upd_pipe p (pipe_put c) s)"
  using assms copy_from_byte [OF assms(3)] by (simp add: pipe_full_iff bindK_def)

lemma src_bytes_Suc:
  assumes "map (src_byte s r) [n - Suc k..<n] = map Some bs" "Suc k \<le> n"
  obtains c cs where "bs = c # cs" "src_byte s r (n - Suc k) = Some c" "map (src_byte s r) [n - k..<n] = map Some cs"
proof -
  have "[n - Suc k..<n] = (n - Suc k) # [n - k..<n]" using assms(2) by (simp add: upt_conv_Cons Suc_diff_Suc)
  then show ?thesis using assms(1) that by (cases bs) auto
qed

lemma pipewrite_loop_run:
  assumes "pipe_ok (pipes s p)" "held s = {pipe_lock p}" "curproc s = Some c" "c < length (ptable s)" "k \<le> n" "n < 4294967296"
    "map (src_byte s r) [n - k..<n] = map Some bs"
  shows "pipewrite_loop k p r n s =
    (if pipe_count (pipes s p) + k \<le> 512 then Ret (int n) ((woken (chan_read p) (upd_pipe p (fold pipe_put bs) s))\<lparr>held := {}\<rparr>)
     else write_blocked p c (upd_pipe p (fold pipe_put (take (512 - pipe_count (pipes s p)) bs)) s))"
  using assms
proof (induction k arbitrary: s bs)
  case 0
  have "wakeup (chan_read p) s = Ret () (woken (chan_read p) s)" by (rule wakeup_run) (simp add: 0(2))
  then show ?case using 0 by (simp add: bindK_def release_def upd_pipe_id pipe_ok_def id_def [symmetric])
next
  case (Suc k)
  from Suc.prems(7,5) obtain b cs where bs: "bs = b # cs" "src_byte s r (n - Suc k) = Some b" "map (src_byte s r) [n - k..<n] = map Some cs"
    by (rule src_bytes_Suc)
  show ?case
  proof (cases "pipe_count (pipes s p) = 512")
    case True
    then show ?thesis using write_blocked_loop [OF Suc.prems(1) True Suc.prems(2-4)] by (simp add: upd_pipe_id id_def [symmetric] del: pipewrite_loop.simps)
  next
    case False
    then have lt: "pipe_count (pipes s p) < 512" using Suc.prems(1) by (simp add: pipe_ok_def)
    let ?t = "upd_pipe p (pipe_put b) s"
    have q: "pipe_ok (pipes ?t p)" "pipe_count (pipes ?t p) = Suc (pipe_count (pipes s p))"
      using pipe_put_queue [OF Suc.prems(1), of b] lt by (simp, metis length_append_singleton length_pipe_queue fun_upd_same upd_pipe_simps(1))
    have "pipewrite_loop (Suc k) p r n s = pipewrite_loop k p r n ?t"
      by (rule pipewrite_loop_put [OF Suc.prems(1) lt bs(2) Suc.prems(6)])
    also have "\<dots> = (if pipe_count (pipes ?t p) + k \<le> 512 then Ret (int n) ((woken (chan_read p) (upd_pipe p (fold pipe_put cs) ?t))\<lparr>held := {}\<rparr>)
     else write_blocked p c (upd_pipe p (fold pipe_put (take (512 - pipe_count (pipes ?t p)) cs)) ?t))"
      by (rule Suc.IH) (use Suc.prems q bs in simp_all)
    also have "512 - pipe_count (pipes ?t p) = 511 - pipe_count (pipes s p)" using q(2) by simp
    finally show ?thesis using lt q(2) bs(1) by (simp add: take_Cons' comp_def del: pipewrite_loop.simps)
  qed
qed

section \<open>Reading\<close>

lemma upd_pipe_mem [simp]: "upd_pipe p f (s\<lparr>mem := m\<rparr>) = (upd_pipe p f s)\<lparr>mem := m\<rparr>" "upd_pipe p f (s\<lparr>held := h\<rparr>) = (upd_pipe p f s)\<lparr>held := h\<rparr>"
  by (simp_all add: upd_pipe_def)

text \<open>
  \<open>maps s a i k pa\<close>: the hardware lets the kernel write to the \<open>k\<close> addresses from \<open>a + i\<close> on, the \<open>j\<close>-th of the buffer at \<open>a\<close> being at
  \<open>pa j\<close> in memory, and writing to them does not change that (the page tables lie elsewhere). \<open>store_at\<close> is the memory afterwards.
\<close>

definition maps :: "'z kvm_scheme \<Rightarrow> u32 \<Rightarrow> nat \<Rightarrow> nat \<Rightarrow> (nat \<Rightarrow> u32) \<Rightarrow> bool" where
  "maps s a i k pa \<longleftrightarrow>
     (\<forall>m. (\<forall>x. x \<notin> pa ` {i..<i + k} \<longrightarrow> m x = mem s x) \<longrightarrow> (\<forall>j \<in> {i..<i + k}. mmu (s\<lparr>mem := m\<rparr>) True (a + of_nat j) = Some (pa j)))"

primrec store_at :: "(nat \<Rightarrow> u32) \<Rightarrow> nat \<Rightarrow> byte list \<Rightarrow> bmem \<Rightarrow> bmem" where
  "store_at pa i [] m = m"
| "store_at pa i (c # cs) m = store_at pa (Suc i) cs (m(pa i := c))"

lemma store_at_other: "x \<notin> pa ` {i..<i + length cs} \<Longrightarrow> store_at pa i cs m x = m x"
proof (induction cs arbitrary: i m)
  case (Cons c cs)
  then have "x \<notin> pa ` {Suc i..<Suc i + length cs}" "x \<noteq> pa i" by auto
  then show ?case using Cons.IH by simp
qed simp

lemma store_at_nth: "inj_on pa {i..<i + length cs} \<Longrightarrow> j < length cs \<Longrightarrow> store_at pa i cs m (pa (i + j)) = cs ! j"
proof (induction cs arbitrary: i j m)
  case (Cons c cs)
  have inj: "inj_on pa {Suc i..<Suc i + length cs}" using Cons.prems(1) by (rule inj_on_subset) auto
  show ?case
  proof (cases j)
    case 0
    have "pa i \<noteq> pa x" if "x \<in> {Suc i..<Suc i + length cs}" for x
      using inj_onD [OF Cons.prems(1), of i x] that by auto
    then have "pa i \<notin> pa ` {Suc i..<Suc i + length cs}" by blast
    then show ?thesis using 0 by (simp add: store_at_other)
  next
    case (Suc j')
    then show ?thesis using Cons.IH [OF inj, of j'] Cons.prems(2) by simp
  qed
qed simp

lemma maps_head: "maps s a i (Suc k) pa \<Longrightarrow> mmu s True (a + of_nat i) = Some (pa i)"
  unfolding maps_def by (drule spec [of _ "mem s"]) simp

lemma maps_tail:
  assumes "maps s a i (Suc k) pa"
  shows "maps (s\<lparr>mem := (mem s)(pa i := c)\<rparr>) a (Suc i) k pa"
proof -
  have "mmu (s\<lparr>mem := m\<rparr>) True (a + of_nat j) = Some (pa j)"
    if "\<forall>x. x \<notin> pa ` {Suc i..<Suc i + k} \<longrightarrow> m x = ((mem s)(pa i := c)) x" "j \<in> {Suc i..<Suc i + k}" for m j
  proof -
    have s: "pa ` {i..<i + Suc k} = insert (pa i) (pa ` {Suc i..<Suc i + k})" by (auto simp: image_iff) (metis Suc_leI atLeastLessThan_iff le_neq_implies_less)
    have "\<forall>x. x \<notin> pa ` {i..<i + Suc k} \<longrightarrow> m x = mem s x" using that(1) unfolding s by simp
    then show ?thesis using assms that(2) unfolding maps_def by auto
  qed
  then show ?thesis by (simp add: maps_def)
qed

lemma maps_upd_pipe [simp]: "maps (upd_pipe p f s) = maps s" "maps (s\<lparr>held := h\<rparr>) = maps s"
  by (intro ext, simp add: maps_def upd_pipe_def mmu_def)+

text \<open>What becomes of the bytes, and when the copy is sure to have no page fault.\<close>

definition lands :: "dst \<Rightarrow> 'z kvm_scheme \<Rightarrow> nat \<Rightarrow> byte list \<Rightarrow> bmem \<Rightarrow> bool" where
  "lands d s i bs m \<longleftrightarrow> (case d of Local \<Rightarrow> m = mem s | Addr a \<Rightarrow> \<forall>pa. maps s a i (length bs) pa \<longrightarrow> m = store_at pa i bs (mem s))"

definition no_fault :: "dst \<Rightarrow> 'z kvm_scheme \<Rightarrow> nat \<Rightarrow> nat \<Rightarrow> bool" where
  "no_fault d s i k \<longleftrightarrow> (case d of Local \<Rightarrow> True | Addr a \<Rightarrow> \<exists>pa. maps s a i k pa)"

lemma copy_to_byte:
  "(copy_to d (of_nat i) [x] s = Panic ''trap'' \<and> \<not> no_fault d s i (Suc k)) \<or>
   (\<exists>m. copy_to d (of_nat i) [x] s = Ret () (s\<lparr>mem := m\<rparr>) \<and> (no_fault d s i (Suc k) \<longrightarrow> no_fault d (s\<lparr>mem := m\<rparr>) (Suc i) k) \<and>
     (\<forall>bs m'. length bs = k \<longrightarrow> lands d (s\<lparr>mem := m\<rparr>) (Suc i) bs m' \<longrightarrow> lands d s i (x # bs) m'))"
proof (cases d)
  case (Addr a)
  show ?thesis
  proof (cases "mmu s True (a + of_nat i)")
    case None
    then have "\<not> maps s a i (Suc k) pa" for pa using maps_head [of s a i k pa] by auto
    then show ?thesis using Addr None by (simp add: copy_to_def bindK_def vstore8_def no_fault_def)
  next
    case (Some b)
    let ?m = "(mem s)(b := x)"
    have b: "pa i = b \<and> maps (s\<lparr>mem := ?m\<rparr>) a (Suc i) k pa" if "maps s a i (Suc k) pa" for pa
      using maps_head [OF that] maps_tail [OF that, of x] Some by auto
    show ?thesis using Addr Some b
      by (intro disjI2 exI [of _ ?m]) (auto simp: copy_to_def bindK_def vstore8_def no_fault_def lands_def)
  qed
next
  case Local
  then show ?thesis by (auto simp: copy_to_def no_fault_def lands_def intro!: exI [of _ "mem s"])
qed

lemma lands_upd_pipe [simp]: "lands d (upd_pipe p f s) i bs m = lands d s i bs m" "no_fault d (upd_pipe p f s) i k = no_fault d s i k"
  "lands d (s\<lparr>held := h\<rparr>) i bs m = lands d s i bs m" "no_fault d (s\<lparr>held := h\<rparr>) i k = no_fault d s i k"
  by (simp_all add: lands_def no_fault_def split: dst.split)

lemma lands_Nil: "lands d s i [] (mem s)"
  by (cases d) (simp_all add: lands_def)

lemma piperead_copy_run:
  assumes "pipe_ok (pipes s p)"
  shows "(piperead_copy k p d i buf s = Panic ''trap'' \<and> \<not> no_fault d s i (length (take k (pipe_queue (pipes s p))))) \<or>
    (\<exists>m. piperead_copy k p d i buf s = Ret (i + length (take k (pipe_queue (pipes s p))), if d = Local then buf @ take k (pipe_queue (pipes s p)) else buf)
       ((upd_pipe p (pq.take_out (length (take k (pipe_queue (pipes s p))))) s)\<lparr>mem := m\<rparr>) \<and> lands d s i (take k (pipe_queue (pipes s p))) m)"
  using assms
proof (induction k arbitrary: s i buf)
  case 0
  show ?case by (intro disjI2 exI [of _ "mem s"]) (simp add: upd_pipe_def lands_Nil)
next
  case (Suc k)
  show ?case
  proof (cases "pipe_queue (pipes s p)")
    case Nil
    have "pi_nread (pipes s p) = pi_nwrite (pipes s p)" using Nil length_pipe_queue [of "pipes s p"] by (simp add: pipe_empty_iff)
    then show ?thesis using Nil by (intro disjI2 exI [of _ "mem s"]) (simp add: upd_pipe_def lands_Nil)
  next
    case (Cons x xs)
    note g = pipe_get_queue [OF Suc.prems Cons]
    let ?q = "pipes s p" and ?u = "upd_pipe p (\<lambda>q. q\<lparr>pi_nread := pi_nread q + 1\<rparr>) s" and ?buf = "if d = Local then buf @ [x] else buf"
    let ?n = "length (take k xs)"
    have u: "?u = upd_pipe p (\<lambda>q. snd (pipe_get q)) s" by (simp add: pipe_get_def)
    have x: "pi_data ?q ! unat (pi_nread ?q mod PIPESIZE) = x" using g by (simp add: pipe_get_def)
    have ne: "pi_nread ?q \<noteq> pi_nwrite ?q" using Cons length_pipe_queue [of ?q] by (auto simp: pipe_empty_iff)
    have step: "piperead_copy (Suc k) p d i buf s = bindK (copy_to d (of_nat i) [x]) (\<lambda>_. piperead_copy k p d (Suc i) ?buf) ?u"
      using ne by (simp add: x)
    have e: "take (Suc k) (pipe_queue ?q) = x # take k xs" using Cons by simp
    from copy_to_byte [of d i x ?u ?n] show ?thesis
    proof (elim disjE exE conjE)
      assume "copy_to d (of_nat i) [x] ?u = Panic ''trap''" "\<not> no_fault d ?u i (Suc ?n)"
      then show ?thesis unfolding e step by (simp add: bindK_Panic)
    next
      fix m assume c: "copy_to d (of_nat i) [x] ?u = Ret () (?u\<lparr>mem := m\<rparr>)" "no_fault d ?u i (Suc ?n) \<longrightarrow> no_fault d (?u\<lparr>mem := m\<rparr>) (Suc i) ?n"
        "\<forall>bs m'. length bs = ?n \<longrightarrow> lands d (?u\<lparr>mem := m\<rparr>) (Suc i) bs m' \<longrightarrow> lands d ?u i (x # bs) m'"
      have q: "pipes (?u\<lparr>mem := m\<rparr>) p = snd (pipe_get ?q)" unfolding u by simp
      have st: "piperead_copy (Suc k) p d i buf s = piperead_copy k p d (Suc i) ?buf (?u\<lparr>mem := m\<rparr>)" using step c(1) by (simp add: bindK_Ret)
      have w: "upd_pipe p (pq.take_out n) (?u\<lparr>mem := m\<rparr>) = (upd_pipe p (\<lambda>a. pq.take_out n (snd (pipe_get a))) s)\<lparr>mem := m\<rparr>" for n
        unfolding u by (simp add: comp_def)
      have "pipe_ok (pipes (?u\<lparr>mem := m\<rparr>) p)" unfolding q using g by simp
      from Suc.IH [OF this, of "Suc i" ?buf] show ?thesis unfolding st q w e using g c(2,3) by auto
    qed
  qed
qed

definition piperead_result :: "u32 \<Rightarrow> dst \<Rightarrow> int \<Rightarrow> 'z kfile_scheme \<Rightarrow> (int \<times> byte list) \<Rightarrow> 'z kfile_scheme \<Rightarrow> bool" where
  "piperead_result p d n s r t \<longleftrightarrow>
     (let bs = take (nat n) (pipe_queue (pipes s p))
      in r = (int (length bs), if d = Local then bs else []) \<and>
         (\<exists>m. t = woken (chan_write p) ((upd_pipe p (pq.take_out (length bs)) s)\<lparr>mem := m\<rparr>) \<and> lands d s 0 bs m))"

lemma piperead_run:
  fixes s :: "'z kfile_scheme"
  assumes "pipe_ok (pipes s p)" "held s = {}" "curproc s = Some c" "c < length (ptable s)"
  shows "if pipe_count (pipes s p) = 0 \<and> pi_writeopen (pipes s p) then
      piperead p d n s = (if p_killed (ptable s ! c) then Ret (-1, []) s
        else Swtch (upd_proc c (\<lambda>q. q\<lparr>p_chan := Some (chan_read p), p_state := SLEEPING\<rparr>) (s\<lparr>held := {L_ptable}\<rparr>)))
    else (piperead p d n s = Panic ''trap'' \<and> \<not> no_fault d s 0 (length (take (nat n) (pipe_queue (pipes s p))))) \<or>
      (\<exists>r t. piperead p d n s = Ret r t \<and> piperead_result p d n s r t)"
proof (cases "pipe_count (pipes s p) = 0 \<and> pi_writeopen (pipes s p)")
  case True
  have "sleep (chan_read p) (pipe_lock p) (s\<lparr>held := {pipe_lock p}\<rparr>) =
      (Swtch :: _ \<Rightarrow> ('z kfile_scheme, int \<times> byte list) outcome)
        (upd_proc c (\<lambda>q. q\<lparr>p_chan := Some (chan_read p), p_state := SLEEPING\<rparr>) (s\<lparr>held := {pipe_lock p}\<rparr>\<lparr>held := {L_ptable}\<rparr>))"
    by (rule sleep_run) (use assms in simp_all)
  moreover have "s\<lparr>held := {}\<rparr> = s" using assms(2) by simp
  ultimately show ?thesis using True assms
    by (simp add: piperead_def piperead_loop_def bindK_def acquire_def release_def with_myproc_def pipe_empty_iff)
next
  case False
  let ?t = "s\<lparr>held := {pipe_lock p}\<rparr>"
  let ?bs = "take (nat n) (pipe_queue (pipes s p))"
  have l: "piperead p d n s = bindK (piperead_copy (nat n) p d 0 []) (\<lambda>(i, buf). bindK (wakeup (chan_write p)) (\<lambda>_. bindK (release (pipe_lock p)) (\<lambda>_. retK (int i, buf)))) ?t"
    using False assms(2) by (auto simp: piperead_def piperead_loop_def bind_acquire pipe_empty_iff)
  have q: "pipe_ok (pipes ?t p)" "pipes ?t p = pipes s p" using assms(1) by simp_all
  from piperead_copy_run [OF q(1), of "nat n" d 0 "[]"]
  have "(piperead p d n s = Panic ''trap'' \<and> \<not> no_fault d s 0 (length ?bs)) \<or> (\<exists>r t. piperead p d n s = Ret r t \<and> piperead_result p d n s r t)"
    unfolding q(2)
  proof (elim disjE exE conjE)
    assume "piperead_copy (nat n) p d 0 [] ?t = Panic ''trap''" "\<not> no_fault d ?t 0 (length ?bs)"
    then show ?thesis by (simp add: l bindK_Panic)
  next
    fix m assume c: "piperead_copy (nat n) p d 0 [] ?t = Ret (0 + length ?bs, if d = Local then [] @ ?bs else []) ((upd_pipe p (pq.take_out (length ?bs)) ?t)\<lparr>mem := m\<rparr>)"
      "lands d ?t 0 ?bs m"
    let ?u = "(upd_pipe p (pq.take_out (length ?bs)) ?t)\<lparr>mem := m\<rparr>"
    have "wakeup (chan_write p) ?u = Ret () (woken (chan_write p) ?u)" by (rule wakeup_run) simp
    then have "piperead p d n s = Ret (int (length ?bs), if d = Local then ?bs else []) ((woken (chan_write p) ?u)\<lparr>held := {}\<rparr>)"
      using c(1) unfolding l by (simp add: bindK_def release_def)
    moreover have "(woken (chan_write p) ?u)\<lparr>held := {}\<rparr> = woken (chan_write p) ((upd_pipe p (pq.take_out (length ?bs)) s)\<lparr>mem := m\<rparr>)"
      using assms(2) by (simp add: woken_def upd_pipe_def)
    ultimately show ?thesis using c(2) by (auto simp: piperead_result_def Let_def)
  qed
  then show ?thesis using False by (simp only: if_False)
qed

lemma piperead_result_queue:
  assumes "piperead_result p d n s r t" "pipe_ok (pipes s p)"
  shows "pipe_ok (pipes t p)" "pipe_queue (pipes t p) = drop (nat n) (pipe_queue (pipes s p))"
    "ptable t = map (wake (Some (chan_write p))) (ptable s)" "held t = held s" "pi_writeopen (pipes t p) = pi_writeopen (pipes s p)"
proof -
  let ?k = "length (take (nat n) (pipe_queue (pipes s p)))"
  obtain m where t: "t = woken (chan_write p) ((upd_pipe p (pq.take_out ?k) s)\<lparr>mem := m\<rparr>)"
    using assms(1) by (auto simp: piperead_result_def Let_def)
  have q: "pipes t p = pq.take_out ?k (pipes s p)" by (simp add: t woken_def)
  have "?k \<le> length (pipe_queue (pipes s p))" by simp
  from pq.take_all [OF assms(2) this] show "pipe_ok (pipes t p)" "pipe_queue (pipes t p) = drop (nat n) (pipe_queue (pipes s p))"
    unfolding q by (simp_all add: min_def)
  show "ptable t = map (wake (Some (chan_write p))) (ptable s)" "held t = held s" by (simp_all add: t)
  have "pi_writeopen (pq.take_out k q) = pi_writeopen q" for k q by (induction k arbitrary: q) (simp_all add: pipe_get_def)
  then show "pi_writeopen (pipes t p) = pi_writeopen (pipes s p)" by (simp add: q)
qed

lemma put_flags: "pi_readopen (fold pipe_put bs q) = pi_readopen q" "pi_writeopen (fold pipe_put bs q) = pi_writeopen q"
  by (induction bs arbitrary: q) (simp_all add: pipe_put_def)

lemma pipewrite_run:
  assumes "pipe_ok (pipes s p)" "held s = {}" "curproc s = Some c" "c < length (ptable s)" "length bs < 4294967296"
    "map (src_byte s r) [0..<length bs] = map Some bs"
  shows "pipewrite p r (int (length bs)) s =
    (if pipe_count (pipes s p) + length bs \<le> 512 then Ret (int (length bs)) (woken (chan_read p) (upd_pipe p (fold pipe_put bs) s))
     else write_blocked p c ((upd_pipe p (fold pipe_put (take (512 - pipe_count (pipes s p)) bs)) s)\<lparr>held := {pipe_lock p}\<rparr>))"
proof -
  let ?t = "s\<lparr>held := {pipe_lock p}\<rparr>"
  have src: "src_byte ?t r = src_byte s r" by (rule ext, cases r) (simp_all add: src_byte_def mmu_def)
  have "pipewrite_loop (length bs) p r (length bs) ?t =
    (if pipe_count (pipes ?t p) + length bs \<le> 512 then Ret (int (length bs)) ((woken (chan_read p) (upd_pipe p (fold pipe_put bs) ?t))\<lparr>held := {}\<rparr>)
     else write_blocked p c (upd_pipe p (fold pipe_put (take (512 - pipe_count (pipes ?t p)) bs)) ?t))"
    by (rule pipewrite_loop_run) (use assms src in simp_all)
  moreover have "(woken (chan_read p) (upd_pipe p (fold pipe_put bs) ?t))\<lparr>held := {}\<rparr> = woken (chan_read p) (upd_pipe p (fold pipe_put bs) s)"
    using assms(2) by (simp add: woken_def upd_pipe_def)
  ultimately show ?thesis using assms(2)
    by (simp add: pipewrite_def bind_acquire) (simp add: bindK_def write_blocked_def)
qed

section \<open>Who sleeps\<close>

definition sleeping :: "chan \<Rightarrow> proc list \<Rightarrow> bool" where
  "sleeping ch ps \<longleftrightarrow> (\<exists>q \<in> set ps. p_state q = SLEEPING \<and> p_chan q = Some ch)"

lemma sleeping_woken: "sleeping ch (map (wake (Some ch')) ps) \<longleftrightarrow> ch \<noteq> ch' \<and> sleeping ch ps"
  by (auto simp: sleeping_def wake_def split: if_splits)

lemma sleeping_update:
  "sleeping ch (ps[c := (ps ! c)\<lparr>p_chan := Some ch', p_state := SLEEPING\<rparr>]) \<Longrightarrow> ch = ch' \<or> sleeping ch ps"
  by (auto simp: sleeping_def dest!: subsetD [OF set_update_subset_insert])

lemma sleeping_no_chan: "sleeping ch (ps[c := (ps ! c)\<lparr>p_chan := None\<rparr>]) \<Longrightarrow> sleeping ch ps"
  by (auto simp: sleeping_def dest!: subsetD [OF set_update_subset_insert])

text \<open>Readers sleep only at an empty pipe whose write end is open, writers only at a full one whose read end is open.\<close>

definition none_lost :: "u32 \<Rightarrow> 'z kfile_scheme \<Rightarrow> bool" where
  "none_lost p s \<longleftrightarrow>
     (sleeping (chan_read p) (ptable s) \<longrightarrow> pipe_count (pipes s p) = 0 \<and> pi_writeopen (pipes s p)) \<and>
     (sleeping (chan_write p) (ptable s) \<longrightarrow> pipe_count (pipes s p) = 512 \<and> pi_readopen (pipes s p))"

definition pipe_inv :: "u32 \<Rightarrow> 'z kfile_scheme \<Rightarrow> bool" where
  "pipe_inv p s \<longleftrightarrow> pipe_ok (pipes s p) \<and> none_lost p s"

definition ready :: "nat \<Rightarrow> lockid set \<Rightarrow> 'z kproc_scheme \<Rightarrow> bool" where
  "ready c h s \<longleftrightarrow> held s = h \<and> curproc s = Some c \<and> c < length (ptable s)"

definition leads :: "('s, 'a) kop \<Rightarrow> ('a \<Rightarrow> bool) \<Rightarrow> 's \<Rightarrow> 's \<Rightarrow> bool" where
  "leads m good s t \<longleftrightarrow> (\<exists>v. m s = Ret v t \<and> good v) \<or> m s = Swtch t"

text \<open>
  The steps of a system around one pipe: a call of one of its operations by the running process, the
  continuation of one that slept, and everything else (other operations, the scheduler), which does not
  touch the pipe and puts nobody to sleep on it. A write that fails is left out here.
\<close>

inductive pipe_step :: "u32 \<Rightarrow> 'z kfile_scheme \<Rightarrow> 'z kfile_scheme \<Rightarrow> bool" for p where
  step_read: "ready c {} s \<Longrightarrow> leads (piperead p d n) (\<lambda>_. True) s t \<Longrightarrow> pipe_step p s t"
| step_read_resume: "ready c {L_ptable} s \<Longrightarrow> leads (piperead_return c p d n) (\<lambda>_. True) s t \<Longrightarrow> pipe_step p s t"
| step_write: "ready c {} s \<Longrightarrow> length bs < 4294967296 \<Longrightarrow> map (src_byte s r) [0..<length bs] = map Some bs \<Longrightarrow>
    leads (pipewrite p r (int (length bs))) (\<lambda>v. v \<noteq> -1) s t \<Longrightarrow> pipe_step p s t"
| step_write_resume: "ready c {L_ptable} s \<Longrightarrow> k \<le> n \<Longrightarrow> n < 4294967296 \<Longrightarrow> map (src_byte s r) [n - k..<n] = map Some bs \<Longrightarrow>
    leads (pipewrite_return c k p r n) (\<lambda>v. v \<noteq> -1) s t \<Longrightarrow> pipe_step p s t"
| step_close: "ready c {} s \<Longrightarrow> leads (pipeclose p w) (\<lambda>_. True) s t \<Longrightarrow> pipe_step p s t"
| step_other: "pipes t p = pipes s p \<Longrightarrow> (\<And>ch. ch \<in> {chan_read p, chan_write p} \<Longrightarrow> sleeping ch (ptable t) \<Longrightarrow> sleeping ch (ptable s)) \<Longrightarrow> pipe_step p s t"

lemma pipe_inv_mono:
  assumes "pipe_inv p s" "pipes t p = pipes s p" "\<And>ch. ch \<in> {chan_read p, chan_write p} \<Longrightarrow> sleeping ch (ptable t) \<Longrightarrow> sleeping ch (ptable s)"
  shows "pipe_inv p t"
  using assms by (auto simp: pipe_inv_def none_lost_def)

lemma read_keeps:
  assumes inv: "pipe_inv p s" and rd: "ready c {} s" and ld: "leads (piperead p d n) (\<lambda>_. True) s t"
  shows "pipe_inv p t"
proof -
  let ?empty = "pipe_count (pipes s p) = 0 \<and> pi_writeopen (pipes s p)"
  have ok: "pipe_ok (pipes s p)" using inv by (simp add: pipe_inv_def)
  have r: "held s = {}" "curproc s = Some c" "c < length (ptable s)" using rd by (auto simp: ready_def)
  note run = piperead_run [OF ok r, of d n]
  show ?thesis
  proof (cases ?empty)
    case True
    with run ld consider "t = s"
      | "t = upd_proc c (\<lambda>q. q\<lparr>p_chan := Some (chan_read p), p_state := SLEEPING\<rparr>) (s\<lparr>held := {L_ptable}\<rparr>)"
      by (auto simp: leads_def split: if_splits)
    then show ?thesis
    proof cases
      case 2
      then have "pipes t p = pipes s p" "ptable t = (ptable s)[c := (ptable s ! c)\<lparr>p_chan := Some (chan_read p), p_state := SLEEPING\<rparr>]"
        by (simp_all add: upd_proc_def)
      then show ?thesis using True inv by (auto simp: pipe_inv_def none_lost_def dest: sleeping_update)
    qed (use inv in simp)
  next
    case False
    with run ld obtain v where v: "piperead_result p d n s v t" by (auto simp: leads_def)
    have "\<not> sleeping (chan_read p) (ptable s)" using inv False by (auto simp: pipe_inv_def none_lost_def)
    then show ?thesis using piperead_result_queue [OF v ok] by (simp add: pipe_inv_def none_lost_def sleeping_woken)
  qed
qed

lemma blocked_keeps:
  assumes ok: "pipe_ok (pipes s p)" and f: "pipe_count (pipes s p) = 512" and c: "c < length (ptable s)"
    and ld: "leads (write_blocked p c) (\<lambda>v. v \<noteq> -1) s t"
  shows "pipe_inv p t"
proof -
  have ro: "pi_readopen (pipes s p)" and t: "t = upd_proc c (\<lambda>q. q\<lparr>p_chan := Some (chan_write p), p_state := SLEEPING\<rparr>) ((woken (chan_read p) s)\<lparr>held := {L_ptable}\<rparr>)"
    using ld by (auto simp: leads_def write_blocked_def split: if_splits)
  let ?ps = "map (wake (Some (chan_read p))) (ptable s)"
  have pt: "ptable t = ?ps[c := (?ps ! c)\<lparr>p_chan := Some (chan_write p), p_state := SLEEPING\<rparr>]" "pipes t = pipes s"
    by (simp_all add: t) (simp_all add: upd_proc_def woken_def)
  have "\<not> sleeping (chan_read p) (ptable t)" unfolding pt(1) by (auto dest!: sleeping_update simp: sleeping_woken)
  then show ?thesis using ok f ro pt(2) by (simp add: pipe_inv_def none_lost_def)
qed

lemma write_loop_keeps:
  assumes inv: "pipe_inv p s" and rd: "ready c {pipe_lock p} s" and k: "k \<le> n" "n < 4294967296" "map (src_byte s r) [n - k..<n] = map Some bs"
    and ld: "leads (pipewrite_loop k p r n) (\<lambda>v. v \<noteq> -1) s t"
  shows "pipe_inv p t"
proof -
  have ok: "pipe_ok (pipes s p)" using inv by (simp add: pipe_inv_def)
  have rs: "held s = {pipe_lock p}" "curproc s = Some c" "c < length (ptable s)" using rd by (auto simp: ready_def)
  have lb: "length bs = k" using arg_cong [OF k(3), of length] k(1) by simp
  note run = pipewrite_loop_run [OF ok rs k]
  show ?thesis
  proof (cases "pipe_count (pipes s p) + k \<le> 512")
    case True
    with run ld have t: "t = (woken (chan_read p) (upd_pipe p (fold pipe_put bs) s))\<lparr>held := {}\<rparr>" by (auto simp: leads_def)
    have q: "pipe_ok (fold pipe_put bs (pipes s p)) \<and> pipe_queue (fold pipe_put bs (pipes s p)) = pipe_queue (pipes s p) @ bs"
      by (rule pq.put_all [OF ok]) (use True lb in simp)
    have n: "pipe_count (fold pipe_put bs (pipes s p)) = pipe_count (pipes s p) + k" using arg_cong [OF conjunct2 [OF q], of length] lb by simp
    have "pipes t p = fold pipe_put bs (pipes s p)" "ptable t = map (wake (Some (chan_read p))) (ptable s)" by (simp_all add: t woken_def)
    then show ?thesis using inv q n True by (auto simp: pipe_inv_def none_lost_def sleeping_woken put_flags)
  next
    case False
    let ?j = "512 - pipe_count (pipes s p)"
    let ?u = "upd_pipe p (fold pipe_put (take ?j bs)) s"
    have "?j \<le> length bs" using False lb by simp
    then have q: "pipe_ok (fold pipe_put (take ?j bs) (pipes s p)) \<and> pipe_queue (fold pipe_put (take ?j bs) (pipes s p)) = pipe_queue (pipes s p) @ take ?j bs"
      using ok by (intro pq.put_all) (simp_all add: pipe_ok_def)
    have "pipe_count (pipes ?u p) = 512" using arg_cong [OF conjunct2 [OF q], of length] False lb ok by (simp add: pipe_ok_def)
    moreover have "leads (write_blocked p c) (\<lambda>v. v \<noteq> -1) ?u t" using run ld False by (simp add: leads_def)
    ultimately show ?thesis using q rs(3) by (intro blocked_keeps [of ?u p c]) simp_all
  qed
qed

lemma pipe_inv_held: "pipe_inv p s \<Longrightarrow> pipe_inv p (s\<lparr>held := h\<rparr>)"
  by (rule pipe_inv_mono) simp_all

lemma write_keeps:
  fixes s :: "'z kfile_scheme"
  assumes inv: "pipe_inv p s" and rd: "ready c {} s" and bs: "length bs < 4294967296" "map (src_byte s r) [0..<length bs] = map Some bs"
    and ld: "leads (pipewrite p r (int (length bs))) (\<lambda>v. v \<noteq> -1) s t"
  shows "pipe_inv p t"
proof -
  let ?u = "s\<lparr>held := {pipe_lock p}\<rparr>"
  have "bindK m retK ?u = m ?u" for m :: "('z kfile_scheme, int) kop" by (simp add: bindK_def retK_def [abs_def] split: outcome.splits)
  moreover have "(\<lambda>v. retK (if int (length bs) < 0 then int (length bs) else v)) = retK" by simp
  ultimately have "pipewrite p r (int (length bs)) s = pipewrite_loop (length bs) p r (length bs) ?u"
    using rd by (simp add: pipewrite_def bind_acquire ready_def del: pipewrite_loop.simps)
  then have "leads (pipewrite_loop (length bs) p r (length bs)) (\<lambda>v. v \<noteq> -1) ?u t" using ld by (simp add: leads_def)
  moreover have "src_byte ?u r = src_byte s r" by (rule ext, cases r) (simp_all add: src_byte_def mmu_def)
  ultimately show ?thesis using bs rd
    by (intro write_loop_keeps [where c = c and k = "length bs" and n = "length bs" and r = r and bs = bs, OF pipe_inv_held [OF inv]]) (simp_all add: ready_def)
qed

lemma resume_keeps: "pipe_inv p s \<Longrightarrow> pipe_inv p (upd_proc c (\<lambda>q. q\<lparr>p_chan := None\<rparr>) (s\<lparr>held := h\<rparr>))"
  by (erule pipe_inv_mono) (auto simp: upd_proc_def dest: sleeping_no_chan)

lemma read_resume_keeps:
  assumes "pipe_inv p s" "ready c {L_ptable} s" "leads (piperead_return c p d n) (\<lambda>_. True) s t"
  shows "pipe_inv p t"
proof -
  let ?u = "upd_proc c (\<lambda>q. q\<lparr>p_chan := None\<rparr>) (s\<lparr>held := {}\<rparr>)"
  have "piperead_return c p d n s = piperead p d n ?u"
    using assms(2) by (simp add: piperead_return_def piperead_def sleep_return_def ready_def bindK_assoc bind_release bind_acquire)
  then have "leads (piperead p d n) (\<lambda>_. True) ?u t" using assms(3) by (simp add: leads_def)
  then show ?thesis using assms(2) by (intro read_keeps [where c = c and d = d and n = n, OF resume_keeps [OF assms(1)]]) (simp_all add: ready_def)
qed

lemma write_resume_keeps:
  assumes "pipe_inv p s" "ready c {L_ptable} s" "k \<le> n" "n < 4294967296" "map (src_byte s r) [n - k..<n] = map Some bs"
    "leads (pipewrite_return c k p r n) (\<lambda>v. v \<noteq> -1) s t"
  shows "pipe_inv p t"
proof -
  let ?u = "upd_proc c (\<lambda>q. q\<lparr>p_chan := None\<rparr>) (s\<lparr>held := {pipe_lock p}\<rparr>)"
  have "pipewrite_return c k p r n s = pipewrite_loop k p r n ?u"
    using assms(2) by (simp add: pipewrite_return_def sleep_return_def ready_def bindK_assoc bind_release bind_acquire del: pipewrite_loop.simps)
  then have "leads (pipewrite_loop k p r n) (\<lambda>v. v \<noteq> -1) ?u t" using assms(6) by (simp add: leads_def)
  moreover have "src_byte ?u r = src_byte s r" by (rule ext, cases r) (simp_all add: src_byte_def mmu_def upd_proc_def)
  ultimately show ?thesis using assms(2-5)
    by (intro write_loop_keeps [where c = c and k = k and n = n and r = r and bs = bs, OF resume_keeps [OF assms(1)]]) (simp_all add: ready_def)
qed

lemma kfree_frame:
  fixes s :: "'z kfile_scheme"
  assumes "leads (kfree v) good s t"
  shows "pipes t = pipes s" "ptable t = ptable s"
  using assms by (auto simp: leads_def kfree_def bindK_def acquire_def release_def split: if_splits)

lemma held_same: "held s = h \<Longrightarrow> s\<lparr>held := h\<rparr> = s"
  by simp

lemma close_keeps:
  fixes s :: "'z kfile_scheme"
  assumes inv: "pipe_inv p s" and rd: "ready c {} s" and ld: "leads (pipeclose p w) (\<lambda>_. True) s t"
  shows "pipe_inv p t"
proof -
  define ch where "ch = (if w then chan_read p else chan_write p)"
  define f where "f = (\<lambda>q :: pipe. if w then q\<lparr>pi_writeopen := False\<rparr> else q\<lparr>pi_readopen := False\<rparr>)"
  let ?u = "woken ch (upd_pipe p f s)"
  have wk: "wakeup (chan_read p) x = Ret () (woken (chan_read p) x)" "wakeup (chan_write p) x = Ret () (woken (chan_write p) x)"
    if "held x = {pipe_lock p}" for x :: "'z kfile_scheme" using that by (simp_all add: wakeup_run)
  have c0: "pipe_count (f q) = pipe_count q" "length (pi_data (f q)) = length (pi_data q)" for q by (simp_all add: f_def pipe_count_def)
  have iu: "pipe_inv p ?u"
    using inv by (auto simp: pipe_inv_def pipe_ok_def none_lost_def c0 sleeping_woken woken_def) (auto simp: f_def ch_def split: if_splits)
  have e: "(woken ch (upd_pipe p f (s\<lparr>held := {pipe_lock p}\<rparr>)))\<lparr>held := {}\<rparr> = ?u"
    using rd by (simp add: woken_def upd_pipe_def ready_def)
  have "pipeclose p w s =
      (if \<not> pi_readopen (f (pipes s p)) \<and> \<not> pi_writeopen (f (pipes s p)) then kfree p ?u else Ret () ?u)"
    using rd e unfolding pipeclose_def ready_def
    by (cases w) (simp_all add: bind_acquire bindK_assoc bindK_Ret [OF wk(1)] bindK_Ret [OF wk(2)] bind_release release_def f_def ch_def woken_def upd_pipe_def held_same)
  then have "t = ?u \<or> leads (kfree p) (\<lambda>_. True) ?u t" using ld by (auto simp: leads_def split: if_splits)
  then show ?thesis using iu kfree_frame [of p _ ?u t] by (auto intro: pipe_inv_mono [OF iu])
qed

lemma pipe_step_inv: "pipe_step p s t \<Longrightarrow> pipe_inv p s \<Longrightarrow> pipe_inv p t"
  by (induction rule: pipe_step.induct) (blast intro: read_keeps read_resume_keeps write_keeps write_resume_keeps close_keeps pipe_inv_mono)+

lemma fold_put_full:
  assumes "pipe_ok q" "pipe_count q + length bs > 512"
  shows "pipe_ok (fold pipe_put (take (512 - pipe_count q) bs) q)"
    "pipe_queue (fold pipe_put (take (512 - pipe_count q) bs) q) = pipe_queue q @ take (512 - pipe_count q) bs"
    "pipe_count (fold pipe_put (take (512 - pipe_count q) bs) q) = 512"
proof -
  have q: "pipe_ok (fold pipe_put (take (512 - pipe_count q) bs) q) \<and>
      pipe_queue (fold pipe_put (take (512 - pipe_count q) bs) q) = pipe_queue q @ take (512 - pipe_count q) bs"
    using assms by (intro pq.put_all) (simp_all add: pipe_ok_def)
  then show "pipe_ok (fold pipe_put (take (512 - pipe_count q) bs) q)"
    "pipe_queue (fold pipe_put (take (512 - pipe_count q) bs) q) = pipe_queue q @ take (512 - pipe_count q) bs" by simp_all
  show "pipe_count (fold pipe_put (take (512 - pipe_count q) bs) q) = 512"
    using arg_cong [OF conjunct2 [OF q], of length] assms by (simp add: pipe_ok_def)
qed

lemma pipewrite_outcome:
  assumes "pipe_ok (pipes s p)" "held s = {}" "curproc s = Some c" "c < length (ptable s)"
    "length bs < 4294967296" "map (src_byte s r) [0..<length bs] = map Some bs"
  shows "case pipewrite p r (int (length bs)) s of
      Ret v t \<Rightarrow> pipe_ok (pipes t p) \<and> held t = {} \<and>
        ((v = int (length bs) \<and> pipe_queue (pipes t p) = pipe_queue (pipes s p) @ bs) \<or>
         (v = -1 \<and> (\<not> pi_readopen (pipes s p) \<or> p_killed (ptable s ! c)) \<and> length (pipe_queue (pipes s p)) + length bs > 512))
    | Swtch t \<Rightarrow> pipe_ok (pipes t p) \<and> (\<exists>k < length bs. pipe_queue (pipes t p) = pipe_queue (pipes s p) @ take k bs) \<and> length (pipe_queue (pipes t p)) = 512
    | Panic m \<Rightarrow> False | Diverge \<Rightarrow> False"
proof (cases "pipe_count (pipes s p) + length bs \<le> 512")
  case True
  then show ?thesis using pipewrite_run [OF assms] pq.put_all [OF assms(1), of bs] assms(2) by (simp add: woken_def)
next
  case False
  let ?k = "512 - pipe_count (pipes s p)"
  note f = fold_put_full [OF assms(1), of bs]
  have k: "?k < length bs" using False assms(1) unfolding pipe_ok_def by linarith
  have "pipe_count (pipes s p) + ?k = 512" using assms(1) by (simp add: pipe_ok_def)
  then show ?thesis using pipewrite_run [OF assms] False f k
    by (auto simp: write_blocked_def put_flags upd_proc_def woken_def intro!: exI [of _ ?k])
qed

text \<open>
  A buffer the kernel may write to: its bytes are translated, to different places in memory. \<open>delivered\<close>: the bytes are in the buffer, and
  nothing else has changed in memory.
\<close>

definition buffer_ok :: "'z kvm_scheme \<Rightarrow> dst \<Rightarrow> nat \<Rightarrow> (nat \<Rightarrow> u32) \<Rightarrow> bool" where
  "buffer_ok s d k pa \<longleftrightarrow> (case d of Local \<Rightarrow> True | Addr a \<Rightarrow> inj_on pa {0..<k} \<and> maps s a 0 k pa)"

definition delivered :: "dst \<Rightarrow> (nat \<Rightarrow> u32) \<Rightarrow> byte list \<Rightarrow> byte list \<Rightarrow> bmem \<Rightarrow> bmem \<Rightarrow> bool" where
  "delivered d pa bs buf m m' \<longleftrightarrow>
     (case d of Local \<Rightarrow> buf = bs \<and> m' = m
      | Addr a \<Rightarrow> (\<forall>i < length bs. m' (pa i) = bs ! i) \<and> (\<forall>x. x \<notin> pa ` {0..<length bs} \<longrightarrow> m' x = m x))"

lemma lands_delivered:
  assumes "lands d s 0 bs m" "buffer_ok s d (length bs) pa"
  shows "delivered d pa bs (if d = Local then bs else []) (mem s) m"
  using assms store_at_nth [of pa 0 bs] store_at_other [of _ pa 0 bs] by (cases d) (auto simp: lands_def buffer_ok_def delivered_def)

lemma piperead_outcome:
  assumes "pipe_ok (pipes s p)" "held s = {}" "curproc s = Some c" "c < length (ptable s)"
    "buffer_ok s d (min (nat n) (length (pipe_queue (pipes s p)))) pa"
  shows "case piperead p d n s of
      Ret (v, buf) t \<Rightarrow>
        if pipe_queue (pipes s p) = [] \<and> pi_writeopen (pipes s p) then v = -1 \<and> p_killed (ptable s ! c) \<and> t = s
        else v = int (min (nat n) (length (pipe_queue (pipes s p)))) \<and> delivered d pa (take (nat n) (pipe_queue (pipes s p))) buf (mem s) (mem t) \<and>
          pipe_queue (pipes t p) = drop (nat n) (pipe_queue (pipes s p)) \<and> pipe_ok (pipes t p) \<and> held t = {}
    | Swtch t \<Rightarrow> pipe_queue (pipes s p) = [] \<and> pi_writeopen (pipes s p) \<and> \<not> p_killed (ptable s ! c) \<and> pipes t = pipes s \<and> mem t = mem s \<and>
        p_state (ptable t ! c) = SLEEPING \<and> p_chan (ptable t ! c) = Some (chan_read p)
    | Panic m \<Rightarrow> False | Diverge \<Rightarrow> False"
proof -
  have q: "pipe_count (pipes s p) = 0 \<longleftrightarrow> pipe_queue (pipes s p) = []" by (metis length_0_conv length_pipe_queue)
  let ?bs = "take (nat n) (pipe_queue (pipes s p))"
  have b: "buffer_ok s d (length ?bs) pa" using assms(5) by (simp add: min.commute)
  then have nf: "no_fault d s 0 (length ?bs)" by (cases d) (auto simp: buffer_ok_def no_fault_def)
  show ?thesis
  proof (cases "pipe_queue (pipes s p) = [] \<and> pi_writeopen (pipes s p)")
    case True
    then show ?thesis using piperead_run [OF assms(1-4), of d n] assms(4) by (auto simp: q upd_proc_def)
  next
    case False
    with piperead_run [OF assms(1-4), of d n] nf obtain v t where t: "piperead p d n s = Ret v t" "piperead_result p d n s v t"
      unfolding q by auto
    obtain m where m: "t = woken (chan_write p) ((upd_pipe p (pq.take_out (length ?bs)) s)\<lparr>mem := m\<rparr>)" "lands d s 0 ?bs m"
      and v: "v = (int (length ?bs), if d = Local then ?bs else [])" using t(2) by (auto simp: piperead_result_def Let_def)
    have "mem t = m" by (simp add: m(1) woken_def)
    then show ?thesis using t(1) v False lands_delivered [OF m(2) b] piperead_result_queue [OF t(2) assms(1)] assms(2) by (auto simp: min.commute)
  qed
qed

section \<open>A concrete state\<close>

text \<open>Process 0 runs, process 1 sleeps at the empty pipe at address 4096.\<close>

definition kfile_example :: kfile where
  "kfile_example = \<lparr>held = {}, mem = (\<lambda>_. 0), freelist = 0, use_lock = True, kend = 0, kdata = 0, kpgdir = 0, cr3 = 0, ts_ss0 = 0,
     ts_esp0 = 0, ts_iomb = 0, tr = 0,
     ptable = proc_zero\<lparr>p_state := RUNNING, p_pid := 1\<rparr> #
       proc_zero\<lparr>p_state := SLEEPING, p_pid := 2, p_chan := Some (chan_read 4096)\<rparr> # replicate 62 proc_zero, nextpid = 3,
     initproc = Some 0, curproc = Some 0, other_procs = [], first = False, forkret_pc = 0, trapret_pc = 0,
     slocks = (\<lambda>_. \<lparr>sl_locked = False, sl_pid = 0\<rparr>), bufs = [], disk = (\<lambda>_. replicate 512 0), disksize = 1000,
     disk_hist = [], log_start = 2, log_size = 30, log_outstanding = 0, log_committing = False, log_dev = 1, lh_n = 0,
     lh_block = replicate 30 0,
     sb = \<lparr>sb_size = 1000, sb_nblocks = 900, sb_ninodes = 200, sb_nlog = 30, sb_logstart = 2, sb_inodestart = 32, sb_bmapstart = 58\<rparr>,
     icache = [], cons_locking = True, panicked = False, crt = (\<lambda>_. 0), crt_pos = 0, input_buf = replicate 128 0, input_r = 0, input_w = 0,
     input_e = 0, kbd_shift = 0, kbd_in = [], uart = False, uart_in = [], uart_out = [], devsw = [],
     ftable = [], pipes = (\<lambda>_. \<lparr>pi_data = replicate 512 0, pi_nread = 0, pi_nwrite = 0, pi_readopen = True, pi_writeopen = True\<rparr>)\<rparr>"

lemma kfile_example_facts:
  "held kfile_example = {}" "curproc kfile_example = Some 0" "length (ptable kfile_example) = 64"
  "pipe_ok (pipes kfile_example p)" "pipe_count (pipes kfile_example p) = 0" "pipe_queue (pipes kfile_example p) = []"
  "pi_writeopen (pipes kfile_example p)" "\<not> p_killed (ptable kfile_example ! 0)" "sleeping (chan_read 4096) (ptable kfile_example)"
  by (simp_all add: kfile_example_def pipe_ok_def pipe_count_def pipe_queue_def proc_zero_def sleeping_def)

lemma kfile_example_inv: "pipe_inv 4096 kfile_example"
  by (auto simp: pipe_inv_def none_lost_def kfile_example_facts) (simp_all add: kfile_example_def sleeping_def proc_zero_def)

section \<open>Properties\<close>

text \<open>C25: A pipe is a bounded queue of 512 bytes, whatever its counters, which wrap around. A read into a buffer the kernel may write to takes
  as many bytes from the front of the queue as are asked for and there, returns their number, and leaves them in the buffer, in
  order; nothing else changes in memory. It sleeps exactly if the queue is empty, a writer is left and the reader is not killed. A write appends all its bytes
  and returns their number, or appends bytes until the queue is full and then sleeps, or fails if no reader is left or
  the writer is killed.\<close>

theorem pipe_fifo:
  assumes "pipe_ok (pipes s p)" "held s = {}" "curproc s = Some c" "c < length (ptable s)"
    "length bs < 4294967296" "map (src_byte s r) [0..<length bs] = map Some bs"
    "buffer_ok s d (min (nat n) (length (pipe_queue (pipes s p)))) pa"
  shows "(case piperead p d n s of
      Ret (v, buf) t \<Rightarrow>
        if pipe_queue (pipes s p) = [] \<and> pi_writeopen (pipes s p) then v = -1 \<and> p_killed (ptable s ! c) \<and> t = s
        else v = int (min (nat n) (length (pipe_queue (pipes s p)))) \<and> delivered d pa (take (nat n) (pipe_queue (pipes s p))) buf (mem s) (mem t) \<and>
          pipe_queue (pipes t p) = drop (nat n) (pipe_queue (pipes s p)) \<and> pipe_ok (pipes t p) \<and> held t = {}
    | Swtch t \<Rightarrow> pipe_queue (pipes s p) = [] \<and> pi_writeopen (pipes s p) \<and> \<not> p_killed (ptable s ! c) \<and> pipes t = pipes s \<and> mem t = mem s \<and>
        p_state (ptable t ! c) = SLEEPING \<and> p_chan (ptable t ! c) = Some (chan_read p)
    | Panic m \<Rightarrow> False | Diverge \<Rightarrow> False) \<and>
    (case pipewrite p r (int (length bs)) s of
      Ret v t \<Rightarrow> pipe_ok (pipes t p) \<and> held t = {} \<and>
        ((v = int (length bs) \<and> pipe_queue (pipes t p) = pipe_queue (pipes s p) @ bs) \<or>
         (v = -1 \<and> (\<not> pi_readopen (pipes s p) \<or> p_killed (ptable s ! c)) \<and> length (pipe_queue (pipes s p)) + length bs > 512))
    | Swtch t \<Rightarrow> pipe_ok (pipes t p) \<and> (\<exists>k < length bs. pipe_queue (pipes t p) = pipe_queue (pipes s p) @ take k bs) \<and> length (pipe_queue (pipes t p)) = 512
    | Panic m \<Rightarrow> False | Diverge \<Rightarrow> False)"
  by (rule conjI [OF piperead_outcome [OF assms(1-4,7)] pipewrite_outcome [OF assms(1-6)]])

text \<open>
  The pipe at 4096 holds three bytes, across the end of its buffer. Page directory and page table of the running process are at
  0x1000 and 0x2000 and map the page at 0 to the frame at 0x3000.
\<close>

definition kpipe_example :: kfile where
  "kpipe_example = kfile_example\<lparr>
     pipes := (\<lambda>_. \<lparr>pi_data = (replicate 512 0)[510 := 72, 511 := 105, 0 := 33], pi_nread = 510, pi_nwrite = 513, pi_readopen = True, pi_writeopen = True\<rparr>),
     mem := (\<lambda>_. 0)(0x80001000 := 7, 0x80001001 := 0x20, 0x80002000 := 7, 0x80002001 := 0x30), cr3 := 0x1000\<rparr>"

lemma kpipe_example_facts:
  "held kpipe_example = {}" "curproc kpipe_example = Some 0" "length (ptable kpipe_example) = 64"
  "pipe_ok (pipes kpipe_example p)" "pipe_queue (pipes kpipe_example p) = [72, 105, 33]"
proof -
  have "[0..<3] = [0, 1, 2]" by (simp add: upt_rec)
  then show "pipe_queue (pipes kpipe_example p) = [72, 105, 33]"
    by (simp add: kpipe_example_def pipe_queue_def pipe_count_def ring_list_def)
qed (simp_all add: kpipe_example_def kfile_example_facts pipe_ok_def pipe_count_def)

lemma kpipe_example_buffer: "buffer_ok kpipe_example (Addr 16) 3 (\<lambda>i. 0x80003010 + of_nat i)"
proof -
  have s: "{0..<3} = {0, 1, 2 :: nat}" by auto
  have "mmu (kpipe_example\<lparr>mem := m\<rparr>) True (16 + of_nat j) = Some (0x80003010 + of_nat j)"
    if m: "\<forall>x. x \<notin> (\<lambda>i. 0x80003010 + of_nat i) ` {0..<3} \<longrightarrow> m x = mem kpipe_example x" and j: "j \<in> {0..<3}" for m j
  proof -
    have "load32 m 0x80001000 = 0x2007" "load32 m 0x80002000 = 0x3007"
      using m by (simp_all add: load32_def s kpipe_example_def)
    then show ?thesis using j unfolding s by (auto simp: mmu_def kpipe_example_def Let_def PDX_def PTX_def P2V_def PTE_ADDR_def)
  qed
  then show ?thesis by (simp add: buffer_ok_def maps_def s inj_on_def)
qed

theorem pipe_fifo_witness:
  "\<exists>t buf. piperead 4096 (Addr 16) 10 kpipe_example = Ret (3, buf) t \<and> mem t 0x80003010 = 72 \<and> mem t 0x80003011 = 105 \<and> mem t 0x80003012 = 33 \<and>
     mem t 0x80003013 = 0 \<and> pipe_queue (pipes t 4096) = []"
proof -
  note f = kpipe_example_facts
  have b: "buffer_ok kpipe_example (Addr 16) (min (nat 10) (length (pipe_queue (pipes kpipe_example 4096)))) (\<lambda>i. 0x80003010 + of_nat i)"
    unfolding f(5) using kpipe_example_buffer by (simp add: numeral_3_eq_3)
  have c: "0 < length (ptable kpipe_example)" "length [7 :: byte] < 4294967296" by (simp_all add: f)
  have "map (src_byte kpipe_example (Bytes [7])) [0..<length [7 :: byte]] = map Some [7]" by (simp add: src_byte_def)
  note pf = pipe_fifo [OF f(4,1,2) c this b, THEN conjunct1, unfolded f(5)]
  obtain t buf where t: "piperead 4096 (Addr 16) 10 kpipe_example = Ret (3, buf) t" "delivered (Addr 16) (\<lambda>i. 0x80003010 + of_nat i) [72, 105, 33] buf (mem kpipe_example) (mem t)"
    "pipe_queue (pipes t 4096) = []"
    using pf by (auto split: outcome.splits)
  have "mem t 0x80003010 = 72" "mem t 0x80003011 = 105" "mem t 0x80003012 = 33"
    using t(2) by (simp_all add: delivered_def numeral_3_eq_3 All_less_Suc2)
  moreover have "mem t 0x80003013 = mem kpipe_example 0x80003013" using t(2) by (auto simp: delivered_def atLeast0_lessThan_Suc)
  ultimately show ?thesis using t(1,3) by (simp add: kpipe_example_def)
qed

text \<open>C26: No wake-up of a pipe is lost. In every state that a system around a pipe reaches from a good one by reads, writes that do not
  fail, closes of either end, continuations of processes that slept, and steps elsewhere, a process
  sleeps for data only if the pipe is empty and has a writer, and for room only if it is full and
  has a reader.\<close>

theorem pipe_no_lost_wakeup:
  assumes "rtranclp (pipe_step p) s t" "pipe_ok (pipes s p)" "none_lost p s"
  shows "pipe_ok (pipes t p) \<and> none_lost p t"
proof -
  have "pipe_inv p s" using assms(2,3) by (simp add: pipe_inv_def)
  with assms(1) have "pipe_inv p t" by (induction rule: rtranclp_induct) (auto intro: pipe_step_inv)
  then show ?thesis by (simp add: pipe_inv_def)
qed

theorem pipe_no_lost_wakeup_witness:
  "\<exists>t. piperead 4096 Local 10 kfile_example = Swtch t \<and> none_lost 4096 t"
proof -
  note f = kfile_example_facts
  obtain t where t: "piperead 4096 Local 10 kfile_example = Swtch t"
    using piperead_run [where s = kfile_example and p = 4096 and c = 0 and d = Local and n = 10] by (simp add: f)
  have "pipe_step 4096 kfile_example t"
    by (rule step_read [of 0 _ 4096 Local 10]) (simp_all add: ready_def leads_def f t)
  from pipe_no_lost_wakeup [OF r_into_rtranclp [of "pipe_step 4096", OF this]] t kfile_example_inv show ?thesis by (simp add: pipe_inv_def)
qed

text \<open>C27: The write that is left out above does lose a wake-up: if the writer is killed and its bytes do not fit, it fills the pipe
  and fails without waking the readers, who sleep on although the pipe is full.\<close>

theorem pipewrite_killed_loses_wakeup:
  assumes "pipe_ok (pipes s p)" "held s = {}" "curproc s = Some c" "c < length (ptable s)"
    "length bs < 4294967296" "map (src_byte s r) [0..<length bs] = map Some bs"
    "p_killed (ptable s ! c)" "pipe_count (pipes s p) + length bs > 512" "sleeping (chan_read p) (ptable s)"
  shows "\<exists>t. pipewrite p r (int (length bs)) s = Ret (-1) t \<and> pipe_count (pipes t p) = 512 \<and> sleeping (chan_read p) (ptable t)"
  using pipewrite_run [OF assms(1-6)] fold_put_full(3) [OF assms(1), of bs] assms(7-9) by (simp add: write_blocked_def)

theorem pipewrite_killed_loses_wakeup_witness:
  "\<exists>t. pipewrite 4096 (Bytes (replicate 513 1)) 513 (upd_proc 0 (\<lambda>q. q\<lparr>p_killed := True\<rparr>) kfile_example) = Ret (-1) t \<and>
     pipe_count (pipes t 4096) = 512 \<and> sleeping (chan_read 4096) (ptable t)"
proof -
  let ?s = "upd_proc 0 (\<lambda>q. q\<lparr>p_killed := True\<rparr>) kfile_example"
  have b: "map (src_byte ?s (Bytes (replicate 513 1))) [0..<length (replicate 513 (1 :: byte))] = map Some (replicate 513 1)"
    by (rule nth_equalityI) (simp_all add: src_byte_def)
  have p: "pipes ?s = pipes kfile_example" by (simp add: upd_proc_def)
  have k: "sleeping (chan_read 4096) (ptable ?s)" by (simp add: kfile_example_def sleeping_def)
  have "\<exists>t. pipewrite 4096 (Bytes (replicate 513 1)) (int (length (replicate 513 (1 :: byte)))) ?s = Ret (-1) t \<and>
     pipe_count (pipes t 4096) = 512 \<and> sleeping (chan_read 4096) (ptable t)"
    by (rule pipewrite_killed_loses_wakeup [where c = 0, OF _ _ _ _ _ b _ _ k]) (simp_all add: p kfile_example_facts)
  then show ?thesis by simp
qed

end
