(* ===== verification/Proc_Life.thy ===== *)
theory Proc_Life
  imports Proc_Props Pipe_Props
begin

text \<open>
  The end of a process: what \<open>wait\<close> gives back when it finds a zombie, and what \<open>kill\<close> leaves behind
  in the table.
\<close>

section \<open>Reaping\<close>

lemma freed_mem_same:
  assumes "page_ok s k"
  shows "mem_same (- {k}) s (freed k s)"
  unfolding mem_same_def freed_def using page_ok_aligned [OF assms]
  by (simp add: store32_other_page page_aligned4 PGROUNDDOWN_aligned memset_page)

lemma reap_run:
  fixes s :: "'z kproc_scheme" and i :: nat
  defines "k \<equiv> p_kstack (ptable s ! i)" and "pd \<equiv> p_pgdir (ptable s ! i)"
  assumes inv: "kmem_inv s xs" and wf: "as_wf s xs pd" and k: "page_ok s k" "k \<notin> set xs" "k \<notin> owned (mem s) pd"
    and lock: "L_ptable \<in> held s" and i: "i < length (ptable s)"
  shows "\<exists>t ys. reap i s = Ret (p_pid (ptable s ! i)) t \<and> held t = held s - {L_ptable} \<and> kmem_inv t ys \<and>
    set ys = insert k (set xs \<union> owned (mem s) pd) \<and> mem_same (- set ys) s t \<and>
    ptable t = (ptable s)[i := (ptable s ! i)\<lparr>p_kstack := 0, p_pid := 0, p_parent := None, p_name := (p_name (ptable s ! i))[0 := 0],
      p_killed := False, p_state := UNUSED\<rparr>]"
proof -
  let ?u = "freed k s" and ?f = "\<lambda>p. p\<lparr>p_kstack := 0\<rparr>"
  let ?v = "upd_proc i ?f ?u"
  have km: "L_kmem \<notin> held s" using inv by (simp add: kmem_inv_def)
  have ms: "mem_same (- {k}) s ?u" by (rule freed_mem_same [OF k(1)])
  have pt: "pt_same pd (mem s) (mem ?u)"
    using as_wfD(2) [OF wf] ms k(3) by (auto simp: pt_same_def mem_same_def owned_def)
  have po: "page_ok ?u = page_ok s" by (simp add: freed_def page_ok_def fun_eq_iff)
  have wf2: "as_wf s (k # xs) pd" by (rule as_wf_list [OF wf]) (use as_wf_parts(2) [OF wf] k(3) in auto)
  have wf3: "as_wf ?v (k # xs) pd" by (rule as_wf_same [OF _ _ wf2]) (use pt po in \<open>simp_all add: page_ok_def fun_eq_iff\<close>)
  have inv3: "kmem_inv ?v (k # xs)" using kmem_inv_freed [OF inv k(1,2)] by (subst kmem_inv_cong [of _ ?u]) simp_all
  have own: "owned (mem ?v) pd = owned (mem s) pd" using pt_same_simps [OF pt] by (simp add: owned_def)
  from freevm_run [OF inv3 wf3] obtain w ys where w: "freevm pd ?v = Ret () w" "kmem_inv w ys" "set ys = set (k # xs) \<union> owned (mem s) pd"
    "mem_same (- (set (k # xs) \<union> owned (mem s) pd)) ?v w" "w = ?v\<lparr>mem := mem w, freelist := freelist w\<rparr>" unfolding own by blast
  have hw: "held w = held s" "ptable w = ptable ?v" by (subst w(5), simp add: freed_def)+
  have pu: "ptable ?u = ptable s" "held ?u = held s" by (simp_all add: freed_def)
  let ?g = "\<lambda>p. p\<lparr>p_pid := 0, p_parent := None, p_name := (p_name p)[0 := 0], p_killed := False, p_state := UNUSED\<rparr>"
  let ?t = "(upd_proc i ?g w)\<lparr>held := held s - {L_ptable}\<rparr>"
  have run: "reap i s = Ret (p_pid (ptable s ! i)) ?t"
    using w(1) lock i kfree_run [OF k(1) km] hw pu
    by (simp add: reap_def bindK_def release_def k_def pd_def)
  have "kmem_inv ?t ys" using w(2) km hw(1) by (simp add: kmem_inv_def page_ok_def)
  moreover have "mem_same (- set ys) s ?t" using ms w(3,4) by (auto simp: mem_same_def)
  moreover have "ptable ?t = (ptable s)[i := ?g (?f (ptable s ! i))]" using i hw pu by simp
  ultimately show ?thesis using run w(3) by (intro exI [of _ ?t] exI [of _ ys]) simp
qed

section \<open>Properties\<close>

text \<open>C29: \<open>wait\<close> gives back everything a zombie child holds. When the running process has a zombie child, \<open>wait\<close> returns the
  number of the first one without sleeping; its kernel stack, its page directory, its page tables and
  its user pages are then free, no other page is freed or written to, its entry of the table is
  unused, and every other entry is unchanged.\<close>

theorem wait_reaps:
  assumes "curproc s = Some c" "L_ptable \<notin> held s"
    "find_idx (\<lambda>p. p_parent p = Some c \<and> p_state p = ZOMBIE) (ptable s) = Some i"
    "kmem_inv s xs" "as_wf s xs (p_pgdir (ptable s ! i))"
    "page_ok s (p_kstack (ptable s ! i))" "p_kstack (ptable s ! i) \<notin> set xs" "p_kstack (ptable s ! i) \<notin> owned (mem s) (p_pgdir (ptable s ! i))"
  shows "\<exists>t ys. wait s = Ret (p_pid (ptable s ! i)) t \<and> held t = held s \<and> kmem_inv t ys \<and>
    set ys = insert (p_kstack (ptable s ! i)) (set xs \<union> owned (mem s) (p_pgdir (ptable s ! i))) \<and> mem_same (- set ys) s t \<and>
    p_state (ptable t ! i) = UNUSED \<and> p_pid (ptable t ! i) = 0 \<and> \<not> p_killed (ptable t ! i) \<and> (\<forall>j. j \<noteq> i \<longrightarrow> ptable t ! j = ptable s ! j)"
proof -
  let ?u = "s\<lparr>held := insert L_ptable (held s)\<rparr>" and ?pd = "p_pgdir (ptable s ! i)"
  have i: "i < length (ptable s)" using find_idx_bound [OF assms(3)] .
  have inv: "kmem_inv ?u xs" using assms(4) by (simp add: kmem_inv_def page_ok_def)
  have wf: "as_wf ?u xs ?pd" by (rule as_wf_same [OF _ _ assms(5)]) (use as_wfD(2) [OF assms(5)] in \<open>simp_all add: pt_same_def page_ok_def fun_eq_iff\<close>)
  have run: "wait s = reap i ?u" using assms(1-3) by (simp add: wait_def with_myproc_def bind_acquire wait_loop_def)
  have "\<exists>t ys. reap i ?u = Ret (p_pid (ptable ?u ! i)) t \<and> held t = held ?u - {L_ptable} \<and> kmem_inv t ys \<and>
    set ys = insert (p_kstack (ptable ?u ! i)) (set xs \<union> owned (mem ?u) (p_pgdir (ptable ?u ! i))) \<and> mem_same (- set ys) ?u t \<and>
    ptable t = (ptable ?u)[i := (ptable ?u ! i)\<lparr>p_kstack := 0, p_pid := 0, p_parent := None, p_name := (p_name (ptable ?u ! i))[0 := 0],
      p_killed := False, p_state := UNUSED\<rparr>]"
    by (rule reap_run) (use inv wf assms(6-8) i in \<open>simp_all add: page_ok_def\<close>)
  then obtain t ys where t: "reap i ?u = Ret (p_pid (ptable s ! i)) t" "held t = held ?u - {L_ptable}" "kmem_inv t ys"
    "set ys = insert (p_kstack (ptable s ! i)) (set xs \<union> owned (mem s) ?pd)" "mem_same (- set ys) ?u t"
    "ptable t = (ptable s)[i := (ptable s ! i)\<lparr>p_kstack := 0, p_pid := 0, p_parent := None, p_name := (p_name (ptable s ! i))[0 := 0],
      p_killed := False, p_state := UNUSED\<rparr>]" by auto
  then show ?thesis using assms(2) i unfolding run by (intro exI [of _ t] exI [of _ ys]) (simp add: mem_same_def)
qed

text \<open>A process without user pages that has exited, as a child of the running process.\<close>

definition zombie_example :: kfile where
  "zombie_example = kfile_example\<lparr>kend := 0x80115000, ptable := (ptable kfile_example)[1 := proc_zero\<lparr>p_state := ZOMBIE, p_pid := 2,
     p_parent := Some 0, p_kstack := 0x80203000, p_pgdir := 0x80200000\<rparr>]\<rparr>"

theorem wait_reaps_witness:
  "\<exists>t ys. wait zombie_example = Ret 2 t \<and> kmem_inv t ys \<and> set ys = {0x80200000, 0x80203000} \<and> p_state (ptable t ! 1) = UNUSED"
proof -
  have pt: "ptable zombie_example ! 1 = proc_zero\<lparr>p_state := ZOMBIE, p_pid := 2, p_parent := Some 0, p_kstack := 0x80203000, p_pgdir := 0x80200000\<rparr>"
    by (simp add: zombie_example_def kfile_example_def)
  have f: "find_idx (\<lambda>p. p_parent p = Some 0 \<and> p_state p = ZOMBIE) (ptable zombie_example) = Some 1"
    by (simp add: zombie_example_def kfile_example_def proc_zero_def)
  have k: "kmem_inv zombie_example []" "page_ok zombie_example 0x80200000" "page_ok zombie_example 0x80203000" "zero_page (mem zombie_example) 0x80200000"
    by (simp_all add: kmem_inv_def zombie_example_def kfile_example_def page_ok_def V2P_def zero_page_def)
  note E = empty_directory [OF k(1,2) _ k(4)]
  have c: "curproc zombie_example = Some 0" "held zombie_example = {}" by (simp_all add: zombie_example_def kfile_example_def)
  show ?thesis using wait_reaps [OF c(1) _ f k(1)] k(3) E c(2) unfolding pt by (fastforce simp: insert_commute)
qed

text \<open>C30: \<open>kill(0)\<close> kills a process that does not exist yet. The number 0 is that of an unused entry; \<open>kill\<close> marks it and reports
  success, \<open>allocproc\<close> does not clear the mark, and the next process that is created there has been
  killed before it runs.\<close>

theorem kill_zero_poisons:
  assumes "kmem_inv s (k # ys)" "L_ptable \<notin> held s"
    "find_idx (\<lambda>p. p_pid p = 0) (ptable s) = Some i" "find_idx (\<lambda>p. p_state p = UNUSED) (ptable s) = Some i"
  shows "\<exists>t u. kill 0 s = Ret 0 t \<and> allocproc t = Ret (Some i) u \<and> p_state (ptable u ! i) = EMBRYO \<and> p_killed (ptable u ! i)"
proof -
  let ?t = "upd_proc i (\<lambda>p. p\<lparr>p_killed := True\<rparr>) s"
  have i: "i < length (ptable s)" "p_state (ptable s ! i) = UNUSED" using find_idx_SomeD [OF assms(4)] by auto
  have "(\<lambda>p. if p_state p = SLEEPING then p\<lparr>p_state := RUNNABLE\<rparr> else p) ((ptable s ! i)\<lparr>p_killed := True\<rparr>) = (ptable s ! i)\<lparr>p_killed := True\<rparr>"
    using i(2) by simp
  then have kl: "kill 0 s = Ret 0 ?t"
    using assms(2,3) i by (simp add: kill_def bind_acquire bind_release) (simp add: upd_proc_def)
  have m: "map p_state (ptable ?t) = map p_state (ptable s)" by (simp add: map_update) (metis i(1) list_update_id map_update nth_map)
  have fi: "find_idx P (map f xs) = find_idx (\<lambda>x. P (f x)) xs" for P and f :: "proc \<Rightarrow> procstate" and xs by (induction xs) simp_all
  have f: "find_idx (\<lambda>p. p_state p = UNUSED) (ptable ?t) = Some i"
    using assms(4) m fi [of "\<lambda>x. x = UNUSED" p_state] by metis
  have inv: "kmem_inv ?t (k # ys)" using assms(1) by (subst kmem_inv_cong [of _ s]) simp_all
  have lk: "L_ptable \<notin> held ?t" using assms(2) by simp
  show ?thesis
    by (rule allocproc_run [OF inv lk]) (use f kl i(1) in \<open>auto simp: new_proc_def\<close>)
qed

theorem kill_zero_poisons_witness:
  "let s = kfile_example\<lparr>kend := 0x80115000, freelist := 0x80300000\<rparr>
   in \<exists>t u. kill 0 s = Ret 0 t \<and> allocproc t = Ret (Some 2) u \<and> p_killed (ptable u ! 2)"
proof -
  let ?s = "kfile_example\<lparr>kend := 0x80115000, freelist := 0x80300000\<rparr>"
  have "kmem_inv ?s [0x80300000]" by (simp add: kmem_inv_def kfile_example_def page_ok_def V2P_def)
  moreover have "find_idx (\<lambda>p. p_pid p = 0) (ptable ?s) = Some 2" "find_idx (\<lambda>p. p_state p = UNUSED) (ptable ?s) = Some 2"
    by (simp_all add: kfile_example_def proc_zero_def numeral_eq_Suc)
  ultimately show ?thesis using kill_zero_poisons [of ?s "0x80300000" "[]" 2] by (auto simp: Let_def kfile_example_facts)
qed

end
