(* ===== verification/Path_Props.thy ===== *)
theory Path_Props
  imports Fs Proc_Props
begin

text \<open>
  Paths are lists of names. \<open>path_elems\<close> splits a path at its slashes; \<open>walk\<close> is the loop of
  \<open>namex\<close> over such a list, and \<open>namex_loop\<close> is shown to be \<open>walk\<close> over the names of its path.
\<close>

fun split_path :: "byte list \<Rightarrow> byte list list" where
  "split_path [] = [[]]"
| "split_path (c # cs) =
     (case split_path cs of
        [] \<Rightarrow> []
      | e # es \<Rightarrow> if c = 47 then [] # e # es else (c # e) # es)"

text \<open>The names of a path: the parts between slashes that are not empty, cut off after 14 characters.\<close>

definition path_elems :: "byte list \<Rightarrow> byte list list" where
  "path_elems path = map (take DIRSIZ) (filter (\<lambda>e. e \<noteq> []) (split_path path))"

fun walk :: "byte list list \<Rightarrow> nat \<Rightarrow> bool \<Rightarrow> byte list \<Rightarrow> ('z kcons_scheme, (nat \<times> byte list) option) kop" where
  "walk [] ip par nm = (if par then bindK (iput ip) (\<lambda>_. retK None) else retK (Some (ip, nm)))"
| "walk (name # names) ip par nm =
     bindK (ilock ip) (\<lambda>_.
     bindK (getK (\<lambda>s. i_type (icache s ! ip))) (\<lambda>t.
     if t \<noteq> T_DIR then bindK (iunlockput ip) (\<lambda>_. retK None)
     else if par \<and> names = [] then bindK (iunlock ip) (\<lambda>_. retK (Some (ip, name)))
     else
       bindK (dirlookup ip name) (\<lambda>r.
       case r of
         None \<Rightarrow> bindK (iunlockput ip) (\<lambda>_. retK None)
       | Some (nxt, off) \<Rightarrow> bindK (iunlockput ip) (\<lambda>_. walk names nxt par name))))"

section \<open>Splitting\<close>

lemma split_path_ne: "split_path p \<noteq> []"
  by (induction p) (auto split: list.splits)

lemma split_path_Cons: "split_path (c # cs) = (if c = 47 then [] # split_path cs else (c # hd (split_path cs)) # tl (split_path cs))"
  using split_path_ne [of cs] by (cases "split_path cs") auto

lemma path_elems_slash: "path_elems (47 # p) = path_elems p"
  using split_path_ne [of p] by (simp add: path_elems_def split_path_Cons del: split_path.simps)

lemma path_elems_dropWhile: "path_elems (dropWhile (\<lambda>c. c = 47) p) = path_elems p"
  by (induction p) (simp_all add: path_elems_slash)

lemma split_path_word:
  "split_path p = takeWhile (\<lambda>c. c \<noteq> 47) p # (case dropWhile (\<lambda>c. c \<noteq> 47) p of [] \<Rightarrow> [] | _ # q \<Rightarrow> split_path q)"
  by (induction p) (auto simp: split_path_Cons simp del: split_path.simps(2) split: list.splits)

lemma path_elems_skipelem:
  "path_elems path = (case skipelem path of None \<Rightarrow> [] | Some (name, rest) \<Rightarrow> name # path_elems rest)"
proof -
  define p where "p = dropWhile (\<lambda>c. c = 47) path"
  have e: "path_elems path = path_elems p" by (simp add: p_def path_elems_dropWhile)
  show ?thesis
  proof (cases "p = []")
    case True
    then show ?thesis using e by (simp add: skipelem_def p_def [symmetric] path_elems_def)
  next
    case False
    then have ne: "takeWhile (\<lambda>c. c \<noteq> 47) p \<noteq> []" using hd_dropWhile [of "\<lambda>c. c = 47" path] by (cases p) (auto simp: p_def)
    let ?d = "dropWhile (\<lambda>c. c \<noteq> 47) p"
    have "path_elems p = take DIRSIZ (takeWhile (\<lambda>c. c \<noteq> 47) p) # path_elems ?d"
    proof (cases ?d)
      case Nil
      have "split_path p = [takeWhile (\<lambda>c. c \<noteq> 47) p]" using split_path_word [of p] unfolding Nil by simp
      then show ?thesis unfolding Nil using ne by (simp add: path_elems_def)
    next
      case (Cons c q)
      then have "c = 47" using hd_dropWhile [of "\<lambda>c. c \<noteq> 47" p] by simp
      then have "split_path p = takeWhile (\<lambda>c. c \<noteq> 47) p # split_path q" "path_elems ?d = path_elems q"
        using split_path_word [of p] path_elems_slash [of q] unfolding Cons by simp_all
      then show ?thesis using ne by (simp add: path_elems_def)
    qed
    then show ?thesis using e False by (simp add: skipelem_def p_def [symmetric] Let_def path_elems_dropWhile)
  qed
qed

text \<open>What \<open>skipelem\<close> leaves is empty exactly if no names are left.\<close>

lemma skipelem_last: "skipelem path = Some (name, rest) \<Longrightarrow> path_elems rest = [] \<longleftrightarrow> rest = []"
proof -
  assume a: "skipelem path = Some (name, rest)"
  then obtain q where q: "rest = dropWhile (\<lambda>c. c = 47) q" by (auto simp: skipelem_def Let_def split: if_splits)
  have "skipelem rest = None \<longleftrightarrow> rest = []" by (simp add: skipelem_def Let_def q)
  then show ?thesis using path_elems_skipelem [of rest] by (auto split: option.splits)
qed

section \<open>Properties\<close>

text \<open>C31: A path is looked up name by name. For every path, also with repeated, leading or trailing slashes and with names that are too
  long, \<open>namex\<close> does the same as walking down the list of the names between the slashes, each cut off
  after 14 characters: two spellings with the same names lead to the same inode.\<close>

theorem namex_walks: "(namex_loop path ip par nm :: ('z kcons_scheme, (nat \<times> byte list) option) kop) = walk (path_elems path) ip par nm"
proof (induction path ip par nm rule: namex_loop.induct)
  case (1 path ip par nm)
  show ?case
  proof (cases "skipelem path")
    case None
    then show ?thesis by (subst namex_loop.simps) (simp add: path_elems_skipelem [of path])
  next
    case (Some nr)
    obtain name rest where nr: "nr = (name, rest)" by (cases nr)
    have e: "path_elems path = name # path_elems rest" using Some nr by (simp add: path_elems_skipelem [of path])
    have ih: "(namex_loop rest nxt par name :: ('z kcons_scheme, (nat \<times> byte list) option) kop) = walk (path_elems rest) nxt par name" if "\<not> (par \<and> rest = [])" for nxt
      by (rule 1 [OF Some [unfolded nr] refl, of T_DIR]) (use that in simp_all)
    show ?thesis
    proof (cases "par \<and> rest = []")
      case True
      then show ?thesis unfolding e using Some nr skipelem_last [of path name rest] by (subst namex_loop.simps) (simp cong: if_cong)
    next
      case False
      then have "\<not> (par \<and> path_elems rest = [])" using skipelem_last [of path name rest] Some nr by simp
      then show ?thesis unfolding e using False Some nr by (subst namex_loop.simps) (simp only: ih [OF False] walk.simps option.case prod.case if_False)
    qed
  qed
qed

end
