(* ===== verification/Ide.thy ===== *)
theory Ide
  imports Sleeplock_Props Bio
begin

text \<open>
  The driver of the real disk, \<^verbatim>\<open>ide.c\<close>. (The file system is modelled on the memory disk of
  \<^verbatim>\<open>memide.c\<close>, which offers the same three functions; those of this theory carry the prefix
  \<open>pio\<close>.) Requests wait in a list of buffers linked by \<^verbatim>\<open>qnext\<close>; the first one is the one the disk
  works on. The controller is seen through its ports: \<open>ports\<close> is what the driver has written to
  them, in order, \<open>status\<close> are the answers that reading the status port will give, and \<open>data_in\<close> is
  what the data port delivers at the \<open>n\<close>-th transfer.
\<close>

datatype pio = Outb u16 byte | Outsl u16 "byte list"

record kide = kbio +
  idequeue :: "nat option"
  qnext :: "nat \<Rightarrow> nat option"
  havedisk1 :: bool
  ports :: "pio list"
  status :: "byte list"
  data_in :: "nat \<Rightarrow> byte list"
  transfers :: nat

abbreviation (input) FSSIZE :: u32 where "FSSIZE \<equiv> 1000"

definition outb :: "u16 \<Rightarrow> byte \<Rightarrow> ('z kide_scheme, unit) kop" where
  "outb p x = modK (\<lambda>s. s\<lparr>ports := ports s @ [Outb p x]\<rparr>)"

text \<open>Reading the status port. A controller that answers no more is waited for forever.\<close>

definition in_status :: "('z kide_scheme, byte) kop" where
  "in_status s = (case status s of [] \<Rightarrow> Diverge | r # rs \<Rightarrow> Ret r (s\<lparr>status := rs\<rparr>))"

definition disk_ready :: "byte \<Rightarrow> bool" where
  "disk_ready r \<longleftrightarrow> r AND (0x80 OR 0x40) = 0x40"

fun idewait_loop :: "byte list \<Rightarrow> (byte \<times> byte list) option" where
  "idewait_loop [] = None"
| "idewait_loop (r # rs) = (if disk_ready r then Some (r, rs) else idewait_loop rs)"

definition idewait :: "bool \<Rightarrow> ('z kide_scheme, int) kop" where
  "idewait checkerr s =
     (case idewait_loop (status s) of
        None \<Rightarrow> Diverge
      | Some (r, rs) \<Rightarrow>
          Ret (if checkerr \<and> r AND (0x20 OR 0x01) \<noteq> 0 then -1 else 0) (s\<lparr>status := rs\<rparr>))"

text \<open>The search for disk 1: at most 1000 answers of the status port; \<open>ioapicenable\<close> only programs the interrupt controller.\<close>

fun probe_disk1 :: "nat \<Rightarrow> ('z kide_scheme, unit) kop" where
  "probe_disk1 0 = retK ()"
| "probe_disk1 (Suc i) =
     bindK in_status (\<lambda>r. if r \<noteq> 0 then modK (\<lambda>s. s\<lparr>havedisk1 := True\<rparr>) else probe_disk1 i)"

definition pio_ideinit :: "('z kide_scheme, unit) kop" where
  "pio_ideinit =
     bindK (modK (\<lambda>s. s\<lparr>held := held s - {L_ide}\<rparr>)) (\<lambda>_.
     bindK (idewait False) (\<lambda>_.
     bindK (outb 0x1f6 (0xe0 OR push_bit 4 1)) (\<lambda>_.
     bindK (probe_disk1 1000) (\<lambda>_.
     outb 0x1f6 (0xe0 OR push_bit 4 0)))))"

text \<open>The part of \<open>idestart\<close> after the checks: \<^verbatim>\<open>sector_per_block\<close> is \<^verbatim>\<open>BSIZE/SECTOR_SIZE = 1\<close>.\<close>

definition request :: "buf \<Rightarrow> pio list" where
  "request p =
     (let sector = b_blockno p
      in [Outb 0x3f6 0, Outb 0x1f2 1, Outb 0x1f3 (ucast (sector AND 0xff)), Outb 0x1f4 (ucast (drop_bit 8 sector AND 0xff)),
          Outb 0x1f5 (ucast (drop_bit 16 sector AND 0xff)),
          Outb 0x1f6 (0xe0 OR push_bit 4 (ucast (b_dev p AND 1)) OR ucast (drop_bit 24 sector AND 0x0f))] @
         (if b_dirty p then [Outb 0x1f7 0x30, Outsl 0x1f0 (b_data p)] else [Outb 0x1f7 0x20]))"

definition idestart :: "nat option \<Rightarrow> ('z kide_scheme, unit) kop" where
  "idestart q =
     (case q of
        None \<Rightarrow> panicK ''idestart''
      | Some b \<Rightarrow>
          bindK (getK (\<lambda>s. bufs s ! b)) (\<lambda>p.
          if b_blockno p \<ge> FSSIZE then panicK ''incorrect blockno''
          else
            bindK (idewait False) (\<lambda>_.
            modK (\<lambda>s. s\<lparr>ports := ports s @ request p\<rparr>))))"

definition pio_ideintr :: "('z kide_scheme, unit) kop" where
  "pio_ideintr =
     bindK (acquire L_ide) (\<lambda>_.
     bindK (getK idequeue) (\<lambda>q.
     case q of
       None \<Rightarrow> release L_ide
     | Some b \<Rightarrow>
         bindK (modK (\<lambda>s. s\<lparr>idequeue := qnext s b\<rparr>)) (\<lambda>_.
         bindK (getK (\<lambda>s. b_dirty (bufs s ! b))) (\<lambda>dirty.
         bindK (if dirty then retK False else bindK (idewait True) (\<lambda>r. retK (r \<ge> 0))) (\<lambda>rd.
         bindK (whenK rd (modK (\<lambda>s. (upd_buf b (\<lambda>p. p\<lparr>b_data := data_in s (transfers s)\<rparr>) s)\<lparr>transfers := transfers s + 1\<rparr>))) (\<lambda>_.
         bindK (modK (upd_buf b (\<lambda>p. p\<lparr>b_valid := True\<rparr>))) (\<lambda>_.
         bindK (modK (upd_buf b (\<lambda>p. p\<lparr>b_dirty := False\<rparr>))) (\<lambda>_.
         bindK (wakeup (ChanBuf b)) (\<lambda>_.
         bindK (getK idequeue) (\<lambda>q2.
         bindK (whenK (q2 \<noteq> None) (idestart q2)) (\<lambda>_.
         release L_ide)))))))))))"

text \<open>The loop that finds the end of the list: the buffer whose \<^verbatim>\<open>qnext\<close> is null. The bound is above the number of buffers.\<close>

fun last_link :: "nat \<Rightarrow> (nat \<Rightarrow> nat option) \<Rightarrow> nat \<Rightarrow> nat option" where
  "last_link 0 nx b = None"
| "last_link (Suc n) nx b = (case nx b of None \<Rightarrow> Some b | Some c \<Rightarrow> last_link n nx c)"

definition append_request :: "nat \<Rightarrow> ('z kide_scheme, unit) kop" where
  "append_request b =
     bindK (modK (\<lambda>s. s\<lparr>qnext := (qnext s)(b := None)\<rparr>)) (\<lambda>_.
     bindK (getK idequeue) (\<lambda>q.
     case q of
       None \<Rightarrow> modK (\<lambda>s. s\<lparr>idequeue := Some b\<rparr>)
     | Some h \<Rightarrow>
         bindK (getK (\<lambda>s. last_link (NBUF + 1) (qnext s) h)) (\<lambda>l.
         case l of None \<Rightarrow> divergeK | Some e \<Rightarrow> modK (\<lambda>s. s\<lparr>qnext := (qnext s)(e := Some b)\<rparr>))))"

definition iderw_wait :: "nat \<Rightarrow> ('z kide_scheme, unit) kop" where
  "iderw_wait b =
     bindK (getK (\<lambda>s. bufs s ! b)) (\<lambda>p.
     if \<not> (b_valid p \<and> \<not> b_dirty p) then sleep (ChanBuf b) L_ide else release L_ide)"

definition pio_iderw :: "nat \<Rightarrow> ('z kide_scheme, unit) kop" where
  "pio_iderw b =
     bindK (holdingsleep (BufLock b)) (\<lambda>h.
     if \<not> h then panicK ''iderw: buf not locked''
     else bindK (getK (\<lambda>s. bufs s ! b)) (\<lambda>p.
     if b_valid p \<and> \<not> b_dirty p then panicK ''iderw: nothing to do''
     else bindK (getK havedisk1) (\<lambda>d1.
     if b_dev p \<noteq> 0 \<and> \<not> d1 then panicK ''iderw: ide disk 1 not present''
     else
       bindK (acquire L_ide) (\<lambda>_.
       bindK (append_request b) (\<lambda>_.
       bindK (getK (\<lambda>s. idequeue s = Some b)) (\<lambda>first.
       bindK (whenK first (idestart (Some b))) (\<lambda>_.
       iderw_wait b)))))))"

definition pio_iderw_return :: "nat \<Rightarrow> nat \<Rightarrow> ('z kide_scheme, unit) kop" where
  "pio_iderw_return c b = bindK (sleep_return c L_ide) (\<lambda>_. iderw_wait b)"

section \<open>The queue\<close>

fun linked :: "(nat \<Rightarrow> nat option) \<Rightarrow> nat option \<Rightarrow> nat list \<Rightarrow> bool" where
  "linked nx p [] \<longleftrightarrow> p = None"
| "linked nx p (b # bs) \<longleftrightarrow> p = Some b \<and> linked nx (nx b) bs"

text \<open>\<open>qs\<close> are the requests in the queue: different buffers that have to be read or written, of a block of the disk.\<close>

definition ide_queue :: "'z kide_scheme \<Rightarrow> nat list \<Rightarrow> bool" where
  "ide_queue s qs \<longleftrightarrow> linked (qnext s) (idequeue s) qs \<and> distinct qs \<and> length (bufs s) = 31 \<and>
     (\<forall>b \<in> set qs. b < 30 \<and> b_blockno (bufs s ! b) < FSSIZE \<and> \<not> (b_valid (bufs s ! b) \<and> \<not> b_dirty (bufs s ! b)))"

lemma linked_cong: "(\<And>b. b \<in> set qs \<Longrightarrow> nx' b = nx b) \<Longrightarrow> linked nx' p qs = linked nx p qs"
  by (induction qs arbitrary: p) auto

lemma last_link_end:
  "linked nx (Some h) qs \<Longrightarrow> length qs \<le> n \<Longrightarrow> last_link n nx h = Some (last qs)"
proof (induction qs arbitrary: h n)
  case (Cons b bs)
  then show ?case by (cases n; cases bs) auto
qed simp

lemma linked_append:
  assumes "linked nx p qs" "distinct qs" "qs \<noteq> []" "b \<notin> set qs" "nx b = None"
  shows "linked (nx(last qs := Some b)) p (qs @ [b])"
  using assms
proof (induction qs arbitrary: p)
  case (Cons c cs)
  show ?case
  proof (cases "cs = []")
    case True
    then show ?thesis using Cons.prems by auto
  next
    case False
    then have "c \<noteq> last cs" using Cons.prems(2) last_in_set [OF False] by auto
    then show ?thesis using Cons False by auto
  qed
qed simp

lemma queue_length: "distinct (qs :: nat list) \<Longrightarrow> (\<And>b. b \<in> set qs \<Longrightarrow> b < 30) \<Longrightarrow> length qs \<le> 30"
  using distinct_card [of qs] card_mono [of "{..<30}" "set qs"] by (auto simp: subset_iff)

lemma ide_queueD:
  assumes "ide_queue s qs"
  shows "linked (qnext s) (idequeue s) qs" "distinct qs" "length (bufs s) = 31" "length qs \<le> 30"
    "\<And>b. b \<in> set qs \<Longrightarrow> b < 30 \<and> b_blockno (bufs s ! b) < FSSIZE \<and> \<not> (b_valid (bufs s ! b) \<and> \<not> b_dirty (bufs s ! b))"
  using assms queue_length [of qs] by (auto simp: ide_queue_def)

lemma idewait_loop_ready:
  "Suc n \<le> length (filter disk_ready rs) \<Longrightarrow>
     \<exists>r rs'. idewait_loop rs = Some (r, rs') \<and> disk_ready r \<and> n \<le> length (filter disk_ready rs')"
  by (induction rs) auto

section \<open>A request\<close>

lemma append_request_run:
  assumes q: "ide_queue s qs" and b: "b \<notin> set qs"
  shows "\<exists>nx. append_request b s = Ret () (s\<lparr>qnext := nx, idequeue := (if qs = [] then Some b else idequeue s)\<rparr>) \<and>
    linked nx (if qs = [] then Some b else idequeue s) (qs @ [b])"
proof -
  note Q = ide_queueD [OF q]
  let ?n = "(qnext s)(b := None)"
  have l: "linked ?n (idequeue s) qs" using Q(1) b by (subst linked_cong [of _ _ "qnext s"]) auto
  show ?thesis
  proof (cases qs)
    case Nil
    then show ?thesis using Q(1) by (intro exI [of _ ?n]) (simp add: append_request_def)
  next
    case (Cons h hs)
    then have h: "idequeue s = Some h" using Q(1) by simp
    have "last_link 31 ?n h = Some (last qs)" by (rule last_link_end) (use l h Q(4) in simp_all)
    moreover have "linked (?n(last qs := Some b)) (idequeue s) (qs @ [b])"
      by (rule linked_append [OF l Q(2) _ b]) (simp_all add: Cons)
    ultimately show ?thesis using h Cons by (intro exI [of _ "?n(last qs := Some b)"]) (simp add: append_request_def)
  qed
qed

lemma pio_iderw_run:
  fixes s :: "'z kide_scheme"
  assumes q: "ide_queue s qs" and b: "b \<notin> set qs" "b < 30" "b_blockno (bufs s ! b) < FSSIZE" "\<not> (b_valid (bufs s ! b) \<and> \<not> b_dirty (bufs s ! b))"
    "b_dev (bufs s ! b) = 0 \<or> havedisk1 s"
    and lk: "sl_locked (slocks s (BufLock b))" "sl_pid (slocks s (BufLock b)) = p_pid (ptable s ! c)"
    and c: "curproc s = Some c" "c < length (ptable s)" "held s = {}" and st: "1 \<le> length (filter disk_ready (status s))"
  shows "\<exists>t. pio_iderw b s = Swtch t \<and> ide_queue t (qs @ [b]) \<and> bufs t = bufs s \<and>
    ports t = ports s @ (if qs = [] then request (bufs s ! b) else []) \<and>
    p_state (ptable t ! c) = SLEEPING \<and> p_chan (ptable t ! c) = Some (ChanBuf b) \<and> held t = {L_ptable}"
proof -
  let ?u = "s\<lparr>held := {L_ide}\<rparr>"
  have "ide_queue ?u qs" "idequeue ?u = idequeue s" using q by (simp_all add: ide_queue_def)
  from append_request_run [OF this(1) b(1)] this(2)
  obtain nx where ap: "append_request b ?u = Ret () (?u\<lparr>qnext := nx, idequeue := (if qs = [] then Some b else idequeue s)\<rparr>)"
    and ln: "linked nx (if qs = [] then Some b else idequeue s) (qs @ [b])" by metis
  let ?v = "?u\<lparr>qnext := nx, idequeue := (if qs = [] then Some b else idequeue s)\<rparr>"
  obtain r rs where w: "idewait_loop (status s) = Some (r, rs)" using idewait_loop_ready [of 0 "status s"] st by auto
  let ?w = "if qs = [] then ?v\<lparr>status := rs, ports := ports s @ request (bufs s ! b)\<rparr> else ?v"
  have fq: "(if qs = [] then Some b else idequeue s) = Some b \<longleftrightarrow> qs = []"
    using ide_queueD(1) [OF q] b(1) by (cases qs) auto
  have stt: "idestart (Some b) ?v = Ret () (?v\<lparr>status := rs, ports := ports s @ request (bufs s ! b)\<rparr>)"
    using b(3) w by (simp add: idestart_def idewait_def bindK_def)
  have hs: "holdingsleep (BufLock b) s = Ret True s"
    using lk c by (simp add: holdingsleep_def bindK_def acquire_def release_def with_myproc_def)
  have sl: "sleep (ChanBuf b) L_ide ?w = (Swtch :: _ \<Rightarrow> ('z kide_scheme, unit) outcome)
      (upd_proc c (\<lambda>p. p\<lparr>p_chan := Some (ChanBuf b), p_state := SLEEPING\<rparr>) (?w\<lparr>held := {L_ptable}\<rparr>))"
    by (rule sleep_run) (use c in simp_all)
  have bw: "bufs ?w = bufs s" by simp
  have "pio_iderw b s = Swtch (upd_proc c (\<lambda>p. p\<lparr>p_chan := Some (ChanBuf b), p_state := SLEEPING\<rparr>) (?w\<lparr>held := {L_ptable}\<rparr>))"
    using b(4,5) c sl stt fq by (cases "qs = []") (auto simp: pio_iderw_def bindK_Ret [where m = "holdingsleep (BufLock b)", OF hs] bind_acquire bindK_Ret [where m = "append_request b", OF ap] bindK_Ret [where m = "idestart (Some b)"] iderw_wait_def)
  moreover have "ide_queue (upd_proc c (\<lambda>p. p\<lparr>p_chan := Some (ChanBuf b), p_state := SLEEPING\<rparr>) (?w\<lparr>held := {L_ptable}\<rparr>)) (qs @ [b])"
    using ide_queueD [OF q] b ln by (auto simp: ide_queue_def upd_proc_def)
  ultimately show ?thesis using c by (auto simp: upd_proc_def)
qed

section \<open>An interrupt\<close>

text \<open>The error bits of the first answer with which the disk is ready.\<close>

definition disk_error :: "byte list \<Rightarrow> bool" where
  "disk_error rs \<longleftrightarrow> (case idewait_loop rs of None \<Rightarrow> False | Some (r, _) \<Rightarrow> r AND (0x20 OR 0x01) \<noteq> 0)"

definition served :: "'z kide_scheme \<Rightarrow> buf \<Rightarrow> buf" where
  "served s p =
     p\<lparr>b_data := if b_dirty p \<or> disk_error (status s) then b_data p else data_in s (transfers s), b_valid := True, b_dirty := False\<rparr>"

lemma upd_buf_ide [simp]:
  "idequeue (upd_buf b f s) = idequeue s" "qnext (upd_buf b f s) = qnext s" "ports (upd_buf b f s) = ports s" "status (upd_buf b f s) = status s"
  "held (upd_buf b f s) = held s" "ptable (upd_buf b f s) = ptable s" "bufs (upd_buf b f s) = (bufs s)[b := f (bufs s ! b)]"
  "data_in (upd_buf b f s) = data_in s" "transfers (upd_buf b f s) = transfers s"
  by (simp_all add: upd_buf_def)

lemma bindK_retK [simp]: "bindK (retK a) f s = f a s"
  by (simp add: bindK_def)

text \<open>The first half of the interrupt, up to the wake-up.\<close>

lemma pio_ideintr_first:
  fixes s :: "'z kide_scheme"
  assumes "Suc n \<le> length (filter disk_ready (status s))" "b < length (bufs s)" "L_ptable \<notin> held s"
  shows "\<exists>t. bindK (if b_dirty (bufs s ! b) then retK False else bindK (idewait True) (\<lambda>r. retK (r \<ge> 0))) (\<lambda>rd.
         bindK (whenK rd (modK (\<lambda>s. (upd_buf b (\<lambda>p. p\<lparr>b_data := data_in s (transfers s)\<rparr>) s)\<lparr>transfers := transfers s + 1\<rparr>))) (\<lambda>_.
         bindK (modK (upd_buf b (\<lambda>p. p\<lparr>b_valid := True\<rparr>))) (\<lambda>_.
         bindK (modK (upd_buf b (\<lambda>p. p\<lparr>b_dirty := False\<rparr>))) (\<lambda>_.
         bindK (wakeup (ChanBuf b)) k)))) s = k () t \<and>
    bufs t = (bufs s)[b := served s (bufs s ! b)] \<and> ptable t = map (wake (Some (ChanBuf b))) (ptable s) \<and> held t = held s \<and>
    idequeue t = idequeue s \<and> qnext t = qnext s \<and> ports t = ports s \<and> n \<le> length (filter disk_ready (status t))"
proof -
  obtain r rs where w: "idewait_loop (status s) = Some (r, rs)" "disk_ready r" "n \<le> length (filter disk_ready rs)"
    using idewait_loop_ready [OF assms(1)] by blast
  have wk: "wakeup (ChanBuf b) x = Ret () (woken (ChanBuf b) x)" if "held x = held s" for x :: "'z kide_scheme"
    using that assms(3) by (simp add: wakeup_run)
  have e: "disk_error (status s) \<longleftrightarrow> r AND (0x20 OR 0x01) \<noteq> 0" by (simp add: disk_error_def w(1))
  have n: "n \<le> length (filter disk_ready (status s))" using assms(1) by simp
  let ?clean = "\<lambda>x. upd_buf b (\<lambda>p. p\<lparr>b_dirty := False\<rparr>) (upd_buf b (\<lambda>p. p\<lparr>b_valid := True\<rparr>) x)"
  consider "b_dirty (bufs s ! b)" | "\<not> b_dirty (bufs s ! b)" "disk_error (status s)" | "\<not> b_dirty (bufs s ! b)" "\<not> disk_error (status s)" by blast
  then show ?thesis
  proof cases
    case 1
    then show ?thesis using assms(2) n
      by (intro exI [of _ "woken (ChanBuf b) (?clean s)"]) (simp add: bindK_Ret [OF wk] served_def woken_def)
  next
    case 2
    then have "idewait True s = Ret (-1) (s\<lparr>status := rs\<rparr>)" using w(1) e by (simp add: idewait_def)
    then show ?thesis using 2 assms(2) w(3)
      by (intro exI [of _ "woken (ChanBuf b) (?clean (s\<lparr>status := rs\<rparr>))"]) (simp add: bindK_Ret [OF wk] bindK_Ret [where m = "idewait True"] bindK_assoc served_def woken_def)
  next
    case 3
    let ?d = "\<lambda>x. (upd_buf b (\<lambda>p. p\<lparr>b_data := data_in s (transfers s)\<rparr>) x)\<lparr>transfers := transfers s + 1\<rparr>"
    have "idewait True s = Ret 0 (s\<lparr>status := rs\<rparr>)" using w(1) e 3 by (simp add: idewait_def)
    then show ?thesis using 3 assms(2) w(3)
      by (intro exI [of _ "woken (ChanBuf b) (?clean (?d (s\<lparr>status := rs\<rparr>)))"]) (simp add: bindK_Ret [OF wk] bindK_Ret [where m = "idewait True"] bindK_assoc served_def woken_def)
  qed
qed

lemma pio_ideintr_run:
  fixes s :: "'z kide_scheme"
  assumes q: "ide_queue s (b # qs)" and h: "held s = {}" and st: "2 \<le> length (filter disk_ready (status s))"
  shows "\<exists>t. pio_ideintr s = Ret () t \<and> ide_queue t qs \<and> bufs t = (bufs s)[b := served s (bufs s ! b)] \<and>
    ports t = ports s @ (if qs = [] then [] else request (bufs s ! hd qs)) \<and>
    ptable t = map (wake (Some (ChanBuf b))) (ptable s) \<and> held t = {}"
proof -
  note Q = ide_queueD [OF q]
  have b: "idequeue s = Some b" "linked (qnext s) (qnext s b) qs" "b < length (bufs s)" using Q(1,3) Q(5) [of b] by auto
  let ?u = "s\<lparr>held := {L_ide}, idequeue := qnext s b\<rparr>"
  have u: "Suc 1 \<le> length (filter disk_ready (status ?u))" "b < length (bufs ?u)" "L_ptable \<notin> held ?u" using st b by simp_all
  let ?k = "\<lambda>_. bindK (getK idequeue) (\<lambda>q2. bindK (whenK (q2 \<noteq> None) (idestart q2)) (\<lambda>_. release L_ide))"
  from pio_ideintr_first [OF u, of ?k] obtain t where t: "pio_ideintr s = ?k () t"
    "bufs t = (bufs s)[b := served s (bufs s ! b)]" "ptable t = map (wake (Some (ChanBuf b))) (ptable s)" "held t = {L_ide}"
    "idequeue t = qnext s b" "qnext t = qnext s" "ports t = ports s" "1 \<le> length (filter disk_ready (status t))"
    using h b(1) by (auto simp: pio_ideintr_def bind_acquire served_def)
  have other: "bufs t ! x = bufs s ! x" if "x \<in> set qs" for x using t(2) that Q(2) by (cases "x = b") auto
  have qt: "linked (qnext t) (idequeue t) qs" "distinct qs" "length (bufs t) = 31" using t(2,5,6) b(2) Q(2,3) by simp_all
  have pend: "x < 30 \<and> b_blockno (bufs t ! x) < FSSIZE \<and> \<not> (b_valid (bufs t ! x) \<and> \<not> b_dirty (bufs t ! x))" if "x \<in> set qs" for x
    using Q(5) [of x] that other [OF that] by simp
  show ?thesis
  proof (cases qs)
    case Nil
    then have "pio_ideintr s = Ret () (t\<lparr>held := {}\<rparr>)" using t(1,4,5) b(2) by (simp add: release_def)
    then show ?thesis using t qt Nil by (intro exI [of _ "t\<lparr>held := {}\<rparr>"]) (simp add: ide_queue_def)
  next
    case (Cons x xs)
    obtain r rs where w: "idewait_loop (status t) = Some (r, rs)" using idewait_loop_ready [of 0 "status t"] t(8) by auto
    have x: "qnext s b = Some x" "b_blockno (bufs t ! x) < FSSIZE" using b(2) Cons pend [of x] by auto
    let ?v = "t\<lparr>status := rs, ports := ports t @ request (bufs t ! x)\<rparr>"
    have "idestart (Some x) t = Ret () ?v" using x(2) w by (simp add: idestart_def idewait_def bindK_def)
    then have "pio_ideintr s = Ret () (?v\<lparr>held := {}\<rparr>)" using t(1,4,5) x(1) by (simp add: release_def bindK_Ret [where m = "idestart (Some x)"])
    then show ?thesis using t qt pend other [of x] Cons by (intro exI [of _ "?v\<lparr>held := {}\<rparr>"]) (simp add: ide_queue_def)
  qed
qed

section \<open>What the disk is told\<close>

fun port_value :: "pio list \<Rightarrow> u16 \<Rightarrow> byte" where
  "port_value [] p = 0"
| "port_value (Outb q x # ps) p = (if p = q \<and> (\<forall>y. Outb p y \<notin> set ps) then x else port_value ps p)"
| "port_value (Outsl q x # ps) p = port_value ps p"

text \<open>The sector that the address registers of the controller hold.\<close>

definition lba :: "pio list \<Rightarrow> nat" where
  "lba ps = unat (port_value ps 0x1f3) + 2 ^ 8 * unat (port_value ps 0x1f4) + 2 ^ 16 * unat (port_value ps 0x1f5) +
     2 ^ 24 * unat (port_value ps 0x1f6 AND 0x0f)"

lemma and_ff: "(x :: u32) AND 0xff = take_bit 8 x"
  by (simp add: take_bit_eq_mask mask_eq_exp_minus_1)

lemma unat_low_byte: "unat (ucast (take_bit 8 x :: u32) :: byte) = unat x mod 256"
  by (simp add: unsigned_ucast_eq unsigned_take_bit_eq take_bit_eq_mod unat_mod)

lemma request_lba:
  assumes "b_blockno p < FSSIZE"
  shows "lba (request p) = unat (b_blockno p)"
proof -
  let ?n = "b_blockno p"
  have n: "unat ?n < 1000" using assms by (simp add: word_less_nat_alt)
  have z: "drop_bit 16 ?n = 0" "drop_bit 24 ?n = 0" using n by (simp_all add: word_unat_eq_iff drop_bit_eq_div unat_div)
  have "port_value (request p) 0x1f3 = ucast (take_bit 8 ?n)" "port_value (request p) 0x1f4 = ucast (take_bit 8 (drop_bit 8 ?n))"
    "port_value (request p) 0x1f5 = 0" "port_value (request p) 0x1f6 = 0xe0 OR push_bit 4 (ucast (b_dev p AND 1))"
    by (simp_all add: request_def Let_def and_ff z)
  moreover have "(0xe0 OR push_bit 4 (ucast (b_dev p AND 1))) AND (0x0f :: byte) = 0"
  proof -
    have "b_dev p AND 1 = 0 \<or> b_dev p AND 1 = 1" by (simp add: and_one_eq mod_2_eq_odd)
    then show ?thesis by auto
  qed
  moreover have "unat (drop_bit 8 ?n) = unat ?n div 256" by (simp add: drop_bit_eq_div unat_div)
  ultimately show ?thesis using n by (simp add: lba_def unat_low_byte)
qed

text \<open>
  The controller is told the sector of the block, the drive (bit 4 of port \<open>0x1f6\<close>), to transfer one sector, whether to read or to write, and, for a
  write, the data.
\<close>

definition tells :: "buf \<Rightarrow> pio list \<Rightarrow> bool" where
  "tells p ps \<longleftrightarrow> lba ps = unat (b_blockno p) \<and> bit (port_value ps 0x1f6) 4 = bit (b_dev p) 0 \<and> port_value ps 0x1f2 = 1 \<and>
     port_value ps 0x1f7 = (if b_dirty p then 0x30 else 0x20) \<and> (\<forall>x. Outsl 0x1f0 x \<in> set ps \<longleftrightarrow> b_dirty p \<and> x = b_data p)"

lemma request_drive: "bit (port_value (request p) 0x1f6) 4 = bit (b_dev p) 0"
proof -
  have "port_value (request p) 0x1f6 = 0xe0 OR push_bit 4 (ucast (b_dev p AND 1)) OR ucast (drop_bit 24 (b_blockno p) AND 0x0f)"
    by (simp add: request_def Let_def)
  moreover have "\<not> bit (0xe0 :: byte) 4" "\<not> bit (0x0f :: u32) 4" by simp_all
  ultimately show ?thesis by (simp add: bit_or_iff bit_push_bit_iff bit_ucast_iff bit_and_iff)
qed

lemma request_tells:
  assumes "b_blockno p < FSSIZE"
  shows "tells p (request p)"
  using request_lba [OF assms] request_drive [of p] by (auto simp: tells_def request_def Let_def)

section \<open>A concrete state\<close>

definition kide_example :: kide where
  "kide_example = \<lparr>held = {}, mem = (\<lambda>_. 0), freelist = 0, use_lock = True, kend = 0, kdata = 0, kpgdir = 0, cr3 = 0, ts_ss0 = 0,
     ts_esp0 = 0, ts_iomb = 0, tr = 0, ptable = proc_zero\<lparr>p_state := RUNNING, p_pid := 1\<rparr> # replicate 63 proc_zero, nextpid = 2,
     initproc = Some 0, curproc = Some 0, other_procs = [], first = False, forkret_pc = 0, trapret_pc = 0,
     slocks = (\<lambda>_. \<lparr>sl_locked = True, sl_pid = 1\<rparr>),
     bufs = replicate 31 \<lparr>b_valid = False, b_dirty = False, b_dev = 1, b_blockno = 700, b_refcnt = 1, b_prev = 0, b_next = 0, b_data = replicate 512 0\<rparr>,
     disk = (\<lambda>_. replicate 512 0), disksize = 1000, disk_hist = [],
     idequeue = None, qnext = (\<lambda>_. None), havedisk1 = True, ports = [], status = [0x80, 0x40, 0x50, 0x40], data_in = (\<lambda>_. replicate 512 9), transfers = 0\<rparr>"

section \<open>Properties\<close>

text \<open>C32: The disk driver serves requests in the order they were made, one at a time. A request that finds the queue empty is started at once; any
  other one waits at the end of the queue; its process sleeps until the interrupt for it.
  An interrupt finishes the first request: its buffer becomes valid and clean, it holds what was
  written, or what the disk delivered (its old contents if the disk reports an error), the
  process that waits for it is woken, and the next request is started. To start a request is to tell
  the controller the sector of its block, the drive, to transfer one sector, and whether to read or to write, with
  the data of the buffer for a write.\<close>

theorem ide_fifo:
  assumes "ide_queue s qs" "held s = {}" "2 \<le> length (filter disk_ready (status s))"
    "d \<notin> set qs" "d < 30" "b_blockno (bufs s ! d) < FSSIZE" "\<not> (b_valid (bufs s ! d) \<and> \<not> b_dirty (bufs s ! d))"
    "b_dev (bufs s ! d) = 0 \<or> havedisk1 s" "curproc s = Some c" "c < length (ptable s)"
    "sl_locked (slocks s (BufLock d))" "sl_pid (slocks s (BufLock d)) = p_pid (ptable s ! c)"
  shows "(\<exists>t. pio_iderw d s = Swtch t \<and> ide_queue t (qs @ [d]) \<and> bufs t = bufs s \<and>
      p_state (ptable t ! c) = SLEEPING \<and> p_chan (ptable t ! c) = Some (ChanBuf d) \<and>
      (if qs = [] then \<exists>r. ports t = ports s @ r \<and> tells (bufs s ! d) r else ports t = ports s)) \<and>
    (\<forall>b rest. qs = b # rest \<longrightarrow>
      (\<exists>t. pio_ideintr s = Ret () t \<and> ide_queue t rest \<and> bufs t = (bufs s)[b := served s (bufs s ! b)] \<and>
        (if rest = [] then ports t = ports s else \<exists>r. ports t = ports s @ r \<and> tells (bufs s ! hd rest) r) \<and>
        (\<forall>p. p \<in> set (ptable t) \<longrightarrow> p_chan p = Some (ChanBuf b) \<longrightarrow> p_state p \<noteq> SLEEPING)))"
proof (intro conjI allI impI)
  show "\<exists>t. pio_iderw d s = Swtch t \<and> ide_queue t (qs @ [d]) \<and> bufs t = bufs s \<and>
      p_state (ptable t ! c) = SLEEPING \<and> p_chan (ptable t ! c) = Some (ChanBuf d) \<and>
      (if qs = [] then \<exists>r. ports t = ports s @ r \<and> tells (bufs s ! d) r else ports t = ports s)"
    using pio_iderw_run [OF assms(1,4-8,11,12,9,10,2)] assms(3) request_tells [OF assms(6)] by auto
next
  fix b rest assume qs: "qs = b # rest"
  have "tells (bufs s ! hd rest) (request (bufs s ! hd rest))" if "rest \<noteq> []"
    using ide_queueD(5) [OF assms(1), of "hd rest"] that qs by (intro request_tells) auto
  then show "\<exists>t. pio_ideintr s = Ret () t \<and> ide_queue t rest \<and> bufs t = (bufs s)[b := served s (bufs s ! b)] \<and>
        (if rest = [] then ports t = ports s else \<exists>r. ports t = ports s @ r \<and> tells (bufs s ! hd rest) r) \<and>
        (\<forall>p. p \<in> set (ptable t) \<longrightarrow> p_chan p = Some (ChanBuf b) \<longrightarrow> p_state p \<noteq> SLEEPING)"
    using pio_ideintr_run [OF assms(1) [unfolded qs] assms(2,3)] by (cases "rest = []") (auto simp: wake_def)
qed

theorem ide_fifo_witness:
  "(\<exists>t r. pio_iderw 5 kide_example = Swtch t \<and> ide_queue t [5] \<and> ports t = r \<and> lba r = 700 \<and> bit (port_value r 0x1f6) 4) \<and>
   (let s = kide_example\<lparr>idequeue := Some 3\<rparr>
    in \<exists>t. pio_ideintr s = Ret () t \<and> ide_queue t [] \<and> b_data (bufs t ! 3) = replicate 512 9 \<and> b_valid (bufs t ! 3))"
proof -
  let ?s = "kide_example\<lparr>idequeue := Some 3\<rparr>"
  have q: "ide_queue kide_example []" "ide_queue ?s [3]" by (simp_all add: ide_queue_def kide_example_def)
  have "served ?s (bufs ?s ! 3) = (bufs ?s ! 3)\<lparr>b_data := replicate 512 9, b_valid := True, b_dirty := False\<rparr>"
    by (simp add: served_def kide_example_def disk_error_def disk_ready_def)
  moreover have "\<exists>t. pio_ideintr ?s = Ret () t \<and> ide_queue t [] \<and> bufs t = (bufs ?s)[3 := served ?s (bufs ?s ! 3)]"
    using ide_fifo [OF q(2), of 5 0] by (simp add: kide_example_def disk_ready_def proc_zero_def) blast
  moreover have "length (bufs ?s) = 31" by (simp add: kide_example_def)
  moreover have "\<exists>t r. pio_iderw 5 kide_example = Swtch t \<and> ide_queue t [5] \<and> ports t = r \<and> lba r = 700 \<and> bit (port_value r 0x1f6) 4"
    using ide_fifo [OF q(1), of 5 0] by (simp add: kide_example_def disk_ready_def proc_zero_def tells_def) blast
  ultimately show ?thesis by (auto simp: Let_def)
qed

end
