(* ===== verification/Syscall_Props.thy ===== *)
theory Syscall_Props
  imports Syscall Pipe_Props
begin

text \<open>
  The arguments of system calls are checked before they are used: with the address space of the
  process loaded and every address below its size mapped, fetching an argument never faults in the
  kernel, and the ranges that pass the checks lie inside the process.
\<close>

definition user_ok :: "nat \<Rightarrow> 'z kproc_scheme \<Rightarrow> bool" where
  "user_ok c s \<longleftrightarrow> curproc s = Some c \<and> p_pgdir (ptable s ! c) = P2V (cr3 s) \<and> p_sz (ptable s ! c) \<le> KERNBASE \<and>
     (\<forall>va. va < p_sz (ptable s ! c) \<longrightarrow> lookup (mem s) (p_pgdir (ptable s ! c)) va \<noteq> None)"

lemma mmu_lookup:
  assumes "va < KERNBASE" "lookup (mem s) (P2V (cr3 s)) va = Some pte"
  shows "mmu s False va = Some (frame pte + take_bit 12 va)"
  using assms by (auto simp: mmu_def lookup_def present_def pte_at_def pde_at_def pgtab_of_def frame_def Let_def split: if_splits)

lemma user_mapped:
  assumes "user_ok c s" "va < p_sz (ptable s ! c)"
  shows "\<exists>a. mmu s False va = Some a"
proof -
  have "va < KERNBASE" using assms by (auto simp: user_ok_def intro: less_le_trans)
  then show ?thesis using assms mmu_lookup [of va s] by (auto simp: user_ok_def)
qed

lemma user_vload8:
  assumes "user_ok c s" "va < p_sz (ptable s ! c)"
  shows "\<exists>x. vload8 va s = Ret x s"
  using user_mapped [OF assms] by (auto simp: vload8_def)

text \<open>Below the size of a process, which is at most half of the address space, addresses do not wrap around.\<close>

lemma below_size:
  assumes "sz \<le> KERNBASE" "a < sz" "n < 2147483648" "\<not> sz < a + of_nat n" "k < n"
  shows "a + of_nat k < sz" "unat a + n \<le> unat sz"
proof -
  have u: "unat sz \<le> 2147483648" "unat a < unat sz" using assms(1,2) by (simp_all add: word_le_nat_alt word_less_nat_alt)
  then have w: "unat (a + of_nat j) = unat a + j" if "j \<le> n" for j
    using that assms(3) by (simp add: unat_word_ariths unat_of_nat)
  show "unat a + n \<le> unat sz" using assms(4) w [of n] by (simp add: word_less_nat_alt)
  then show "a + of_nat k < sz" using w [of k] assms(5) by (simp add: word_less_nat_alt)
qed

lemma fetchint_safe:
  assumes "user_ok c s"
  shows "\<exists>r. fetchint a s = Ret r s"
proof (cases "p_sz (ptable s ! c) \<le> a \<or> p_sz (ptable s ! c) < a + 4")
  case True
  then show ?thesis using assms by (simp add: fetchint_def with_myproc_def user_ok_def)
next
  case False
  have sz: "p_sz (ptable s ! c) \<le> KERNBASE" "curproc s = Some c" using assms by (simp_all add: user_ok_def)
  have b: "a + of_nat k < p_sz (ptable s ! c)" if "k < 4" for k
    by (rule below_size(1) [OF sz(1), of a 4]) (use False that in auto)
  obtain x0 x1 x2 x3 where "vload8 a s = Ret x0 s" "vload8 (a + 1) s = Ret x1 s" "vload8 (a + 2) s = Ret x2 s" "vload8 (a + 3) s = Ret x3 s"
    using user_vload8 [OF assms b [of 0]] user_vload8 [OF assms b [of 1]] user_vload8 [OF assms b [of 2]] user_vload8 [OF assms b [of 3]] by auto
  then show ?thesis using False sz(2) by (simp add: fetchint_def with_myproc_def vload32_def bindK_def)
qed

lemma argint_safe: "user_ok c s \<Longrightarrow> \<exists>r. argint n s = Ret r s"
proof -
  assume ok: "user_ok c s"
  then have "curproc s = Some c" by (simp add: user_ok_def)
  then show ?thesis using fetchint_safe [OF ok] by (simp add: argint_def with_myproc_def)
qed

lemma vread_Cons:
  assumes "mmu s False a = Some p" "vread (a + 1) n s = Ret bs s"
  shows "vread a (Suc n) s = Ret (mem s p # bs) s"
proof -
  let ?f = "\<lambda>a i. map_option (mem s) (mmu s False (a + of_nat i))"
  have "map (?f a) [0..<Suc n] = ?f a 0 # map (?f (a + 1)) [0..<n]"
    by (simp add: upt_conv_Cons map_Suc_upt [symmetric] comp_def add.assoc del: upt_Suc map_Suc_upt)
  then show ?thesis using assms by (auto simp: vread_def split: option.splits simp del: upt_Suc)
qed

lemma fetchstr_loop_safe:
  assumes "user_ok c s" "unat a + n = unat (p_sz (ptable s ! c))"
  shows "\<exists>r. fetchstr_loop n a acc s = Ret r s \<and>
    (\<forall>bs. r = Some bs \<longrightarrow> (\<exists>cs. bs = acc @ cs \<and> 0 \<notin> set cs \<and> length cs < n \<and> vread a (length cs + 1) s = Ret (cs @ [0]) s))"
  using assms(2)
proof (induction n arbitrary: a acc)
  case (Suc n)
  have "a < p_sz (ptable s ! c)" using Suc.prems by (simp add: word_less_nat_alt)
  then obtain p where p: "mmu s False a = Some p" using user_mapped [OF assms(1)] by blast
  show ?case
  proof (cases "mem s p = 0")
    case True
    then show ?thesis using p by (auto simp: bindK_def vload8_def vread_def)
  next
    case False
    have "unat (a + 1) = unat a + 1" using Suc.prems unat_u32_bound [of "p_sz (ptable s ! c)"] by (simp add: unat_word_ariths)
    then have "unat (a + 1) + n = unat (p_sz (ptable s ! c))" using Suc.prems by simp
    from Suc.IH [OF this, of "acc @ [mem s p]"] obtain r where r: "fetchstr_loop n (a + 1) (acc @ [mem s p]) s = Ret r s"
      "\<And>bs. r = Some bs \<Longrightarrow> \<exists>cs. bs = (acc @ [mem s p]) @ cs \<and> 0 \<notin> set cs \<and> length cs < n \<and> vread (a + 1) (length cs + 1) s = Ret (cs @ [0]) s"
      by blast
    have "fetchstr_loop (Suc n) a acc s = Ret r s" using r(1) p False by (simp add: bindK_def vload8_def)
    moreover have "\<exists>cs. bs = acc @ cs \<and> 0 \<notin> set cs \<and> length cs < Suc n \<and> vread a (length cs + 1) s = Ret (cs @ [0]) s" if b: "r = Some bs" for bs
    proof -
      obtain cs where cs: "bs = (acc @ [mem s p]) @ cs" "0 \<notin> set cs" "length cs < n" "vread (a + 1) (length cs + 1) s = Ret (cs @ [0]) s" using r(2) [OF b] by blast
      have "vread a (length (mem s p # cs) + 1) s = Ret ((mem s p # cs) @ [0]) s" using vread_Cons [OF p cs(4)] by simp
      then show ?thesis using cs False by (intro exI [of _ "mem s p # cs"]) auto
    qed
    ultimately show ?thesis by blast
  qed
qed simp

lemma argptr_safe:
  assumes ok: "user_ok c s" and len: "len < 2147483648"
  shows "\<exists>r. argptr n len s = Ret r s \<and>
    (\<forall>i. r = Some i \<longrightarrow> 0 \<le> len \<and> unat i + nat len \<le> unat (p_sz (ptable s ! c)) \<and> (\<forall>k < nat len. mmu s False (i + of_nat k) \<noteq> None))"
proof -
  let ?sz = "p_sz (ptable s ! c)"
  obtain r where r: "argint n s = Ret r s" using argint_safe [OF ok] by blast
  have cp: "curproc s = Some c" "?sz \<le> KERNBASE" using ok by (simp_all add: user_ok_def)
  show ?thesis
  proof (cases r)
    case None
    then show ?thesis using r cp by (simp add: argptr_def with_myproc_def bindK_Ret)
  next
    case (Some i)
    show ?thesis
    proof (cases "len < 0 \<or> ?sz \<le> i \<or> ?sz < i + of_int len")
      case True
      then show ?thesis using r cp Some by (simp add: argptr_def with_myproc_def bindK_Ret)
    next
      case False
      then have b: "i < ?sz" "\<not> ?sz < i + of_nat (nat len)" "nat len < 2147483648" using len by auto
      have "unat i + nat len \<le> unat ?sz" by (cases "nat len = 0") (use below_size(2) [OF cp(2) b(1,3,2), of 0] b(1) in \<open>auto simp: word_less_nat_alt\<close>)
      moreover have "mmu s False (i + of_nat k) \<noteq> None" if "k < nat len" for k
        using user_mapped [OF ok below_size(1) [OF cp(2) b(1,3,2) that]] by auto
      ultimately show ?thesis using r cp Some False by (simp add: argptr_def with_myproc_def bindK_Ret)
    qed
  qed
qed

lemma argstr_safe:
  assumes ok: "user_ok c s"
  shows "\<exists>r. argstr n s = Ret r s \<and>
    (\<forall>a bs. r = Some (a, bs) \<longrightarrow> 0 \<notin> set bs \<and> unat a + length bs < unat (p_sz (ptable s ! c)) \<and> vread a (length bs + 1) s = Ret (bs @ [0]) s)"
proof -
  let ?sz = "p_sz (ptable s ! c)"
  obtain r where r: "argint n s = Ret r s" using argint_safe [OF ok] by blast
  have cp: "curproc s = Some c" using ok by (simp add: user_ok_def)
  show ?thesis
  proof (cases "\<exists>a. r = Some a \<and> a < ?sz")
    case False
    then show ?thesis using r cp by (cases r) (auto simp: argstr_def fetchstr_def with_myproc_def bindK_Ret)
  next
    case True
    then obtain a where a: "r = Some a" "a < ?sz" by blast
    then have u: "unat a + unat (?sz - a) = unat ?sz" by (simp add: unat_sub word_less_nat_alt word_le_nat_alt)
    obtain q where q: "fetchstr_loop (unat (?sz - a)) a [] s = Ret q s"
      "\<And>bs. q = Some bs \<Longrightarrow> \<exists>cs. bs = [] @ cs \<and> 0 \<notin> set cs \<and> length cs < unat (?sz - a) \<and> vread a (length cs + 1) s = Ret (cs @ [0]) s"
      using fetchstr_loop_safe [OF ok u, of "[]"] by blast
    have "argstr n s = Ret (map_option (Pair a) q) s"
      using r a cp q(1) by (auto simp: argstr_def fetchstr_def with_myproc_def bindK_Ret)
    then show ?thesis using q(2) u by fastforce
  qed
qed

section \<open>Properties\<close>

text \<open>C28: The arguments of system calls are safe to use. With the address space of the process loaded, fetching a number, a buffer or a string
  never faults in the kernel and changes nothing. A buffer that is accepted lies inside the process,
  without wrap-around, and each of its bytes is mapped; a string that is accepted ends with its zero
  inside the process, and its characters are those in memory.\<close>

theorem syscall_args_safe:
  assumes "user_ok c s" "len < 2147483648"
  shows "(\<exists>r. argint n s = Ret r s) \<and>
    (\<exists>r. argptr n len s = Ret r s \<and> (\<forall>i. r = Some i \<longrightarrow> 0 \<le> len \<and> unat i + nat len \<le> unat (p_sz (ptable s ! c)) \<and>
       (\<forall>k < nat len. mmu s False (i + of_nat k) \<noteq> None))) \<and>
    (\<exists>r. argstr n s = Ret r s \<and> (\<forall>a bs. r = Some (a, bs) \<longrightarrow> 0 \<notin> set bs \<and> unat a + length bs < unat (p_sz (ptable s ! c)) \<and>
       vread a (length bs + 1) s = Ret (bs @ [0]) s))"
  using argint_safe [OF assms(1), of n] argptr_safe [OF assms, of n] argstr_safe [OF assms(1), of n] by blast

theorem syscall_args_safe_witness:
  "let s = upd_proc 0 (\<lambda>p. p\<lparr>p_sz := 0x2000000, p_pgdir := P2V 0\<rparr>) (kfile_example\<lparr>mem := \<lambda>_. 1\<rparr>)
   in \<exists>r. argptr 0 16 s = Ret r s \<and> (\<forall>i. r = Some i \<longrightarrow> unat i + 16 \<le> 0x2000000)"
proof -
  let ?s = "upd_proc 0 (\<lambda>p. p\<lparr>p_sz := 0x2000000, p_pgdir := P2V 0\<rparr>) (kfile_example\<lparr>mem := \<lambda>_. 1\<rparr>)"
  have "user_ok 0 ?s"
    by (simp add: user_ok_def kfile_example_facts) (simp add: kfile_example_def upd_proc_def lookup_def present_def pde_at_def pte_at_def load32_def)
  then show ?thesis using syscall_args_safe [of 0 ?s 16 0] kfile_example_facts(3) by (auto simp: Let_def)
qed

end
