(* ===== verification/Msg_Props.thy ===== *)
theory Msg_Props
  imports Sysproc Syscall_Props
begin

text \<open>
  The message queue of \<^verbatim>\<open>sysproc.c\<close>. Its head is never moved, so that the messages are the first
  \<open>count\<close> entries of the array; \<open>sys_send\<close> appends one, \<open>sys_recv\<close> removes the first one of a type.
  The one exception, a full queue whose first message is received, is shown to go wrong.
\<close>

definition mq_ok :: "msgqueue \<Rightarrow> bool" where
  "mq_ok q \<longleftrightarrow> length (mq_messages q) = 64 \<and> (\<forall>m \<in> set (mq_messages q). length (m_data m) = 32) \<and> mq_head q = 0 \<and> 0 \<le> mq_count q \<and> mq_count q \<le> 64 \<and> mq_tail q = mq_count q mod 64"

definition mq_list :: "msgqueue \<Rightarrow> message list" where
  "mq_list q = take (nat (mq_count q)) (mq_messages q)"

lemma length_mq_list: "mq_ok q \<Longrightarrow> length (mq_list q) = nat (mq_count q)"
  by (simp add: mq_ok_def mq_list_def nat_le_iff)

section \<open>Sending\<close>

definition user_string :: "nat \<Rightarrow> byte list \<Rightarrow> byte list" where
  "user_string n bs = cstr bs @ (if length (cstr bs) < n then [0] else [])"

lemma cstr_stored:
  assumes "length bs = n" "n < length dst"
  shows "cstr (safestrcpy_arr dst (user_string n bs) n) = cstr bs"
  using assms
proof (induction bs arbitrary: dst n)
  case Nil
  then show ?case by (cases dst) (simp_all add: user_string_def)
next
  case (Cons c bs)
  then obtain d ds k where e: "dst = d # ds" "n = Suc k" "length bs = k" "k < length ds" by (cases dst) auto
  show ?case using Cons.IH [OF e(3,4)] e by (auto simp: user_string_def)
qed

lemma vread_str_run:
  assumes "\<And>k. k < n \<Longrightarrow> mmu s False (a + of_nat k) \<noteq> None"
  shows "\<exists>bs. vread a n s = Ret bs s \<and> length bs = n \<and> vread_str n a s = Ret (user_string n bs) s"
  using assms
proof (induction n arbitrary: a)
  case 0
  then show ?case by (simp add: vread_def user_string_def)
next
  case (Suc n)
  obtain p where p: "mmu s False a = Some p" using Suc.prems [of 0] by auto
  have "mmu s False (a + 1 + of_nat k) \<noteq> None" if "k < n" for k using Suc.prems [of "Suc k"] that by (simp add: algebra_simps)
  from Suc.IH [OF this] obtain bs where bs: "vread (a + 1) n s = Ret bs s" "length bs = n" "vread_str n (a + 1) s = Ret (user_string n bs) s" by auto
  have "vread_str (Suc n) a s = Ret (user_string (Suc n) (mem s p # bs)) s"
    using p bs(3) by (simp add: bindK_def vload8_def user_string_def)
  then show ?case using vread_Cons [OF p bs(1)] bs(2) by (intro exI [of _ "mem s p # bs"]) simp
qed

lemma mq_put_list:
  assumes "mq_ok q" "mq_count q \<noteq> 64" "length bs = 31"
  shows "mq_ok (mq_put type (user_string 31 bs) q) \<and>
    (\<exists>m. mq_list (mq_put type (user_string 31 bs) q) = mq_list q @ [m] \<and> m_type m = type \<and> cstr (m_data m) = cstr bs)"
proof -
  obtain n where n: "mq_count q = int n" "n < 64" using assms zero_le_imp_eq_int [of "mq_count q"] by (auto simp: mq_ok_def)
  have t: "mq_tail q = int n" "length (mq_messages q) = 64" "mq_head q = 0" "\<forall>m \<in> set (mq_messages q). length (m_data m) = 32"
    using assms(1) n by (simp_all add: mq_ok_def)
  let ?o = "mq_messages q ! n"
  let ?m = "?o\<lparr>m_type := type, m_data := safestrcpy_arr (m_data ?o) (user_string 31 bs) 31\<rparr>"
  let ?p = "mq_put type (user_string 31 bs) q"
  have l: "length (m_data ?o) = 32" using t(2,4) n(2) by (metis nth_mem)
  have p: "?p = q\<lparr>mq_messages := (mq_messages q)[n := ?m], mq_tail := (int n + 1) mod 64, mq_count := int n + 1\<rparr>"
    using n t by (simp add: mq_put_def Let_def)
  have "\<forall>m \<in> set ((mq_messages q)[n := ?m]). length (m_data m) = 32" using t(4) l by (auto dest!: set_update_subset_insert [THEN subsetD])
  then have "mq_ok ?p" using n t by (simp add: p mq_ok_def)
  moreover have "take (Suc n) ((mq_messages q)[n := ?m]) = take n (mq_messages q) @ [?m]"
    using n(2) t(2) by (simp add: take_Suc_conv_app_nth)
  then have "mq_list ?p = mq_list q @ [?m]" using n by (simp add: mq_list_def p nat_add_distrib)
  moreover have "cstr (m_data ?m) = cstr bs" using cstr_stored [OF assms(3)] l by simp
  ultimately show ?thesis by auto
qed

section \<open>Receiving\<close>

lemma mq_shift_nth:
  assumes "i + d = n" "n \<le> 64" "length ms = 64" "d \<le> k" "\<not> (n = 64 \<and> i = 0)"
  shows "length (mq_shift k (int i mod 64) (int n mod 64) ms) = 64 \<and>
    (\<forall>x < n - 1. mq_shift k (int i mod 64) (int n mod 64) ms ! x = (if x < i then ms ! x else ms ! Suc x))"
  using assms
proof (induction d arbitrary: i k ms)
  case 0
  then show ?case by (cases k) auto
next
  case (Suc d)
  then obtain l where k: "k = Suc l" by (cases k) auto
  have i: "i < n" "i < 64" "int i mod 64 = int i" using Suc.prems(1,2) by auto
  have ne: "int i \<noteq> int n mod 64"
  proof (cases "n = 64")
    case True
    then show ?thesis using Suc.prems(5) by simp
  next
    case False
    then have "int n mod 64 = int n" using Suc.prems(2) by simp
    then show ?thesis using i(1) by simp
  qed
  let ?ms = "ms[i := ms ! (Suc i mod 64)]"
  have j: "(int i + 1) mod 64 = int (Suc i) mod 64" by (simp add: add.commute)
  have j': "nat (int (Suc i) mod 64) = Suc i mod 64" by (metis nat_int of_nat_numeral zmod_int)
  have step: "mq_shift k (int i mod 64) (int n mod 64) ms = mq_shift l (int (Suc i) mod 64) (int n mod 64) ?ms"
    unfolding k i(3) using ne by (simp only: mq_shift.simps j j' if_False nat_int)
  have ih: "length (mq_shift l (int (Suc i) mod 64) (int n mod 64) ?ms) = 64 \<and>
    (\<forall>x < n - 1. mq_shift l (int (Suc i) mod 64) (int n mod 64) ?ms ! x = (if x < Suc i then ?ms ! x else ?ms ! Suc x))"
    by (rule Suc.IH) (use Suc.prems k in simp_all)
  show ?case
  proof (intro conjI allI impI)
    fix x assume x: "x < n - 1"
    have "Suc i mod 64 = Suc i" if "x = i" using x that Suc.prems(2) by simp
    then have "(if x < Suc i then ?ms ! x else ?ms ! Suc x) = (if x < i then ms ! x else ms ! Suc x)"
      using i(2) Suc.prems(3) by (auto simp: nth_list_update less_Suc_eq)
    then show "mq_shift k (int i mod 64) (int n mod 64) ms ! x = (if x < i then ms ! x else ms ! Suc x)" using ih x unfolding step by simp
  qed (use ih step in simp)
qed

lemma mq_shift_set: "length ms = 64 \<Longrightarrow> set (mq_shift k j tail ms) \<subseteq> set ms"
proof (induction k arbitrary: j ms)
  case (Suc k)
  have x: "nat ((j + 1) mod 64) < length ms" using Suc.prems by (simp add: nat_less_iff)
  let ?ms = "ms[nat j := ms ! nat ((j + 1) mod 64)]"
  have "set ?ms \<subseteq> set ms" by (rule set_update_subsetI) (use nth_mem [OF x] in auto)
  then show ?case using Suc.IH [of ?ms "(j + 1) mod 64"] Suc.prems by auto
qed simp

lemma mq_remove_list:
  assumes "mq_ok q" "i < length (mq_list q)" "\<not> (mq_count q = 64 \<and> i = 0)"
  shows "mq_ok (mq_remove (int i) q) \<and> mq_list (mq_remove (int i) q) = remove_nth i (mq_list q)"
proof -
  obtain n where n: "mq_count q = int n" "n \<le> 64" using assms(1) zero_le_imp_eq_int [of "mq_count q"] by (auto simp: mq_ok_def)
  have i: "i < n" using assms(2) n by (simp add: length_mq_list [OF assms(1)])
  have t: "mq_tail q = int n mod 64" "length (mq_messages q) = 64" "mq_head q = 0" using assms(1) n by (simp_all add: mq_ok_def)
  define r where "r = mq_shift 64 (int i) (int n mod 64) (mq_messages q)"
  have "(int n mod 64 - 1) mod 64 = (int n - 1) mod 64" by (rule mod_diff_left_eq)
  then have tl: "(int n mod 64 - 1 + 64) mod 64 = (int n - 1) mod 64" by (simp only: mod_add_self2)
  have p: "mq_remove (int i) q = q\<lparr>mq_messages := r, mq_tail := (int n - 1) mod 64, mq_count := int n - 1\<rparr>"
    unfolding mq_remove_def r_def n(1) t(1) tl by (rule refl)
  have im: "int i mod 64 = int i" using i n(2) by simp
  have rs: "\<forall>m \<in> set r. length (m_data m) = 32"
    using mq_shift_set [OF t(2), of 64 "int i" "int n mod 64"] assms(1) unfolding r_def [symmetric] by (auto simp: mq_ok_def)
  have r: "length r = 64" "\<And>x. x < n - 1 \<Longrightarrow> r ! x = (if x < i then mq_messages q ! x else mq_messages q ! Suc x)"
    using mq_shift_nth [of i "n - i" n "mq_messages q" 64] i n t(2) assms(3) unfolding im r_def [symmetric] by auto
  have "mq_ok (mq_remove (int i) q)" using r(1) rs n t i by (simp add: mq_ok_def p)
  moreover have "take (n - 1) r = remove_nth i (take n (mq_messages q))"
    by (rule nth_equalityI) (use r n t(2) i in \<open>auto simp: nth_remove_nth length_remove_nth\<close>)
  then have "mq_list (mq_remove (int i) q) = remove_nth i (mq_list q)"
    using n i by (simp add: mq_list_def p nat_diff_distrib)
  ultimately show ?thesis by simp
qed

lemma mq_find_list:
  assumes "mq_ok q"
  shows "mq_find type q = map_option int (find_idx (\<lambda>m. m_type m = type) (mq_list q))"
proof -
  obtain n where n: "mq_count q = int n" "n \<le> 64" using assms zero_le_imp_eq_int [of "mq_count q"] by (auto simp: mq_ok_def)
  have h: "mq_head q = 0" "length (mq_messages q) = 64" using assms by (simp_all add: mq_ok_def)
  have fm: "find_idx P (map f xs) = find_idx (\<lambda>x. P (f x)) xs" for P :: "message \<Rightarrow> bool" and f :: "nat \<Rightarrow> message" and xs by (induction xs) simp_all
  have l: "mq_list q = map (\<lambda>i. mq_messages q ! nat (int i mod 64)) [0..<n]"
    by (rule nth_equalityI) (use n h in \<open>auto simp: mq_list_def\<close>)
  let ?f = "find_idx (\<lambda>m. m_type m = type) (mq_list q)"
  have "mq_find type q = map_option (\<lambda>i. int i mod 64) ?f" unfolding mq_find_def l fm using h n by simp
  also have "\<dots> = map_option int ?f"
    by (rule option.map_cong [OF refl]) (use n length_mq_list [OF assms] in \<open>auto dest!: find_idx_bound\<close>)
  finally show ?thesis .
qed

text \<open>Received in a full queue, the first message stays: the loop that closes the gap does not run.\<close>

lemma mq_remove_full:
  assumes "mq_ok q" "mq_count q = 64"
  shows "mq_list (mq_remove 0 q) = butlast (mq_list q) \<and> mq_find (m_type (mq_list q ! 0)) (mq_remove 0 q) = Some 0"
proof -
  obtain x xs where ms: "mq_messages q = x # xs" "length xs = 63" using assms by (cases "mq_messages q") (auto simp: mq_ok_def)
  have "mq_shift 64 0 0 ms = ms" for ms by (simp add: numeral_eq_Suc)
  then have p: "mq_remove 0 q = q\<lparr>mq_tail := 63, mq_count := 63\<rparr>" using assms by (simp add: mq_remove_def mq_ok_def)
  have l: "mq_list (mq_remove 0 q) = x # take 62 xs" "mq_list q = x # xs" using assms(2) ms by (simp_all add: p mq_list_def)
  have "butlast (x # xs) = x # take 62 xs" using ms(2) by (auto simp: butlast_conv_take)
  moreover have "mq_ok (mq_remove 0 q)" using assms by (simp add: p mq_ok_def)
  then have "mq_find (m_type (mq_list q ! 0)) (mq_remove 0 q) = Some 0" by (simp add: mq_find_list l)
  ultimately show ?thesis using l by simp
qed

section \<open>The system calls\<close>

text \<open>The bytes that \<open>sys_recv\<close> stores for a message.\<close>

definition reply :: "byte list \<Rightarrow> byte list" where
  "reply d = (let str = take 31 (cstr d) in str @ (if length str < 31 then [0, 0] else [0]))"

lemma sys_send_run:
  fixes s :: "'z ksys_scheme"
  assumes ok: "user_ok c s" "L_msgq \<notin> held s" and args: "argint 0 s = Ret (Some type) s" "argptr 1 32 s = Ret (Some a) s"
  shows "\<exists>bs. vread a 31 s = Ret bs s \<and> length bs = 31 \<and>
    sys_send s = (if mq_count (msgq s) = 64 then Ret (-1) s else Ret 0 (s\<lparr>msgq := mq_put (sint type) (user_string 31 bs) (msgq s)\<rparr>))"
proof -
  let ?s = "s\<lparr>held := insert L_msgq (held s)\<rparr>"
  have "mmu s False (a + of_nat k) \<noteq> None" if "k < 31" for k using argptr_safe [OF ok(1), of 32 1] args(2) that by auto
  then obtain bs where bs: "vread a 31 s = Ret bs s" "length bs = 31" using vread_str_run [of 31 s a] by blast
  have m: "mmu ?s False va = mmu s False va" for va by (simp add: mmu_def)
  have "mmu ?s False (a + of_nat k) \<noteq> None" if "k < 31" for k using argptr_safe [OF ok(1), of 32 1] args(2) that by (auto simp: m)
  then obtain bs' where bs': "vread a 31 ?s = Ret bs' ?s" "vread_str 31 a ?s = Ret (user_string 31 bs') ?s" using vread_str_run [of 31 ?s a] by blast
  have "bs' = bs" using bs(1) bs'(1) by (simp add: vread_def m split: option.splits)
  then show ?thesis using bs bs'(2) ok(2) args
    by (auto simp: sys_send_def orK_def bindK_Ret bind_acquire bind_release simp del: vread_str.simps)
qed

lemma vwrite_held:
  "vwrite a bs (s\<lparr>held := h\<rparr>) = (case vwrite a bs s of Ret u t \<Rightarrow> Ret u (t\<lparr>held := h\<rparr>) | Swtch t \<Rightarrow> Swtch (t\<lparr>held := h\<rparr>) | Panic e \<Rightarrow> Panic e | Diverge \<Rightarrow> Diverge)"
proof (induction bs arbitrary: a s)
  case (Cons b bs)
  have m: "mmu (s\<lparr>held := h\<rparr>) w va = mmu s w va" for w va by (simp add: mmu_def)
  have e: "s\<lparr>held := h, mem := x\<rparr> = s\<lparr>mem := x, held := h\<rparr>" for x by simp
  show ?case by (cases "mmu s True a") (simp_all add: bindK_def vstore8_def m e Cons.IH)
qed simp

lemma sys_recv_run:
  fixes s :: "'z ksys_scheme"
  assumes ok: "L_msgq \<notin> held s" "mq_ok (msgq s)" and args: "argint 0 s = Ret (Some type) s" "argptr 1 32 s = Ret (Some a) s"
  shows "case find_idx (\<lambda>m. m_type m = sint type) (mq_list (msgq s)) of
      None \<Rightarrow> sys_recv s = Ret (-1) s
    | Some i \<Rightarrow> (\<forall>m. vwrite a (reply (m_data (mq_list (msgq s) ! i))) s = Ret () (s\<lparr>mem := m\<rparr>) \<longrightarrow>
        sys_recv s = Ret 0 (s\<lparr>mem := m, msgq := mq_remove (int i) (msgq s)\<rparr>))"
proof (cases "find_idx (\<lambda>m. m_type m = sint type) (mq_list (msgq s))")
  case None
  then show ?thesis using ok args by (simp add: sys_recv_def orK_def bindK_Ret bind_acquire bind_release mq_find_list)
next
  case (Some i)
  have i: "mq_list (msgq s) ! i = mq_messages (msgq s) ! i" using find_idx_bound [OF Some] by (simp add: mq_list_def)
  let ?s = "s\<lparr>held := insert L_msgq (held s)\<rparr>"
  have "sys_recv s = Ret 0 (s\<lparr>mem := m, msgq := mq_remove (int i) (msgq s)\<rparr>)"
    if w: "vwrite a (reply (m_data (mq_list (msgq s) ! i))) s = Ret () (s\<lparr>mem := m\<rparr>)" for m
  proof -
    have v: "vwrite a (reply (m_data (mq_messages (msgq s) ! i))) ?s = Ret () (s\<lparr>mem := m, held := insert L_msgq (held s)\<rparr>)"
      using w by (simp add: vwrite_held i)
    have "sys_recv s = bindK (vwrite a (reply (m_data (mq_messages (msgq s) ! i)))) (\<lambda>_.
        bindK (modK (\<lambda>s. s\<lparr>msgq := mq_remove (int i) (msgq s)\<rparr>)) (\<lambda>_. bindK (release L_msgq) (\<lambda>_. retK 0))) ?s"
      using ok args Some by (simp add: sys_recv_def orK_def bindK_Ret bind_acquire mq_find_list reply_def Let_def)
    also have "\<dots> = Ret 0 (s\<lparr>mem := m, msgq := mq_remove (int i) (msgq s)\<rparr>)"
      using ok(1) by (simp add: bindK_def v release_def)
    finally show ?thesis .
  qed
  then show ?thesis using Some by simp
qed

lemma reply_cstr: "length bs = 31 \<Longrightarrow> cstr d = cstr bs \<Longrightarrow> reply d = cstr bs @ (if length (cstr bs) < 31 then [0, 0] else [0])"
  using length_cstr_le [of bs] by (simp add: reply_def)

text \<open>A state in which all of memory holds the byte 3, and the message at the head says \<open>hi\<close>.\<close>

definition ksys_example :: "int \<Rightarrow> ksys" where
  "ksys_example n = kfile.extend (upd_proc 0 (\<lambda>p. p\<lparr>p_sz := 0x4000000, p_pgdir := P2V 0\<rparr>) (kfile_example\<lparr>mem := \<lambda>_. 3\<rparr>))
     (ksys.fields 0 0 \<lparr>mq_messages = replicate 64 \<lparr>m_type = 0x03030303, m_data = [104, 105] @ replicate 30 0\<rparr>, mq_head = 0,
        mq_tail = n mod 64, mq_count = n\<rparr>)"

lemma ksys_example_state:
  "held (ksys_example n) = {}" "mem (ksys_example n) = (\<lambda>_. 3)" "cr3 (ksys_example n) = 0" "curproc (ksys_example n) = Some 0"
  "p_sz (ptable (ksys_example n) ! 0) = 0x4000000" "p_pgdir (ptable (ksys_example n) ! 0) = P2V 0"
  "msgq (ksys_example n) = \<lparr>mq_messages = replicate 64 \<lparr>m_type = 0x03030303, m_data = [104, 105] @ replicate 30 0\<rparr>, mq_head = 0,
        mq_tail = n mod 64, mq_count = n\<rparr>"
  by (simp_all add: ksys_example_def kfile.extend_def ksys.fields_def kfile_example_def upd_proc_def)

lemma mmu_ksys_example: "va < KERNBASE \<Longrightarrow> mmu (ksys_example n) w va = Some (0x83030000 + take_bit 12 va)"
  by (auto simp: mmu_def ksys_example_state load32_def P2V_def PTE_ADDR_def)

lemma ksys_example_args:
  "user_ok 0 (ksys_example n)" "L_msgq \<notin> held (ksys_example n)" "argint 0 (ksys_example n) = Ret (Some 0x03030303) (ksys_example n)"
  "argptr 1 32 (ksys_example n) = Ret (Some 0x03030303) (ksys_example n)"
proof -
  show "user_ok 0 (ksys_example n)" by (simp add: user_ok_def ksys_example_state lookup_def present_def pde_at_def pte_at_def load32_def)
  have v: "vload8 va (ksys_example n) = Ret 3 (ksys_example n)" if "va < KERNBASE" for va
    using mmu_ksys_example [OF that] by (simp add: vload8_def ksys_example_state)
  have f: "fetchint va (ksys_example n) = Ret (Some 0x03030303) (ksys_example n)" if "va = 0x03030307 \<or> va = 0x0303030B" for va
    using that by (auto simp: fetchint_def with_myproc_def vload32_def bindK_def v ksys_example_state)
  have e: "load32 (\<lambda>_. 3) va = 0x03030303" for va by (simp add: load32_def)
  show "argint 0 (ksys_example n) = Ret (Some 0x03030303) (ksys_example n)" using f by (simp add: argint_def with_myproc_def ksys_example_state e)
  show "argptr 1 32 (ksys_example n) = Ret (Some 0x03030303) (ksys_example n)"
    using f by (simp add: argptr_def argint_def with_myproc_def bindK_Ret ksys_example_state e)
qed (simp add: ksys_example_state)

lemma ksys_example_queue:
  assumes "0 < n" "n \<le> 64"
  shows "mq_ok (msgq (ksys_example n))" "length (mq_list (msgq (ksys_example n))) = nat n" "m_type (mq_list (msgq (ksys_example n)) ! 0) = 0x03030303"
    "\<exists>x. vwrite 0x03030303 (reply (m_data (mq_list (msgq (ksys_example n)) ! 0))) (ksys_example n) = Ret () (ksys_example n\<lparr>mem := x\<rparr>)"
proof -
  have 0: "mq_list (msgq (ksys_example n)) ! 0 = \<lparr>m_type = 0x03030303, m_data = [104, 105] @ replicate 30 0\<rparr>"
    using assms by (simp add: ksys_example_state mq_list_def)
  have z: "replicate 30 (0 :: byte) = 0 # replicate 29 0" by (simp add: numeral_eq_Suc)
  have r: "reply (m_data \<lparr>m_type = 0x03030303, m_data = [104, 105] @ replicate 30 0\<rparr>) = [104, 105, 0, 0]" by (simp add: reply_def z)
  show "mq_ok (msgq (ksys_example n))" using assms by (simp add: mq_ok_def ksys_example_state)
  then show "length (mq_list (msgq (ksys_example n))) = nat n" by (simp add: length_mq_list) (simp add: ksys_example_state)
  show "m_type (mq_list (msgq (ksys_example n)) ! 0) = 0x03030303" by (simp add: 0)
  show "\<exists>x. vwrite 0x03030303 (reply (m_data (mq_list (msgq (ksys_example n)) ! 0))) (ksys_example n) = Ret () (ksys_example n\<lparr>mem := x\<rparr>)"
    unfolding 0 r by (simp add: bindK_def vstore8_def mmu_def ksys_example_state load32_def P2V_def PTE_ADDR_def PDX_def PTX_def) blast
qed

section \<open>Properties\<close>

text \<open>C33: The message queue keeps messages in the order in which they were sent. With valid arguments, \<open>sys_send\<close> refuses a message when
  64 are waiting and otherwise appends one with the given type, which will be delivered as the string
  of up to 31 bytes that was passed. \<open>sys_recv\<close> refuses when no message has the type, and otherwise
  stores the bytes of the first one and removes it, keeping all others in order; the one case that is
  excepted is a full queue whose first message is received.\<close>

theorem message_queue:
  fixes s :: "'z ksys_scheme"
  assumes "user_ok c s" "L_msgq \<notin> held s" "mq_ok (msgq s)" "argint 0 s = Ret (Some type) s" "argptr 1 32 s = Ret (Some a) s"
  shows "(if mq_count (msgq s) = 64 then sys_send s = Ret (-1) s
    else \<exists>bs q m. vread a 31 s = Ret bs s \<and> sys_send s = Ret 0 (s\<lparr>msgq := q\<rparr>) \<and> mq_ok q \<and> mq_list q = mq_list (msgq s) @ [m] \<and>
      m_type m = sint type \<and> reply (m_data m) = cstr bs @ (if length (cstr bs) < 31 then [0, 0] else [0])) \<and>
    (case find_idx (\<lambda>m. m_type m = sint type) (mq_list (msgq s)) of
      None \<Rightarrow> sys_recv s = Ret (-1) s
    | Some i \<Rightarrow> (\<forall>x. vwrite a (reply (m_data (mq_list (msgq s) ! i))) s = Ret () (s\<lparr>mem := x\<rparr>) \<longrightarrow> \<not> (mq_count (msgq s) = 64 \<and> i = 0) \<longrightarrow>
        (\<exists>q. sys_recv s = Ret 0 (s\<lparr>mem := x, msgq := q\<rparr>) \<and> mq_ok q \<and> mq_list q = remove_nth i (mq_list (msgq s)))))"
proof (rule conjI, goal_cases)
  case 1
  obtain bs where bs: "vread a 31 s = Ret bs s" "length bs = 31"
    "sys_send s = (if mq_count (msgq s) = 64 then Ret (-1) s else Ret 0 (s\<lparr>msgq := mq_put (sint type) (user_string 31 bs) (msgq s)\<rparr>))"
    using sys_send_run [OF assms(1,2,4,5)] by blast
  show ?case
  proof (cases "mq_count (msgq s) = 64")
    case False
    then obtain m where m: "mq_ok (mq_put (sint type) (user_string 31 bs) (msgq s))"
      "mq_list (mq_put (sint type) (user_string 31 bs) (msgq s)) = mq_list (msgq s) @ [m]" "m_type m = sint type" "cstr (m_data m) = cstr bs"
      using mq_put_list [OF assms(3) False bs(2), of "sint type"] by blast
    have "sys_send s = Ret 0 (s\<lparr>msgq := mq_put (sint type) (user_string 31 bs) (msgq s)\<rparr>)" using bs(3) False by simp
    then show ?thesis using m(1-3) reply_cstr [OF bs(2) m(4)] bs(1) False by auto
  qed (use bs(3) in simp)
next
  case 2
  show ?case using sys_recv_run [OF assms(2-5)] mq_remove_list [OF assms(3)]
    by (auto dest: find_idx_bound split: option.splits)
qed

theorem message_queue_witness:
  "\<exists>x q. sys_recv (ksys_example 3) = Ret 0 (ksys_example 3\<lparr>mem := x, msgq := q\<rparr>) \<and> length (mq_list q) = 2"
proof -
  note a = ksys_example_args [of 3]
  note q = ksys_example_queue [of 3, simplified]
  have f: "find_idx (\<lambda>m. m_type m = sint (0x03030303 :: u32)) (mq_list (msgq (ksys_example 3))) = Some 0"
    by (rule find_idx_SomeI) (use q(2,3) in simp_all)
  obtain x where x: "vwrite 0x03030303 (reply (m_data (mq_list (msgq (ksys_example 3)) ! 0))) (ksys_example 3) = Ret () (ksys_example 3\<lparr>mem := x\<rparr>)"
    using q(4) by blast
  have c: "mq_count (msgq (ksys_example 3)) = 3" by (simp add: ksys_example_state)
  obtain r where "sys_recv (ksys_example 3) = Ret 0 (ksys_example 3\<lparr>mem := x, msgq := r\<rparr>)" "mq_list r = remove_nth 0 (mq_list (msgq (ksys_example 3)))"
    using message_queue [OF a(1,2) q(1) a(3,4)] f x c by auto
  then show ?thesis using q(2) by (intro exI [of _ x] exI [of _ r]) (simp add: length_remove_nth)
qed

text \<open>C34: A message is delivered twice and another is lost when the queue is full and its first message is received. Then \<open>sys_recv\<close>
  succeeds, but what it drops is the last message: the first one stays in front, where the next
  \<open>sys_recv\<close> of its type finds it again. The loop that closes the gap starts at the index that it
  takes for its end.\<close>

theorem recv_full_repeats:
  fixes s :: "'z ksys_scheme"
  assumes "L_msgq \<notin> held s" "mq_ok (msgq s)" "argint 0 s = Ret (Some type) s" "argptr 1 32 s = Ret (Some a) s"
    "mq_count (msgq s) = 64" "m_type (mq_list (msgq s) ! 0) = sint type"
    "vwrite a (reply (m_data (mq_list (msgq s) ! 0))) s = Ret () (s\<lparr>mem := x\<rparr>)"
  shows "\<exists>q. sys_recv s = Ret 0 (s\<lparr>mem := x, msgq := q\<rparr>) \<and> mq_list q = butlast (mq_list (msgq s)) \<and> mq_find (sint type) q = Some 0"
proof -
  have "find_idx (\<lambda>m. m_type m = sint type) (mq_list (msgq s)) = Some 0"
    by (rule find_idx_SomeI) (use assms(5,6) length_mq_list [OF assms(2)] in simp_all)
  then show ?thesis using sys_recv_run [OF assms(1-4)] assms(5-7) mq_remove_full [OF assms(2,5)] by auto
qed

theorem recv_full_repeats_witness:
  "\<exists>x q. sys_recv (ksys_example 64) = Ret 0 (ksys_example 64\<lparr>mem := x, msgq := q\<rparr>) \<and> mq_find 0x03030303 q = Some 0"
proof -
  note a = ksys_example_args [of 64]
  note q = ksys_example_queue [of 64, simplified]
  obtain x where x: "vwrite 0x03030303 (reply (m_data (mq_list (msgq (ksys_example 64)) ! 0))) (ksys_example 64) = Ret () (ksys_example 64\<lparr>mem := x\<rparr>)"
    using q(4) by blast
  have c: "mq_count (msgq (ksys_example 64)) = 64" by (simp add: ksys_example_state)
  have m: "m_type (mq_list (msgq (ksys_example 64)) ! 0) = sint (0x03030303 :: u32)" using q(3) by simp
  show ?thesis using recv_full_repeats [OF a(2) q(1) a(3,4) c m x] by auto
qed

end
