(* ===== verification/Umalloc.thy ===== *)
theory Umalloc
  imports Memlayout
begin

text \<open>
  The allocator of user programs, \<^verbatim>\<open>umalloc.c\<close>, over the bytes of the process's memory. A header is two
  words, the pointer to the next free block and the size in units of 8 bytes. The free blocks form a
  ring through \<open>base\<close>, ordered by address. \<^verbatim>\<open>sbrk\<close> moves the end of memory the way \<^verbatim>\<open>growproc\<close> does;
  whether there is memory left for a size is the parameter \<open>enough\<close>. The contents of new memory are not
  relied on.
\<close>

section \<open>Headers\<close>

definition h_ptr :: "bmem \<Rightarrow> u32 \<Rightarrow> u32" where
  "h_ptr m p = load32 m p"

definition h_size :: "bmem \<Rightarrow> u32 \<Rightarrow> u32" where
  "h_size m p = load32 m (p + 4)"

definition set_ptr :: "u32 \<Rightarrow> u32 \<Rightarrow> bmem \<Rightarrow> bmem" where
  "set_ptr p v m = store32 m p v"

definition set_size :: "u32 \<Rightarrow> u32 \<Rightarrow> bmem \<Rightarrow> bmem" where
  "set_size p v m = store32 m (p + 4) v"

record uheap =
  umem :: bmem
  freep :: u32
  brk :: u32

section \<open>The allocator\<close>

text \<open>\<open>sbrk\<close>: the kernel refuses to grow up to \<open>KERNBASE\<close> or without memory, and does not shrink to nothing.\<close>

definition sbrk :: "(u32 \<Rightarrow> bool) \<Rightarrow> u32 \<Rightarrow> uheap \<Rightarrow> u32 \<times> uheap" where
  "sbrk enough n h =
     (let sz = brk h in
      if 0 < sint n then
        if KERNBASE \<le> sz + n then (-1, h)
        else if sz + n < sz then (sz, h)
        else if \<not> enough (sz + n) then (-1, h)
        else (sz, h\<lparr>brk := sz + n\<rparr>)
      else if sint n < 0 then
        if sz \<le> sz + n then if sz = 0 then (-1, h) else (sz, h)
        else if sz + n = 0 then (-1, h)
        else (sz, h\<lparr>brk := sz + n\<rparr>)
      else (sz, h))"

partial_function (option) free_find :: "bmem \<Rightarrow> u32 \<Rightarrow> u32 \<Rightarrow> u32 option" where
  "free_find m bp p =
     (if p < bp \<and> bp < h_ptr m p then Some p
      else if h_ptr m p \<le> p \<and> (p < bp \<or> bp < h_ptr m p) then Some p
      else free_find m bp (h_ptr m p))"

definition join_next :: "u32 \<Rightarrow> u32 \<Rightarrow> bmem \<Rightarrow> bmem" where
  "join_next bp p m =
     (if bp + 8 * h_size m bp = h_ptr m p then
        let m = set_size bp (h_size m bp + h_size m (h_ptr m p)) m
        in set_ptr bp (h_ptr m (h_ptr m p)) m
      else set_ptr bp (h_ptr m p) m)"

definition join_prev :: "u32 \<Rightarrow> u32 \<Rightarrow> bmem \<Rightarrow> bmem" where
  "join_prev bp p m =
     (if p + 8 * h_size m p = bp then
        let m = set_size p (h_size m p + h_size m bp) m
        in set_ptr p (h_ptr m bp) m
      else set_ptr p bp m)"

definition free :: "u32 \<Rightarrow> uheap \<Rightarrow> uheap option" where
  "free ap h =
     (let bp = ap - 8 in
      case free_find (umem h) bp (freep h) of
        None \<Rightarrow> None
      | Some p \<Rightarrow> Some (h\<lparr>umem := join_prev bp p (join_next bp p (umem h)), freep := p\<rparr>))"

definition morecore :: "(u32 \<Rightarrow> bool) \<Rightarrow> u32 \<Rightarrow> uheap \<Rightarrow> (u32 \<times> uheap) option" where
  "morecore enough nu h =
     (let nu = (if nu < 4096 then 4096 else nu) in
      case sbrk enough (nu * 8) h of (p, h) \<Rightarrow>
        if p = -1 then Some (0, h)
        else
          case free (p + 8) (h\<lparr>umem := set_size p nu (umem h)\<rparr>) of
            None \<Rightarrow> None
          | Some h \<Rightarrow> Some (freep h, h))"

text \<open>The part of \<open>malloc\<close> that takes the block \<open>p\<close>, the successor of \<open>prevp\<close>, or the end of it.\<close>

definition take_block :: "u32 \<Rightarrow> u32 \<Rightarrow> u32 \<Rightarrow> uheap \<Rightarrow> u32 \<times> uheap" where
  "take_block nunits p prevp h =
     (let m = umem h in
      if h_size m p = nunits then (p + 8, h\<lparr>umem := set_ptr prevp (h_ptr m p) m, freep := prevp\<rparr>)
      else
        let m = set_size p (h_size m p - nunits) m;
            q = p + 8 * h_size m p
        in (q + 8, h\<lparr>umem := set_size q nunits m, freep := prevp\<rparr>))"

partial_function (option) malloc_loop :: "(u32 \<Rightarrow> bool) \<Rightarrow> u32 \<Rightarrow> u32 \<Rightarrow> u32 \<Rightarrow> uheap \<Rightarrow> (u32 \<times> uheap) option" where
  "malloc_loop enough nunits p prevp h =
     (if nunits \<le> h_size (umem h) p then Some (take_block nunits p prevp h)
      else if p = freep h then
        (case morecore enough nunits h of
           None \<Rightarrow> None
         | Some r \<Rightarrow>
             if fst r = 0 then Some (0, snd r)
             else malloc_loop enough nunits (h_ptr (umem (snd r)) (fst r)) (fst r) (snd r))
      else malloc_loop enough nunits (h_ptr (umem h) p) p h)"

definition malloc :: "u32 \<Rightarrow> (u32 \<Rightarrow> bool) \<Rightarrow> u32 \<Rightarrow> uheap \<Rightarrow> (u32 \<times> uheap) option" where
  "malloc base enough nbytes h =
     (let nunits = (nbytes + 8 - 1) div 8 + 1;
          h = (if freep h = 0 then h\<lparr>umem := set_size base 0 (set_ptr base base (umem h)), freep := base\<rparr> else h)
      in malloc_loop enough nunits (h_ptr (umem h) (freep h)) (freep h) h)"

section \<open>Writing headers\<close>

definition hdr_at :: "u32 \<Rightarrow> bool" where
  "hdr_at a \<longleftrightarrow> a mod 4 = 0 \<and> unat a + 8 < 2 ^ 32"

definition apart :: "u32 \<Rightarrow> u32 \<Rightarrow> bool" where
  "apart a b \<longleftrightarrow> unat a + 8 \<le> unat b \<or> unat b + 8 \<le> unat a"

lemma hdr_words:
  assumes "hdr_at a"
  shows "a mod 4 = 0" "(a + 4) mod 4 = 0" "unat (a + 4) = unat a + 4"
proof -
  show a: "a mod 4 = 0" using assms by (simp add: hdr_at_def)
  show u: "unat (a + 4) = unat a + 4" using assms by (simp add: hdr_at_def unat_word_ariths)
  have "unat ((a + 4) mod 4) = unat (a mod 4)" unfolding unat_mod u by simp
  then show "(a + 4) mod 4 = 0" using a by (metis unat_eq_zero)
qed

lemma hdr_same [simp]:
  "h_ptr (set_ptr a v m) a = v" "h_size (set_size a v m) a = v"
  "hdr_at a \<Longrightarrow> h_size (set_ptr a v m) a = h_size m a" "hdr_at a \<Longrightarrow> h_ptr (set_size a v m) a = h_ptr m a"
  using hdr_words [of a] by (simp_all add: h_ptr_def h_size_def set_ptr_def set_size_def)

lemma hdr_other:
  assumes "hdr_at a" "hdr_at b" "apart a b"
  shows "h_ptr (set_ptr a v m) b = h_ptr m b" "h_ptr (set_size a v m) b = h_ptr m b"
    "h_size (set_ptr a v m) b = h_size m b" "h_size (set_size a v m) b = h_size m b"
proof -
  note a = hdr_words [OF assms(1)] and b = hdr_words [OF assms(2)]
  have "a \<noteq> b" "a + 4 \<noteq> b" "a \<noteq> b + 4" "a + 4 \<noteq> b + 4" using assms(3) a(3) b(3) by (auto simp: apart_def)
  then show "h_ptr (set_ptr a v m) b = h_ptr m b" "h_ptr (set_size a v m) b = h_ptr m b"
    "h_size (set_ptr a v m) b = h_size m b" "h_size (set_size a v m) b = h_size m b"
    using a b by (simp_all add: h_ptr_def h_size_def set_ptr_def set_size_def)
qed

lemma hdr_frame:
  assumes "hdr_at a" "unat x < unat a \<or> unat a + 8 \<le> unat x"
  shows "set_ptr a v m x = m x" "set_size a v m x = m x"
proof -
  have u: "unat (a + of_nat k) = unat a + k" if "k < 8" for k
    using assms(1) that by (simp add: hdr_at_def unat_word_ariths unat_of_nat)
  have "x \<noteq> a + of_nat k" if "k < 8" for k using u [OF that] assms(2) that by auto
  from this [of 0] this [of 1] this [of 2] this [of 3] this [of 4] this [of 5] this [of 6] this [of 7]
  show "set_ptr a v m x = m x" "set_size a v m x = m x" by (simp_all add: set_ptr_def set_size_def store32_def add.assoc)
qed

section \<open>The ring of free blocks\<close>

type_synonym block = "u32 \<times> nat"

definition next_addr :: "block list \<Rightarrow> u32 \<Rightarrow> u32" where
  "next_addr bs e = (case bs of [] \<Rightarrow> e | b # _ \<Rightarrow> fst b)"

fun chain :: "bmem \<Rightarrow> block list \<Rightarrow> u32 \<Rightarrow> bool" where
  "chain m [] e \<longleftrightarrow> True"
| "chain m ((a, n) # bs) e \<longleftrightarrow> h_ptr m a = next_addr bs e \<and> h_size m a = of_nat n \<and> chain m bs e"

lemma next_addr_simps [simp]: "next_addr [] e = e" "next_addr (b # bs) e = fst b" "next_addr (xs @ ys) e = next_addr xs (next_addr ys e)"
  by (simp_all add: next_addr_def split: list.splits)

lemma chain_append [simp]: "chain m (xs @ ys) e \<longleftrightarrow> chain m xs (next_addr ys e) \<and> chain m ys e"
  by (induction m xs e rule: chain.induct) auto

lemma chain_cong:
  assumes "\<And>b. b \<in> set bs \<Longrightarrow> h_ptr m' (fst b) = h_ptr m (fst b) \<and> h_size m' (fst b) = h_size m (fst b)"
  shows "chain m' bs e = chain m bs e"
  using assms
proof (induction bs)
  case (Cons b bs)
  obtain a n where b: "b = (a, n)" by fastforce
  have "h_ptr m' a = h_ptr m a" "h_size m' a = h_size m a" using Cons.prems [of b] b by simp_all
  then show ?case using Cons b by simp
qed simp

text \<open>The bytes of a block, and the order of free blocks: between two of them there is a gap.\<close>

definition bytes_of :: "block \<Rightarrow> nat set" where
  "bytes_of b = {unat (fst b) ..< unat (fst b) + 8 * snd b}"

definition before :: "block \<Rightarrow> block \<Rightarrow> bool" where
  "before b c \<longleftrightarrow> unat (fst b) + 8 * snd b < unat (fst c)"

text \<open>
  \<open>ring_ok\<close> describes the free list: it starts with \<open>base\<close>, which has size 0, every other block lies
  between \<open>base\<close> and the end of memory. \<open>heap_ok\<close> adds the blocks that are in use.
\<close>

definition block_ok :: "u32 \<Rightarrow> u32 \<Rightarrow> block \<Rightarrow> bool" where
  "block_ok base e b \<longleftrightarrow> fst b mod 4 = 0 \<and> 0 < snd b \<and> unat base + 8 \<le> unat (fst b) \<and> unat (fst b) + 8 * snd b \<le> unat e"

definition heap_ok :: "u32 \<Rightarrow> uheap \<Rightarrow> block list \<Rightarrow> block set \<Rightarrow> bool" where
  "heap_ok base h fs us \<longleftrightarrow>
     base mod 4 = 0 \<and> base \<noteq> 0 \<and> unat base + 8 \<le> unat (brk h) \<and> brk h mod 4 = 0 \<and> brk h \<le> KERNBASE \<and>
     chain (umem h) ((base, 0) # fs) base \<and> freep h \<in> fst ` set ((base, 0) # fs) \<and>
     (\<forall>b \<in> set fs \<union> us. block_ok base (brk h) b) \<and> sorted_wrt before fs \<and>
     (\<forall>b \<in> us. h_size (umem h) (fst b) = of_nat (snd b)) \<and>
     (\<forall>b \<in> us. \<forall>c \<in> set fs \<union> us. b \<noteq> c \<longrightarrow> bytes_of b \<inter> bytes_of c = {}) \<and> us \<inter> set fs = {}"

lemma block_okD:
  assumes "block_ok base e b" "e \<le> KERNBASE"
  shows "hdr_at (fst b)" "0 < snd b" "unat base + 8 \<le> unat (fst b)" "unat (fst b) + 8 * snd b \<le> unat e"
    "unat e \<le> 2147483648" "base < fst b" "base \<noteq> fst b"
proof -
  show e: "unat e \<le> 2147483648" using assms(2) by (simp add: word_le_nat_alt)
  show b: "0 < snd b" "unat base + 8 \<le> unat (fst b)" "unat (fst b) + 8 * snd b \<le> unat e" using assms(1) by (simp_all add: block_ok_def)
  then show "hdr_at (fst b)" using assms(1) e by (simp add: block_ok_def hdr_at_def)
  show "base < fst b" using b by (simp add: word_less_nat_alt)
  then show "base \<noteq> fst b" by simp
qed

lemma block_end:
  assumes "block_ok base e b" "e \<le> KERNBASE" "k \<le> snd b"
  shows "unat (fst b + 8 * of_nat k) = unat (fst b) + 8 * k" "unat (of_nat k :: u32) = k"
proof -
  have l: "unat (fst b) + 8 * k < 2 ^ 32" using block_okD(4,5) [OF assms(1,2)] assms(3) by simp
  then show k: "unat (of_nat k :: u32) = k" by (simp add: unat_of_nat)
  have "unat (8 * of_nat k :: u32) = 8 * k" using l k by (simp add: unat_word_ariths)
  then show "unat (fst b + 8 * of_nat k) = unat (fst b) + 8 * k" using l by (simp add: unat_word_ariths)
qed

section \<open>Finding the place of a block\<close>

lemma free_find_below:
  assumes "sorted_wrt (\<lambda>b c. fst b < fst c) (b # bs)" "chain m (b # bs) base" "fst b < bp" "\<forall>c \<in> set bs. fst c \<noteq> bp" "base \<le> fst b"
  shows "\<exists>xs c ys. b # bs = xs @ c # ys \<and> free_find m bp (fst b) = Some (fst c) \<and> fst c < bp \<and> (\<forall>d \<in> set ys. bp < fst d)"
  using assms
proof (induction bs arbitrary: b)
  case Nil
  obtain a n where b: "b = (a, n)" by fastforce
  then have "free_find m bp a = Some a" using Nil by (subst free_find.simps) simp
  then show ?case using Nil b by (intro exI [of _ "[]"]) simp
next
  case (Cons c cs)
  obtain a n where b: "b = (a, n)" by fastforce
  have n: "h_ptr m a = fst c" "a < fst c" using Cons.prems b by simp_all
  show ?case
  proof (cases "bp < fst c")
    case True
    then have "free_find m bp a = Some a" using Cons.prems n b by (subst free_find.simps) simp
    moreover have "\<forall>d \<in> set (c # cs). bp < fst d" using True Cons.prems(1) by auto
    ultimately show ?thesis using Cons.prems b by (intro exI [of _ "[]"]) simp
  next
    case False
    then have "fst c < bp" using Cons.prems(4) by (metis list.set_intros(1) not_less_iff_gr_or_eq)
    moreover have "free_find m bp a = free_find m bp (fst c)" using False n by (subst free_find.simps) auto
    moreover have "base \<le> fst c" using Cons.prems(5) n b by simp
    ultimately obtain xs d ys where "c # cs = xs @ d # ys" "free_find m bp a = Some (fst d)" "fst d < bp" "\<forall>e \<in> set ys. bp < fst e"
      using Cons.IH [of c] Cons.prems(1,2,4) b by auto
    then show ?thesis using b by (intro exI [of _ "b # xs"]) auto
  qed
qed

lemma free_find_above:
  assumes "sorted_wrt (\<lambda>b c. fst b < fst c) bs" "chain m bs base" "\<forall>c \<in> set bs. bp < fst c" "base < bp"
  shows "free_find m bp (next_addr bs base) = free_find m bp base"
  using assms
proof (induction bs)
  case (Cons b bs)
  obtain a n where b: "b = (a, n)" by fastforce
  have "next_addr bs base \<le> a \<longrightarrow> bs = []" using Cons.prems(1) b by (cases bs) auto
  then have "free_find m bp a = free_find m bp (next_addr bs base)"
    using Cons.prems b by (subst free_find.simps) auto
  then show ?case using Cons b by simp
qed simp

lemma free_find_run:
  assumes "sorted_wrt (\<lambda>b c. fst b < fst c) (b # bs)" "chain m (b # bs) (fst b)" "fst b < bp" "\<forall>c \<in> set bs. fst c \<noteq> bp" "p \<in> fst ` set (b # bs)"
  shows "\<exists>xs c ys. b # bs = xs @ c # ys \<and> free_find m bp p = Some (fst c) \<and> fst c < bp \<and> (\<forall>d \<in> set ys. bp < fst d)"
proof -
  obtain us v ws where s: "b # bs = us @ v # ws" "p = fst v" using assms(5) by (metis imageE split_list)
  have ch: "chain m (v # ws) (fst b)" "sorted_wrt (\<lambda>b c. fst b < fst c) (v # ws)" using assms(1,2) s(1) by (metis chain_append) (metis assms(1) s(1) sorted_wrt_append)
  have lo: "fst b \<le> fst v" using assms(1) s(1) by (cases us) (auto simp: less_imp_le)
  show ?thesis
  proof (cases "fst v < bp")
    case True
    have "\<forall>c \<in> set ws. fst c \<noteq> bp" using s(1) assms(4) by (cases us) auto
    then obtain xs c ys where "v # ws = xs @ c # ys" "free_find m bp (fst v) = Some (fst c)" "fst c < bp" "\<forall>d \<in> set ys. bp < fst d"
      using free_find_below [OF ch(2,1) True _ lo] by blast
    then show ?thesis using s by (intro exI [of _ "us @ xs"]) auto
  next
    case False
    then have "v \<in> set bs" using s(1) assms(3) by (cases us) auto
    then have "bp < fst v" using False assms(4) by auto
    then have "\<forall>c \<in> set (v # ws). bp < fst c" using ch(2) by auto
    then have "free_find m bp p = free_find m bp (fst b)" using free_find_above [OF ch(2,1)] assms(3) s(2) by simp
    then show ?thesis using free_find_below [OF assms(1,2,3,4)] by simp
  qed
qed

section \<open>Headers that do not overlap\<close>

definition hdrs :: "u32 set \<Rightarrow> bool" where
  "hdrs S \<longleftrightarrow> (\<forall>a \<in> S. hdr_at a \<and> (\<forall>b \<in> S. a \<noteq> b \<longrightarrow> apart a b))"

definition fin :: "block \<Rightarrow> nat" where
  "fin b = unat (fst b) + 8 * snd b"

lemma hdrs_other:
  assumes "hdrs S" "a \<in> S" "b \<in> S" "a \<noteq> b"
  shows "h_ptr (set_ptr a v m) b = h_ptr m b" "h_ptr (set_size a v m) b = h_ptr m b"
    "h_size (set_ptr a v m) b = h_size m b" "h_size (set_size a v m) b = h_size m b"
  using hdr_other [of a b] assms by (auto simp: hdrs_def)

lemma chain_write:
  assumes "hdrs S" "a \<in> S" "fst ` set bs \<subseteq> S - {a}"
  shows "chain (set_ptr a v m) bs e = chain m bs e" "chain (set_size a v m) bs e = chain m bs e"
  using assms by (auto intro!: chain_cong hdrs_other)

lemma disjoint_order:
  assumes "bytes_of b \<inter> bytes_of c = {}" "0 < snd b" "0 < snd c"
  shows "fin b \<le> unat (fst c) \<or> fin c \<le> unat (fst b)"
proof (rule ccontr)
  assume "\<not> ?thesis"
  then have "max (unat (fst b)) (unat (fst c)) \<in> bytes_of b \<inter> bytes_of c" using assms(2,3) by (auto simp: bytes_of_def fin_def max_def)
  then show False using assms(1) by simp
qed

lemma heap_okD:
  assumes "heap_ok base h fs us"
  shows "\<And>b. b \<in> set fs \<union> us \<Longrightarrow> block_ok base (brk h) b" "brk h \<le> KERNBASE" "hdr_at base" "sorted_wrt before ((base, 0) # fs)"
    "chain (umem h) ((base, 0) # fs) base" "freep h \<in> fst ` set ((base, 0) # fs)"
proof -
  show b: "\<And>b. b \<in> set fs \<union> us \<Longrightarrow> block_ok base (brk h) b" and k: "brk h \<le> KERNBASE"
    and "chain (umem h) ((base, 0) # fs) base" "freep h \<in> fst ` set ((base, 0) # fs)"
    using assms by (simp_all add: heap_ok_def)
  have "unat (brk h) \<le> 2147483648" using k by (simp add: word_le_nat_alt)
  then show "hdr_at base" using assms by (simp add: heap_ok_def hdr_at_def)
  have "before (base, 0) c" if "c \<in> set fs" for c using block_okD(3) [OF b k, of c] that by (simp add: before_def)
  then show "sorted_wrt before ((base, 0) # fs)" using assms by (simp add: heap_ok_def)
qed

lemma heap_disjoint:
  assumes "heap_ok base h fs us" "b \<in> us" "c \<in> set fs \<union> us" "b \<noteq> c"
  shows "bytes_of b \<inter> bytes_of c = {}"
proof -
  have "\<forall>b \<in> us. \<forall>c \<in> set fs \<union> us. b \<noteq> c \<longrightarrow> bytes_of b \<inter> bytes_of c = {}" using assms(1) unfolding heap_ok_def by (elim conjE)
  then show ?thesis using assms(2-4) by metis
qed

lemma heap_used:
  assumes "heap_ok base h fs us" "b \<in> us"
  shows "b \<notin> set ((base, 0) # fs)" "h_size (umem h) (fst b) = of_nat (snd b)"
proof -
  have "us \<inter> set fs = {}" "\<forall>b \<in> us. h_size (umem h) (fst b) = of_nat (snd b)" using assms(1) by (simp_all add: heap_ok_def)
  moreover have "0 < snd b" using block_okD(2) [OF heap_okD(1,2) [OF assms(1)]] assms by blast
  ultimately show "b \<notin> set ((base, 0) # fs)" "h_size (umem h) (fst b) = of_nat (snd b)" using assms(2) by auto
qed

lemma sorted_before:
  assumes "sorted_wrt before bs" "b \<in> set bs" "c \<in> set bs"
  shows "b = c \<or> before b c \<or> before c b"
  using assms by (induction bs) auto

lemma heap_order:
  assumes "heap_ok base h fs us" "b \<in> set ((base, 0) # fs) \<union> us" "c \<in> set ((base, 0) # fs) \<union> us" "b \<noteq> c"
  shows "fin b \<le> unat (fst c) \<and> unat (fst b) + 8 \<le> unat (fst c) \<or> fin c \<le> unat (fst b) \<and> unat (fst c) + 8 \<le> unat (fst b)"
proof -
  note ok = block_okD [OF heap_okD(1) [OF assms(1)] heap_okD(2) [OF assms(1)]]
  consider "b = (base, 0)" "c \<in> set fs \<union> us" | "c = (base, 0)" "b \<in> set fs \<union> us" | "b \<in> set fs \<union> us" "c \<in> set fs \<union> us" using assms by auto
  then show ?thesis
  proof cases
    case 3
    have "fin b \<le> unat (fst c) \<or> fin c \<le> unat (fst b)"
    proof (cases "b \<in> us \<or> c \<in> us")
      case True
      then have "bytes_of b \<inter> bytes_of c = {}"
        using heap_disjoint [OF assms(1) _ 3(2) assms(4)] heap_disjoint [OF assms(1) _ 3(1) assms(4) [symmetric]] by (metis Int_commute)
      then show ?thesis by (rule disjoint_order [OF _ ok(2) [OF 3(1)] ok(2) [OF 3(2)]])
    next
      case False
      then have "before b c \<or> before c b" using sorted_before [of fs b c] heap_okD(4) [OF assms(1)] assms(4) 3 by auto
      then show ?thesis by (auto simp: before_def fin_def)
    qed
    then show ?thesis using ok(2) [OF 3(1)] ok(2) [OF 3(2)] by (auto simp: fin_def)
  qed (use ok(3) [of b] ok(3) [of c] in \<open>auto simp: fin_def\<close>)
qed

lemma heap_hdrs:
  assumes "heap_ok base h fs us"
  shows "hdrs (fst ` (set ((base, 0) # fs) \<union> us))"
proof -
  have "hdr_at (fst b)" if "b \<in> set ((base, 0) # fs) \<union> us" for b
    using that heap_okD(3) [OF assms] block_okD(1) [OF heap_okD(1) [OF assms] heap_okD(2) [OF assms], of b] by auto
  moreover have "apart (fst b) (fst c)" if "b \<in> set ((base, 0) # fs) \<union> us" "c \<in> set ((base, 0) # fs) \<union> us" "fst b \<noteq> fst c" for b c
    using heap_order [OF assms that(1,2)] that(3) by (auto simp: apart_def)
  ultimately show ?thesis unfolding hdrs_def by blast
qed

section \<open>Merging\<close>

text \<open>A block in front of others, joined with the first one if they touch.\<close>

definition attach :: "block \<Rightarrow> block list \<Rightarrow> block list" where
  "attach c ds = (case ds of [] \<Rightarrow> [c] | d # zs \<Rightarrow> if fin c = unat (fst d) then (fst c, snd c + snd d) # zs else c # ds)"

lemma attach_ok:
  assumes "sorted_wrt before ds" "\<forall>y \<in> set ds. fin c \<le> unat (fst y)"
  obtains k zs where "attach c ds = (fst c, k) # zs" "sorted_wrt before ((fst c, k) # zs)" "snd c \<le> k" "set zs \<subseteq> set ds"
    "(\<Union>b \<in> set ((fst c, k) # zs). bytes_of b) = bytes_of c \<union> (\<Union>b \<in> set ds. bytes_of b)"
    "\<And>B E. block_ok B E c \<Longrightarrow> \<forall>d \<in> set ds. block_ok B E d \<Longrightarrow> block_ok B E (fst c, k)"
proof (cases ds)
  case Nil
  then show ?thesis by (intro that [of "snd c" "[]"]) (simp_all add: attach_def)
next
  case (Cons d zs)
  show ?thesis
  proof (cases "fin c = unat (fst d)")
    case True
    have "bytes_of (fst c, snd c + snd d) = bytes_of c \<union> bytes_of d" using True by (auto simp: bytes_of_def fin_def)
    moreover have "sorted_wrt before ((fst c, snd c + snd d) # zs)" using assms(1) Cons True by (auto simp: before_def fin_def)
    ultimately show ?thesis using Cons True
      by (intro that [of "snd c + snd d" zs]) (auto simp: attach_def block_ok_def fin_def)
  next
    case False
    have "sorted_wrt before (c # ds)" using assms Cons False by (auto simp: before_def fin_def dest!: bspec)
    then show ?thesis using Cons False by (intro that [of "snd c" ds]) (auto simp: attach_def)
  qed
qed

lemma attach_covers: "d \<in> set (c # ds) \<Longrightarrow> \<exists>b \<in> set (attach c ds). bytes_of d \<subseteq> bytes_of b"
  by (auto simp: attach_def bytes_of_def fin_def split: list.splits)

lemma fin_word:
  assumes "fin b < 2 ^ 32"
  shows "fst b + 8 * of_nat (snd b) = a \<longleftrightarrow> fin b = unat a"
proof -
  have "unat (of_nat (snd b) :: u32) = snd b" using assms by (simp add: fin_def unat_of_nat)
  then have "unat (8 * of_nat (snd b) :: u32) = 8 * snd b" using assms by (simp add: fin_def unat_word_ariths)
  then have "unat (fst b + 8 * of_nat (snd b)) = fin b" using assms by (simp add: fin_def unat_word_ariths)
  then show ?thesis by (metis word_unat_eq_iff)
qed

lemma join_next_run:
  assumes S: "hdrs S" "bp \<in> S" "fst c \<in> S" "fst ` set ys \<subseteq> S" "bp \<notin> insert (fst c) (fst ` set ys)"
    and m: "h_ptr m (fst c) = next_addr ys base" "chain m ys base" "h_size m bp = of_nat n" "fin (bp, n) < 2 ^ 32" "fin (bp, n) > unat base"
  shows "chain (join_next bp (fst c) m) (attach (bp, n) ys) base"
proof (cases ys)
  case Nil
  have "bp + 8 * of_nat n \<noteq> base" using fin_word [of "(bp, n)" base] m(4,5) by simp
  then show ?thesis using m(1,3) S(1,2) Nil by (simp add: join_next_def attach_def hdrs_def)
next
  case (Cons y zs)
  obtain a k where y: "y = (a, k)" by fastforce
  have h: "hdr_at bp" "a \<in> S" "a \<noteq> bp" "fst ` set zs \<subseteq> S - {bp}" using S Cons y by (auto simp: hdrs_def)
  have c: "h_ptr m (fst c) = a" "h_ptr m a = next_addr zs base" "h_size m a = of_nat k" "chain m zs base" using m(1,2) Cons y by simp_all
  note o = hdrs_other [OF S(1,2) h(2) h(3) [symmetric]] hdrs_other [OF S(1,2,3)] chain_write [OF S(1,2) h(4)]
  have cb: "bp \<noteq> fst c" using S(5) by auto
  show ?thesis
  proof (cases "fin (bp, n) = unat a")
    case True
    then have "bp + 8 * of_nat n = a" using fin_word [of "(bp, n)" a] m(4) by simp
    then show ?thesis using True Cons y c h(1) m(3) cb by (simp add: join_next_def attach_def o Let_def)
  next
    case False
    then have "bp + 8 * of_nat n \<noteq> a" using fin_word [of "(bp, n)" a] m(4) by simp
    then show ?thesis using False Cons y c h(1) m(3) by (simp add: join_next_def attach_def o)
  qed
qed

lemma join_next_other:
  assumes "hdrs S" "bp \<in> S" "a \<in> S" "a \<noteq> bp"
  shows "h_ptr (join_next bp p m) a = h_ptr m a" "h_size (join_next bp p m) a = h_size m a"
  using hdrs_other [OF assms(1-3) assms(4) [symmetric]] by (simp_all add: join_next_def Let_def)

lemma join_prev_run:
  assumes S: "hdrs S" "bp \<in> S" "fst ` set (xs @ [c]) \<subseteq> S" "bp \<notin> fst ` set (xs @ [c])" "fst c \<notin> fst ` set (xs @ zs)" "fst ` set zs \<subseteq> S"
    and m: "chain m (xs @ [c]) e" "chain m ((bp, n) # zs) base" "fin c < 2 ^ 32"
  shows "chain (join_prev bp (fst c) m) (xs @ attach c ((bp, n) # zs)) base"
proof -
  obtain a k where c: "c = (a, k)" by fastforce
  have h: "hdr_at a" "a \<in> S" "a \<noteq> bp" "fst ` set zs \<subseteq> S - {a}" "fst ` set xs \<subseteq> S - {a}" using S c by (auto simp: hdrs_def)
  have s: "h_size m a = of_nat k" "chain m xs a" "h_ptr m bp = next_addr zs base" "h_size m bp = of_nat n" "chain m zs base" using m c by simp_all
  note o = hdrs_other [OF S(1) h(2) S(2) h(3)] chain_write [OF S(1) h(2,4)] chain_write [OF S(1) h(2,5)]
  have e: "a + 8 * of_nat k = bp \<longleftrightarrow> fin (a, k) = unat bp" using fin_word [of c bp] m(3) c by simp
  show ?thesis using c s h(1) by (simp add: join_prev_def attach_def e o Let_def)
qed

lemma join_prev_other:
  assumes "hdrs S" "p \<in> S" "a \<in> S" "a \<noteq> p"
  shows "h_ptr (join_prev bp p m) a = h_ptr m a" "h_size (join_prev bp p m) a = h_size m a"
  using hdrs_other [OF assms(1-3) assms(4) [symmetric]] by (simp_all add: join_prev_def Let_def)

lemma join_frame:
  assumes "hdr_at bp" "hdr_at p" "unat x < unat bp \<or> unat bp + 8 \<le> unat x" "unat x < unat p \<or> unat p + 8 \<le> unat x"
  shows "join_prev bp p (join_next bp p m) x = m x"
  using hdr_frame [OF assms(1,3)] hdr_frame [OF assms(2,4)] by (simp add: join_prev_def join_next_def Let_def)

section \<open>Freeing\<close>

text \<open>The bytes of the free list, and the memory that an operation may change when it leaves these bytes free.\<close>

definition free_bytes :: "block list \<Rightarrow> nat set" where
  "free_bytes fs = (\<Union>b \<in> set fs. bytes_of b)"

definition same_outside :: "u32 \<Rightarrow> nat set \<Rightarrow> bmem \<Rightarrow> bmem \<Rightarrow> bool" where
  "same_outside base X m m' \<longleftrightarrow> (\<forall>x. unat x \<notin> X \<and> unat x \<notin> {unat base ..< unat base + 8} \<longrightarrow> m' x = m x)"

text \<open>The free list with one more block, at its place.\<close>

lemma ring_insert:
  assumes srt: "sorted_wrt before ((base, 0) # fs)" and R: "(base, 0) # fs = xs @ c # ys"
    and d: "fin c \<le> unat (fst d)" "unat base < unat (fst d)" "\<forall>y \<in> set ys. fin d \<le> unat (fst y)" "0 < snd d"
    and ok: "\<forall>b \<in> insert d (set fs). block_ok base e b"
  obtains k zs gs where "attach d ys = (fst d, k) # zs" "set zs \<subseteq> set ys" "xs @ attach c (attach d ys) = (base, 0) # gs"
    "sorted_wrt before ((base, 0) # gs)" "\<forall>b \<in> set gs. block_ok base e b" "free_bytes gs = free_bytes fs \<union> bytes_of d"
    "fst c \<in> fst ` set ((base, 0) # gs)" "\<exists>b \<in> set gs. bytes_of d \<subseteq> bytes_of b"
proof -
  have s: "sorted_wrt before (xs @ c # ys)" using srt R by simp
  obtain k zs where k: "attach d ys = (fst d, k) # zs" "sorted_wrt before ((fst d, k) # zs)" "snd d \<le> k" "set zs \<subseteq> set ys"
    "(\<Union>b \<in> set ((fst d, k) # zs). bytes_of b) = bytes_of d \<union> (\<Union>b \<in> set ys. bytes_of b)"
    "\<And>B E. block_ok B E d \<Longrightarrow> \<forall>d \<in> set ys. block_ok B E d \<Longrightarrow> block_ok B E (fst d, k)"
    using attach_ok [of ys d] s d(3) by (auto simp: sorted_wrt_append)
  have "\<forall>y \<in> set ys. fin c \<le> unat (fst y)" using s by (auto simp: sorted_wrt_append before_def fin_def)
  then have cy: "\<forall>y \<in> set ((fst d, k) # zs). fin c \<le> unat (fst y)" using d(1) k(4) by auto
  obtain l ws where l: "attach c ((fst d, k) # zs) = (fst c, l) # ws" "sorted_wrt before ((fst c, l) # ws)" "snd c \<le> l" "set ws \<subseteq> set ((fst d, k) # zs)"
    "(\<Union>b \<in> set ((fst c, l) # ws). bytes_of b) = bytes_of c \<union> (\<Union>b \<in> set ((fst d, k) # zs). bytes_of b)"
    "\<And>B E. block_ok B E c \<Longrightarrow> \<forall>d \<in> set ((fst d, k) # zs). block_ok B E d \<Longrightarrow> block_ok B E (fst c, l)"
    using attach_ok [OF k(2) cy] by metis
  have srt': "sorted_wrt before (xs @ (fst c, l) # ws)"
    using s l(2) l(4) k(4) d(1) by (fastforce simp: sorted_wrt_append before_def fin_def)
  have okd: "\<forall>b \<in> set ((fst d, k) # zs). block_ok base e b"
  proof -
    have "\<forall>b \<in> set ys. block_ok base e b" using ok R by (cases xs) auto
    then show ?thesis using k(4,6) ok by auto
  qed
  have un: "(\<Union>b \<in> set (xs @ (fst c, l) # ws). bytes_of b) = free_bytes fs \<union> bytes_of d"
  proof -
    have "free_bytes fs = (\<Union>b \<in> set (xs @ c # ys). bytes_of b)" unfolding R [symmetric] by (simp add: free_bytes_def bytes_of_def)
    then show ?thesis using k(5) l(5) by auto
  qed
  obtain gs where gs: "xs @ (fst c, l) # ws = (base, 0) # gs" "\<forall>b \<in> set gs. block_ok base e b"
  proof (cases xs)
    case Nil
    then have c: "c = (base, 0)" using R by simp
    then have "(fst c, l) # ws = (base, 0) # (fst d, k) # zs" using l(1) d(2) by (simp add: attach_def fin_def split: if_splits)
    then show ?thesis using Nil okd by (intro that [of "(fst d, k) # zs"]) simp_all
  next
    case (Cons x xs')
    then have "x = (base, 0)" "set fs = set xs' \<union> insert c (set ys)" using R by auto
    then show ?thesis using Cons ok okd l(4) l(6) [of base e] by (intro that [of "xs' @ (fst c, l) # ws"]) auto
  qed
  obtain b1 where b1: "b1 \<in> set (c # (fst d, k) # zs)" "bytes_of d \<subseteq> bytes_of b1" using attach_covers [of d d ys] unfolding k(1) by auto
  obtain b2 where b2: "b2 \<in> set ((fst c, l) # ws)" "bytes_of b1 \<subseteq> bytes_of b2" using attach_covers [OF b1(1)] unfolding l(1) by blast
  then have "\<exists>b \<in> set (xs @ (fst c, l) # ws). bytes_of d \<subseteq> bytes_of b" by (intro bexI [of _ b2]) (use b1(2) b2 in auto)
  then have "\<exists>b \<in> set gs. bytes_of d \<subseteq> bytes_of b" using gs(1) d(4) by (auto simp: bytes_of_def)
  moreover have "free_bytes gs = free_bytes fs \<union> bytes_of d" using un unfolding gs(1) by (simp add: free_bytes_def bytes_of_def)
  moreover have "fst c \<in> fst ` set ((base, 0) # gs)" unfolding gs(1) [symmetric] by simp
  ultimately show ?thesis using that [of k zs gs] k(1,4) l(1) gs srt' by simp
qed

lemma free_bytes_disjoint:
  assumes "heap_ok base h fs us" "b \<in> us"
  shows "bytes_of b \<inter> free_bytes fs = {}"
proof -
  have "bytes_of b \<inter> bytes_of c = {}" if "c \<in> set fs" for c using heap_disjoint [OF assms, of c] heap_used(1) [OF assms] that by auto
  then show ?thesis unfolding free_bytes_def by blast
qed

text \<open>A well-formed heap from its parts, once the free bytes are known to lie apart from the used blocks.\<close>

lemma heap_okI:
  assumes "heap_ok base h fs us" "brk h \<le> brk h'" "brk h' mod 4 = 0" "brk h' \<le> KERNBASE"
    and "chain (umem h') ((base, 0) # gs) base" "freep h' \<in> fst ` set ((base, 0) # gs)" "sorted_wrt before ((base, 0) # gs)"
    and "\<forall>b \<in> set gs \<union> vs. block_ok base (brk h') b" "\<forall>b \<in> vs. h_size (umem h') (fst b) = of_nat (snd b)"
    and dis: "\<And>b. b \<in> vs \<Longrightarrow> bytes_of b \<inter> free_bytes gs = {}"
    and "\<And>b c. b \<in> vs \<Longrightarrow> c \<in> vs \<Longrightarrow> b \<noteq> c \<Longrightarrow> bytes_of b \<inter> bytes_of c = {}"
  shows "heap_ok base h' gs vs"
proof -
  have g: "bytes_of b \<inter> bytes_of c = {}" if "b \<in> vs" "c \<in> set gs" for b c using dis [OF that(1)] that(2) unfolding free_bytes_def by blast
  have "vs \<inter> set gs = {}"
  proof (rule equals0I)
    fix b assume b: "b \<in> vs \<inter> set gs"
    then have "0 < snd b" using assms(8) by (auto simp: block_ok_def)
    then have "unat (fst b) \<in> bytes_of b" by (simp add: bytes_of_def)
    then show False using g [of b b] b by auto
  qed
  moreover have "unat base + 8 \<le> unat (brk h')" using assms(1,2) by (auto simp: heap_ok_def word_le_nat_alt)
  moreover have "\<forall>b \<in> vs. \<forall>c \<in> set gs \<union> vs. b \<noteq> c \<longrightarrow> bytes_of b \<inter> bytes_of c = {}" using g assms(11) by (metis Un_iff)
  ultimately show ?thesis using assms(1,3-9) by (simp add: heap_ok_def)
qed

text \<open>The place that \<open>free\<close> finds for a used block.\<close>

lemma free_place:
  assumes ok: "heap_ok base h fs us" and d: "d \<in> us"
  obtains xs c ys where "(base, 0) # fs = xs @ c # ys" "free_find (umem h) (fst d) (freep h) = Some (fst c)"
    "fin c \<le> unat (fst d)" "unat (fst c) + 8 \<le> unat (fst d)" "\<forall>y \<in> set ys. fin d \<le> unat (fst y) \<and> unat (fst d) + 8 \<le> unat (fst y)"
proof -
  note D = heap_okD [OF ok]
  have b: "0 < snd d" "base < fst d" using block_okD(2,6) [OF D(1) D(2), of d] d by simp_all
  have ord: "fin c \<le> unat (fst d) \<and> unat (fst c) + 8 \<le> unat (fst d) \<or> fin d \<le> unat (fst c) \<and> unat (fst d) + 8 \<le> unat (fst c)"
    if "c \<in> set ((base, 0) # fs)" for c
    by (intro heap_order [OF ok]) (use that d heap_used(1) [OF ok d] in auto)
  have lt: "sorted_wrt (\<lambda>b c. fst b < fst c) ((base, 0) # fs)"
    by (rule sorted_wrt_mono_rel [OF _ D(4)]) (simp add: before_def word_less_nat_alt)
  have ne: "\<forall>c \<in> set fs. fst c \<noteq> fst d"
  proof
    fix c assume "c \<in> set fs"
    then show "fst c \<noteq> fst d" using ord [of c] by auto
  qed
  have ch: "chain (umem h) ((base, 0) # fs) (fst (base, 0 :: nat))" "fst (base, 0 :: nat) < fst d" using D(5) b(2) by simp_all
  obtain xs c ys where R: "(base, 0) # fs = xs @ c # ys" and f: "free_find (umem h) (fst d) (freep h) = Some (fst c)" "fst c < fst d" "\<forall>e \<in> set ys. fst d < fst e"
    using free_find_run [OF lt ch ne D(6)] by blast
  have inR: "set (xs @ c # ys) = set ((base, 0) # fs)" using R by simp
  have "fin c \<le> unat (fst d)" "unat (fst c) + 8 \<le> unat (fst d)" using ord [of c] f(2) inR by (auto simp: word_less_nat_alt)
  moreover have "fin d \<le> unat (fst y) \<and> unat (fst d) + 8 \<le> unat (fst y)" if y: "y \<in> set ys" for y
  proof -
    have "y \<in> set ((base, 0) # fs)" using y unfolding inR [symmetric] by simp
    moreover have "unat (fst d) < unat (fst y)" using f(3) y by (simp add: word_less_nat_alt)
    ultimately show ?thesis using ord [of y] by linarith
  qed
  ultimately show ?thesis using that [OF R f(1)] by blast
qed

text \<open>What the two joins leave in memory: the new list, the sizes of the other blocks, and all bytes outside the two headers.\<close>

lemma joins_chain:
  assumes ok: "heap_ok base h fs us" and d: "d \<in> us" and R: "(base, 0) # fs = xs @ c # ys" and att: "attach d ys = (fst d, k) # zs" "set zs \<subseteq> set ys"
    and c: "unat (fst c) + 8 \<le> unat (fst d)" and y: "\<forall>y \<in> set ys. unat (fst d) + 8 \<le> unat (fst y)"
  shows "chain (join_prev (fst d) (fst c) (join_next (fst d) (fst c) (umem h))) (xs @ attach c (attach d ys)) base"
proof -
  let ?S = "fst ` (set ((base, 0) # fs) \<union> us)" and ?m = "join_next (fst d) (fst c) (umem h)"
  note D = heap_okD [OF ok]
  have S: "hdrs ?S" "fst d \<in> ?S" "fst ` set (xs @ c # ys) \<subseteq> ?S" using heap_hdrs [OF ok] d unfolding R by auto
  have ch: "chain (umem h) (xs @ [c]) (next_addr ys base)" "chain (umem h) ys base" "h_ptr (umem h) (fst c) = next_addr ys base"
    using D(5) unfolding R by (cases c; simp)+
  have srt: "sorted_wrt before (xs @ c # ys)" using D(4) unfolding R .
  have x: "unat (fst x) < unat (fst c)" if "x \<in> set xs" for x using srt that by (auto simp: sorted_wrt_append before_def)
  have fresh: "fst d \<notin> insert (fst c) (fst ` set ys)" "fst d \<notin> fst ` set (xs @ [c])" "fst c \<notin> fst ` set (xs @ zs)"
    using c y att(2) x by fastforce+
  have fd: "fin d < 2 ^ 32" "unat base < fin d" "fin c < 2 ^ 32" and n: "h_size (umem h) (fst d) = of_nat (snd d)"
  proof -
    note b = block_okD [OF D(1) D(2), of d]
    show "fin d < 2 ^ 32" "unat base < fin d" using b(3-5) d by (auto simp: fin_def)
    have "c = (base, 0) \<or> c \<in> set fs" using R by (cases xs) auto
    then show "fin c < 2 ^ 32" using block_okD(4,5) [OF D(1) D(2), of c] D(3) by (auto simp: fin_def hdr_at_def)
    show "h_size (umem h) (fst d) = of_nat (snd d)" by (rule heap_used(2) [OF ok d])
  qed
  have m: "chain ?m ((fst d, k) # zs) base"
    using join_next_run [OF S(1,2) _ _ fresh(1) ch(3,2) n] fd(1,2) S(3) att(1) by auto
  have "chain ?m (xs @ [c]) (next_addr ys base) = chain (umem h) (xs @ [c]) (next_addr ys base)"
  proof (rule chain_cong)
    fix b assume b: "b \<in> set (xs @ [c])"
    then have "fst b \<in> fst ` set (xs @ c # ys)" "fst b \<noteq> fst d" using fresh(2) by (auto simp: image_iff)
    then show "h_ptr ?m (fst b) = h_ptr (umem h) (fst b) \<and> h_size ?m (fst b) = h_size (umem h) (fst b)"
      using join_next_other [OF S(1,2) subsetD [OF S(3)]] by blast
  qed
  then show ?thesis unfolding att(1)
    by (intro join_prev_run [OF S(1,2) _ fresh(2,3) _ _ m fd(3), of "next_addr ys base"]) (use ch(1) S(3) att(2) in auto)
qed

lemma joins_used:
  assumes ok: "heap_ok base h fs us" and d: "d \<in> us" and c: "c \<in> set ((base, 0) # fs)" and e: "e \<in> us - {d}"
  shows "h_size (join_prev (fst d) (fst c) (join_next (fst d) (fst c) (umem h))) (fst e) = of_nat (snd e)"
proof -
  let ?S = "fst ` (set ((base, 0) # fs) \<union> us)"
  have u: "e \<in> us" "e \<noteq> d" "e \<noteq> c" using e c heap_used(1) [OF ok, of e] by auto
  have "fst e \<noteq> fst d" "fst e \<noteq> fst c" using heap_order [OF ok, of e d] heap_order [OF ok, of e c] u d c by auto
  moreover have "fst e \<in> ?S" "fst d \<in> ?S" "fst c \<in> ?S" using u(1) d c by (blast intro: imageI)+
  ultimately show ?thesis
    using join_prev_other(2) [OF heap_hdrs [OF ok]] join_next_other(2) [OF heap_hdrs [OF ok]] heap_used(2) [OF ok u(1)] by simp
qed

lemma joins_frame:
  assumes ok: "heap_ok base h fs us" and d: "d \<in> us" and c: "c \<in> set ((base, 0) # fs)"
  shows "same_outside base (free_bytes fs \<union> bytes_of d) (umem h) (join_prev (fst d) (fst c) (join_next (fst d) (fst c) (umem h)))"
proof -
  note D = heap_okD [OF ok]
  have b: "hdr_at (fst d)" "0 < snd d" using block_okD(1,2) [OF D(1) D(2), of d] d by simp_all
  have cc: "hdr_at (fst c)" "c = (base, 0) \<or> c \<in> set fs \<and> 0 < snd c" using c D(3) block_okD(1,2) [OF D(1) D(2), of c] by auto
  have "join_prev (fst d) (fst c) (join_next (fst d) (fst c) (umem h)) x = umem h x"
    if x: "unat x \<notin> free_bytes fs \<union> bytes_of d" "unat x \<notin> {unat base ..< unat base + 8}" for x
  proof (rule join_frame [OF b(1) cc(1)])
    show "unat x < unat (fst d) \<or> unat (fst d) + 8 \<le> unat x" using x(1) b(2) by (auto simp: bytes_of_def)
    have "unat x \<notin> bytes_of c" if "c \<in> set fs" using x(1) that by (auto simp: free_bytes_def)
    then show "unat x < unat (fst c) \<or> unat (fst c) + 8 \<le> unat x" using cc(2) x(2) by (auto simp: bytes_of_def)
  qed
  then show ?thesis by (simp add: same_outside_def)
qed

lemma free_run:
  assumes ok: "heap_ok base h fs us" and d: "d \<in> us"
  obtains h' gs where "free (fst d + 8) h = Some h'" "heap_ok base h' gs (us - {d})" "brk h' = brk h"
    "free_bytes gs = free_bytes fs \<union> bytes_of d" "same_outside base (free_bytes gs) (umem h) (umem h')" "\<exists>b \<in> set gs. bytes_of d \<subseteq> bytes_of b"
proof -
  note D = heap_okD [OF ok]
  have okd: "block_ok base (brk h) d" using D(1) d by simp
  note b = block_okD [OF okd D(2)]
  obtain xs c ys where R: "(base, 0) # fs = xs @ c # ys" and f: "free_find (umem h) (fst d) (freep h) = Some (fst c)"
    and c: "fin c \<le> unat (fst d)" "unat (fst c) + 8 \<le> unat (fst d)" and y: "\<forall>y \<in> set ys. fin d \<le> unat (fst y) \<and> unat (fst d) + 8 \<le> unat (fst y)"
    by (rule free_place [OF ok d])
  have y1: "\<forall>y \<in> set ys. fin d \<le> unat (fst y)" and y2: "\<forall>y \<in> set ys. unat (fst d) + 8 \<le> unat (fst y)" and ub: "unat base < unat (fst d)"
    using y b(6) by (auto simp: word_less_nat_alt)
  have okall: "\<forall>b \<in> insert d (set fs). block_ok base (brk h) b" using okd D(1) by auto
  obtain k zs gs where g: "attach d ys = (fst d, k) # zs" "set zs \<subseteq> set ys" "xs @ attach c (attach d ys) = (base, 0) # gs"
    "sorted_wrt before ((base, 0) # gs)" "\<forall>b \<in> set gs. block_ok base (brk h) b" "free_bytes gs = free_bytes fs \<union> bytes_of d"
    "fst c \<in> fst ` set ((base, 0) # gs)" "\<exists>b \<in> set gs. bytes_of d \<subseteq> bytes_of b"
    by (rule ring_insert [OF D(4) R c(1) ub y1 b(2) okall])
  let ?m = "join_prev (fst d) (fst c) (join_next (fst d) (fst c) (umem h))"
  define h' where "h' = h\<lparr>umem := ?m, freep := fst c\<rparr>"
  have run: "free (fst d + 8) h = Some h'" using f by (simp add: free_def h'_def Let_def)
  have ch: "chain ?m ((base, 0) # gs) base" using joins_chain [OF ok d R g(1,2) c(2) y2] unfolding g(3) .
  have cf: "c \<in> set ((base, 0) # fs)" using R by simp
  have sz: "\<forall>e \<in> us - {d}. h_size ?m (fst e) = of_nat (snd e)" using joins_used [OF ok d cf] by blast
  have frame: "same_outside base (free_bytes gs) (umem h) ?m" unfolding g(6) by (rule joins_frame [OF ok d cf])
  have dis: "bytes_of e \<inter> free_bytes gs = {}" if "e \<in> us - {d}" for e
    using free_bytes_disjoint [OF ok, of e] heap_disjoint [OF ok, of e d] that d unfolding g(6) by auto
  have "heap_ok base h' gs (us - {d})"
    by (rule heap_okI [OF ok]) (use ok ch sz g(4,5,7) dis D(1,2) heap_disjoint [OF ok] in \<open>auto simp: h'_def heap_ok_def\<close>)
  then show ?thesis using that [OF run] g(6,8) frame by (simp add: h'_def)
qed

end
