(* ===== verification/Umalloc_Props.thy ===== *)
theory Umalloc_Props
  imports Umalloc
begin

text \<open>
  \<open>malloc\<close> on well-formed heaps: taking a block from the free list, the walk around the list, and the
  property that \<open>malloc\<close> and \<open>free\<close> return, keep the heap well-formed and leave used memory alone.
\<close>

section \<open>Taking a block\<close>

lemma free_bytes_simps [simp]:
  "free_bytes [] = {}" "free_bytes (b # bs) = bytes_of b \<union> free_bytes bs" "free_bytes (xs @ ys) = free_bytes xs \<union> free_bytes ys"
  by (auto simp: free_bytes_def)

lemma bytes_of_0 [simp]: "bytes_of (a, 0) = {}"
  by (simp add: bytes_of_def)

lemma before_disjoint: "before b c \<Longrightarrow> bytes_of b \<inter> bytes_of c = {}"
  by (auto simp: before_def bytes_of_def)

lemma sorted_disjoint:
  assumes "sorted_wrt before (xs @ b # ys)"
  shows "bytes_of b \<inter> free_bytes (xs @ ys) = {}"
proof -
  have "bytes_of b \<inter> bytes_of c = {}" if "c \<in> set (xs @ ys)" for c
    using assms that before_disjoint [of b c] before_disjoint [of c b] by (auto simp: sorted_wrt_append)
  then show ?thesis unfolding free_bytes_def by blast
qed

lemma ring_tail:
  assumes "(base, 0) # fs = xs @ pr # ys"
  shows "xs @ pr # zs = (base, 0) # tl (xs @ pr # zs)" "set (tl (xs @ pr # zs)) \<subseteq> set fs \<union> set zs"
  using assms by (cases xs; auto)+

lemma heap_take:
  assumes ok: "heap_ok base h fs us" and R: "(base, 0) # fs = xs @ pr # b # ys" and srt: "sorted_wrt before (xs @ pr # zs)"
    and blk: "\<forall>z \<in> insert d (set zs). block_ok base (brk h) z"
    and bt: "free_bytes zs \<union> bytes_of d = bytes_of b \<union> free_bytes ys" "free_bytes zs \<inter> bytes_of d = {}" "bytes_of d \<subseteq> bytes_of b"
    and m: "chain m (xs @ pr # zs) base" "\<forall>e \<in> insert d us. h_size m (fst e) = of_nat (snd e)"
  shows "heap_ok base (h\<lparr>umem := m, freep := fst pr\<rparr>) (tl (xs @ pr # zs)) (insert d us)"
    "free_bytes (tl (xs @ pr # zs)) \<union> bytes_of d = free_bytes fs" "d \<notin> us"
proof -
  define gs where "gs = tl (xs @ pr # zs)"
  note r = ring_tail [OF R, of zs, folded gs_def]
  note D = heap_okD [OF ok]
  have "free_bytes gs = free_bytes (xs @ pr # zs)" unfolding r(1) by simp
  moreover have "free_bytes fs = free_bytes (xs @ pr # b # ys)" unfolding R [symmetric] by simp
  ultimately have fb: "free_bytes gs \<union> bytes_of d = free_bytes fs" and gd: "free_bytes gs \<inter> bytes_of d = {}"
    using bt sorted_disjoint [of "xs @ [pr]" b ys] D(4) unfolding R by auto
  then show "free_bytes (tl (xs @ pr # zs)) \<union> bytes_of d = free_bytes fs" by (simp add: gs_def)
  have ud: "bytes_of e \<inter> bytes_of d = {}" "bytes_of e \<inter> free_bytes gs = {}" if "e \<in> us" for e
    using free_bytes_disjoint [OF ok that] fb by auto
  have "unat (fst d) \<in> bytes_of d" using blk by (auto simp: block_ok_def bytes_of_def)
  then show "d \<notin> us" using ud(1) [of d] by auto
  have blk2: "\<forall>b \<in> set gs \<union> insert d us. block_ok base (brk h) b" using r(2) blk D(1) by blast
  show "heap_ok base (h\<lparr>umem := m, freep := fst pr\<rparr>) (tl (xs @ pr # zs)) (insert d us)" unfolding gs_def [symmetric]
  proof (rule heap_okI [OF ok])
    have "fst pr \<in> fst ` set (xs @ pr # zs)" by simp
    then show "freep (h\<lparr>umem := m, freep := fst pr\<rparr>) \<in> fst ` set ((base, 0) # gs)" unfolding r(1) by simp
    show "bytes_of e \<inter> free_bytes gs = {}" if "e \<in> insert d us" for e using that ud(2) [of e] gd by auto
    show "bytes_of e \<inter> bytes_of f = {}" if "e \<in> insert d us" "f \<in> insert d us" "e \<noteq> f" for e f
      using that ud(1) [of e] ud(1) [of f] heap_disjoint [OF ok, of e f] by auto
  qed (use D(2) blk2 m srt ok in \<open>simp_all add: r(1) heap_ok_def\<close>)
qed

lemma take_exact:
  assumes ok: "heap_ok base h fs us" and R: "(base, 0) # fs = xs @ pr # b # ys"
  shows "heap_ok base (h\<lparr>umem := set_ptr (fst pr) (h_ptr (umem h) (fst b)) (umem h), freep := fst pr\<rparr>) (tl (xs @ pr # ys)) (insert b us)"
    "free_bytes (tl (xs @ pr # ys)) \<union> bytes_of b = free_bytes fs" "b \<notin> us"
proof -
  define S where "S = fst ` (set ((base, 0) # fs) \<union> us)"
  let ?m = "set_ptr (fst pr) (h_ptr (umem h) (fst b)) (umem h)"
  note D = heap_okD [OF ok]
  have S: "hdrs S" "fst pr \<in> S" "fst ` set (xs @ pr # b # ys) \<subseteq> S" "fst ` us \<subseteq> S" using heap_hdrs [OF ok] unfolding S_def R by auto
  have srt: "sorted_wrt before (xs @ pr # b # ys)" using D(4) unfolding R .
  then have ne: "fst pr \<notin> fst ` set (xs @ b # ys)" by (auto simp: sorted_wrt_append before_def)
  obtain a k where pr: "pr = (a, k)" by fastforce
  have ch: "chain (umem h) xs a" "chain (umem h) ys base" "h_ptr (umem h) (fst b) = next_addr ys base" "h_size (umem h) (fst b) = of_nat (snd b)" "h_size (umem h) a = of_nat k"
    using D(5) unfolding R pr by (cases b; simp)+
  have sub: "fst ` set xs \<subseteq> S - {fst pr}" "fst ` set ys \<subseteq> S - {fst pr}" using S(3) ne by (simp_all add: image_Un subset_Diff_insert)
  have cx: "chain ?m xs a" "chain ?m ys base" using chain_write(1) [OF S(1,2) sub(1)] chain_write(1) [OF S(1,2) sub(2)] ch(1,2) by simp_all
  have bf: "b \<in> set fs" using R by (cases xs) auto
  have prR: "pr \<in> set ((base, 0) # fs)" using R by simp
  have sz: "h_size ?m (fst e) = h_size (umem h) (fst e)" if e: "e \<in> insert b us" for e
  proof -
    have "e \<noteq> pr" using e heap_used(1) [OF ok, of e] prR ne by auto
    then have "fst pr \<noteq> fst e" using heap_order [OF ok _ _, of e pr] e prR bf by auto
    moreover have "fst e \<in> S" using e S(3,4) by auto
    ultimately show ?thesis by (intro hdrs_other(3) [OF S(1,2)])
  qed
  have all: "\<forall>e \<in> insert b us. h_size ?m (fst e) = of_nat (snd e)" using sz ch(4) heap_used(2) [OF ok] by auto
  have srt': "sorted_wrt before (xs @ pr # ys)" using srt by (auto simp: sorted_wrt_append)
  have blk: "\<forall>z \<in> insert b (set ys). block_ok base (brk h) z" using D(1) bf R by (cases xs) auto
  have chm: "chain ?m (xs @ pr # ys) base"
    using cx ch(3,5) S(1,2) pr by (auto simp: hdrs_def)
  have dj: "free_bytes ys \<inter> bytes_of b = {}" using sorted_disjoint [of "xs @ [pr]" b ys] srt by auto
  show "heap_ok base (h\<lparr>umem := ?m, freep := fst pr\<rparr>) (tl (xs @ pr # ys)) (insert b us)"
    "free_bytes (tl (xs @ pr # ys)) \<union> bytes_of b = free_bytes fs" "b \<notin> us"
    using heap_take [OF ok R srt' blk _ dj _ chm all] by auto
qed

text \<open>The end of a larger block: its header lies apart from all headers there are.\<close>

lemma split_point:
  assumes ok: "heap_ok base h fs us" and b: "b \<in> set fs" and n: "0 < n" "n < snd b"
  defines "q \<equiv> fst b + 8 * of_nat (snd b - n)"
  shows "unat q = unat (fst b) + 8 * (snd b - n)" "block_ok base (brk h) (q, n)" "block_ok base (brk h) (fst b, snd b - n)"
    "hdrs (insert q (fst ` (set ((base, 0) # fs) \<union> us)))" "q \<notin> fst ` (set ((base, 0) # fs) \<union> us)"
proof -
  note D = heap_okD [OF ok]
  have okb: "block_ok base (brk h) b" using D(1) b by simp
  note B = block_okD [OF okb D(2)]
  show q: "unat q = unat (fst b) + 8 * (snd b - n)" unfolding q_def by (rule block_end(1) [OF okb D(2)]) simp
  have "q mod 4 = 0"
  proof -
    have "4 dvd unat (fst b)" using unat_aligned4(1) okb by (simp add: block_ok_def)
    then have "4 dvd unat q" unfolding q by (intro dvd_add) (simp_all add: dvd_mult2)
    then have "unat (q mod 4) = 0" by (simp add: unat_mod dvd_eq_mod_eq_0)
    then show ?thesis by (metis unat_eq_zero)
  qed
  then show okq: "block_ok base (brk h) (q, n)" and "block_ok base (brk h) (fst b, snd b - n)"
    using B(3,4) q n okb by (simp_all add: block_ok_def)
  have ap: "unat (fst e) + 8 \<le> unat q \<or> unat q + 8 \<le> unat (fst e)" if e: "e \<in> set ((base, 0) # fs) \<union> us" for e
  proof (cases "e = b")
    case False
    then show ?thesis using heap_order [OF ok e _ False] b q n by (auto simp: fin_def)
  qed (use q n in auto)
  have hq: "hdr_at q" using block_okD(1) [OF okq D(2)] by simp
  show "hdrs (insert q (fst ` (set ((base, 0) # fs) \<union> us)))"
    using heap_hdrs [OF ok] ap hq unfolding hdrs_def apart_def by blast
  show "q \<notin> fst ` (set ((base, 0) # fs) \<union> us)"
  proof
    assume "q \<in> fst ` (set ((base, 0) # fs) \<union> us)"
    then obtain e where "q = fst e" "e \<in> set ((base, 0) # fs) \<union> us" by (rule imageE)
    then show False using ap [of e] by simp
  qed
qed

lemma take_split:
  assumes ok: "heap_ok base h fs us" and R: "(base, 0) # fs = xs @ pr # b # ys" and n: "0 < n" "n < snd b"
  defines "q \<equiv> fst b + 8 * of_nat (snd b - n)"
  defines "gs \<equiv> tl (xs @ pr # (fst b, snd b - n) # ys)"
  shows "heap_ok base (h\<lparr>umem := set_size q (of_nat n) (set_size (fst b) (of_nat (snd b - n)) (umem h)), freep := fst pr\<rparr>) gs (insert (q, n) us)"
    "free_bytes gs \<union> bytes_of (q, n) = free_bytes fs" "(q, n) \<notin> us"
proof -
  define S where "S = insert q (fst ` (set ((base, 0) # fs) \<union> us))"
  let ?m1 = "set_size (fst b) (of_nat (snd b - n)) (umem h)"
  let ?m = "set_size q (of_nat n) ?m1"
  note D = heap_okD [OF ok]
  have bf: "b \<in> set fs" using R by (cases xs) auto
  note Q = split_point [OF ok bf n, folded q_def]
  have S: "hdrs S" "fst b \<in> S" "q \<in> S" "fst ` set (xs @ pr # b # ys) \<subseteq> S" "fst ` us \<subseteq> S" using Q(4) bf unfolding S_def R by auto
  have srt: "sorted_wrt before (xs @ pr # b # ys)" using D(4) unfolding R .
  then have ne: "fst b \<notin> fst ` set (xs @ pr # ys)" by (auto simp: sorted_wrt_append before_def)
  have nq: "q \<notin> fst ` set (xs @ pr # b # ys)" "q \<notin> fst ` us" using Q(5) unfolding R by auto
  have ch: "chain (umem h) (xs @ [pr]) (fst b)" "chain (umem h) ys base" "h_ptr (umem h) (fst b) = next_addr ys base"
    using D(5) unfolding R by (cases pr; cases b; simp)+
  have sub: "fst ` set (xs @ [pr]) \<subseteq> S - {fst b}" "fst ` set ys \<subseteq> S - {fst b}" "fst ` set (xs @ [pr]) \<subseteq> S - {q}" "fst ` set ys \<subseteq> S - {q}"
    using S(4) ne nq(1) by (simp_all add: image_Un subset_Diff_insert)
  have cx: "chain ?m (xs @ [pr]) (fst b)" "chain ?m ys base"
    using chain_write(2) [OF S(1,3) sub(3)] chain_write(2) [OF S(1,3) sub(4)] chain_write(2) [OF S(1,2) sub(1)] chain_write(2) [OF S(1,2) sub(2)] ch(1,2) by simp_all
  have qb: "q \<noteq> fst b" using nq(1) by auto
  have hb: "h_ptr ?m (fst b) = next_addr ys base" "h_size ?m (fst b) = of_nat (snd b - n)"
    using hdrs_other(2,4) [OF S(1,3,2) qb] S(1,2) ch(3) by (simp_all add: hdrs_def)
  have chm: "chain ?m (xs @ pr # (fst b, snd b - n) # ys) base" using cx hb by (cases pr) simp
  have sz: "\<forall>e \<in> insert (q, n) us. h_size ?m (fst e) = of_nat (snd e)"
  proof
    fix e assume e: "e \<in> insert (q, n) us"
    show "h_size ?m (fst e) = of_nat (snd e)"
    proof (cases "e = (q, n)")
      case False
      then have u: "e \<in> us" "fst e \<in> S" "q \<noteq> fst e" using e S(5) nq(2) by auto
      have "b \<noteq> e" using heap_used(1) [OF ok u(1)] bf by auto
      then have "fst b \<noteq> fst e" using heap_order [OF ok _ _, of b e] u bf by auto
      then show ?thesis using hdrs_other(4) [OF S(1,3) u(2,3)] hdrs_other(4) [OF S(1,2) u(2)] heap_used(2) [OF ok u(1)] by simp
    qed simp
  qed
  have srt': "sorted_wrt before (xs @ pr # (fst b, snd b - n) # ys)" using srt by (auto simp: sorted_wrt_append before_def)
  have blk: "\<forall>z \<in> insert (q, n) (set ((fst b, snd b - n) # ys)). block_ok base (brk h) z" using D(1) Q(2,3) R by (cases xs) auto
  have u: "bytes_of (fst b, snd b - n) \<union> bytes_of (q, n) = bytes_of b" "bytes_of (fst b, snd b - n) \<inter> bytes_of (q, n) = {}"
    using Q(1) n by (auto simp: bytes_of_def)
  have dj: "free_bytes ((fst b, snd b - n) # ys) \<inter> bytes_of (q, n) = {}" using sorted_disjoint [of "xs @ [pr]" b ys] srt u by auto
  show "heap_ok base (h\<lparr>umem := ?m, freep := fst pr\<rparr>) gs (insert (q, n) us)"
    "free_bytes gs \<union> bytes_of (q, n) = free_bytes fs" "(q, n) \<notin> us"
    unfolding gs_def using heap_take [OF ok R srt' blk _ dj _ chm sz] u(1) by auto
qed

lemma same_outside_trans: "same_outside base X m m' \<Longrightarrow> same_outside base X m' m'' \<Longrightarrow> same_outside base X m m''"
  by (simp add: same_outside_def)

lemma same_outside_mono: "same_outside base X m m' \<Longrightarrow> X \<subseteq> Y \<Longrightarrow> same_outside base Y m m'"
  by (auto simp: same_outside_def)

lemma write_outside:
  assumes "hdr_at a" "{unat a ..< unat a + 8} \<subseteq> X \<union> {unat base ..< unat base + 8}"
  shows "same_outside base X m (set_ptr a v m)" "same_outside base X m (set_size a v m)"
proof -
  have "unat x < unat a \<or> unat a + 8 \<le> unat x" if "unat x \<notin> X" "unat x \<notin> {unat base ..< unat base + 8}" for x :: u32
  proof (rule ccontr)
    assume "\<not> ?thesis"
    then have "unat x \<in> {unat a ..< unat a + 8}" by simp
    then show False using assms(2) that by blast
  qed
  then show "same_outside base X m (set_ptr a v m)" "same_outside base X m (set_size a v m)"
    unfolding same_outside_def using hdr_frame [OF assms(1)] by simp_all
qed

lemma header_bytes:
  assumes "heap_ok base h fs us" "b \<in> set ((base, 0) # fs)"
  shows "hdr_at (fst b)" "{unat (fst b) ..< unat (fst b) + 8} \<subseteq> free_bytes fs \<union> {unat base ..< unat base + 8}"
proof -
  note B = block_okD [OF heap_okD(1,2) [OF assms(1)], of b]
  show "hdr_at (fst b)" using assms(2) B(1) heap_okD(3) [OF assms(1)] by auto
  have "{unat (fst b) ..< unat (fst b) + 8} \<subseteq> bytes_of b" if "b \<in> set fs" using B(2) that by (auto simp: bytes_of_def)
  then show "{unat (fst b) ..< unat (fst b) + 8} \<subseteq> free_bytes fs \<union> {unat base ..< unat base + 8}"
    using assms(2) by (auto simp: free_bytes_def)
qed

lemma take_run:
  assumes ok: "heap_ok base h fs us" and R: "(base, 0) # fs = xs @ pr # b # ys" and n: "0 < n" "n \<le> snd b"
  obtains q h' gs where "take_block (of_nat n) (fst b) (fst pr) h = (q + 8, h')" "heap_ok base h' gs (insert (q, n) us)" "(q, n) \<notin> us"
    "free_bytes gs \<union> bytes_of (q, n) = free_bytes fs" "brk h' = brk h" "same_outside base (free_bytes fs) (umem h) (umem h')"
proof -
  note D = heap_okD [OF ok]
  have bf: "b \<in> set fs" "b \<in> set ((base, 0) # fs)" "pr \<in> set ((base, 0) # fs)" using R by (cases xs; auto)+
  have okb: "block_ok base (brk h) b" using D(1) bf by simp
  have sz: "h_size (umem h) (fst b) = of_nat (snd b)" using D(5) unfolding R by (cases pr; cases b; simp)
  have u: "unat (of_nat (snd b) :: u32) = snd b" "unat (of_nat n :: u32) = n" using block_end(2) [OF okb D(2)] n(2) by simp_all
  note hb = header_bytes [OF ok bf(2)] and hp = header_bytes [OF ok bf(3)]
  show ?thesis
  proof (cases "n = snd b")
    case True
    have "take_block (of_nat n) (fst b) (fst pr) h =
      (fst b + 8, h\<lparr>umem := set_ptr (fst pr) (h_ptr (umem h) (fst b)) (umem h), freep := fst pr\<rparr>)"
      using sz True by (simp add: take_block_def Let_def)
    then show ?thesis by (rule that) (use take_exact [OF ok R] True write_outside(1) [OF hp] in simp_all)
  next
    case False
    then have lt: "n < snd b" using n(2) by simp
    define q where "q = fst b + 8 * of_nat (snd b - n)"
    note T = take_split [OF ok R n(1) lt, folded q_def] and Q = split_point [OF ok bf(1) n(1) lt, folded q_def]
    have ne: "h_size (umem h) (fst b) \<noteq> of_nat n" using sz u False by metis
    have "h_size (umem h) (fst b) - of_nat n = of_nat (snd b - n)" using sz lt by (simp add: of_nat_diff)
    then have run: "take_block (of_nat n) (fst b) (fst pr) h =
      (q + 8, h\<lparr>umem := set_size q (of_nat n) (set_size (fst b) (of_nat (snd b - n)) (umem h)), freep := fst pr\<rparr>)"
      using ne hb(1) by (simp add: take_block_def Let_def q_def)
    have "{unat q ..< unat q + 8} \<subseteq> bytes_of b" using Q(1) n(1) lt by (auto simp: bytes_of_def)
    then have "{unat q ..< unat q + 8} \<subseteq> free_bytes fs \<union> {unat base ..< unat base + 8}" using bf(1) by (auto simp: free_bytes_def)
    moreover have "hdr_at q" using block_okD(1) [OF Q(2) D(2)] by simp
    ultimately have fr: "same_outside base (free_bytes fs) (umem h) (set_size q (of_nat n) (set_size (fst b) (of_nat (snd b - n)) (umem h)))"
      by (intro same_outside_trans [OF write_outside(2) [OF hb] write_outside(2)])
    show ?thesis by (rule that [OF run T(1,3,2)]) (use fr in simp_all)
  qed
qed

section \<open>Walking around the list\<close>

lemma malloc_walk:
  assumes "chain (umem h) (pr # ws) e" "\<forall>w \<in> set ws. snd w < n \<and> fst w \<noteq> freep h" "n < 2 ^ 32"
  shows "malloc_loop en (of_nat n) (next_addr ws e) (fst pr) h = malloc_loop en (of_nat n) e (fst (last (pr # ws))) h"
  using assms(1,2)
proof (induction ws arbitrary: pr)
  case (Cons w ws)
  obtain a k where w: "w = (a, k)" by fastforce
  have c: "h_ptr (umem h) a = next_addr ws e" "h_size (umem h) a = of_nat k" "chain (umem h) (w # ws) e" using Cons.prems(1) w by (cases pr; simp)+
  have "\<not> (of_nat n :: u32) \<le> of_nat k" using Cons.prems(2) w assms(3) by (simp add: word_le_nat_alt unat_of_nat)
  then have "malloc_loop en (of_nat n) a (fst pr) h = malloc_loop en (of_nat n) (next_addr ws e) a h"
    using Cons.prems(2) w c by (subst malloc_loop.simps) simp
  then show ?case using Cons.IH [OF c(3)] Cons.prems(2) w by simp
qed simp

lemma ring_rotate:
  assumes ok: "heap_ok base h fs us"
  obtains A f B where "(base, 0) # fs = A @ f # B" "fst f = freep h" "chain (umem h) (f # (B @ A) @ [f]) (h_ptr (umem h) (freep h))"
    "h_ptr (umem h) (freep h) = next_addr (B @ A) (freep h)" "\<forall>w \<in> set (B @ A). fst w \<noteq> freep h"
proof -
  note D = heap_okD [OF ok]
  obtain f where fR: "freep h = fst f" "f \<in> set ((base, 0) # fs)" using D(6) by (rule imageE)
  obtain A B where R: "(base, 0) # fs = A @ f # B" using split_list [OF fR(2)] by blast
  obtain a k where f: "f = (a, k)" by fastforce
  have e: "next_addr A a = base" using R f by (cases A) auto
  have c: "chain (umem h) A a" "chain (umem h) (f # B) base" using D(5) unfolding R f by simp_all
  have "h_ptr (umem h) a = next_addr (B @ A) a" using c(2) e f by simp
  then have "chain (umem h) (f # (B @ A) @ [f]) (h_ptr (umem h) a)" using c e f by simp
  moreover have "\<forall>w \<in> set (B @ A). fst w \<noteq> fst f" using D(4) unfolding R by (auto simp: sorted_wrt_append before_def)
  ultimately show ?thesis using that [OF R] fR(1) f \<open>h_ptr (umem h) a = next_addr (B @ A) a\<close> by simp
qed

lemma chain_last: "chain m (f # ws) e \<Longrightarrow> h_ptr m (fst (last (f # ws))) = e"
proof (induction ws arbitrary: f)
  case Nil
  then show ?case by (cases f) simp
next
  case (Cons w ws)
  then show ?case by (cases f) simp
qed

lemma malloc_found:
  assumes ok: "heap_ok base h fs us" and n: "0 < n" "n < 2 ^ 32" and ex: "\<exists>b \<in> set fs. n \<le> snd b"
  obtains xs pr b ys where "(base, 0) # fs = xs @ pr # b # ys" "n \<le> snd b"
    "malloc_loop en (of_nat n) (h_ptr (umem h) (freep h)) (freep h) h = Some (take_block (of_nat n) (fst b) (fst pr) h)"
proof -
  note D = heap_okD [OF ok]
  obtain A f B where R: "(base, 0) # fs = A @ f # B" and f: "fst f = freep h" and c: "chain (umem h) (f # (B @ A) @ [f]) (h_ptr (umem h) (freep h))"
    and e: "h_ptr (umem h) (freep h) = next_addr (B @ A) (freep h)" and ne: "\<forall>w \<in> set (B @ A). fst w \<noteq> freep h"
    by (rule ring_rotate [OF ok])
  have sR: "set ((B @ A) @ [f]) = set ((base, 0) # fs)" unfolding R by auto
  then have "\<exists>b \<in> set ((B @ A) @ [f]). n \<le> snd b" using ex by auto
  then obtain ws b vs where L: "(B @ A) @ [f] = ws @ b # vs" "n \<le> snd b" "\<forall>w \<in> set ws. \<not> n \<le> snd w"
    by (rule split_list_first_propE)
  have "B @ A = butlast (ws @ b # vs)" unfolding L(1) [symmetric] by (rule butlast_snoc [symmetric])
  then have wl: "set ws \<subseteq> set (B @ A)" by (simp add: butlast_append)
  have cw: "chain (umem h) (f # ws) (fst b)" "h_size (umem h) (fst b) = of_nat (snd b)" using c unfolding L(1) by (cases b; cases f; simp)+
  have hp: "h_ptr (umem h) (freep h) = next_addr ws (fst b)" using cw(1) f by (cases f) simp
  have bR: "b \<in> set ((base, 0) # fs)" unfolding sR [symmetric] L(1) by simp
  have bs: "b \<in> set fs" using bR L(2) n(1) by auto
  have "unat (of_nat (snd b) :: u32) = snd b" using block_end(2) [OF D(1) D(2), of b] bs by simp
  then have fits: "(of_nat n :: u32) \<le> h_size (umem h) (fst b)" using L(2) n(2) cw(2) by (simp add: word_le_nat_alt unat_of_nat)
  have "\<forall>w \<in> set ws. snd w < n \<and> fst w \<noteq> freep h" using L(3) ne wl by (meson not_le subsetD)
  then have run: "malloc_loop en (of_nat n) (h_ptr (umem h) (freep h)) (freep h) h = Some (take_block (of_nat n) (fst b) (fst (last (f # ws))) h)"
    using malloc_walk [OF cw(1) _ n(2)] fits f unfolding hp by (simp add: malloc_loop.simps [of en "of_nat n" "fst b"])
  have lp: "h_ptr (umem h) (fst (last (f # ws))) = fst b" by (rule chain_last [OF cw(1)])
  have "last (f # ws) \<in> set (f # ws)" by (rule last_in_set) simp
  moreover have "set (f # ws) \<subseteq> set ((B @ A) @ [f])" using wl by auto
  ultimately have "last (f # ws) \<in> set ((base, 0) # fs)" unfolding sR by blast
  then obtain xs zs where X: "(base, 0) # fs = xs @ last (f # ws) # zs" by (meson split_list)
  have "next_addr zs base = fst b" using D(5) lp unfolding X by (cases "last (f # ws)") simp
  moreover have "fst b \<noteq> base" using block_okD(7) [OF D(1) D(2), of b] bs by auto
  ultimately obtain b' ys where zs: "zs = b' # ys" "fst b' = fst b" by (cases zs) auto
  have "b' \<in> set fs" using X zs(1) by (cases xs) auto
  then have "b' = b" using heap_order [OF ok, of b' b] bs zs(2) by auto
  then show ?thesis using that [of xs "last (f # ws)" b ys] X zs(1) L(2) run by simp
qed

lemma malloc_none:
  assumes ok: "heap_ok base h fs us" and n: "0 < n" "n < 2 ^ 32" and small: "\<forall>b \<in> set fs. snd b < n"
  shows "malloc_loop en (of_nat n) (h_ptr (umem h) (freep h)) (freep h) h =
    (case morecore en (of_nat n) h of
       None \<Rightarrow> None
     | Some r \<Rightarrow> if fst r = 0 then Some (0, snd r) else malloc_loop en (of_nat n) (h_ptr (umem (snd r)) (fst r)) (fst r) (snd r))"
proof -
  obtain A f B where R: "(base, 0) # fs = A @ f # B" and f: "fst f = freep h" and c: "chain (umem h) (f # (B @ A) @ [f]) (h_ptr (umem h) (freep h))"
    and e: "h_ptr (umem h) (freep h) = next_addr (B @ A) (freep h)" and ne: "\<forall>w \<in> set (B @ A). fst w \<noteq> freep h"
    by (rule ring_rotate [OF ok])
  have "\<forall>b \<in> set ((base, 0) # fs). snd b < n" using small n(1) by simp
  then have sm: "\<forall>b \<in> set (A @ f # B). snd b < n" unfolding R .
  have cw: "chain (umem h) (f # B @ A) (freep h)" "h_size (umem h) (freep h) = of_nat (snd f)" using c f by (cases f; simp)+
  have sw: "\<forall>w \<in> set (B @ A). snd w < n \<and> fst w \<noteq> freep h" using sm ne by auto
  have "snd f < n" using sm by simp
  then have "\<not> (of_nat n :: u32) \<le> h_size (umem h) (freep h)" using n(2) cw(2) by (simp add: word_le_nat_alt unat_of_nat)
  moreover have "malloc_loop en (of_nat n) (h_ptr (umem h) (freep h)) (freep h) h = malloc_loop en (of_nat n) (freep h) (fst (last (f # B @ A))) h"
    using malloc_walk [OF cw(1) sw n(2), of en] f unfolding e by simp
  ultimately show ?thesis by (simp add: malloc_loop.simps [of en "of_nat n" "freep h"])
qed

lemma freep_nonzero:
  assumes ok: "heap_ok base h fs us"
  shows "freep h \<noteq> 0"
proof -
  obtain f where f: "freep h = fst f" "f \<in> set ((base, 0) # fs)" using heap_okD(6) [OF ok] by (rule imageE)
  have "base \<noteq> 0" using ok by (simp add: heap_ok_def)
  then show ?thesis using f block_okD(6) [OF heap_okD(1,2) [OF ok], of f] by auto
qed

section \<open>More memory\<close>

lemma sbrk_run:
  assumes "brk h \<le> KERNBASE" "0 < k" "8 * k < 2 ^ 31"
  shows "sbrk en (of_nat k * 8) h =
    (if KERNBASE \<le> brk h + of_nat (8 * k) \<or> \<not> en (brk h + of_nat (8 * k)) then (-1, h) else (brk h, h\<lparr>brk := brk h + of_nat (8 * k)\<rparr>))"
    "unat (brk h + of_nat (8 * k)) = unat (brk h) + 8 * k"
proof -
  have b: "unat (brk h) \<le> 2 ^ 31" using assms(1) by (simp add: word_le_nat_alt)
  have k: "unat (of_nat (8 * k) :: u32) = 8 * k" by (rule unat_of_nat_u32) (use assms(3) in simp)
  show s: "unat (brk h + of_nat (8 * k)) = unat (brk h) + 8 * k" using b k assms(3) by (simp add: unat_word_ariths del: of_nat_mult)
  have e: "(of_nat k * 8 :: u32) = of_nat (8 * k)" by simp
  have "\<not> brk h + of_nat (8 * k) < brk h" using s by (simp add: word_less_nat_alt)
  moreover have "sint (of_nat (8 * k) :: u32) = int (8 * k)"
    using assms(3) by (simp add: signed_of_nat signed_take_bit_int_eq_self del: of_nat_mult)
  ultimately show "sbrk en (of_nat k * 8) h =
    (if KERNBASE \<le> brk h + of_nat (8 * k) \<or> \<not> en (brk h + of_nat (8 * k)) then (-1, h) else (brk h, h\<lparr>brk := brk h + of_nat (8 * k)\<rparr>))"
    unfolding e using assms(2) by (simp add: sbrk_def Let_def del: of_nat_mult)
qed

text \<open>New memory as one more used block at its end.\<close>

lemma heap_grow:
  assumes ok: "heap_ok base h fs us" and k: "0 < k" and e: "unat (brk h + of_nat (8 * k)) = unat (brk h) + 8 * k" "brk h + of_nat (8 * k) \<le> KERNBASE"
  defines "h' \<equiv> h\<lparr>brk := brk h + of_nat (8 * k), umem := set_size (brk h) (of_nat k) (umem h)\<rparr>"
  shows "heap_ok base h' fs (insert (brk h, k) us)" "(brk h, k) \<notin> us" "bytes_of (brk h, k) = {unat (brk h) ..< unat (brk h')}"
proof -
  note D = heap_okD [OF ok]
  have b: "brk h mod 4 = 0" "unat base + 8 \<le> unat (brk h)" using ok by (simp_all add: heap_ok_def)
  have lim: "unat (brk h) + 8 * k \<le> 2147483648" using e by (simp add: word_le_nat_alt)
  then have hb: "hdr_at (brk h)" using b(1) k by (simp add: hdr_at_def)
  show nb: "bytes_of (brk h, k) = {unat (brk h) ..< unat (brk h')}" using e(1) by (simp add: bytes_of_def h'_def)
  have below: "fin c \<le> unat (brk h)" "unat (fst c) + 8 \<le> unat (brk h)" "hdr_at (fst c)" if "c \<in> set ((base, 0) # fs) \<union> us" for c
    using that b(2) D(3) block_okD(1,2,4) [OF D(1) D(2), of c] by (auto simp: fin_def)
  have same: "h_ptr (umem h') (fst c) = h_ptr (umem h) (fst c) \<and> h_size (umem h') (fst c) = h_size (umem h) (fst c)" if "c \<in> set ((base, 0) # fs) \<union> us" for c
    using hdr_other(2,4) [OF hb below(3) [OF that]] below(2) [OF that] by (simp add: h'_def apart_def)
  have dj: "bytes_of c \<inter> bytes_of (brk h, k) = {}" if "c \<in> set ((base, 0) # fs) \<union> us" for c
    using below(1) [OF that] by (auto simp: bytes_of_def fin_def)
  have m4: "brk h' mod 4 = 0"
  proof -
    have "4 dvd unat (brk h)" using unat_aligned4(1) [OF b(1)] .
    then have "4 dvd unat (brk h')" unfolding h'_def using e(1) by (simp add: dvd_add dvd_mult2)
    then have "unat (brk h' mod 4) = 0" by (simp add: unat_mod dvd_eq_mod_eq_0)
    then show ?thesis by (metis unat_eq_zero)
  qed
  have up: "brk h \<le> brk h'" using e(1) by (simp add: h'_def word_le_nat_alt)
  have blk: "block_ok base (brk h') c" if "c \<in> set fs \<union> insert (brk h, k) us" for c
  proof (cases "c = (brk h, k)")
    case True
    show ?thesis unfolding block_ok_def True h'_def using b k e(1) by simp
  next
    case False
    then show ?thesis using that D(1) [of c] up by (auto simp: block_ok_def word_le_nat_alt)
  qed
  show nu: "(brk h, k) \<notin> us" using below(2) [of "(brk h, k)"] by auto
  show "heap_ok base h' fs (insert (brk h, k) us)"
  proof (rule heap_okI [OF ok up m4])
    show "chain (umem h') ((base, 0) # fs) base" using D(5) chain_cong [of "(base, 0) # fs" "umem h'" "umem h"] same by blast
    show "\<forall>c \<in> insert (brk h, k) us. h_size (umem h') (fst c) = of_nat (snd c)" using same heap_used(2) [OF ok] by (auto simp: h'_def)
    show "bytes_of c \<inter> free_bytes fs = {}" if "c \<in> insert (brk h, k) us" for c
      using that dj free_bytes_disjoint [OF ok, of c] unfolding free_bytes_def by fastforce
    show "bytes_of c \<inter> bytes_of c' = {}" if "c \<in> insert (brk h, k) us" "c' \<in> insert (brk h, k) us" "c \<noteq> c'" for c c'
      using that dj [of c] dj [of c'] heap_disjoint [OF ok, of c c'] by (auto simp: Int_commute)
  qed (use D(4,6) e(2) blk in \<open>auto simp: h'_def\<close>)
qed

text \<open>Whether memory can grow by the units that \<open>morecore\<close> asks for.\<close>

definition can_grow :: "(u32 \<Rightarrow> bool) \<Rightarrow> nat \<Rightarrow> uheap \<Rightarrow> bool" where
  "can_grow en n h \<longleftrightarrow> unat (brk h) + 8 * max 4096 n < unat KERNBASE \<and> en (brk h + of_nat (8 * max 4096 n))"

lemma morecore_run:
  assumes ok: "heap_ok base h fs us" and n: "8 * n < 2 ^ 31"
  obtains "morecore en (of_nat n) h = Some (0, h)" "\<not> can_grow en n h"
  | h' gs where "morecore en (of_nat n) h = Some (freep h', h')" "freep h' \<noteq> 0" "heap_ok base h' gs us"
    "free_bytes gs = free_bytes fs \<union> {unat (brk h) ..< unat (brk h')}" "same_outside base (free_bytes gs) (umem h) (umem h')"
    "\<exists>b \<in> set gs. n \<le> snd b" "brk h \<le> brk h'"
proof -
  define k where "k = max 4096 n"
  have k: "0 < k" "8 * k < 2 ^ 31" "n \<le> k" using n by (simp_all add: k_def)
  have nu: "(if (of_nat n :: u32) < 4096 then 4096 else of_nat n) = (of_nat k :: u32)"
    using n unat_of_nat_u32 [of n] by (auto simp: k_def word_less_nat_alt max_def)
  have kb: "brk h \<le> KERNBASE" using heap_okD(2) [OF ok] .
  note sb = sbrk_run(1) [OF kb k(1,2), of en] sbrk_run(2) [OF kb k(1,2)]
  have g: "can_grow en n h \<longleftrightarrow> \<not> (KERNBASE \<le> brk h + of_nat (8 * k) \<or> \<not> en (brk h + of_nat (8 * k)))"
    unfolding can_grow_def k_def [symmetric] word_le_nat_alt sb(2) by auto
  show ?thesis
  proof (cases "can_grow en n h")
    case False
    then have "morecore en (of_nat n) h = Some (0, h)" using g sb(1) by (simp add: morecore_def nu Let_def del: of_nat_mult)
    then show ?thesis using that(1) False by blast
  next
    case True
    let ?h = "h\<lparr>brk := brk h + of_nat (8 * k), umem := set_size (brk h) (of_nat k) (umem h)\<rparr>"
    have le: "brk h + of_nat (8 * k) \<le> KERNBASE" using True g by auto
    note G = heap_grow [OF ok k(1) sb(2) le]
    obtain h' gs where f: "free (brk h + 8) ?h = Some h'" "heap_ok base h' gs (insert (brk h, k) us - {(brk h, k)})" "brk h' = brk ?h"
      "free_bytes gs = free_bytes fs \<union> bytes_of (brk h, k)" "same_outside base (free_bytes gs) (umem ?h) (umem h')" "\<exists>b \<in> set gs. bytes_of (brk h, k) \<subseteq> bytes_of b"
      using free_run [OF G(1), of "(brk h, k)"] by auto
    have ok': "heap_ok base h' gs us" using f(2) G(2) by simp
    have "\<not> (0xFFFFFFFF :: u32) \<le> KERNBASE" by (simp add: word_le_nat_alt)
    moreover have "(-1 :: u32) = 0xFFFFFFFF" by simp
    ultimately have "brk h \<noteq> -1" using kb by metis
    then have run: "morecore en (of_nat n) h = Some (freep h', h')"
      using True g sb(1) f(1) by (simp add: morecore_def nu Let_def del: of_nat_mult)
    have nb: "bytes_of (brk h, k) = {unat (brk h) ..< unat (brk h')}" using G(3) f(3) by simp
    have fp: "freep h' \<noteq> 0" by (rule freep_nonzero [OF ok'])
    have "{unat (brk h) ..< unat (brk h) + 8} \<subseteq> bytes_of (brk h, k)" using k(1) by (simp add: bytes_of_def)
    then have hb: "hdr_at (brk h)" "{unat (brk h) ..< unat (brk h) + 8} \<subseteq> free_bytes gs \<union> {unat base ..< unat base + 8}"
      using block_okD(1) [OF heap_okD(1,2) [OF G(1)], of "(brk h, k)"] unfolding f(4) by (simp, blast)
    have fr: "same_outside base (free_bytes gs) (umem h) (umem h')"
      using same_outside_trans [OF write_outside(2) [OF hb, of "umem h" "of_nat k"]] f(5) by simp
    obtain b where b: "b \<in> set gs" "bytes_of (brk h, k) \<subseteq> bytes_of b" using f(6) by blast
    then have "card (bytes_of (brk h, k)) \<le> card (bytes_of b)" by (intro card_mono) (simp_all add: bytes_of_def)
    then have "\<exists>b \<in> set gs. n \<le> snd b" using b(1) k(3) by (intro bexI [of _ b]) (simp_all add: bytes_of_def)
    moreover have "brk h \<le> brk h'" using f(3) sb(2) by (simp add: word_le_nat_alt)
    ultimately show ?thesis using that(2) [OF run fp ok' _ fr] f(4) nb by simp
  qed
qed

section \<open>Allocating\<close>

definition units :: "u32 \<Rightarrow> nat" where
  "units nbytes = (unat nbytes + 7) div 8 + 1"

lemma units_word:
  assumes "unat nbytes + 16 \<le> 2 ^ 31"
  shows "(nbytes + 8 - 1) div 8 + 1 = of_nat (units nbytes)" "8 * units nbytes < 2 ^ 31" "unat nbytes + 8 \<le> 8 * units nbytes"
proof -
  have "unat (nbytes + 7) = unat nbytes + 7" using assms by (simp add: unat_word_ariths)
  then have "unat ((nbytes + 7) div 8) = (unat nbytes + 7) div 8" by (simp add: unat_div)
  then have "unat ((nbytes + 7) div 8 + 1) = units nbytes" using assms by (simp add: units_def unat_word_ariths)
  then have "(nbytes + 7) div 8 + 1 = of_nat (units nbytes)" by (metis of_nat_unat ucast_id)
  moreover have "nbytes + 8 - 1 = nbytes + 7" by simp
  ultimately show "(nbytes + 8 - 1) div 8 + 1 = of_nat (units nbytes)" by (simp only:)
  show "8 * units nbytes < 2 ^ 31" "unat nbytes + 8 \<le> 8 * units nbytes" using assms by (simp_all add: units_def)
qed

definition kept :: "block set \<Rightarrow> bmem \<Rightarrow> bmem \<Rightarrow> bool" where
  "kept us m m' \<longleftrightarrow> (\<forall>b \<in> us. \<forall>x. unat x \<in> bytes_of b \<longrightarrow> m' x = m x)"

lemma kept_outside:
  assumes ok: "heap_ok base h fs us" and s: "same_outside base (free_bytes fs \<union> {unat (brk h) ..< e}) (umem h) m"
  shows "kept us (umem h) m"
  unfolding kept_def
proof (intro ballI allI impI)
  fix b and x :: u32 assume b: "b \<in> us" "unat x \<in> bytes_of b"
  note B = block_okD [OF heap_okD(1,2) [OF ok], of b]
  have "unat x \<notin> free_bytes fs" using free_bytes_disjoint [OF ok b(1)] b(2) by auto
  then show "m x = umem h x" using s b B(3,4) by (auto simp: same_outside_def bytes_of_def)
qed

lemma kept_free:
  assumes ok: "heap_ok base h fs us" and d: "d \<in> us" and s: "same_outside base (free_bytes fs \<union> bytes_of d) (umem h) m"
  shows "kept (us - {d}) (umem h) m"
  unfolding kept_def
proof (intro ballI allI impI)
  fix b and x :: u32 assume b: "b \<in> us - {d}" "unat x \<in> bytes_of b"
  note B = block_okD [OF heap_okD(1,2) [OF ok], of b]
  have "unat x \<notin> free_bytes fs" "unat x \<notin> bytes_of d" using free_bytes_disjoint [OF ok, of b] heap_disjoint [OF ok, of b d] b d by auto
  then show "m x = umem h x" using s b B(3) by (auto simp: same_outside_def bytes_of_def)
qed

lemma malloc_loop_run:
  assumes ok: "heap_ok base h fs us" and n: "0 < n" "8 * n < 2 ^ 31"
  obtains "malloc_loop en (of_nat n) (h_ptr (umem h) (freep h)) (freep h) h = Some (0, h)" "\<forall>b \<in> set fs. snd b < n" "\<not> can_grow en n h"
  | q h' gs where "malloc_loop en (of_nat n) (h_ptr (umem h) (freep h)) (freep h) h = Some (q + 8, h')" "heap_ok base h' gs (insert (q, n) us)" "(q, n) \<notin> us"
    "free_bytes gs \<union> bytes_of (q, n) = free_bytes fs \<union> {unat (brk h) ..< unat (brk h')}" "kept us (umem h) (umem h')"
proof -
  have n32: "n < 2 ^ 32" using n(2) by simp
  have found: "\<exists>q h' gs. malloc_loop en (of_nat n) (h_ptr (umem g) (freep g)) (freep g) g = Some (q + 8, h') \<and> heap_ok base h' gs (insert (q, n) us) \<and> (q, n) \<notin> us \<and>
      free_bytes gs \<union> bytes_of (q, n) = free_bytes es \<and> brk h' = brk g \<and> same_outside base (free_bytes es) (umem g) (umem h')"
    if g: "heap_ok base g es us" "\<exists>b \<in> set es. n \<le> snd b" for g es
    by (rule malloc_found [OF g(1) n(1) n32 g(2), of en], rule take_run [OF g(1) _ n(1)]) auto
  show ?thesis
  proof (cases "\<exists>b \<in> set fs. n \<le> snd b")
    case True
    then show ?thesis using found [OF ok True] kept_outside [OF ok, of "unat (brk h)"] that(2) by fastforce
  next
    case False
    then have small: "\<forall>b \<in> set fs. snd b < n" by auto
    note none = malloc_none [OF ok n(1) n32 small, of en]
    show ?thesis
    proof (rule morecore_run [OF ok n(2), of en])
      assume "morecore en (of_nat n) h = Some (0, h)" "\<not> can_grow en n h"
      then show ?thesis using that(1) none small by simp
    next
      fix g es assume g: "morecore en (of_nat n) h = Some (freep g, g)" "freep g \<noteq> 0" "heap_ok base g es us"
        "free_bytes es = free_bytes fs \<union> {unat (brk h) ..< unat (brk g)}" "same_outside base (free_bytes es) (umem h) (umem g)"
        "\<exists>b \<in> set es. n \<le> snd b" "brk h \<le> brk g"
      obtain q h' gs where f: "malloc_loop en (of_nat n) (h_ptr (umem g) (freep g)) (freep g) g = Some (q + 8, h')" "heap_ok base h' gs (insert (q, n) us)" "(q, n) \<notin> us"
        "free_bytes gs \<union> bytes_of (q, n) = free_bytes es" "brk h' = brk g" "same_outside base (free_bytes es) (umem g) (umem h')"
        using found [OF g(3,6)] by blast
      have "kept us (umem h) (umem h')" using same_outside_trans [OF g(5) f(6)] unfolding g(4) by (rule kept_outside [OF ok])
      then show ?thesis using that(2) [OF _ f(2,3)] none g(1,2,4) f(1,4,5) by simp
    qed
  qed
qed

text \<open>The state before the first call, and the list that the first call sets up.\<close>

definition heap_fresh :: "u32 \<Rightarrow> uheap \<Rightarrow> bool" where
  "heap_fresh base h \<longleftrightarrow> freep h = 0 \<and> base mod 4 = 0 \<and> base \<noteq> 0 \<and> unat base + 8 \<le> unat (brk h) \<and> brk h mod 4 = 0 \<and> brk h \<le> KERNBASE"

definition malloc_init :: "u32 \<Rightarrow> uheap \<Rightarrow> uheap" where
  "malloc_init base h = (if freep h = 0 then h\<lparr>umem := set_size base 0 (set_ptr base base (umem h)), freep := base\<rparr> else h)"

lemma malloc_init_ok:
  assumes "heap_ok base h fs us \<or> heap_fresh base h \<and> fs = [] \<and> us = {}"
  shows "heap_ok base (malloc_init base h) fs us" "brk (malloc_init base h) = brk h" "us \<noteq> {} \<Longrightarrow> malloc_init base h = h"
proof -
  note nz = freep_nonzero [of base h fs us]
  have "heap_ok base (malloc_init base h) [] {}" if f: "heap_fresh base h"
  proof -
    have "unat (brk h) \<le> 2147483648" using f by (simp add: heap_fresh_def word_le_nat_alt)
    then have "hdr_at base" using f by (simp add: heap_fresh_def hdr_at_def)
    then show ?thesis using f by (simp add: heap_ok_def malloc_init_def heap_fresh_def)
  qed
  then show "heap_ok base (malloc_init base h) fs us" "us \<noteq> {} \<Longrightarrow> malloc_init base h = h" using assms nz by (auto simp: malloc_init_def)
  show "brk (malloc_init base h) = brk h" by (simp add: malloc_init_def)
qed

lemma malloc_unfold:
  assumes "unat nbytes + 16 \<le> 2 ^ 31"
  shows "malloc base en nbytes h = (let g = malloc_init base h in malloc_loop en (of_nat (units nbytes)) (h_ptr (umem g) (freep g)) (freep g) g)"
  unfolding malloc_def units_word(1) [OF assms] malloc_init_def by (simp only: Let_def)

section \<open>Properties\<close>

text \<open>C35: The user-level allocator is correct. On a well-formed heap, or before the first call, \<open>malloc\<close> of less than 2 GB and \<open>free\<close> of a
  block that is in use always return, and leave a well-formed heap: the free blocks are on the ring in
  the order of their addresses, no two of them touch, and no two blocks overlap. \<open>malloc\<close> gives a
  block with room for the bytes asked for, taken from the free bytes and the memory it got from the
  kernel, with nothing lost; it gives 0 only if no free block is large enough and the process cannot
  grow. \<open>free\<close> makes exactly the bytes of its block free. Neither changes a byte of the blocks in use.\<close>

theorem malloc_free_correct:
  assumes "heap_ok base h fs us \<or> heap_fresh base h \<and> fs = [] \<and> us = {}" "unat nbytes + 16 \<le> 2 ^ 31"
  shows "(\<exists>p h'. malloc base en nbytes h = Some (p, h') \<and> kept us (umem h) (umem h') \<and>
      (p = 0 \<and> heap_ok base h' fs us \<and> brk h' = brk h \<and> (\<forall>b \<in> set fs. snd b < units nbytes) \<and> \<not> can_grow en (units nbytes) h \<or>
       p \<noteq> 0 \<and> (\<exists>gs. heap_ok base h' gs (insert (p - 8, units nbytes) us) \<and> (p - 8, units nbytes) \<notin> us \<and> unat nbytes + 8 \<le> 8 * units nbytes \<and>
         free_bytes gs \<union> bytes_of (p - 8, units nbytes) = free_bytes fs \<union> {unat (brk h) ..< unat (brk h')}))) \<and>
    (\<forall>d \<in> us. \<exists>h' gs. free (fst d + 8) h = Some h' \<and> heap_ok base h' gs (us - {d}) \<and> brk h' = brk h \<and>
      free_bytes gs = free_bytes fs \<union> bytes_of d \<and> kept (us - {d}) (umem h) (umem h'))"
proof (rule conjI, goal_cases)
  case 1
  let ?g = "malloc_init base h" and ?n = "units nbytes"
  note I = malloc_init_ok [OF assms(1)] and N = units_word [OF assms(2)]
  have un: "malloc base en nbytes h = malloc_loop en (of_nat ?n) (h_ptr (umem ?g) (freep ?g)) (freep ?g) ?g"
    using malloc_unfold [OF assms(2)] by (simp add: Let_def)
  have grow: "can_grow en ?n ?g = can_grow en ?n h" using I(2) by (simp add: can_grow_def)
  have kp: "kept us (umem h) m = kept us (umem ?g) m" for m using I(3) by (cases "us = {}") (simp_all add: kept_def)
  have n0: "0 < ?n" by (simp add: units_def)
  show ?case
  proof (rule malloc_loop_run [OF I(1) n0 N(2), of en])
    assume a: "malloc_loop en (of_nat ?n) (h_ptr (umem ?g) (freep ?g)) (freep ?g) ?g = Some (0, ?g)" "\<forall>b \<in> set fs. snd b < ?n" "\<not> can_grow en ?n ?g"
    have "kept us (umem h) (umem ?g)" unfolding kp by (simp add: kept_def)
    then show ?thesis using a I(1,2) un grow by auto
  next
    fix q h' gs assume a: "malloc_loop en (of_nat ?n) (h_ptr (umem ?g) (freep ?g)) (freep ?g) ?g = Some (q + 8, h')" "heap_ok base h' gs (insert (q, ?n) us)"
      "(q, ?n) \<notin> us" "free_bytes gs \<union> bytes_of (q, ?n) = free_bytes fs \<union> {unat (brk ?g) ..< unat (brk h')}" "kept us (umem ?g) (umem h')"
    note B = block_okD [OF heap_okD(1,2) [OF a(2)], of "(q, ?n)"]
    have "unat (q + 8) = unat q + 8" using B(1) by (simp add: hdr_at_def unat_word_ariths)
    then have "q + 8 \<noteq> 0" by (metis add_is_0 unat_0 zero_neq_numeral)
    then show ?thesis using a un kp N(3) I(2) by (intro exI [of _ "q + 8"] exI [of _ h']) auto
  qed
next
  case 2
  show ?case
  proof
    fix d assume d: "d \<in> us"
    then have ok: "heap_ok base h fs us" using assms(1) by auto
    show "\<exists>h' gs. free (fst d + 8) h = Some h' \<and> heap_ok base h' gs (us - {d}) \<and> brk h' = brk h \<and>
      free_bytes gs = free_bytes fs \<union> bytes_of d \<and> kept (us - {d}) (umem h) (umem h')"
    proof (rule free_run [OF ok d])
      fix h' gs assume a: "free (fst d + 8) h = Some h'" "heap_ok base h' gs (us - {d})" "brk h' = brk h" "free_bytes gs = free_bytes fs \<union> bytes_of d"
        "same_outside base (free_bytes gs) (umem h) (umem h')"
      then show ?thesis using kept_free [OF ok d] by auto
    qed
  qed
qed

theorem malloc_free_correct_witness:
  "\<exists>p h'. malloc 0x1000 (\<lambda>n. n \<le> 0x100000) 100 \<lparr>umem = (\<lambda>_. 0), freep = 0, brk = 0x4000\<rparr> = Some (p, h') \<and> p \<noteq> 0 \<and>
     (\<exists>gs. heap_ok 0x1000 h' gs {(p - 8, 14)} \<and> free_bytes gs \<union> bytes_of (p - 8, 14) = {0x4000 ..< unat (brk h')})"
proof -
  let ?h = "\<lparr>umem = (\<lambda>_. 0), freep = 0, brk = 0x4000\<rparr>" and ?en = "\<lambda>n :: u32. n \<le> 0x100000"
  have f: "heap_ok 0x1000 ?h [] {} \<or> heap_fresh 0x1000 ?h \<and> ([] :: block list) = [] \<and> ({} :: block set) = {}" by (simp add: heap_fresh_def)
  have u: "units 100 = 14" by (simp add: units_def)
  have "can_grow ?en 14 ?h" by (simp add: can_grow_def)
  then show ?thesis using malloc_free_correct [OF f, of 100 ?en] unfolding u by auto
qed

end
