(* ===== verification/Mkfs.thy ===== *)
theory Mkfs
  imports Fs
begin

text \<open>
  The program that builds the initial disk, \<^verbatim>\<open>mkfs.c\<close>. The image file is its sectors, all zero
  until they are written, and their number; reading behind its end ends the program. A step returns
  its result and the new state, or the message of a failed assertion or system call. The host is
  little endian. The files to be copied are given with the chunks that \<^verbatim>\<open>read\<close> returns, each of at most
  \<open>BSIZE\<close> bytes, or as missing.
\<close>

section \<open>The image\<close>

record mkfs =
  img :: "nat \<Rightarrow> byte list"
  nsect :: nat
  freeinode :: u32
  freeblock :: u32

abbreviation (input) FSSIZE' :: nat where "FSSIZE' \<equiv> 1000"
abbreviation (input) NINODES :: u32 where "NINODES \<equiv> 200"
abbreviation (input) MAXFILE' :: u32 where "MAXFILE' \<equiv> 140"

definition nbitmap :: u32 where "nbitmap = 1000 div (512 * 8) + 1"
definition ninodeblocks :: u32 where "ninodeblocks = NINODES div IPB + 1"
definition nlog :: u32 where "nlog = 30"
definition nmeta :: u32 where "nmeta = 2 + nlog + ninodeblocks + nbitmap"
definition nblocks :: u32 where "nblocks = 1000 - nmeta"

definition xshort :: "u16 \<Rightarrow> u16" where
  "xshort x = get16 (le16 x) 0"

definition xint :: "u32 \<Rightarrow> u32" where
  "xint x = get32 (le32 x) 0"

definition mk_sb :: superblock where
  "mk_sb = \<lparr>sb_size = xint 1000, sb_nblocks = xint nblocks, sb_ninodes = xint NINODES, sb_nlog = xint nlog, sb_logstart = xint 2,
     sb_inodestart = xint (2 + nlog), sb_bmapstart = xint (2 + nlog + ninodeblocks)\<rparr>"

definition sb_bytes :: "superblock \<Rightarrow> byte list" where
  "sb_bytes q = le32 (sb_size q) @ le32 (sb_nblocks q) @ le32 (sb_ninodes q) @ le32 (sb_nlog q) @ le32 (sb_logstart q) @
     le32 (sb_inodestart q) @ le32 (sb_bmapstart q)"

type_synonym 'a mk = "mkfs \<Rightarrow> string + 'a \<times> mkfs"

definition retM :: "'a \<Rightarrow> 'a mk" where
  "retM a s = Inr (a, s)"

definition failM :: "string \<Rightarrow> 'a mk" where
  "failM e s = Inl e"

definition bindM :: "'a mk \<Rightarrow> ('a \<Rightarrow> 'b mk) \<Rightarrow> 'b mk" where
  "bindM m f s = (case m s of Inl e \<Rightarrow> Inl e | Inr (a, s') \<Rightarrow> f a s')"

definition wsect :: "u32 \<Rightarrow> byte list \<Rightarrow> unit mk" where
  "wsect sec buf s =
     (let k = unat (sec * 512) div 512 in Inr ((), s\<lparr>img := (img s)(k := buf), nsect := max (nsect s) (k + 1)\<rparr>))"

definition rsect :: "u32 \<Rightarrow> byte list mk" where
  "rsect sec s =
     (let k = unat (sec * 512) div 512 in if k < nsect s then Inr (img s k, s) else Inl ''read'')"

section \<open>Inodes\<close>

record dinode =
  d_type :: u16
  d_major :: u16
  d_minor :: u16
  d_nlink :: u16
  d_size :: u32
  d_addrs :: "u32 list"

definition dinode_bytes :: "dinode \<Rightarrow> byte list" where
  "dinode_bytes d = le16 (d_type d) @ le16 (d_major d) @ le16 (d_minor d) @ le16 (d_nlink d) @ le32 (d_size d) @ concat (map le32 (d_addrs d))"

definition dinode_of :: "byte list \<Rightarrow> dinode" where
  "dinode_of bs = \<lparr>d_type = get16 bs 0, d_major = get16 bs 2, d_minor = get16 bs 4, d_nlink = get16 bs 6, d_size = get32 bs 8,
     d_addrs = map (\<lambda>i. get32 bs (12 + 4 * i)) [0..<13]\<rparr>"

definition winode :: "u32 \<Rightarrow> dinode \<Rightarrow> unit mk" where
  "winode inum ip =
     (let bn = IBLOCK inum mk_sb in
      bindM (rsect bn) (\<lambda>buf.
      wsect bn (put_bytes (64 * unat (inum mod IPB)) (dinode_bytes ip) buf)))"

definition rinode :: "u32 \<Rightarrow> dinode mk" where
  "rinode inum =
     (let bn = IBLOCK inum mk_sb in
      bindM (rsect bn) (\<lambda>buf.
      retM (dinode_of (slice (64 * unat (inum mod IPB)) 64 buf))))"

definition mk_ialloc :: "u16 \<Rightarrow> u32 mk" where
  "mk_ialloc type =
     bindM (\<lambda>s. Inr (freeinode s, s\<lparr>freeinode := freeinode s + 1\<rparr>)) (\<lambda>inum.
     let din = \<lparr>d_type = xshort type, d_major = 0, d_minor = 0, d_nlink = xshort 1, d_size = xint 0, d_addrs = replicate 13 0\<rparr> in
     bindM (winode inum din) (\<lambda>_.
     retM inum))"

definition mk_balloc :: "u32 \<Rightarrow> unit mk" where
  "mk_balloc used =
     (if \<not> sint used < 512 * 8 then failM ''used < BSIZE*8''
      else
        let buf = fold (\<lambda>i buf. buf[i div 8 := buf ! (i div 8) OR push_bit (i mod 8) 1]) [0..<nat (sint used)] (replicate 512 0)
        in wsect (sb_bmapstart mk_sb) buf)"

definition new_block :: "u32 mk" where
  "new_block s = Inr (freeblock s, s\<lparr>freeblock := freeblock s + 1\<rparr>)"

section \<open>Appending to a file\<close>

text \<open>The block of the file with the index \<open>fbn\<close>, allocated if it is not there.\<close>

definition append_block :: "dinode \<Rightarrow> u32 \<Rightarrow> (u32 \<times> dinode) mk" where
  "append_block din fbn =
     (if fbn < 12 then
        bindM (if xint (d_addrs din ! unat fbn) = 0
               then bindM new_block (\<lambda>b. retM (din\<lparr>d_addrs := (d_addrs din)[unat fbn := xint b]\<rparr>)) else retM din) (\<lambda>din.
        retM (xint (d_addrs din ! unat fbn), din))
      else
        bindM (if xint (d_addrs din ! 12) = 0
               then bindM new_block (\<lambda>b. retM (din\<lparr>d_addrs := (d_addrs din)[12 := xint b]\<rparr>)) else retM din) (\<lambda>din.
        bindM (rsect (xint (d_addrs din ! 12))) (\<lambda>indirect.
        let j = 4 * unat (fbn - 12) in
        if get32 indirect j = 0 then
          bindM new_block (\<lambda>b.
          let indirect = put_bytes j (le32 (xint b)) indirect in
          bindM (wsect (xint (d_addrs din ! 12)) indirect) (\<lambda>_.
          retM (xint (get32 indirect j), din)))
        else retM (xint (get32 indirect j), din))))"

lemma append_progress:
  assumes "off div 512 < (140 :: u32)"
  shows "0 < unat ((off div 512 + 1) * 512 - off)" "unat ((off div 512 + 1) * 512 - off) = 512 - unat off mod 512"
    "0 < unat (off div 512 * 512 + 512 - off)"
proof -
  have d: "unat off div 512 < 140" using assms by (simp add: word_less_nat_alt unat_div)
  have e: "unat off = 512 * (unat off div 512) + unat off mod 512" "unat off mod 512 < 512" by simp_all
  have w: "unat ((off div 512 + 1) * 512) = unat off div 512 * 512 + 512" using d by (simp add: unat_word_ariths unat_div)
  have "off \<le> (off div 512 + 1) * 512" unfolding word_le_nat_alt w using e by linarith
  then have "unat ((off div 512 + 1) * 512 - off) = unat off div 512 * 512 + 512 - unat off" by (simp only: unat_sub w)
  then show u: "unat ((off div 512 + 1) * 512 - off) = 512 - unat off mod 512" using e by linarith
  show p: "0 < unat ((off div 512 + 1) * 512 - off)" unfolding u using e(2) by simp
  have "(off div 512 + 1) * 512 = off div 512 * 512 + 512" by (simp add: distrib_right)
  then show "0 < unat (off div 512 * 512 + 512 - off)" using p by simp
qed

function iappend_loop :: "dinode \<Rightarrow> u32 \<Rightarrow> byte list \<Rightarrow> (dinode \<times> u32) mk" where
  "iappend_loop din off p s =
     (if p = [] then Inr ((din, off), s)
      else
        let fbn = off div 512 in
        if \<not> fbn < MAXFILE' then Inl ''fbn < MAXFILE''
        else
          case append_block din fbn s of
            Inl e \<Rightarrow> Inl e
          | Inr ((x, din), s) \<Rightarrow>
              let n1 = min (length p) (unat ((fbn + 1) * 512 - off)) in
              case rsect x s of
                Inl e \<Rightarrow> Inl e
              | Inr (buf, s) \<Rightarrow>
                  (case wsect x (put_bytes (unat (off - fbn * 512)) (take n1 p) buf) s of
                     Inl e \<Rightarrow> Inl e
                   | Inr (_, s) \<Rightarrow> iappend_loop din (off + of_nat n1) (drop n1 p) s))"
  by pat_completeness auto
termination by (relation "measure (\<lambda>(din, off, p, s). length p)") (use append_progress(3) in auto)

declare iappend_loop.simps [simp del]

definition iappend :: "u32 \<Rightarrow> byte list \<Rightarrow> unit mk" where
  "iappend inum p =
     bindM (rinode inum) (\<lambda>din.
     bindM (iappend_loop din (xint (d_size din)) p) (\<lambda>(din, off).
     winode inum (din\<lparr>d_size := xint off\<rparr>)))"

section \<open>The program\<close>

primrec zero_sectors :: "nat \<Rightarrow> unit mk" where
  "zero_sectors 0 = retM ()"
| "zero_sectors (Suc i) = bindM (zero_sectors i) (\<lambda>_. wsect (of_nat i) (replicate 512 0))"

fun append_chunks :: "u32 \<Rightarrow> byte list list \<Rightarrow> unit mk" where
  "append_chunks inum [] = retM ()"
| "append_chunks inum (c # cs) = (if c = [] then retM () else bindM (iappend inum c) (\<lambda>_. append_chunks inum cs))"

definition add_file :: "u32 \<Rightarrow> byte list \<times> byte list list option \<Rightarrow> unit mk" where
  "add_file rootino f =
     (case f of (name, contents) \<Rightarrow>
        if 47 \<in> set name then failM ''index(argv[i], slash) == 0''
        else
          case contents of
            None \<Rightarrow> failM ''open''
          | Some chunks \<Rightarrow>
              let name = (if name \<noteq> [] \<and> name ! 0 = 95 then tl name else name) in
              bindM (mk_ialloc T_FILE) (\<lambda>inum.
              bindM (iappend rootino (mk_dirent name (xshort (ucast inum)))) (\<lambda>_.
              append_chunks inum chunks)))"

fun add_files :: "u32 \<Rightarrow> (byte list \<times> byte list list option) list \<Rightarrow> unit mk" where
  "add_files rootino [] = retM ()"
| "add_files rootino (f # fs) = bindM (add_file rootino f) (\<lambda>_. add_files rootino fs)"

definition mkfs_start :: mkfs where
  "mkfs_start = \<lparr>img = (\<lambda>_. replicate 512 0), nsect = 0, freeinode = 1, freeblock = 0\<rparr>"

definition mkfs_main :: "(byte list \<times> byte list list option) list \<Rightarrow> unit mk" where
  "mkfs_main files =
     bindM (\<lambda>s. Inr ((), s\<lparr>freeblock := nmeta\<rparr>)) (\<lambda>_.
     bindM (zero_sectors FSSIZE') (\<lambda>_.
     bindM (wsect 1 (put_bytes 0 (sb_bytes mk_sb) (replicate 512 0))) (\<lambda>_.
     bindM (mk_ialloc T_DIR) (\<lambda>rootino.
     if rootino \<noteq> 1 then failM ''rootino == ROOTINO''
     else
       bindM (iappend rootino (mk_dirent [46] (xshort (ucast rootino)))) (\<lambda>_.
       bindM (iappend rootino (mk_dirent [46, 46] (xshort (ucast rootino)))) (\<lambda>_.
       bindM (add_files rootino files) (\<lambda>_.
       bindM (rinode rootino) (\<lambda>din.
       let off = xint (d_size din); off = (off div 512 + 1) * 512 in
       bindM (winode rootino (din\<lparr>d_size := xint off\<rparr>)) (\<lambda>_.
       bindM (\<lambda>s. Inr (freeblock s, s)) (\<lambda>fb.
       mk_balloc fb))))))))))"

end
