(* ===== verification/Mkfs_Image.thy ===== *)
theory Mkfs_Image
  imports Mkfs
begin

text \<open>
  Files on the image that \<^verbatim>\<open>mkfs\<close> builds. They are read the way the kernel reads them, through the direct
  and the indirect block numbers of their inodes; \<open>image_ok\<close> is the invariant of the image under
  construction. The loop of \<open>iappend\<close> extends one file and changes no other, and takes exactly
  the blocks that the new size needs.
\<close>

section \<open>Files on the image\<close>

lemma xint_id [simp]: "xint x = x" "xshort y = y"
  by (simp_all add: xint_def xshort_def get32_le32 get16_le16)

definition addr :: "(nat \<Rightarrow> byte list) \<Rightarrow> dinode \<Rightarrow> nat \<Rightarrow> u32" where
  "addr m d k = (if k < 12 then d_addrs d ! k else if d_addrs d ! 12 = 0 then 0 else get32 (m (unat (d_addrs d ! 12))) (4 * (k - 12)))"

definition byte_at :: "(nat \<Rightarrow> byte list) \<Rightarrow> dinode \<Rightarrow> nat \<Rightarrow> byte" where
  "byte_at m d j = m (unat (addr m d (j div 512))) ! (j mod 512)"

definition contents :: "(nat \<Rightarrow> byte list) \<Rightarrow> dinode \<Rightarrow> byte list" where
  "contents m d = map (byte_at m d) [0..<unat (d_size d)]"

definition blocks :: "(nat \<Rightarrow> byte list) \<Rightarrow> dinode \<Rightarrow> u32 set" where
  "blocks m d = insert (d_addrs d ! 12) (addr m d ` {..<140}) - {0}"

definition file_ok :: "(nat \<Rightarrow> byte list) \<Rightarrow> dinode \<Rightarrow> bool" where
  "file_ok m d \<longleftrightarrow> length (d_addrs d) = 13 \<and> unat (d_size d) \<le> 140 * 512 \<and>
     (\<forall>k < 140. addr m d k \<noteq> 0 \<longleftrightarrow> 512 * k < unat (d_size d)) \<and> (d_addrs d ! 12 \<noteq> 0 \<longleftrightarrow> 12 * 512 < unat (d_size d)) \<and>
     (\<forall>k < 140. \<forall>l < 140. addr m d k = addr m d l \<longrightarrow> addr m d k \<noteq> 0 \<longrightarrow> k = l) \<and>
     (\<forall>k < 140. addr m d k \<noteq> 0 \<longrightarrow> addr m d k \<noteq> d_addrs d ! 12) \<and>
     (\<forall>j. unat (d_size d) \<le> j \<and> 512 * (j div 512) < unat (d_size d) \<longrightarrow> byte_at m d j = 0)"

definition image_ok :: "mkfs \<Rightarrow> (nat \<Rightarrow> dinode) \<Rightarrow> nat set \<Rightarrow> bool" where
  "image_ok s F I \<longleftrightarrow> (\<forall>k. length (img s k) = 512) \<and> nsect s = 1000 \<and> 59 \<le> unat (freeblock s) \<and> unat (freeblock s) \<le> 1000 \<and>
     (\<forall>b. unat (freeblock s) \<le> b \<longrightarrow> img s b = replicate 512 0) \<and>
     (\<forall>i \<in> I. file_ok (img s) (F i)) \<and> (\<forall>i \<in> I. \<forall>b \<in> blocks (img s) (F i). 59 \<le> unat b \<and> unat b < unat (freeblock s)) \<and>
     (\<forall>i \<in> I. \<forall>j \<in> I. i \<noteq> j \<longrightarrow> blocks (img s) (F i) \<inter> blocks (img s) (F j) = {})"

lemma addr_in_blocks: "k < 140 \<Longrightarrow> addr m d k \<noteq> 0 \<Longrightarrow> addr m d k \<in> blocks m d"
  by (simp add: blocks_def)

lemma addr_cong:
  assumes "d_addrs d ! 12 \<noteq> 0 \<Longrightarrow> m' (unat (d_addrs d ! 12)) = m (unat (d_addrs d ! 12))"
  shows "addr m' d k = addr m d k"
  using assms by (simp add: addr_def)

text \<open>A file does not see changes of blocks that are not its own.\<close>

lemma file_frame:
  assumes "\<And>b. b \<in> blocks m d \<Longrightarrow> m' (unat b) = m (unat b)"
  shows "addr m' d k = addr m d k" "blocks m' d = blocks m d"
    "k < 140 * 512 \<Longrightarrow> addr m d (k div 512) \<noteq> 0 \<Longrightarrow> byte_at m' d k = byte_at m d k"
proof -
  show a: "addr m' d k = addr m d k" for k by (rule addr_cong) (use assms in \<open>simp add: blocks_def\<close>)
  then show "blocks m' d = blocks m d" by (simp add: blocks_def)
  show "byte_at m' d k = byte_at m d k" if "k < 140 * 512" "addr m d (k div 512) \<noteq> 0"
    using assms [OF addr_in_blocks [OF _ that(2)]] that(1) by (simp add: byte_at_def a)
qed

lemma size_frame:
  assumes "file_ok m d" "j div 512 < 140" "512 * (j div 512) < unat (d_size d)"
  shows "addr m d (j div 512) \<noteq> 0"
  using assms by (simp add: file_ok_def)

lemma file_ok_frame:
  assumes ok: "file_ok m d" and fr: "\<And>b. b \<in> blocks m d \<Longrightarrow> m' (unat b) = m (unat b)"
  shows "file_ok m' d" "contents m' d = contents m d"
proof -
  note f = file_frame [of m d m', OF fr]
  have s: "unat (d_size d) \<le> 140 * 512" using ok by (simp add: file_ok_def)
  have b: "byte_at m' d j = byte_at m d j" if "512 * (j div 512) < unat (d_size d)" for j
  proof -
    have "j div 512 < 140" using that s by linarith
    then show ?thesis using f(3) [of j] size_frame [OF ok _ that] by (simp add: div_less_iff_less_mult)
  qed
  show "file_ok m' d" using ok unfolding file_ok_def by (simp add: f(1) b)
  show "contents m' d = contents m d" unfolding contents_def
    by (rule map_cong [OF refl], rule b) (auto intro: le_less_trans [OF times_div_less_eq_dividend])
qed

lemma image_okD:
  assumes "image_ok s F I"
  shows "length (img s k) = 512" "nsect s = 1000" "59 \<le> unat (freeblock s)" "unat (freeblock s) \<le> 1000"
    "unat (freeblock s) \<le> b \<Longrightarrow> img s b = replicate 512 0" "i \<in> I \<Longrightarrow> file_ok (img s) (F i)"
    "i \<in> I \<Longrightarrow> c \<in> blocks (img s) (F i) \<Longrightarrow> 59 \<le> unat c \<and> unat c < unat (freeblock s)"
    "i \<in> I \<Longrightarrow> j \<in> I \<Longrightarrow> i \<noteq> j \<Longrightarrow> blocks (img s) (F i) \<inter> blocks (img s) (F j) = {}"
  using assms by (simp_all add: image_ok_def)

lemma file_okD:
  assumes "file_ok m d"
  shows "length (d_addrs d) = 13" "unat (d_size d) \<le> 71680" "k < 140 \<Longrightarrow> addr m d k \<noteq> 0 \<longleftrightarrow> 512 * k < unat (d_size d)"
    "d_addrs d ! 12 \<noteq> 0 \<longleftrightarrow> 6144 < unat (d_size d)" "k < 140 \<Longrightarrow> l < 140 \<Longrightarrow> addr m d k = addr m d l \<Longrightarrow> addr m d k \<noteq> 0 \<Longrightarrow> k = l"
    "k < 140 \<Longrightarrow> addr m d k \<noteq> 0 \<Longrightarrow> addr m d k \<noteq> d_addrs d ! 12"
    "unat (d_size d) \<le> j \<Longrightarrow> 512 * (j div 512) < unat (d_size d) \<Longrightarrow> byte_at m d j = 0"
  using assms unfolding file_ok_def by simp_all

text \<open>
  One round of the loop of \<open>iappend\<close>, once the block \<open>x\<close> has been found or allocated: \<open>m'\<close> is the image with the
  new entry in the indirect block, \<open>fb\<close> the new first free block.
\<close>

definition grown :: "mkfs \<Rightarrow> dinode \<Rightarrow> u32 \<Rightarrow> dinode \<Rightarrow> (nat \<Rightarrow> byte list) \<Rightarrow> u32 \<Rightarrow> bool" where
  "grown s d x d' m' fb \<longleftrightarrow>
     (let k0 = unat (d_size d) div 512; q = d_addrs d' ! 12; fresh = (\<lambda>b. unat (freeblock s) \<le> unat b \<and> unat b < unat fb) in
      length (d_addrs d') = 13 \<and> unat (freeblock s) \<le> unat fb \<and> unat fb \<le> 1000 \<and> x \<noteq> 0 \<and> x \<noteq> q \<and>
      (\<forall>k < 140. addr m' d' k = (if k = k0 then x else addr (img s) d k)) \<and>
      (if addr (img s) d k0 = 0 then fresh x else x = addr (img s) d k0) \<and> (q = d_addrs d ! 12 \<or> fresh q) \<and> (q \<noteq> 0 \<longleftrightarrow> 12 \<le> k0) \<and>
      (\<forall>b. b \<noteq> unat q \<longrightarrow> m' b = img s b) \<and> (q = 0 \<longrightarrow> m' = img s) \<and> (\<forall>b. length (m' b) = 512))"

lemma addr_size [simp]: "addr m (d\<lparr>d_size := v\<rparr>) k = addr m d k" "byte_at m (d\<lparr>d_size := v\<rparr>) k = byte_at m d k"
  by (simp_all add: addr_def byte_at_def)

lemma grownD:
  assumes "grown s d x d' m' fb"
  shows "length (d_addrs d') = 13" "unat (freeblock s) \<le> unat fb" "unat fb \<le> 1000" "x \<noteq> 0" "x \<noteq> d_addrs d' ! 12"
    "k < 140 \<Longrightarrow> addr m' d' k = (if k = unat (d_size d) div 512 then x else addr (img s) d k)"
    "addr (img s) d (unat (d_size d) div 512) = 0 \<Longrightarrow> unat (freeblock s) \<le> unat x \<and> unat x < unat fb"
    "addr (img s) d (unat (d_size d) div 512) \<noteq> 0 \<Longrightarrow> x = addr (img s) d (unat (d_size d) div 512)"
    "d_addrs d' ! 12 = d_addrs d ! 12 \<or> unat (freeblock s) \<le> unat (d_addrs d' ! 12) \<and> unat (d_addrs d' ! 12) < unat fb"
    "d_addrs d' ! 12 \<noteq> 0 \<longleftrightarrow> 12 \<le> unat (d_size d) div 512" "d_addrs d' ! 12 \<noteq> 0 \<Longrightarrow> b \<noteq> unat (d_addrs d' ! 12) \<Longrightarrow> m' b = img s b"
    "d_addrs d' ! 12 = 0 \<Longrightarrow> m' = img s" "length (m' b) = 512"
  using assms unfolding grown_def Let_def by (simp_all split: if_splits)

lemma grown_own:
  assumes ok: "image_ok s F I" "i \<in> I" and g: "grown s (F i) x d' m' fb" and lt: "unat (d_size (F i)) div 512 < 140"
  shows "x \<in> blocks (img s) (F i) \<or> unat (freeblock s) \<le> unat x" "59 \<le> unat x" "unat x < unat fb"
    "q = d_addrs d' ! 12 \<Longrightarrow> q \<noteq> 0 \<Longrightarrow> (q \<in> blocks (img s) (F i) \<or> unat (freeblock s) \<le> unat q) \<and> 59 \<le> unat q \<and> unat q < unat fb"
proof -
  note G = grownD [OF g] and D = image_okD [OF ok(1)]
  have b: "59 \<le> unat c" "unat c < unat fb" if "c \<in> blocks (img s) (F i)" for c using D(7) [OF ok(2) that] G(2) by auto
  show "x \<in> blocks (img s) (F i) \<or> unat (freeblock s) \<le> unat x" using G(7,8) addr_in_blocks [OF lt] by metis
  then show "59 \<le> unat x" using b(1) [of x] D(3) by auto
  show "unat x < unat fb" using G(7,8) addr_in_blocks [OF lt] b(2) by metis
  show "(q \<in> blocks (img s) (F i) \<or> unat (freeblock s) \<le> unat q) \<and> 59 \<le> unat q \<and> unat q < unat fb" if "q = d_addrs d' ! 12" "q \<noteq> 0"
  proof (cases "q = d_addrs (F i) ! 12")
    case True
    then have "q \<in> blocks (img s) (F i)" using that(2) by (simp add: blocks_def)
    then show ?thesis using b by blast
  next
    case False
    then show ?thesis using G(9) that(1) D(3) by auto
  qed
qed

lemma grown_same:
  assumes g: "grown s d x d' m' fb" and b: "b \<noteq> unat x" "d_addrs d' ! 12 \<noteq> 0 \<Longrightarrow> b \<noteq> unat (d_addrs d' ! 12)"
  shows "(m'(unat x := y)) b = img s b"
  using grownD(11,12) [OF g] b by (cases "d_addrs d' ! 12 = 0") auto

text \<open>The other files.\<close>

lemma grown_other:
  assumes ok: "image_ok s F I" "i \<in> I" "j \<in> I" "j \<noteq> i" and g: "grown s (F i) x d' m' fb" and lt: "unat (d_size (F i)) div 512 < 140"
    and c: "c \<in> blocks (img s) (F j)"
  shows "(m'(unat x := y)) (unat c) = img s (unat c)" "c \<noteq> x" "d_addrs d' ! 12 \<noteq> 0 \<Longrightarrow> c \<noteq> d_addrs d' ! 12"
proof -
  note O = grown_own [OF ok(1,2) g lt] and D = image_okD [OF ok(1)]
  have cb: "c \<notin> blocks (img s) (F i)" "unat c < unat (freeblock s)" using D(8) [OF ok(3,2,4)] D(7) [OF ok(3) c] c by auto
  show x: "c \<noteq> x" using O(1) cb by auto
  show q: "c \<noteq> d_addrs d' ! 12" if "d_addrs d' ! 12 \<noteq> 0" using O(4) [OF refl that] cb by auto
  show "(m'(unat x := y)) (unat c) = img s (unat c)" by (rule grown_same [OF g]) (use x q in \<open>auto simp: word_unat_eq_iff\<close>)
qed

text \<open>The file that grows.\<close>

lemma grown_addr:
  assumes g: "grown s d x d' m' fb" and k: "k < 140"
  shows "addr (m'(unat x := y)) d' k = (if k = unat (d_size d) div 512 then x else addr (img s) d k)"
proof -
  have "addr (m'(unat x := y)) d' k = addr m' d' k" by (rule addr_cong) (use grownD(5) [OF g] in \<open>auto simp: word_unat_eq_iff\<close>)
  then show ?thesis using grownD(6) [OF g k] by simp
qed

lemma grown_byte_old:
  assumes ok: "image_ok s F I" "i \<in> I" and g: "grown s (F i) x d' m' fb" and lt: "unat (d_size (F i)) div 512 < 140"
    and j: "j div 512 < unat (d_size (F i)) div 512"
  shows "byte_at (m'(unat x := y)) d' j = byte_at (img s) (F i) j"
proof -
  define off where "off = unat (d_size (F i))"
  note G = grownD [OF g, folded off_def] and D = image_okD [OF ok(1)]
  note ok_i = file_okD [OF D(6) [OF ok(2)], folded off_def]
  let ?a = "addr (img s) (F i) (j div 512)"
  have j140: "j div 512 < 140" "off div 512 < 140" using j lt by (simp_all add: off_def)
  have "512 * (j div 512) < off" using j unfolding off_def [symmetric] by (metis div_mult_mod_eq div_le_mono le_less_linear mult.commute nonzero_mult_div_cancel_left not_less zero_neq_numeral)
  then have a0: "?a \<noteq> 0" using ok_i(3) [OF j140(1)] by simp
  have fb: "unat ?a < unat (freeblock s)" using D(7) [OF ok(2) addr_in_blocks [OF j140(1) a0]] by simp
  have "(m'(unat x := y)) (unat ?a) = img s (unat ?a)"
  proof (rule grown_same [OF g])
    show "unat ?a \<noteq> unat x"
    proof
      assume "unat ?a = unat x"
      then have x: "x = ?a" by (simp add: word_unat_eq_iff)
      then have "x = addr (img s) (F i) (off div 512)" using G(7,8) fb by fastforce
      then show False using ok_i(5) [OF j140 _ a0] x j by (simp add: off_def)
    qed
    show "unat ?a \<noteq> unat (d_addrs d' ! 12)" using G(9) fb ok_i(6) [OF j140(1) a0] by (auto simp: word_unat_eq_iff)
  qed
  moreover have "addr (m'(unat x := y)) d' (j div 512) = ?a" using grown_addr [OF g j140(1)] j by simp
  ultimately show ?thesis by (simp add: byte_at_def)
qed

lemma grown_byte_last:
  assumes ok: "image_ok s F I" "i \<in> I" and g: "grown s (F i) x d' m' fb" and lt: "unat (d_size (F i)) div 512 < 140"
  defines "off \<equiv> unat (d_size (F i))"
  assumes j: "j div 512 = off div 512"
  shows "m' (unat x) ! (j mod 512) = (if j < off then byte_at (img s) (F i) j else 0)"
proof -
  note G = grownD [OF g, folded off_def] and D = image_okD [OF ok(1)]
  note ok_i = file_okD [OF D(6) [OF ok(2)], folded off_def]
  have lt': "off div 512 < 140" using lt by (simp add: off_def)
  have jm: "j = 512 * (off div 512) + j mod 512" using j by (metis mult_div_mod_eq)
  have mx: "m' (unat x) = img s (unat x)" using G(5,11,12) by (cases "d_addrs d' ! 12 = 0") (auto simp: word_unat_eq_iff)
  show ?thesis
  proof (cases "addr (img s) (F i) (off div 512) = 0")
    case True
    have "img s (unat x) = replicate 512 0" using G(7) [OF True] D(5) by blast
    moreover have "\<not> j < off" using True ok_i(3) [OF lt'] jm by linarith
    ultimately show ?thesis using mx by simp
  next
    case False
    have "m' (unat x) ! (j mod 512) = byte_at (img s) (F i) j" using G(8) [OF False] mx j by (simp add: byte_at_def)
    moreover have "byte_at (img s) (F i) j = 0" if "\<not> j < off"
      by (rule ok_i(7)) (use that False ok_i(3) [OF lt'] j in simp_all)
    ultimately show ?thesis by simp
  qed
qed

lemma grown_bytes:
  assumes ok: "image_ok s F I" "i \<in> I" and g: "grown s (F i) x d' m' fb" and n: "0 < n" "n \<le> 512 - unat (d_size (F i)) mod 512" "n \<le> length p"
    and lt: "unat (d_size (F i)) div 512 < 140" and j: "512 * (j div 512) < unat (d_size (F i)) + n"
  defines "off \<equiv> unat (d_size (F i))" and "m2 \<equiv> m'(unat x := put_bytes (unat (d_size (F i)) mod 512) (take n p) (m' (unat x)))"
  shows "byte_at m2 d' j = (if off \<le> j \<and> j < off + n then p ! (j - off) else if j < off then byte_at (img s) (F i) j else 0)"
proof -
  have e: "off = 512 * (off div 512) + off mod 512" "off mod 512 < 512" by simp_all
  have n2: "n \<le> 512 - off mod 512" using n(2) by (simp add: off_def)
  have j1: "j div 512 \<le> off div 512" using j e n2 unfolding off_def [symmetric] by linarith
  show ?thesis
  proof (cases "j div 512 = off div 512")
    case False
    then have jl: "j div 512 < off div 512" using j1 by simp
    then have jo: "j < off" by (metis div_le_mono not_le)
    then show ?thesis using grown_byte_old [OF ok g lt jl [unfolded off_def]] by (simp add: m2_def)
  next
    case True
    have jm: "j = 512 * (off div 512) + j mod 512" using True by (metis mult_div_mod_eq)
    have lt': "j div 512 < 140" using lt True by (simp add: off_def)
    have am: "addr m2 d' (j div 512) = x" using grown_addr [OF g lt'] True by (simp add: m2_def off_def)
    have len: "off mod 512 + length (take n p) \<le> length (m' (unat x))" using n n2 grownD(13) [OF g] by simp
    have "m2 (unat x) = put_bytes (off mod 512) (take n p) (m' (unat x))" by (simp add: m2_def off_def)
    then have b: "byte_at m2 d' j = (if off mod 512 \<le> j mod 512 \<and> j mod 512 < off mod 512 + n then take n p ! (j mod 512 - off mod 512) else m' (unat x) ! (j mod 512))"
      unfolding byte_at_def am using nth_put_bytes [OF len, of "j mod 512"] n(3) grownD(13) [OF g] by simp
    show ?thesis
    proof (cases "off \<le> j \<and> j < off + n")
      case in_new: True
      then have "off mod 512 \<le> j mod 512 \<and> j mod 512 < off mod 512 + n" "j mod 512 - off mod 512 = j - off" using jm e by linarith+
      moreover have "take n p ! (j - off) = p ! (j - off)" using in_new by (intro nth_take) linarith
      ultimately show ?thesis using b in_new by simp
    next
      case False
      then have "\<not> (off mod 512 \<le> j mod 512 \<and> j mod 512 < off mod 512 + n)" using jm e by linarith
      then have "byte_at m2 d' j = m' (unat x) ! (j mod 512)" using b by (simp only: if_False)
      then show ?thesis using grown_byte_last [OF ok g lt True [unfolded off_def], folded off_def] False by auto
    qed
  qed
qed

lemma grown_file:
  assumes ok: "image_ok s F I" "i \<in> I" and g: "grown s (F i) x d' m' fb" and n: "0 < n" "n \<le> 512 - unat (d_size (F i)) mod 512" "n \<le> length p"
    and lt: "unat (d_size (F i)) div 512 < 140"
  defines "off \<equiv> unat (d_size (F i))" and "m2 \<equiv> m'(unat x := put_bytes (unat (d_size (F i)) mod 512) (take n p) (m' (unat x)))"
  defines "d2 \<equiv> d'\<lparr>d_size := of_nat (unat (d_size (F i)) + n)\<rparr>"
  shows "file_ok m2 d2" "contents m2 d2 = contents (img s) (F i) @ take n p" "unat (d_size d2) = off + n"
proof -
  note G = grownD [OF g, folded off_def] and D = image_okD [OF ok(1)]
  note ok_i = file_okD [OF D(6) [OF ok(2)], folded off_def] and B = grown_bytes [OF ok g n lt, folded off_def m2_def]
  have e: "off = 512 * (off div 512) + off mod 512" "off mod 512 < 512" "off div 512 < 140" "n \<le> 512 - off mod 512" using lt n(2) by (simp_all add: off_def)
  have A: "addr m2 d2 k = (if k = off div 512 then x else addr (img s) (F i) k)" if "k < 140" for k
    using grown_addr [OF g that] by (simp add: m2_def d2_def off_def)
  have sz: "off + n \<le> 71680" using e by linarith
  then show u: "unat (d_size d2) = off + n" using unat_of_nat_u32 [of "off + n"] by (simp add: d2_def off_def)
  have q: "d_addrs d2 = d_addrs d'" by (simp add: d2_def)
  have at: "addr (img s) (F i) k \<noteq> 0 \<longleftrightarrow> 512 * k < off" if "k < 140" for k using ok_i(3) [OF that] .
  have inj: "k = l" if "k < 140" "l < 140" "addr m2 d2 k = addr m2 d2 l" "addr m2 d2 k \<noteq> 0" for k l
  proof -
    have fresh: "addr (img s) (F i) k \<noteq> x" if k: "k < 140" "k \<noteq> off div 512" for k
    proof
      assume x: "addr (img s) (F i) k = x"
      then have "unat x < unat (freeblock s)" using D(7) [OF ok(2) addr_in_blocks [OF k(1)]] G(4) by simp
      then have "x = addr (img s) (F i) (off div 512)" using G(7,8) by fastforce
      then show False using ok_i(5) [OF k(1) e(3)] x k(2) G(4) by simp
    qed
    show ?thesis using that A [OF that(1)] A [OF that(2)] fresh [OF that(1)] fresh [OF that(2)] ok_i(5) [OF that(1,2)] by (auto split: if_splits)
  qed
  have ind: "addr m2 d2 k \<noteq> d_addrs d' ! 12" if k: "k < 140" "addr m2 d2 k \<noteq> 0" for k
  proof (cases "k = off div 512")
    case False
    then have a: "addr m2 d2 k = addr (img s) (F i) k" "addr (img s) (F i) k \<noteq> 0" using A [OF k(1)] k(2) by simp_all
    then show ?thesis using G(9) ok_i(6) [OF k(1)] D(7) [OF ok(2) addr_in_blocks [OF k(1)]] by auto
  qed (use A [OF k(1)] G(5) in simp)
  have ks: "addr m2 d2 k \<noteq> 0 \<longleftrightarrow> 512 * k < off + n" if "k < 140" for k
  proof (cases "k = off div 512")
    case True
    then have "512 * k < off + n" using e(1) n(1) by linarith
    then show ?thesis using A [OF that] G(4) True by simp
  next
    case False
    then consider "k < off div 512" | "off div 512 < k" by linarith
    then have "512 * k < off + n \<longleftrightarrow> 512 * k < off" by cases (use e in linarith)+
    then show ?thesis using A [OF that] at [OF that] False by simp
  qed
  have q12: "d_addrs d' ! 12 \<noteq> 0 \<longleftrightarrow> 6144 < off + n" using G(10) e n(1) by linarith
  have tail: "byte_at m2 d2 j = 0" if "off + n \<le> j" "512 * (j div 512) < off + n" for j using B [OF that(2)] that(1) by (simp add: d2_def)
  show "file_ok m2 d2" unfolding file_ok_def u q using G(1) sz ks q12 inj ind tail by simp
  show "contents m2 d2 = contents (img s) (F i) @ take n p"
  proof (rule nth_equalityI)
    show "length (contents m2 d2) = length (contents (img s) (F i) @ take n p)" using u n(3) by (simp add: contents_def off_def)
    fix j assume "j < length (contents m2 d2)"
    then have j: "j < off + n" by (simp add: contents_def u)
    then have "512 * (j div 512) < off + n" by (intro le_less_trans [OF times_div_less_eq_dividend])
    from B [OF this] have "byte_at m2 d2 j = (if off \<le> j then p ! (j - off) else byte_at (img s) (F i) j)" using j by (simp add: d2_def)
    then show "contents m2 d2 ! j = (contents (img s) (F i) @ take n p) ! j" using j u n(3) by (simp add: contents_def nth_append off_def)
  qed
qed

lemma grown_image:
  assumes ok: "image_ok s F I" "i \<in> I" and g: "grown s (F i) x d' m' fb" and n: "0 < n" "n \<le> 512 - unat (d_size (F i)) mod 512" "n \<le> length p"
    and lt: "unat (d_size (F i)) div 512 < 140"
  defines "m2 \<equiv> m'(unat x := put_bytes (unat (d_size (F i)) mod 512) (take n p) (m' (unat x)))"
  defines "d2 \<equiv> d'\<lparr>d_size := of_nat (unat (d_size (F i)) + n)\<rparr>"
  shows "image_ok (s\<lparr>img := m2, freeblock := fb\<rparr>) (F(i := d2)) I" "\<And>j. j \<in> I \<Longrightarrow> j \<noteq> i \<Longrightarrow> contents m2 (F j) = contents (img s) (F j)"
    "\<And>b. b < 59 \<Longrightarrow> m2 b = img s b"
proof -
  note G = grownD [OF g] and D = image_okD [OF ok(1)] and O = grown_own [OF ok g lt] and f = grown_file [OF ok g n lt, folded m2_def d2_def]
  have other: "m2 (unat c) = img s (unat c)" "c \<noteq> x" "d_addrs d' ! 12 \<noteq> 0 \<Longrightarrow> c \<noteq> d_addrs d' ! 12" if "j \<in> I" "j \<noteq> i" "c \<in> blocks (img s) (F j)" for j c
    using grown_other [OF ok that(1,2) g lt that(3)] by (simp_all add: m2_def)
  have fr: "file_ok m2 (F j)" "contents m2 (F j) = contents (img s) (F j)" "blocks m2 (F j) = blocks (img s) (F j)" if "j \<in> I" "j \<noteq> i" for j
    by (rule file_ok_frame(1) [OF D(6) [OF that(1)]] file_ok_frame(2) [OF D(6) [OF that(1)]] file_frame(2), erule other(1) [OF that])+
  show "contents m2 (F j) = contents (img s) (F j)" if "j \<in> I" "j \<noteq> i" for j by (rule fr(2) [OF that])
  have bl: "c = x \<or> c = d_addrs d' ! 12 \<or> c \<in> blocks (img s) (F i)" "c \<noteq> 0" if "c \<in> blocks m2 d2" for c
  proof -
    show "c \<noteq> 0" using that by (simp add: blocks_def)
    have "c \<in> insert (d_addrs d2 ! 12) (addr m2 d2 ` {..<140})" using that unfolding blocks_def by blast
    then consider "c = d_addrs d2 ! 12" | k where "k < 140" "c = addr m2 d2 k" by blast
    then show "c = x \<or> c = d_addrs d' ! 12 \<or> c \<in> blocks (img s) (F i)"
    proof cases
      case 2
      then show ?thesis using grown_addr [OF g 2(1)] addr_in_blocks [OF 2(1)] \<open>c \<noteq> 0\<close> by (auto simp: m2_def d2_def split: if_splits)
    qed (simp add: d2_def)
  qed
  have own: "59 \<le> unat c \<and> unat c < unat fb" if "c \<in> blocks m2 d2" for c
    using bl [OF that] O(2-4) D(7) [OF ok(2), of c] G(2) by auto
  have dis: "c \<notin> blocks (img s) (F j)" if "c \<in> blocks m2 d2" "j \<in> I" "j \<noteq> i" for c j
    using bl [OF that(1)] other(2,3) [OF that(2,3), of c] D(8) [OF ok(2) that(2)] that(3) by auto
  have same: "m2 b = img s b" if "b \<noteq> unat x" "d_addrs d' ! 12 \<noteq> 0 \<Longrightarrow> b \<noteq> unat (d_addrs d' ! 12)" for b
    unfolding m2_def by (rule grown_same [OF g that])
  show low: "m2 b = img s b" if "b < 59" for b by (rule same) (use O(2,4) that in auto)
  have zero: "m2 b = replicate 512 0" if "unat fb \<le> b" for b
  proof -
    have "m2 b = img s b" by (rule same) (use O(3,4) that in auto)
    then show ?thesis using D(5) [of b] that G(2) by simp
  qed
  have len: "length (m2 b) = 512" for b using G(13) n(2,3) by (auto simp: m2_def)
  show "image_ok (s\<lparr>img := m2, freeblock := fb\<rparr>) (F(i := d2)) I"
    unfolding image_ok_def using len zero D(2,3) G(2,3) f(1) fr(1) own
    by (auto simp: fr(3) dest: dis D(7) [THEN conjunct1] D(7) [THEN conjunct2] D(8) intro: less_le_trans)
qed

section \<open>Allocating a block\<close>

lemma sect_small:
  assumes "unat x < 8388608"
  shows "rsect x s = (if unat x < nsect s then Inr (img s (unat x), s) else Inl ''read'')"
    "wsect x buf s = Inr ((), s\<lparr>img := (img s)(unat x := buf), nsect := max (nsect s) (unat x + 1)\<rparr>)"
proof -
  have "unat (x * 512) = unat x * 512" using assms by (simp add: unat_word_ariths)
  then show "rsect x s = (if unat x < nsect s then Inr (img s (unat x), s) else Inl ''read'')"
    "wsect x buf s = Inr ((), s\<lparr>img := (img s)(unat x := buf), nsect := max (nsect s) (unat x + 1)\<rparr>)"
    by (simp_all add: rsect_def wsect_def Let_def)
qed

text \<open>The number of blocks that a file of a size takes, the indirect block included.\<close>

definition cost :: "nat \<Rightarrow> nat" where
  "cost n = (n + 511) div 512 + (if 6144 < n then 1 else 0)"

lemma get32_zero: "k + 4 \<le> n \<Longrightarrow> get32 (replicate n 0) k = 0"
  by (simp add: get32_def)

lemma grown_indirect:
  assumes q: "d_addrs d' ! 12 = q" "q \<noteq> 0" "length (d_addrs d') = 13" "\<And>k. k < 12 \<Longrightarrow> d_addrs d' ! k = d_addrs d ! k"
    and b: "length b = 512" "\<And>k. 12 \<le> k \<Longrightarrow> k < 140 \<Longrightarrow> get32 b (4 * (k - 12)) = addr m d k" "12 \<le> k0" "k0 < 140" "k < 140"
  shows "addr (m(unat q := put_bytes (4 * (k0 - 12)) (le32 x) b)) d' k = (if k = k0 then x else addr m d k)"
proof (cases "k < 12")
  case True
  then show ?thesis using q(4) b(3) by (simp add: addr_def)
next
  case False
  show ?thesis
  proof (cases "k = k0")
    case True
    then show ?thesis using False q(1,2) b(1,4) get32_put_same [of "4 * (k0 - 12)" b x] by (simp add: addr_def)
  next
    case ne: False
    then have "4 * (k - 12) + 4 \<le> 4 * (k0 - 12) \<or> 4 * (k0 - 12) + 4 \<le> 4 * (k - 12)" using False b(3) by linarith
    then have "get32 (put_bytes (4 * (k0 - 12)) (le32 x) b) (4 * (k - 12)) = get32 b (4 * (k - 12))"
      using b(1,4,5) by (intro get32_put_other) simp_all
    then show ?thesis using False ne q(1,2) b(2,5) by (simp add: addr_def)
  qed
qed

lemma append_old:
  assumes ok: "file_ok (img s) d" "unat (freeblock s) \<le> 1000" "nsect s = 1000" "\<And>k. length (img s k) = 512"
    and bl: "\<And>c. c \<in> blocks (img s) d \<Longrightarrow> unat c < unat (freeblock s)"
    and off: "unat (d_size d) mod 512 \<noteq> 0" "unat (d_size d) div 512 < 140"
  shows "\<exists>x. append_block d (d_size d div 512) s = Inr ((x, d), s) \<and> grown s d x d (img s) (freeblock s)"
proof -
  define k0 where "k0 = unat (d_size d) div 512"
  note F = file_okD [OF ok(1)]
  have e: "unat (d_size d) = 512 * k0 + unat (d_size d) mod 512" by (simp add: k0_def)
  have k0: "k0 < 140" "unat (d_size d div 512) = k0" using off(2) by (simp_all add: k0_def unat_div)
  have "512 * k0 < unat (d_size d)" using e off(1) by linarith
  then have a0: "addr (img s) d k0 \<noteq> 0" using F(3) [OF k0(1)] by simp
  have q: "d_addrs d ! 12 \<noteq> 0 \<longleftrightarrow> 12 \<le> k0" using F(4) e off(1) by linarith
  have w: "d_size d div 512 < 12 \<longleftrightarrow> k0 < 12" using k0(2) by (simp add: word_less_nat_alt)
  have g: "grown s d (addr (img s) d k0) d (img s) (freeblock s)"
    unfolding grown_def Let_def k0_def [symmetric] using F(1) ok(2,4) a0 F(6) [OF k0(1) a0] q by simp
  have "append_block d (d_size d div 512) s = Inr ((addr (img s) d k0, d), s)"
  proof (cases "k0 < 12")
    case True
    then show ?thesis using a0 w k0(2) by (simp add: append_block_def bindM_def retM_def addr_def)
  next
    case False
    then have i: "d_addrs d ! 12 \<noteq> 0" "d_addrs d ! 12 \<in> blocks (img s) d" using q by (simp_all add: blocks_def)
    have "unat (d_addrs d ! 12) < 1000" using bl [OF i(2)] ok(2) by simp
    moreover have "unat (d_size d div 512 - 12) = k0 - 12" using False k0(2) by (simp add: unat_sub word_le_nat_alt)
    ultimately show ?thesis using a0 w i(1) False ok(3) by (simp add: append_block_def bindM_def retM_def addr_def sect_small Let_def)
  qed
  then show ?thesis using g by blast
qed

text \<open>The three ways of adding a block: a direct one, one in the indirect block, and the indirect block with its first entry.\<close>

definition direct_result :: "mkfs \<Rightarrow> dinode \<Rightarrow> u32 \<times> dinode \<times> (nat \<Rightarrow> byte list) \<times> u32" where
  "direct_result s d = (freeblock s, d\<lparr>d_addrs := (d_addrs d)[unat (d_size d) div 512 := freeblock s]\<rparr>, img s, freeblock s + 1)"

definition indirect_result :: "u32 \<Rightarrow> u32 \<Rightarrow> mkfs \<Rightarrow> dinode \<Rightarrow> u32 \<times> dinode \<times> (nat \<Rightarrow> byte list) \<times> u32" where
  "indirect_result q x s d = (x, d\<lparr>d_addrs := (d_addrs d)[12 := q]\<rparr>,
     (img s)(unat q := put_bytes (4 * (unat (d_size d) div 512 - 12)) (le32 x) (img s (unat q))), x + 1)"

definition block_result :: "mkfs \<Rightarrow> dinode \<Rightarrow> u32 \<times> dinode \<times> (nat \<Rightarrow> byte list) \<times> u32" where
  "block_result s d =
     (if unat (d_size d) < 6144 then direct_result s d
      else if unat (d_size d) = 6144 then indirect_result (freeblock s) (freeblock s + 1) s d
      else indirect_result (d_addrs d ! 12) (freeblock s) s d)"

lemma image_file:
  assumes "image_ok s F I" "i \<in> I"
  shows "file_ok (img s) (F i)" "\<And>c. c \<in> blocks (img s) (F i) \<Longrightarrow> unat c < unat (freeblock s)" "\<And>c. c \<in> blocks (img s) (F i) \<Longrightarrow> 59 \<le> unat c"
  using image_okD [OF assms(1)] assms(2) by blast+

text \<open>A new block in \<open>grown\<close>.\<close>

lemma grown_newI:
  assumes "length (d_addrs d') = 13" "unat (freeblock s) \<le> unat x" "unat x < unat fb" "unat fb \<le> 1000" "x \<noteq> 0" "x \<noteq> d_addrs d' ! 12"
    and "\<And>k. k < 140 \<Longrightarrow> addr m' d' k = (if k = unat (d_size d) div 512 then x else addr (img s) d k)" "addr (img s) d (unat (d_size d) div 512) = 0"
    and "d_addrs d' ! 12 = d_addrs d ! 12 \<or> unat (freeblock s) \<le> unat (d_addrs d' ! 12) \<and> unat (d_addrs d' ! 12) < unat fb"
    and "d_addrs d' ! 12 \<noteq> 0 \<longleftrightarrow> 12 \<le> unat (d_size d) div 512" "\<And>b. b \<noteq> unat (d_addrs d' ! 12) \<Longrightarrow> m' b = img s b" "d_addrs d' ! 12 = 0 \<Longrightarrow> m' = img s"
    and "\<And>b. length (m' b) = 512"
  shows "grown s d x d' m' fb"
  unfolding grown_def Let_def using assms by (intro conjI) simp_all

lemma append_new_grown:
  assumes ok: "image_ok s F I" "i \<in> I" and off: "unat (d_size (F i)) mod 512 = 0" "unat (d_size (F i)) div 512 < 140"
    and fb: "unat (freeblock s) + (cost (unat (d_size (F i)) + 1) - cost (unat (d_size (F i)))) \<le> 1000"
    and r: "block_result s (F i) = (x, d', m', fb')"
  shows "grown s (F i) x d' m' fb'" "unat fb' = unat (freeblock s) + (cost (unat (d_size (F i)) + 1) - cost (unat (d_size (F i))))"
proof -
  define k0 where "k0 = unat (d_size (F i)) div 512"
  note D = image_okD [OF ok(1)] and I = image_file [OF ok] and f = file_okD [OF image_file(1) [OF ok]]
  have e: "unat (d_size (F i)) = 512 * k0" "k0 < 140" using off by (auto simp: k0_def)
  have c: "cost (512 * k0 + 1) - cost (512 * k0) = (if k0 = 12 then 2 else 1)" by (auto simp: cost_def)
  have b: "unat (freeblock s) + (if k0 = 12 then 2 else 1) \<le> 1000" using fb unfolding e(1) c .
  have u: "unat (freeblock s + 1) = unat (freeblock s) + 1" "k0 = 12 \<Longrightarrow> unat (freeblock s + 1 + 1) = unat (freeblock s) + 2" using b by (simp_all add: unat_word_ariths)
  have nz: "freeblock s \<noteq> 0" "freeblock s + 1 \<noteq> 0" using D(3) u(1) by auto
  have a0: "addr (img s) (F i) k0 = 0" using f(3) [OF e(2)] e(1) by simp
  have q: "d_addrs (F i) ! 12 \<noteq> 0 \<longleftrightarrow> 12 < k0" using f(4) e(1) by simp
  consider "k0 < 12" | "k0 = 12" | "12 < k0" by linarith
  then have "grown s (F i) x d' m' fb' \<and> unat fb' = unat (freeblock s) + (if k0 = 12 then 2 else 1)"
  proof cases
    case 1
    have "addr (img s) (F i\<lparr>d_addrs := (d_addrs (F i))[k0 := freeblock s]\<rparr>) k = (if k = k0 then freeblock s else addr (img s) (F i) k)" for k
      using 1 f(1) by (simp add: addr_def)
    note A = this
    have R: "x = freeblock s" "d' = F i\<lparr>d_addrs := (d_addrs (F i))[k0 := freeblock s]\<rparr>" "m' = img s" "fb' = freeblock s + 1"
      using r 1 e(1) by (auto simp: block_result_def direct_result_def)
    have "grown s (F i) x d' m' fb'" by (rule grown_newI; unfold R k0_def [symmetric]) (use A 1 q D(1) f(1) u(1) b nz a0 in simp_all)
    then show ?thesis using R(4) u(1) 1 by simp
  next
    case 2
    let ?q = "freeblock s" and ?x = "freeblock s + 1"
    have z: "img s (unat ?q) = replicate 512 0" by (rule D(5)) simp
    have "get32 (img s (unat ?q)) (4 * (k - 12)) = addr (img s) (F i) k" if "12 \<le> k" "k < 140" for k
      using that f(3) [of k] e(1) 2 unfolding z by (simp add: get32_zero)
    then have "addr ((img s)(unat ?q := put_bytes (4 * (k0 - 12)) (le32 ?x) (img s (unat ?q)))) (F i\<lparr>d_addrs := (d_addrs (F i))[12 := ?q]\<rparr>) k =
        (if k = k0 then ?x else addr (img s) (F i) k)" if "k < 140" for k
      using that f(1) nz 2 by (intro grown_indirect) (simp_all add: D(1))
    note A = this
    have R: "x = ?x" "d' = F i\<lparr>d_addrs := (d_addrs (F i))[12 := ?q]\<rparr>"
      "m' = (img s)(unat ?q := put_bytes (4 * (k0 - 12)) (le32 ?x) (img s (unat ?q)))" "fb' = ?x + 1"
      using r 2 e(1) by (auto simp: block_result_def indirect_result_def)
    have "grown s (F i) x d' m' fb'" by (rule grown_newI; unfold R k0_def [symmetric]) (use A 2 D(1) f(1) u b nz a0 in simp_all)
    then show ?thesis using R(4) u(2) 2 by simp
  next
    case 3
    let ?q = "d_addrs (F i) ! 12" and ?x = "freeblock s"
    have q0: "?q \<noteq> 0" "unat ?q < unat ?x" using q 3 I(2) [of ?q] by (auto simp: blocks_def)
    have "addr ((img s)(unat ?q := put_bytes (4 * (k0 - 12)) (le32 ?x) (img s (unat ?q)))) (F i\<lparr>d_addrs := (d_addrs (F i))[12 := ?q]\<rparr>) k =
        (if k = k0 then ?x else addr (img s) (F i) k)" if "k < 140" for k
      using that f(1) 3 q0 e(2) by (intro grown_indirect) (simp_all add: D(1) addr_def)
    note A = this
    have R: "x = ?x" "d' = F i\<lparr>d_addrs := (d_addrs (F i))[12 := ?q]\<rparr>"
      "m' = (img s)(unat ?q := put_bytes (4 * (k0 - 12)) (le32 ?x) (img s (unat ?q)))" "fb' = ?x + 1"
      using r 3 e(1) by (auto simp: block_result_def indirect_result_def)
    have ne: "?x \<noteq> ?q" using q0(2) by auto
    have "grown s (F i) x d' m' fb'" by (rule grown_newI; unfold R k0_def [symmetric]) (use A 3 D(1) f(1) u(1) b nz a0 q0 ne e(2) in simp_all)
    then show ?thesis using R(4) u(1) 3 by simp
  qed
  then show "grown s (F i) x d' m' fb'" "unat fb' = unat (freeblock s) + (cost (unat (d_size (F i)) + 1) - cost (unat (d_size (F i))))"
    unfolding e(1) c by blast+
qed

lemma append_new_run:
  assumes ok: "image_ok s F I" "i \<in> I" and off: "unat (d_size (F i)) mod 512 = 0" "unat (d_size (F i)) div 512 < 140"
    and r: "block_result s (F i) = (x, d', m', fb')" and fb: "unat (d_size (F i)) = 6144 \<Longrightarrow> unat (freeblock s) < 1000"
  shows "append_block (F i) (d_size (F i) div 512) s = Inr ((x, d'), s\<lparr>img := m', freeblock := fb'\<rparr>)"
proof -
  define k0 where "k0 = unat (d_size (F i)) div 512"
  note D = image_okD [OF ok(1)] and I = image_file [OF ok] and f = file_okD [OF image_file(1) [OF ok]]
  have e: "unat (d_size (F i)) = 512 * k0" "k0 < 140" "unat (d_size (F i) div 512) = k0" using off by (auto simp: k0_def unat_div)
  have w: "d_size (F i) div 512 < 12 \<longleftrightarrow> k0 < 12" using e(3) by (simp add: word_less_nat_alt)
  have a0: "addr (img s) (F i) k0 = 0" using f(3) [OF e(2)] e(1) by simp
  have q: "d_addrs (F i) ! 12 \<noteq> 0 \<longleftrightarrow> 12 < k0" using f(4) e(1) by simp
  have j: "12 \<le> k0 \<Longrightarrow> unat (d_size (F i) div 512 - 12) = k0 - 12" using e(3) by (simp add: unat_sub word_le_nat_alt)
  have upd: "s\<lparr>freeblock := y, img := m, nsect := nsect s\<rparr> = s\<lparr>img := m, freeblock := y\<rparr>" for y m by simp
  consider "k0 < 12" | "k0 = 12" | "12 < k0" by linarith
  then show ?thesis
  proof cases
    case 1
    then show ?thesis using r e(1,3) w a0 f(1)
      by (auto simp: block_result_def direct_result_def append_block_def bindM_def retM_def new_block_def addr_def)
  next
    case 2
    then have l: "unat (freeblock s) < 1000" using fb e(1) by simp
    have z: "img s (unat (freeblock s)) = replicate 512 0" by (rule D(5)) simp
    have "max (nsect s) (unat (freeblock s) + 1) = nsect s" using D(2) l by simp
    then show ?thesis using r 2 e(1) w q j l f(1) D(1,2) z
      by (auto simp: block_result_def indirect_result_def append_block_def bindM_def retM_def new_block_def sect_small Let_def get32_zero get32_put_same upd)
  next
    case 3
    let ?q = "d_addrs (F i) ! 12"
    have q0: "?q \<noteq> 0" "unat ?q < 1000" using q 3 I(2) [of ?q] D(4) by (auto simp: blocks_def)
    have "max (nsect s) (unat ?q + 1) = nsect s" using D(2) q0(2) by simp
    then show ?thesis using r 3 e w j q0 f(1) a0 D(1,2)
      by (auto simp: block_result_def indirect_result_def append_block_def bindM_def retM_def new_block_def sect_small Let_def addr_def get32_put_same upd)
  qed
qed

lemma cost_round:
  assumes "0 < n" "n \<le> 512 - off mod 512"
  shows "cost (off + n) = cost (off + 1)"
proof -
  have e: "off = 512 * (off div 512) + off mod 512" "off mod 512 < 512" by simp_all
  have "(off + n + 511) div 512 = off div 512 + 1" "(off + 1 + 511) div 512 = off div 512 + 1" using e assms by linarith+
  moreover have "6144 < off + n \<longleftrightarrow> 6144 < off + 1" by (cases "12 \<le> off div 512") (use e assms in linarith)+
  ultimately show ?thesis by (simp add: cost_def)
qed

lemma cost_mono: "a \<le> b \<Longrightarrow> cost a \<le> cost b"
  by (auto simp: cost_def intro!: add_mono div_le_mono)

lemma cost_old: "off mod 512 \<noteq> 0 \<Longrightarrow> cost (off + 1) = cost off"
proof -
  assume a: "off mod 512 \<noteq> 0"
  have "off = 512 * (off div 512) + off mod 512" "off mod 512 < 512" by simp_all
  then have "(off + 511) div 512 = off div 512 + 1" "(off + 1 + 511) div 512 = off div 512 + 1" using a by linarith+
  moreover have "off \<noteq> 6144" using a by auto
  then have "6144 < off \<longleftrightarrow> 6144 < off + 1" by linarith
  ultimately show ?thesis by (simp add: cost_def)
qed

lemma append_block_run:
  assumes ok: "image_ok s F I" "i \<in> I" and lt: "unat (d_size (F i)) div 512 < 140"
    and fb: "unat (freeblock s) + (cost (unat (d_size (F i)) + 1) - cost (unat (d_size (F i)))) \<le> 1000"
  obtains x d' m' fb' where "append_block (F i) (d_size (F i) div 512) s = Inr ((x, d'), s\<lparr>img := m', freeblock := fb'\<rparr>)" "grown s (F i) x d' m' fb'"
    "unat fb' = unat (freeblock s) + (cost (unat (d_size (F i)) + 1) - cost (unat (d_size (F i))))" "d' = (F i)\<lparr>d_addrs := d_addrs d'\<rparr>"
proof (cases "unat (d_size (F i)) mod 512 = 0")
  case True
  obtain x d' m' fb' where r: "block_result s (F i) = (x, d', m', fb')" by (metis prod_cases4)
  have "unat (freeblock s) < 1000" if "unat (d_size (F i)) = 6144" using fb that by (simp add: cost_def)
  moreover have "d' = (F i)\<lparr>d_addrs := d_addrs d'\<rparr>" using r by (auto simp: block_result_def direct_result_def indirect_result_def split: if_splits)
  ultimately show ?thesis using that append_new_run [OF ok True lt r] append_new_grown [OF ok True lt fb r] by blast
next
  case False
  note D = image_okD [OF ok(1)]
  obtain x where "append_block (F i) (d_size (F i) div 512) s = Inr ((x, F i), s)" "grown s (F i) x (F i) (img s) (freeblock s)"
    using append_old [OF image_file(1) [OF ok] D(4,2,1) image_file(2) [OF ok] False lt] by blast
  then show ?thesis using that [where x = x and d' = "F i" and m' = "img s" and fb' = "freeblock s"] cost_old [OF False] by simp
qed

section \<open>Appending\<close>

lemma append_block_size:
  "append_block (d\<lparr>d_size := z\<rparr>) fbn s = (case append_block d fbn s of Inl e \<Rightarrow> Inl e | Inr ((x, d'), s') \<Rightarrow> Inr ((x, d'\<lparr>d_size := z\<rparr>), s'))"
proof -
  have u: "d\<lparr>d_size := z, d_addrs := a\<rparr> = d\<lparr>d_addrs := a, d_size := z\<rparr>" for a by simp
  show ?thesis by (auto simp: append_block_def bindM_def retM_def new_block_def Let_def u wsect_def split: sum.splits)
qed

lemma iappend_loop_size:
  "iappend_loop (d\<lparr>d_size := z\<rparr>) off p s = (case iappend_loop d off p s of Inl e \<Rightarrow> Inl e | Inr ((d', y), s') \<Rightarrow> Inr ((d'\<lparr>d_size := z\<rparr>, y), s'))"
proof (induction d off p s rule: iappend_loop.induct)
  case (1 d off p s)
  show ?case
  proof (cases "p = [] \<or> \<not> off div 512 < 140")
    case True
    then show ?thesis by (auto simp: iappend_loop.simps [of _ off p s])
  next
    case False
    show ?thesis
    proof (cases "append_block d (off div 512) s")
      case (Inl e)
      then show ?thesis using False by (simp add: iappend_loop.simps [of _ off p s] append_block_size)
    next
      case (Inr r)
      obtain x d1 s1 where r: "r = ((x, d1), s1)" by (metis surj_pair)
      show ?thesis
      proof (cases "rsect x s1")
        case Inl': (Inl e)
        then show ?thesis using False Inr r by (simp add: iappend_loop.simps [of _ off p s] append_block_size)
      next
        case Inr': (Inr q)
        obtain buf s2 where q: "q = (buf, s2)" by fastforce
        let ?n = "min (length p) (unat ((off div 512 + 1) * 512 - off))"
        obtain s3 where w: "wsect x (put_bytes (unat (off - off div 512 * 512)) (take ?n p) buf) s2 = Inr ((), s3)" by (simp add: wsect_def Let_def)
        have "iappend_loop d off p s = iappend_loop d1 (off + of_nat ?n) (drop ?n p) s3"
          by (subst iappend_loop.simps) (use False Inr r Inr' q w in \<open>simp add: Let_def\<close>)
        moreover have "iappend_loop (d\<lparr>d_size := z\<rparr>) off p s = iappend_loop (d1\<lparr>d_size := z\<rparr>) (off + of_nat ?n) (drop ?n p) s3"
          by (subst iappend_loop.simps) (use False Inr r Inr' q w in \<open>simp add: Let_def append_block_size\<close>)
        moreover have "iappend_loop (d1\<lparr>d_size := z\<rparr>) (off + of_nat ?n) (drop ?n p) s3 = (case iappend_loop d1 (off + of_nat ?n) (drop ?n p) s3 of
            Inl e \<Rightarrow> Inl e | Inr ((d', y), s') \<Rightarrow> Inr ((d'\<lparr>d_size := z\<rparr>, y), s'))"
          by (rule 1) (use False Inr r Inr' q w in simp_all)
        ultimately show ?thesis by simp
      qed
    qed
  qed
qed

text \<open>The state after \<open>p\<close> has been appended to the file \<open>i\<close>, whose inode is then \<open>d'\<close>.\<close>

definition appended :: "mkfs \<Rightarrow> (nat \<Rightarrow> dinode) \<Rightarrow> nat set \<Rightarrow> nat \<Rightarrow> byte list \<Rightarrow> mkfs \<Rightarrow> dinode \<Rightarrow> bool" where
  "appended s F I i p s' d' \<longleftrightarrow> image_ok s' (F(i := d')) I \<and> contents (img s') d' = contents (img s) (F i) @ p \<and>
     (\<forall>j \<in> I. j \<noteq> i \<longrightarrow> contents (img s') (F j) = contents (img s) (F j)) \<and> (\<forall>b < 59. img s' b = img s b) \<and> freeinode s' = freeinode s \<and>
     unat (freeblock s') + cost (unat (d_size (F i))) = unat (freeblock s) + cost (unat (d_size d')) \<and>
     unat (d_size d') = unat (d_size (F i)) + length p \<and> d'\<lparr>d_addrs := [], d_size := 0\<rparr> = (F i)\<lparr>d_addrs := [], d_size := 0\<rparr>"

lemma appended_trans:
  assumes "appended s F I i p s1 d1" "appended s1 (F(i := d1)) I i q s2 d2"
  shows "appended s F I i (p @ q) s2 d2"
  using assms unfolding appended_def by simp (elim conjE, simp)

lemma iappend_round:
  assumes ok: "image_ok s F I" "i \<in> I" and p: "p \<noteq> []" and lt: "unat (d_size (F i)) div 512 < 140"
    and fb: "unat (freeblock s) + (cost (unat (d_size (F i)) + 1) - cost (unat (d_size (F i)))) \<le> 1000"
  obtains n d1 s1 where "0 < n" "n \<le> length p" "n \<le> 512 - unat (d_size (F i)) mod 512" "appended s F I i (take n p) s1 d1"
    "iappend_loop (F i) (d_size (F i)) p s = iappend_loop (d1\<lparr>d_size := d_size (F i)\<rparr>) (d_size d1) (drop n p) s1"
proof -
  define off where "off = unat (d_size (F i))"
  define n where "n = min (length p) (512 - off mod 512)"
  have n: "0 < n" "n \<le> 512 - unat (d_size (F i)) mod 512" "n \<le> length p" using p by (simp_all add: n_def off_def)
  obtain x d' m' fb' where a: "append_block (F i) (d_size (F i) div 512) s = Inr ((x, d'), s\<lparr>img := m', freeblock := fb'\<rparr>)" "grown s (F i) x d' m' fb'"
    "unat fb' = unat (freeblock s) + (cost (off + 1) - cost off)" "d' = (F i)\<lparr>d_addrs := d_addrs d'\<rparr>"
    unfolding off_def by (rule append_block_run [OF ok lt fb])
  define m2 where "m2 = m'(unat x := put_bytes (unat (d_size (F i)) mod 512) (take n p) (m' (unat x)))"
  define d1 where "d1 = d'\<lparr>d_size := of_nat (unat (d_size (F i)) + n)\<rparr>"
  define s1 where "s1 = s\<lparr>img := m2, freeblock := fb'\<rparr>"
  note f = grown_file [OF ok a(2) n lt, folded m2_def d1_def] and im = grown_image [OF ok a(2) n lt, folded m2_def d1_def]
  note D = image_okD [OF ok(1)] and O = grown_own [OF ok a(2) lt]
  have "cost off \<le> cost (off + 1)" by (rule cost_mono) simp
  then have c: "unat fb' + cost off = unat (freeblock s) + cost (off + n)" using a(3) cost_round [of n off] n by (simp add: off_def)
  have rest: "d1\<lparr>d_addrs := [], d_size := 0\<rparr> = (F i)\<lparr>d_addrs := [], d_size := 0\<rparr>" unfolding d1_def by (subst a(4)) simp
  have ap: "appended s F I i (take n p) s1 d1"
    unfolding appended_def using f im c rest n(3) by (simp add: s1_def off_def)
  have w: "unat x < 1000" using O(3) grownD(3) [OF a(2)] by simp
  have fbn: "d_size (F i) div 512 < 140" using lt by (simp add: word_less_nat_alt unat_div)
  have n1: "min (length p) (unat ((d_size (F i) div 512 + 1) * 512 - d_size (F i))) = n" using append_progress(2) [OF fbn] by (simp add: n_def off_def)
  have "(d_size (F i) div 512 + 1) * 512 = d_size (F i) div 512 * 512 + 512" by (simp add: distrib_right)
  then have n2: "min (length p) (unat (d_size (F i) div 512 * 512 + 512 - d_size (F i))) = n" using n1 by (simp only:)
  have o: "unat (d_size (F i) - d_size (F i) div 512 * 512) = unat (d_size (F i)) mod 512" by (simp add: minus_div_mult_eq_mod unat_mod)
  have sz: "d_size (F i) + of_nat n = d_size d1" by (simp add: d1_def)
  have old: "d1\<lparr>d_size := d_size (F i)\<rparr> = d'" unfolding d1_def by (subst (2) a(4), subst a(4)) simp
  have st: "s\<lparr>img := m', freeblock := fb', img := m2, nsect := max (nsect s) (unat x + 1)\<rparr> = s1" using D(2) w by (simp add: s1_def)
  have "rsect x (s\<lparr>img := m', freeblock := fb'\<rparr>) = Inr (m' (unat x), s\<lparr>img := m', freeblock := fb'\<rparr>)" using w D(2) by (simp add: sect_small)
  moreover have "wsect x (put_bytes (unat (d_size (F i)) mod 512) (take n p) (m' (unat x))) (s\<lparr>img := m', freeblock := fb'\<rparr>) = Inr ((), s1)"
    using w st by (simp add: sect_small m2_def)
  ultimately have "iappend_loop (F i) (d_size (F i)) p s = iappend_loop d' (d_size d1) (drop n p) s1"
    using p fbn a(1) by (subst iappend_loop.simps) (simp add: Let_def n2 o sz del: of_nat_add)
  then show ?thesis using that [OF n(1,3,2) ap] old by simp
qed

lemma iappend_loop_run:
  assumes "image_ok s F I" "i \<in> I" "unat (d_size (F i)) + length p \<le> 71680"
    "unat (freeblock s) + cost (unat (d_size (F i)) + length p) \<le> 1000 + cost (unat (d_size (F i)))"
  shows "\<exists>d' s'. appended s F I i p s' d' \<and> iappend_loop (F i) (d_size (F i)) p s = Inr ((d'\<lparr>d_size := d_size (F i)\<rparr>, d_size d'), s')"
  using assms
proof (induction "length p" arbitrary: p s F rule: less_induct)
  case less
  let ?off = "unat (d_size (F i))"
  show ?case
  proof (cases "p = []")
    case True
    have "appended s F I i [] s (F i)" using less.prems(1) by (simp add: appended_def)
    then show ?thesis using True by (intro exI [of _ "F i"] exI [of _ s]) (simp add: iappend_loop.simps)
  next
    case False
    then have l: "0 < length p" by simp
    have "?off < 71680" using less.prems(3) l by linarith
    then have lt: "?off div 512 < 140" by (simp add: div_less_iff_less_mult)
    have "cost (?off + 1) \<le> cost (?off + length p)" using l by (intro cost_mono) linarith
    then have fb: "unat (freeblock s) + (cost (?off + 1) - cost ?off) \<le> 1000" using less.prems(4) image_okD(4) [OF less.prems(1)] by linarith
    obtain n d1 s1 where r: "0 < n" "n \<le> length p" "n \<le> 512 - ?off mod 512" "appended s F I i (take n p) s1 d1"
      "iappend_loop (F i) (d_size (F i)) p s = iappend_loop (d1\<lparr>d_size := d_size (F i)\<rparr>) (d_size d1) (drop n p) s1"
      by (rule iappend_round [OF less.prems(1,2) False lt fb])
    have a: "image_ok s1 (F(i := d1)) I" "unat (d_size d1) = ?off + n" "unat (freeblock s1) + cost ?off = unat (freeblock s) + cost (unat (d_size d1))"
      using r(2,4) by (simp_all add: appended_def)
    have "\<exists>d' s'. appended s1 (F(i := d1)) I i (drop n p) s' d' \<and>
        iappend_loop ((F(i := d1)) i) (d_size ((F(i := d1)) i)) (drop n p) s1 = Inr ((d'\<lparr>d_size := d_size ((F(i := d1)) i)\<rparr>, d_size d'), s')"
      by (rule less.hyps) (use r(1,2) l a less.prems in simp_all)
    then obtain d' s' where d': "appended s1 (F(i := d1)) I i (drop n p) s' d'"
      "iappend_loop d1 (d_size d1) (drop n p) s1 = Inr ((d'\<lparr>d_size := d_size d1\<rparr>, d_size d'), s')" by auto
    have "appended s F I i p s' d'" using appended_trans [OF r(4) d'(1)] by simp
    moreover have "iappend_loop (F i) (d_size (F i)) p s = Inr ((d'\<lparr>d_size := d_size (F i)\<rparr>, d_size d'), s')"
      unfolding r(5) iappend_loop_size d'(2) by simp
    ultimately show ?thesis by blast
  qed
qed

end
