(* ===== verification/Mkfs_Props.thy ===== *)
theory Mkfs_Props
  imports Mkfs_Image
begin

text \<open>
  What \<^verbatim>\<open>mkfs\<close> leaves on the disk: inodes written and read back, \<open>iappend\<close> and \<open>mk_ialloc\<close> on the whole
  image, and the property that the finished image holds exactly the given files.
\<close>

section \<open>Inodes on the image\<close>

definition inode_at :: "mkfs \<Rightarrow> nat \<Rightarrow> dinode" where
  "inode_at s i = dinode_of (slice (64 * (i mod 8)) 64 (img s (32 + i div 8)))"

definition file_at :: "mkfs \<Rightarrow> nat \<Rightarrow> byte list" where
  "file_at s i = contents (img s) (inode_at s i)"

definition inodes :: "mkfs \<Rightarrow> nat set" where
  "inodes s = {1..<unat (freeinode s)}"

definition mk_ok :: "mkfs \<Rightarrow> bool" where
  "mk_ok s \<longleftrightarrow> image_ok s (inode_at s) (inodes s) \<and> unat (freeinode s) \<le> 200"

lemma length_dinode_bytes: "length (d_addrs d) = 13 \<Longrightarrow> length (dinode_bytes d) = 64"
proof -
  have "length (concat (map le32 xs)) = 4 * length xs" for xs by (induction xs) simp_all
  then show "length (d_addrs d) = 13 \<Longrightarrow> length (dinode_bytes d) = 64" by (simp add: dinode_bytes_def)
qed

lemma get_append:
  "length xs = k \<Longrightarrow> get32 (xs @ le32 v @ ys) k = v" "length xs = k \<Longrightarrow> get16 (xs @ le16 w @ ys) k = w"
  using get32_le32 [of v] get16_le16 [of w] by (auto simp: get32_def get16_def nth_append le32_def le16_def)

lemma get32_concat:
  "i < length vs \<Longrightarrow> length xs = k \<Longrightarrow> get32 (xs @ concat (map le32 vs)) (k + 4 * i) = vs ! i"
proof (induction vs arbitrary: i xs k)
  case (Cons v vs)
  show ?case
  proof (cases i)
    case 0
    then show ?thesis using get_append(1) [OF Cons.prems(2)] by simp
  next
    case (Suc j)
    then show ?thesis using Cons.IH [of j "xs @ le32 v" "k + 4"] Cons.prems by (simp add: add.assoc)
  qed
qed simp

lemma dinode_roundtrip:
  assumes "length (d_addrs d) = 13"
  shows "dinode_of (dinode_bytes d) = d"
proof -
  let ?r = "concat (map le32 (d_addrs d))"
  have "get32 (dinode_bytes d) (12 + 4 * i) = d_addrs d ! i" if "i < 13" for i
    using get32_concat [of i "d_addrs d" "le16 (d_type d) @ le16 (d_major d) @ le16 (d_minor d) @ le16 (d_nlink d) @ le32 (d_size d)" 12] that assms
    by (simp add: dinode_bytes_def)
  then have "map (\<lambda>i. get32 (dinode_bytes d) (12 + 4 * i)) [0..<13] = d_addrs d" using assms by (intro nth_equalityI) simp_all
  moreover have "get16 (dinode_bytes d) 0 = d_type d" "get16 (dinode_bytes d) 2 = d_major d" "get16 (dinode_bytes d) 4 = d_minor d" "get16 (dinode_bytes d) 6 = d_nlink d"
      "get32 (dinode_bytes d) 8 = d_size d"
    using get_append(2) [of "[]" 0] get_append(2) [of "le16 (d_type d)" 2] get_append(2) [of "le16 (d_type d) @ le16 (d_major d)" 4]
      get_append(2) [of "le16 (d_type d) @ le16 (d_major d) @ le16 (d_minor d)" 6] get_append(1) [of "le16 (d_type d) @ le16 (d_major d) @ le16 (d_minor d) @ le16 (d_nlink d)" 8]
    by (simp_all add: dinode_bytes_def)
  ultimately show ?thesis by (simp add: dinode_of_def)
qed

lemma IBLOCK_run:
  assumes "i < 200"
  shows "unat (IBLOCK (of_nat i) mk_sb) = 32 + i div 8" "unat (of_nat i mod 8 :: u32) = i mod 8"
proof -
  have u: "unat (of_nat i :: u32) = i" by (rule unat_of_nat_u32) (use assms in simp)
  have "unat (of_nat i div 8 :: u32) = i div 8" using u by (simp add: unat_div)
  then show "unat (IBLOCK (of_nat i) mk_sb) = 32 + i div 8" using assms by (simp add: IBLOCK_def mk_sb_def nlog_def unat_word_ariths)
  show "unat (of_nat i mod 8 :: u32) = i mod 8" using u by (simp add: unat_mod)
qed

lemma inode_io:
  assumes "i < 200" "nsect s = 1000"
  shows "rinode (of_nat i) s = Inr (inode_at s i, s)"
    "winode (of_nat i) d s = Inr ((), s\<lparr>img := (img s)(32 + i div 8 := put_bytes (64 * (i mod 8)) (dinode_bytes d) (img s (32 + i div 8)))\<rparr>)"
proof -
  have b: "i div 8 < 25" using assms(1) by (simp add: div_less_iff_less_mult)
  have "max (nsect s) (32 + i div 8 + 1) = nsect s" using b assms(2) by simp
  then show "rinode (of_nat i) s = Inr (inode_at s i, s)"
    "winode (of_nat i) d s = Inr ((), s\<lparr>img := (img s)(32 + i div 8 := put_bytes (64 * (i mod 8)) (dinode_bytes d) (img s (32 + i div 8)))\<rparr>)"
    using b assms(2) IBLOCK_run [OF assms(1)]
    by (simp_all add: rinode_def winode_def bindM_def retM_def sect_small inode_at_def Let_def)
qed

text \<open>Writing an inode: it can be read back, and the others stay.\<close>

definition put_inode :: "nat \<Rightarrow> dinode \<Rightarrow> mkfs \<Rightarrow> mkfs" where
  "put_inode i d s = s\<lparr>img := (img s)(32 + i div 8 := put_bytes (64 * (i mod 8)) (dinode_bytes d) (img s (32 + i div 8)))\<rparr>"

lemma inode_at_put:
  assumes len: "length (img s (32 + i div 8)) = 512" and d: "length (d_addrs d) = 13"
  shows "inode_at (put_inode i d s) j = (if j = i then d else inode_at s j)"
proof -
  have l: "length (dinode_bytes d) = 64" by (rule length_dinode_bytes [OF d])
  have m: "i mod 8 < 8" "j mod 8 < 8" by simp_all
  then have fit: "64 * (i mod 8) + length (dinode_bytes d) \<le> length (img s (32 + i div 8))" using len l by linarith
  show ?thesis
  proof (cases "j = i")
    case True
    then show ?thesis using slice_put_bytes_same [OF fit] l dinode_roundtrip [OF d] by (simp add: inode_at_def put_inode_def)
  next
    case False
    show ?thesis
    proof (cases "j div 8 = i div 8")
      case True
      then have "j mod 8 \<noteq> i mod 8" using False by (metis div_mult_mod_eq)
      then have "64 * (j mod 8) + 64 \<le> 64 * (i mod 8) \<or> 64 * (i mod 8) + length (dinode_bytes d) \<le> 64 * (j mod 8)" using l by linarith
      moreover have "64 * (j mod 8) + 64 \<le> length (img s (32 + i div 8))" using len m by linarith
      ultimately have "slice (64 * (j mod 8)) 64 (put_bytes (64 * (i mod 8)) (dinode_bytes d) (img s (32 + i div 8))) = slice (64 * (j mod 8)) 64 (img s (32 + i div 8))"
        by (intro slice_put_bytes_other [OF fit])
      then show ?thesis using True False by (simp add: inode_at_def put_inode_def)
    qed (simp add: inode_at_def put_inode_def)
  qed
qed

text \<open>Changes below the data blocks do not touch the files.\<close>

lemma image_low:
  assumes ok: "image_ok s F I" and low: "\<And>b. 59 \<le> b \<Longrightarrow> img t b = img s b" "\<And>b. length (img t b) = 512" and same: "nsect t = nsect s" "freeblock t = freeblock s"
  shows "image_ok t F I" "i \<in> I \<Longrightarrow> contents (img t) (F i) = contents (img s) (F i)"
proof -
  note D = image_okD [OF ok]
  have b: "img t (unat c) = img s (unat c)" if "i \<in> I" "c \<in> blocks (img s) (F i)" for i c using low(1) D(7) [OF that] by simp
  have f: "file_ok (img t) (F i)" "contents (img t) (F i) = contents (img s) (F i)" "blocks (img t) (F i) = blocks (img s) (F i)" if "i \<in> I" for i
    by (rule file_ok_frame(1) [OF D(6) [OF that]] file_ok_frame(2) [OF D(6) [OF that]] file_frame(2), erule b [OF that])+
  show "contents (img t) (F i) = contents (img s) (F i)" if "i \<in> I" by (rule f(2) [OF that])
  show "image_ok t F I" unfolding image_ok_def using D(2-5,7,8) f(1,3) low same by simp
qed

lemma image_cong: "(\<And>i. i \<in> I \<Longrightarrow> F i = G i) \<Longrightarrow> image_ok s F I \<longleftrightarrow> image_ok s G I"
  by (simp add: image_ok_def)

lemma put_inode_low:
  assumes "i < 200" "\<And>b. length (img s b) = 512" "length (d_addrs d) = 13"
  shows "59 \<le> b \<Longrightarrow> img (put_inode i d s) b = img s b" "length (img (put_inode i d s) b) = 512" "b < 32 \<or> b = 58 \<Longrightarrow> img (put_inode i d s) b = img s b"
    "nsect (put_inode i d s) = nsect s" "freeblock (put_inode i d s) = freeblock s" "freeinode (put_inode i d s) = freeinode s"
proof -
  have b: "i div 8 < 25" "i mod 8 < 8" using assms(1) by (simp_all add: div_less_iff_less_mult)
  then show "59 \<le> b \<Longrightarrow> img (put_inode i d s) b = img s b" "b < 32 \<or> b = 58 \<Longrightarrow> img (put_inode i d s) b = img s b" by (auto simp: put_inode_def)
  show "length (img (put_inode i d s) b) = 512" using b(2) assms(2) length_dinode_bytes [OF assms(3)] by (auto simp: put_inode_def)
qed (simp_all add: put_inode_def)

text \<open>What a step keeps of everything but the file \<open>i\<close>.\<close>

definition keeps_files :: "mkfs \<Rightarrow> nat set \<Rightarrow> mkfs \<Rightarrow> bool" where
  "keeps_files s J s' \<longleftrightarrow> (\<forall>j \<in> J. file_at s' j = file_at s j \<and> inode_at s' j = inode_at s j) \<and> (\<forall>b. b < 32 \<or> b = 58 \<longrightarrow> img s' b = img s b)"

lemma keeps_files_trans: "keeps_files s J s1 \<Longrightarrow> keeps_files s1 K s2 \<Longrightarrow> M \<subseteq> J \<inter> K \<Longrightarrow> keeps_files s M s2"
  unfolding keeps_files_def by (metis IntE subsetD)

text \<open>The state after \<open>p\<close> has been appended to file \<open>i\<close>.\<close>

definition wrote :: "mkfs \<Rightarrow> nat \<Rightarrow> byte list \<Rightarrow> mkfs \<Rightarrow> bool" where
  "wrote s i p s' \<longleftrightarrow> mk_ok s' \<and> file_at s' i = file_at s i @ p \<and> keeps_files s (inodes s - {i}) s' \<and> freeinode s' = freeinode s \<and>
     unat (freeblock s') + cost (unat (d_size (inode_at s i))) = unat (freeblock s) + cost (unat (d_size (inode_at s' i))) \<and>
     unat (d_size (inode_at s' i)) = unat (d_size (inode_at s i)) + length p \<and> d_type (inode_at s' i) = d_type (inode_at s i)"

lemma wrote_trans:
  assumes "wrote s i p s1" "wrote s1 i q s2"
  shows "wrote s i (p @ q) s2"
proof -
  have "inodes s1 = inodes s" using assms(1) by (simp add: wrote_def inodes_def)
  moreover from this have "keeps_files s (inodes s - {i}) s2"
    using assms keeps_files_trans [of s "inodes s - {i}" s1 "inodes s - {i}" s2 "inodes s - {i}"] by (simp add: wrote_def)
  moreover have "unat (freeblock s2) + cost (unat (d_size (inode_at s i))) = unat (freeblock s) + cost (unat (d_size (inode_at s2 i)))"
    using assms unfolding wrote_def by linarith
  ultimately show ?thesis using assms unfolding wrote_def by simp
qed

lemma iappend_run:
  assumes ok: "mk_ok s" "i \<in> inodes s" and size: "unat (d_size (inode_at s i)) + length p \<le> 71680"
    and fb: "unat (freeblock s) + cost (unat (d_size (inode_at s i)) + length p) \<le> 1000 + cost (unat (d_size (inode_at s i)))"
  shows "\<exists>s'. iappend (of_nat i) p s = Inr ((), s') \<and> wrote s i p s'"
proof -
  let ?F = "inode_at s" and ?I = "inodes s"
  have im: "image_ok s ?F ?I" "unat (freeinode s) \<le> 200" using ok(1) by (simp_all add: mk_ok_def)
  have i: "i < 200" using ok(2) im(2) by (simp add: inodes_def)
  obtain d' s1 where a: "appended s ?F ?I i p s1 d'" "iappend_loop (?F i) (d_size (?F i)) p s = Inr ((d'\<lparr>d_size := d_size (?F i)\<rparr>, d_size d'), s1)"
    using iappend_loop_run [OF im(1) ok(2) size fb] by blast
  have A: "image_ok s1 (?F(i := d')) ?I" "contents (img s1) d' = contents (img s) (?F i) @ p" "\<And>j. j \<in> ?I \<Longrightarrow> j \<noteq> i \<Longrightarrow> contents (img s1) (?F j) = contents (img s) (?F j)"
    "\<And>b. b < 59 \<Longrightarrow> img s1 b = img s b" "freeinode s1 = freeinode s" "unat (d_size d') = unat (d_size (?F i)) + length p"
    "unat (freeblock s1) + cost (unat (d_size (?F i))) = unat (freeblock s) + cost (unat (d_size (?F i)) + length p)"
    "d'\<lparr>d_addrs := [], d_size := 0\<rparr> = (?F i)\<lparr>d_addrs := [], d_size := 0\<rparr>"
    using a(1) by (simp_all add: appended_def)
  have ty: "d_type d' = d_type (?F i)" using arg_cong [OF A(8), of d_type] by simp
  note D = image_okD [OF A(1)]
  have l13: "length (d_addrs d') = 13" using file_okD(1) [OF D(6) [OF ok(2)]] by simp
  define s' where "s' = put_inode i d' s1"
  note P = put_inode_low [OF i D(1) l13, folded s'_def]
  have run: "iappend (of_nat i) p s = Inr ((), s')"
    using inode_io(1) [OF i, of s] inode_io(2) [OF i, of s1 "d'\<lparr>d_size := d_size (?F i), d_size := d_size d'\<rparr>"] D(2) image_okD(2) [OF im(1)] a(2)
    by (simp add: iappend_def bindM_def s'_def put_inode_def)
  have at: "inode_at s' j = (?F(i := d')) j" if "j \<in> ?I" for j
  proof -
    have "j < 200" using that im(2) by (simp add: inodes_def)
    then have "32 + j div 8 < 59" by (simp add: div_less_iff_less_mult)
    then have "inode_at s1 j = inode_at s j" using A(4) by (simp add: inode_at_def)
    then show ?thesis using inode_at_put [OF D(1) l13, where i = i and j = j] by (simp add: s'_def)
  qed
  have L: "image_ok s' (?F(i := d')) ?I" "\<And>j. j \<in> ?I \<Longrightarrow> contents (img s') ((?F(i := d')) j) = contents (img s1) ((?F(i := d')) j)"
    using image_low [OF A(1), of s'] P by simp_all
  have I': "inodes s' = ?I" using P(6) A(5) by (simp add: inodes_def)
  have "image_ok s' (inode_at s') ?I = image_ok s' (?F(i := d')) ?I" by (rule image_cong, erule at)
  then have "image_ok s' (inode_at s') ?I" using L(1) by simp
  then have mk: "mk_ok s'" using I' im(2) P(6) A(5) by (simp add: mk_ok_def)
  have fi: "file_at s' i = file_at s i @ p" using L(2) [OF ok(2)] at [OF ok(2)] A(2) by (simp add: file_at_def)
  have oth: "file_at s' j = file_at s j \<and> inode_at s' j = inode_at s j" if "j \<in> ?I - {i}" for j
    using L(2) [of j] at [of j] A(3) [of j] that by (simp add: file_at_def)
  have kp: "keeps_files s (inodes s - {i}) s'" unfolding keeps_files_def using oth P(3) A(4) by auto
  have "wrote s i p s'" unfolding wrote_def using mk fi kp at [OF ok(2)] A(5-7) P(5,6) ty by simp
  then show ?thesis using run by blast
qed

lemma append_chunks_run:
  assumes "mk_ok s" "i \<in> inodes s" "unat (d_size (inode_at s i)) + length (concat (takeWhile (\<lambda>c. c \<noteq> []) cs)) \<le> 71680"
    "unat (freeblock s) + cost (unat (d_size (inode_at s i)) + length (concat (takeWhile (\<lambda>c. c \<noteq> []) cs))) \<le> 1000 + cost (unat (d_size (inode_at s i)))"
  shows "\<exists>s'. append_chunks (of_nat i) cs s = Inr ((), s') \<and> wrote s i (concat (takeWhile (\<lambda>c. c \<noteq> []) cs)) s'"
  using assms
proof (induction cs arbitrary: s)
  case Nil
  then show ?case by (simp add: retM_def wrote_def keeps_files_def)
next
  case (Cons c cs)
  let ?off = "unat (d_size (inode_at s i))" and ?r = "concat (takeWhile (\<lambda>c. c \<noteq> []) cs)"
  show ?case
  proof (cases "c = []")
    case True
    then show ?thesis using Cons.prems(1) by (simp add: retM_def wrote_def keeps_files_def)
  next
    case False
    have l: "?off + (length c + length ?r) \<le> 71680" "unat (freeblock s) + cost (?off + (length c + length ?r)) \<le> 1000 + cost ?off"
      using Cons.prems(3,4) False by simp_all
    have "cost (?off + length c) \<le> cost (?off + (length c + length ?r))" by (rule cost_mono) simp
    then obtain s1 where s1: "iappend (of_nat i) c s = Inr ((), s1)" "wrote s i c s1"
      using iappend_run [OF Cons.prems(1,2), of c] l by auto
    then have w: "mk_ok s1" "i \<in> inodes s1" "unat (d_size (inode_at s1 i)) = ?off + length c" "unat (freeblock s1) + cost ?off = unat (freeblock s) + cost (?off + length c)"
      using Cons.prems(2) by (auto simp: wrote_def inodes_def)
    have "\<exists>s'. append_chunks (of_nat i) cs s1 = Inr ((), s') \<and> wrote s1 i ?r s'"
      by (rule Cons.IH [OF w(1,2)]) (use w(3,4) l in \<open>simp_all add: add.assoc\<close>)
    then show ?thesis using s1 False wrote_trans by (auto simp: bindM_def)
  qed
qed

text \<open>A new inode is an empty file.\<close>

lemma mk_ialloc_run:
  assumes ok: "mk_ok s" "0 < unat (freeinode s)" "unat (freeinode s) < 200"
  shows "\<exists>s'. mk_ialloc ty s = Inr (freeinode s, s') \<and> mk_ok s' \<and> unat (freeinode s') = unat (freeinode s) + 1 \<and> freeblock s' = freeblock s \<and>
    file_at s' (unat (freeinode s)) = [] \<and> d_type (inode_at s' (unat (freeinode s))) = ty \<and> keeps_files s (inodes s) s'"
proof -
  define i where "i = unat (freeinode s)"
  define d where "d = \<lparr>d_type = ty, d_major = 0, d_minor = 0, d_nlink = 1, d_size = 0, d_addrs = replicate 13 0\<rparr>"
  let ?s = "s\<lparr>freeinode := freeinode s + 1\<rparr>"
  define s' where "s' = put_inode i d ?s"
  have im: "image_ok s (inode_at s) (inodes s)" using ok(1) by (simp add: mk_ok_def)
  note D = image_okD [OF im]
  have i: "i < 200" "of_nat i = freeinode s" using ok(3) by (simp_all add: i_def)
  have fi: "unat (freeinode s + 1) = i + 1" using i(1) by (simp add: i_def unat_word_ariths)
  have l13: "length (d_addrs d) = 13" by (simp add: d_def)
  have lens: "length (img ?s b) = 512" for b using D(1) by simp
  note P = put_inode_low [OF i(1) lens l13, folded s'_def]
  have run: "mk_ialloc ty s = Inr (freeinode s, s')"
    using inode_io(2) [OF i(1), of ?s d] D(2) i(2) by (simp add: mk_ialloc_def bindM_def retM_def s'_def put_inode_def d_def Let_def)
  have at: "inode_at s' j = (if j = i then d else inode_at s j)" for j
  proof -
    have "inode_at ?s j = inode_at s j" by (simp add: inode_at_def)
    then show ?thesis using inode_at_put [OF lens l13, where i = i and j = j] by (simp add: s'_def)
  qed
  have I': "inodes s' = insert i (inodes s)" "i \<notin> inodes s" using P(6) fi ok(2) by (auto simp: inodes_def i_def)
  have a0: "addr m d k = 0" if "k < 140" for m k using that by (simp add: addr_def d_def nth_replicate del: replicate.simps)
  have d0: "file_ok m d" "blocks m d = {}" "contents m d = []" for m
    using a0 by (auto simp: file_ok_def blocks_def contents_def) (simp_all add: d_def)
  have L: "image_ok s' (inode_at s) (inodes s)" "\<And>j. j \<in> inodes s \<Longrightarrow> contents (img s') (inode_at s j) = contents (img s) (inode_at s j)"
    using image_low [OF im, of s'] P by simp_all
  have "image_ok s' (inode_at s') (inodes s) = image_ok s' (inode_at s) (inodes s)" by (rule image_cong) (use at I'(2) in auto)
  then have "image_ok s' (inode_at s') (inodes s')" using L(1) d0 at I' by (auto simp: image_ok_def)
  then have "mk_ok s'" using P(6) fi i(1) by (simp add: mk_ok_def)
  moreover have "keeps_files s (inodes s) s'" unfolding keeps_files_def file_at_def using L(2) at I'(2) P(3) by auto
  ultimately show ?thesis using run P(5,6) fi at [of i] d0(3) unfolding i_def [symmetric] by (simp add: file_at_def d_def)
qed

section \<open>The files of the image\<close>

definition built :: "mkfs \<Rightarrow> byte list list \<Rightarrow> byte list list \<Rightarrow> bool" where
  "built s es ds \<longleftrightarrow> mk_ok s \<and> unat (freeinode s) = length ds + 2 \<and> file_at s 1 = concat es \<and> d_type (inode_at s 1) = T_DIR \<and>
     (\<forall>i < length ds. file_at s (i + 2) = ds ! i \<and> d_type (inode_at s (i + 2)) = T_FILE) \<and>
     unat (freeblock s) = 59 + cost (length (concat es)) + (\<Sum>d\<leftarrow>ds. cost (length d)) \<and> take 28 (img s 1) = sb_bytes mk_sb"

lemma file_size: "unat (d_size (inode_at s i)) = length (file_at s i)"
  by (simp add: file_at_def contents_def)

lemma built_ialloc:
  assumes b: "built s es ds" "length ds < 198"
  shows "\<exists>s'. mk_ialloc T_FILE s = Inr (of_nat (length ds + 2), s') \<and> built s' es (ds @ [[]])"
proof -
  have B: "mk_ok s" "unat (freeinode s) = length ds + 2" using b(1) by (simp_all add: built_def)
  then obtain s' where s': "mk_ialloc T_FILE s = Inr (freeinode s, s')" "mk_ok s'" "unat (freeinode s') = length ds + 3" "freeblock s' = freeblock s"
    "file_at s' (length ds + 2) = []" "d_type (inode_at s' (length ds + 2)) = T_FILE" "keeps_files s (inodes s) s'"
    using mk_ialloc_run [OF B(1), of T_FILE] b(2) by auto
  have k: "file_at s' j = file_at s j \<and> inode_at s' j = inode_at s j" if "0 < j" "j < length ds + 2" for j
    using s'(7) that B(2) by (simp add: keeps_files_def inodes_def)
  have 1: "img s' 1 = img s 1" using s'(7) by (simp add: keeps_files_def)
  have "file_at s' (i + 2) = (ds @ [[]]) ! i \<and> d_type (inode_at s' (i + 2)) = T_FILE" if "i < length (ds @ [[]])" for i
    using that k [of "i + 2"] s'(5,6) b(1) by (cases "i = length ds") (simp_all add: built_def nth_append)
  then have "built s' es (ds @ [[]])" using s'(2-4) 1 k [of 1] b(1) by (simp add: built_def cost_def)
  moreover have "freeinode s = of_nat (length ds + 2)" unfolding B(2) [symmetric] by simp
  ultimately show ?thesis using s'(1) by metis
qed

lemma built_root:
  assumes b: "built s es ds" and w: "wrote s 1 e s'"
  shows "built s' (es @ [e]) ds"
proof -
  have fi: "unat (freeinode s) = length ds + 2" "freeinode s' = freeinode s" using b w by (simp_all add: built_def wrote_def)
  have k: "file_at s' (i + 2) = file_at s (i + 2) \<and> inode_at s' (i + 2) = inode_at s (i + 2)" if "i < length ds" for i
    using w that fi by (simp add: wrote_def keeps_files_def inodes_def)
  have 1: "img s' 1 = img s 1" using w by (simp add: wrote_def keeps_files_def)
  have "file_at s' 1 = file_at s 1 @ e" "unat (freeblock s') + cost (length (file_at s 1)) = unat (freeblock s) + cost (length (file_at s' 1))"
    using w by (simp_all add: wrote_def file_size)
  then show ?thesis using b w k 1 fi by (simp add: built_def wrote_def)
qed

lemma built_file:
  assumes b: "built s es (ds @ [d])" and w: "wrote s (length ds + 2) p s'"
  shows "built s' es (ds @ [d @ p])"
proof -
  let ?j = "length ds + 2"
  have fi: "unat (freeinode s) = length ds + 3" "freeinode s' = freeinode s" using b w by (simp_all add: built_def wrote_def)
  have k: "file_at s' j = file_at s j \<and> inode_at s' j = inode_at s j" if "0 < j" "j < ?j" for j
    using w that fi by (simp add: wrote_def keeps_files_def inodes_def)
  have 1: "img s' 1 = img s 1" using w by (simp add: wrote_def keeps_files_def)
  have d: "file_at s ?j = d" "d_type (inode_at s ?j) = T_FILE" using b by (auto simp: built_def nth_append)
  then have n: "file_at s' ?j = d @ p" "unat (freeblock s') + cost (length d) = unat (freeblock s) + cost (length (d @ p))" "d_type (inode_at s' ?j) = T_FILE"
    using w by (simp_all add: wrote_def file_size)
  have "file_at s' (i + 2) = (ds @ [d @ p]) ! i \<and> d_type (inode_at s' (i + 2)) = T_FILE" if "i < length (ds @ [d @ p])" for i
    using that k [of "i + 2"] n(1,3) b by (cases "i = length ds") (simp_all add: built_def nth_append)
  moreover have "unat (freeblock s) = 59 + cost (length (concat es)) + (\<Sum>d\<leftarrow>ds. cost (length d)) + cost (length d)" using b by (simp add: built_def)
  ultimately show ?thesis using b w k [of 1] n(2) 1 fi by (simp add: built_def wrote_def)
qed

lemma length_mk_dirent: "length (mk_dirent name inum) = 16"
  by (simp add: mk_dirent_def strncpy_list_def)

definition file_name :: "byte list \<times> byte list list option \<Rightarrow> byte list" where
  "file_name f = (if fst f \<noteq> [] \<and> hd (fst f) = 95 then tl (fst f) else fst f)"

definition file_data :: "byte list \<times> byte list list option \<Rightarrow> byte list" where
  "file_data f = concat (takeWhile (\<lambda>c. c \<noteq> []) (the (snd f)))"

definition file_fits :: "byte list \<times> byte list list option \<Rightarrow> bool" where
  "file_fits f \<longleftrightarrow> 47 \<notin> set (fst f) \<and> snd f \<noteq> None \<and> length (file_data f) \<le> 71680"

lemma add_file_fits:
  assumes "file_fits f" "snd f = Some cs"
  shows "add_file r f s = bindM (mk_ialloc T_FILE) (\<lambda>inum. bindM (iappend r (mk_dirent (file_name f) (ucast inum))) (\<lambda>_. append_chunks inum cs)) s"
proof -
  obtain name where f: "f = (name, Some cs)" using assms(2) by (cases f) simp
  have "(if name \<noteq> [] \<and> name ! 0 = 95 then tl name else name) = file_name f" unfolding f file_name_def by (cases name) simp_all
  then show ?thesis using assms(1) unfolding f add_file_def Let_def by (simp add: file_fits_def)
qed

lemma add_file_run:
  assumes b: "built s es ds" "length ds < 198" "length (concat es) + 16 \<le> 71680" and f: "file_fits f"
    and fb: "59 + cost (length (concat es) + 16) + (\<Sum>d\<leftarrow>ds. cost (length d)) + cost (length (file_data f)) \<le> 1000"
  shows "\<exists>s'. add_file 1 f s = Inr ((), s') \<and> built s' (es @ [mk_dirent (file_name f) (of_nat (length ds + 2))]) (ds @ [file_data f])"
proof -
  let ?j = "length ds + 2" and ?e = "mk_dirent (file_name f) (of_nat (length ds + 2))"
  obtain cs where cs: "snd f = Some cs" using f by (auto simp: file_fits_def)
  obtain s1 where s1: "mk_ialloc T_FILE s = Inr (of_nat ?j, s1)" "built s1 es (ds @ [[]])" using built_ialloc [OF b(1,2)] by blast
  have e: "length ?e = 16" by (rule length_mk_dirent)
  have "\<exists>s2. iappend (of_nat 1) ?e s1 = Inr ((), s2) \<and> wrote s1 1 ?e s2"
    by (rule iappend_run) (use s1(2) fb b(3) e in \<open>simp_all add: built_def inodes_def file_size cost_def [of 0]\<close>)
  then obtain s2 where s2: "iappend 1 ?e s1 = Inr ((), s2)" "built s2 (es @ [?e]) (ds @ [[]])" using built_root [OF s1(2)] by auto
  have d: "file_at s2 ?j = []" using s2(2) by (auto simp: built_def nth_append)
  have "\<exists>s3. append_chunks (of_nat ?j) cs s2 = Inr ((), s3) \<and> wrote s2 ?j (file_data f) s3"
    unfolding file_data_def cs option.sel
    by (rule append_chunks_run) (use s2(2) fb d f e cs in \<open>simp_all add: built_def inodes_def file_size file_fits_def file_data_def cost_def [of 0]\<close>)
  then obtain s3 where s3: "append_chunks (of_nat ?j) cs s2 = Inr ((), s3)" "built s3 (es @ [?e]) (ds @ [file_data f])"
    using built_file [OF s2(2)] by auto
  have u: "ucast (of_nat ?j :: u32) = (of_nat ?j :: u16)" using b(2) by (simp only: unsigned_of_nat) (simp add: take_bit_nat_eq_self del: of_nat_add of_nat_Suc)
  have "add_file 1 f s = append_chunks (of_nat ?j) cs s2"
    using add_file_fits [OF f cs, of 1 s] s1(1) s2(1) u by (simp add: bindM_def del: of_nat_add of_nat_Suc)
  then show ?thesis using s3 by metis
qed

lemma add_files_run:
  assumes "built s es ds" "length ds + length fs \<le> 198" "length (concat es) + 16 * length fs \<le> 71680" "\<forall>f \<in> set fs. file_fits f"
    "59 + cost (length (concat es) + 16 * length fs) + (\<Sum>d\<leftarrow>ds. cost (length d)) + (\<Sum>f\<leftarrow>fs. cost (length (file_data f))) \<le> 1000"
  shows "\<exists>s'. add_files 1 fs s = Inr ((), s') \<and>
    built s' (es @ map (\<lambda>(i, f). mk_dirent (file_name f) (of_nat i)) (enumerate (length ds + 2) fs)) (ds @ map file_data fs)"
  using assms
proof (induction fs arbitrary: s es ds)
  case Nil
  then show ?case by (simp add: retM_def)
next
  case (Cons f fs)
  let ?e = "mk_dirent (file_name f) (of_nat (length ds + 2))"
  have "cost (length (concat es) + 16) \<le> cost (length (concat es) + 16 * length (f # fs))" by (rule cost_mono) simp
  then have "59 + cost (length (concat es) + 16) + (\<Sum>d\<leftarrow>ds. cost (length d)) + cost (length (file_data f)) \<le> 1000" using Cons.prems(5) by simp
  then obtain s1 where s1: "add_file 1 f s = Inr ((), s1)" "built s1 (es @ [?e]) (ds @ [file_data f])"
    using add_file_run [OF Cons.prems(1)] Cons.prems(2-4) by fastforce
  have l: "length (concat (es @ [?e])) = length (concat es) + 16" by (simp add: length_mk_dirent)
  have "\<exists>s'. add_files 1 fs s1 = Inr ((), s') \<and>
    built s' ((es @ [?e]) @ map (\<lambda>(i, f). mk_dirent (file_name f) (of_nat i)) (enumerate (length (ds @ [file_data f]) + 2) fs)) ((ds @ [file_data f]) @ map file_data fs)"
    by (rule Cons.IH [OF s1(2)]) (use Cons.prems(2-5) in \<open>simp_all only: l\<close>, simp_all add: algebra_simps)
  then show ?case using s1(1) by (simp add: bindM_def)
qed

section \<open>The bitmap\<close>

lemma bit_clear_bit: "bit_clear bs b \<longleftrightarrow> \<not> bit (bs ! (b div 8)) (b mod 8)"
  by (simp add: bit_clear_def and_exp_eq_0_iff_not_bit)

lemma bitmap_run:
  assumes "n \<le> 4096"
  defines "bm \<equiv> \<lambda>n. fold (\<lambda>i buf. buf[i div 8 := buf ! (i div 8) OR push_bit (i mod 8) 1]) [0..<n] (replicate 512 (0 :: byte))"
  shows "length (bm n) = 512 \<and> (\<forall>b < 4096. bit_clear (bm n) b \<longleftrightarrow> n \<le> b)"
  using assms(1)
proof (induction n)
  case 0
  then show ?case by (simp add: bm_def bit_clear_bit)
next
  case (Suc n)
  then have IH: "length (bm n) = 512" "\<And>b. b < 4096 \<Longrightarrow> bit (bm n ! (b div 8)) (b mod 8) \<longleftrightarrow> b < n" by (auto simp: bit_clear_bit)
  have u: "bm (Suc n) = (bm n)[n div 8 := bm n ! (n div 8) OR push_bit (n mod 8) 1]" by (simp add: bm_def)
  have n: "n div 8 < 512" using Suc.prems by (simp add: div_less_iff_less_mult)
  have "bit (bm (Suc n) ! (b div 8)) (b mod 8) \<longleftrightarrow> b < Suc n" if "b < 4096" for b
  proof (cases "b div 8 = n div 8")
    case True
    then have "b mod 8 = n mod 8 \<longleftrightarrow> b = n" by (metis div_mult_mod_eq)
    moreover have "bit (bm n ! (n div 8)) (b mod 8) \<longleftrightarrow> b < n" using IH(2) [OF that] True by simp
    ultimately show ?thesis unfolding u using n IH(1) True by (auto simp: bit_or_iff bit_push_bit_iff bit_exp_iff)
  next
    case False
    then have "b \<noteq> n" by blast
    then show ?thesis unfolding u using n IH that False by auto
  qed
  then show ?case using IH(1) u by (auto simp: bit_clear_bit)
qed

section \<open>The whole program\<close>

text \<open>
  A finished image: the superblock; the entries \<open>es\<close> in the root directory, whose size is rounded up; the contents
  \<open>ds\<close> of the files from inode 2 on, in blocks that no two files share; and exactly the blocks from \<open>freeblock\<close> on are
  free in the bitmap.
\<close>

definition image_holds :: "mkfs \<Rightarrow> byte list list \<Rightarrow> byte list list \<Rightarrow> bool" where
  "image_holds s es ds \<longleftrightarrow> take 28 (img s 1) = sb_bytes mk_sb \<and> d_type (inode_at s 1) = T_DIR \<and> take (length (concat es)) (file_at s 1) = concat es \<and>
     (\<forall>i < length ds. file_at s (i + 2) = ds ! i \<and> d_type (inode_at s (i + 2)) = T_FILE) \<and>
     unat (freeblock s) = 59 + cost (length (concat es)) + (\<Sum>d\<leftarrow>ds. cost (length d)) \<and>
     (\<forall>b < 4096. bit_clear (img s 58) b \<longleftrightarrow> unat (freeblock s) \<le> b) \<and>
     (\<forall>i \<in> {1..<length ds + 2}. (\<forall>b \<in> blocks (img s) (inode_at s i). 59 \<le> unat b \<and> unat b < unat (freeblock s)) \<and>
        (\<forall>j \<in> {1..<length ds + 2}. i \<noteq> j \<longrightarrow> blocks (img s) (inode_at s i) \<inter> blocks (img s) (inode_at s j) = {}))"

definition finish :: "unit mk" where
  "finish = bindM (rinode 1) (\<lambda>din.
     bindM (winode 1 (din\<lparr>d_size := (d_size din div 512 + 1) * 512\<rparr>)) (\<lambda>_.
     bindM (\<lambda>s. Inr (freeblock s, s)) (\<lambda>fb. mk_balloc fb)))"

lemma blocks_size [simp]: "blocks m (d\<lparr>d_size := v\<rparr>) = blocks m d"
  by (simp add: blocks_def)

lemma take_contents:
  assumes "unat (d_size d) \<le> unat v"
  shows "take (unat (d_size d)) (contents m (d\<lparr>d_size := v\<rparr>)) = contents m d"
  using assms by (simp add: contents_def take_map take_upt)

lemma balloc_run:
  assumes "unat (freeblock s) \<le> 1000" "nsect s = 1000"
  shows "\<exists>buf. mk_balloc (freeblock s) s = Inr ((), s\<lparr>img := (img s)(58 := buf)\<rparr>) \<and> length buf = 512 \<and> (\<forall>b < 4096. bit_clear buf b \<longleftrightarrow> unat (freeblock s) \<le> b)"
proof -
  have "sint (of_nat n :: u32) = int n" if "n \<le> 1000" for n using that by (simp add: signed_of_nat signed_take_bit_int_eq_self)
  from this [OF assms(1)] have "sint (freeblock s) = int (unat (freeblock s))" by simp
  then have lt: "sint (freeblock s) < 512 * 8" "nat (sint (freeblock s)) = unat (freeblock s)" using assms(1) by linarith+
  have w: "sb_bmapstart mk_sb = 58" by (simp add: mk_sb_def nlog_def ninodeblocks_def)
  have "max (nsect s) (58 + 1) = nsect s" using assms(2) by simp
  then show ?thesis using bitmap_run [of "unat (freeblock s)"] assms(1)
    by (intro exI [of _ "fold (\<lambda>i buf. buf[i div 8 := buf ! (i div 8) OR push_bit (i mod 8) 1]) [0..<unat (freeblock s)] (replicate 512 0)"])
      (simp add: mk_balloc_def lt [simplified] w sect_small Let_def)
qed

lemma rounded_size:
  fixes v :: u32
  assumes "unat v \<le> 71680"
  shows "unat v \<le> unat ((v div 512 + 1) * 512)"
proof -
  have "unat v = 512 * (unat v div 512) + unat v mod 512" "unat v mod 512 < 512" "unat v div 512 \<le> 140" using assms by simp_all
  moreover from this have "unat ((v div 512 + 1) * 512) = unat v div 512 * 512 + 512" by (simp add: unat_word_ariths unat_div)
  ultimately show ?thesis by linarith
qed

lemma finish_run:
  assumes b: "built s es ds"
  shows "\<exists>s'. finish s = Inr ((), s') \<and> image_holds s' es ds"
proof -
  have ok: "mk_ok s" "unat (freeinode s) = length ds + 2" using b by (simp_all add: built_def)
  have im: "image_ok s (inode_at s) (inodes s)" and I: "inodes s = {1..<length ds + 2}" using ok by (simp_all add: mk_ok_def inodes_def)
  note D = image_okD [OF im]
  define d where "d = (inode_at s 1)\<lparr>d_size := (d_size (inode_at s 1) div 512 + 1) * 512\<rparr>"
  define s1 where "s1 = put_inode 1 d s"
  have "file_ok (img s) (inode_at s 1)" using D(6) [of 1] I by simp
  note F = file_okD [OF this]
  have l13: "length (d_addrs d) = 13" using F(1) by (simp add: d_def)
  have i: "(1 :: nat) < 200" by simp
  note P = put_inode_low [OF i D(1) l13, folded s1_def]
  obtain buf where buf: "mk_balloc (freeblock s1) s1 = Inr ((), s1\<lparr>img := (img s1)(58 := buf)\<rparr>)" "length buf = 512" "\<And>b. b < 4096 \<Longrightarrow> bit_clear buf b \<longleftrightarrow> unat (freeblock s) \<le> b"
    using balloc_run [of s1] P(4,5) D(2,4) by auto
  define s2 where "s2 = s1\<lparr>img := (img s1)(58 := buf)\<rparr>"
  have run: "finish s = Inr ((), s2)"
    using inode_io(1) [OF i D(2)] inode_io(2) [OF i D(2), of d] buf(1) by (simp add: finish_def bindM_def s1_def s2_def put_inode_def d_def)
  have L: "\<And>j. j \<in> inodes s \<Longrightarrow> contents (img s2) (inode_at s j) = file_at s j" "image_ok s2 (inode_at s) (inodes s)"
    using image_low [OF im, of s2] P buf(2) by (simp_all add: s2_def file_at_def)
  have at: "inode_at s2 j = (if j = 1 then d else inode_at s j)" if "j \<in> inodes s" for j
  proof -
    have "j div 8 < 25" using that ok(1) by (simp add: inodes_def mk_ok_def div_less_iff_less_mult)
    then have "inode_at s2 j = inode_at s1 j" by (simp add: inode_at_def s2_def)
    then show ?thesis using inode_at_put [OF D(1) l13, where i = 1 and j = j] by (simp add: s1_def)
  qed
  have "take (unat (d_size (inode_at s 1))) (contents (img s2) d) = file_at s 1"
    unfolding d_def using take_contents [OF rounded_size [OF F(2)]] L(1) [of 1] I by simp
  then have root: "take (length (concat es)) (file_at s2 1) = concat es" "d_type (inode_at s2 1) = T_DIR"
    using at [of 1] I b by (simp_all add: file_at_def [of s2] file_size built_def d_def)
  have bl: "blocks (img s2) (inode_at s2 j) = blocks (img s2) (inode_at s j)" if "j \<in> inodes s" for j using at [OF that] by (simp add: d_def)
  have fl: "file_at s2 (i + 2) = ds ! i \<and> d_type (inode_at s2 (i + 2)) = T_FILE" if "i < length ds" for i
    using at [of "i + 2"] L(1) [of "i + 2"] that I b by (simp add: file_at_def [of s2] built_def)
  have m: "img s2 1 = img s 1" "img s2 58 = buf" "freeblock s2 = freeblock s" using P(3,5) by (simp_all add: s2_def)
  have "image_holds s2 es ds"
    unfolding image_holds_def using m root fl buf(3) b bl image_okD(7,8) [OF L(2)] I by (simp add: built_def)
  then show ?thesis using run by blast
qed

lemma zero_sectors_run:
  "n \<le> 1000 \<Longrightarrow> zero_sectors n (mkfs_start\<lparr>freeblock := 59\<rparr>) = Inr ((), mkfs_start\<lparr>freeblock := 59, nsect := n\<rparr>)"
proof (induction n)
  case 0
  then show ?case by (simp add: retM_def mkfs_start_def)
next
  case (Suc n)
  have u: "unat (of_nat n :: u32) = n" by (rule unat_of_nat_u32) (use Suc.prems in simp)
  have "(\<lambda>_ :: nat. replicate 512 (0 :: byte))(n := replicate 512 0) = (\<lambda>_. replicate 512 0)" by auto
  then show ?case using Suc u by (simp add: bindM_def sect_small mkfs_start_def)
qed

lemma start_built:
  defines "s0 \<equiv> mkfs_start\<lparr>freeblock := 59, nsect := 1000, img := (img mkfs_start)(1 := put_bytes 0 (sb_bytes mk_sb) (replicate 512 0))\<rparr>"
  shows "\<exists>s. mk_ialloc T_DIR s0 = Inr (1, s) \<and> built s [] []"
proof -
  have l: "length (sb_bytes mk_sb) = 28" by (simp add: sb_bytes_def)
  have s0: "img s0 b = (if b = 1 then put_bytes 0 (sb_bytes mk_sb) (replicate 512 0) else replicate 512 0)" "nsect s0 = 1000" "freeinode s0 = 1" "freeblock s0 = 59" for b
    by (simp_all add: s0_def mkfs_start_def)
  have len: "length (img s0 b) = 512" for b using l by (simp add: s0(1))
  have "mk_ok s0" using len by (simp add: mk_ok_def image_ok_def inodes_def s0)
  then obtain s where s: "mk_ialloc T_DIR s0 = Inr (1, s)" "mk_ok s" "unat (freeinode s) = 2" "freeblock s = 59" "file_at s 1 = []" "d_type (inode_at s 1) = T_DIR"
    "keeps_files s0 (inodes s0) s"
    using mk_ialloc_run [of s0 T_DIR] s0 by auto
  have "img s 1 = img s0 1" using s(7) by (simp add: keeps_files_def)
  then have "take 28 (img s 1) = sb_bytes mk_sb" using l by (simp add: s0(1) put_bytes_def)
  then show ?thesis using s by (intro exI [of _ s]) (simp add: built_def cost_def)
qed

lemma dot_run:
  assumes "built s es []" "length e = 16" "length (concat es) \<le> 16"
  shows "\<exists>s'. iappend 1 e s = Inr ((), s') \<and> built s' (es @ [e]) []"
proof -
  have "cost (length (concat es) + 16) \<le> 1" using assms(3) by (simp add: cost_def)
  then have "\<exists>s'. iappend (of_nat 1) e s = Inr ((), s') \<and> wrote s 1 e s'"
    by (intro iappend_run) (use assms in \<open>simp_all add: built_def inodes_def file_size\<close>)
  then show ?thesis using built_root [OF assms(1)] by auto
qed

definition files_fit :: "(byte list \<times> byte list list option) list \<Rightarrow> bool" where
  "files_fit files \<longleftrightarrow> list_all file_fits files \<and> length files \<le> 198 \<and>
     59 + cost (16 * (length files + 2)) + (\<Sum>f\<leftarrow>files. cost (length (file_data f))) \<le> 1000"

definition root_entries :: "(byte list \<times> byte list list option) list \<Rightarrow> byte list list" where
  "root_entries files = mk_dirent [46] 1 # mk_dirent [46, 46] 1 # map (\<lambda>(i, f). mk_dirent (file_name f) (of_nat i)) (enumerate 2 files)"

text \<open>
  C4: The disk image. If the names contain no slash, the files can be opened, there are at most 198 of them, each is at
  most \<open>MAXFILE\<close> blocks long and together they fit on the disk, then \<^verbatim>\<open>mkfs\<close> succeeds. The image it leaves has the
  superblock in block 1; the root directory consists of its two dot entries and one entry for each file, with
  the leading underscore dropped; inode \<open>i + 2\<close> holds exactly the bytes that were read from the \<open>i\<close>th file; no two files share a block;
  and the bitmap marks exactly the blocks below the first free one as used.
\<close>

theorem mkfs_correct:
  assumes "files_fit files"
  shows "\<exists>s. mkfs_main files mkfs_start = Inr ((), s) \<and> image_holds s (root_entries files) (map file_data files)"
proof -
  have fit: "\<forall>f \<in> set files. file_fits f" "length files \<le> 198" "59 + cost (16 * (length files + 2)) + (\<Sum>f\<leftarrow>files. cost (length (file_data f))) \<le> 1000"
    using assms by (simp_all add: files_fit_def list_all_iff)
  let ?d1 = "mk_dirent [46] 1" and ?d2 = "mk_dirent [46, 46] 1"
  note l = length_mk_dirent
  obtain s1 where s1: "mk_ialloc T_DIR (mkfs_start\<lparr>freeblock := 59, nsect := 1000, img := (img mkfs_start)(1 := put_bytes 0 (sb_bytes mk_sb) (replicate 512 0))\<rparr>) = Inr (1, s1)"
    "built s1 [] []" using start_built by blast
  obtain s2 where s2: "iappend 1 ?d1 s1 = Inr ((), s2)" "built s2 [?d1] []" using dot_run [OF s1(2) l] by auto
  obtain s3 where s3: "iappend 1 ?d2 s2 = Inr ((), s3)" "built s3 [?d1, ?d2] []" using dot_run [OF s2(2) l] by (auto simp: l)
  have "\<exists>s'. add_files 1 files s3 = Inr ((), s') \<and>
    built s' ([?d1, ?d2] @ map (\<lambda>(i, f). mk_dirent (file_name f) (of_nat i)) (enumerate (length ([] :: byte list list) + 2) files)) ([] @ map file_data files)"
    by (rule add_files_run [OF s3(2) _ _ fit(1)]) (use fit(2,3) in \<open>simp_all add: l algebra_simps\<close>)
  then obtain s4 where s4: "add_files 1 files s3 = Inr ((), s4)" "built s4 (root_entries files) (map file_data files)" by (auto simp: root_entries_def numeral_2_eq_2)
  have n: "nmeta = 59" by (simp add: nmeta_def nlog_def ninodeblocks_def nbitmap_def)
  have w: "wsect 1 b (mkfs_start\<lparr>freeblock := 59, nsect := 1000\<rparr>) = Inr ((), mkfs_start\<lparr>freeblock := 59, nsect := 1000, img := (img mkfs_start)(1 := b)\<rparr>)" for b
    by (simp add: sect_small mkfs_start_def)
  have "mkfs_main files mkfs_start = finish s4"
    using zero_sectors_run [of 1000] s1(1) s2(1) s3(1) s4(1) w by (simp add: mkfs_main_def bindM_def n finish_def Let_def)
  then show ?thesis using finish_run [OF s4(2)] by simp
qed

theorem mkfs_correct_witness:
  "\<exists>s. mkfs_main [([95, 99, 97, 116], Some [[1, 2, 3], [4, 5], []]), ([82], Some [])] mkfs_start = Inr ((), s) \<and>
     image_holds s [mk_dirent [46] 1, mk_dirent [46, 46] 1, mk_dirent [99, 97, 116] 2, mk_dirent [82] 3] [[1, 2, 3, 4, 5], []]"
proof -
  let ?fs = "[([95, 99, 97, 116], Some [[1, 2, 3], [4, 5], []]), ([82], Some [])] :: (byte list \<times> byte list list option) list"
  have "files_fit ?fs" by (simp add: files_fit_def file_fits_def file_data_def cost_def)
  from mkfs_correct [OF this] show ?thesis by (simp add: root_entries_def file_name_def file_data_def)
qed

end
