(* ===== verification/Boot.thy ===== *)
theory Boot
  imports Kmonad Memlayout
begin

text \<open>
  The boot loader, \<^verbatim>\<open>bootmain.c\<close>. \<open>ram\<close> is the physical memory and \<open>sectors\<close> the disk. The disk
  controller is seen through its ports: \<open>ata_port\<close> is what was last written to each, \<open>ata_status\<close> are the
  answers that reading the status port will give; a controller that answers no more is waited for
  forever. The data port delivers the sector whose number was last written to the address ports, 28 bits of it.
  \<open>jumped\<close> is the address the boot loader has called. The property says that the segments of the kernel
  image are in memory when its entry point is called.
\<close>

section \<open>Definitions\<close>

record boot =
  ram :: bmem
  sectors :: "u32 \<Rightarrow> byte list"
  ata_port :: "u16 \<Rightarrow> byte"
  ata_status :: "byte list"
  jumped :: "u32 option"

definition load16 :: "bmem \<Rightarrow> u32 \<Rightarrow> u16" where
  "load16 m a = ucast (m a) OR push_bit 8 (ucast (m (a + 1)))"

fun waitdisk_loop :: "byte list \<Rightarrow> byte list option" where
  "waitdisk_loop [] = None"
| "waitdisk_loop (r # rs) = (if r AND 0xC0 \<noteq> 0x40 then waitdisk_loop rs else Some rs)"

definition waitdisk :: "(boot, unit) kop" where
  "waitdisk s = (case waitdisk_loop (ata_status s) of None \<Rightarrow> Diverge | Some rs \<Rightarrow> Ret () (s\<lparr>ata_status := rs\<rparr>))"

definition ata_outb :: "u16 \<Rightarrow> byte \<Rightarrow> (boot, unit) kop" where
  "ata_outb p x = modK (\<lambda>s. s\<lparr>ata_port := (ata_port s)(p := x)\<rparr>)"

text \<open>The number in the address ports of the controller, and the transfer of one sector.\<close>

definition ata_lba :: "(u16 \<Rightarrow> byte) \<Rightarrow> u32" where
  "ata_lba port = ucast (port 0x1F3) OR push_bit 8 (ucast (port 0x1F4)) OR push_bit 16 (ucast (port 0x1F5)) OR push_bit 24 (ucast (port 0x1F6 AND 0x0F))"

definition insl :: "u32 \<Rightarrow> (boot, unit) kop" where
  "insl dst = modK (\<lambda>s. s\<lparr>ram := put_bytes (ram s) dst (sectors s (ata_lba (ata_port s)))\<rparr>)"

definition readsect :: "u32 \<Rightarrow> u32 \<Rightarrow> (boot, unit) kop" where
  "readsect dst offset =
     bindK waitdisk (\<lambda>_.
     bindK (ata_outb 0x1F2 1) (\<lambda>_.
     bindK (ata_outb 0x1F3 (ucast offset)) (\<lambda>_.
     bindK (ata_outb 0x1F4 (ucast (drop_bit 8 offset))) (\<lambda>_.
     bindK (ata_outb 0x1F5 (ucast (drop_bit 16 offset))) (\<lambda>_.
     bindK (ata_outb 0x1F6 (ucast (drop_bit 24 offset OR 0xE0))) (\<lambda>_.
     bindK (ata_outb 0x1F7 0x20) (\<lambda>_.
     bindK waitdisk (\<lambda>_.
     insl dst))))))))"

lemma waitdisk_progress: "waitdisk s = Ret u s' \<Longrightarrow> length (ata_status s') < length (ata_status s)"
proof -
  have "waitdisk_loop rs = Some rs' \<Longrightarrow> length rs' < length rs" for rs rs'
    by (induction rs) (auto split: if_splits)
  then show "waitdisk s = Ret u s' \<Longrightarrow> length (ata_status s') < length (ata_status s)"
    by (auto simp: waitdisk_def split: option.splits)
qed

lemma readsect_progress: "readsect dst off s = Ret u s' \<Longrightarrow> length (ata_status s') < length (ata_status s)"
  by (auto simp: readsect_def bindK_def ata_outb_def insl_def split: outcome.splits dest!: waitdisk_progress)

function readseg_loop :: "u32 \<Rightarrow> u32 \<Rightarrow> u32 \<Rightarrow> (boot, unit) kop" where
  "readseg_loop pa epa offset s =
     (if pa < epa then
        case readsect pa offset s of
          Ret _ s' \<Rightarrow> readseg_loop (pa + 512) epa (offset + 1) s'
        | Panic e \<Rightarrow> Panic e
        | Swtch s' \<Rightarrow> Swtch s'
        | Diverge \<Rightarrow> Diverge
      else Ret () s)"
  by pat_completeness auto
termination by (relation "measure (\<lambda>(pa, epa, offset, s). length (ata_status s))") (auto dest: readsect_progress)

declare readseg_loop.simps [simp del]

definition readseg :: "u32 \<Rightarrow> u32 \<Rightarrow> u32 \<Rightarrow> (boot, unit) kop" where
  "readseg pa cnt offset =
     (let epa = pa + cnt; pa = pa - offset mod 512; offset = offset div 512 + 1
      in readseg_loop pa epa offset)"

abbreviation (input) ELF_MAGIC :: u32 where "ELF_MAGIC \<equiv> 0x464C457F"

text \<open>One round of the loop over the program headers; \<open>ph\<close> is the address of the header.\<close>

definition load_segment :: "u32 \<Rightarrow> (boot, unit) kop" where
  "load_segment ph =
     bindK (getK (\<lambda>s. load32 (ram s) (ph + 12))) (\<lambda>pa.
     bindK (getK (\<lambda>s. (load32 (ram s) (ph + 16), load32 (ram s) (ph + 4)))) (\<lambda>(filesz, off).
     bindK (readseg pa filesz off) (\<lambda>_.
     bindK (getK (\<lambda>s. (load32 (ram s) (ph + 16), load32 (ram s) (ph + 20)))) (\<lambda>(filesz, memsz).
     whenK (memsz > filesz) (modK (\<lambda>s. s\<lparr>ram := stosb (ram s) (pa + filesz) 0 (unat (memsz - filesz))\<rparr>))))))"

text \<open>
  \<open>eph - ph\<close> is a multiple of the size of a header, so that the loop ends at \<open>eph\<close> after \<open>phnum\<close> rounds,
  unless the addition has wrapped around.
\<close>

definition bootmain :: "(boot, unit) kop" where
  "bootmain =
     (let elf = 0x10000 in
      bindK (readseg elf 4096 0) (\<lambda>_.
      bindK (getK (\<lambda>s. load32 (ram s) elf)) (\<lambda>magic.
      if magic \<noteq> ELF_MAGIC then retK ()
      else
        bindK (getK (\<lambda>s. (elf + load32 (ram s) (elf + 28), load16 (ram s) (elf + 44)))) (\<lambda>(ph, phnum).
        let eph = ph + 32 * ucast phnum in
        bindK (forK (map (\<lambda>k. ph + 32 * of_nat k) [0..<(if ph < eph then unat phnum else 0)]) load_segment) (\<lambda>_.
        bindK (getK (\<lambda>s. load32 (ram s) (elf + 24))) (\<lambda>entry.
        modK (\<lambda>s. s\<lparr>jumped := Some entry\<rparr>)))))))"

section \<open>Reading sectors\<close>

definition ready :: "boot \<Rightarrow> nat" where
  "ready s = length (filter (\<lambda>r. r AND 0xC0 = 0x40) (ata_status s))"

lemma waitdisk_run:
  assumes "0 < ready s"
  shows "\<exists>rs. waitdisk s = Ret () (s\<lparr>ata_status := rs\<rparr>) \<and> length (filter (\<lambda>r. r AND 0xC0 = 0x40) rs) = ready s - 1"
proof -
  have "0 < length (filter (\<lambda>r. r AND 0xC0 = 0x40) rs) \<Longrightarrow>
      \<exists>rs'. waitdisk_loop rs = Some rs' \<and> length (filter (\<lambda>r. r AND 0xC0 = 0x40) rs') = length (filter (\<lambda>r. r AND 0xC0 = 0x40) rs) - 1" for rs :: "byte list"
    by (induction rs) auto
  from this [of "ata_status s"] assms show ?thesis by (auto simp: waitdisk_def ready_def)
qed

lemma high_port: "(ucast (x OR 0xE0 :: u32) :: byte) AND 0x0F = take_bit 4 (ucast x)"
proof -
  have "(ucast (x OR 0xE0) :: byte) AND 0x0F = (ucast x AND 0x0F) OR (0xE0 AND 0x0F)"
    by (simp only: unsigned_or_eq bit.conj_disj_distrib2) simp
  also have "\<dots> = ucast x AND mask 4" by (simp add: mask_eq_exp_minus_1)
  finally show ?thesis by (simp add: take_bit_eq_mask)
qed

lemma lba_roundtrip:
  assumes "unat off < 2 ^ 28"
  shows "ucast (ucast off :: byte) OR push_bit 8 (ucast (ucast (drop_bit 8 off) :: byte)) OR push_bit 16 (ucast (ucast (drop_bit 16 off) :: byte))
    OR push_bit 24 (ucast ((ucast (drop_bit 24 off OR 0xE0) :: byte) AND 0x0F)) = (off :: u32)"
proof (rule bit_word_eqI)
  fix n :: nat assume n: "n < LENGTH(32)"
  have top: "\<not> bit off n" if "28 \<le> n" for n
  proof -
    have "take_bit 28 off = off" using assms by (simp add: take_bit_eq_mod word_unat_eq_iff unat_mod)
    then show ?thesis using that by (metis bit_take_bit_iff not_less)
  qed
  show "bit (ucast (ucast off :: byte) OR push_bit 8 (ucast (ucast (drop_bit 8 off) :: byte)) OR push_bit 16 (ucast (ucast (drop_bit 16 off) :: byte))
    OR push_bit 24 (ucast ((ucast (drop_bit 24 off OR 0xE0) :: byte) AND 0x0F)) :: u32) n = bit off n"
    unfolding high_port using n top by (cases "28 \<le> n"; cases "24 \<le> n"; cases "16 \<le> n"; cases "8 \<le> n") (auto simp: bit_simps)
qed

definition placed :: "bmem \<Rightarrow> nat \<Rightarrow> nat \<Rightarrow> (nat \<Rightarrow> byte) \<Rightarrow> bmem" where
  "placed m a n f = (\<lambda>x. if a \<le> unat x \<and> unat x < a + n then f (unat x - a) else m x)"

lemma placed_0 [simp]: "placed m a 0 f = m"
  by (auto simp: placed_def fun_eq_iff)

lemma in_region:
  fixes a x :: u32
  assumes "unat a + n \<le> 2 ^ 32"
  shows "unat (x - a) < n \<longleftrightarrow> unat a \<le> unat x \<and> unat x < unat a + n" "unat a \<le> unat x \<Longrightarrow> unat (x - a) = unat x - unat a"
proof -
  show d: "unat (x - a) = unat x - unat a" if "unat a \<le> unat x" using that by (simp add: unat_sub word_le_nat_alt)
  show "unat (x - a) < n \<longleftrightarrow> unat a \<le> unat x \<and> unat x < unat a + n"
  proof (cases "unat a \<le> unat x")
    case False
    then have "unat (x - a) = unat x + 2 ^ 32 - unat a" by (simp add: unat_sub_if_size word_size word_le_nat_alt)
    then show ?thesis using assms False by linarith
  qed (use d in auto)
qed

lemma placed_bytes:
  assumes "unat a + length bs \<le> 2 ^ 32"
  shows "put_bytes m a bs = placed m (unat a) (length bs) (\<lambda>i. bs ! i)"
  using in_region [OF assms] by (simp add: put_bytes_def placed_def fun_eq_iff)

lemma readsect_run:
  assumes "2 \<le> ready s" "unat off < 2 ^ 28" "length (sectors s off) = 512" "unat dst + 512 \<le> 2 ^ 32"
  shows "\<exists>s'. readsect dst off s = Ret () s' \<and> ram s' = placed (ram s) (unat dst) 512 (\<lambda>i. sectors s off ! i) \<and>
    sectors s' = sectors s \<and> jumped s' = jumped s \<and> ready s' = ready s - 2"
proof -
  obtain rs where rs: "waitdisk s = Ret () (s\<lparr>ata_status := rs\<rparr>)" "length (filter (\<lambda>r. r AND 0xC0 = 0x40) rs) = ready s - 1"
    using waitdisk_run [of s] assms(1) by auto
  define port where "port = (ata_port s)(0x1F2 := 1, 0x1F3 := ucast off, 0x1F4 := ucast (drop_bit 8 off), 0x1F5 := ucast (drop_bit 16 off),
    0x1F6 := ucast (drop_bit 24 off OR 0xE0), 0x1F7 := 0x20)"
  define s1 where "s1 = s\<lparr>ata_status := rs, ata_port := port\<rparr>"
  have "0 < ready s1" using rs(2) assms(1) by (simp add: ready_def s1_def)
  then obtain qs where qs: "waitdisk s1 = Ret () (s1\<lparr>ata_status := qs\<rparr>)" "length (filter (\<lambda>r. r AND 0xC0 = 0x40) qs) = ready s1 - 1"
    using waitdisk_run by blast
  have lba: "ata_lba port = off" using lba_roundtrip [OF assms(2)] by (simp add: ata_lba_def port_def)
  have "readsect dst off s = Ret () (s1\<lparr>ata_status := qs, ram := put_bytes (ram s) dst (sectors s off)\<rparr>)"
    using rs(1) qs(1) lba unfolding s1_def port_def by (simp add: readsect_def bindK_def ata_outb_def insl_def)
  moreover have "ready s1 = ready s - 1" using rs(2) by (simp add: ready_def s1_def)
  ultimately show ?thesis using qs(2) placed_bytes [of dst "sectors s off" "ram s"] assms(3,4)
    by (intro exI [of _ "s1\<lparr>ata_status := qs, ram := put_bytes (ram s) dst (sectors s off)\<rparr>"]) (simp add: s1_def ready_def)
qed

text \<open>The loop of \<open>readseg\<close>, with \<open>n\<close> sectors to read from sector \<open>q\<close> on to the address \<open>a\<close>.\<close>

definition sector_bytes :: "(u32 \<Rightarrow> byte list) \<Rightarrow> nat \<Rightarrow> nat \<Rightarrow> byte" where
  "sector_bytes sec q j = sec (of_nat (q + j div 512)) ! (j mod 512)"

lemma sector_bytes_Suc: "512 \<le> j \<Longrightarrow> sector_bytes sec q j = sector_bytes sec (q + 1) (j - 512)"
proof -
  assume "512 \<le> j"
  then obtain k where "j = k + 512" by (metis le_add_diff_inverse2)
  moreover have "(k + 512) div 512 = k div 512 + 1" by simp
  ultimately show ?thesis by (simp add: sector_bytes_def ac_simps del: div_add_self2)
qed

lemma readseg_loop_run:
  assumes "e \<le> a + 512 * n" "n = 0 \<or> a + 512 * n < e + 512" "a + 512 * n < 2 ^ 32" "q + n \<le> 2 ^ 28" "2 * n \<le> ready s" "\<And>k. length (sectors s k) = 512"
  shows "\<exists>s'. readseg_loop (of_nat a) (of_nat e) (of_nat q) s = Ret () s' \<and> ram s' = placed (ram s) a (512 * n) (sector_bytes (sectors s) q) \<and>
    sectors s' = sectors s \<and> jumped s' = jumped s \<and> ready s' = ready s - 2 * n"
  using assms
proof (induction n arbitrary: a q s)
  case 0
  have u: "unat (of_nat a :: u32) = a" "unat (of_nat e :: u32) = e" by (rule unat_of_nat_u32, use 0 in simp)+
  have "\<not> (of_nat a :: u32) < of_nat e" using 0(1) by (simp add: word_less_nat_alt u)
  then show ?case by (subst readseg_loop.simps) simp
next
  case (Suc n)
  have u: "unat (of_nat a :: u32) = a" "unat (of_nat e :: u32) = e" "unat (of_nat q :: u32) = q" by (rule unat_of_nat_u32, use Suc.prems in simp)+
  have lt: "(of_nat a :: u32) < of_nat e" using Suc.prems(2) by (simp add: word_less_nat_alt u)
  have "\<exists>s1. readsect (of_nat a) (of_nat q) s = Ret () s1 \<and> ram s1 = placed (ram s) (unat (of_nat a :: u32)) 512 (\<lambda>i. sectors s (of_nat q) ! i) \<and>
    sectors s1 = sectors s \<and> jumped s1 = jumped s \<and> ready s1 = ready s - 2"
    by (rule readsect_run) (use Suc.prems u in simp_all)
  then obtain s1 where s1: "readsect (of_nat a) (of_nat q) s = Ret () s1" "ram s1 = placed (ram s) a 512 (\<lambda>i. sectors s (of_nat q) ! i)"
    "sectors s1 = sectors s" "jumped s1 = jumped s" "ready s1 = ready s - 2" unfolding u by blast
  have "\<exists>s2. readseg_loop (of_nat (a + 512)) (of_nat e) (of_nat (q + 1)) s1 = Ret () s2 \<and> ram s2 = placed (ram s1) (a + 512) (512 * n) (sector_bytes (sectors s1) (q + 1)) \<and>
    sectors s2 = sectors s1 \<and> jumped s2 = jumped s1 \<and> ready s2 = ready s1 - 2 * n"
    by (rule Suc.IH) (use Suc.prems s1(3,5) in auto)
  then obtain s2 where s2: "readseg_loop (of_nat a + 512) (of_nat e) (of_nat q + 1) s1 = Ret () s2" "ram s2 = placed (ram s1) (a + 512) (512 * n) (sector_bytes (sectors s) (q + 1))"
    "sectors s2 = sectors s" "jumped s2 = jumped s" "ready s2 = ready s - 2 * Suc n" using s1(3-5) by (auto simp: add.commute)
  have "ram s2 x = placed (ram s) a (512 * Suc n) (sector_bytes (sectors s) q) x" for x
    using sector_bytes_Suc [of "unat x - a" "sectors s" q] unfolding s2(2) s1(2) by (auto simp: placed_def sector_bytes_def)
  then show ?case using lt s1(1) s2 by (subst readseg_loop.simps) (auto simp: fun_eq_iff)
qed

section \<open>Segments\<close>

text \<open>The bytes of the kernel file, which starts at sector 1.\<close>

definition kernel_file :: "(u32 \<Rightarrow> byte list) \<Rightarrow> nat \<Rightarrow> byte" where
  "kernel_file sec = sector_bytes sec 1"

lemma sector_bytes_image: "sector_bytes sec (o' div 512 + 1) j = kernel_file sec (512 * (o' div 512) + j)"
proof -
  have "(512 * (o' div 512) + j) div 512 = o' div 512 + j div 512" by simp
  then show ?thesis by (simp add: kernel_file_def sector_bytes_def ac_simps)
qed

definition nsectors :: "nat \<Rightarrow> nat \<Rightarrow> nat" where
  "nsectors off cnt = (off mod 512 + cnt + 511) div 512"

lemma nsectors_bounds: "off mod 512 + cnt \<le> 512 * nsectors off cnt" "nsectors off cnt = 0 \<or> 512 * nsectors off cnt < off mod 512 + cnt + 512"
  unfolding nsectors_def by linarith+

lemma unat_eqD: "unat x = n \<Longrightarrow> (x :: u32) = of_nat n"
  by auto

lemma readseg_run:
  fixes pa cnt off :: u32
  defines "r \<equiv> unat off mod 512" and "n \<equiv> nsectors (unat off) (unat cnt)"
  assumes "r \<le> unat pa" "unat pa - r + 512 * n < 2 ^ 32" "unat off div 512 + 1 + n \<le> 2 ^ 28" "2 * n \<le> ready s" "\<And>k. length (sectors s k) = 512"
  shows "\<exists>s'. readseg pa cnt off s = Ret () s' \<and> ram s' = placed (ram s) (unat pa - r) (512 * n) (\<lambda>j. kernel_file (sectors s) (512 * (unat off div 512) + j)) \<and>
    sectors s' = sectors s \<and> jumped s' = jumped s \<and> ready s' = ready s - 2 * n"
proof -
  note b = nsectors_bounds [of "unat off" "unat cnt", folded n_def r_def]
  have e: "unat pa + unat cnt < 2 ^ 32" using b(1) assms(3,4) by linarith
  have "unat (off mod 512) = r" by (simp add: r_def unat_mod)
  then have "unat (pa - off mod 512) = unat pa - r" using assms(3) by (simp add: unat_sub word_le_nat_alt)
  then have 1: "pa - off mod 512 = of_nat (unat pa - r)" by (rule unat_eqD)
  have 2: "pa + cnt = of_nat (unat pa + unat cnt)" by simp
  have "unat (off div 512 + 1) = unat off div 512 + 1" using assms(5) by (simp add: unat_word_ariths unat_div)
  then have 3: "off div 512 + 1 = of_nat (unat off div 512 + 1)" by (rule unat_eqD)
  have "\<exists>s'. readseg_loop (of_nat (unat pa - r)) (of_nat (unat pa + unat cnt)) (of_nat (unat off div 512 + 1)) s = Ret () s' \<and>
    ram s' = placed (ram s) (unat pa - r) (512 * n) (sector_bytes (sectors s) (unat off div 512 + 1)) \<and>
    sectors s' = sectors s \<and> jumped s' = jumped s \<and> ready s' = ready s - 2 * n"
    by (rule readseg_loop_run) (use b assms(3-7) in auto)
  moreover have "sector_bytes (sectors s) (unat off div 512 + 1) = (\<lambda>j. kernel_file (sectors s) (512 * (unat off div 512) + j))"
    by (rule ext, rule sector_bytes_image)
  ultimately show ?thesis unfolding readseg_def Let_def 1 2 3 by simp
qed

text \<open>A segment of the file: physical address, offset in the file, size in the file and in memory.\<close>

record segment =
  paddr :: u32
  seg_off :: u32
  filesz :: u32
  memsz :: u32

definition seg_start :: "segment \<Rightarrow> nat" where
  "seg_start g = unat (paddr g) - unat (seg_off g) mod 512"

definition seg_sectors :: "segment \<Rightarrow> nat" where
  "seg_sectors g = nsectors (unat (seg_off g)) (unat (filesz g))"

definition seg_ok :: "segment \<Rightarrow> bool" where
  "seg_ok g \<longleftrightarrow> 0x11000 + unat (seg_off g) mod 512 \<le> unat (paddr g) \<and> seg_start g + 512 * seg_sectors g < 2 ^ 32 \<and>
     unat (paddr g) + unat (memsz g) < 2 ^ 32 \<and> unat (seg_off g) div 512 + 1 + seg_sectors g \<le> 2 ^ 28"

definition seg_loaded :: "bmem \<Rightarrow> (nat \<Rightarrow> byte) \<Rightarrow> segment \<Rightarrow> bool" where
  "seg_loaded m f g \<longleftrightarrow> (\<forall>j < unat (filesz g). m (paddr g + of_nat j) = f (unat (seg_off g) + j)) \<and>
     (\<forall>j. unat (filesz g) \<le> j \<and> j < unat (memsz g) \<longrightarrow> m (paddr g + of_nat j) = 0)"

text \<open>A header without bytes, as the one for the stack that linkers emit: nothing is read and nothing is cleared.\<close>

definition seg_empty :: "segment \<Rightarrow> bool" where
  "seg_empty g \<longleftrightarrow> filesz g = 0 \<and> memsz g = 0 \<and> unat (seg_off g) mod 512 = 0"

definition header_at :: "bmem \<Rightarrow> u32 \<Rightarrow> segment \<Rightarrow> bool" where
  "header_at m ph g \<longleftrightarrow> load32 m (ph + 12) = paddr g \<and> load32 m (ph + 4) = seg_off g \<and> load32 m (ph + 16) = filesz g \<and> load32 m (ph + 20) = memsz g"

lemma load32_low:
  assumes "\<And>x. unat x < b \<Longrightarrow> m' x = m x" "unat a + 4 \<le> b" "b \<le> 2 ^ 32"
  shows "load32 m' a = load32 m a"
proof -
  have "unat (a + 1) = unat a + 1" "unat (a + 2) = unat a + 2" "unat (a + 3) = unat a + 3" using assms(2,3) by (simp_all add: unat_word_ariths)
  then show ?thesis using assms(1,2) by (simp add: load32_def)
qed

lemma load_segment_run:
  assumes h: "header_at (ram s) ph g" "unat ph + 32 \<le> 0x11000" and ok: "seg_ok g" "2 * seg_sectors g \<le> ready s" "\<And>k. length (sectors s k) = 512"
  shows "\<exists>s'. load_segment ph s = Ret () s' \<and> seg_loaded (ram s') (kernel_file (sectors s)) g \<and> (\<forall>x. unat x < seg_start g \<longrightarrow> ram s' x = ram s x) \<and>
    sectors s' = sectors s \<and> jumped s' = jumped s \<and> ready s' = ready s - 2 * seg_sectors g"
proof -
  let ?p = "unat (paddr g)" and ?o = "unat (seg_off g)" and ?c = "unat (filesz g)" and ?m = "unat (memsz g)" and ?f = "kernel_file (sectors s)"
  have "0x11000 + ?o mod 512 \<le> ?p" using ok(1) by (simp add: seg_ok_def)
  then have st: "0x11000 \<le> seg_start g" "seg_start g + ?o mod 512 = ?p" unfolding seg_start_def by linarith+
  note b = nsectors_bounds(1) [of ?o ?c, folded seg_sectors_def]
  obtain s1 where s1: "readseg (paddr g) (filesz g) (seg_off g) s = Ret () s1" "ram s1 = placed (ram s) (seg_start g) (512 * seg_sectors g) (\<lambda>j. ?f (512 * (?o div 512) + j))"
    "sectors s1 = sectors s" "jumped s1 = jumped s" "ready s1 = ready s - 2 * seg_sectors g"
    using readseg_run [of "seg_off g" "paddr g" "filesz g" s] ok unfolding seg_ok_def seg_start_def seg_sectors_def by auto
  have low: "ram s1 x = ram s x" if "unat x < seg_start g" for x using that by (simp add: s1(2) placed_def)
  have u: "unat (ph + 16) = unat ph + 16" "unat (ph + 20) = unat ph + 20" using h(2) by (simp_all add: unat_word_ariths)
  have hdr: "load32 (ram s1) (ph + 16) = filesz g" "load32 (ram s1) (ph + 20) = memsz g"
    using load32_low [of "seg_start g" "ram s1" "ram s", OF low, of "ph + 16"] load32_low [of "seg_start g" "ram s1" "ram s", OF low, of "ph + 20"] h st ok(1) u
    by (simp_all add: header_at_def seg_ok_def)
  define s2 where "s2 = (if filesz g < memsz g then s1\<lparr>ram := stosb (ram s1) (paddr g + filesz g) 0 (unat (memsz g - filesz g))\<rparr> else s1)"
  have run: "load_segment ph s = Ret () s2" using h(1) s1(1) hdr by (simp add: load_segment_def bindK_def header_at_def s2_def)
  have m: "ram s2 x = (if ?p + ?c \<le> unat x \<and> unat x < ?p + ?m then 0 else ram s1 x)" for x
  proof (cases "filesz g < memsz g")
    case True
    then have d: "?c < ?m" "unat (memsz g - filesz g) = ?m - ?c" by (simp_all add: unat_sub word_less_nat_alt word_le_nat_alt)
    then have "unat (paddr g + filesz g) = ?p + ?c" using ok(1) by (simp add: unat_word_ariths seg_ok_def)
    moreover from this d have "unat (paddr g + filesz g) + (?m - ?c) \<le> 2 ^ 32" using ok(1) by (simp add: seg_ok_def)
    ultimately show ?thesis using True d stosb_eq [of "?m - ?c" "ram s1" "paddr g + filesz g" 0] in_region(1) [of "paddr g + filesz g" "?m - ?c" x]
      by (simp add: s2_def)
  next
    case False
    then show ?thesis by (auto simp: s2_def word_less_nat_alt)
  qed
  have a: "unat (paddr g + of_nat j) = ?p + j" if "j < ?c \<or> j < ?m" for j
  proof -
    have "?p + j < 2 ^ 32" using that ok(1) b st by (auto simp: seg_ok_def)
    then show ?thesis by (simp add: unat_word_ariths unat_of_nat)
  qed
  have "ram s2 (paddr g + of_nat j) = ?f (?o + j)" if "j < ?c" for j
  proof -
    have "?p + j - seg_start g = ?o mod 512 + j" "seg_start g \<le> ?p + j" "?p + j < seg_start g + 512 * seg_sectors g" using st b that by linarith+
    then show ?thesis using that a [of j] by (simp add: m s1(2) placed_def)
  qed
  then have "seg_loaded (ram s2) ?f g" using a by (simp add: seg_loaded_def m)
  moreover have "ram s2 x = ram s x" if "unat x < seg_start g" for x using that low st by (simp add: m)
  ultimately show ?thesis using run s1(3-5) by (intro exI [of _ s2]) (simp add: s2_def ready_def)
qed

lemma load_segment_empty:
  assumes "header_at (ram s) ph g" "seg_empty g"
  shows "load_segment ph s = Ret () s" "seg_sectors g = 0" "seg_loaded m f g"
proof -
  have "unat (seg_off g mod 512) = 0" using assms(2) by (simp add: seg_empty_def unat_mod)
  then have "seg_off g mod 512 = 0" by (simp add: unat_eq_0)
  then have "readseg (paddr g) 0 (seg_off g) s = Ret () s" by (simp add: readseg_def readseg_loop.simps)
  then show "load_segment ph s = Ret () s" using assms by (simp add: load_segment_def bindK_def header_at_def seg_empty_def)
qed (use assms(2) in \<open>simp_all add: seg_empty_def seg_sectors_def nsectors_def seg_loaded_def\<close>)

definition seg_end :: "segment \<Rightarrow> nat" where
  "seg_end g = unat (paddr g) + max (unat (filesz g)) (unat (memsz g))"

lemma seg_loaded_low:
  assumes "seg_loaded m f g" "seg_ok g" "\<And>x. unat x < seg_end g \<Longrightarrow> m' x = m x"
  shows "seg_loaded m' f g"
proof -
  let ?p = "unat (paddr g)"
  have "m' (paddr g + of_nat j) = m (paddr g + of_nat j)" if j: "j < unat (filesz g) \<or> j < unat (memsz g)" for j
  proof -
    have "?p + unat (filesz g) < 2 ^ 32"
      using nsectors_bounds(1) [of "unat (seg_off g)" "unat (filesz g)"] assms(2) unfolding seg_ok_def seg_start_def seg_sectors_def by linarith
    then have "?p + j < 2 ^ 32" using j assms(2) by (auto simp: seg_ok_def)
    then have "unat (paddr g + of_nat j) = ?p + j" by (simp add: unat_word_ariths unat_of_nat)
    then show ?thesis using assms(3) j by (auto simp: seg_end_def)
  qed
  then show ?thesis using assms(1) by (simp add: seg_loaded_def)
qed

abbreviation filled :: "segment list \<Rightarrow> segment list" where
  "filled gs \<equiv> filter (\<lambda>g. \<not> seg_empty g) gs"

lemma seg_ok_start: "seg_ok g \<Longrightarrow> 0x11000 \<le> seg_start g"
  unfolding seg_ok_def seg_start_def by linarith

lemma header_low:
  assumes "\<And>x. unat x < 0x11000 \<Longrightarrow> m' x = m x" "header_at m p g" "unat p + 32 \<le> 0x11000"
  shows "header_at m' p g"
proof -
  have "unat (p + 12) = unat p + 12" "unat (p + 4) = unat p + 4" "unat (p + 16) = unat p + 16" "unat (p + 20) = unat p + 20" using assms(3) by (simp_all add: unat_word_ariths)
  then show ?thesis using load32_low [of "0x11000" m' m, OF assms(1)] assms(2,3) by (simp add: header_at_def)
qed

lemma load_segments_run:
  assumes "list_all2 (\<lambda>ph g. header_at (ram s) ph g \<and> unat ph + 32 \<le> 0x11000) phs gs" "list_all seg_ok (filled gs)"
    "sorted_wrt (\<lambda>g h. seg_end g \<le> seg_start h) (filled gs)" "2 * (\<Sum>g\<leftarrow>gs. seg_sectors g) \<le> ready s" "\<And>k. length (sectors s k) = 512"
  shows "\<exists>s'. forK phs load_segment s = Ret () s' \<and> (\<forall>g \<in> set gs. seg_loaded (ram s') (kernel_file (sectors s)) g) \<and>
    (\<forall>x. (\<forall>g \<in> set (filled gs). unat x < seg_start g) \<longrightarrow> ram s' x = ram s x) \<and> jumped s' = jumped s"
  using assms
proof (induction gs arbitrary: phs s rule: list.induct)
  case Nil
  from Nil.prems(1) have "phs = []" by (cases phs) simp_all
  then show ?case by auto
next
  case (Cons g gs)
  obtain ph rest where phs: "phs = ph # rest" using Cons.prems(1) by (cases phs) auto
  have h: "header_at (ram s) ph g" "unat ph + 32 \<le> 0x11000" using Cons.prems(1) phs by simp_all
  show ?case
  proof (cases "seg_empty g")
    case True
    note e = load_segment_empty [OF h(1) True]
    have "\<exists>s'. forK rest load_segment s = Ret () s' \<and> (\<forall>g \<in> set gs. seg_loaded (ram s') (kernel_file (sectors s)) g) \<and>
      (\<forall>x. (\<forall>g \<in> set (filled gs). unat x < seg_start g) \<longrightarrow> ram s' x = ram s x) \<and> jumped s' = jumped s"
      by (rule Cons.IH) (use Cons.prems phs True e(2) in auto)
    then show ?thesis using e phs True by (auto simp: bindK_def)
  next
    case False
    then have ok: "seg_ok g" using Cons.prems(2) by simp
    obtain s1 where s1: "load_segment ph s = Ret () s1" "seg_loaded (ram s1) (kernel_file (sectors s)) g" "\<And>x. unat x < seg_start g \<Longrightarrow> ram s1 x = ram s x"
      "sectors s1 = sectors s" "jumped s1 = jumped s" "ready s1 = ready s - 2 * seg_sectors g"
      using load_segment_run [OF h ok] Cons.prems(4,5) by auto
    have low: "ram s1 x = ram s x" if "unat x < 0x11000" for x using s1(3) seg_ok_start [OF ok] that by simp
    have "list_all2 (\<lambda>ph g. header_at (ram s1) ph g \<and> unat ph + 32 \<le> 0x11000) rest gs"
      using Cons.prems(1) phs header_low [of "ram s1" "ram s", OF low] by (auto elim!: list_all2_mono)
    moreover have "2 * (\<Sum>g\<leftarrow>gs. seg_sectors g) \<le> ready s1" using Cons.prems(4) s1(6) by simp
    ultimately obtain s2 where s2: "forK rest load_segment s1 = Ret () s2" "\<forall>g \<in> set gs. seg_loaded (ram s2) (kernel_file (sectors s)) g"
      "\<forall>x. (\<forall>g \<in> set (filled gs). unat x < seg_start g) \<longrightarrow> ram s2 x = ram s1 x" "jumped s2 = jumped s"
      using Cons.IH [of s1 rest] Cons.prems(2,3,5) s1(4,5) False by auto
    have "seg_loaded (ram s2) (kernel_file (sectors s)) g"
    proof (rule seg_loaded_low [OF s1(2) ok])
      fix x :: u32 assume "unat x < seg_end g"
      then have "\<forall>h \<in> set (filled gs). unat x < seg_start h" using Cons.prems(3) False by auto
      then show "ram s2 x = ram s1 x" using s2(3) by simp
    qed
    then show ?thesis using s1 s2 phs False by (auto simp: bindK_def)
  qed
qed

section \<open>The boot loader\<close>

definition file32 :: "(nat \<Rightarrow> byte) \<Rightarrow> nat \<Rightarrow> u32" where
  "file32 f j = ucast (f j) OR push_bit 8 (ucast (f (j + 1))) OR push_bit 16 (ucast (f (j + 2))) OR push_bit 24 (ucast (f (j + 3)))"

definition file16 :: "(nat \<Rightarrow> byte) \<Rightarrow> nat \<Rightarrow> u16" where
  "file16 f j = ucast (f j) OR push_bit 8 (ucast (f (j + 1)))"

definition file_segs :: "(nat \<Rightarrow> byte) \<Rightarrow> segment list" where
  "file_segs f = map (\<lambda>k. let h = unat (file32 f 28) + 32 * k in
     \<lparr>paddr = file32 f (h + 12), seg_off = file32 f (h + 4), filesz = file32 f (h + 16), memsz = file32 f (h + 20)\<rparr>) [0..<unat (file16 f 44)]"

definition kernel_ok :: "(nat \<Rightarrow> byte) \<Rightarrow> bool" where
  "kernel_ok f \<longleftrightarrow> file32 f 0 = ELF_MAGIC \<and> unat (file32 f 28) + 32 * unat (file16 f 44) \<le> 4096 \<and> list_all seg_ok (filled (file_segs f)) \<and>
     sorted_wrt (\<lambda>g h. seg_end g \<le> seg_start h) (filled (file_segs f))"

lemma header_page:
  assumes "\<And>j. j < 4096 \<Longrightarrow> m (0x10000 + of_nat j) = f j"
  shows "j + 4 \<le> 4096 \<Longrightarrow> load32 m (0x10000 + of_nat j) = file32 f j" "j + 2 \<le> 4096 \<Longrightarrow> load16 m (0x10000 + of_nat j) = file16 f j"
  using assms [of j] assms [of "j + 1"] assms [of "j + 2"] assms [of "j + 3"]
  by (simp_all add: load32_def file32_def load16_def file16_def ac_simps)

lemma headers_in_page:
  assumes pg: "\<And>j. j < 4096 \<Longrightarrow> m (0x10000 + of_nat j) = f j" and n: "unat (file32 f 28) + 32 * unat (file16 f 44) \<le> 4096"
  defines "ph \<equiv> 0x10000 + file32 f 28"
  shows "list_all2 (\<lambda>p g. header_at m p g \<and> unat p + 32 \<le> 0x11000) (map (\<lambda>k. ph + 32 * of_nat k) [0..<unat (file16 f 44)]) (file_segs f)"
proof (rule list_all2_all_nthI)
  fix k assume k: "k < length (map (\<lambda>k. ph + 32 * of_nat k) [0..<unat (file16 f 44)])"
  define h where "h = unat (file32 f 28) + 32 * k"
  have h: "h + 32 \<le> 4096" using k n by (simp add: h_def)
  have "file32 f 28 + 32 * of_nat k = of_nat h" by (simp add: h_def)
  then have p: "ph + 32 * of_nat k = 0x10000 + of_nat h" by (simp add: ph_def add.assoc)
  have "unat (of_nat h :: u32) = h" by (rule unat_of_nat_u32) (use h in simp)
  then have ab: "unat (0x10000 + of_nat h :: u32) = 0x10000 + h" using h by (simp add: unat_word_ariths)
  have "file_segs f ! k = \<lparr>paddr = file32 f (h + 12), seg_off = file32 f (h + 4), filesz = file32 f (h + 16), memsz = file32 f (h + 20)\<rparr>"
    using k by (simp add: file_segs_def Let_def h_def)
  then have "header_at m (0x10000 + of_nat h) (file_segs f ! k)"
    using h header_page(1) [of m f, OF pg, of "h + 12"] header_page(1) [of m f, OF pg, of "h + 4"] header_page(1) [of m f, OF pg, of "h + 16"]
      header_page(1) [of m f, OF pg, of "h + 20"]
    by (simp add: header_at_def ac_simps)
  with ab show "header_at m (map (\<lambda>k. ph + 32 * of_nat k) [0..<unat (file16 f 44)] ! k) (file_segs f ! k) \<and>
      unat (map (\<lambda>k. ph + 32 * of_nat k) [0..<unat (file16 f 44)] ! k) + 32 \<le> 0x11000"
    using k h p by simp
qed (simp add: file_segs_def)

lemma bootmain_run:
  assumes "readseg 0x10000 4096 0 s = Ret () s1" "load32 (ram s1) 0x10000 = ELF_MAGIC" "load32 (ram s1) 0x1001C = off" "load16 (ram s1) 0x1002C = n"
    "0 < n \<Longrightarrow> 0x10000 + off < 0x10000 + off + 32 * ucast n"
    "forK (map (\<lambda>k. 0x10000 + off + 32 * of_nat k) [0..<unat n]) load_segment s1 = Ret () s2"
  shows "bootmain s = Ret () (s2\<lparr>jumped := Some (load32 (ram s2) 0x10018)\<rparr>)"
proof -
  have "[0..<(if 0x10000 + off < 0x10000 + off + 32 * ucast n then unat n else 0)] = [0..<unat n]" using assms(5) by (cases "n = 0") (auto simp: word_gt_0)
  then show ?thesis using assms(1-4,6) by (simp add: bootmain_def bindK_def Let_def)
qed

text \<open>
  C36: Booting. If sector 1 and the following hold an ELF file whose program headers lie in its first page and whose
  segments that have any bytes, extended down to a sector boundary of the file, lie above the loader's scratch page in increasing order
  without overlapping (headers without bytes have an offset at a sector boundary, and any address), and the disk becomes ready often enough, then the boot loader calls the entry
  point of the file with every segment in memory: its bytes from the file, and zeroes up to its size in
  memory.
\<close>

theorem bootmain_loads:
  assumes "kernel_ok (kernel_file (sectors s))" "\<And>k. length (sectors s k) = 512"
    "2 * (8 + (\<Sum>g\<leftarrow>file_segs (kernel_file (sectors s)). seg_sectors g)) \<le> ready s"
  shows "\<exists>s'. bootmain s = Ret () s' \<and> jumped s' = Some (file32 (kernel_file (sectors s)) 24) \<and>
    (\<forall>g \<in> set (file_segs (kernel_file (sectors s))). seg_loaded (ram s') (kernel_file (sectors s)) g)"
proof -
  define f where "f = kernel_file (sectors s)"
  have K: "file32 f 0 = ELF_MAGIC" "unat (file32 f 28) + 32 * unat (file16 f 44) \<le> 4096" "list_all seg_ok (filled (file_segs f))" "sorted_wrt (\<lambda>g h. seg_end g \<le> seg_start h) (filled (file_segs f))"
    using assms(1) by (simp_all add: kernel_ok_def f_def)
  let ?n = "file16 f 44" and ?ph = "0x10000 + file32 f 28"
  obtain s1 where s1: "readseg 0x10000 4096 0 s = Ret () s1" "ram s1 = placed (ram s) 0x10000 4096 f" "sectors s1 = sectors s" "ready s1 = ready s - 16"
    using readseg_run [of 0 "0x10000" 4096 s] assms(2,3) by (auto simp: nsectors_def f_def)
  have pg: "ram s1 (0x10000 + of_nat j) = f j" if "j < 4096" for j
  proof -
    have "unat (of_nat j :: u32) = j" by (rule unat_of_nat_u32) (use that in simp)
    then show ?thesis using that by (simp add: s1(2) placed_def unat_word_ariths)
  qed
  have "2 * (\<Sum>g\<leftarrow>file_segs f. seg_sectors g) \<le> ready s1" using assms(3) s1(4) by (simp add: f_def)
  then obtain s2 where s2: "forK (map (\<lambda>k. ?ph + 32 * of_nat k) [0..<unat ?n]) load_segment s1 = Ret () s2" "\<forall>g \<in> set (file_segs f). seg_loaded (ram s2) f g"
    "\<forall>x. (\<forall>g \<in> set (filled (file_segs f)). unat x < seg_start g) \<longrightarrow> ram s2 x = ram s1 x"
    using load_segments_run [OF headers_in_page [of "ram s1" f, OF pg K(2)] K(3,4)] s1(3) assms(2) by (auto simp: f_def)
  have "0x11000 \<le> seg_start g" if "g \<in> set (filled (file_segs f))" for g
    using that K(3) seg_ok_start unfolding list_all_iff by blast
  then have low: "ram s2 x = ram s1 x" if "unat x < 0x11000" for x using s2(3) that by (meson less_le_trans)
  have "load32 (ram s2) 0x10018 = load32 (ram s1) 0x10018" by (rule load32_low [of "0x11000", OF low]) simp_all
  then have e: "load32 (ram s2) 0x10018 = file32 f 24" using header_page(1) [of "ram s1" f, OF pg, of 24] by simp
  have w: "?ph < ?ph + 32 * ucast ?n" if "0 < ?n"
  proof -
    have "unat (ucast ?n :: u32) = unat ?n" using K(2) by (simp add: unsigned_ucast_eq take_bit_nat_eq_self)
    then have "unat (32 * ucast ?n :: u32) = 32 * unat ?n" using K(2) by (simp add: unat_word_ariths)
    moreover have "unat ?ph = 0x10000 + unat (file32 f 28)" using K(2) by (simp add: unat_word_ariths)
    ultimately show ?thesis using K(2) that by (simp add: word_less_nat_alt unat_word_ariths)
  qed
  have "bootmain s = Ret () (s2\<lparr>jumped := Some (load32 (ram s2) 0x10018)\<rparr>)"
    by (rule bootmain_run [OF s1(1) _ _ _ w s2(1)])
      (use header_page [of "ram s1" f, OF pg, of 0] header_page(1) [of "ram s1" f, OF pg, of 28] header_page(2) [of "ram s1" f, OF pg, of 44] K(1) in simp_all)
  then show ?thesis using e s2(2) by (simp add: f_def)
qed

text \<open>
  A disk with a kernel whose headers are those of the kernel in the repository: the text at 1 MB, the data at 0x109000, and a header
  without bytes for the stack. The text begins with the bytes of \<^verbatim>\<open>multiboot_header\<close>.
\<close>

definition boot_example :: boot where
  "boot_example = \<lparr>ram = (\<lambda>_. 0xFF),
     sectors = (\<lambda>k. if k = 1 then
         [0x7F, 0x45, 0x4C, 0x46] @ replicate 20 0 @ [0x0C, 0, 0x10, 0, 52, 0, 0, 0] @ replicate 12 0 @ [3, 0] @ replicate 6 0 @
         [1, 0, 0, 0, 0, 0x10, 0, 0, 0, 0, 0x10, 0x80, 0, 0, 0x10, 0, 0xDC, 0x85, 0, 0, 0xDC, 0x85, 0, 0, 5, 0, 0, 0, 0, 0x10, 0, 0] @
         [1, 0, 0, 0, 0, 0xA0, 0, 0, 0, 0x90, 0x10, 0x80, 0, 0x90, 0x10, 0, 0x16, 0x25, 0, 0, 0x10, 0xFF, 0, 0, 6, 0, 0, 0, 0, 0x10, 0, 0] @
         [0x51, 0xE5, 0x74, 0x64] @ replicate 20 0 @ [7, 0, 0, 0, 16, 0, 0, 0] @ replicate 364 0
       else if k = 9 then [0x02, 0xB0, 0xAD, 0x1B] @ replicate 508 9 else replicate 512 0),
     ata_port = (\<lambda>_. 0), ata_status = replicate 9 0x80 @ replicate 188 0x40, jumped = None\<rparr>"

theorem bootmain_loads_witness:
  "\<exists>s'. bootmain boot_example = Ret () s' \<and> jumped s' = Some 0x10000C \<and> map (ram s') [0x100000, 0x100001, 0x100002, 0x100003] = [0x02, 0xB0, 0xAD, 0x1B] \<and>
     ram s' 0x10B516 = 0"
proof -
  let ?f = "kernel_file (sectors boot_example)"
  let ?text = "\<lparr>paddr = 0x100000, seg_off = 0x1000, filesz = 0x85DC, memsz = 0x85DC\<rparr>" and ?data = "\<lparr>paddr = 0x109000, seg_off = 0xA000, filesz = 0x2516, memsz = 0xFF10\<rparr>"
  note F = file32_def file16_def kernel_file_def sector_bytes_def boot_example_def nth_append
  have e: "file32 ?f 24 = 0x10000C" "?f 4096 = 0x02" "?f 4097 = 0xB0" "?f 4098 = 0xAD" "?f 4099 = 0x1B" by (simp_all add: F)
  have h: "file32 ?f 0 = ELF_MAGIC" "file32 ?f 28 = 52" "file16 ?f 44 = 3" by (simp_all add: F)
  have 1: "file32 ?f 64 = 0x100000" "file32 ?f 56 = 0x1000" "file32 ?f 68 = 0x85DC" "file32 ?f 72 = 0x85DC" by (simp_all add: F)
  have 2: "file32 ?f 96 = 0x109000" "file32 ?f 88 = 0xA000" "file32 ?f 100 = 0x2516" "file32 ?f 104 = 0xFF10" by (simp_all add: F)
  have 3: "file32 ?f 128 = 0" "file32 ?f 120 = 0" "file32 ?f 132 = 0" "file32 ?f 136 = 0" by (simp_all add: F)
  have "[0..<3] = [0, 1, 2]" by (simp add: upt_rec)
  then have g: "file_segs ?f = [?text, ?data, \<lparr>paddr = 0, seg_off = 0, filesz = 0, memsz = 0\<rparr>]" using h 1 2 3 by (simp add: file_segs_def)
  then have "filled (file_segs ?f) = [?text, ?data]" by (simp add: seg_empty_def)
  then have k: "kernel_ok ?f" using h by (simp add: kernel_ok_def seg_ok_def seg_start_def seg_end_def seg_sectors_def nsectors_def)
  have r: "2 * (8 + (\<Sum>g\<leftarrow>file_segs ?f. seg_sectors g)) \<le> ready boot_example"
    unfolding g by (simp add: seg_sectors_def nsectors_def ready_def boot_example_def)
  have l: "length (sectors boot_example k) = 512" for k by (simp add: boot_example_def)
  from bootmain_loads [OF k l r] obtain s' where s': "bootmain boot_example = Ret () s'" "jumped s' = Some 0x10000C"
    "seg_loaded (ram s') ?f ?text" "seg_loaded (ram s') ?f ?data" unfolding g e(1) by auto
  have t: "ram s' (0x100000 + of_nat j) = ?f (4096 + j)" if "j < 0x85DC" for j using s'(3) that by (simp add: seg_loaded_def)
  have "ram s' (0x109000 + of_nat j) = 0" if "0x2516 \<le> j" "j < 0xFF10" for j using s'(4) that by (simp add: seg_loaded_def)
  from this [of "0x2516"] show ?thesis using s'(1,2) e t [of 0] t [of 1] t [of 2] t [of 3] by simp
qed

end
