(* ===== verification/Mp.thy ===== *)
theory Mp
  imports Trap Msg_Props
begin

text \<open>
  Finding the processors, \<^verbatim>\<open>mp.c\<close>, and the state of the machine around the processor: \<^verbatim>\<open>cpus[]\<close> (the
  fields \<^verbatim>\<open>apicid\<close> and \<^verbatim>\<open>started\<close>), \<^verbatim>\<open>ncpu\<close>, \<^verbatim>\<open>ioapicid\<close> and \<^verbatim>\<open>lapic\<close>; \<open>gdt\<close> and \<open>idt\<close> are the descriptor
  tables of \<^verbatim>\<open>vm.c\<close> and \<^verbatim>\<open>trap.c\<close>. Every processor has its own \<open>gdt\<close>, as in the code.

  The devices are seen through their registers: \<open>dev_log\<close> is what has been
  written to which register, in order. An element of \<open>dev_in\<close> is what the registers of the devices hold at one instant; the \<open>n\<close>-th read is answered from
  the \<open>n\<close>-th instant, with the value of the register it names. A machine
  that answers no more is waited for forever. The port \<open>0x71\<close> gives the register of the clock that was last written to port \<open>0x70\<close>, and the
  data register of the I/O APIC the one last selected.

  The configuration table is read in the memory of the kernel model. Its entries are scanned at
  offsets \<open>k\<close> from its start, which do not wrap around below the end of the address space. The property says what
  the scan records, and that it never ends when it meets an entry of unknown type.
\<close>

section \<open>Devices\<close>

datatype access = Out8 u16 byte | LapicWr nat u32 | IoapicReg u32 | IoapicData u32 | Lgdt u16 | Lidt u16

datatype source = Port u16 | Cmos byte | LapicReg nat | IoapicVal u32

record kplat = ksys +
  cpu_apicid :: "byte list"
  cpu_started :: "bool list"
  ncpu :: nat
  ioapicid :: byte
  lapic_base :: u32
  gdt :: "64 word list list"
  idt :: "64 word list"
  dev_log :: "access list"
  dev_in :: "(source \<Rightarrow> u32) list"

abbreviation (input) NCPU :: nat where "NCPU \<equiv> 8"

definition reg_write :: "access \<Rightarrow> ('z kplat_scheme, unit) kop" where
  "reg_write a = modK (\<lambda>s. s\<lparr>dev_log := dev_log s @ [a]\<rparr>)"

definition reg_read :: "source \<Rightarrow> ('z kplat_scheme, u32) kop" where
  "reg_read r s = (case dev_in s of [] \<Rightarrow> Diverge | v # vs \<Rightarrow> Ret (v r) (s\<lparr>dev_in := vs\<rparr>))"

definition cmos_selected :: "access list \<Rightarrow> byte" where
  "cmos_selected l = fold (\<lambda>a r. case a of Out8 p x \<Rightarrow> if p = 0x70 then x else r | _ \<Rightarrow> r) l 0"

definition ioapic_selected :: "access list \<Rightarrow> u32" where
  "ioapic_selected l = fold (\<lambda>a r. case a of IoapicReg x \<Rightarrow> x | _ \<Rightarrow> r) l 0"

definition out8 :: "u16 \<Rightarrow> byte \<Rightarrow> ('z kplat_scheme, unit) kop" where
  "out8 p x = reg_write (Out8 p x)"

definition in8 :: "u16 \<Rightarrow> ('z kplat_scheme, byte) kop" where
  "in8 p =
     bindK (getK (\<lambda>s. cmos_selected (dev_log s))) (\<lambda>r.
     bindK (reg_read (if p = 0x71 then Cmos r else Port p)) (\<lambda>v.
     retK (ucast v)))"

section \<open>The configuration table\<close>

definition mp_sum :: "bmem \<Rightarrow> u32 \<Rightarrow> nat \<Rightarrow> byte" where
  "mp_sum m addr len = ucast (fold (\<lambda>i (sum :: u32). sum + ucast (m (addr + of_nat i))) [0..<len] 0)"

text \<open>The addresses that the loop of \<open>mpsearch1\<close> visits.\<close>

definition mp_addrs :: "u32 \<Rightarrow> nat \<Rightarrow> u32 list" where
  "mp_addrs addr len = (if addr < addr + of_nat len then map (\<lambda>k. addr + of_nat (16 * k)) [0..<(len + 15) div 16] else [])"

definition mpsearch1 :: "bmem \<Rightarrow> u32 \<Rightarrow> nat \<Rightarrow> u32" where
  "mpsearch1 m a len =
     (case find (\<lambda>p. bytes_at m p 4 = bytes ''_MP_'' \<and> mp_sum m p 16 = 0) (mp_addrs (P2V a) len) of
        Some p \<Rightarrow> p
      | None \<Rightarrow> 0)"

definition mpsearch :: "bmem \<Rightarrow> u32" where
  "mpsearch m =
     (let bda = P2V 0x400;
          p = push_bit 4 (push_bit 8 (ucast (m (bda + 0x0F))) OR ucast (m (bda + 0x0E)));
          mp = (if p \<noteq> 0 then mpsearch1 m p 1024
                else let p = (push_bit 8 (ucast (m (bda + 0x14))) OR ucast (m (bda + 0x13))) * 1024 in mpsearch1 m (p - 1024) 1024)
      in if mp \<noteq> 0 then mp else mpsearch1 m 0xF0000 0x10000)"

definition conf_length :: "bmem \<Rightarrow> u32 \<Rightarrow> nat" where
  "conf_length m conf = unat (m (conf + 4)) + 256 * unat (m (conf + 5))"

text \<open>The floating pointer structure and the table it leads to.\<close>

definition mpconfig :: "bmem \<Rightarrow> (u32 \<times> u32) option" where
  "mpconfig m =
     (let mp = mpsearch m in
      if mp = 0 \<or> load32 m (mp + 4) = 0 then None
      else
        let conf = P2V (load32 m (mp + 4)) in
        if bytes_at m conf 4 \<noteq> bytes ''PCMP'' then None
        else if m (conf + 6) \<noteq> 1 \<and> m (conf + 6) \<noteq> 4 then None
        else if mp_sum m conf (conf_length m conf) \<noteq> 0 then None
        else Some (mp, conf))"

text \<open>
  The loop of \<open>mpinit\<close>. An entry of a type that is not known leaves the \<^verbatim>\<open>switch\<close> but neither the loop
  nor the place in the table.
\<close>

function mp_entries :: "u32 \<Rightarrow> nat \<Rightarrow> nat \<Rightarrow> ('z kplat_scheme, unit) kop" where
  "mp_entries conf len k s =
     (if k < len then
        let p = conf + of_nat k; ty = mem s p in
        if ty = 0 then
          mp_entries conf len (k + 20)
            (if ncpu s < NCPU then s\<lparr>cpu_apicid := (cpu_apicid s)[ncpu s := mem s (p + 1)], ncpu := ncpu s + 1\<rparr> else s)
        else if ty = 2 then mp_entries conf len (k + 8) (s\<lparr>ioapicid := mem s (p + 1)\<rparr>)
        else if ty = 1 \<or> ty = 3 \<or> ty = 4 then mp_entries conf len (k + 8) s
        else Diverge
      else Ret () s)"
  by pat_completeness auto
termination by (relation "measure (\<lambda>(conf, len, k, s). len - k)") auto

declare mp_entries.simps [simp del]

definition mpinit :: "('z kplat_scheme, unit) kop" where
  "mpinit =
     bindK (getK (\<lambda>s. mpconfig (mem s))) (\<lambda>r.
     case r of
       None \<Rightarrow> panicK ''Expect to run on an SMP''
     | Some (mp, conf) \<Rightarrow>
         bindK (modK (\<lambda>s. s\<lparr>lapic_base := load32 (mem s) (conf + 36)\<rparr>)) (\<lambda>_.
         bindK (getK (\<lambda>s. conf_length (mem s) conf)) (\<lambda>len.
         bindK (mp_entries conf len 44) (\<lambda>_.
         bindK (getK (\<lambda>s. mem s (mp + 12))) (\<lambda>imcrp.
         whenK (imcrp \<noteq> 0)
           (bindK (out8 0x22 0x70) (\<lambda>_.
            bindK (in8 0x23) (\<lambda>v.
            out8 0x23 (v OR 1)))))))))"

section \<open>What the scan records\<close>

text \<open>An entry is its bytes, the first of which is its type.\<close>

definition known_entry :: "byte list \<Rightarrow> bool" where
  "known_entry e \<longleftrightarrow> (if e = [] then False else if hd e = 0 then length e = 20 else hd e \<le> 4 \<and> length e = 8)"

definition apic_ids :: "byte list list \<Rightarrow> byte list" where
  "apic_ids es = map (\<lambda>e. e ! 1) (filter (\<lambda>e. hd e = 0) es)"

definition io_ids :: "byte list list \<Rightarrow> byte list" where
  "io_ids es = map (\<lambda>e. e ! 1) (filter (\<lambda>e. hd e = 2) es)"

definition cpus_found :: "'z kplat_scheme \<Rightarrow> byte list" where
  "cpus_found s = take (ncpu s) (cpu_apicid s)"

definition cpus_ok :: "'z kplat_scheme \<Rightarrow> bool" where
  "cpus_ok s \<longleftrightarrow> length (cpu_apicid s) = NCPU \<and> ncpu s \<le> NCPU"

text \<open>The state after the entries \<open>es\<close>.\<close>

definition scanned :: "'z kplat_scheme \<Rightarrow> byte list list \<Rightarrow> 'z kplat_scheme \<Rightarrow> bool" where
  "scanned s es s' \<longleftrightarrow> cpus_ok s' \<and> mem s' = mem s \<and> cpus_found s' = take NCPU (cpus_found s @ apic_ids es) \<and> ncpu s' = length (cpus_found s') \<and>
     ioapicid s' = last (ioapicid s # io_ids es) \<and> lapic_base s' = lapic_base s \<and> dev_log s' = dev_log s \<and> dev_in s' = dev_in s"

lemma bytes_at_append: "bytes_at m a (i + j) = bytes_at m a i @ bytes_at m (a + of_nat i) j"
  by (rule nth_equalityI) (auto simp: nth_append)

lemma record_cpu:
  assumes "cpus_ok s" "ncpu s < NCPU"
  shows "cpus_found (s\<lparr>cpu_apicid := (cpu_apicid s)[ncpu s := x], ncpu := ncpu s + 1\<rparr>) = cpus_found s @ [x]"
  using assms by (simp add: cpus_found_def cpus_ok_def take_Suc_conv_app_nth)

lemma length_cpus_found: "cpus_ok s \<Longrightarrow> length (cpus_found s) = ncpu s"
  by (simp add: cpus_found_def cpus_ok_def)

lemma small_type: "(b :: byte) \<le> 4 \<Longrightarrow> b = 0 \<or> b = 1 \<or> b = 2 \<or> b = 3 \<or> b = 4"
proof -
  assume "b \<le> 4"
  then have "unat b = 0 \<or> unat b = 1 \<or> unat b = 2 \<or> unat b = 3 \<or> unat b = 4" by (auto simp: word_le_nat_alt)
  then show ?thesis by (simp add: word_unat_eq_iff)
qed

lemma mp_entry_run:
  assumes ok: "cpus_ok s" and e: "known_entry e" "bytes_at (mem s) (conf + of_nat k) (length e) = e" "k + length e \<le> len"
  shows "\<exists>s1. mp_entries conf len k s = mp_entries conf len (k + length e) s1 \<and> scanned s [e] s1"
proof -
  have ne: "0 < length e" "1 < length e" using e(1) by (auto simp: known_entry_def split: if_splits)
  have hd: "mem s (conf + of_nat k) = hd e" using ne arg_cong [OF e(2), of hd] by (simp add: hd_conv_nth bytes_at_def)
  have nx: "mem s (conf + of_nat k + 1) = e ! 1" using ne arg_cong [OF e(2), of "\<lambda>l. l ! 1"] by (simp add: bytes_at_def)
  have lt: "k < len" using e(3) ne by simp
  let ?s1 = "if hd e = 0 then (if ncpu s < NCPU then s\<lparr>cpu_apicid := (cpu_apicid s)[ncpu s := e ! 1], ncpu := ncpu s + 1\<rparr> else s)
    else if hd e = 2 then s\<lparr>ioapicid := e ! 1\<rparr> else s"
  have ty: "hd e = 0 \<and> length e = 20 \<or> hd e = 2 \<and> length e = 8 \<or> (hd e = 1 \<or> hd e = 3 \<or> hd e = 4) \<and> length e = 8"
    using e(1) small_type [of "hd e"] by (auto simp: known_entry_def split: if_splits)
  have "mp_entries conf len k s = mp_entries conf len (k + length e) ?s1"
    by (subst mp_entries.simps) (use lt hd nx ty in \<open>auto simp: Let_def\<close>)
  moreover have "scanned s [e] ?s1"
    using ok record_cpu [OF ok] length_cpus_found [OF ok]
    by (auto simp: scanned_def cpus_ok_def apic_ids_def io_ids_def cpus_found_def)
  ultimately show ?thesis by blast
qed

lemma scanned_trans:
  assumes "scanned s es s1" "scanned s1 fs s2"
  shows "scanned s (es @ fs) s2"
proof -
  have "take NCPU (take NCPU (cpus_found s @ apic_ids es) @ apic_ids fs) = take NCPU (cpus_found s @ apic_ids (es @ fs))"
    by (simp add: apic_ids_def min_def)
  moreover have "last (last (x # io_ids es) # io_ids fs) = last (x # io_ids (es @ fs))" for x by (simp add: io_ids_def)
  ultimately show ?thesis using assms unfolding scanned_def by simp
qed

lemma mp_entries_run:
  assumes "cpus_ok s" "list_all known_entry es" "bytes_at (mem s) (conf + of_nat k) (length (concat es)) = concat es" "k + length (concat es) \<le> len"
  shows "\<exists>s1. mp_entries conf len k s = mp_entries conf len (k + length (concat es)) s1 \<and> scanned s es s1"
  using assms
proof (induction es arbitrary: k s)
  case Nil
  then have "scanned s [] s" using length_cpus_found [of s] by (simp add: scanned_def apic_ids_def io_ids_def cpus_ok_def)
  then show ?case by auto
next
  case (Cons e es)
  have b: "bytes_at (mem s) (conf + of_nat k) (length e) = e" "bytes_at (mem s) (conf + of_nat (k + length e)) (length (concat es)) = concat es"
    using Cons.prems(3) by (simp_all add: bytes_at_append add.assoc)
  have l: "k + length e \<le> len" "known_entry e" using Cons.prems(2,4) by simp_all
  obtain s1 where s1: "mp_entries conf len k s = mp_entries conf len (k + length e) s1" "scanned s [e] s1"
    using mp_entry_run [OF Cons.prems(1) l(2) b(1) l(1)] by blast
  then have "cpus_ok s1" "mem s1 = mem s" by (simp_all add: scanned_def)
  then obtain s2 where "mp_entries conf len (k + length e) s1 = mp_entries conf len (k + length e + length (concat es)) s2" "scanned s1 es s2"
    using Cons.IH [of s1 "k + length e"] Cons.prems(2,4) b(2) by auto
  then show ?case using s1 scanned_trans [OF s1(2)] by (auto simp: add.assoc)
qed

text \<open>
  C37: Finding the processors. When the configuration table consists of entries of known types, \<open>mpinit\<close> returns: it has
  recorded the APIC ids of the first eight processor entries, in order, the id of the last I/O APIC
  entry and the address of the local APIC. When the scan comes to an entry of an unknown type it never ends,
  although the code after the loop means to panic then.
\<close>

theorem mpinit_entries:
  assumes "mpconfig (mem s) = Some (mp, conf)" "length (cpu_apicid s) = NCPU" "ncpu s = 0" "44 \<le> conf_length (mem s) conf"
    "bytes_at (mem s) (conf + 44) (conf_length (mem s) conf - 44) = concat es @ rest" "list_all known_entry es" "dev_in s \<noteq> []"
  shows "(rest = [] \<longrightarrow> (\<exists>s'. mpinit s = Ret () s' \<and> cpus_found s' = take NCPU (apic_ids es) \<and> ioapicid s' = last (ioapicid s # io_ids es) \<and>
      lapic_base s' = load32 (mem s) (conf + 36))) \<and>
    (rest \<noteq> [] \<and> 4 < hd rest \<longrightarrow> mpinit s = Diverge)"
proof -
  let ?len = "conf_length (mem s) conf"
  define s0 where "s0 = s\<lparr>lapic_base := load32 (mem s) (conf + 36)\<rparr>"
  have m0: "mem s0 = mem s" "conf_length (mem s0) conf = ?len" by (simp_all add: s0_def)
  have n: "?len - 44 = length (concat es) + length rest" using arg_cong [OF assms(5), of length] by simp
  then have b: "bytes_at (mem s0) (conf + of_nat 44) (length (concat es)) = concat es" "bytes_at (mem s0) (conf + of_nat (44 + length (concat es))) (length rest) = rest"
    using assms(5) by (simp_all add: bytes_at_append m0 add.assoc)
  have ok: "cpus_ok s0" "cpus_found s0 = []" using assms(2,3) by (simp_all add: cpus_ok_def cpus_found_def s0_def)
  have le: "44 + length (concat es) \<le> ?len" using n assms(4) by linarith
  have len: "?len = 44 + length (concat es) + length rest" using n assms(4) by linarith
  obtain s1 where s1: "mp_entries conf ?len 44 s0 = mp_entries conf ?len (44 + length (concat es)) s1" "scanned s0 es s1"
    using mp_entries_run [OF ok(1) assms(6) b(1) le] by blast
  have m1: "mem s1 = mem s" "dev_in s1 = dev_in s" using s1(2) by (simp_all add: scanned_def s0_def)
  have run: "mpinit s = bindK (mp_entries conf ?len (44 + length (concat es))) (\<lambda>_. bindK (getK (\<lambda>s. mem s (mp + 12))) (\<lambda>imcrp.
      whenK (imcrp \<noteq> 0) (bindK (out8 0x22 0x70) (\<lambda>_. bindK (in8 0x23) (\<lambda>v. out8 0x23 (v OR 1)))))) s1"
    using assms(1) s1(1) m0 by (simp add: mpinit_def bindK_def s0_def)
  show ?thesis
  proof (intro conjI impI)
    assume "rest = []"
    then have e: "mp_entries conf ?len (44 + length (concat es)) s1 = Ret () s1" using len by (subst mp_entries.simps) simp
    define s2 where "s2 = (if mem s (mp + 12) = 0 then s1 else s1\<lparr>dev_log := dev_log s1 @ [Out8 0x22 0x70, Out8 0x23 (ucast (hd (dev_in s) (Port 0x23)) OR 1)], dev_in := tl (dev_in s)\<rparr>)"
    have "mpinit s = Ret () s2" unfolding run using e m1 assms(7)
      by (cases "dev_in s") (simp_all add: bindK_def out8_def in8_def reg_write_def reg_read_def s2_def)
    moreover have "cpus_found s2 = cpus_found s1" "ioapicid s2 = ioapicid s1" "lapic_base s2 = lapic_base s1" by (simp_all add: s2_def cpus_found_def)
    ultimately show "\<exists>s'. mpinit s = Ret () s' \<and> cpus_found s' = take NCPU (apic_ids es) \<and> ioapicid s' = last (ioapicid s # io_ids es) \<and>
        lapic_base s' = load32 (mem s) (conf + 36)"
      using s1(2) ok(2) by (simp add: scanned_def s0_def)
  next
    assume r: "rest \<noteq> [] \<and> 4 < hd rest"
    have "mem s1 (conf + of_nat (44 + length (concat es))) = hd rest"
      using arg_cong [OF b(2), of hd] r m0 m1 by (simp add: hd_conv_nth bytes_at_def)
    moreover have "hd rest \<noteq> 0" "hd rest \<noteq> 1" "hd rest \<noteq> 2" "hd rest \<noteq> 3" "hd rest \<noteq> 4" using r by (auto simp: word_less_nat_alt)
    ultimately have "mp_entries conf ?len (44 + length (concat es)) s1 = Diverge"
      using len r by (subst mp_entries.simps) (auto simp: Let_def)
    then show "mpinit s = Diverge" unfolding run by (simp add: bindK_def)
  qed
qed

text \<open>A machine with one processor, an I/O APIC and a bus.\<close>

definition mp_bytes :: "byte list" where
  "mp_bytes = [0x5F, 0x4D, 0x50, 0x5F, 0, 0x10, 0, 0, 1, 4, 0x90, 0, 0, 0, 0, 0]"

definition conf_bytes :: "byte list" where
  "conf_bytes = [0x50, 0x43, 0x4D, 0x50, 80, 0, 4, 139] @ replicate 28 0 @ [0, 0, 0xE0, 0xFE, 0, 0, 0, 0] @
     [0, 7] @ replicate 18 0 @ [2, 9] @ replicate 6 0 @ [1] @ replicate 7 0"

definition mp_mem :: bmem where
  "mp_mem = Strings.put_bytes (Strings.put_bytes (Strings.put_bytes (\<lambda>_. 0) 0x8000040E [0xC0, 0x9F]) 0x8009FC00 mp_bytes) 0x80001000 conf_bytes"

definition kplat_example :: kplat where
  "kplat_example = ksys.extend ((ksys_example 0)\<lparr>mem := mp_mem\<rparr>)
     (kplat.fields (replicate 8 0) (replicate 8 False) 0 0 0 [] [] [] [\<lambda>_. 0])"

lemma kplat_example_state:
  "mem kplat_example = mp_mem" "cpu_apicid kplat_example = replicate 8 0" "ncpu kplat_example = 0" "dev_in kplat_example = [\<lambda>_. 0]" "ioapicid kplat_example = 0"
  by (simp_all add: kplat_example_def ksys.extend_def kplat.fields_def)

lemma mp_mem_conf: "bytes_at mp_mem 0x80001000 80 = conf_bytes"
  using bytes_at_put_bytes [of conf_bytes] by (simp add: mp_mem_def) (simp add: conf_bytes_def)

lemma low_byte_add: "(ucast (x + y :: u32) :: byte) = ucast x + ucast y"
proof -
  have "take_bit 8 (take_bit 32 (a + b)) = take_bit 8 (a + b)" for a b :: int by simp
  then show ?thesis by (simp add: word_uint_eq_iff uint_word_ariths(1) take_bit_eq_mod unsigned_ucast_eq mod_mod_cancel mod_simps)
qed

lemma low_byte_byte: "(ucast (ucast b :: u32) :: byte) = b"
  by (rule bit_word_eqI) (auto simp: bit_simps)

lemma mp_sum_bytes: "mp_sum m a n = sum_list (bytes_at m a n)"
proof -
  have "ucast (fold (\<lambda>i (sum :: u32). sum + ucast (m (a + of_nat i))) [0..<n] 0) = sum_list (map (\<lambda>i. m (a + of_nat i)) [0..<n])"
    by (induction n) (simp_all add: low_byte_add low_byte_byte)
  then show ?thesis by (simp add: mp_sum_def bytes_at_def)
qed

lemma mp_mem_mp: "bytes_at mp_mem 0x8009FC00 16 = mp_bytes" "mp_mem 0x8000040F = 0x9F" "mp_mem 0x8000040E = 0xC0" "load32 mp_mem 0x8009FC04 = 0x1000"
proof -
  have l: "length conf_bytes = 80" by (simp add: conf_bytes_def)
  show "bytes_at mp_mem 0x8009FC00 16 = mp_bytes"
    by (simp add: bytes_at_def upt_rec mp_mem_def Strings.put_bytes_def l) (simp add: mp_bytes_def)
  show "mp_mem 0x8000040F = 0x9F" "mp_mem 0x8000040E = 0xC0" "load32 mp_mem 0x8009FC04 = 0x1000"
    by (simp_all add: load32_def mp_mem_def Strings.put_bytes_def l mp_bytes_def)
qed

lemma take_bytes_at: "take i (bytes_at m a n) = bytes_at m a (min i n)"
  by (rule nth_equalityI) simp_all

lemma drop_bytes_at: "drop i (bytes_at m a (i + j)) = bytes_at m (a + of_nat i) j"
  by (simp add: bytes_at_append)

lemma mpconfig_example: "mpconfig mp_mem = Some (0x8009FC00, 0x80001000)"
proof -
  have s: "mp_sum mp_mem 0x8009FC00 16 = 0" by (simp add: mp_sum_bytes mp_mem_mp(1)) (simp add: mp_bytes_def)
  have "bytes_at mp_mem 0x8009FC00 4 = take 4 (bytes_at mp_mem 0x8009FC00 16)" by (simp add: take_bytes_at)
  then have b: "bytes_at mp_mem 0x8009FC00 4 = bytes ''_MP_''" unfolding mp_mem_mp(1) by (simp add: mp_bytes_def bytes_def)
  have "hd (mp_addrs (P2V 0x9FC00) 1024) = 0x8009FC00" "mp_addrs (P2V 0x9FC00) 1024 \<noteq> []" by (simp_all add: mp_addrs_def P2V_def upt_conv_Cons)
  then obtain ps where ps: "mp_addrs (P2V 0x9FC00) 1024 = 0x8009FC00 # ps" by (metis list.collapse)
  have f: "mpsearch1 mp_mem 0x9FC00 1024 = 0x8009FC00" unfolding mpsearch1_def ps using s b by simp
  have m: "mpsearch mp_mem = 0x8009FC00" using f mp_mem_mp(2,3) by (simp add: mpsearch_def P2V_def Let_def)
  have c: "bytes_at mp_mem 0x80001000 4 = take 4 conf_bytes" unfolding mp_mem_conf [symmetric] by (simp add: take_bytes_at)
  have n: "mp_mem (0x80001000 + of_nat i) = conf_bytes ! i" if "i < 80" for i using that unfolding mp_mem_conf [symmetric] by simp
  have l: "mp_mem 0x80001004 = 80" "mp_mem 0x80001005 = 0" "mp_mem 0x80001006 = 4" using n [of 4] n [of 5] n [of 6] by (simp_all add: conf_bytes_def)
  then have len: "conf_length mp_mem 0x80001000 = 80" by (simp add: conf_length_def)
  have "mp_sum mp_mem 0x80001000 80 = 0" by (simp add: mp_sum_bytes mp_mem_conf) (simp add: conf_bytes_def sum_list_replicate)
  then show ?thesis using m c l len mp_mem_mp(4) by (simp add: mpconfig_def P2V_def Let_def) (simp add: conf_bytes_def bytes_def)
qed

theorem mpinit_entries_witness:
  "\<exists>s'. mpinit kplat_example = Ret () s' \<and> cpus_found s' = [7] \<and> ioapicid s' = 9 \<and> lapic_base s' = 0xFEE00000"
proof -
  let ?es = "[[0, 7] @ replicate 18 0, [2, 9] @ replicate 6 0, [1] @ replicate 7 0] :: byte list list"
  have n: "mp_mem (0x80001000 + of_nat i) = conf_bytes ! i" if "i < 80" for i using that unfolding mp_mem_conf [symmetric] by simp
  have "mp_mem 0x80001004 = 80" "mp_mem 0x80001005 = 0" "load32 mp_mem 0x80001024 = 0xFEE00000"
    using n [of 4] n [of 5] n [of 36] n [of 37] n [of 38] n [of 39] by (simp_all add: conf_bytes_def load32_def nth_append)
  then have l: "conf_length mp_mem 0x80001000 = 80" "load32 mp_mem 0x80001024 = 0xFEE00000" by (simp_all add: conf_length_def)
  have "bytes_at mp_mem 0x8000102C 36 = drop 44 conf_bytes" using drop_bytes_at [of 44 mp_mem "0x80001000" 36] mp_mem_conf by simp
  then have t: "bytes_at mp_mem 0x8000102C 36 = concat ?es @ []" by (simp add: conf_bytes_def)
  have k: "list_all known_entry ?es" by (simp add: known_entry_def)
  show ?thesis
    using mpinit_entries [of kplat_example "0x8009FC00" "0x80001000" ?es "[]"] mpconfig_example l t k
    by (simp add: kplat_example_state apic_ids_def io_ids_def)
qed

end
