(* ===== verification/Apic.thy ===== *)
theory Apic
  imports Mp
begin

text \<open>
  The interrupt controllers, the serial port and the clock: \<^verbatim>\<open>lapic.c\<close>, \<^verbatim>\<open>ioapic.c\<close>, \<^verbatim>\<open>picirq.c\<close> and
  \<^verbatim>\<open>uartinit\<close> of \<^verbatim>\<open>uart.c\<close>. A write to a register of the local APIC is followed by a read of its register \<^verbatim>\<open>ID\<close>,
  whose value is not used. \<^verbatim>\<open>microdelay\<close> does nothing and is left out. The property says that
  \<open>cmostime\<close> returns the date of the clock, whichever of its two formats is in use.
\<close>

section \<open>The local APIC\<close>

abbreviation (input) R_ID :: nat where "R_ID \<equiv> 0x20 div 4"
abbreviation (input) R_VER :: nat where "R_VER \<equiv> 0x30 div 4"

definition lapicw :: "nat \<Rightarrow> u32 \<Rightarrow> ('z kplat_scheme, unit) kop" where
  "lapicw index value =
     bindK (reg_write (LapicWr index value)) (\<lambda>_.
     bindK (reg_read (LapicReg R_ID)) (\<lambda>_.
     retK ()))"

abbreviation (input) R_TPR :: nat where "R_TPR \<equiv> 0x80 div 4"
abbreviation (input) R_EOI :: nat where "R_EOI \<equiv> 0xB0 div 4"
abbreviation (input) R_SVR :: nat where "R_SVR \<equiv> 0xF0 div 4"
abbreviation (input) R_ESR :: nat where "R_ESR \<equiv> 0x280 div 4"
abbreviation (input) R_ICRLO :: nat where "R_ICRLO \<equiv> 0x300 div 4"
abbreviation (input) R_ICRHI :: nat where "R_ICRHI \<equiv> 0x310 div 4"
abbreviation (input) R_TIMER :: nat where "R_TIMER \<equiv> 0x320 div 4"
abbreviation (input) R_PCINT :: nat where "R_PCINT \<equiv> 0x340 div 4"
abbreviation (input) R_LINT0 :: nat where "R_LINT0 \<equiv> 0x350 div 4"
abbreviation (input) R_LINT1 :: nat where "R_LINT1 \<equiv> 0x360 div 4"
abbreviation (input) R_ERROR :: nat where "R_ERROR \<equiv> 0x370 div 4"
abbreviation (input) R_TICR :: nat where "R_TICR \<equiv> 0x380 div 4"
abbreviation (input) R_TDCR :: nat where "R_TDCR \<equiv> 0x3E0 div 4"

text \<open>Waiting until the delivery status in \<^verbatim>\<open>ICRLO\<close> is clear.\<close>

fun icr_wait_loop :: "(source \<Rightarrow> u32) list \<Rightarrow> (source \<Rightarrow> u32) list option" where
  "icr_wait_loop [] = None"
| "icr_wait_loop (v # vs) = (if v (LapicReg R_ICRLO) AND 0x1000 \<noteq> 0 then icr_wait_loop vs else Some vs)"

definition icr_wait :: "('z kplat_scheme, unit) kop" where
  "icr_wait s = (case icr_wait_loop (dev_in s) of None \<Rightarrow> Diverge | Some vs \<Rightarrow> Ret () (s\<lparr>dev_in := vs\<rparr>))"

definition lapicinit :: "('z kplat_scheme, unit) kop" where
  "lapicinit =
     bindK (getK lapic_base) (\<lambda>lapic.
     if lapic = 0 then retK ()
     else
       bindK (lapicw R_SVR (0x100 OR (32 + 31))) (\<lambda>_.
       bindK (lapicw R_TDCR 0xB) (\<lambda>_.
       bindK (lapicw R_TIMER (0x20000 OR (32 + 0))) (\<lambda>_.
       bindK (lapicw R_TICR 10000000) (\<lambda>_.
       bindK (lapicw R_LINT0 0x10000) (\<lambda>_.
       bindK (lapicw R_LINT1 0x10000) (\<lambda>_.
       bindK (reg_read (LapicReg R_VER)) (\<lambda>ver.
       bindK (whenK (drop_bit 16 ver AND 0xFF \<ge> 4) (lapicw R_PCINT 0x10000)) (\<lambda>_.
       bindK (lapicw R_ERROR (32 + 19)) (\<lambda>_.
       bindK (lapicw R_ESR 0) (\<lambda>_.
       bindK (lapicw R_ESR 0) (\<lambda>_.
       bindK (lapicw R_EOI 0) (\<lambda>_.
       bindK (lapicw R_ICRHI 0) (\<lambda>_.
       bindK (lapicw R_ICRLO (0x80000 OR 0x500 OR 0x8000)) (\<lambda>_.
       bindK icr_wait (\<lambda>_.
       lapicw R_TPR 0))))))))))))))))"

definition lapicid :: "('z kplat_scheme, u32) kop" where
  "lapicid =
     bindK (getK lapic_base) (\<lambda>lapic.
     if lapic = 0 then retK 0 else bindK (reg_read (LapicReg R_ID)) (\<lambda>v. retK (drop_bit 24 v)))"

definition lapiceoi :: "('z kplat_scheme, unit) kop" where
  "lapiceoi = bindK (getK lapic_base) (\<lambda>lapic. whenK (lapic \<noteq> 0) (lapicw R_EOI 0))"

definition store16 :: "bmem \<Rightarrow> u32 \<Rightarrow> u16 \<Rightarrow> bmem" where
  "store16 m a v = m(a := ucast v, a + 1 := ucast (drop_bit 8 v))"

definition lapicstartap :: "byte \<Rightarrow> u32 \<Rightarrow> ('z kplat_scheme, unit) kop" where
  "lapicstartap apicid addr =
     bindK (out8 0x70 0xF) (\<lambda>_.
     bindK (out8 0x71 0x0A) (\<lambda>_.
     let wrv = P2V (push_bit 4 0x40 OR 0x67) in
     bindK (modK (\<lambda>s. s\<lparr>mem := store16 (mem s) wrv 0\<rparr>)) (\<lambda>_.
     bindK (modK (\<lambda>s. s\<lparr>mem := store16 (mem s) (wrv + 2) (ucast (drop_bit 4 addr))\<rparr>)) (\<lambda>_.
     bindK (lapicw R_ICRHI (push_bit 24 (ucast apicid))) (\<lambda>_.
     bindK (lapicw R_ICRLO (0x500 OR 0x8000 OR 0x4000)) (\<lambda>_.
     bindK (lapicw R_ICRLO (0x500 OR 0x8000)) (\<lambda>_.
     forK [0..<(2 :: nat)] (\<lambda>_.
       bindK (lapicw R_ICRHI (push_bit 24 (ucast apicid))) (\<lambda>_.
       lapicw R_ICRLO (0x600 OR drop_bit 12 addr))))))))))"

section \<open>The clock\<close>

record rtcdate =
  second :: u32
  minute :: u32
  hour :: u32
  day :: u32
  month :: u32
  year :: u32

definition cmos_read :: "byte \<Rightarrow> ('z kplat_scheme, u32) kop" where
  "cmos_read reg = bindK (out8 0x70 reg) (\<lambda>_. bindK (in8 0x71) (\<lambda>v. retK (ucast v)))"

definition fill_rtcdate :: "('z kplat_scheme, rtcdate) kop" where
  "fill_rtcdate =
     bindK (cmos_read 0x00) (\<lambda>s.
     bindK (cmos_read 0x02) (\<lambda>m.
     bindK (cmos_read 0x04) (\<lambda>h.
     bindK (cmos_read 0x07) (\<lambda>d.
     bindK (cmos_read 0x08) (\<lambda>mo.
     bindK (cmos_read 0x09) (\<lambda>y.
     retK \<lparr>second = s, minute = m, hour = h, day = d, month = mo, year = y\<rparr>))))))"

text \<open>One round of the loop of \<open>cmostime\<close>: the date if the loop ends.\<close>

definition cmos_round :: "('z kplat_scheme, rtcdate option) kop" where
  "cmos_round =
     bindK fill_rtcdate (\<lambda>t1.
     bindK (cmos_read 0x0a) (\<lambda>sta.
     if sta AND push_bit 7 1 \<noteq> 0 then retK None
     else
       bindK fill_rtcdate (\<lambda>t2.
       retK (if t1 = t2 then Some t1 else None))))"

lemma reg_read_progress: "reg_read r s = Ret v s' \<Longrightarrow> length (dev_in s') < length (dev_in s)"
  by (auto simp: reg_read_def split: list.splits)

text \<open>The value of a register of the clock at an instant: a byte.\<close>

definition cmos :: "(source \<Rightarrow> u32) \<Rightarrow> byte \<Rightarrow> u32" where
  "cmos v r = ucast (ucast (v (Cmos r)) :: byte)"

lemma cmos_read_run: "cmos_read r s = (case dev_in s of [] \<Rightarrow> Diverge | v # vs \<Rightarrow> Ret (cmos v r) (s\<lparr>dev_log := dev_log s @ [Out8 0x70 r], dev_in := vs\<rparr>))"
  by (simp add: cmos_read_def out8_def in8_def reg_write_def reg_read_def bindK_def cmos_selected_def cmos_def split: list.splits)

lemma bindK_RetD: "bindK m f s = Ret b s' \<Longrightarrow> \<exists>a s1. m s = Ret a s1 \<and> f a s1 = Ret b s'"
  by (auto simp: bindK_def split: outcome.splits)

lemma fill_progress: "fill_rtcdate s = Ret t s' \<Longrightarrow> length (dev_in s') < length (dev_in s)"
  by (auto simp: fill_rtcdate_def cmos_read_run split: list.splits dest!: bindK_RetD)

lemma cmos_round_progress: "cmos_round s = Ret r s' \<Longrightarrow> length (dev_in s') < length (dev_in s)"
  by (fastforce simp: cmos_round_def cmos_read_run split: list.splits if_splits dest!: bindK_RetD fill_progress)

function cmos_loop :: "('z kplat_scheme, rtcdate) kop" where
  "cmos_loop s =
     (case cmos_round s of
        Ret r s' \<Rightarrow> (case r of Some t \<Rightarrow> Ret t s' | None \<Rightarrow> cmos_loop s')
      | Panic e \<Rightarrow> Panic e
      | Swtch s' \<Rightarrow> Swtch s'
      | Diverge \<Rightarrow> Diverge)"
  by pat_completeness auto
termination by (relation "measure (\<lambda>s. length (dev_in s))") (auto dest: cmos_round_progress)

declare cmos_loop.simps [simp del]

definition conv :: "u32 \<Rightarrow> u32" where
  "conv x = drop_bit 4 x * 10 + (x AND 0xf)"

definition conv_date :: "rtcdate \<Rightarrow> rtcdate" where
  "conv_date t = \<lparr>second = conv (second t), minute = conv (minute t), hour = conv (hour t), day = conv (day t), month = conv (month t), year = conv (year t)\<rparr>"

definition cmostime :: "('z kplat_scheme, rtcdate) kop" where
  "cmostime =
     bindK (cmos_read 0x0b) (\<lambda>sb.
     let bcd = (sb AND push_bit 2 1 = 0) in
     bindK cmos_loop (\<lambda>t1.
     let t1 = (if bcd then conv_date t1 else t1) in
     retK (t1\<lparr>year := year t1 + 2000\<rparr>)))"

section \<open>The I/O APIC, the old controllers and the serial port\<close>

definition ioapicread :: "u32 \<Rightarrow> ('z kplat_scheme, u32) kop" where
  "ioapicread reg = bindK (reg_write (IoapicReg reg)) (\<lambda>_.
     bindK (getK (\<lambda>s. ioapic_selected (dev_log s))) (\<lambda>r.
     reg_read (IoapicVal r)))"

definition ioapicwrite :: "u32 \<Rightarrow> u32 \<Rightarrow> ('z kplat_scheme, unit) kop" where
  "ioapicwrite reg data = bindK (reg_write (IoapicReg reg)) (\<lambda>_. reg_write (IoapicData data))"

definition ioapicinit :: "('z kplat_scheme, unit) kop" where
  "ioapicinit =
     bindK (ioapicread 0x01) (\<lambda>v.
     let maxintr = drop_bit 16 v AND 0xFF in
     bindK (ioapicread 0x00) (\<lambda>v.
     let id = drop_bit 24 v in
     bindK (getK ioapicid) (\<lambda>apic.
     bindK (whenK (id \<noteq> ucast apic) (cprintf (bytes ''ioapicinit: id isn'' @ [39] @ bytes ''t equal to ioapicid; not a MP'' @ [10]) [])) (\<lambda>_.
     forK [0..<unat maxintr + 1] (\<lambda>i.
       bindK (ioapicwrite (0x10 + 2 * of_nat i) (0x10000 OR (32 + of_nat i))) (\<lambda>_.
       ioapicwrite (0x10 + 2 * of_nat i + 1) 0))))))"

definition ioapicenable :: "nat \<Rightarrow> u32 \<Rightarrow> ('z kplat_scheme, unit) kop" where
  "ioapicenable irq cpunum =
     bindK (ioapicwrite (0x10 + 2 * of_nat irq) (32 + of_nat irq)) (\<lambda>_.
     ioapicwrite (0x10 + 2 * of_nat irq + 1) (push_bit 24 cpunum))"

definition picinit :: "('z kplat_scheme, unit) kop" where
  "picinit = bindK (out8 0x21 0xFF) (\<lambda>_. out8 0xA1 0xFF)"

definition uartinit :: "('z kplat_scheme, unit) kop" where
  "uartinit =
     bindK (out8 0x3fa 0) (\<lambda>_.
     bindK (out8 0x3fb 0x80) (\<lambda>_.
     bindK (out8 0x3f8 (115200 div 9600)) (\<lambda>_.
     bindK (out8 0x3f9 0) (\<lambda>_.
     bindK (out8 0x3fb 0x03) (\<lambda>_.
     bindK (out8 0x3fc 0) (\<lambda>_.
     bindK (out8 0x3f9 0x01) (\<lambda>_.
     bindK (in8 0x3fd) (\<lambda>status.
     if status = 0xFF then retK ()
     else
       bindK (modK (\<lambda>s. s\<lparr>uart := True\<rparr>)) (\<lambda>_.
       bindK (in8 0x3fa) (\<lambda>_.
       bindK (in8 0x3f8) (\<lambda>_.
       bindK (ioapicenable 4 0) (\<lambda>_.
       forK (bytes ''xv6...'' @ [10]) (\<lambda>c. uartputc (uint c))))))))))))))"

text \<open>The handler of traps, with the acknowledgement of interrupts.\<close>

definition kernel_trap :: "(u32 \<Rightarrow> ('z kplat_scheme, unit) kop) \<Rightarrow> nat \<Rightarrow> u32 \<Rightarrow> u32 \<Rightarrow> ('z kplat_scheme, unit) kop" where
  "kernel_trap = trap lapiceoi"

section \<open>Reading the clock\<close>

text \<open>The date in the registers of the clock at an instant, and the one that is read in six reads.\<close>

definition clock :: "(source \<Rightarrow> u32) \<Rightarrow> rtcdate" where
  "clock v = \<lparr>second = cmos v 0, minute = cmos v 2, hour = cmos v 4, day = cmos v 7, month = cmos v 8, year = cmos v 9\<rparr>"

definition reading :: "(source \<Rightarrow> u32) list \<Rightarrow> rtcdate" where
  "reading vs = \<lparr>second = second (clock (vs ! 0)), minute = minute (clock (vs ! 1)), hour = hour (clock (vs ! 2)), day = day (clock (vs ! 3)),
     month = month (clock (vs ! 4)), year = year (clock (vs ! 5))\<rparr>"

definition updating :: "(source \<Rightarrow> u32) \<Rightarrow> bool" where
  "updating v \<longleftrightarrow> cmos v 0x0a AND 0x80 \<noteq> 0"

text \<open>The instants of a round that is repeated: the clock is being updated, or the two readings differ.\<close>

definition bad_round :: "(source \<Rightarrow> u32) list \<Rightarrow> bool" where
  "bad_round vs \<longleftrightarrow> length vs = 7 \<and> updating (vs ! 6) \<or> length vs = 13 \<and> \<not> updating (vs ! 6) \<and> reading (take 6 vs) \<noteq> reading (drop 7 vs)"

definition map_date :: "(u32 \<Rightarrow> u32) \<Rightarrow> rtcdate \<Rightarrow> rtcdate" where
  "map_date f t = \<lparr>second = f (second t), minute = f (minute t), hour = f (hour t), day = f (day t), month = f (month t), year = f (year t)\<rparr>"

definition date_below :: "u32 \<Rightarrow> rtcdate \<Rightarrow> bool" where
  "date_below n t \<longleftrightarrow> list_all (\<lambda>v. v < n) [second t, minute t, hour t, day t, month t, year t]"

definition bcd :: "u32 \<Rightarrow> u32" where
  "bcd v = v div 10 * 16 + v mod 10"

lemma conv_bcd:
  assumes "v < 100"
  shows "conv (bcd v) = v"
proof -
  have v: "unat v < 100" using assms by (simp add: word_less_nat_alt)
  have q: "unat v div 10 < 10" "unat v mod 10 < 10" using v by simp_all
  have b: "unat (bcd v) = unat v div 10 * 16 + unat v mod 10" using q by (simp add: bcd_def unat_word_ariths unat_div unat_mod)
  have "unat (drop_bit 4 (bcd v)) = unat v div 10" using b q by (simp add: drop_bit_eq_div unat_div)
  moreover have "bcd v AND 0xf = take_bit 4 (bcd v)" by (simp add: take_bit_eq_mask mask_eq_exp_minus_1)
  then have "unat (bcd v AND 0xf) = unat v mod 10" using b q by (simp add: take_bit_eq_mod unat_mod)
  ultimately have "unat (conv (bcd v)) = unat v" using q v by (simp add: conv_def unat_word_ariths)
  then show ?thesis by (simp add: word_unat_eq_iff)
qed

lemma fill_run:
  assumes "dev_in s = vs @ ws" "length vs = 6"
  shows "\<exists>l. fill_rtcdate s = Ret (reading vs) (s\<lparr>dev_log := l, dev_in := ws\<rparr>)"
proof -
  have "length vs = Suc (Suc (Suc (Suc (Suc (Suc 0)))))" using assms(2) by simp
  then obtain a b c d e f where "vs = [a, b, c, d, e, f]" by (auto simp: length_Suc_conv)
  then show ?thesis using assms(1) by (auto simp: fill_rtcdate_def bindK_def cmos_read_run reading_def clock_def)
qed

lemma cmos_round_run:
  assumes "dev_in s = vs @ ws" "length vs = 7"
  shows "updating (vs ! 6) \<Longrightarrow> \<exists>l. cmos_round s = Ret None (s\<lparr>dev_log := l, dev_in := ws\<rparr>)"
    "\<not> updating (vs ! 6) \<Longrightarrow> ws = us @ rest \<Longrightarrow> length us = 6 \<Longrightarrow>
      \<exists>l. cmos_round s = Ret (if reading (take 6 vs) = reading us then Some (reading us) else None) (s\<lparr>dev_log := l, dev_in := rest\<rparr>)"
proof -
  have "take (Suc 6) vs = take 6 vs @ [vs ! 6]" by (rule take_Suc_conv_app_nth) (simp add: assms(2))
  then have v: "dev_in s = take 6 vs @ vs ! 6 # ws" using assms by simp
  obtain l where l: "fill_rtcdate s = Ret (reading (take 6 vs)) (s\<lparr>dev_log := l, dev_in := vs ! 6 # ws\<rparr>)"
    using fill_run [OF v] assms(2) by auto
  define s1 where "s1 = s\<lparr>dev_log := l @ [Out8 0x70 0x0a], dev_in := ws\<rparr>"
  let ?t = "reading (take 6 vs)"
  have r: "cmos_round s = (if updating (vs ! 6) then retK None else bindK fill_rtcdate (\<lambda>t2. retK (if ?t = t2 then Some ?t else None))) s1"
    using l by (simp add: cmos_round_def bindK_def cmos_read_run updating_def s1_def)
  show "\<exists>l. cmos_round s = Ret None (s\<lparr>dev_log := l, dev_in := ws\<rparr>)" if "updating (vs ! 6)" unfolding r using that by (auto simp: s1_def)
  show "\<exists>l. cmos_round s = Ret (if ?t = reading us then Some (reading us) else None) (s\<lparr>dev_log := l, dev_in := rest\<rparr>)"
    if h: "\<not> updating (vs ! 6)" "ws = us @ rest" "length us = 6"
  proof -
    obtain m where "fill_rtcdate s1 = Ret (reading us) (s1\<lparr>dev_log := m, dev_in := rest\<rparr>)" using fill_run [of s1 us rest] h(2,3) by (auto simp: s1_def)
    then show ?thesis unfolding r using h(1) by (auto simp: bindK_def s1_def)
  qed
qed

lemma cmos_round_13:
  assumes "dev_in s = vs @ rest" "length vs = 13" "\<not> updating (vs ! 6)"
  shows "\<exists>l. cmos_round s = Ret (if reading (take 6 vs) = reading (drop 7 vs) then Some (reading (drop 7 vs)) else None) (s\<lparr>dev_log := l, dev_in := rest\<rparr>)"
proof -
  have "dev_in s = take 7 vs @ drop 7 vs @ rest" "length (take 7 vs) = 7" "length (drop 7 vs) = 6" "take 7 vs ! 6 = vs ! 6" using assms by simp_all
  then show ?thesis using cmos_round_run(2) [of s "take 7 vs" "drop 7 vs @ rest" "drop 7 vs" rest] assms(3) by (simp add: min_def)
qed

lemma stable_reading: "length vs = 6 \<Longrightarrow> \<forall>v \<in> set vs. clock v = t \<Longrightarrow> reading vs = t"
  by (simp add: reading_def)

lemma cmos_loop_run:
  assumes "dev_in s = concat bads @ vs @ rest" "list_all bad_round bads" "length vs = 13" "\<forall>v \<in> set vs. clock v = t" "\<not> updating (vs ! 6)"
  shows "\<exists>s'. cmos_loop s = Ret t s' \<and> dev_in s' = rest"
  using assms(1,2)
proof (induction bads arbitrary: s)
  case Nil
  have "reading (take 6 vs) = t" "reading (drop 7 vs) = t"
    using assms(3,4) by (auto intro!: stable_reading dest: in_set_takeD in_set_dropD)
  then obtain l where "cmos_round s = Ret (Some t) (s\<lparr>dev_log := l, dev_in := rest\<rparr>)"
    using cmos_round_13 [of s vs rest] assms(3,5) Nil by auto
  then show ?case by (subst cmos_loop.simps) simp
next
  case (Cons b bads)
  let ?more = "concat bads @ vs @ rest"
  have "bad_round b" "dev_in s = b @ ?more" using Cons.prems by simp_all
  then obtain l where l: "cmos_round s = Ret None (s\<lparr>dev_log := l, dev_in := ?more\<rparr>)"
    using cmos_round_run(1) [of s b ?more] cmos_round_13 [of s b ?more] unfolding bad_round_def by auto
  obtain s' where "cmos_loop (s\<lparr>dev_log := l, dev_in := ?more\<rparr>) = Ret t s' \<and> dev_in s' = rest"
    using Cons.IH [of "s\<lparr>dev_log := l, dev_in := ?more\<rparr>"] Cons.prems(2) by auto
  then show ?case using l by (subst cmos_loop.simps) auto
qed

text \<open>
  C40: The clock. However often the clock is found in an update or its registers change between two readings, \<open>cmostime\<close>
  returns after the first round in which the registers show the same date throughout and no update is in progress. Its result is that
  date \<open>d\<close>, with the year counted from 2000: in the
  binary format, and when the status register says so, in the decimal format with two digits in a byte.
\<close>

theorem cmostime_correct:
  assumes "dev_in s = b0 # concat bads @ vs @ rest" "list_all bad_round bads" "length vs = 13" "\<forall>v \<in> set vs. clock v = t" "\<not> updating (vs ! 6)"
    "t = (if cmos b0 0x0b AND 4 = 0 then map_date bcd d else d)" "date_below 100 d"
  shows "\<exists>s'. cmostime s = Ret (d\<lparr>year := year d + 2000\<rparr>) s' \<and> dev_in s' = rest"
proof -
  have c: "conv_date (map_date bcd d) = d" using assms(7) by (simp add: conv_date_def map_date_def conv_bcd date_below_def)
  obtain s' where "cmos_loop (s\<lparr>dev_log := dev_log s @ [Out8 0x70 0x0b], dev_in := concat bads @ vs @ rest\<rparr>) = Ret t s'" "dev_in s' = rest"
    using cmos_loop_run [OF _ assms(2-5)] by force
  then show ?thesis using assms(1,6) c by (auto simp: cmostime_def bindK_def cmos_read_run Let_def)
qed

text \<open>The registers of the clock at an instant, in decimal format, with or without an update in progress.\<close>

definition shows_date :: "bool \<Rightarrow> rtcdate \<Rightarrow> source \<Rightarrow> u32" where
  "shows_date up t r = (case r of Cmos i \<Rightarrow> if i = 0 then second t else if i = 2 then minute t else if i = 4 then hour t else if i = 7 then day t
     else if i = 8 then month t else if i = 9 then year t else if i = 0x0a \<and> up then 0x80 else if i = 0x0b then 2 else 0 | _ \<Rightarrow> 0)"

theorem cmostime_correct_witness:
  "let old = \<lparr>second = 0x59, minute = 0x59, hour = 0x23, day = 0x31, month = 0x12, year = 0x24\<rparr>;
       new = \<lparr>second = 0, minute = 0, hour = 0, day = 1, month = 1, year = 0x25\<rparr>
   in \<exists>s'. cmostime (kplat_example\<lparr>dev_in := shows_date False old # replicate 7 (shows_date True old) @ replicate 13 (shows_date False new)\<rparr>) =
     Ret \<lparr>second = 0, minute = 0, hour = 0, day = 1, month = 1, year = 2025\<rparr> s' \<and> dev_in s' = []"
proof -
  let ?d = "\<lparr>second = 0, minute = 0, hour = 0, day = 1, month = 1, year = 25\<rparr>" and ?new = "\<lparr>second = 0, minute = 0, hour = 0, day = 1, month = 1, year = 0x25\<rparr>"
  let ?old = "\<lparr>second = 0x59, minute = 0x59, hour = 0x23, day = 0x31, month = 0x12, year = 0x24\<rparr>"
  have run: "\<exists>s'. cmostime (kplat_example\<lparr>dev_in := b0 # replicate 7 u @ replicate 13 v\<rparr>) = Ret (d\<lparr>year := year d + 2000\<rparr>) s' \<and> dev_in s' = []"
    if "bad_round (replicate 7 u)" "\<not> updating v" "clock v = (if cmos b0 0x0b AND 4 = 0 then map_date bcd d else d)" "date_below 100 d" for b0 u v d
    using cmostime_correct [of "kplat_example\<lparr>dev_in := b0 # replicate 7 u @ replicate 13 v\<rparr>" b0 "[replicate 7 u]" "replicate 13 v" "[]" "clock v" d] that by simp
  have 1: "bad_round (replicate 7 (shows_date True ?old))" by (simp add: bad_round_def updating_def shows_date_def cmos_def)
  have 2: "\<not> updating (shows_date False ?new)" by (simp add: updating_def shows_date_def cmos_def)
  have "clock (shows_date False ?new) = ?new" "cmos (shows_date False ?old) 0x0b = 2" by (simp_all add: clock_def shows_date_def cmos_def)
  then have 3: "clock (shows_date False ?new) = (if cmos (shows_date False ?old) 0x0b AND 4 = 0 then map_date bcd ?d else ?d)" by (simp add: map_date_def bcd_def)
  have 4: "date_below 100 ?d" by (simp add: date_below_def)
  show ?thesis using run [OF 1 2 3 4] unfolding Let_def by simp
qed

end
