(* ===== verification/Kmain.thy ===== *)
theory Kmain
  imports Apic
begin

text \<open>
  The start of the kernel: \<^verbatim>\<open>main.c\<close>, with \<^verbatim>\<open>seginit\<close> of \<^verbatim>\<open>vm.c\<close> and \<^verbatim>\<open>tvinit\<close> and \<^verbatim>\<open>idtinit\<close> of \<^verbatim>\<open>trap.c\<close>. \<open>vectors\<close> are the
  entry points of the generated \<^verbatim>\<open>vectors.S\<close>. What the linker supplies is \<open>kimage\<close>: the start and size
  of \<^verbatim>\<open>entryother\<close> and \<^verbatim>\<open>initcode\<close>, the addresses of \<^verbatim>\<open>mpenter\<close> and \<^verbatim>\<open>entrypgdir\<close>, and the disk image with
  its size. \<open>up\<close> says which of the other processors start when they are told to; one that does not is waited for forever. The
  processors end in \<^verbatim>\<open>scheduler\<close>, which is modelled in \<open>Proc\<close>.

  \<^verbatim>\<open>consoleinit\<close> ends with the call of \<open>ioapicenable\<close>, which stands here. The gate of the task state segment is part of
  \<open>switchuvm\<close>. The property says which gates and segments the code of a process can use.
\<close>

section \<open>Descriptors\<close>

definition SEG :: "64 word \<Rightarrow> u32 \<Rightarrow> u32 \<Rightarrow> 64 word \<Rightarrow> 64 word" where
  "SEG ty base lim dpl =
     ucast (drop_bit 12 lim AND 0xffff) OR push_bit 16 (ucast (base AND 0xffff)) OR push_bit 32 (ucast (drop_bit 16 base AND 0xff)) OR
     push_bit 40 ty OR push_bit 44 1 OR push_bit 45 dpl OR push_bit 47 1 OR push_bit 48 (ucast (drop_bit 28 lim)) OR
     push_bit 54 1 OR push_bit 55 1 OR push_bit 56 (ucast (drop_bit 24 base))"

definition SETGATE :: "bool \<Rightarrow> 64 word \<Rightarrow> u32 \<Rightarrow> 64 word \<Rightarrow> 64 word" where
  "SETGATE istrap sel off d =
     ucast (off AND 0xffff) OR push_bit 16 sel OR push_bit 40 (if istrap then 0xF else 0xE) OR
     push_bit 45 d OR push_bit 47 1 OR push_bit 48 (ucast (drop_bit 16 off))"

text \<open>\<^verbatim>\<open>mycpu()\<close> with interrupts off, as an index of \<^verbatim>\<open>cpus[]\<close>.\<close>

definition cpu_self :: "('z kplat_scheme, nat) kop" where
  "cpu_self =
     bindK lapicid (\<lambda>apicid.
     bindK (getK (\<lambda>s. find_idx (\<lambda>a. ucast a = apicid) (take (ncpu s) (cpu_apicid s)))) (\<lambda>r.
     case r of Some i \<Rightarrow> retK i | None \<Rightarrow> panicK ''unknown apicid''))"

definition seginit :: "('z kplat_scheme, unit) kop" where
  "seginit =
     bindK cpu_self (\<lambda>c.
     bindK (modK (\<lambda>s. s\<lparr>gdt := (gdt s)[c := (gdt s ! c)[1 := SEG (8 OR 2) 0 0xffffffff 0, 2 := SEG 2 0 0xffffffff 0,
       3 := SEG (8 OR 2) 0 0xffffffff 3, 4 := SEG 2 0 0xffffffff 3]]\<rparr>)) (\<lambda>_.
     reg_write (Lgdt (6 * 8 - 1))))"

definition tvinit :: "(nat \<Rightarrow> u32) \<Rightarrow> ('z kplat_scheme, unit) kop" where
  "tvinit vectors =
     bindK (forK [0..<256] (\<lambda>i. modK (\<lambda>s. s\<lparr>idt := (idt s)[i := SETGATE False (push_bit 3 1) (vectors i) 0]\<rparr>))) (\<lambda>_.
     bindK (modK (\<lambda>s. s\<lparr>idt := (idt s)[64 := SETGATE True (push_bit 3 1) (vectors 64) 3]\<rparr>)) (\<lambda>_.
     modK (\<lambda>s. s\<lparr>held := held s - {L_ticks}\<rparr>)))"

definition idtinit :: "('z kplat_scheme, unit) kop" where
  "idtinit = reg_write (Lidt (256 * 8 - 1))"

section \<open>Starting the processors\<close>

record kimage =
  entryother_start :: u32
  entryother_size :: u32
  mpenter_pc :: u32
  entrypgdir_addr :: u32
  initcode_start :: u32
  initcode_size :: u32
  fs_img :: "u32 \<Rightarrow> byte list"
  fs_img_size :: u32

definition entrypgdir :: "u32 list" where
  "entrypgdir = (replicate 1024 0)[0 := 0 OR PTE_P OR PTE_W OR 0x80, unat (drop_bit 22 KERNBASE :: u32) := 0 OR PTE_P OR PTE_W OR 0x80]"

definition mpmain :: "('z kplat_scheme, unit) kop" where
  "mpmain =
     bindK cpu_self (\<lambda>i.
     bindK cpu_self (\<lambda>j.
     bindK (cprintf (bytes ''cpu%d: starting %d'' @ [10]) [CInt (of_nat i), CInt (of_nat j)]) (\<lambda>_.
     bindK idtinit (\<lambda>_.
     bindK cpu_self (\<lambda>c.
     modK (\<lambda>s. s\<lparr>cpu_started := (cpu_started s)[c := True]\<rparr>))))))"

definition mpenter :: "('z kplat_scheme, unit) kop" where
  "mpenter =
     bindK switchkvm (\<lambda>_.
     bindK seginit (\<lambda>_.
     bindK lapicinit (\<lambda>_.
     mpmain)))"

definition start_cpu :: "kimage \<Rightarrow> (nat \<Rightarrow> bool) \<Rightarrow> nat \<Rightarrow> ('z kplat_scheme, unit) kop" where
  "start_cpu im up c =
     bindK cpu_self (\<lambda>self.
     if c = self then retK ()
     else
       let code = P2V 0x7000 in
       bindK kalloc (\<lambda>stack.
       bindK (modK (\<lambda>s. s\<lparr>mem := store32 (mem s) (code - 4) (stack + KSTACKSIZE)\<rparr>)) (\<lambda>_.
       bindK (modK (\<lambda>s. s\<lparr>mem := store32 (mem s) (code - 8) (mpenter_pc im)\<rparr>)) (\<lambda>_.
       bindK (modK (\<lambda>s. s\<lparr>mem := store32 (mem s) (code - 12) (V2P (entrypgdir_addr im))\<rparr>)) (\<lambda>_.
       bindK (getK (\<lambda>s. cpu_apicid s ! c)) (\<lambda>apicid.
       bindK (lapicstartap apicid (V2P code)) (\<lambda>_.
       if up c then modK (\<lambda>s. s\<lparr>cpu_started := (cpu_started s)[c := True]\<rparr>) else divergeK)))))))"

definition startothers :: "kimage \<Rightarrow> (nat \<Rightarrow> bool) \<Rightarrow> ('z kplat_scheme, unit) kop" where
  "startothers im up =
     bindK (modK (\<lambda>s. s\<lparr>mem := memmove (mem s) (P2V 0x7000) (entryother_start im) (entryother_size im)\<rparr>)) (\<lambda>_.
     bindK (getK ncpu) (\<lambda>n.
     forK [0..<n] (start_cpu im up)))"

definition kernel_main :: "kimage \<Rightarrow> (nat \<Rightarrow> u32) \<Rightarrow> (nat \<Rightarrow> bool) \<Rightarrow> ('z kplat_scheme, unit) kop" where
  "kernel_main im vectors up =
     bindK (getK kend) (\<lambda>e.
     bindK (kinit1 e (P2V (4 * 1024 * 1024))) (\<lambda>_.
     bindK kvmalloc (\<lambda>_.
     bindK mpinit (\<lambda>_.
     bindK lapicinit (\<lambda>_.
     bindK seginit (\<lambda>_.
     bindK picinit (\<lambda>_.
     bindK ioapicinit (\<lambda>_.
     bindK consoleinit (\<lambda>_.
     bindK (ioapicenable 1 0) (\<lambda>_.
     bindK uartinit (\<lambda>_.
     bindK msgqueue_init (\<lambda>_.
     bindK pinit (\<lambda>_.
     bindK (tvinit vectors) (\<lambda>_.
     bindK binit (\<lambda>_.
     bindK fileinit (\<lambda>_.
     bindK (ideinit (fs_img im) (fs_img_size im)) (\<lambda>_.
     bindK (startothers im up) (\<lambda>_.
     bindK (kinit2 (P2V (4 * 1024 * 1024)) (P2V PHYSTOP)) (\<lambda>_.
     bindK (userinit (initcode_start im) (initcode_size im)) (\<lambda>_.
     mpmain))))))))))))))))))))"

section \<open>What a process can use\<close>

definition field :: "nat \<Rightarrow> nat \<Rightarrow> 64 word \<Rightarrow> 64 word" where
  "field pos width g = take_bit width (drop_bit pos g)"

definition gate_offset :: "64 word \<Rightarrow> u32" where
  "gate_offset g = ucast (field 0 16 g) OR push_bit 16 (ucast (field 48 16 g))"

definition seg_base :: "64 word \<Rightarrow> u32" where
  "seg_base g = ucast (field 16 16 g) OR push_bit 16 (ucast (field 32 8 g)) OR push_bit 24 (ucast (field 56 8 g))"

definition seg_limit :: "64 word \<Rightarrow> u32" where
  "seg_limit g = ucast (field 0 16 g) OR push_bit 16 (ucast (field 48 4 g))"

lemma high_bits: "take_bit k x = x \<Longrightarrow> k \<le> n \<Longrightarrow> \<not> bit (x :: 64 word) n"
  by (metis bit_take_bit_iff not_less)

lemma gate_fields:
  fixes off :: u32
  assumes "take_bit 16 sel = sel" "take_bit 2 d = d" "take_bit 4 ty = ty"
  defines "g \<equiv> ucast (take_bit 16 off) OR push_bit 16 sel OR push_bit 40 ty OR push_bit 45 d OR push_bit 47 1 OR push_bit 48 (ucast (drop_bit 16 off))"
  shows "gate_offset g = off" "field 16 16 g = sel" "field 45 2 g = d" "field 47 1 g = 1" "field 40 5 g = ty" "field 32 8 g = 0"
proof -
  note hb = assms(1-3) [THEN high_bits]
  have "(2 :: 64 word) ^ 47 = 140737488355328" by simp
  then have b47: "bit (140737488355328 :: 64 word) n \<longleftrightarrow> n = 47" for n using bit_exp_iff [where m = 47 and n = n and ?'a = "64 word"] by (auto simp del: power_numeral)
  have b: "bit g n \<longleftrightarrow> (if n < 16 then bit off n else if n < 32 then bit sel (n - 16) else if n < 40 then False else if n < 44 then bit ty (n - 40)
      else if n < 45 then False else if n < 47 then bit d (n - 45) else if n = 47 then True else n < 64 \<and> bit off (n - 32))" for n
    using hb b47 unfolding g_def by (auto simp: bit_simps not_less)
  show "gate_offset g = off" unfolding gate_offset_def field_def by (rule bit_word_eqI) (auto simp: bit_simps b)
  show "field 47 1 g = 1" unfolding field_def using b [of 47] by (simp add: bit_iff_odd_drop_bit take_bit_eq_mod odd_iff_mod_2_eq_one)
  show "field 40 5 g = ty" unfolding field_def using hb by (auto intro!: bit_word_eqI simp: bit_simps b not_less split: if_splits)
  show "field 16 16 g = sel" "field 45 2 g = d" "field 32 8 g = 0"
    unfolding field_def using hb by (auto intro!: bit_word_eqI simp: bit_simps b not_less)
qed

text \<open>
  A present interrupt or trap gate (with the bits of a system descriptor and no reserved bit), and a present segment of code or data with
  base 0, counted in pages up to the limit \<open>0xFFFFF\<close>, of 32 bits. \<open>user_usable\<close>: a descriptor that is present and has the privilege level of processes.
\<close>

definition user_usable :: "64 word \<Rightarrow> bool" where
  "user_usable g \<longleftrightarrow> field 47 1 g = 1 \<and> field 45 2 g = 3"

definition user_gate :: "u32 \<Rightarrow> bool \<Rightarrow> 64 word \<Rightarrow> bool" where
  "user_gate off user g \<longleftrightarrow> gate_offset g = off \<and> field 16 16 g = 8 \<and> field 47 1 g = 1 \<and>
     field 32 8 g = 0 \<and> field 40 5 g = (if user then 0xF else 0xE) \<and> field 45 2 g = (if user then 3 else 0)"

definition flat_segment :: "64 word \<Rightarrow> 64 word \<Rightarrow> 64 word \<Rightarrow> bool" where
  "flat_segment ty dpl g \<longleftrightarrow> seg_base g = 0 \<and> seg_limit g = 0xFFFFF \<and> field 40 4 g = ty \<and> field 44 1 g = 1 \<and> field 45 2 g = dpl \<and> field 47 1 g = 1 \<and>
     field 52 4 g = 0xC"

lemma SETGATE_user: "user_gate off user (SETGATE user (push_bit 3 1) off (if user then 3 else 0))"
proof -
  have m: "off AND 0xffff = take_bit 16 off" by (simp add: take_bit_eq_mask mask_eq_exp_minus_1)
  show ?thesis using gate_fields [of 8 "if user then 3 else 0" "if user then 0xF else 0xE" off] by (simp add: user_gate_def SETGATE_def m split: if_splits)
qed

lemma SEG_flat:
  "flat_segment 10 0 (SEG (8 OR 2) 0 0xffffffff 0)" "flat_segment 2 0 (SEG 2 0 0xffffffff 0)"
  "flat_segment 10 3 (SEG (8 OR 2) 0 0xffffffff 3)" "flat_segment 2 3 (SEG 2 0 0xffffffff 3)"
  by (simp_all add: flat_segment_def SEG_def seg_base_def seg_limit_def field_def)

lemma fill_gates:
  "\<exists>l. forK [0..<n] (\<lambda>i. modK (\<lambda>s. s\<lparr>idt := (idt s)[i := f i]\<rparr>)) s = Ret () (s\<lparr>idt := l\<rparr>) \<and> length l = length (idt s) \<and>
     (\<forall>i < length l. l ! i = (if i < n then f i else idt s ! i))"
proof (induction n)
  case 0
  then show ?case by (intro exI [of _ "idt s"]) simp
next
  case (Suc n)
  then obtain l where l: "forK [0..<n] (\<lambda>i. modK (\<lambda>s. s\<lparr>idt := (idt s)[i := f i]\<rparr>)) s = Ret () (s\<lparr>idt := l\<rparr>)" "length l = length (idt s)"
    "\<forall>i < length l. l ! i = (if i < n then f i else idt s ! i)" by blast
  have "forK [0..<Suc n] (\<lambda>i. modK (\<lambda>s. s\<lparr>idt := (idt s)[i := f i]\<rparr>)) s = Ret () (s\<lparr>idt := l[n := f n]\<rparr>)"
    using l(1) by (simp add: forK_append bindK_run del: modK_run)
  then show ?case using l(2,3) by (intro exI [of _ "l[n := f n]"]) (auto simp: nth_list_update less_Suc_eq simp del: modK_run upt_Suc)
qed

lemma cpu_self_keeps: "cpu_self s = Ret c s' \<Longrightarrow> \<exists>v. s' = s\<lparr>dev_in := v\<rparr>"
  by (auto simp: cpu_self_def lapicid_def reg_read_def bindK_def split: if_splits list.splits option.splits intro: exI [of _ "dev_in s"])

lemma cpu_self_index: "cpu_self s = Ret c s' \<Longrightarrow> c < ncpu s"
  by (auto simp: cpu_self_def lapicid_def reg_read_def bindK_def split: if_splits list.splits option.splits dest!: find_idx_SomeD)

lemma zero_not_usable: "\<not> user_usable 0"
  by (simp add: user_usable_def field_def)

lemma flat_usable: "flat_segment ty dpl g \<Longrightarrow> user_usable g \<longleftrightarrow> dpl = 3"
  by (auto simp: flat_segment_def user_usable_def)

text \<open>
  C39: Protection. After \<open>seginit\<close> on a processor and \<open>tvinit\<close> every one of the 256 gates is present and leads to its entry point in
  the code segment of the kernel, and the gate of system calls is the only one that a process can call with an
  \<^verbatim>\<open>int\<close> instruction and the only one that leaves interrupts on. The four segments of the processor span the whole address
  space, and of the six entries of its table only the two for processes can be used by one. (The sixth is filled in
  by \<^verbatim>\<open>switchuvm\<close> later.) The tables of the other processors are left alone.
\<close>

theorem user_entry_points:
  assumes "cpu_self s = Ret c s0" "length (idt s) = 256" "ncpu s \<le> NCPU" "length (gdt s) = NCPU" "gdt s ! c = replicate 6 0"
  shows "\<exists>s'. bindK seginit (\<lambda>_. tvinit vectors) s = Ret () s' \<and> (\<forall>i < 256. user_gate (vectors i) (i = 64) (idt s' ! i)) \<and>
    flat_segment 10 0 (gdt s' ! c ! 1) \<and> flat_segment 2 0 (gdt s' ! c ! 2) \<and> flat_segment 10 3 (gdt s' ! c ! 3) \<and> flat_segment 2 3 (gdt s' ! c ! 4) \<and>
    (\<forall>j < 6. user_usable (gdt s' ! c ! j) \<longleftrightarrow> j = 3 \<or> j = 4) \<and> (\<forall>k. k \<noteq> c \<longrightarrow> gdt s' ! k = gdt s ! k)"
proof -
  obtain v where s0: "s0 = s\<lparr>dev_in := v\<rparr>" using cpu_self_keeps [OF assms(1)] by blast
  have c: "c < NCPU" using cpu_self_index [OF assms(1)] assms(3) by simp
  let ?g = "(gdt s ! c)[1 := SEG (8 OR 2) 0 0xffffffff 0, 2 := SEG 2 0 0xffffffff 0, 3 := SEG (8 OR 2) 0 0xffffffff 3, 4 := SEG 2 0 0xffffffff 3]"
  define s1 where "s1 = s\<lparr>dev_in := v, gdt := (gdt s)[c := ?g], dev_log := dev_log s @ [Lgdt 47]\<rparr>"
  have r1: "seginit s = Ret () s1" using assms(1) s0 by (simp add: seginit_def bindK_def reg_write_def s1_def)
  obtain l where l: "forK [0..<256] (\<lambda>i. modK (\<lambda>s. s\<lparr>idt := (idt s)[i := SETGATE False (push_bit 3 1) (vectors i) 0]\<rparr>)) s1 = Ret () (s1\<lparr>idt := l\<rparr>)"
    "length l = 256" "\<forall>i < 256. l ! i = SETGATE False (push_bit 3 1) (vectors i) 0"
    using fill_gates [of 256 "\<lambda>i. SETGATE False (push_bit 3 1) (vectors i) 0" s1] assms(2) by (auto simp: s1_def)
  define s2 where "s2 = s1\<lparr>idt := l[64 := SETGATE True (push_bit 3 1) (vectors 64) 3], held := held s - {L_ticks}\<rparr>"
  have "bindK seginit (\<lambda>_. tvinit vectors) s = Ret () s2" using r1 l(1) unfolding tvinit_def s2_def bindK_def by (simp add: s1_def)
  moreover have "user_gate (vectors i) (i = 64) (idt s2 ! i)" if "i < 256" for i
    using SETGATE_user [of "vectors i" "i = 64"] that l(2,3) by (cases "i = 64") (simp_all add: s2_def)
  moreover have g: "flat_segment 10 0 (gdt s2 ! c ! 1)" "flat_segment 2 0 (gdt s2 ! c ! 2)" "flat_segment 10 3 (gdt s2 ! c ! 3)" "flat_segment 2 3 (gdt s2 ! c ! 4)"
    "gdt s2 ! c ! 0 = 0" "gdt s2 ! c ! 5 = 0"
    using SEG_flat assms(4,5) c by (simp_all add: s2_def s1_def)
  moreover have "user_usable (gdt s2 ! c ! j) \<longleftrightarrow> j = 3 \<or> j = 4" if "j < 6" for j
  proof -
    have "j = 0 \<or> j = 1 \<or> j = 2 \<or> j = 3 \<or> j = 4 \<or> j = 5" using that by auto
    then show ?thesis using g(5,6) g(1-4) [THEN flat_usable] zero_not_usable by auto
  qed
  moreover have "gdt s2 ! k = gdt s ! k" if "k \<noteq> c" for k using that by (simp add: s2_def s1_def)
  ultimately show ?thesis by blast
qed

theorem user_entry_points_witness:
  "\<exists>s'. bindK seginit (\<lambda>_. tvinit of_nat) (kplat_example\<lparr>ncpu := 1, idt := replicate 256 0, gdt := replicate 8 (replicate 6 0)\<rparr>) = Ret () s' \<and>
     user_gate 64 True (idt s' ! 64) \<and> user_gate 14 False (idt s' ! 14) \<and> flat_segment 2 3 (gdt s' ! 0 ! 4) \<and> \<not> user_usable (gdt s' ! 0 ! 1)"
proof -
  let ?s = "kplat_example\<lparr>ncpu := 1, idt := replicate 256 0, gdt := replicate 8 (replicate 6 0)\<rparr>"
  have b: "lapic_base kplat_example = 0" by (simp add: kplat_example_def ksys.extend_def kplat.fields_def)
  have "cpu_self ?s = Ret 0 ?s" by (simp add: cpu_self_def lapicid_def bindK_def b kplat_example_state)
  then obtain s' where s': "bindK seginit (\<lambda>_. tvinit of_nat) ?s = Ret () s'" "\<And>i. i < 256 \<Longrightarrow> user_gate (of_nat i) (i = 64) (idt s' ! i)" "flat_segment 2 3 (gdt s' ! 0 ! 4)"
    "\<And>j. j < 6 \<Longrightarrow> user_usable (gdt s' ! 0 ! j) \<longleftrightarrow> j = 3 \<or> j = 4"
    using user_entry_points [of ?s 0 ?s "of_nat"] by auto
  show ?thesis using s'(1,3) s'(2) [of 64] s'(2) [of 14] s'(4) [of 1] by auto
qed

end
