(* ===== verification/Userprogs.thy ===== *)
theory Userprogs
  imports Grep Uprintf
begin

text \<open>
  Small user programs: \<^verbatim>\<open>wc.c\<close>, \<^verbatim>\<open>cat.c\<close>, \<^verbatim>\<open>echo.c\<close>, \<^verbatim>\<open>ls.c\<close>, \<^verbatim>\<open>rm.c\<close>, \<^verbatim>\<open>mkdir.c\<close>, \<^verbatim>\<open>ln.c\<close>, \<^verbatim>\<open>kill.c\<close>, \<^verbatim>\<open>copy.c\<close>,
  \<^verbatim>\<open>client.c\<close> and \<^verbatim>\<open>server.c\<close>, as what they write to which descriptor. The kernel is seen through the results of the system
  calls: \<open>rd\<close> is what one \<^verbatim>\<open>read\<close> returns, and after the last one \<^verbatim>\<open>read\<close> returns 0; calls that change the
  file system pass a state \<open>'w\<close> along. The counters of \<^verbatim>\<open>wc\<close> are unbounded.
\<close>

type_synonym out = "(nat \<times> byte list) list"

datatype rd = Data "byte list" | Failed

text \<open>\<^verbatim>\<open>printf(fd, fmt, ...)\<close> with arguments that fit the format.\<close>

definition say :: "nat \<Rightarrow> byte list \<Rightarrow> carg list \<Rightarrow> out" where
  "say fd fmt as = [(fd, the (u_printf fmt as))]"

section \<open>wc\<close>

record wc =
  wc_l :: int
  wc_w :: int
  wc_c :: int
  inword :: bool

definition is_space :: "byte \<Rightarrow> bool" where
  "is_space c \<longleftrightarrow> strchr_list c [32, 13, 9, 10, 11] \<noteq> None"

definition wc_byte :: "byte \<Rightarrow> wc \<Rightarrow> wc" where
  "wc_byte b s =
     (let s = s\<lparr>wc_c := wc_c s + 1\<rparr>;
          s = (if b = 10 then s\<lparr>wc_l := wc_l s + 1\<rparr> else s)
      in if is_space b then s\<lparr>inword := False\<rparr>
         else if \<not> inword s then s\<lparr>wc_w := wc_w s + 1, inword := True\<rparr>
         else s)"

text \<open>The loop of \<open>wc\<close>; \<open>None\<close> when a read fails.\<close>

fun wc_loop :: "rd list \<Rightarrow> wc \<Rightarrow> wc option" where
  "wc_loop [] s = Some s"
| "wc_loop (Failed # rs) s = None"
| "wc_loop (Data bs # rs) s = (if bs = [] then Some s else wc_loop rs (fold wc_byte bs s))"

text \<open>What is written, and whether the program goes on.\<close>

definition wc_file :: "rd list \<Rightarrow> byte list \<Rightarrow> out \<times> bool" where
  "wc_file rs name =
     (case wc_loop rs \<lparr>wc_l = 0, wc_w = 0, wc_c = 0, inword = False\<rparr> of
        None \<Rightarrow> (say 1 (bytes ''wc: read error'' @ [10]) [], False)
      | Some s \<Rightarrow>
          (say 1 (bytes ''%d %d %d %s'' @ [10]) [CInt (of_int (wc_l s)), CInt (of_int (wc_w s)), CInt (of_int (wc_c s)), CStr (Some name)], True))"

fun wc_files :: "(byte list \<Rightarrow> rd list option) \<Rightarrow> byte list list \<Rightarrow> out" where
  "wc_files opn [] = []"
| "wc_files opn (f # fs) =
     (case opn f of
        None \<Rightarrow> say 1 (bytes ''wc: cannot open %s'' @ [10]) [CStr (Some f)]
      | Some rs \<Rightarrow> (case wc_file rs f of (w, go) \<Rightarrow> w @ (if go then wc_files opn fs else [])))"

definition wc_main :: "rd list \<Rightarrow> (byte list \<Rightarrow> rd list option) \<Rightarrow> byte list list \<Rightarrow> out" where
  "wc_main stdin opn argv = (if length argv \<le> 1 then fst (wc_file stdin []) else wc_files opn (tl argv))"

section \<open>cat\<close>

text \<open>\<open>wok\<close> says of each \<^verbatim>\<open>write\<close> whether it wrote everything; when it is used up they all do.\<close>

fun cat :: "rd list \<Rightarrow> bool list \<Rightarrow> out \<times> bool list \<times> bool" where
  "cat [] wok = ([], wok, True)"
| "cat (Failed # rs) wok = (say 1 (bytes ''cat: read error'' @ [10]) [], wok, False)"
| "cat (Data bs # rs) wok =
     (if bs = [] then ([], wok, True)
      else if wok \<noteq> [] \<and> \<not> hd wok then ((1, bs) # say 1 (bytes ''cat: write error'' @ [10]) [], tl wok, False)
      else (case cat rs (tl wok) of (w, wok, go) \<Rightarrow> ((1, bs) # w, wok, go)))"

fun cat_files :: "(byte list \<Rightarrow> rd list option) \<Rightarrow> byte list list \<Rightarrow> bool list \<Rightarrow> out" where
  "cat_files opn [] wok = []"
| "cat_files opn (f # fs) wok =
     (case opn f of
        None \<Rightarrow> say 1 (bytes ''cat: cannot open %s'' @ [10]) [CStr (Some f)]
      | Some rs \<Rightarrow> (case cat rs wok of (w, wok, go) \<Rightarrow> w @ (if go then cat_files opn fs wok else [])))"

definition cat_main :: "rd list \<Rightarrow> (byte list \<Rightarrow> rd list option) \<Rightarrow> byte list list \<Rightarrow> bool list \<Rightarrow> out" where
  "cat_main stdin opn argv wok = (if length argv \<le> 1 then fst (cat stdin wok) else cat_files opn (tl argv) wok)"

section \<open>echo, rm, mkdir, ln and kill\<close>

fun echo_loop :: "byte list list \<Rightarrow> out" where
  "echo_loop [] = []"
| "echo_loop (a # as) = say 1 (bytes ''%s%s'') [CStr (Some a), CStr (Some (if as \<noteq> [] then [32] else [10]))] @ echo_loop as"

definition echo_main :: "byte list list \<Rightarrow> out" where
  "echo_main argv = echo_loop (tl argv)"

fun rm_loop :: "(byte list \<Rightarrow> 'w \<Rightarrow> int \<times> 'w) \<Rightarrow> byte list list \<Rightarrow> 'w \<Rightarrow> out \<times> 'w" where
  "rm_loop unlink [] s = ([], s)"
| "rm_loop unlink (f # fs) s =
     (case unlink f s of (r, s) \<Rightarrow>
        if r < 0 then (say 2 (bytes ''rm: %s failed to delete'' @ [10]) [CStr (Some f)], s) else rm_loop unlink fs s)"

definition rm_main :: "(byte list \<Rightarrow> 'w \<Rightarrow> int \<times> 'w) \<Rightarrow> byte list list \<Rightarrow> 'w \<Rightarrow> out \<times> 'w" where
  "rm_main unlink argv s =
     (if length argv < 2 then (say 2 (bytes ''Usage: rm files...'' @ [10]) [], s) else rm_loop unlink (tl argv) s)"

fun mkdir_loop :: "(byte list \<Rightarrow> 'w \<Rightarrow> int \<times> 'w) \<Rightarrow> byte list list \<Rightarrow> 'w \<Rightarrow> out \<times> 'w" where
  "mkdir_loop mkdir [] s = ([], s)"
| "mkdir_loop mkdir (f # fs) s =
     (case mkdir f s of (r, s) \<Rightarrow>
        if r < 0 then (say 2 (bytes ''mkdir: %s failed to create'' @ [10]) [CStr (Some f)], s) else mkdir_loop mkdir fs s)"

definition mkdir_main :: "(byte list \<Rightarrow> 'w \<Rightarrow> int \<times> 'w) \<Rightarrow> byte list list \<Rightarrow> 'w \<Rightarrow> out \<times> 'w" where
  "mkdir_main mkdir argv s =
     (if length argv < 2 then (say 2 (bytes ''Usage: mkdir files...'' @ [10]) [], s) else mkdir_loop mkdir (tl argv) s)"

definition ln_main :: "(byte list \<Rightarrow> byte list \<Rightarrow> 'w \<Rightarrow> int \<times> 'w) \<Rightarrow> byte list list \<Rightarrow> 'w \<Rightarrow> out \<times> 'w" where
  "ln_main link argv s =
     (if length argv \<noteq> 3 then (say 2 (bytes ''Usage: ln old new'' @ [10]) [], s)
      else (case link (argv ! 1) (argv ! 2) s of (r, s) \<Rightarrow>
        (if r < 0 then say 2 (bytes ''link %s %s: failed'' @ [10]) [CStr (Some (argv ! 1)), CStr (Some (argv ! 2))] else [], s)))"

text \<open>\<open>atoi\<close> of a string that is given as a list.\<close>

definition atoi_list :: "byte list \<Rightarrow> u32" where
  "atoi_list bs = fold (\<lambda>d n. n * 10 + ucast d - 48) (takeWhile (\<lambda>d. 48 \<le> d \<and> d \<le> 57) bs) 0"

fun kill_loop :: "(u32 \<Rightarrow> 'w \<Rightarrow> int \<times> 'w) \<Rightarrow> byte list list \<Rightarrow> 'w \<Rightarrow> 'w" where
  "kill_loop call [] s = s"
| "kill_loop call (a # as) s = kill_loop call as (snd (call (atoi_list a) s))"

definition kill_main :: "(u32 \<Rightarrow> 'w \<Rightarrow> int \<times> 'w) \<Rightarrow> byte list list \<Rightarrow> 'w \<Rightarrow> out \<times> 'w" where
  "kill_main call argv s =
     (if length argv < 2 then (say 2 (bytes ''usage: kill pid...'' @ [10]) [], s) else ([], kill_loop call (tl argv) s))"

section \<open>copy, client and server\<close>

definition copy_main :: "(byte list \<Rightarrow> byte list \<Rightarrow> 'w \<Rightarrow> int \<times> 'w) \<Rightarrow> byte list list \<Rightarrow> 'w \<Rightarrow> out \<times> 'w" where
  "copy_main call argv s =
     (if length argv \<noteq> 3 then (say 2 (bytes ''Usage: copy <source> <destination>'' @ [10]) [], s)
      else (case call (argv ! 1) (argv ! 2) s of (r, s) \<Rightarrow>
        (if r < 0 then say 2 (bytes ''Copy failed'' @ [10]) [] else say 1 (bytes ''Copy successful'' @ [10]) [], s)))"

text \<open>\<open>rcv\<close> and \<open>snd_msg\<close> are the system calls \<^verbatim>\<open>recv\<close>, with the bytes it leaves in the buffer, and \<^verbatim>\<open>send\<close>; \<open>ppid\<close> is what \<^verbatim>\<open>getppid\<close> returns.\<close>

definition client_main :: "(int \<Rightarrow> 'w \<Rightarrow> int \<times> byte list \<times> 'w) \<Rightarrow> u32 \<Rightarrow> 'w \<Rightarrow> out \<times> 'w" where
  "client_main rcv ppid s =
     (case rcv 1 s of (r, buf, s) \<Rightarrow>
        (if r < 0 then say 1 (bytes ''Receiver: No message found for type %d'' @ [10]) [CInt 1]
         else say 1 (bytes ''Message received: %s parent id %d'' @ [10]) [CStr (Some (cstr buf)), CInt ppid], s))"

definition server_main :: "(int \<Rightarrow> byte list \<Rightarrow> 'w \<Rightarrow> int \<times> 'w) \<Rightarrow> 'w \<Rightarrow> out \<times> 'w" where
  "server_main snd_msg s =
     (case snd_msg 1 (bytes ''Message from sender!'') s of (r, s) \<Rightarrow>
        (if r < 0 then say 1 (bytes ''Sender: Failed to send message'' @ [10]) []
         else say 1 (bytes ''Sender: Message sent: %s'' @ [10]) [CStr (Some (bytes ''Message from sender!''))], s))"

section \<open>ls\<close>

text \<open>
  \<open>name_start path i\<close> is the index of \<^verbatim>\<open>p + 1\<close> after the loop of \<open>fmtname\<close>, when \<^verbatim>\<open>p\<close> starts at index \<open>i\<close>. The
  byte after the string is its terminating zero. \<open>fmtname\<close> gives the string at the address it returns.
\<close>

fun name_start :: "byte list \<Rightarrow> nat \<Rightarrow> nat" where
  "name_start path 0 = (if path \<noteq> [] \<and> path ! 0 = 47 then 1 else 0)"
| "name_start path (Suc i) = (if Suc i < length path \<and> path ! Suc i = 47 then Suc (Suc i) else name_start path i)"

definition fmtname :: "byte list \<Rightarrow> byte list" where
  "fmtname path =
     (let p = drop (name_start path (length path)) path
      in if length p \<ge> 14 then p else p @ replicate (14 - length p) 32)"

record ustat =
  st_type :: u16
  st_ino :: u32
  st_size :: u32

definition ls_line :: "byte list \<Rightarrow> ustat \<Rightarrow> out" where
  "ls_line path st = say 1 (bytes ''%s %d %d %d'' @ [10]) [CStr (Some (fmtname path)), CInt (scast (st_type st)), CInt (st_ino st), CInt (st_size st)]"

text \<open>The loop over the entries of a directory, which ends with the first read of another length than 16.\<close>

fun ls_entries :: "(byte list \<Rightarrow> ustat option) \<Rightarrow> byte list \<Rightarrow> byte list list \<Rightarrow> out" where
  "ls_entries stat path [] = []"
| "ls_entries stat path (de # des) =
     (if length de \<noteq> 16 then []
      else if get16 de 0 = 0 then ls_entries stat path des
      else
        let buf = path @ [47] @ cstr (drop 2 de)
        in (case stat buf of
              None \<Rightarrow> say 1 (bytes ''ls: cannot stat %s'' @ [10]) [CStr (Some buf)]
            | Some st \<Rightarrow> ls_line buf st) @ ls_entries stat path des)"

text \<open>\<open>opn\<close> is what opening a path gives: the result of \<^verbatim>\<open>fstat\<close> and what the reads return.\<close>

definition ls :: "(byte list \<Rightarrow> (ustat option \<times> byte list list) option) \<Rightarrow> (byte list \<Rightarrow> ustat option) \<Rightarrow> byte list \<Rightarrow> out" where
  "ls opn stat path =
     (case opn path of
        None \<Rightarrow> say 2 (bytes ''ls: cannot open %s'' @ [10]) [CStr (Some path)]
      | Some (None, _) \<Rightarrow> say 2 (bytes ''ls: cannot stat %s'' @ [10]) [CStr (Some path)]
      | Some (Some st, des) \<Rightarrow>
          if st_type st = T_FILE then ls_line path st
          else if st_type st = T_DIR then
            (if length path + 1 + 14 + 1 > 512 then say 1 (bytes ''ls: path too long'' @ [10]) []
             else ls_entries stat path des)
          else [])"

definition ls_main :: "(byte list \<Rightarrow> (ustat option \<times> byte list list) option) \<Rightarrow> (byte list \<Rightarrow> ustat option) \<Rightarrow> byte list list \<Rightarrow> out" where
  "ls_main opn stat argv = (if length argv < 2 then ls opn stat [46] else concat (map (ls opn stat) (tl argv)))"

section \<open>What they compute\<close>

definition word_starts :: "byte list \<Rightarrow> nat set" where
  "word_starts bs = {i. i < length bs \<and> \<not> is_space (bs ! i) \<and> (i = 0 \<or> is_space (bs ! (i - 1)))}"

lemma word_starts_snoc:
  "card (word_starts (bs @ [b])) = card (word_starts bs) + (if \<not> is_space b \<and> (bs = [] \<or> is_space (last bs)) then 1 else 0)"
proof -
  have fin: "finite (word_starts bs)" by (simp add: word_starts_def)
  have "word_starts (bs @ [b]) = word_starts bs \<union> (if \<not> is_space b \<and> (bs = [] \<or> is_space (last bs)) then {length bs} else {})"
    by (cases "bs = []") (auto simp: word_starts_def nth_append last_conv_nth less_Suc_eq)
  moreover have "length bs \<notin> word_starts bs" by (simp add: word_starts_def)
  ultimately show ?thesis using fin by simp
qed

lemma wc_fold:
  "fold wc_byte bs \<lparr>wc_l = 0, wc_w = 0, wc_c = 0, inword = False\<rparr> =
     \<lparr>wc_l = int (count_list bs 10), wc_w = int (card (word_starts bs)), wc_c = int (length bs), inword = (bs \<noteq> [] \<and> \<not> is_space (last bs))\<rparr>"
proof (induction bs rule: rev_induct)
  case Nil
  then show ?case by (simp add: word_starts_def)
next
  case (snoc b bs)
  then show ?case by (auto simp: word_starts_snoc wc_byte_def Let_def)
qed

lemma wc_loop_Data: "wc_loop (map Data cs) s = Some (fold wc_byte (concat (takeWhile (\<lambda>c. c \<noteq> []) cs)) s)"
  by (induction cs arbitrary: s) simp_all

lemma cat_Data: "cat (map Data cs) [] = (map (Pair 1) (takeWhile (\<lambda>c. c \<noteq> []) cs), [], True)"
  by (induction cs) simp_all

text \<open>\<open>cat\<close> copies its input, \<open>echo\<close> separates its arguments with blanks, and \<open>fmtname\<close> pads the last element of a path.\<close>

lemma cat_copies: "concat (map snd (fst (cat (map Data cs) []))) = concat (takeWhile (\<lambda>c. c \<noteq> []) cs)"
  by (simp add: cat_Data comp_def)

lemma echo_writes: "as \<noteq> [] \<Longrightarrow> concat (map snd (echo_loop as)) = concat (map (\<lambda>a. a @ [32]) (butlast as)) @ last as @ [10]"
  by (induction as) (simp_all add: say_def u_printf_def bytes_def)

lemma name_start_last:
  assumes "47 \<notin> set name"
  shows "i \<le> length name + 1 \<Longrightarrow> name_start (dir @ [47] @ name) (length dir + i) = length dir + 1"
proof (induction i)
  case 0
  then show ?case by (cases dir) (simp_all add: nth_append)
next
  case (Suc i)
  have "(dir @ [47] @ name) ! Suc (length dir + i) \<noteq> 47" if "i < length name"
    using nth_mem [OF that] assms by (auto simp: nth_append nth_Cons')
  then show ?case using Suc by (cases "i = length name") simp_all
qed

lemma fmtname_last:
  assumes "47 \<notin> set name" "length name \<le> 14"
  shows "fmtname (dir @ [47] @ name) = name @ replicate (14 - length name) 32"
  using name_start_last [OF assms(1), of "length name + 1" dir] assms(2) by (auto simp: fmtname_def Let_def)

text \<open>C38: Counting. However \<^verbatim>\<open>read\<close> cuts the input into pieces, \<^verbatim>\<open>wc\<close> prints the number of newlines, the number of words, which are
  the positions of a character that is not blank at the start or after a blank one, and the number of bytes,
  up to the first empty read.\<close>

theorem wc_counts:
  fixes cs :: "byte list list"
  defines "input \<equiv> concat (takeWhile (\<lambda>c. c \<noteq> []) cs)"
  shows "wc_main (map Data cs) opn [prog] =
    [(1, u_printint (of_nat (count_list input 10)) 10 True @ [32] @ u_printint (of_nat (card (word_starts input))) 10 True @ [32] @
         u_printint (of_nat (length input)) 10 True @ [32, 10])]"
  by (simp add: wc_main_def wc_file_def wc_loop_Data wc_fold input_def say_def u_printf_def bytes_def)

end
