(* ===== verification/Spec2Isabelle.thy ===== *)
theory Spec2Isabelle
  imports Vm_Copy Spinlock Proc_Inv Trap Log_Txn Grep Rt_Sched Lottery Uprintf Sh_Run Proc_Life Path_Props Ide Msg_Props Umalloc_Props Mkfs_Props Boot Kmain Userprogs
begin

text \<open>
  A verification development of the xv6 kernel under \<^verbatim>\<open>src/xv6-public\<close> with the additions of this
  repository: messages, shared memory, signals, \<^verbatim>\<open>getppid\<close>, \<^verbatim>\<open>ps\<close>, \<^verbatim>\<open>copy\<close>; of the programs that come
  with it; and of the three scheduling simulations under \<^verbatim>\<open>src\<close>.

  \<^bold>\<open>How the kernel is modelled.\<close> A kernel function is a function from the state of the kernel to an
  outcome (theory \<open>Kmonad\<close>): it returns, panics, gives the processor up in \<^verbatim>\<open>sched\<close>, or loops
  forever. Operations are put together with \<open>bindK\<close>, in the order of the statements of the C code.
  What C leaves undefined ends in a panic of the model whose text starts with \<^verbatim>\<open>undefined:\<close>. The
  state is a tower of records, one level per source file: locks held, memory and free list, page
  tables and registers, process table, sleep locks, buffers and disk, log, inodes, console, open
  files and pipes, ticks with the message queue and the shared page. Machine integers are words of
  their width; an \<^verbatim>\<open>int\<close> that is only compared and counted is an \<open>int\<close>. Code after a call that gives
  the processor up is an operation of its own (\<open>sleep_return\<close>, \<open>piperead_return\<close>, \<dots>), so that steps of
  other processes come in between. A loop that the code bounds by a table is a recursion over the
  table; loops whose length depends on their arguments (\<open>copyout\<close>, \<open>readi_loop\<close>, \<open>writei_loop\<close>, \<open>namex_loop\<close>) are
  functions with a termination proof; the walk over the list of buffers takes at most 31 steps and
  is \<open>Diverge\<close> beyond, which \<open>bcache_refines\<close> excludes.

  \<^bold>\<open>The parts and their theories.\<close>

  \<^item> \<open>Strings\<close>: \<^verbatim>\<open>string.c\<close> and the same routines of \<^verbatim>\<open>ulib.c\<close>, on byte memory. The word-wise
    \<^verbatim>\<open>memset\<close> equals the byte-wise one; \<^verbatim>\<open>memmove\<close> is right for overlapping regions;
    \<^verbatim>\<open>safestrcpy\<close> always terminates the string.
  \<^item> \<open>Memlayout\<close>, \<open>Kalloc\<close>: \<^verbatim>\<open>memlayout.h\<close>, \<^verbatim>\<open>mmu.h\<close>, \<^verbatim>\<open>kalloc.c\<close>. \<open>kmem_inv\<close>: the free list is a
    chain of distinct managed pages.
  \<^item> \<open>Vm\<close>, \<open>Pagetable\<close>, \<open>Vm_Props\<close>, \<open>Vm_Space\<close>, \<open>Vm_Copy\<close>, \<open>Vm_Keeps\<close>: \<^verbatim>\<open>vm.c\<close>. \<open>as_wf\<close> describes an
    address space; growing, shrinking, copying and freeing one do what they should on every branch,
    running out of memory included, and no page is lost.
  \<^item> \<open>Spinlock\<close>: \<^verbatim>\<open>spinlock.c\<close> on several processors as a step relation; mutual exclusion, and the
    refinement of the abstract lock operations of \<open>Kmonad\<close>.
  \<^item> \<open>Proc\<close>, \<open>Proc_Props\<close>, \<open>Proc_Inv\<close>: \<^verbatim>\<open>proc.c\<close> apart from \<^verbatim>\<open>fork\<close>, \<^verbatim>\<open>exit\<close> and \<^verbatim>\<open>userinit\<close>, which need open files and
    are in \<open>Fork\<close>. \<open>pinv\<close> is the invariant of the process table: distinct pids below \<^verbatim>\<open>nextpid\<close>, only
    the current process running, parents in the table.
  \<^item> \<open>Sleeplock\<close>, \<open>Sleeplock_Props\<close>: \<^verbatim>\<open>sleeplock.c\<close>.
  \<^item> \<open>Bio\<close>, \<open>Bio_Ring\<close>, \<open>Bio_Props\<close>, \<open>Bio_Spec\<close>, \<open>Bio_Init\<close>: \<^verbatim>\<open>bio.c\<close> on the memory disk of
    \<^verbatim>\<open>memide.c\<close>. The locale \<open>block_store\<close> is the contract of the cache, interpreted on it.
  \<^item> \<open>Log\<close>, \<open>Log_Props\<close>, \<open>Log_Txn\<close>: \<^verbatim>\<open>log.c\<close>. \<open>disk_hist\<close>, which no operation reads, lists the writes to
    the disk, so that a crash is a prefix of it. A transaction is atomic.
  \<^item> \<open>Bytes\<close>, \<open>Inode\<close>, \<open>Fs\<close>: \<^verbatim>\<open>fs.c\<close>, with the layout of the on-disk structures.
  \<^item> \<open>Console\<close>: \<^verbatim>\<open>console.c\<close>, \<^verbatim>\<open>kbd.c\<close>, \<^verbatim>\<open>uart.c\<close>.
  \<^item> \<open>File\<close>: \<^verbatim>\<open>file.c\<close> and \<^verbatim>\<open>pipe.c\<close>. \<open>Syscall\<close>: the arguments of system calls, \<^verbatim>\<open>syscall.c\<close>.
    \<open>Sysfile\<close>: \<^verbatim>\<open>sysfile.c\<close>. \<open>Exec\<close>: \<^verbatim>\<open>exec.c\<close>. \<open>Fork\<close>: the rest of \<^verbatim>\<open>proc.c\<close>.
    \<open>Sysproc\<close>: \<^verbatim>\<open>sysproc.c\<close>. \<open>Trap\<close>: \<^verbatim>\<open>trap.c\<close> and the dispatch of system calls.
  \<^item> \<open>Proc_Life\<close>, \<open>Pipe_Props\<close>, \<open>Path_Props\<close>, \<open>Syscall_Props\<close>, \<open>Msg_Props\<close> hold what is shown of them: \<^verbatim>\<open>wait\<close> frees
    a zombie and everything it had, and \<^verbatim>\<open>kill(0)\<close> spoils an unused slot; a pipe is a bounded queue, and no
    wakeup is lost unless the writer is killed; \<open>namex\<close> follows a path element by element; the
    arguments of a system call are taken from the memory of the process or refused; the message queue
    delivers in order, except that receiving the first message of a full queue leaves it there.
  \<^item> \<open>Ide\<close>: \<^verbatim>\<open>ide.c\<close>, the driver of the real disk, beside the memory disk on which the file system is
    modelled. Requests are served in the order in which they were made. The walk to the end of the
    request list takes at most 31 steps, one more than there are buffers.
  \<^item> \<open>Mp\<close>: \<^verbatim>\<open>mp.c\<close>, with the level \<open>kplat\<close> of the state for the devices; what the scan of the
    configuration table records, and that it never ends on an unknown entry. \<open>Apic\<close>: \<^verbatim>\<open>lapic.c\<close>,
    \<^verbatim>\<open>ioapic.c\<close>, \<^verbatim>\<open>picirq.c\<close>, \<^verbatim>\<open>uartinit\<close>; the clock is read correctly. \<open>Kmain\<close>: \<^verbatim>\<open>main.c\<close>, \<^verbatim>\<open>seginit\<close>,
    \<^verbatim>\<open>tvinit\<close>; the gates and segments a process can use. Reads of device registers are
    answered from a list; polling loops are recursions over it, and the end of the list is \<open>Diverge\<close>.
  \<^item> \<open>Boot\<close>: \<^verbatim>\<open>bootmain.c\<close>; the segments of the kernel file are in memory when its entry point is
    called.
  \<^item> \<open>Mkfs\<close>, \<open>Mkfs_Image\<close>, \<open>Mkfs_Props\<close>: \<^verbatim>\<open>mkfs.c\<close>, with a state of its own (the sectors of the image
    and the two counters) and failure as a value. \<open>image_ok\<close> is the invariant of the
    image under construction; the finished image holds exactly the given files.
  \<^item> \<open>Umalloc\<close>, \<open>Umalloc_Props\<close>: \<^verbatim>\<open>umalloc.c\<close>; blocks are disjoint and of the size asked for, and the
    circular free list stays well-formed. \<open>Uprintf\<close>: \<^verbatim>\<open>printf.c\<close>. \<open>Grep\<close>: \<^verbatim>\<open>grep.c\<close>, whose matcher is
    compared with a declarative reading of patterns. \<open>Sh\<close>, \<open>Sh_Print\<close>, \<open>Sh_Run\<close>: the parser of \<^verbatim>\<open>sh.c\<close>, a
    printer it inverts, and the processes and descriptors that running a command gives.
    \<open>Userprogs\<close>: \<^verbatim>\<open>wc\<close>, \<^verbatim>\<open>cat\<close>, \<^verbatim>\<open>echo\<close>, \<^verbatim>\<open>ls\<close> and other small programs, as what they write.
  \<^item> \<open>Rt_Sched\<close>: \<^verbatim>\<open>edf_premption.c\<close> and \<^verbatim>\<open>rms_premption.c\<close>; \<open>Lottery\<close>: \<^verbatim>\<open>lottery_sch_premption.c\<close>. The process
    chosen has the earliest deadline or the shortest period; the lottery finishes whatever \<^verbatim>\<open>rand\<close> returns.

  \<^bold>\<open>Interfaces.\<close> Locales state what one part relies on, and each is interpreted on the definitions of the part
  that provides it: \<open>page_allocator\<close> (\<open>Kalloc\<close>, as \<open>kmem_pages\<close>); \<open>spin_locks\<close>, the lock operations (\<open>Kmonad\<close>, and \<open>Spinlock\<close> for
  those of a processor); \<open>mem_indep\<close>, what does not depend on memory (\<open>Vm_Keeps\<close>, interpreted in \<open>Proc_Inv\<close>); \<open>block_store\<close>, the
  buffer cache (\<open>Bio_Spec\<close>); \<open>fifo\<close>, a bounded queue (\<open>Pipe_Props\<close>); \<open>priority_step\<close>, a step of a priority scheduler (\<open>Rt_Sched\<close>, once
  for each simulation).

  \<^bold>\<open>Not modelled.\<close> Assembly (\<^verbatim>\<open>bootasm.S\<close>, \<^verbatim>\<open>entry.S\<close>, \<^verbatim>\<open>swtch.S\<close>, \<^verbatim>\<open>trapasm.S\<close>, \<dots>) and the generated \<^verbatim>\<open>vectors.S\<close>: the C
  code sees them through the trap frame, the context and the arguments of the definitions. The test
  programs (\<^verbatim>\<open>usertests.c\<close>, \<^verbatim>\<open>forktest.c\<close>, \<^verbatim>\<open>stressfs.c\<close> and the small ones for the additions) only make system
  calls and compare what they return; \<^verbatim>\<open>init.c\<close> is a loop without a result. The scheduling
  simulations read their tasks from the keyboard and print as they go: the tasks are arguments here and the printed
  lines are left out. The descriptor of the task state
  segment in \<^verbatim>\<open>switchuvm\<close> is left out. Interrupts come between operations, not inside them: code that runs with a
  lock held is one step, which \<open>Spinlock\<close> justifies for the lock operations themselves.
\<close>

end
